(* ===== verification/Prelude.thy ===== *)
theory Prelude
  imports Main "HOL-Library.Word" "HOL-Library.Sublist"
begin

text \<open>
  Shared vocabulary of the development: the machine integers of the Rust sources
  as words, the fact collections that the component theories fill, and generic
  lemmas about lists and maps that more than one component uses.

  A \<^verbatim>\<open>u64\<close>, \<^verbatim>\<open>u32\<close> or \<^verbatim>\<open>u8\<close> whose wrap-around or bit pattern matters is a word.
  A \<^verbatim>\<open>usize\<close> that counts elements of an in-memory collection (a slot index, a
  length, a reference count) is a \<open>nat\<close>: it is bounded by the size of the
  collection, so it cannot wrap.
\<close>

unbundle bit_operations_syntax

type_synonym u8 = "8 word"
type_synonym u32 = "32 word"
type_synonym u64 = "64 word"

named_theorems inv_intro \<open>preservation of the component invariants\<close>
named_theorems step_simps \<open>how one operation changes each part of a state\<close>

subsection \<open>Lists used as Rust vectors\<close>

text \<open>
  \<open>swap_remove xs i\<close> is \<^verbatim>\<open>Vec::swap_remove\<close>: the last element takes the place of the
  removed one. The Rust method panics when the index is out of range, and every
  call in the sources takes its index from a search of the same vector.
\<close>

definition swap_remove :: "'a list \<Rightarrow> nat \<Rightarrow> 'a list" where
  "swap_remove xs i = butlast (xs[i := last xs])"

text \<open>\<open>position P xs\<close> is \<^verbatim>\<open>iter().position(P)\<close>: the first index that satisfies \<open>P\<close>.\<close>

fun position :: "('a \<Rightarrow> bool) \<Rightarrow> 'a list \<Rightarrow> nat option" where
  "position P [] = None"
| "position P (x # xs) = (if P x then Some 0 else map_option Suc (position P xs))"

lemma position_None_iff: "position P xs = None \<longleftrightarrow> (\<forall>x\<in>set xs. \<not> P x)"
  by (induction xs) auto

lemma position_SomeD:
  "position P xs = Some i \<Longrightarrow> i < length xs \<and> P (xs ! i) \<and> (\<forall>j<i. \<not> P (xs ! j))"
proof (induction xs arbitrary: i)
  case Nil
  then show ?case by simp
next
  case (Cons x xs)
  show ?case
  proof (cases "P x")
    case True
    with Cons.prems show ?thesis by auto
  next
    case False
    with Cons.prems obtain k where "position P xs = Some k" and i: "i = Suc k" by auto
    with Cons.IH have "k < length xs \<and> P (xs ! k) \<and> (\<forall>j<k. \<not> P (xs ! j))" by blast
    with False i show ?thesis by (auto simp: less_Suc_eq_0_disj)
  qed
qed

lemma position_Some_mem: "position P xs = Some i \<Longrightarrow> xs ! i \<in> set xs"
  by (auto dest: position_SomeD)

lemma bex_set_conv_nth: "(\<exists>x\<in>set xs. P x) \<longleftrightarrow> (\<exists>i<length xs. P (xs ! i))"
  by (metis in_set_conv_nth)

lemma find_Some_mem: "List.find P xs = Some x \<Longrightarrow> x \<in> set xs \<and> P x"
  by (auto simp: find_Some_iff)

lemma length_swap_remove [simp]: "length (swap_remove xs i) = length xs - 1"
  by (simp add: swap_remove_def)

lemma swap_remove_split:
  assumes "i < length xs"
  shows "\<exists>ys zs. xs = ys @ xs ! i # zs \<and> length ys = i \<and>
    swap_remove xs i = ys @ (if zs = [] then [] else last zs # butlast zs)"
proof -
  define ys zs where "ys = take i xs" and "zs = drop (Suc i) xs"
  have xs: "xs = ys @ xs ! i # zs" and len: "length ys = i"
    using assms by (simp_all add: ys_def zs_def id_take_nth_drop)
  have upd: "xs[i := last xs] = ys @ last xs # zs"
    using assms by (simp add: ys_def zs_def upd_conv_take_nth_drop)
  have "swap_remove xs i = ys @ (if zs = [] then [] else last zs # butlast zs)"
  proof (cases "zs = []")
    case True
    then show ?thesis by (simp add: swap_remove_def upd butlast_append)
  next
    case False
    then have "last xs = last zs" by (subst xs) simp
    with upd False show ?thesis by (simp add: swap_remove_def butlast_append)
  qed
  with xs len show ?thesis by blast
qed

lemma mset_swap_remove:
  assumes "i < length xs"
  shows "\<exists>ys zs. xs = ys @ xs ! i # zs \<and> set (swap_remove xs i) = set ys \<union> set zs \<and>
    (distinct xs \<longrightarrow> distinct (swap_remove xs i))"
proof -
  from swap_remove_split [OF assms] obtain ys zs where
    xs: "xs = ys @ xs ! i # zs" and
    sr: "swap_remove xs i = ys @ (if zs = [] then [] else last zs # butlast zs)" by blast
  have zs: "zs \<noteq> [] \<Longrightarrow> set (last zs # butlast zs) = set zs"
    by (metis append_butlast_last_id list.set(2) rotate1.simps(2) set_rotate1)
  have dz: "zs \<noteq> [] \<Longrightarrow> distinct zs \<Longrightarrow> distinct (last zs # butlast zs)"
    by (metis append_butlast_last_id distinct.simps(2) distinct_append distinct_butlast
        not_distinct_conv_prefix)
  have "set (swap_remove xs i) = set ys \<union> set zs"
    using zs by (auto simp: sr)
  moreover have "distinct xs \<Longrightarrow> distinct (swap_remove xs i)"
  proof -
    assume "distinct xs"
    then have d: "distinct (ys @ xs ! i # zs)" using xs by simp
    then show ?thesis using zs dz by (cases "zs = []") (auto simp: sr)
  qed
  ultimately show ?thesis using xs by blast
qed

lemma set_swap_remove_distinct:
  "i < length xs \<Longrightarrow> distinct xs \<Longrightarrow> set (swap_remove xs i) = set xs - {xs ! i}"
proof -
  assume i: "i < length xs" and d: "distinct xs"
  from mset_swap_remove [OF i] obtain ys zs where
    xs: "xs = ys @ xs ! i # zs" and s: "set (swap_remove xs i) = set ys \<union> set zs" by blast
  from d have "distinct (ys @ xs ! i # zs)" using xs by simp
  then have "set (ys @ xs ! i # zs) - {xs ! i} = set ys \<union> set zs" by auto
  with s show ?thesis using xs by simp
qed

lemma distinct_swap_remove: "i < length xs \<Longrightarrow> distinct xs \<Longrightarrow> distinct (swap_remove xs i)"
  by (drule mset_swap_remove) (elim exE conjE, erule mp)

subsection \<open>Leading matches\<close>

text \<open>
  \<open>leading_matches want have\<close> is the \<^verbatim>\<open>zip\<close>, \<^verbatim>\<open>take_while\<close>, \<^verbatim>\<open>count\<close> chain that both
  the linear prefix index and the prompt cache use: the length of the longest
  common prefix.
\<close>

fun leading_matches :: "'a list \<Rightarrow> 'a list \<Rightarrow> nat" where
  "leading_matches (a # as) (b # bs) = (if a = b then Suc (leading_matches as bs) else 0)"
| "leading_matches _ _ = 0"

lemma leading_matches_take:
  "take (leading_matches xs ys) xs = take (leading_matches xs ys) ys"
  by (induction xs ys rule: leading_matches.induct) auto

lemma leading_matches_le: "leading_matches xs ys \<le> length xs \<and> leading_matches xs ys \<le> length ys"
  by (induction xs ys rule: leading_matches.induct) auto

lemma leading_matches_greatest:
  "take k xs = take k ys \<Longrightarrow> k \<le> length xs \<Longrightarrow> k \<le> length ys \<Longrightarrow> k \<le> leading_matches xs ys"
proof (induction xs ys arbitrary: k rule: leading_matches.induct)
  case (1 a as b bs)
  then show ?case by (cases k) auto
qed auto

lemma leading_matches_ge_iff:
  "k \<le> leading_matches xs ys \<longleftrightarrow> k \<le> length xs \<and> k \<le> length ys \<and> take k xs = take k ys"
proof
  assume "k \<le> leading_matches xs ys"
  then show "k \<le> length xs \<and> k \<le> length ys \<and> take k xs = take k ys"
    using leading_matches_le [of xs ys] leading_matches_take [of xs ys]
    by (metis le_trans min.absorb1 take_take)
qed (auto intro: leading_matches_greatest)

lemma leading_matches_self [simp]: "leading_matches xs xs = length xs"
  by (induction xs) auto

subsection \<open>Saturating 64-bit arithmetic\<close>

definition U64_MAX :: nat where "U64_MAX = 2 ^ 64 - 1"

definition sat_add :: "nat \<Rightarrow> nat \<Rightarrow> nat" where "sat_add a b = min (a + b) U64_MAX"
definition sat_mul :: "nat \<Rightarrow> nat \<Rightarrow> nat" where "sat_mul a b = min (a * b) U64_MAX"

lemma sat_add_exact: "a + b \<le> U64_MAX \<Longrightarrow> sat_add a b = a + b"
  by (simp add: sat_add_def)

lemma sat_mul_exact: "a * b \<le> U64_MAX \<Longrightarrow> sat_mul a b = a * b"
  by (simp add: sat_mul_def)

lemma sat_le_max [simp, intro]: "sat_add a b \<le> U64_MAX" "sat_mul a b \<le> U64_MAX"
  by (simp_all add: sat_add_def sat_mul_def)

lemma sat_add_mono: "a \<le> c \<Longrightarrow> b \<le> d \<Longrightarrow> sat_add a b \<le> sat_add c d"
  by (auto simp: sat_add_def min_def)

lemma sat_mul_two: "sat_add (sat_mul e 2) (sat_mul e 2) = sat_mul (sat_mul e 2) 2"
  by (auto simp: sat_add_def sat_mul_def min_def)

end
