(* ===== verification/BlockEvents.thy ===== *)
theory BlockEvents
  imports Prelude
begin

text \<open>
  The lifecycle events of \<^verbatim>\<open>block_manager/events.rs\<close>. An \<^verbatim>\<open>EventReleaseHandle\<close> is an
  \<^verbatim>\<open>Arc\<close> around the block hash whose destructor emits \<^verbatim>\<open>Remove\<close>; here the live \<^verbatim>\<open>Arc\<close>
  cells are a map from a handle id to the hash and the strong count, and the events
  the manager fanned out are a list in emission order. The subscribers are outside
  the model: they see exactly that list.

  \<open>release_conserve\<close> is the accounting behind "the \<^verbatim>\<open>Remove\<close> event fires exactly once":
  every minted handle is either still live or has produced one \<^verbatim>\<open>Remove\<close>.
\<close>

datatype kv_event = Create u64 | Remove u64

record event_state =
  releases :: "nat \<rightharpoonup> u64 \<times> nat"
  next_release :: nat
  emitted :: "kv_event list"

definition event_new :: event_state where
  "event_new = \<lparr>releases = (\<lambda>_. None), next_release = 0, emitted = []\<rparr>"

definition emit :: "kv_event \<Rightarrow> event_state \<Rightarrow> event_state" where
  "emit x e = e\<lparr>emitted := emitted e @ [x]\<rparr>"

text \<open>\<^verbatim>\<open>EventReleaseHandle::new\<close>, \<^verbatim>\<open>clone_for_dup\<close>, and the drop of one clone.\<close>

definition release_mint :: "u64 \<Rightarrow> event_state \<Rightarrow> event_state \<times> nat" where
  "release_mint hash e =
     (e\<lparr>releases := (releases e)(next_release e \<mapsto> (hash, 1)),
        next_release := Suc (next_release e)\<rparr>, next_release e)"

definition release_clone :: "nat \<Rightarrow> event_state \<Rightarrow> event_state" where
  "release_clone r e =
     (case releases e r of
        None \<Rightarrow> e
      | Some (hash, n) \<Rightarrow> e\<lparr>releases := (releases e)(r \<mapsto> (hash, Suc n))\<rparr>)"

definition release_drop :: "nat \<Rightarrow> event_state \<Rightarrow> event_state" where
  "release_drop r e =
     (case releases e r of
        None \<Rightarrow> e
      | Some (hash, n) \<Rightarrow>
          if n \<le> 1 then emit (Remove hash) (e\<lparr>releases := (releases e)(r := None)\<rparr>)
          else e\<lparr>releases := (releases e)(r \<mapsto> (hash, n - 1))\<rparr>)"

definition release_drop_opt :: "nat option \<Rightarrow> event_state \<Rightarrow> event_state" where
  "release_drop_opt ro e = (case ro of None \<Rightarrow> e | Some r \<Rightarrow> release_drop r e)"

subsection \<open>The power-of-two batch filter\<close>

text \<open>\<^verbatim>\<open>usize::is_power_of_two\<close>.\<close>

fun is_power_of_two :: "nat \<Rightarrow> bool" where
  "is_power_of_two n = (if n \<le> 1 then n = 1 else even n \<and> is_power_of_two (n div 2))"

declare is_power_of_two.simps [simp del]

definition keep :: "nat \<Rightarrow> bool" where
  "keep pos \<longleftrightarrow> pos > 0 \<and> is_power_of_two pos"

definition p2_filter :: "'a list \<Rightarrow> 'a list" where
  "p2_filter batch = map snd (filter (\<lambda>(i, v). keep (i + 1)) (enumerate 0 batch))"

lemma is_power_of_two_iff: "is_power_of_two n \<longleftrightarrow> (\<exists>k. n = 2 ^ k)"
proof (induction n rule: is_power_of_two.induct)
  case (1 n)
  show ?case
  proof (cases "n \<le> 1")
    case True
    then show ?thesis
      by (subst is_power_of_two.simps) (auto intro: exI [of _ 0] simp: le_Suc_eq)
  next
    case False
    have "even n \<and> (\<exists>k. n div 2 = 2 ^ k) \<longleftrightarrow> (\<exists>k. n = 2 ^ k)"
    proof
      assume "even n \<and> (\<exists>k. n div 2 = 2 ^ k)"
      then obtain k where "n div 2 = 2 ^ k" "even n" by blast
      then have "n = 2 ^ Suc k" by (auto elim: evenE)
      then show "\<exists>k. n = 2 ^ k" ..
    next
      assume "\<exists>k. n = 2 ^ k"
      then obtain k where k: "n = 2 ^ k" ..
      with False obtain j where "k = Suc j" by (cases k) auto
      with k show "even n \<and> (\<exists>k. n div 2 = 2 ^ k)" by auto
    qed
    with False 1 show ?thesis by (subst is_power_of_two.simps) simp
  qed
qed

lemma keep_iff: "keep p \<longleftrightarrow> (\<exists>k. p = 2 ^ k)"
  by (auto simp: keep_def is_power_of_two_iff)

lemma p2_filter_snoc:
  "p2_filter (xs @ [x]) = p2_filter xs @ (if keep (length xs + 1) then [x] else [])"
  by (simp add: p2_filter_def enumerate_append_eq)

lemma length_p2_filter:
  "length (p2_filter xs) = card {k. 2 ^ k \<le> length xs}"
proof (induction xs rule: rev_induct)
  case Nil
  then show ?case by (simp add: p2_filter_def)
next
  case (snoc x xs)
  let ?n = "length xs"
  have fin: "finite {k :: nat. 2 ^ k \<le> ?n}"
  proof (rule finite_subset)
    show "{k. 2 ^ k \<le> ?n} \<subseteq> {..?n}"
    proof
      fix k :: nat
      assume "k \<in> {k. 2 ^ k \<le> ?n}"
      then have "2 ^ k \<le> ?n" by simp
      moreover have "k < 2 ^ k" by (rule less_exp)
      ultimately have "k \<le> ?n" by linarith
      then show "k \<in> {..?n}" by simp
    qed
  qed simp
  show ?case
  proof (cases "keep (?n + 1)")
    case True
    then obtain k where k: "?n + 1 = 2 ^ k" by (auto simp: keep_iff)
    have eq: "2 ^ j = Suc ?n \<longleftrightarrow> j = k" for j :: nat
      using k by auto
    then have "{j. 2 ^ j \<le> ?n + 1} = insert k {j. 2 ^ j \<le> ?n}"
      by (simp only: Suc_eq_plus1 [symmetric] le_Suc_eq) auto
    moreover have "k \<notin> {j. 2 ^ j \<le> ?n}" using k by simp
    ultimately show ?thesis using True fin snoc by (simp add: p2_filter_snoc)
  next
    case False
    then have "2 ^ j \<noteq> Suc ?n" for j :: nat
      by (metis keep_iff Suc_eq_plus1)
    then have "{j. 2 ^ j \<le> ?n + 1} = {j. 2 ^ j \<le> ?n}" by (auto simp: le_Suc_eq)
    with False snoc show ?thesis by (simp add: p2_filter_snoc)
  qed
qed

subsection \<open>Accounting of release handles\<close>

definition is_remove :: "kv_event \<Rightarrow> bool" where
  "is_remove x = (case x of Remove _ \<Rightarrow> True | Create _ \<Rightarrow> False)"

definition n_removes :: "event_state \<Rightarrow> nat" where
  "n_removes e = length (filter is_remove (emitted e))"

lemma n_removes_simps [simp]:
  "n_removes (emit (Create h) e) = n_removes e"
  "n_removes (emit (Remove h) e) = Suc (n_removes e)"
  "n_removes (e\<lparr>releases := m\<rparr>) = n_removes e"
  "n_removes (e\<lparr>next_release := k\<rparr>) = n_removes e"
  by (simp_all add: n_removes_def emit_def is_remove_def)

lemma emit_simps [simp]:
  "releases (emit x e) = releases e" "next_release (emit x e) = next_release e"
  by (simp_all add: emit_def)

text \<open>Handle ids below \<open>next_release\<close> only, and minted = live + removed.\<close>

definition release_inv :: "event_state \<Rightarrow> bool" where
  "release_inv e \<longleftrightarrow> dom (releases e) \<subseteq> {..<next_release e} \<and>
     card (dom (releases e)) + n_removes e = next_release e \<and>
     (\<forall>r h n. releases e r = Some (h, n) \<longrightarrow> 0 < n)"

lemma release_inv_fin: "release_inv e \<Longrightarrow> finite (dom (releases e))"
  by (auto simp: release_inv_def intro: finite_subset)

lemma release_inv_new [simp]: "release_inv event_new"
  by (simp add: release_inv_def event_new_def n_removes_def)

lemma release_inv_create [inv_intro]: "release_inv e \<Longrightarrow> release_inv (emit (Create h) e)"
  by (simp add: release_inv_def)

lemma release_inv_mint [inv_intro]: "release_inv e \<Longrightarrow> release_inv (fst (release_mint h e))"
proof -
  assume inv: "release_inv e"
  then have "next_release e \<notin> dom (releases e)" by (auto simp: release_inv_def)
  with release_inv_fin [OF inv]
  have "card (insert (next_release e) (dom (releases e))) = Suc (card (dom (releases e)))" by simp
  with inv show ?thesis by (auto simp: release_inv_def release_mint_def)
qed

lemma release_inv_set:
  assumes inv: "release_inv e" and r: "releases e r = Some hn" and "0 < n"
  shows "release_inv (e\<lparr>releases := (releases e)(r \<mapsto> (h, n))\<rparr>)"
proof -
  have "insert r (dom (releases e)) = dom (releases e)" using r by auto
  with inv \<open>0 < n\<close> show ?thesis by (auto simp: release_inv_def)
qed

lemma release_inv_clone [inv_intro]: "release_inv e \<Longrightarrow> release_inv (release_clone r e)"
  by (auto simp: release_clone_def release_inv_set split: option.split)

lemma release_inv_drop [inv_intro]: "release_inv e \<Longrightarrow> release_inv (release_drop r e)"
proof -
  assume inv: "release_inv e"
  show ?thesis
  proof (cases "releases e r")
    case None
    with inv show ?thesis by (simp add: release_drop_def)
  next
    case (Some hn)
    obtain h n where hn: "hn = (h, n)" by force
    show ?thesis
    proof (cases "n \<le> 1")
      case True
      have "card (dom (releases e)) = Suc (card (dom (releases e) - {r}))"
        using release_inv_fin [OF inv] Some by (metis card_Suc_Diff1 domI)
      with inv Some hn True show ?thesis
        by (auto simp: release_inv_def release_drop_def)
    next
      case False
      with release_inv_set [OF inv Some, of "n - 1" h] Some hn show ?thesis
        by (simp add: release_drop_def)
    qed
  qed
qed

lemma release_inv_drop_opt [inv_intro]: "release_inv e \<Longrightarrow> release_inv (release_drop_opt ro e)"
  by (auto simp: release_drop_opt_def inv_intro split: option.split)

subsection \<open>Properties\<close>

text \<open>
  The power-of-two filter keeps exactly the entries at the one-based positions
  1, 2, 4, 8, ..., in order, so a batch of \<open>n\<close> events costs one more than the
  binary logarithm of \<open>n\<close> notifications.
\<close>

theorem p2_filter_exact:
  "p2_filter xs = nths xs {i. \<exists>k. i + 1 = 2 ^ k} \<and>
   length (p2_filter xs) = card {k. 2 ^ k \<le> length xs}"
proof
  show "p2_filter xs = nths xs {i. \<exists>k. i + 1 = 2 ^ k}"
  proof (induction xs rule: rev_induct)
    case (snoc x xs)
    then show ?case by (simp add: p2_filter_snoc nths_append keep_iff nths_singleton)
  qed (simp add: p2_filter_def)
qed (rule length_p2_filter)

end
