(* ===== verification/BlockHash.thy ===== *)
theory BlockHash
  imports Prelude
begin

text \<open>
  The chained FNV-1a-64 block digests that key every prefix cache of the program:
  \<^verbatim>\<open>crates/rmlx-models/src/block_manager/hash.rs\<close> (the block manager's copy),
  \<^verbatim>\<open>crates/rmlx-kv-ssd/src/hashing.rs\<close> (the prompt cache's and the SSD tier's) and
  the seed mixing of \<^verbatim>\<open>BlockManagerConfig::chained_seed\<close>. A token id is a \<^verbatim>\<open>u32\<close> and
  a digest a \<^verbatim>\<open>u64\<close>, both words, because the digest arithmetic wraps.

  The lemmas show that a block's digest is a bijection of the seed it starts from,
  so that two seeds give digest streams that differ at every position, and that
  equal token prefixes give equal digest prefixes.
\<close>

definition FNV_OFFSET :: u64 where "FNV_OFFSET = 0xcbf29ce484222325"
definition FNV_PRIME :: u64 where "FNV_PRIME = 0x100000001b3"

text \<open>\<^verbatim>\<open>u32::to_le_bytes\<close> and \<^verbatim>\<open>u64::to_le_bytes\<close>.\<close>

definition le_bytes32 :: "u32 \<Rightarrow> u8 list" where
  "le_bytes32 w = map (\<lambda>i. ucast (drop_bit (8 * i) w)) [0..<4]"

definition le_bytes64 :: "u64 \<Rightarrow> u8 list" where
  "le_bytes64 w = map (\<lambda>i. ucast (drop_bit (8 * i) w)) [0..<8]"

fun fnv1a64_seeded :: "u8 list \<Rightarrow> u64 \<Rightarrow> u64" where
  "fnv1a64_seeded [] h = h"
| "fnv1a64_seeded (b # bs) h = fnv1a64_seeded bs ((h XOR ucast b) * FNV_PRIME)"

fun chained_block_digest :: "u32 list \<Rightarrow> u64 \<Rightarrow> u64" where
  "chained_block_digest [] prev = prev"
| "chained_block_digest (tok # toks) prev =
     chained_block_digest toks (fnv1a64_seeded (le_bytes32 tok) prev)"

definition initial_seed :: "u64 \<Rightarrow> u64" where
  "initial_seed layout_key = FNV_OFFSET XOR layout_key"

text \<open>
  The loop over the full blocks. \<open>block_slice\<close> is the slice
  \<^verbatim>\<open>&tokens[b * block..(b + 1) * block]\<close>; the trailing partial block is dropped
  because the loop runs to \<^verbatim>\<open>len / block\<close>.
\<close>

definition block_slice :: "nat \<Rightarrow> u32 list \<Rightarrow> nat \<Rightarrow> u32 list" where
  "block_slice block ids b = take block (drop (b * block) ids)"

fun digest_loop :: "nat \<Rightarrow> u32 list \<Rightarrow> nat list \<Rightarrow> u64 \<Rightarrow> u64 list" where
  "digest_loop block ids [] prev = []"
| "digest_loop block ids (b # bs) prev =
     (let d = chained_block_digest (block_slice block ids b) prev
      in d # digest_loop block ids bs d)"

definition block_digests :: "nat \<Rightarrow> u32 list \<Rightarrow> u64 \<Rightarrow> u64 list" where
  "block_digests block ids seed = digest_loop block ids [0..<length ids div block] seed"

subsection \<open>The prompt cache's stream\<close>

definition BLOCK_TOKENS :: nat where "BLOCK_TOKENS = 256"

definition chained_block_hashes_seeded :: "u32 list \<Rightarrow> u64 \<Rightarrow> u64 list" where
  "chained_block_hashes_seeded ids seed = block_digests BLOCK_TOKENS ids seed"

definition chained_block_hashes :: "u32 list \<Rightarrow> u64 list" where
  "chained_block_hashes ids = chained_block_hashes_seeded ids FNV_OFFSET"

text \<open>
  \<open>cache_seed\<close> takes the codec salts (\<^verbatim>\<open>KvQuant::cache_key_salt\<close>) of the request's
  codec and of each layer's.
\<close>

fun fold_salts :: "u64 list \<Rightarrow> u64 \<Rightarrow> u64" where
  "fold_salts [] h = h"
| "fold_salts (q # qs) h = fold_salts qs ((h XOR q) * FNV_PRIME)"

definition cache_seed :: "u64 \<Rightarrow> u64 \<Rightarrow> u64 list \<Rightarrow> u64 \<Rightarrow> u64" where
  "cache_seed layout_key kv_salt layer_salts model_sig =
     fold_salts layer_salts (FNV_OFFSET XOR layout_key XOR kv_salt XOR model_sig)"

subsection \<open>The block manager's seed\<close>

definition chained_seed :: "u64 \<Rightarrow> u64 option \<Rightarrow> u64 option \<Rightarrow> u64" where
  "chained_seed layout_key lora_salt mm_hash =
     (let s = layout_key;
          s = (case lora_salt of None \<Rightarrow> s
               | Some l \<Rightarrow> word_rotl 13 (s XOR l) * FNV_PRIME);
          s = (case mm_hash of None \<Rightarrow> s
               | Some m \<Rightarrow> word_rotl 29 ((s * FNV_PRIME) XOR m))
      in initial_seed s)"

subsection \<open>Digests are injective in their seed\<close>

definition FNV_PRIME_INV :: u64 where "FNV_PRIME_INV = 0xce965057aff6957b"

lemma fnv_prime_unit: "FNV_PRIME * FNV_PRIME_INV = 1"
  by (simp add: FNV_PRIME_def FNV_PRIME_INV_def)

lemma mult_prime_eq_iff [simp]: "x * FNV_PRIME = y * FNV_PRIME \<longleftrightarrow> x = y"
proof
  assume "x * FNV_PRIME = y * FNV_PRIME"
  then have "x * FNV_PRIME * FNV_PRIME_INV = y * FNV_PRIME * FNV_PRIME_INV" by simp
  then show "x = y" by (simp add: mult.assoc fnv_prime_unit)
qed simp

lemma xor_cancel_right [simp]: "(x :: 'a :: len word) XOR z = y XOR z \<longleftrightarrow> x = y"
  by (metis xor.assoc xor.right_neutral xor_self_eq)

lemma xor_cancel_left [simp]: "(z :: 'a :: len word) XOR x = z XOR y \<longleftrightarrow> x = y"
  by (metis xor.assoc xor.left_neutral xor_self_eq)

lemma fnv1a64_seeded_inj: "fnv1a64_seeded bs h = fnv1a64_seeded bs h' \<longleftrightarrow> h = h'"
  by (induction bs arbitrary: h h') auto

lemma chained_block_digest_inj:
  "chained_block_digest toks s = chained_block_digest toks s' \<longleftrightarrow> s = s'"
  by (induction toks arbitrary: s s') (auto simp: fnv1a64_seeded_inj)

lemma fold_salts_inj: "fold_salts qs h = fold_salts qs h' \<longleftrightarrow> h = h'"
  by (induction qs arbitrary: h h') auto

lemma length_digest_loop [simp]: "length (digest_loop block ids bs prev) = length bs"
  by (induction bs arbitrary: prev) (auto simp: Let_def)

lemma digest_loop_Nil_iff [simp]: "digest_loop block ids bs prev = [] \<longleftrightarrow> bs = []"
  by (cases bs) (auto simp: Let_def)

lemma digest_loop_disjoint:
  "s \<noteq> s' \<Longrightarrow> i < length bs \<Longrightarrow> digest_loop block ids bs s ! i \<noteq> digest_loop block ids bs s' ! i"
proof (induction bs arbitrary: s s' i)
  case (Cons b bs)
  then show ?case by (cases i) (auto simp: Let_def chained_block_digest_inj)
qed simp

lemma length_block_digests [simp]: "length (block_digests block ids seed) = length ids div block"
  by (simp add: block_digests_def)

lemma length_chained_block_hashes_seeded [simp]:
  "length (chained_block_hashes_seeded ids seed) = length ids div 256"
  by (simp add: chained_block_hashes_seeded_def BLOCK_TOKENS_def)

lemma digest_loop_append:
  "digest_loop block ids (bs @ cs) prev =
     digest_loop block ids bs prev @
     digest_loop block ids cs (if bs = [] then prev else last (digest_loop block ids bs prev))"
proof (induction bs arbitrary: prev)
  case (Cons b bs)
  show ?case
    by (cases "bs = []") (simp_all add: Let_def Cons.IH)
qed simp

lemma digest_loop_cong:
  "(\<And>b. b \<in> set bs \<Longrightarrow> block_slice block ids b = block_slice block ids' b) \<Longrightarrow>
     digest_loop block ids bs prev = digest_loop block ids' bs prev"
  by (induction bs arbitrary: prev) (auto simp: Let_def)

lemma block_slice_prefix:
  assumes "take (k * block) ids = take (k * block) ids'" and "b < k"
  shows "block_slice block ids b = block_slice block ids' b"
proof -
  have le: "block \<le> k * block - b * block"
  proof -
    from \<open>b < k\<close> obtain d where "k = b + Suc d" using less_imp_Suc_add by auto
    then show ?thesis by (simp add: algebra_simps)
  qed
  have *: "take block (drop (b * block) xs) = take block (drop (b * block) (take (k * block) xs))"
    for xs :: "u32 list"
    using le by (simp add: drop_take min_absorb1)
  show ?thesis using * [of ids] * [of ids'] assms(1) by (simp only: block_slice_def)
qed

lemma take_block_digests:
  assumes "k \<le> length ids div block"
  shows "take k (block_digests block ids seed) = digest_loop block ids [0..<k] seed"
proof -
  have "[0..<length ids div block] = [0..<k] @ [k..<length ids div block]"
    using assms by (metis le_add_diff_inverse upt_add_eq_append zero_le)
  then show ?thesis
    by (simp add: block_digests_def digest_loop_append)
qed

lemma block_digests_prefix:
  assumes "take (k * block) ids = take (k * block) ids'"
    and "k \<le> length ids div block" and "k \<le> length ids' div block"
  shows "take k (block_digests block ids seed) = take k (block_digests block ids' seed)"
proof -
  have "digest_loop block ids [0..<k] seed = digest_loop block ids' [0..<k] seed"
    by (rule digest_loop_cong) (simp add: block_slice_prefix [OF assms(1)])
  with assms show ?thesis by (simp add: take_block_digests)
qed

lemma leading_matches_distinct_seeds:
  assumes "s \<noteq> s'"
  shows "leading_matches (block_digests block ids s) (block_digests block ids s') = 0"
proof (cases "length ids div block")
  case 0
  then have "block_digests block ids s = []" by (simp add: block_digests_def)
  then show ?thesis by simp
next
  case (Suc n)
  have "block_digests block ids t ! 0 = hd (block_digests block ids t)" for t
    using Suc by (metis hd_conv_nth length_0_conv length_block_digests nat.distinct(1))
  moreover have "block_digests block ids s ! 0 \<noteq> block_digests block ids s' ! 0"
    using assms Suc by (simp add: block_digests_def digest_loop_disjoint del: upt_Suc)
  moreover obtain a as b bs where "block_digests block ids s = a # as"
    and "block_digests block ids s' = b # bs"
    using Suc by (metis length_Suc_conv length_block_digests)
  ultimately show ?thesis by simp
qed

lemma rotl_inj [simp]: "word_rotl n (x :: 'a :: len word) = word_rotl n y \<longleftrightarrow> x = y"
  by (metis word_rot_gal' word_rot_lr)

subsection \<open>Properties\<close>

text \<open>
  Scoping by seed. The same prompt hashed for two models (or under two codecs or
  layouts, since all three are mixed into the seed) gives digest streams that share
  no leading block, so one never serves as a prefix hit for the other.
\<close>

theorem digest_streams_scoped:
  assumes "model_sig \<noteq> model_sig'"
  shows "leading_matches
      (chained_block_hashes_seeded ids (cache_seed layout kv_salt layer_salts model_sig))
      (chained_block_hashes_seeded ids (cache_seed layout kv_salt layer_salts model_sig')) = 0"
  using assms unfolding chained_block_hashes_seeded_def
  by (intro leading_matches_distinct_seeds) (simp add: cache_seed_def fold_salts_inj)

theorem digest_streams_scoped_witness:
  "leading_matches
      (chained_block_hashes_seeded (replicate 512 7) (cache_seed 0 3 [3, 3] 17))
      (chained_block_hashes_seeded (replicate 512 7) (cache_seed 0 3 [3, 3] 18)) = 0"
  by (rule digest_streams_scoped) simp

text \<open>Prefix stability. Prompts that agree on their first \<open>k\<close> full blocks have
  digest streams that agree on their first \<open>k\<close> entries: a common prefix is found.
\<close>

theorem common_prefix_common_digests:
  assumes "take (k * 256) ids = take (k * 256) ids'" "k * 256 \<le> length ids" "k * 256 \<le> length ids'"
  shows "k \<le> leading_matches (chained_block_hashes_seeded ids seed) (chained_block_hashes_seeded ids' seed)"
proof -
  have "k \<le> length ids div 256" "k \<le> length ids' div 256"
    using assms(2,3) by (simp_all add: less_eq_div_iff_mult_less_eq)
  with assms(1) block_digests_prefix [of k 256 ids ids' seed] show ?thesis
    by (simp add: leading_matches_ge_iff chained_block_hashes_seeded_def BLOCK_TOKENS_def)
qed

theorem common_prefix_common_digests_witness:
  "1 \<le> leading_matches (chained_block_hashes_seeded (replicate 256 7 @ [1]) 0)
     (chained_block_hashes_seeded (replicate 256 7 @ [2, 3]) 0)"
  by (rule common_prefix_common_digests) simp_all

text \<open>
  The block manager's seed separates its three inputs: with the other two fixed
  it is injective in the layout key, in the LoRA salt and in the multimodal hash.
\<close>

theorem chained_seed_injective:
  "(chained_seed k lora mm = chained_seed k' lora mm \<longleftrightarrow> k = k') \<and>
   (chained_seed k (Some l) mm = chained_seed k (Some l') mm \<longleftrightarrow> l = l') \<and>
   (chained_seed k lora (Some m) = chained_seed k lora (Some m') \<longleftrightarrow> m = m')"
  by (cases lora; cases mm) (simp_all add: chained_seed_def initial_seed_def)

end
