(* ===== verification/TinyLfu.thy ===== *)
theory TinyLfu
  imports BlockHash
begin

text \<open>
  The TinyLFU frequency sketch of \<^verbatim>\<open>block_manager/tinylfu.rs\<close>: a Count-Min Sketch of
  4-bit counters packed sixteen to a \<^verbatim>\<open>u64\<close>, with halving decay, and the map from
  an estimate to one of the four eviction tiers. The mutex wrapper
  \<^verbatim>\<open>TinyLfuTracker\<close> adds nothing to the sequential behaviour.

  The lemmas read and write one packed counter, and show that the sketch never
  underestimates a frequency until a decay, saturates at 15, and that a decay
  halves every counter. The \<^verbatim>\<open>u64\<close> fields \<^verbatim>\<open>size\<close> and \<^verbatim>\<open>decay_threshold\<close>, which the
  code updates with saturating operations, are naturals with the saturation
  written out.
\<close>

definition SEEDS :: "u64 list" where
  "SEEDS = [0x243F6A8885A308D3, 0x13198A2E03707344, 0xA4093822299F31D0, 0x082EFA98EC4E6C89]"

definition RESET_MASK :: u64 where "RESET_MASK = 0x7777777777777777"
definition ONE_MASK :: u64 where "ONE_MASK = 0x1111111111111111"

record sketch =
  table :: "u64 list"
  sk_size :: nat
  decay_threshold :: nat
  sk_capacity :: nat

definition sketch_new :: "nat \<Rightarrow> sketch" where
  "sketch_new capacity =
     \<lparr>table = replicate (max (capacity div 4) 1) 0, sk_size = 0,
      decay_threshold = max (min (capacity * 10) U64_MAX) 1, sk_capacity = capacity\<rparr>"

text \<open>The counter at nibble \<open>c\<close> of a table entry, and the entry with it replaced.\<close>

definition nibble :: "u64 \<Rightarrow> nat \<Rightarrow> u64" where
  "nibble entry c = drop_bit (c * 4) entry AND 0xF"

definition set_nibble :: "u64 \<Rightarrow> nat \<Rightarrow> u64 \<Rightarrow> u64" where
  "set_nibble entry c v = (entry AND NOT (push_bit (c * 4) 0xF)) OR push_bit (c * 4) v"

text \<open>Where a key's counter of one hash stream lives: table index and nibble index.\<close>

definition slot_of :: "u64 list \<Rightarrow> u64 \<Rightarrow> u64 \<Rightarrow> nat \<times> nat" where
  "slot_of tbl key seed =
     (let h = fnv1a64_seeded (le_bytes64 key) seed
      in (unat h mod length tbl, unat (h AND 15)))"

fun inc_loop :: "u64 list \<Rightarrow> u64 \<Rightarrow> u64 list \<Rightarrow> bool \<Rightarrow> u64 list \<times> bool" where
  "inc_loop [] key tbl any_inc = (tbl, any_inc)"
| "inc_loop (seed # seeds) key tbl any_inc =
     (let (ti, ci) = slot_of tbl key seed;
          entry = tbl ! ti;
          cur = nibble entry ci
      in if cur < 15 then inc_loop seeds key (tbl[ti := set_nibble entry ci (cur + 1)]) True
         else inc_loop seeds key tbl any_inc)"

definition count_ones :: "u64 \<Rightarrow> nat" where
  "count_ones w = length (filter (bit w) [0..<64])"

definition decay_entry :: "u64 \<Rightarrow> u64" where
  "decay_entry entry = drop_bit 1 entry AND RESET_MASK"

fun decay_zeroed :: "u64 list \<Rightarrow> nat \<Rightarrow> nat" where
  "decay_zeroed [] z = z"
| "decay_zeroed (e # es) z = decay_zeroed es (min (z + count_ones (e AND ONE_MASK)) U64_MAX)"

definition decay :: "sketch \<Rightarrow> sketch" where
  "decay s = s\<lparr>table := map decay_entry (table s),
               sk_size := sk_size s div 2 - decay_zeroed (table s) 0 div 4\<rparr>"

definition increment :: "sketch \<Rightarrow> u64 \<Rightarrow> sketch" where
  "increment s key =
     (let (tbl, any_inc) = inc_loop SEEDS key (table s) False;
          s1 = s\<lparr>table := tbl\<rparr>
      in if any_inc then
           let s2 = s1\<lparr>sk_size := min (sk_size s1 + 1) U64_MAX\<rparr>
           in if sk_size s2 \<ge> decay_threshold s2 then decay s2 else s2
         else s1)"

fun estimate_loop :: "u64 list \<Rightarrow> u64 \<Rightarrow> u64 list \<Rightarrow> nat \<Rightarrow> nat" where
  "estimate_loop [] key tbl min_val = min_val"
| "estimate_loop (seed # seeds) key tbl min_val =
     (let (ti, ci) = slot_of tbl key seed;
          cur = unat (nibble (tbl ! ti) ci)
      in estimate_loop seeds key tbl (if cur < min_val then cur else min_val))"

definition estimate :: "sketch \<Rightarrow> u64 \<Rightarrow> nat" where
  "estimate s key = estimate_loop SEEDS key (table s) 15"

definition MULTI_LRU_THRESHOLDS :: "nat list" where "MULTI_LRU_THRESHOLDS = [3, 8, 15]"

definition bin_for_count :: "nat \<Rightarrow> nat" where
  "bin_for_count count =
     (if count < MULTI_LRU_THRESHOLDS ! 0 then 0
      else if count < MULTI_LRU_THRESHOLDS ! 1 then 1
      else if count < MULTI_LRU_THRESHOLDS ! 2 then 2
      else 3)"

lemma bin_for_count_less: "bin_for_count c < 4"
  by (simp add: bin_for_count_def)

lemma bin_for_count_mono: "a \<le> b \<Longrightarrow> bin_for_count a \<le> bin_for_count b"
  by (simp add: bin_for_count_def MULTI_LRU_THRESHOLDS_def)

subsection \<open>Packed counters\<close>

lemma mask_4: "(15 :: u64) = mask 4"
  by (simp add: mask_eq_exp_minus_1)

lemma nibble_alt: "nibble e c = take_bit 4 (drop_bit (c * 4) e)"
  unfolding nibble_def mask_4 by (simp only: take_bit_eq_mask)

lemma set_nibble_alt:
  "set_nibble e c v = (e AND NOT (push_bit (c * 4) (mask 4))) OR push_bit (c * 4) v"
  unfolding set_nibble_def mask_4 ..

lemma bit_nibble: "bit (nibble e c) n \<longleftrightarrow> bit e (c * 4 + n) \<and> n < 4"
  by (auto simp: nibble_alt bit_simps add.commute)

lemma less_16_bits: "v < 16 \<Longrightarrow> bit (v :: u64) n \<Longrightarrow> n < 4"
proof (rule ccontr)
  assume v: "v < 16" and b: "bit v n" and "\<not> n < 4"
  have "v = take_bit 4 v"
    using v by (simp add: take_bit_eq_mod word_mod_less_divisor mod_word_less)
  then have "bit (take_bit 4 v) n" using b by simp
  with \<open>\<not> n < 4\<close> show False by (simp add: bit_simps)
qed

lemma nibble_set_nibble:
  assumes "c < 16" "c' < 16" "v < 16"
  shows "nibble (set_nibble e c v) c' = (if c = c' then v else nibble e c')"
proof (rule bit_word_eqI)
  fix n :: nat
  assume "n < LENGTH(64)"
  show "bit (nibble (set_nibble e c v) c') n = bit (if c = c' then v else nibble e c') n"
  proof (cases "n < 4")
    case False
    then show ?thesis using less_16_bits [OF assms(3)] by (auto simp: bit_nibble)
  next
    case True
    show ?thesis
    proof (cases "c = c'")
      case True
      with \<open>n < 4\<close> assms show ?thesis
        by (auto simp: bit_nibble set_nibble_alt bit_simps)
    next
      case False
      have *: "\<not> (c * 4 \<le> c' * 4 + n \<and> c' * 4 + n - c * 4 < 4)"
        using False \<open>n < 4\<close> by presburger
      moreover have "bit v (c' * 4 + n - c * 4) \<Longrightarrow> c' * 4 + n - c * 4 < 4"
        using less_16_bits [OF assms(3)] .
      ultimately show ?thesis using False \<open>n < 4\<close> assms
        by (auto simp: bit_nibble set_nibble_alt bit_simps)
    qed
  qed
qed

lemma nibble_le_15: "unat (nibble e c) \<le> 15"
proof -
  have "unat (nibble e c) < 2 ^ 4"
    unfolding nibble_alt unsigned_take_bit_eq by (rule take_bit_nat_less_exp)
  then show ?thesis by simp
qed

lemma nibble_decay_entry:
  assumes "c < 16"
  shows "unat (nibble (decay_entry e) c) = unat (nibble e c) div 2"
proof -
  have mask: "bit (0x7777777777777777 :: u64) m" if "m mod 4 < 3" "m < 64" for m
  proof -
    have "\<forall>i\<in>set [0..<64]. i mod 4 < 3 \<longrightarrow> bit (0x7777777777777777 :: u64) i"
      by code_simp
    with that show ?thesis by simp
  qed
  have mask0: "\<not> bit (0x7777777777777777 :: u64) m" if "m mod 4 = 3" "m < 64" for m
  proof -
    have "\<forall>i\<in>set [0..<64]. i mod 4 = 3 \<longrightarrow> \<not> bit (0x7777777777777777 :: u64) i"
      by code_simp
    with that show ?thesis by simp
  qed
  have "nibble (decay_entry e) c = drop_bit 1 (nibble e c)"
  proof (rule bit_word_eqI)
    fix n :: nat
    consider "n < 3" | "n = 3" | "n > 3" by linarith
    then show "bit (nibble (decay_entry e) c) n = bit (drop_bit 1 (nibble e c)) n"
    proof cases
      case 1
      then have "(c * 4 + n) mod 4 < 3" "c * 4 + n < 64" using assms by presburger+
      from mask [OF this] 1 show ?thesis
        by (simp add: bit_nibble decay_entry_def RESET_MASK_def bit_and_iff bit_drop_bit_eq
            del: bit_numeral_word_iff)
    next
      case 2
      then have "(c * 4 + 3) mod 4 = 3" "c * 4 + 3 < 64" using assms by presburger+
      from mask0 [OF this] 2 show ?thesis
        by (simp add: bit_nibble decay_entry_def RESET_MASK_def bit_and_iff bit_drop_bit_eq
            del: bit_numeral_word_iff)
    next
      case 3
      then show ?thesis by (simp add: bit_nibble bit_drop_bit_eq)
    qed
  qed
  then show ?thesis by (simp add: unat_drop_bit_eq drop_bit_eq_div unat_div)
qed

subsection \<open>Cells of the sketch\<close>

definition cell :: "u64 list \<Rightarrow> nat \<times> nat \<Rightarrow> nat" where
  "cell tbl p = unat (nibble (tbl ! fst p) (snd p))"

definition valid_cell :: "u64 list \<Rightarrow> nat \<times> nat \<Rightarrow> bool" where
  "valid_cell tbl p \<longleftrightarrow> fst p < length tbl \<and> snd p < 16"

lemma slot_of_valid: "tbl \<noteq> [] \<Longrightarrow> valid_cell tbl (slot_of tbl key seed)"
proof -
  have "unat (h AND 15 :: u64) < 16" for h
  proof -
    have "unat (h AND 15 :: u64) \<le> unat (15 :: u64)"
      by (rule word_and_le1 [THEN word_le_nat_alt [THEN iffD1]])
    then show ?thesis by simp
  qed
  then show "tbl \<noteq> [] \<Longrightarrow> ?thesis" by (simp add: slot_of_def valid_cell_def Let_def)
qed

lemma slot_of_length: "length tbl = length tbl' \<Longrightarrow> slot_of tbl key seed = slot_of tbl' key seed"
  by (simp add: slot_of_def)

lemma cell_le_15: "cell tbl p \<le> 15"
  by (simp add: cell_def nibble_le_15)

lemma cell_update:
  assumes "valid_cell tbl p" "valid_cell tbl q" "v < 16"
  shows "cell (tbl[fst q := set_nibble (tbl ! fst q) (snd q) v]) p
    = (if p = q then unat v else cell tbl p)"
  using assms by (cases p; cases q) (auto simp: cell_def valid_cell_def nth_list_update nibble_set_nibble)

lemma inc_loop_length [simp]: "length (fst (inc_loop seeds key tbl b)) = length tbl"
  by (induction seeds arbitrary: tbl b) (auto simp: Let_def split: prod.splits)

lemma valid_cell_update [simp]: "valid_cell (tbl[i := e]) p = valid_cell tbl p"
  by (simp add: valid_cell_def)

text \<open>One pass of the loop: the addressed cell gains one unless it is saturated.\<close>

lemma inc_loop_Cons:
  assumes "tbl \<noteq> []"
  obtains tbl' b' where "inc_loop (seed # seeds) key tbl b = inc_loop seeds key tbl' b'"
    and "length tbl' = length tbl"
    and "\<And>p. valid_cell tbl p \<Longrightarrow> cell tbl' p =
      (if p = slot_of tbl key seed then min 15 (cell tbl p + 1) else cell tbl p)"
proof -
  obtain ti ci where s: "slot_of tbl key seed = (ti, ci)" by force
  have v: "valid_cell tbl (ti, ci)" using slot_of_valid [OF assms, of key seed] s by simp
  let ?cur = "nibble (tbl ! ti) ci"
  show thesis
  proof (cases "?cur < 15")
    case True
    then have un: "unat ?cur < 15" by (simp add: word_less_nat_alt)
    have u: "unat (?cur + 1) = unat ?cur + 1"
      using un by (simp add: unat_word_ariths)
    then have "?cur + 1 < 16" using un by (simp add: word_less_nat_alt)
    note upd = cell_update [OF _ v this, simplified]
    show thesis
    proof (rule that)
      show "inc_loop (seed # seeds) key tbl b =
          inc_loop seeds key (tbl[ti := set_nibble (tbl ! ti) ci (?cur + 1)]) True"
        using True s by (simp add: Let_def)
    qed (use un u in \<open>auto simp: upd s\<close>, simp add: cell_def)
  next
    case False
    then have "cell tbl (ti, ci) \<ge> 15" by (simp add: cell_def word_less_nat_alt)
    then have "cell tbl (ti, ci) = 15" using cell_le_15 [of tbl "(ti, ci)"] by simp
    with False s show thesis by (intro that [of tbl b]) (auto simp: Let_def)
  qed
qed

lemma inc_loop_cell:
  assumes "tbl \<noteq> []" "valid_cell tbl p"
  shows "cell tbl p \<le> cell (fst (inc_loop seeds key tbl b)) p \<and>
    (\<forall>seed\<in>set seeds. p = slot_of tbl key seed \<longrightarrow>
       min 15 (cell tbl p + 1) \<le> cell (fst (inc_loop seeds key tbl b)) p)"
  using assms
proof (induction seeds arbitrary: tbl b)
  case Nil
  then show ?case by simp
next
  case (Cons sd seeds)
  from Cons.prems(1) obtain tbl' b' where
    eq: "inc_loop (sd # seeds) key tbl b = inc_loop seeds key tbl' b'" and
    len: "length tbl' = length tbl" and
    c': "\<And>p. valid_cell tbl p \<Longrightarrow> cell tbl' p =
      (if p = slot_of tbl key sd then min 15 (cell tbl p + 1) else cell tbl p)"
    by (rule inc_loop_Cons) blast
  have ne: "tbl' \<noteq> []" using len Cons.prems(1) by auto
  have v: "valid_cell tbl' p" using len Cons.prems(2) by (simp add: valid_cell_def)
  note slots = slot_of_length [OF len]
  from Cons.IH [OF ne v, of b'] have IH:
    "cell tbl' p \<le> cell (fst (inc_loop seeds key tbl' b')) p"
    "\<forall>seed\<in>set seeds. p = slot_of tbl key seed \<longrightarrow>
       min 15 (cell tbl' p + 1) \<le> cell (fst (inc_loop seeds key tbl' b')) p"
    by (auto simp: slots)
  have ge: "cell tbl p \<le> cell tbl' p"
    using c' [OF Cons.prems(2)] cell_le_15 [of tbl p] by auto
  have hd: "p = slot_of tbl key sd \<Longrightarrow> min 15 (cell tbl p + 1) \<le> cell tbl' p"
    using c' [OF Cons.prems(2)] by simp
  show ?case
    using IH ge hd unfolding eq by (auto intro: order_trans)
qed

lemma estimate_loop_ge_iff:
  "n \<le> estimate_loop seeds key tbl m \<longleftrightarrow>
     n \<le> m \<and> (\<forall>seed\<in>set seeds. n \<le> cell tbl (slot_of tbl key seed))"
  by (induction seeds arbitrary: m) (auto simp: Let_def cell_def split: prod.splits)

lemma estimate_ge_iff:
  "n \<le> estimate s key \<longleftrightarrow>
     n \<le> 15 \<and> (\<forall>seed\<in>set SEEDS. n \<le> cell (table s) (slot_of (table s) key seed))"
  by (simp add: estimate_def estimate_loop_ge_iff)

lemma estimate_le_15: "estimate s key \<le> 15"
  using estimate_ge_iff [of "estimate s key" s key] by simp

text \<open>The table of the sketch right after the counting loop, before any decay.\<close>

definition counted :: "sketch \<Rightarrow> u64 \<Rightarrow> sketch" where
  "counted s key = s\<lparr>table := fst (inc_loop SEEDS key (table s) False)\<rparr>"

lemma counted_estimate:
  assumes "table s \<noteq> []"
  shows "estimate s k \<le> estimate (counted s key) k"
    and "min 15 (estimate s key + 1) \<le> estimate (counted s key) key"
proof -
  let ?t = "fst (inc_loop SEEDS key (table s) False)"
  have sl: "slot_of ?t k' sd = slot_of (table s) k' sd" for k' sd
    by (rule slot_of_length) simp
  note cells = inc_loop_cell [OF assms slot_of_valid [OF assms], of _ _ SEEDS key False]
  have "estimate s k \<le> cell ?t (slot_of (table s) k sd)" if "sd \<in> set SEEDS" for sd
    using cells [of k sd] that estimate_ge_iff [of "estimate s k" s k] by force
  then show "estimate s k \<le> estimate (counted s key) k"
    by (subst estimate_ge_iff) (simp add: counted_def sl estimate_le_15)
  have "min 15 (estimate s key + 1) \<le> cell ?t (slot_of (table s) key sd)"
    if "sd \<in> set SEEDS" for sd
  proof -
    have "estimate s key \<le> cell (table s) (slot_of (table s) key sd)"
      using that estimate_ge_iff [of "estimate s key" s key] by force
    with cells [of key sd] that show ?thesis by fastforce
  qed
  then show "min 15 (estimate s key + 1) \<le> estimate (counted s key) key"
    by (subst estimate_ge_iff) (simp add: counted_def sl)
qed

lemma increment_cases:
  obtains "increment s key = counted s key"
  | "increment s key = (counted s key)\<lparr>sk_size := min (sk_size s + 1) U64_MAX\<rparr>"
  | "increment s key = decay ((counted s key)\<lparr>sk_size := min (sk_size s + 1) U64_MAX\<rparr>)"
      "decay_threshold s \<le> min (sk_size s + 1) U64_MAX"
proof -
  obtain tbl b where l: "inc_loop SEEDS key (table s) False = (tbl, b)" by force
  show thesis
  proof (cases b)
    case False
    then show thesis using l that(1) by (simp add: increment_def counted_def)
  next
    case True
    show thesis
    proof (cases "decay_threshold s \<le> min (sk_size s + 1) U64_MAX")
      case True
      with \<open>b\<close> l show thesis
        by (intro that(3)) (simp_all add: increment_def counted_def Let_def)
    next
      case False
      with \<open>b\<close> l show thesis
        by (intro that(2)) (auto simp: increment_def counted_def Let_def)
    qed
  qed
qed

lemma estimate_sk_size [simp]: "estimate (s\<lparr>sk_size := n\<rparr>) k = estimate s k"
  by (simp add: estimate_def)

lemma length_table_increment [simp]: "length (table (increment s key)) = length (table s)"
  by (rule increment_cases [of s key]) (simp_all add: counted_def decay_def)

lemma decay_estimate:
  assumes "table s \<noteq> []"
  shows "estimate (decay s) key = estimate s key div 2"
proof -
  have c: "cell (table (decay s)) p = cell (table s) p div 2" if "valid_cell (table s) p" for p
    using that by (simp add: cell_def valid_cell_def decay_def nibble_decay_entry)
  have sl: "slot_of (table (decay s)) key sd = slot_of (table s) key sd" for sd
    by (rule slot_of_length) (simp add: decay_def)
  have ge: "n \<le> estimate (decay s) key \<longleftrightarrow> 2 * n \<le> estimate s key" for n
  proof -
    have half: "n \<le> cell (table s) (slot_of (table s) key sd) div 2
        \<longleftrightarrow> 2 * n \<le> cell (table s) (slot_of (table s) key sd)" for sd
      by linarith
    have "2 * n \<le> cell (table s) (slot_of (table s) key (SEEDS ! 0)) \<Longrightarrow> 2 * n \<le> 15"
      using cell_le_15 order_trans by blast
    then show ?thesis
      by (auto simp: estimate_ge_iff sl c [OF slot_of_valid [OF assms]] half SEEDS_def)
  qed
  show ?thesis
    using ge [of "estimate (decay s) key"] ge [of "estimate s key div 2"] by linarith
qed

lemma fold_increment_ge:
  assumes "table s \<noteq> []" "sk_size s + length ks < decay_threshold s"
    and "decay_threshold s \<le> U64_MAX"
  shows "min 15 (estimate s k + count_list ks k) \<le> estimate (fold (\<lambda>k s. increment s k) ks s) k"
  using assms
proof (induction ks arbitrary: s)
  case Nil
  then show ?case by simp
next
  case (Cons x ks)
  let ?s = "increment s x"
  have step: "min 15 (estimate s k + (if x = k then 1 else 0)) \<le> estimate ?s k \<and>
      sk_size ?s \<le> sk_size s + 1 \<and> decay_threshold ?s = decay_threshold s"
    using counted_estimate(1) [OF Cons.prems(1), of k x] counted_estimate(2) [OF Cons.prems(1), of k]
      Cons.prems(2)
    by (cases rule: increment_cases [of s x]) (auto simp: counted_def)
  have "table ?s \<noteq> []" using Cons.prems(1) length_table_increment [of s x]
    by (metis length_0_conv)
  moreover have "sk_size ?s + length ks < decay_threshold ?s"
    using step Cons.prems(2) by simp
  ultimately have "min 15 (estimate ?s k + count_list ks k)
      \<le> estimate (fold (\<lambda>k s. increment s k) ks ?s) k"
    using step Cons.prems(3) by (intro Cons.IH) simp_all
  moreover have "min 15 (estimate s k + count_list (x # ks) k) \<le> min 15 (estimate ?s k + count_list ks k)"
    using step by (auto split: if_splits)
  ultimately show ?case by simp
qed

subsection \<open>Properties\<close>

lemma length_table_fold: "length (table (fold (\<lambda>k s. increment s k) ks s)) = length (table s)"
  by (induction ks arbitrary: s) simp_all

text \<open>The sketch never underestimates. After any sequence of accesses shorter than
  the decay threshold, the estimate of a key is at least the number of its accesses
  (capped at 15), and at most 15.
\<close>

theorem sketch_never_underestimates:
  assumes "length ks < capacity * 10" "capacity * 10 \<le> U64_MAX"
  shows "min 15 (count_list ks k) \<le> estimate (fold (\<lambda>k s. increment s k) ks (sketch_new capacity)) k \<and>
    estimate (fold (\<lambda>k s. increment s k) ks (sketch_new capacity)) k \<le> 15"
proof -
  have "table (sketch_new capacity) \<noteq> []" by (auto simp: sketch_new_def)
  with fold_increment_ge [of "sketch_new capacity" ks k] assms show ?thesis
    by (auto simp: sketch_new_def estimate_le_15 U64_MAX_def)
qed

theorem sketch_never_underestimates_witness:
  "2 \<le> estimate (fold (\<lambda>k s. increment s k) [5, 9, 5] (sketch_new 64)) 5"
  using sketch_never_underestimates [of "[5, 9, 5]" 64 5] by (simp add: U64_MAX_def)

text \<open>
  Decay ages everything alike: the packed shift-and-mask on sixteen counters at a
  time halves the estimate of every key.
\<close>

theorem decay_halves_estimates:
  "estimate (decay (fold (\<lambda>k s. increment s k) ks (sketch_new capacity))) key =
     estimate (fold (\<lambda>k s. increment s k) ks (sketch_new capacity)) key div 2"
proof (rule decay_estimate)
  have "0 < length (table (sketch_new capacity))" by (simp add: sketch_new_def)
  then have "0 < length (table (fold (\<lambda>k s. increment s k) ks (sketch_new capacity)))"
    by (simp only: length_table_fold)
  then show "table (fold (\<lambda>k s. increment s k) ks (sketch_new capacity)) \<noteq> []"
    by (rule length_greater_0_conv [THEN iffD1])
qed

end
