(* ===== verification/MultiLru.thy ===== *)
theory MultiLru
  imports TinyLfu "HOL-Library.Multiset"
begin

text \<open>
  The four-tier inactive index of \<^verbatim>\<open>block_manager/multi_lru.rs\<close>. A pool is a
  \<^verbatim>\<open>VecDeque\<close> of hashes, front first; the backend is the list of its four pools, and
  the TinyLFU sketch it shares with the store is an argument of the operations that
  read it.

  The trait \<^verbatim>\<open>InactiveIndex\<close> is the locale \<open>inactive_index\<close>: what the block store
  relies on. The backend interprets it at the end.
\<close>

type_synonym pools = "u64 list list"

definition mlru_new :: pools where "mlru_new = [[], [], [], []]"

definition vec_remove :: "nat \<Rightarrow> 'a list \<Rightarrow> 'a list" where
  "vec_remove idx xs = take idx xs @ drop (Suc idx) xs"

fun remove_from_any :: "u64 \<Rightarrow> pools \<Rightarrow> pools \<times> bool" where
  "remove_from_any hash [] = ([], False)"
| "remove_from_any hash (pool # rest) =
     (case position (\<lambda>h. h = hash) pool of
        Some idx \<Rightarrow> (vec_remove idx pool # rest, True)
      | None \<Rightarrow> (let (rest', found) = remove_from_any hash rest in (pool # rest', found)))"

definition bin_of :: "sketch \<Rightarrow> u64 \<Rightarrow> nat" where
  "bin_of sk hash = bin_for_count (estimate sk hash)"

definition push_bin :: "sketch \<Rightarrow> u64 \<Rightarrow> pools \<Rightarrow> pools" where
  "push_bin sk hash ps = (let bin = bin_of sk hash in ps[bin := ps ! bin @ [hash]])"

definition mlru_insert :: "sketch \<Rightarrow> u64 \<Rightarrow> pools \<Rightarrow> pools" where
  "mlru_insert sk hash ps = push_bin sk hash (fst (remove_from_any hash ps))"

definition mlru_remove :: "u64 \<Rightarrow> pools \<Rightarrow> pools \<times> bool" where
  "mlru_remove hash ps = remove_from_any hash ps"

definition mlru_touch :: "sketch \<Rightarrow> u64 \<Rightarrow> pools \<Rightarrow> pools" where
  "mlru_touch sk hash ps =
     (let (ps', found) = remove_from_any hash ps
      in if \<not> found then ps' else push_bin sk hash ps')"

fun mlru_evict :: "pools \<Rightarrow> (u64 \<times> pools) option" where
  "mlru_evict [] = None"
| "mlru_evict ((h # pool) # rest) = Some (h, pool # rest)"
| "mlru_evict ([] # rest) = map_option (\<lambda>(h, rest'). (h, [] # rest')) (mlru_evict rest)"

definition mlru_contains :: "u64 \<Rightarrow> pools \<Rightarrow> bool" where
  "mlru_contains hash ps = list_ex (\<lambda>p. list_ex (\<lambda>h. h = hash) p) ps"

definition mlru_len :: "pools \<Rightarrow> nat" where
  "mlru_len ps = sum_list (map length ps)"

definition tier_lens :: "pools \<Rightarrow> nat list" where
  "tier_lens ps = map length ps"

subsection \<open>The contract of an inactive index\<close>

locale inactive_index =
  fixes ins :: "'h \<Rightarrow> 'i \<Rightarrow> 'i"
    and rem :: "'h \<Rightarrow> 'i \<Rightarrow> 'i \<times> bool"
    and tch :: "'h \<Rightarrow> 'i \<Rightarrow> 'i"
    and evict :: "'i \<Rightarrow> ('h \<times> 'i) option"
    and len :: "'i \<Rightarrow> nat"
    and elems :: "'i \<Rightarrow> 'h set"
    and invar :: "'i \<Rightarrow> bool"
  assumes invar_ins: "invar i \<Longrightarrow> invar (ins h i)"
    and invar_rem: "invar i \<Longrightarrow> invar (fst (rem h i))"
    and invar_tch: "invar i \<Longrightarrow> invar (tch h i)"
    and invar_evict: "invar i \<Longrightarrow> evict i = Some (h, i') \<Longrightarrow> invar i'"
    and elems_ins: "invar i \<Longrightarrow> elems (ins h i) = insert h (elems i)"
    and elems_rem: "invar i \<Longrightarrow> elems (fst (rem h i)) = elems i - {h}"
    and found_rem: "invar i \<Longrightarrow> snd (rem h i) \<longleftrightarrow> h \<in> elems i"
    and elems_tch: "invar i \<Longrightarrow> elems (tch h i) = elems i"
    and elems_evict: "invar i \<Longrightarrow> evict i = Some (h, i') \<Longrightarrow>
      h \<in> elems i \<and> elems i' = elems i - {h}"
    and evict_None: "invar i \<Longrightarrow> evict i = None \<longleftrightarrow> elems i = {}"
    and len_elems: "invar i \<Longrightarrow> len i = card (elems i) \<and> finite (elems i)"
begin

lemma len_ins: "invar i \<Longrightarrow> len (ins h i) = (if h \<in> elems i then len i else Suc (len i))"
  using len_elems [of i] len_elems [OF invar_ins, of i h]
  by (simp add: elems_ins insert_absorb)

lemma len_evict: "invar i \<Longrightarrow> evict i = Some (h, i') \<Longrightarrow> len i = Suc (len i')"
  using len_elems [of i] len_elems [OF invar_evict, of i h i'] elems_evict [of i h i']
  by (metis card_Suc_Diff1)

text \<open>Evicting \<open>len i\<close> times drains the index, each hash once.\<close>

lemma drain:
  "invar i \<Longrightarrow> len i = n \<Longrightarrow>
     \<exists>hs. length hs = n \<and> distinct hs \<and> set hs = elems i \<and>
       (\<exists>is. is ! 0 = i \<and> length is = Suc n \<and> elems (is ! n) = {} \<and>
          (\<forall>k<n. evict (is ! k) = Some (hs ! k, is ! Suc k)))"
proof (induction n arbitrary: i)
  case 0
  then have "elems i = {}" using len_elems [of i] by simp
  then show ?case by (intro exI [of _ "[]"] conjI exI [of _ "[i]"]) auto
next
  case (Suc n)
  then have "elems i \<noteq> {}" using len_elems [of i] by auto
  then obtain h i' where e: "evict i = Some (h, i')"
    using evict_None [OF Suc.prems(1)] by auto
  note inv = invar_evict [OF Suc.prems(1) e]
  have "len i' = n" using len_evict [OF Suc.prems(1) e] Suc.prems(2) by simp
  from Suc.IH [OF inv this] obtain hs "is" where
    hs: "length hs = n" "distinct hs" "set hs = elems i'" and
    "is": "is ! 0 = i'" "length is = Suc n" "elems (is ! n) = {}"
      "\<forall>k<n. evict (is ! k) = Some (hs ! k, is ! Suc k)" by blast
  have "\<forall>k<Suc n. evict ((i # is) ! k) = Some ((h # hs) ! k, (i # is) ! Suc k)"
    using e "is"(1,4) by (auto simp: less_Suc_eq_0_disj)
  then show ?case
    using hs "is" elems_evict [OF Suc.prems(1) e]
    by (intro exI [of _ "h # hs"] conjI exI [of _ "i # is"]) auto
qed

end

subsection \<open>The backend meets the contract\<close>

definition mlru_inv :: "pools \<Rightarrow> bool" where
  "mlru_inv ps \<longleftrightarrow> length ps = 4 \<and> distinct (concat ps)"

definition mlru_elems :: "pools \<Rightarrow> u64 set" where
  "mlru_elems ps = set (concat ps)"

lemma vec_remove_position:
  "position (\<lambda>h. h = x) xs = Some idx \<Longrightarrow> vec_remove idx xs = remove1 x xs"
proof (induction xs arbitrary: idx)
  case (Cons y ys)
  then show ?case by (auto simp: vec_remove_def split: if_splits)
qed simp

lemma remove_from_any_simp:
  "remove_from_any hash (pool # rest) =
     (if hash \<in> set pool then (remove1 hash pool # rest, True)
      else (pool # fst (remove_from_any hash rest), snd (remove_from_any hash rest)))"
proof (cases "position (\<lambda>h. h = hash) pool")
  case None
  then have "hash \<notin> set pool" by (auto simp: position_None_iff)
  with None show ?thesis by (simp add: case_prod_unfold Let_def)
next
  case (Some idx)
  then have "hash \<in> set pool" using position_SomeD nth_mem by fastforce
  with Some show ?thesis by (simp add: vec_remove_position)
qed

lemma remove_from_any_length [simp]: "length (fst (remove_from_any h ps)) = length ps"
proof (induction ps)
  case (Cons p ps)
  then show ?case by (simp add: remove_from_any_simp del: remove_from_any.simps)
qed simp

lemma remove_from_any_concat: "concat (fst (remove_from_any h ps)) = remove1 h (concat ps)"
proof (induction ps)
  case (Cons p ps)
  then show ?case
    by (simp add: remove_from_any_simp remove1_append del: remove_from_any.simps)
qed simp

lemma remove_from_any_found: "snd (remove_from_any h ps) \<longleftrightarrow> h \<in> set (concat ps)"
proof (induction ps)
  case (Cons p ps)
  then show ?case by (simp add: remove_from_any_simp del: remove_from_any.simps)
qed simp

lemma concat_update_snoc:
  "i < length ps \<Longrightarrow> mset (concat (ps[i := ps ! i @ [x]])) = add_mset x (mset (concat ps))"
  by (induction ps arbitrary: i) (auto split: nat.splits)

lemma push_bin_facts:
  assumes "length ps = 4"
  shows "length (push_bin sk h ps) = 4"
    and "set (concat (push_bin sk h ps)) = insert h (set (concat ps))"
    and "distinct (concat ps) \<Longrightarrow> h \<notin> set (concat ps) \<Longrightarrow> distinct (concat (push_bin sk h ps))"
proof -
  have b: "bin_of sk h < length ps" using assms by (simp add: bin_of_def bin_for_count_less)
  have m: "mset (concat (push_bin sk h ps)) = add_mset h (mset (concat ps))"
    using concat_update_snoc [OF b] by (simp add: push_bin_def Let_def)
  show "length (push_bin sk h ps) = 4" using assms by (simp add: push_bin_def Let_def)
  show "set (concat (push_bin sk h ps)) = insert h (set (concat ps))"
    using arg_cong [OF m, of set_mset] by (simp only: set_mset_mset set_mset_add_mset_insert)
  assume "distinct (concat ps)" "h \<notin> set (concat ps)"
  then have "distinct (h # concat ps)" by simp
  then show "distinct (concat (push_bin sk h ps))"
    using m by (metis mset.simps(2) mset_eq_imp_distinct_iff)
qed

lemma mlru_evict_concat:
  "mlru_evict ps = Some (h, ps') \<Longrightarrow> concat ps = h # concat ps' \<and> length ps' = length ps"
  by (induction ps arbitrary: ps' rule: mlru_evict.induct) auto

lemma mlru_evict_None: "mlru_evict ps = None \<longleftrightarrow> concat ps = []"
  by (induction ps rule: mlru_evict.induct) auto

lemma mlru_inv_new [simp]: "mlru_inv mlru_new"
  by (simp add: mlru_inv_def mlru_new_def)

lemma mlru_elems_new [simp]: "mlru_elems mlru_new = {}"
  by (simp add: mlru_elems_def mlru_new_def)

interpretation mlru: inactive_index "mlru_insert sk" mlru_remove "mlru_touch sk" mlru_evict
    mlru_len mlru_elems mlru_inv
proof (unfold_locales, goal_cases)
  case (1 i h)
  then show ?case
    by (simp add: mlru_inv_def mlru_insert_def push_bin_facts remove_from_any_concat)
next
  case (2 i h)
  then show ?case by (simp add: mlru_inv_def mlru_remove_def remove_from_any_concat)
next
  case (3 i h)
  then show ?case
    by (auto simp: mlru_inv_def mlru_touch_def case_prod_unfold Let_def push_bin_facts
        remove_from_any_concat)
next
  case (4 i h i')
  then show ?case by (auto simp: mlru_inv_def dest: mlru_evict_concat)
next
  case (5 i h)
  then show ?case
    by (auto simp: mlru_inv_def mlru_elems_def mlru_insert_def push_bin_facts
        remove_from_any_concat simp del: set_concat)
next
  case (6 i h)
  then show ?case
    by (simp add: mlru_inv_def mlru_elems_def mlru_remove_def remove_from_any_concat
        del: set_concat)
next
  case (7 i h)
  then show ?case by (simp add: mlru_elems_def mlru_remove_def remove_from_any_found)
next
  case (8 i h)
  then have "snd (remove_from_any h i) \<Longrightarrow> h \<in> set (concat i)"
    by (simp only: remove_from_any_found)
  moreover have "\<not> snd (remove_from_any h i) \<Longrightarrow> h \<notin> set (concat i)"
    by (simp only: remove_from_any_found not_False_eq_True)
  ultimately show ?case using 8
    by (auto simp: mlru_inv_def mlru_elems_def mlru_touch_def case_prod_unfold Let_def push_bin_facts
        remove_from_any_concat remove1_idem simp del: set_concat)
next
  case (9 i h i')
  then show ?case
    by (auto simp: mlru_inv_def mlru_elems_def dest!: mlru_evict_concat simp del: set_concat)
next
  case (10 i)
  then show ?case by (simp add: mlru_elems_def mlru_evict_None)
next
  case (11 i)
  then show ?case
    by (simp add: mlru_inv_def mlru_elems_def mlru_len_def length_concat distinct_card
        flip: length_concat del: set_concat)
qed

subsection \<open>Properties\<close>

lemma concat_insert_at:
  "b < length ps \<Longrightarrow> concat (ps[b := ps ! b @ [h]]) = concat (take (Suc b) ps) @ h # concat (drop (Suc b) ps)"
  by (simp add: upd_conv_take_nth_drop take_Suc_conv_app_nth)

text \<open>Eviction is coldest tier first and first-in-first-out within a tier. Reading the
  four pools in order, an insert puts the hash behind everything in its own and the
  colder tiers and before everything in the warmer ones, and an eviction takes the
  first hash of that order.
\<close>

theorem evict_order:
  assumes "length ps = 4"
  shows "concat (mlru_insert sk h ps) =
      (let ps' = fst (mlru_remove h ps); b = bin_for_count (estimate sk h)
       in concat (take (Suc b) ps') @ h # concat (drop (Suc b) ps')) \<and>
    concat (fst (mlru_remove h ps)) = remove1 h (concat ps) \<and>
    map_option (\<lambda>(x, qs). (x, concat qs)) (mlru_evict ps) =
      (case concat ps of [] \<Rightarrow> None | x # xs \<Rightarrow> Some (x, xs))"
proof (intro conjI)
  have "bin_of sk h < length (fst (remove_from_any h ps))"
    using assms by (simp add: bin_of_def bin_for_count_less)
  from concat_insert_at [OF this, of h] show "concat (mlru_insert sk h ps) =
      (let ps' = fst (mlru_remove h ps); b = bin_for_count (estimate sk h)
       in concat (take (Suc b) ps') @ h # concat (drop (Suc b) ps'))"
    by (simp add: mlru_insert_def mlru_remove_def push_bin_def Let_def bin_of_def)
  show "concat (fst (mlru_remove h ps)) = remove1 h (concat ps)"
    by (simp add: mlru_remove_def remove_from_any_concat)
  show "map_option (\<lambda>(x, qs). (x, concat qs)) (mlru_evict ps) =
      (case concat ps of [] \<Rightarrow> None | x # xs \<Rightarrow> Some (x, xs))"
  proof (cases "mlru_evict ps")
    case None
    then have "concat ps = []" by (simp only: mlru_evict_None)
    with None show ?thesis by (simp del: concat_eq_Nil_conv)
  next
    case (Some xq)
    then show ?thesis using mlru_evict_concat by (cases xq) (fastforce split: list.split)
  qed
qed

theorem evict_order_witness:
  "map_option (\<lambda>(x, qs). (x, concat qs)) (mlru_evict [[], [4, 5], [], [6]]) = Some (4, [5, 6])"
  using evict_order [of "[[], [4, 5], [], [6]]"] by simp

text \<open>
  Draining. Evicting as often as there are entries yields each entry exactly once
  and leaves the index empty.
\<close>

theorem evict_drains:
  assumes "length ps = 4" "distinct (concat ps)"
  shows "\<exists>hs is. length hs = mlru_len ps \<and> distinct hs \<and> set hs = set (concat ps) \<and>
    is ! 0 = ps \<and> concat (is ! mlru_len ps) = [] \<and>
    (\<forall>k<mlru_len ps. mlru_evict (is ! k) = Some (hs ! k, is ! Suc k))"
proof -
  have "mlru_inv ps" using assms by (simp add: mlru_inv_def)
  from mlru.drain [OF this refl] obtain hs "is" where *: "length hs = mlru_len ps" "distinct hs"
    "set hs = mlru_elems ps" "is ! 0 = ps" "mlru_elems (is ! mlru_len ps) = {}"
    "\<forall>k<mlru_len ps. mlru_evict (is ! k) = Some (hs ! k, is ! Suc k)"
    by (elim exE conjE) (rule that; assumption)
  from *(5) have "concat (is ! mlru_len ps) = []" unfolding mlru_elems_def by (rule set_empty [THEN iffD1])
  with * show ?thesis unfolding mlru_elems_def by blast
qed

theorem evict_drains_witness:
  "\<exists>hs is. length hs = 2 \<and> set hs = {4, 6} \<and> is ! 0 = [[], [4], [], [6 :: u64]] \<and>
     concat (is ! 2) = [] \<and> (\<forall>k<2. mlru_evict (is ! k) = Some (hs ! k, is ! Suc k))"
proof -
  have "mlru_len [[], [4], [], [6 :: u64]] = 2" "set (concat [[], [4], [], [6 :: u64]]) = {4, 6}"
    by (simp_all add: mlru_len_def)
  with evict_drains [of "[[], [4], [], [6 :: u64]]"] show ?thesis
    by (simp only: list.size distinct.simps concat.simps) auto
qed

end
