(* ===== verification/BlockStore.thy ===== *)
theory BlockStore
  imports BlockEvents MultiLru
begin

text \<open>
  The block store of \<^verbatim>\<open>block_manager/store/\<close> (\<^verbatim>\<open>slot.rs\<close>, \<^verbatim>\<open>core.rs\<close>, \<^verbatim>\<open>handles.rs\<close>):
  a vector of slots with a state machine, the reset pool, the active and inactive
  maps, and the RAII handles. Every operation of the code runs in one critical
  section of the store mutex, so it is one function on the store here; an operation
  that takes the mutex several times (a failed allocation that drops the blocks it
  had taken) is the composition of its sections.

  A \<^verbatim>\<open>MutableBlock\<close> is its slot id and an \<^verbatim>\<open>ImmutableBlock\<close> the triple of slot id, hash
  and release handle. Their destructors are \<open>drop_mutable\<close> and \<open>drop_immutable\<close>.
  A panic of the code (an \<^verbatim>\<open>expect\<close> that fails) is \<open>None\<close>.
\<close>

datatype slot_state = Reset | Mutable | Staged | Primary | Duplicate | Inactive

record 'p block_slot =
  slot_id :: nat
  slot_state :: slot_state
  slot_hash :: "u64 option"
  refcount :: nat
  payload :: "'p option"
  release :: "nat option"

definition fresh_slot :: "nat \<Rightarrow> 'p block_slot" where
  "fresh_slot i = \<lparr>slot_id = i, slot_state = Reset, slot_hash = None, refcount = 0,
     payload = None, release = None\<rparr>"

record 'p store =
  slots :: "'p block_slot list"
  free :: "nat list"
  active_by_hash :: "u64 \<rightharpoonup> nat"
  inactive_by_hash :: "u64 \<rightharpoonup> nat"
  inactive :: pools
  tinylfu :: sketch
  events :: event_state
  sink :: bool
  offered :: "(u64 \<times> 'p) list"
  capacity :: nat

text \<open>
  \<open>sink\<close> says whether an overflow sink is installed, and \<open>offered\<close> is the list of the
  \<^verbatim>\<open>offer_evicted\<close> calls made to it, oldest first.
\<close>

datatype store_error = Full nat nat

type_synonym imm_block = "nat \<times> u64 \<times> nat"

definition store_new :: "nat \<Rightarrow> nat \<Rightarrow> 'p store" where
  "store_new cap tinylfu_capacity =
     \<lparr>slots = map fresh_slot [0..<cap], free = [0..<cap],
      active_by_hash = Map.empty, inactive_by_hash = Map.empty,
      inactive = mlru_new, tinylfu = sketch_new tinylfu_capacity,
      events = event_new, sink = False, offered = [], capacity = cap\<rparr>"

definition set_overflow_sink :: "'p store \<Rightarrow> 'p store" where
  "set_overflow_sink s = s\<lparr>sink := True\<rparr>"

abbreviation upd_slot :: "nat \<Rightarrow> ('p block_slot \<Rightarrow> 'p block_slot) \<Rightarrow> 'p store \<Rightarrow> 'p store" where
  "upd_slot i f s \<equiv> s\<lparr>slots := (slots s)[i := f (slots s ! i)]\<rparr>"

record store_stats =
  st_capacity :: nat
  st_free :: nat
  st_active :: nat
  st_inactive :: nat
  st_tier_lens :: "nat list"

text \<open>\<^verbatim>\<open>active_by_hash.len()\<close> counts the keys, all of which name one of the slots.\<close>

definition stats :: "'p store \<Rightarrow> store_stats" where
  "stats s = \<lparr>st_capacity = capacity s, st_free = length (free s),
     st_active = card (dom (active_by_hash s)), st_inactive = mlru_len (inactive s),
     st_tier_lens = tier_lens (inactive s)\<rparr>"

subsection \<open>Releasing a slot\<close>

text \<open>
  The five assignments that bring a slot back to \<open>Reset\<close>; assigning \<^verbatim>\<open>None\<close> to
  \<^verbatim>\<open>slot.release\<close> drops the handle that was there.
\<close>

definition clear_slot :: "slot_state \<Rightarrow> nat \<Rightarrow> 'p store \<Rightarrow> 'p store" where
  "clear_slot st i s =
     (let ro = release (slots s ! i)
      in (upd_slot i (\<lambda>sl. sl\<lparr>slot_state := st, slot_hash := None, refcount := 0,
            payload := None, release := None\<rparr>) s)
         \<lparr>events := release_drop_opt ro (events s)\<rparr>)"

definition drop_mutable :: "nat \<Rightarrow> 'p store \<Rightarrow> 'p store" where
  "drop_mutable i s =
     (if slot_state (slots s ! i) = Mutable
      then (let s1 = clear_slot Reset i s in s1\<lparr>free := free s1 @ [i]\<rparr>)
      else s)"

definition reset_slot_collect_offer ::
    "nat \<Rightarrow> 'p store \<Rightarrow> 'p store \<times> (u64 \<times> 'p) option" where
  "reset_slot_collect_offer i s =
     (let sl = slots s ! i; s1 = clear_slot Reset i s
      in (s1, case (slot_hash sl, payload sl) of
                (Some h, Some p) \<Rightarrow> if sink s then Some (h, p) else None
              | _ \<Rightarrow> None))"

subsection \<open>Allocation\<close>

text \<open>
  One round of the loop of \<^verbatim>\<open>allocate_blocks\<close> up to the chosen id: the reset pool
  first, then the coldest inactive block. The state is returned in the error case
  too, because an evicted hash has left the index by then.
\<close>

definition pick_slot :: "'p store \<Rightarrow> 'p store \<times> (nat \<times> (u64 \<times> 'p) option) option" where
  "pick_slot s =
     (case free s of
        i # rest \<Rightarrow> (s\<lparr>free := rest\<rparr>, Some (i, None))
      | [] \<Rightarrow>
          (case mlru_evict (inactive s) of
             None \<Rightarrow> (s, None)
           | Some (h, pools') \<Rightarrow>
               (let s1 = s\<lparr>inactive := pools'\<rparr>
                in case inactive_by_hash s1 h of
                     Some i \<Rightarrow>
                       (let (s2, offer) = reset_slot_collect_offer i
                              (s1\<lparr>inactive_by_hash := (inactive_by_hash s1)(h := None)\<rparr>)
                        in (s2, Some (i, offer)))
                   | None \<Rightarrow>
                       (case position (\<lambda>sl. slot_hash sl = Some h) (slots s1) of
                          Some i \<Rightarrow> (let (s2, offer) = reset_slot_collect_offer i s1
                                     in (s2, Some (i, offer)))
                        | None \<Rightarrow> (s1, None)))))"

text \<open>
  The whole loop: the ids taken and the deferred offers, oldest first, and whether it
  ran to its end.
\<close>

fun alloc_loop :: "nat \<Rightarrow> 'p store \<Rightarrow> nat list \<Rightarrow> (u64 \<times> 'p) list \<Rightarrow>
    'p store \<times> nat list \<times> (u64 \<times> 'p) list \<times> bool" where
  "alloc_loop 0 s out deferred = (s, out, deferred, True)"
| "alloc_loop (Suc n) s out deferred =
     (case pick_slot s of
        (s1, None) \<Rightarrow> (s1, out, deferred, False)
      | (s1, Some (i, offer)) \<Rightarrow>
          alloc_loop n (clear_slot Mutable i s1) (out @ [i])
            (deferred @ (case offer of None \<Rightarrow> [] | Some x \<Rightarrow> [x])))"

text \<open>
  On success the deferred offers go to the sink after the mutex is released. On
  failure the early return drops \<^verbatim>\<open>deferred_offers\<close>, then the blocks taken so far,
  whose destructors return their slots to the reset pool.
\<close>

definition allocate_blocks :: "nat \<Rightarrow> 'p store \<Rightarrow> 'p store \<times> (store_error + nat list)" where
  "allocate_blocks n s =
     (case alloc_loop n s [] [] of
        (s1, out, deferred, ok) \<Rightarrow>
          if ok then (s1\<lparr>offered := offered s1 @ deferred\<rparr>, Inr out)
          else (fold drop_mutable out s1, Inl (Full (capacity s) 0)))"

subsection \<open>Registration\<close>

text \<open>
  \<^verbatim>\<open>commit_block\<close>: the id of the block, whether a new one was created, and the release
  handle for the caller.
\<close>

definition commit_block ::
    "nat \<Rightarrow> u64 \<Rightarrow> 'p \<Rightarrow> 'p store \<Rightarrow> ('p store \<times> nat \<times> bool \<times> nat) option" where
  "commit_block i hash p s =
     (case active_by_hash s hash of
        Some existing \<Rightarrow>
          (let s1 = clear_slot Reset i s;
               s2 = s1\<lparr>free := free s1 @ [i]\<rparr>;
               s3 = upd_slot existing (\<lambda>sl. sl\<lparr>refcount := Suc (refcount sl)\<rparr>) s2
           in case release (slots s3 ! existing) of
                None \<Rightarrow> None
              | Some r \<Rightarrow>
                  Some (s3\<lparr>events := release_clone r (events s3),
                           tinylfu := increment (tinylfu s3) hash\<rparr>,
                        existing, False, r))
      | None \<Rightarrow>
          (let (ev, r) = release_mint hash (events s);
               ev = release_clone r ev;
               old = release (slots s ! i);
               s1 = upd_slot i (\<lambda>sl. sl\<lparr>slot_state := Primary, slot_hash := Some hash,
                      payload := Some p, refcount := 1, release := Some r\<rparr>) s
           in Some (s1\<lparr>events := emit (Create hash) (release_drop_opt old ev),
                       active_by_hash := (active_by_hash s)(hash \<mapsto> i),
                       tinylfu := increment (tinylfu s) hash\<rparr>,
                    i, True, r)))"

text \<open>\<^verbatim>\<open>MutableBlock::register\<close>: the mutable handle is consumed without its rollback.\<close>

definition register_block ::
    "nat \<Rightarrow> u64 \<Rightarrow> 'p \<Rightarrow> 'p store \<Rightarrow> ('p store \<times> imm_block) option" where
  "register_block i hash p s =
     map_option (\<lambda>(s', i', _, r). (s', (i', hash, r))) (commit_block i hash p s)"

subsection \<open>Immutable handles\<close>

text \<open>
  \<^verbatim>\<open>release_ref\<close>, in a build without \<^verbatim>\<open>debug_assert\<close>: a release at zero does nothing.
\<close>

definition release_ref :: "nat \<Rightarrow> 'p store \<Rightarrow> 'p store option" where
  "release_ref i s =
     (let sl = slots s ! i
      in if refcount sl = 0 then Some s
         else
           (let s1 = upd_slot i (\<lambda>sl. sl\<lparr>refcount := refcount sl - 1\<rparr>) s
            in if refcount sl - 1 = 0 \<and> (slot_state sl = Primary \<or> slot_state sl = Duplicate)
               then
                 (case slot_hash sl of
                    None \<Rightarrow> None
                  | Some hash \<Rightarrow>
                      Some ((upd_slot i (\<lambda>sl. sl\<lparr>slot_state := Inactive\<rparr>) s1)
                        \<lparr>active_by_hash := (active_by_hash s1)(hash := None),
                         inactive_by_hash := (inactive_by_hash s1)(hash \<mapsto> i),
                         inactive := mlru_insert (tinylfu s1) hash (inactive s1)\<rparr>))
               else Some s1))"

definition drop_immutable :: "imm_block \<Rightarrow> 'p store \<Rightarrow> 'p store option" where
  "drop_immutable b s =
     (case b of (i, hash, r) \<Rightarrow>
        map_option (\<lambda>s1. s1\<lparr>events := release_drop r (events s1)\<rparr>) (release_ref i s))"

definition clone_immutable :: "imm_block \<Rightarrow> 'p store \<Rightarrow> 'p store" where
  "clone_immutable b s =
     (case b of (i, hash, r) \<Rightarrow>
        (upd_slot i (\<lambda>sl. sl\<lparr>refcount := Suc (refcount sl)\<rparr>) s)
          \<lparr>events := release_clone r (events s)\<rparr>)"

fun drop_immutables :: "imm_block list \<Rightarrow> 'p store \<Rightarrow> 'p store option" where
  "drop_immutables [] s = Some s"
| "drop_immutables (b # bs) s = Option.bind (drop_immutable b s) (drop_immutables bs)"

subsection \<open>Matching\<close>

text \<open>
  \<open>confirm_one\<close> returns the new state and, on a hit, the block and whether it was
  resurrected from the inactive set. The assignment of the fresh canonical handle to
  \<^verbatim>\<open>slot.release\<close> drops the one the inactive slot still held.
\<close>

definition confirm_one ::
    "u64 \<Rightarrow> 'p store \<Rightarrow> ('p store \<times> (bool \<times> imm_block) option) option" where
  "confirm_one hash s =
     (case active_by_hash s hash of
        Some i \<Rightarrow>
          (let s1 = upd_slot i (\<lambda>sl. sl\<lparr>refcount := Suc (refcount sl)\<rparr>) s
           in case release (slots s1 ! i) of
                None \<Rightarrow> None
              | Some r \<Rightarrow>
                  Some (s1\<lparr>events := release_clone r (events s1),
                           tinylfu := increment (tinylfu s1) hash\<rparr>,
                        Some (False, (i, hash, r))))
      | None \<Rightarrow>
          (case inactive_by_hash s hash of
             Some i \<Rightarrow>
               (let (ev, r) = release_mint hash (events s);
                    ev = release_clone r ev;
                    old = release (slots s ! i);
                    s1 = upd_slot i (\<lambda>sl. sl\<lparr>slot_state := Primary, refcount := 1,
                           release := Some r\<rparr>) s
                in Some (s1\<lparr>inactive_by_hash := (inactive_by_hash s)(hash := None),
                            inactive := fst (mlru_remove hash (inactive s)),
                            events := release_drop_opt old ev,
                            active_by_hash := (active_by_hash s)(hash \<mapsto> i),
                            tinylfu := increment (tinylfu s) hash\<rparr>,
                         Some (True, (i, hash, r))))
           | None \<Rightarrow> Some (s, None)))"

datatype match_outcome = Active nat imm_block | Resurrected nat imm_block | Miss

definition outcome_of :: "(bool \<times> imm_block) option \<Rightarrow> match_outcome" where
  "outcome_of c =
     (case c of
        None \<Rightarrow> Miss
      | Some (res, b) \<Rightarrow> if res then Resurrected (fst b) b else Active (fst b) b)"

definition is_hit :: "match_outcome \<Rightarrow> bool" where
  "is_hit m = (case m of Miss \<Rightarrow> False | _ \<Rightarrow> True)"

definition match_one :: "u64 \<Rightarrow> 'p store \<Rightarrow> ('p store \<times> match_outcome) option" where
  "match_one hash s = map_option (\<lambda>(s', c). (s', outcome_of c)) (confirm_one hash s)"

fun match_blocks :: "u64 list \<Rightarrow> 'p store \<Rightarrow> ('p store \<times> match_outcome list) option" where
  "match_blocks [] s = Some (s, [])"
| "match_blocks (h # hs) s =
     Option.bind (confirm_one h s) (\<lambda>(s1, c).
       map_option (\<lambda>(s2, outs). (s2, outcome_of c # outs)) (match_blocks hs s1))"

definition probe_one :: "'p store \<Rightarrow> u64 \<Rightarrow> (nat \<times> slot_state) option" where
  "probe_one s hash =
     (case active_by_hash s hash of
        Some i \<Rightarrow> Some (i, slot_state (slots s ! i))
      | None \<Rightarrow>
          (case inactive_by_hash s hash of
             Some i \<Rightarrow> Some (i, slot_state (slots s ! i))
           | None \<Rightarrow> None))"

definition probe_blocks :: "u64 list \<Rightarrow> 'p store \<Rightarrow> (nat \<times> bool) option list" where
  "probe_blocks hashes s =
     map (\<lambda>h. map_option (\<lambda>(i, st). (i, st = Inactive)) (probe_one s h)) hashes"

definition confirm_prefix ::
    "u64 list \<Rightarrow> nat \<Rightarrow> 'p store \<Rightarrow> ('p store \<times> match_outcome list) option" where
  "confirm_prefix hashes accept_n s = match_blocks (take accept_n hashes) s"

definition touch_frequency :: "u64 \<Rightarrow> 'p store \<Rightarrow> 'p store" where
  "touch_frequency hash s =
     (let s1 = s\<lparr>tinylfu := increment (tinylfu s) hash\<rparr>
      in if inactive_by_hash s1 hash \<noteq> None
         then s1\<lparr>inactive := mlru_touch (tinylfu s1) hash (inactive s1)\<rparr> else s1)"

end
