(* ===== verification/BlockSystem.thy ===== *)
theory BlockSystem
  imports BlockStore
begin

text \<open>
  The block store together with the handles its clients hold: which slots are owned
  by a live \<^verbatim>\<open>MutableBlock\<close> and which \<^verbatim>\<open>ImmutableBlock\<close>s exist. A step is one call of
  the public API or one destructor, in any order, which is every interleaving the
  store mutex allows. Rust's ownership rules are the guards: a handle that is
  registered, cloned or dropped is one that exists.

  \<open>sys_inv\<close> is the invariant: the state of each slot agrees with the pools, the maps,
  the reference counts and the release handles. Its preservation is proved once for
  an update of a single slot (\<open>sys_inv_update\<close>) and instantiated per operation.
\<close>

record 'p sys =
  store :: "'p store"
  muts :: "nat list"
  imms :: "imm_block list"

inductive sys_step :: "'p sys \<Rightarrow> 'p sys \<Rightarrow> bool" where
  alloc_ok: "allocate_blocks n (store y) = (s', Inr out) \<Longrightarrow>
    sys_step y (y\<lparr>store := s', muts := muts y @ out\<rparr>)"
| alloc_full: "allocate_blocks n (store y) = (s', Inl e) \<Longrightarrow>
    sys_step y (y\<lparr>store := s'\<rparr>)"
| register: "i \<in> set (muts y) \<Longrightarrow> register_block i h p (store y) = Some (s', b) \<Longrightarrow>
    sys_step y (y\<lparr>store := s', muts := remove1 i (muts y), imms := b # imms y\<rparr>)"
| drop_mut: "i \<in> set (muts y) \<Longrightarrow>
    sys_step y (y\<lparr>store := drop_mutable i (store y), muts := remove1 i (muts y)\<rparr>)"
| clone_imm: "b \<in> set (imms y) \<Longrightarrow>
    sys_step y (y\<lparr>store := clone_immutable b (store y), imms := b # imms y\<rparr>)"
| drop_imm: "b \<in> set (imms y) \<Longrightarrow> drop_immutable b (store y) = Some s' \<Longrightarrow>
    sys_step y (y\<lparr>store := s', imms := remove1 b (imms y)\<rparr>)"
| match_hit: "confirm_one h (store y) = Some (s', Some (res, b)) \<Longrightarrow>
    sys_step y (y\<lparr>store := s', imms := b # imms y\<rparr>)"
| match_miss: "confirm_one h (store y) = Some (s', None) \<Longrightarrow>
    sys_step y (y\<lparr>store := s'\<rparr>)"
| touch: "sys_step y (y\<lparr>store := touch_frequency h (store y)\<rparr>)"
| set_sink: "sys_step y (y\<lparr>store := set_overflow_sink (store y)\<rparr>)"

definition sys_new :: "nat \<Rightarrow> nat \<Rightarrow> 'p sys" where
  "sys_new cap tinylfu_capacity =
     \<lparr>store = store_new cap tinylfu_capacity, muts = [], imms = []\<rparr>"

inductive reachable :: "'p sys \<Rightarrow> bool" where
  start: "reachable (sys_new cap tinylfu_capacity)"
| step: "reachable y \<Longrightarrow> sys_step y z \<Longrightarrow> reachable z"

subsection \<open>The invariant\<close>

definition handles :: "imm_block list \<Rightarrow> nat \<Rightarrow> imm_block list" where
  "handles B i = filter (\<lambda>b. fst b = i) B"

definition blank :: "'p block_slot \<Rightarrow> bool" where
  "blank sl \<longleftrightarrow> slot_hash sl = None \<and> refcount sl = 0 \<and> payload sl = None \<and> release sl = None"

definition primary_ok :: "'p block_slot \<Rightarrow> imm_block list \<Rightarrow> (u64 \<rightharpoonup> nat) \<Rightarrow>
    (nat \<rightharpoonup> u64 \<times> nat) \<Rightarrow> nat \<Rightarrow> bool" where
  "primary_ok sl bs act rel i \<longleftrightarrow>
     (\<exists>h r. slot_hash sl = Some h \<and> release sl = Some r \<and> payload sl \<noteq> None \<and>
        act h = Some i \<and> bs \<noteq> [] \<and> refcount sl = length bs \<and>
        rel r = Some (h, Suc (length bs)) \<and> set bs \<subseteq> {(i, h, r)})"

definition inactive_ok :: "'p block_slot \<Rightarrow> imm_block list \<Rightarrow> (nat \<rightharpoonup> u64 \<times> nat) \<Rightarrow> bool" where
  "inactive_ok sl bs rel \<longleftrightarrow> bs = [] \<and> refcount sl = 0 \<and> payload sl \<noteq> None \<and>
     (\<exists>h r. slot_hash sl = Some h \<and> release sl = Some r \<and> rel r = Some (h, 1))"

definition slot_ok :: "'p block_slot \<Rightarrow> bool \<Rightarrow> bool \<Rightarrow> imm_block list \<Rightarrow> (u64 \<rightharpoonup> nat) \<Rightarrow>
    (nat \<rightharpoonup> u64 \<times> nat) \<Rightarrow> nat \<Rightarrow> bool" where
  "slot_ok sl fr mu bs act rel i \<longleftrightarrow>
     (case slot_state sl of
        Reset \<Rightarrow> fr \<and> \<not> mu \<and> blank sl \<and> bs = []
      | Mutable \<Rightarrow> \<not> fr \<and> mu \<and> blank sl \<and> bs = []
      | Primary \<Rightarrow> \<not> fr \<and> \<not> mu \<and> primary_ok sl bs act rel i
      | Inactive \<Rightarrow> \<not> fr \<and> \<not> mu \<and> inactive_ok sl bs rel
      | _ \<Rightarrow> False)"

definition slots_ok :: "'p store \<Rightarrow> nat list \<Rightarrow> imm_block list \<Rightarrow> bool" where
  "slots_ok s M B \<longleftrightarrow>
     (\<forall>i<capacity s. slot_ok (slots s ! i) (i \<in> set (free s)) (i \<in> set M) (handles B i)
        (active_by_hash s) (releases (events s)) i)"

definition maps_ok :: "'p store \<Rightarrow> bool" where
  "maps_ok s \<longleftrightarrow>
     (\<forall>h i. active_by_hash s h = Some i \<longrightarrow> i < capacity s \<and>
        slot_state (slots s ! i) = Primary \<and> slot_hash (slots s ! i) = Some h) \<and>
     (\<forall>h i. inactive_by_hash s h = Some i \<longrightarrow> i < capacity s \<and>
        slot_state (slots s ! i) = Inactive \<and> slot_hash (slots s ! i) = Some h) \<and>
     mlru_inv (inactive s) \<and> mlru_elems (inactive s) = dom (inactive_by_hash s)"

definition releases_ok :: "'p store \<Rightarrow> bool" where
  "releases_ok s \<longleftrightarrow> release_inv (events s) \<and>
     (\<forall>i j r. i < capacity s \<longrightarrow> j < capacity s \<longrightarrow> release (slots s ! i) = Some r \<longrightarrow>
        release (slots s ! j) = Some r \<longrightarrow> i = j) \<and>
     (\<forall>r. releases (events s) r \<noteq> None \<longleftrightarrow> (\<exists>i<capacity s. release (slots s ! i) = Some r))"

definition bounds_ok :: "'p store \<Rightarrow> nat list \<Rightarrow> imm_block list \<Rightarrow> bool" where
  "bounds_ok s M B \<longleftrightarrow> length (slots s) = capacity s \<and> distinct (free s) \<and> distinct M \<and>
     set (free s) \<subseteq> {..<capacity s} \<and> set M \<subseteq> {..<capacity s} \<and>
     fst ` set B \<subseteq> {..<capacity s}"

definition store_inv :: "'p store \<Rightarrow> nat list \<Rightarrow> imm_block list \<Rightarrow> bool" where
  "store_inv s M B \<longleftrightarrow> bounds_ok s M B \<and> slots_ok s M B \<and> maps_ok s \<and> releases_ok s"

definition sys_inv :: "'p sys \<Rightarrow> bool" where
  "sys_inv y \<longleftrightarrow> store_inv (store y) (muts y) (imms y)"

subsection \<open>Consequences of the invariant\<close>

lemma slot_okD:
  "store_inv s M B \<Longrightarrow> i < capacity s \<Longrightarrow>
     slot_ok (slots s ! i) (i \<in> set (free s)) (i \<in> set M) (handles B i)
       (active_by_hash s) (releases (events s)) i"
  by (simp add: store_inv_def slots_ok_def)

lemma free_reset:
  "store_inv s M B \<Longrightarrow> i \<in> set (free s) \<Longrightarrow> i < capacity s \<and>
     slot_state (slots s ! i) = Reset \<and> blank (slots s ! i) \<and> handles B i = [] \<and> i \<notin> set M"
  using slot_okD [of s M B i]
  by (auto simp: store_inv_def bounds_ok_def slot_ok_def split: slot_state.splits)

lemma mut_mutable:
  "store_inv s M B \<Longrightarrow> i \<in> set M \<Longrightarrow> i < capacity s \<and>
     slot_state (slots s ! i) = Mutable \<and> blank (slots s ! i) \<and> handles B i = [] \<and>
     i \<notin> set (free s)"
  using slot_okD [of s M B i]
  by (auto simp: store_inv_def bounds_ok_def slot_ok_def split: slot_state.splits)

lemma primary_okD:
  "store_inv s M B \<Longrightarrow> i < capacity s \<Longrightarrow> slot_state (slots s ! i) = Primary \<Longrightarrow>
     primary_ok (slots s ! i) (handles B i) (active_by_hash s) (releases (events s)) i \<and>
     i \<notin> set (free s) \<and> i \<notin> set M"
  by (drule (1) slot_okD) (simp add: slot_ok_def)

lemma inactive_okD:
  "store_inv s M B \<Longrightarrow> i < capacity s \<Longrightarrow> slot_state (slots s ! i) = Inactive \<Longrightarrow>
     inactive_ok (slots s ! i) (handles B i) (releases (events s)) \<and>
     i \<notin> set (free s) \<and> i \<notin> set M"
  by (drule (1) slot_okD) (simp add: slot_ok_def)

lemma imm_primary:
  assumes inv: "store_inv s M B" and b: "(i, h, r) \<in> set B"
  shows "i < capacity s \<and> slot_state (slots s ! i) = Primary \<and> slot_hash (slots s ! i) = Some h \<and>
    release (slots s ! i) = Some r \<and> active_by_hash s h = Some i \<and> payload (slots s ! i) \<noteq> None \<and>
    refcount (slots s ! i) = length (handles B i) \<and>
    releases (events s) r = Some (h, Suc (length (handles B i))) \<and> i \<notin> set (free s) \<and> i \<notin> set M"
proof -
  have i: "i < capacity s" using inv b by (force simp: store_inv_def bounds_ok_def)
  have bh: "(i, h, r) \<in> set (handles B i)" using b by (simp add: handles_def)
  from slot_okD [OF inv i] bh have "slot_state (slots s ! i) = Primary"
    by (auto simp: slot_ok_def inactive_ok_def split: slot_state.splits)
  with primary_okD [OF inv i this] bh i show ?thesis by (auto simp: primary_ok_def)
qed

subsection \<open>Updating one slot\<close>

lemma slot_ok_frame:
  assumes "slot_ok sl fr mu bs act rel j"
    and "\<And>h. slot_hash sl = Some h \<Longrightarrow> act h = Some j \<Longrightarrow> act' h = act h"
    and "\<And>r. release sl = Some r \<Longrightarrow> rel r \<noteq> None \<Longrightarrow> rel' r = rel r"
  shows "slot_ok sl fr mu bs act' rel' j"
proof -
  have "primary_ok sl bs act rel j \<Longrightarrow> primary_ok sl bs act' rel' j"
    using assms(2,3) by (fastforce simp: primary_ok_def)
  moreover have "inactive_ok sl bs rel \<Longrightarrow> inactive_ok sl bs rel'"
    using assms(3) by (fastforce simp: inactive_ok_def)
  ultimately show ?thesis using assms(1) by (auto simp: slot_ok_def split: slot_state.splits)
qed

lemma sys_inv_update:
  assumes inv: "store_inv s M B" and k: "k < capacity s"
    and slots': "slots s' = (slots s)[k := sl]" and cap: "capacity s' = capacity s"
    and dist: "distinct (free s')" "distinct M'"
    and free': "\<And>j. j \<noteq> k \<Longrightarrow> j \<in> set (free s') \<longleftrightarrow> j \<in> set (free s)"
    and muts': "\<And>j. j \<noteq> k \<Longrightarrow> j \<in> set M' \<longleftrightarrow> j \<in> set M"
    and hnd: "\<And>j. j \<noteq> k \<Longrightarrow> handles B' j = handles B j"
    and act: "\<And>h. active_by_hash s' h \<noteq> active_by_hash s h \<Longrightarrow>
      active_by_hash s h \<in> {None, Some k}"
    and act': "\<And>h i. active_by_hash s' h = Some i \<Longrightarrow>
      i = k \<and> slot_state sl = Primary \<and> slot_hash sl = Some h \<or>
      i \<noteq> k \<and> active_by_hash s h = Some i"
    and inact': "\<And>h i. inactive_by_hash s' h = Some i \<Longrightarrow>
      i = k \<and> slot_state sl = Inactive \<and> slot_hash sl = Some h \<or>
      i \<noteq> k \<and> inactive_by_hash s h = Some i"
    and mlru: "mlru_inv (inactive s')" "mlru_elems (inactive s') = dom (inactive_by_hash s')"
    and rel: "\<And>r. releases (events s') r \<noteq> releases (events s) r \<Longrightarrow>
      releases (events s) r = None \<or> release (slots s ! k) = Some r"
    and relk: "\<And>r. release sl = Some r \<Longrightarrow> releases (events s') r \<noteq> None \<and>
      (release (slots s ! k) = Some r \<or> releases (events s) r = None)"
    and reld: "\<And>r. release (slots s ! k) = Some r \<Longrightarrow> release sl \<noteq> Some r \<Longrightarrow>
      releases (events s') r = None"
    and reln: "\<And>r. releases (events s) r = None \<Longrightarrow> releases (events s') r \<noteq> None \<Longrightarrow>
      release sl = Some r"
    and ri: "release_inv (events s')"
    and ok: "slot_ok sl (k \<in> set (free s')) (k \<in> set M') (handles B' k)
      (active_by_hash s') (releases (events s')) k"
  shows "store_inv s' M' B'"
proof -
  let ?R = "releases (events s)" and ?R' = "releases (events s')"
  have len: "length (slots s) = capacity s" using inv by (simp add: store_inv_def bounds_ok_def)
  have nth: "slots s' ! j = (if j = k then sl else slots s ! j)" for j
    using k len by (simp add: slots' nth_list_update)
  have inj: "i = j" if "i < capacity s" "j < capacity s" "release (slots s ! i) = Some r"
    "release (slots s ! j) = Some r" for i j r
    using inv that by (auto simp: store_inv_def releases_ok_def)
  have dom: "?R r \<noteq> None \<longleftrightarrow> (\<exists>i<capacity s. release (slots s ! i) = Some r)" for r
    using inv by (simp add: store_inv_def releases_ok_def)
  have "bounds_ok s' M' B'"
  proof -
    have "i < capacity s" if "i \<in> set (free s')" for i
      using that free' [of i] k inv by (cases "i = k") (auto simp: store_inv_def bounds_ok_def)
    moreover have "i < capacity s" if "i \<in> set M'" for i
      using that muts' [of i] k inv by (cases "i = k") (auto simp: store_inv_def bounds_ok_def)
    moreover have "fst b < capacity s" if "b \<in> set B'" for b
    proof (cases "fst b = k")
      case False
      have "b \<in> set (handles B' (fst b))" using that by (simp add: handles_def)
      with hnd [OF False] have "b \<in> set B" by (simp add: handles_def)
      then show ?thesis using inv by (auto simp: store_inv_def bounds_ok_def)
    qed (simp add: k)
    ultimately show ?thesis using dist len by (auto simp: bounds_ok_def slots' cap)
  qed
  moreover have "slots_ok s' M' B'"
    unfolding slots_ok_def
  proof (intro allI impI)
    fix j
    assume j: "j < capacity s'"
    show "slot_ok (slots s' ! j) (j \<in> set (free s')) (j \<in> set M') (handles B' j)
        (active_by_hash s') ?R' j"
    proof (cases "j = k")
      case True
      then show ?thesis using ok nth by simp
    next
      case False
      have j': "j < capacity s" using j cap by simp
      have "slot_ok (slots s ! j) (j \<in> set (free s')) (j \<in> set M') (handles B' j)
          (active_by_hash s) ?R j"
        using slot_okD [OF inv j'] free' [OF False] muts' [OF False] hnd [OF False] by simp
      then have "slot_ok (slots s ! j) (j \<in> set (free s')) (j \<in> set M') (handles B' j)
          (active_by_hash s') ?R' j"
      proof (rule slot_ok_frame)
        fix h
        assume "active_by_hash s h = Some j"
        then show "active_by_hash s' h = active_by_hash s h" using act [of h] False by auto
      next
        fix r
        assume "release (slots s ! j) = Some r" "?R r \<noteq> None"
        moreover have "release (slots s ! k) \<noteq> Some r"
          using inj [OF j' k \<open>release (slots s ! j) = Some r\<close>] False by auto
        ultimately show "?R' r = ?R r" using rel [of r] by force
      qed
      then show ?thesis using nth False by simp
    qed
  qed
  moreover have "maps_ok s'"
  proof -
    have "i < capacity s' \<and> slot_state (slots s' ! i) = Primary \<and> slot_hash (slots s' ! i) = Some h"
      if "active_by_hash s' h = Some i" for h i
    proof (cases "i = k")
      case True
      with act' [OF that] k cap show ?thesis by (simp add: nth)
    next
      case False
      with act' [OF that] inv cap show ?thesis by (simp add: nth store_inv_def maps_ok_def)
    qed
    moreover have "i < capacity s' \<and> slot_state (slots s' ! i) = Inactive \<and>
        slot_hash (slots s' ! i) = Some h" if "inactive_by_hash s' h = Some i" for h i
    proof (cases "i = k")
      case True
      with inact' [OF that] k cap show ?thesis by (simp add: nth)
    next
      case False
      with inact' [OF that] inv cap show ?thesis by (simp add: nth store_inv_def maps_ok_def)
    qed
    ultimately show ?thesis using mlru by (simp add: maps_ok_def)
  qed
  moreover have "releases_ok s'"
  proof -
    have fresh: "release (slots s ! j) \<noteq> Some r" if "j < capacity s" "j \<noteq> k" "release sl = Some r"
      for j r using relk [OF that(3)] dom [of r] inj [OF that(1) k] that by auto
    have "i = j" if "i < capacity s'" "j < capacity s'" "release (slots s' ! i) = Some r"
      "release (slots s' ! j) = Some r" for i j r
      using that fresh inj unfolding nth cap by (auto split: if_splits)
    moreover have "?R' r \<noteq> None \<longleftrightarrow> (\<exists>i<capacity s'. release (slots s' ! i) = Some r)" for r
    proof
      assume R': "?R' r \<noteq> None"
      show "\<exists>i<capacity s'. release (slots s' ! i) = Some r"
      proof (cases "?R r = None")
        case True
        with reln [OF True R'] k cap nth show ?thesis by auto
      next
        case False
        then obtain i where i: "i < capacity s" "release (slots s ! i) = Some r" using dom by blast
        show ?thesis
        proof (cases "i = k")
          case True
          with reld [of r] R' i have "release sl = Some r" by auto
          with k cap nth show ?thesis by auto
        qed (use i cap nth in auto)
      qed
    next
      assume "\<exists>i<capacity s'. release (slots s' ! i) = Some r"
      then obtain i where i: "i < capacity s" "release (slots s' ! i) = Some r" using cap by auto
      show "?R' r \<noteq> None"
      proof (cases "i = k")
        case True
        with i nth relk show ?thesis by simp
      next
        case False
        then have ri: "release (slots s ! i) = Some r" using i nth by simp
        then have "?R r \<noteq> None" using i dom by blast
        moreover have "release (slots s ! k) \<noteq> Some r" using inj [OF i(1) k ri] False by blast
        ultimately show ?thesis using rel [of r] by force
      qed
    qed
    ultimately show ?thesis using ri by (simp add: releases_ok_def)
  qed
  ultimately show ?thesis by (simp add: store_inv_def)
qed

end
