(* ===== verification/BlockOps.thy ===== *)
theory BlockOps
  imports BlockSystem
begin

text \<open>
  Every operation of the block store preserves \<open>store_inv\<close>, one lemma per effect on a
  slot: rollback of a mutable slot, one more reader, promotion of a mutable slot,
  release, resurrection, and taking a slot for a new block. The steps of the system
  are compositions of these.
\<close>

subsection \<open>How the primitives change a store\<close>

lemma release_drop_opt_simps [simp]:
  "release_drop_opt None e = e" "release_drop_opt (Some r) e = release_drop r e"
  by (simp_all add: release_drop_opt_def)

lemma releases_mint [simp]:
  "releases (fst (release_mint h e)) = (releases e)(next_release e \<mapsto> (h, 1))"
  "snd (release_mint h e) = next_release e"
  by (simp_all add: release_mint_def)

lemma releases_clone:
  "releases e r = Some (h, n) \<Longrightarrow>
     releases (release_clone r e) = (releases e)(r \<mapsto> (h, Suc n))"
  by (simp add: release_clone_def)

lemma releases_drop:
  "releases e r = Some (h, n) \<Longrightarrow> releases (release_drop r e) =
     (releases e)(r := if n \<le> 1 then None else Some (h, n - 1))"
  by (simp add: release_drop_def emit_def)

lemma next_release_simps [simp]:
  "next_release (release_clone r e) = next_release e"
  "next_release (release_drop r e) = next_release e"
  "next_release (fst (release_mint h e)) = Suc (next_release e)"
  by (auto simp: release_clone_def release_drop_def release_mint_def split: option.splits)

lemma emitted_clone [simp]: "emitted (release_clone r e) = emitted e"
  by (simp add: release_clone_def split: option.split)

lemma release_inv_fresh: "release_inv e \<Longrightarrow> releases e (next_release e) = None"
  by (auto simp: release_inv_def)

lemma store_inv_cong:
  "slots s' = slots s \<Longrightarrow> free s' = free s \<Longrightarrow> active_by_hash s' = active_by_hash s \<Longrightarrow>
   inactive_by_hash s' = inactive_by_hash s \<Longrightarrow> inactive s' = inactive s \<Longrightarrow>
   events s' = events s \<Longrightarrow> capacity s' = capacity s \<Longrightarrow>
   store_inv s' M B \<longleftrightarrow> store_inv s M B"
  by (simp add: store_inv_def bounds_ok_def slots_ok_def maps_ok_def releases_ok_def)

lemma store_inv_simps [simp]:
  "store_inv (s\<lparr>tinylfu := t\<rparr>) M B \<longleftrightarrow> store_inv s M B"
  "store_inv (s\<lparr>sink := b\<rparr>) M B \<longleftrightarrow> store_inv s M B"
  "store_inv (s\<lparr>offered := os\<rparr>) M B \<longleftrightarrow> store_inv s M B"
  by (rule store_inv_cong; simp)+

lemma handles_Cons: "handles (b # B) j = (if fst b = j then b # handles B j else handles B j)"
  by (simp add: handles_def)

lemma handles_remove1: "handles (remove1 b B) j = (if fst b = j then remove1 b (handles B j) else handles B j)"
  by (induction B) (auto simp: handles_def)

lemma store_inv_facts:
  assumes "store_inv s M B"
  shows "length (slots s) = capacity s" "distinct (free s)" "distinct M" "release_inv (events s)"
    "mlru_inv (inactive s)" "mlru_elems (inactive s) = dom (inactive_by_hash s)"
  using assms by (simp_all add: store_inv_def bounds_ok_def maps_ok_def releases_ok_def)

lemma activeD:
  "store_inv s M B \<Longrightarrow> active_by_hash s h = Some i \<Longrightarrow>
     i < capacity s \<and> slot_state (slots s ! i) = Primary \<and> slot_hash (slots s ! i) = Some h"
  by (simp add: store_inv_def maps_ok_def)

lemma inactiveD:
  "store_inv s M B \<Longrightarrow> inactive_by_hash s h = Some i \<Longrightarrow>
     i < capacity s \<and> slot_state (slots s ! i) = Inactive \<and> slot_hash (slots s ! i) = Some h"
  by (simp add: store_inv_def maps_ok_def)

subsection \<open>Rolling back a mutable slot\<close>

lemma clear_slot_blank:
  "release (slots s ! i) = None \<Longrightarrow> clear_slot st i s =
     upd_slot i (\<lambda>sl. sl\<lparr>slot_state := st, slot_hash := None, refcount := 0,
       payload := None, release := None\<rparr>) s"
  by (simp add: clear_slot_def Let_def)

lemma inv_drop_mutable [inv_intro]:
  assumes inv: "store_inv s M B" and i: "i \<in> set M"
  shows "store_inv (drop_mutable i s) (remove1 i M) B"
proof -
  note m = mut_mutable [OF inv i]
  note F = store_inv_facts [OF inv]
  have no: "active_by_hash s h \<noteq> Some i" "inactive_by_hash s h \<noteq> Some i" for h
    using activeD [OF inv, of h i] inactiveD [OF inv, of h i] m by auto
  show ?thesis
    by (rule sys_inv_update [OF inv, where k = i and sl = "(slots s ! i)
          \<lparr>slot_state := Reset, slot_hash := None, refcount := 0, payload := None, release := None\<rparr>"])
      (use m no F i in \<open>auto simp: drop_mutable_def clear_slot_blank blank_def Let_def slot_ok_def
        dest: in_set_remove1 [THEN iffD1, rotated]\<close>)
qed

lemma inv_drop_mutables:
  "store_inv s (M @ out) B \<Longrightarrow> store_inv (fold drop_mutable out s) M B"
proof (induction out arbitrary: s)
  case (Cons i out)
  have "i \<notin> set M" using store_inv_facts(3) [OF Cons.prems] by auto
  then have "store_inv (drop_mutable i s) (M @ out) B"
    using inv_drop_mutable [OF Cons.prems, of i] by (simp add: remove1_append)
  with Cons.IH show ?case by simp
qed simp

subsection \<open>One more reader of an active slot\<close>

text \<open>
  The effect shared by a clone, an active match and the deduplicating branch of
  \<^verbatim>\<open>commit_block\<close>.
\<close>

definition bump :: "nat \<Rightarrow> nat \<Rightarrow> 'p store \<Rightarrow> 'p store" where
  "bump i r s = (upd_slot i (\<lambda>sl. sl\<lparr>refcount := Suc (refcount sl)\<rparr>) s)
     \<lparr>events := release_clone r (events s)\<rparr>"

lemma inv_bump [inv_intro]:
  assumes inv: "store_inv s M B" and k: "i < capacity s"
    and st: "slot_state (slots s ! i) = Primary"
    and h: "slot_hash (slots s ! i) = Some h" and r: "release (slots s ! i) = Some r"
  shows "store_inv (bump i r s) M ((i, h, r) # B)"
proof -
  note F = store_inv_facts [OF inv]
  from primary_okD [OF inv k st] h r have p:
    "active_by_hash s h = Some i" "handles B i \<noteq> []" "payload (slots s ! i) \<noteq> None"
    "refcount (slots s ! i) = length (handles B i)"
    "releases (events s) r = Some (h, Suc (length (handles B i)))"
    "set (handles B i) \<subseteq> {(i, h, r)}" "i \<notin> set (free s)" "i \<notin> set M"
    by (auto simp: primary_ok_def)
  note rc = releases_clone [OF p(5)]
  have act: "active_by_hash s h' = Some i \<longleftrightarrow> h' = h" for h'
    using activeD [OF inv, of h' i] h p(1) by auto
  have ina: "inactive_by_hash s h' \<noteq> Some i" for h'
    using inactiveD [OF inv, of h' i] st by auto
  show ?thesis
    by (rule sys_inv_update [OF inv, where k = i and
          sl = "(slots s ! i)\<lparr>refcount := Suc (refcount (slots s ! i))\<rparr>"])
      (use F k st h r p act ina in \<open>auto simp: bump_def rc handles_Cons slot_ok_def primary_ok_def
        release_inv_clone split: if_splits\<close>)
qed

lemma clone_immutable_bump: "clone_immutable (i, h, r) s = bump i r s"
  by (simp add: clone_immutable_def bump_def)

subsection \<open>Promotion of a mutable slot\<close>

lemma commit_block_dup:
  assumes "active_by_hash s h = Some e" "slot_state (slots s ! i) = Mutable"
    "e < length (slots s)" "release (slots (drop_mutable i s) ! e) = Some r"
  shows "commit_block i h p s =
    Some ((bump e r (drop_mutable i s))\<lparr>tinylfu := increment (tinylfu s) h\<rparr>, e, False, r)"
proof -
  obtain d where d: "clear_slot Reset i s = d" by blast
  have "tinylfu d = tinylfu s" "length (slots d) = length (slots s)"
    using d by (auto simp: clear_slot_def Let_def)
  with assms d show ?thesis by (simp add: commit_block_def drop_mutable_def bump_def Let_def)
qed

lemma inv_commit [inv_intro]:
  assumes inv: "store_inv s M B" and i: "i \<in> set M" and c: "commit_block i h p s = Some (s', j, new, r)"
  shows "store_inv s' (remove1 i M) ((j, h, r) # B)"
proof (cases "active_by_hash s h")
  case (Some e)
  note m = mut_mutable [OF inv i]
  note a = activeD [OF inv Some]
  have ne: "e \<noteq> i" using a m by auto
  let ?d = "drop_mutable i s"
  have inv': "store_inv ?d (remove1 i M) B" by (rule inv_drop_mutable [OF inv i])
  have se: "slots ?d ! e = slots s ! e"
    using ne m by (simp add: drop_mutable_def Let_def clear_slot_blank blank_def)
  have cap: "capacity ?d = capacity s"
    by (simp add: drop_mutable_def Let_def clear_slot_def)
  obtain r' where r': "release (slots s ! e) = Some r'"
    using primary_okD [OF inv] a by (auto simp: primary_ok_def)
  have len: "e < length (slots s)" using a store_inv_facts(1) [OF inv] by simp
  have "commit_block i h p s =
      Some ((bump e r' ?d)\<lparr>tinylfu := increment (tinylfu s) h\<rparr>, e, False, r')"
    by (rule commit_block_dup) (use m Some len se r' in auto)
  with c have "j = e \<and> r = r' \<and> s' = (bump e r' ?d)\<lparr>tinylfu := increment (tinylfu s) h\<rparr>"
    by auto
  moreover have "store_inv (bump e r' ?d) (remove1 i M) ((e, h, r') # B)"
    by (rule inv_bump [OF inv']) (use a r' se cap in auto)
  ultimately show ?thesis by simp
next
  case None
  note m = mut_mutable [OF inv i]
  note F = store_inv_facts [OF inv]
  have r: "r = next_release (events s)" and j: "j = i"
    and rel: "release (slots s ! i) = None"
    using c None m by (auto simp: commit_block_def case_prod_unfold Let_def blank_def)
  note fresh = release_inv_fresh [OF F(4)]
  have no: "active_by_hash s h' \<noteq> Some i" "inactive_by_hash s h' \<noteq> Some i" for h'
    using activeD [OF inv, of h' i] inactiveD [OF inv, of h' i] m by auto
  define sl where "sl = (slots s ! i)\<lparr>slot_state := Primary, slot_hash := Some h,
        payload := Some p, refcount := 1, release := Some r\<rparr>"
  define ev where "ev = emit (Create h) (release_clone r (fst (release_mint h (events s))))"
  have s': "s' = s\<lparr>slots := (slots s)[i := sl], events := ev,
      active_by_hash := (active_by_hash s)(h \<mapsto> i), tinylfu := increment (tinylfu s) h\<rparr>"
    using c None rel r by (auto simp: commit_block_def case_prod_unfold Let_def sl_def ev_def)
  have ev: "releases ev = (releases (events s))(r \<mapsto> (h, 2))" "release_inv ev"
    using F(4) by (simp_all add: ev_def r releases_clone inv_intro numeral_2_eq_2)
  show ?thesis
    by (rule sys_inv_update [OF inv, where k = i and sl = sl])
      (use m no F i None j r fresh in \<open>auto simp: s' ev sl_def blank_def slot_ok_def primary_ok_def
        handles_Cons split: if_splits
        dest: in_set_remove1 [THEN iffD1, rotated]\<close>)
qed

lemma commit_some:
  assumes inv: "store_inv s M B" and i: "i \<in> set M"
  shows "\<exists>s' j new r. commit_block i h p s = Some (s', j, new, r)"
proof (cases "active_by_hash s h")
  case (Some e)
  note m = mut_mutable [OF inv i] and a = activeD [OF inv Some]
  have "e \<noteq> i" using a m by auto
  then have se: "slots (drop_mutable i s) ! e = slots s ! e"
    using m by (simp add: drop_mutable_def Let_def clear_slot_blank blank_def)
  obtain r where "release (slots s ! e) = Some r"
    using primary_okD [OF inv] a by (auto simp: primary_ok_def)
  with m a se store_inv_facts(1) [OF inv] show ?thesis
    using commit_block_dup [OF Some, of i r p] by auto
qed (auto simp: commit_block_def case_prod_unfold Let_def)

subsection \<open>Releasing a reader\<close>

lemma release_ref_cases:
  assumes inv: "store_inv s M B" and b: "(i, h, r) \<in> set B"
  shows "drop_immutable (i, h, r) s =
    (if refcount (slots s ! i) = 1
     then Some (s\<lparr>slots := (slots s)[i := (slots s ! i)\<lparr>refcount := 0, slot_state := Inactive\<rparr>],
            active_by_hash := (active_by_hash s)(h := None),
            inactive_by_hash := (inactive_by_hash s)(h \<mapsto> i),
            inactive := mlru_insert (tinylfu s) h (inactive s),
            events := release_drop r (events s)\<rparr>)
     else Some (s\<lparr>slots := (slots s)[i := (slots s ! i)\<lparr>refcount := refcount (slots s ! i) - 1\<rparr>],
            events := release_drop r (events s)\<rparr>))"
proof -
  note p = imm_primary [OF inv b]
  have len: "i < length (slots s)" using p store_inv_facts(1) [OF inv] by simp
  have "(i, h, r) \<in> set (handles B i)" using b by (simp add: handles_def)
  then have "handles B i \<noteq> []" by auto
  then obtain n where "refcount (slots s ! i) = Suc n" using p by (cases "handles B i") auto
  moreover have "slot_state (slots s ! i) = Primary" "slot_hash (slots s ! i) = Some h"
    using p by simp_all
  ultimately show ?thesis using len
    by (simp add: drop_immutable_def release_ref_def Let_def)
qed

lemma handles_remove_member:
  assumes "b \<in> set B"
  shows "Suc (length (handles (remove1 b B) (fst b))) = length (handles B (fst b))"
proof -
  have "b \<in> set (handles B (fst b))" using assms by (simp add: handles_def)
  then show ?thesis by (auto simp: handles_remove1 length_remove1 dest: length_pos_if_in_set)
qed

lemma inv_drop_immutable [inv_intro]:
  assumes inv: "store_inv s M B" and b: "(i, h, r) \<in> set B"
    and d: "drop_immutable (i, h, r) s = Some s'"
  shows "store_inv s' M (remove1 (i, h, r) B)"
proof -
  let ?n = "length (handles B i)"
  define C where "C = remove1 (i, h, r) B"
  note p = imm_primary [OF inv b]
  note F = store_inv_facts [OF inv]
  have pk: "set (handles B i) \<subseteq> {(i, h, r)}"
    using primary_okD [OF inv, of i] p by (auto simp: primary_ok_def)
  have n: "Suc (length (handles C i)) = ?n" using handles_remove_member [OF b] by (simp add: C_def)
  have hB: "j \<noteq> i \<Longrightarrow> handles C j = handles B j" for j by (simp add: C_def handles_remove1)
  have pk': "set (handles C i) \<subseteq> {(i, h, r)}"
    using pk set_remove1_subset by (fastforce simp: C_def handles_remove1)
  have rd: "releases (release_drop r (events s)) = (releases (events s))(r \<mapsto> (h, ?n))"
    using p n by (subst releases_drop) auto
  have act: "active_by_hash s h' = Some i \<longleftrightarrow> h' = h" for h'
    using activeD [OF inv, of h' i] p by auto
  have ina: "inactive_by_hash s h' \<noteq> Some i" for h'
    using inactiveD [OF inv, of h' i] p by auto
  show ?thesis
  proof (cases "refcount (slots s ! i) = 1")
    case True
    then have nil: "handles C i = []" and one: "?n = 1" using n p by auto
    from d release_ref_cases [OF inv b] True have s': "s' =
        s\<lparr>slots := (slots s)[i := (slots s ! i)\<lparr>refcount := 0, slot_state := Inactive\<rparr>],
            active_by_hash := (active_by_hash s)(h := None),
            inactive_by_hash := (inactive_by_hash s)(h \<mapsto> i),
            inactive := mlru_insert (tinylfu s) h (inactive s),
            events := release_drop r (events s)\<rparr>" by simp
    show ?thesis unfolding s' C_def [symmetric]
      by (rule sys_inv_update [OF inv, where k = i and
            sl = "(slots s ! i)\<lparr>refcount := 0, slot_state := Inactive\<rparr>"])
        (use F p act ina hB rd nil one in \<open>auto simp: slot_ok_def inactive_ok_def
           release_inv_drop mlru.invar_ins mlru.elems_ins split: if_splits\<close>)
  next
    case False
    with p n have ne: "handles C i \<noteq> []" by auto
    have rc: "refcount (slots s ! i) - 1 = length (handles C i)" using p n by simp
    have rd': "releases (release_drop r (events s)) =
        (releases (events s))(r \<mapsto> (h, Suc (length (handles C i))))" using rd n by simp
    have rr: "releases (events s) r \<noteq> None" using p by simp
    from d release_ref_cases [OF inv b] False rc have s': "s' =
        s\<lparr>slots := (slots s)[i := (slots s ! i)\<lparr>refcount := length (handles C i)\<rparr>],
            events := release_drop r (events s)\<rparr>" by simp
    have q: "i < capacity s" "slot_state (slots s ! i) = Primary" "slot_hash (slots s ! i) = Some h"
      "release (slots s ! i) = Some r" "payload (slots s ! i) \<noteq> None" "i \<notin> set (free s)"
      "i \<notin> set M" using p by simp_all
    show ?thesis unfolding s' C_def [symmetric]
      by (rule sys_inv_update [OF inv, where k = i and
            sl = "(slots s ! i)\<lparr>refcount := length (handles C i)\<rparr>"])
        (use F q act ina hB rd' rr ne pk' in \<open>auto simp: slot_ok_def primary_ok_def
           release_inv_drop split: if_splits\<close>)
  qed
qed

lemma drop_immutable_some:
  "store_inv s M B \<Longrightarrow> b \<in> set B \<Longrightarrow> \<exists>s'. drop_immutable b s = Some s'"
  by (cases b) (metis release_ref_cases)

lemma inv_drop_immutables:
  "store_inv s M (bs @ B) \<Longrightarrow> \<exists>s'. drop_immutables bs s = Some s' \<and> store_inv s' M B"
proof (induction bs arbitrary: s)
  case (Cons b bs)
  obtain i h r where b: "b = (i, h, r)" by (cases b)
  obtain s1 where s1: "drop_immutable b s = Some s1"
    using drop_immutable_some [OF Cons.prems, of b] by auto
  have "store_inv s1 M (bs @ B)"
    using inv_drop_immutable [OF Cons.prems, of i h r s1] s1 b by simp
  from Cons.IH [OF this] s1 show ?case by simp
qed simp

subsection \<open>Matching\<close>

lemma inv_confirm_one [inv_intro]:
  assumes inv: "store_inv s M B" and c: "confirm_one h s = Some (s', Some (res, b))"
  shows "store_inv s' M (b # B)"
proof (cases "active_by_hash s h")
  case (Some i)
  note a = activeD [OF inv Some] and F = store_inv_facts [OF inv]
  obtain r where r: "release (slots s ! i) = Some r"
    using primary_okD [OF inv] a by (auto simp: primary_ok_def)
  from c Some r a F have "s' = (bump i r s)\<lparr>tinylfu := increment (tinylfu s) h\<rparr>" "b = (i, h, r)"
    by (auto simp: confirm_one_def Let_def bump_def)
  moreover have "store_inv (bump i r s) M ((i, h, r) # B)"
    by (rule inv_bump [OF inv]) (use a r in auto)
  ultimately show ?thesis by simp
next
  case None
  note F = store_inv_facts [OF inv]
  from c None obtain i where i: "inactive_by_hash s h = Some i"
    by (auto simp: confirm_one_def split: option.splits)
  note a = inactiveD [OF inv i]
  from inactive_okD [OF inv, of i] a
  have q: "handles B i = []" "refcount (slots s ! i) = 0" "payload (slots s ! i) \<noteq> None"
      "i \<notin> set (free s)" "i \<notin> set M"
    and "\<exists>old. release (slots s ! i) = Some old \<and> releases (events s) old = Some (h, 1)"
    by (auto simp: inactive_ok_def)
  then obtain old where old: "release (slots s ! i) = Some old"
    and po: "releases (events s) old = Some (h, 1)" by blast
  define r where "r = next_release (events s)"
  note fresh = release_inv_fresh [OF F(4), folded r_def]
  have ne: "old \<noteq> r" using fresh po by auto
  define ev where "ev = release_drop old (release_clone r (fst (release_mint h (events s))))"
  have rev: "releases ev = (releases (events s))(r \<mapsto> (h, 2), old := None)"
    using ne po by (simp add: ev_def r_def releases_clone releases_drop numeral_2_eq_2)
  have iev: "release_inv ev" using F(4) by (simp add: ev_def inv_intro)
  define sl where "sl = (slots s ! i)\<lparr>slot_state := Primary, refcount := 1, release := Some r\<rparr>"
  have s': "b = (i, h, r)" "s' = s\<lparr>slots := (slots s)[i := sl], inactive_by_hash := (inactive_by_hash s)(h := None),
      inactive := fst (mlru_remove h (inactive s)), events := ev,
      active_by_hash := (active_by_hash s)(h \<mapsto> i), tinylfu := increment (tinylfu s) h\<rparr>"
    using c None i old by (auto simp: confirm_one_def case_prod_unfold Let_def ev_def sl_def r_def)
  have ina: "inactive_by_hash s h' = Some i \<longleftrightarrow> h' = h" for h'
    using inactiveD [OF inv, of h' i] a i by auto
  have act: "active_by_hash s h' \<noteq> Some i" for h'
    using activeD [OF inv, of h' i] a by auto
  show ?thesis unfolding s'
    by (rule sys_inv_update [OF inv, where k = i and sl = sl])
      (use F a q old po rev iev ne fresh None ina act in \<open>auto simp: sl_def handles_Cons slot_ok_def
        primary_ok_def mlru.invar_rem mlru.elems_rem split: if_splits\<close>)
qed

lemma inv_confirm_miss:
  "confirm_one h s = Some (s', None) \<Longrightarrow> s' = s \<and> active_by_hash s h = None \<and>
     inactive_by_hash s h = None"
  by (auto simp: confirm_one_def case_prod_unfold Let_def split: option.splits)

lemma confirm_some:
  assumes inv: "store_inv s M B"
  shows "\<exists>s' c. confirm_one h s = Some (s', c) \<and>
    (c = None \<longleftrightarrow> active_by_hash s h = None \<and> inactive_by_hash s h = None)"
proof (cases "active_by_hash s h")
  case (Some i)
  note a = activeD [OF inv Some] and F = store_inv_facts [OF inv]
  obtain r where r: "release (slots s ! i) = Some r"
    using primary_okD [OF inv] a by (auto simp: primary_ok_def)
  then show ?thesis using Some a F by (auto simp: confirm_one_def Let_def)
next
  case None
  then show ?thesis
    by (cases "inactive_by_hash s h") (auto simp: confirm_one_def case_prod_unfold Let_def)
qed

lemma inv_touch [inv_intro]:
  assumes "store_inv s M B"
  shows "store_inv (touch_frequency h s) M B"
proof -
  have *: "store_inv (s\<lparr>inactive := p\<rparr>) M B" if "mlru_inv p" "mlru_elems p = mlru_elems (inactive s)" for p
    using assms that by (simp add: store_inv_def bounds_ok_def slots_ok_def maps_ok_def releases_ok_def)
  have inv: "store_inv (s\<lparr>inactive := mlru_touch t h (inactive s)\<rparr>) M B" for t
    by (rule *) (use store_inv_facts(5) [OF assms] in \<open>simp_all add: mlru.invar_tch mlru.elems_tch\<close>)
  have "store_inv (s\<lparr>tinylfu := t, inactive := mlru_touch t h (inactive s)\<rparr>) M B" for t
    using inv [of t] by (rule store_inv_cong [THEN iffD2, rotated -1]) simp_all
  then show ?thesis using assms by (auto simp: touch_frequency_def Let_def)
qed

subsection \<open>Taking a slot for a new block\<close>

lemma handles_bounds: "store_inv s M B \<Longrightarrow> i \<in> set M \<Longrightarrow> i < capacity s"
  by (auto simp: store_inv_def bounds_ok_def)

lemma inv_take_free:
  assumes inv: "store_inv s M B" and f: "free s = i # rest"
  shows "store_inv (clear_slot Mutable i (s\<lparr>free := rest\<rparr>)) (M @ [i]) B"
proof -
  have "i \<in> set (free s)" using f by simp
  note m = free_reset [OF inv this] and F = store_inv_facts [OF inv]
  have no: "active_by_hash s h \<noteq> Some i" "inactive_by_hash s h \<noteq> Some i" for h
    using activeD [OF inv, of h i] inactiveD [OF inv, of h i] m by auto
  show ?thesis
    by (rule sys_inv_update [OF inv, where k = i and sl = "(slots s ! i)
          \<lparr>slot_state := Mutable, slot_hash := None, refcount := 0, payload := None, release := None\<rparr>"])
      (use m no F f in \<open>auto simp: clear_slot_blank blank_def slot_ok_def\<close>)
qed

lemma clear_slot_twice:
  "i < length (slots s) \<Longrightarrow> clear_slot Mutable i (clear_slot Reset i s) = clear_slot Mutable i s"
  by (simp add: clear_slot_def Let_def)

lemma inv_take_inactive:
  assumes inv: "store_inv s M B" and e: "mlru_evict (inactive s) = Some (h, ps)"
    and i: "inactive_by_hash s h = Some i"
  shows "store_inv (clear_slot Mutable i
      (s\<lparr>inactive := ps, inactive_by_hash := (inactive_by_hash s)(h := None)\<rparr>)) (M @ [i]) B"
proof -
  note F = store_inv_facts [OF inv] and a = inactiveD [OF inv i]
  from inactive_okD [OF inv, of i] a
  have q: "handles B i = []" "i \<notin> set (free s)" "i \<notin> set M"
    and "\<exists>r. release (slots s ! i) = Some r \<and> releases (events s) r = Some (h, 1)"
    by (auto simp: inactive_ok_def)
  then obtain r where r: "release (slots s ! i) = Some r" "releases (events s) r = Some (h, 1)"
    by blast
  have rd: "releases (release_drop r (events s)) = (releases (events s))(r := None)"
    using r by (subst releases_drop) auto
  have ina: "inactive_by_hash s h' = Some i \<longleftrightarrow> h' = h" for h'
    using inactiveD [OF inv, of h' i] a i by auto
  have act: "active_by_hash s h' \<noteq> Some i" for h'
    using activeD [OF inv, of h' i] a by auto
  show ?thesis
    by (rule sys_inv_update [OF inv, where k = i and sl = "(slots s ! i)
          \<lparr>slot_state := Mutable, slot_hash := None, refcount := 0, payload := None, release := None\<rparr>"])
      (use F a q r rd ina act mlru.elems_evict [OF F(5) e] mlru.invar_evict [OF F(5) e] in
        \<open>auto simp: clear_slot_def Let_def blank_def slot_ok_def release_inv_drop split: if_splits\<close>)
qed

lemma pick_slot_cases:
  assumes inv: "store_inv s M B"
  shows "(free s = [] \<and> mlru_evict (inactive s) = None \<and> pick_slot s = (s, None)) \<or>
    (\<exists>i rest. free s = i # rest \<and> pick_slot s = (s\<lparr>free := rest\<rparr>, Some (i, None))) \<or>
    (\<exists>h ps i. free s = [] \<and> mlru_evict (inactive s) = Some (h, ps) \<and> inactive_by_hash s h = Some i \<and>
       i < capacity s \<and>
       pick_slot s = (clear_slot Reset i
           (s\<lparr>inactive := ps, inactive_by_hash := (inactive_by_hash s)(h := None)\<rparr>),
         Some (i, if sink s then Some (h, the (payload (slots s ! i))) else None)))"
proof (cases "free s")
  case Nil
  note F = store_inv_facts [OF inv]
  show ?thesis
  proof (cases "mlru_evict (inactive s)")
    case (Some hp)
    obtain h ps where hp: "hp = (h, ps)" by force
    from mlru.elems_evict [OF F(5) Some [unfolded hp]] F(6)
    obtain i where i: "inactive_by_hash s h = Some i" by auto
    note a = inactiveD [OF inv i]
    have "payload (slots s ! i) \<noteq> None"
      using inactive_okD [OF inv, of i] a by (simp add: inactive_ok_def)
    then obtain p where p: "payload (slots s ! i) = Some p" by blast
    show ?thesis using Nil Some hp i a p
      by (simp add: pick_slot_def reset_slot_collect_offer_def Let_def)
  qed (use Nil in \<open>simp add: pick_slot_def\<close>)
qed (simp add: pick_slot_def)

lemma clear_slot_capacity [simp]: "capacity (clear_slot st i s) = capacity s"
  by (simp add: clear_slot_def Let_def)

lemma drop_mutable_capacity [simp]: "capacity (drop_mutable i s) = capacity s"
  by (simp add: drop_mutable_def Let_def)

lemma inv_pick:
  assumes inv: "store_inv s M B" and p: "pick_slot s = (s1, Some (i, offer))"
  shows "store_inv (clear_slot Mutable i s1) (M @ [i]) B \<and> capacity s1 = capacity s"
  using pick_slot_cases [OF inv]
proof (elim disjE exE conjE, goal_cases)
  case (2 i' rest)
  then show ?case using p inv_take_free [OF inv, of i' rest] by simp
next
  case (3 h ps j)
  let ?t = "s\<lparr>inactive := ps, inactive_by_hash := (inactive_by_hash s)(h := None)\<rparr>"
  from 3 p have eq: "i = j" "s1 = clear_slot Reset j ?t" by auto
  have "j < length (slots ?t)" using 3 store_inv_facts(1) [OF inv] by simp
  then have "clear_slot Mutable j (clear_slot Reset j ?t) = clear_slot Mutable j ?t"
    by (rule clear_slot_twice)
  with inv_take_inactive [OF inv 3(2,3)] eq show ?case by simp
qed (use p in simp)

lemma inv_alloc_loop:
  assumes "store_inv s (M @ out) B" "alloc_loop n s out deferred = (s', out', deferred', ok)"
  shows "store_inv s' (M @ out') B \<and> capacity s' = capacity s \<and>
    (\<exists>new. out' = out @ new \<and> (if ok then length new = n else length new < n))"
  using assms
proof (induction n arbitrary: s out deferred)
  case (Suc n)
  obtain s1 c where pk: "pick_slot s = (s1, c)" by force
  show ?case
  proof (cases c)
    case None
    with pick_slot_cases [OF Suc.prems(1)] pk have "s1 = s" by auto
    with Suc.prems pk None show ?thesis by auto
  next
    case (Some io)
    obtain i offer where io: "io = (i, offer)" by force
    note inv1 = inv_pick [OF Suc.prems(1) pk [unfolded Some io]]
    from Suc.prems(2) pk Some io obtain df where
      l: "alloc_loop n (clear_slot Mutable i s1) (out @ [i]) df = (s', out', deferred', ok)"
      by simp
    from Suc.IH [OF _ l] inv1
    have "store_inv s' (M @ out') B \<and> capacity s' = capacity s"
      "\<exists>new. out' = (out @ [i]) @ new \<and> (if ok then length new = n else length new < n)" by auto
    then show ?thesis by force
  qed
qed simp

lemma inv_allocate [inv_intro]:
  assumes inv: "store_inv s M B" and a: "allocate_blocks n s = (s', res)"
  shows "store_inv s' (M @ (case res of Inr out \<Rightarrow> out | Inl _ \<Rightarrow> [])) B"
    and "\<And>out. res = Inr out \<Longrightarrow> length out = n"
proof -
  obtain s1 out df ok where l: "alloc_loop n s [] [] = (s1, out, df, ok)"
    by (cases "alloc_loop n s [] []") auto
  from inv_alloc_loop [of s M "[]" B, OF _ l] inv
  have inv1: "store_inv s1 (M @ out) B" and len: "ok \<Longrightarrow> length out = n" by (auto split: if_splits)
  show "store_inv s' (M @ (case res of Inr out \<Rightarrow> out | Inl _ \<Rightarrow> [])) B"
    using a l inv1 inv_drop_mutables [OF inv1] by (auto simp: allocate_blocks_def split: if_splits)
  show "\<And>out. res = Inr out \<Longrightarrow> length out = n"
    using a l len by (auto simp: allocate_blocks_def split: if_splits)
qed

subsection \<open>Every reachable state satisfies the invariant\<close>

lemma inv_new: "store_inv (store_new cap t) [] []"
  by (auto simp: store_inv_def bounds_ok_def slots_ok_def slot_ok_def maps_ok_def releases_ok_def
      store_new_def fresh_slot_def blank_def handles_def event_new_def)
    (simp add: event_new_def [symmetric])

lemma sys_step_inv: "sys_step y z \<Longrightarrow> sys_inv y \<Longrightarrow> sys_inv z"
proof (induction rule: sys_step.induct)
  case (alloc_ok n y s' out)
  then show ?case using inv_allocate(1) [of "store y" "muts y" "imms y" n s' "Inr out"]
    by (simp add: sys_inv_def)
next
  case (alloc_full n y s' e)
  then show ?case using inv_allocate(1) [of "store y" "muts y" "imms y" n s' "Inl e"]
    by (simp add: sys_inv_def)
next
  case (register i y h p s' b)
  then obtain j new r where "commit_block i h p (store y) = Some (s', j, new, r)" "b = (j, h, r)"
    by (auto simp: register_block_def)
  with register inv_commit show ?case by (fastforce simp: sys_inv_def)
next
  case (clone_imm b y)
  obtain i h r where b: "b = (i, h, r)" by (cases b)
  with clone_imm imm_primary [of "store y" "muts y" "imms y" i h r]
  show ?case by (simp add: sys_inv_def clone_immutable_bump inv_bump)
next
  case (drop_imm b y s')
  obtain i h r where b: "b = (i, h, r)" by (cases b)
  with drop_imm inv_drop_immutable [of "store y" "muts y" "imms y" i h r s']
  show ?case by (simp add: sys_inv_def)
next
  case (match_miss h y s')
  then show ?case by (auto simp: sys_inv_def dest: inv_confirm_miss)
qed (auto simp: sys_inv_def set_overflow_sink_def inv_intro)

lemma reachable_inv: "reachable y \<Longrightarrow> sys_inv y"
proof (induction rule: reachable.induct)
  case (start cap t)
  then show ?case by (simp add: sys_inv_def sys_new_def inv_new)
qed (rule sys_step_inv)

end
