(* ===== verification/BlockManager.thy ===== *)
theory BlockManager
  imports BlockOps BlockHash
begin

text \<open>
  The facade \<^verbatim>\<open>BlockManager\<close> of \<^verbatim>\<open>block_manager/manager.rs\<close>: its configuration, the
  seeded block hashes of a token stream, and the calls that go through to the block
  store. The second half states what the store and the facade promise to a client:
  who owns a slot, when an allocation succeeds, that the data behind a live handle
  does not change, and that a prefix scan is exact and leaves the rest alone.
\<close>

record block_manager_config =
  cfg_capacity :: nat
  cfg_tinylfu_capacity :: nat
  cfg_block_tokens :: nat
  cfg_layout_key :: u64
  cfg_lora_salt :: "u64 option"
  cfg_mm_hash :: "u64 option"

definition config_default :: block_manager_config where
  "config_default =
     (let capacity = 1024
      in \<lparr>cfg_capacity = capacity, cfg_tinylfu_capacity = max (capacity * 8) 64,
          cfg_block_tokens = 256, cfg_layout_key = 0, cfg_lora_salt = None,
          cfg_mm_hash = None\<rparr>)"

definition config_medium :: block_manager_config where
  "config_medium = config_default\<lparr>cfg_tinylfu_capacity := 2 ^ 21\<rparr>"

definition config_seed :: "block_manager_config \<Rightarrow> u64" where
  "config_seed c = chained_seed (cfg_layout_key c) (cfg_lora_salt c) (cfg_mm_hash c)"

record 'p manager =
  m_store :: "'p store"
  m_config :: block_manager_config

definition manager_new :: "block_manager_config \<Rightarrow> 'p manager" where
  "manager_new c = \<lparr>m_store = store_new (cfg_capacity c) (cfg_tinylfu_capacity c), m_config = c\<rparr>"

text \<open>\<^verbatim>\<open>tokens.len() / block\<close> panics for a block size of zero.\<close>

definition manager_block_hashes :: "'p manager \<Rightarrow> u32 list \<Rightarrow> u64 list option" where
  "manager_block_hashes m tokens =
     (let block = cfg_block_tokens (m_config m)
      in if block = 0 then None else Some (block_digests block tokens (config_seed (m_config m))))"

fun register_blocks :: "(nat \<times> u64 \<times> 'p) list \<Rightarrow> 'p store \<Rightarrow> ('p store \<times> imm_block list) option" where
  "register_blocks [] s = Some (s, [])"
| "register_blocks ((i, h, p) # items) s =
     Option.bind (register_block i h p s) (\<lambda>(s1, b).
       map_option (\<lambda>(s2, bs). (s2, b # bs)) (register_blocks items s1))"

record prefix_match =
  n_blocks :: nat
  n_tokens :: nat

text \<open>The handles that a vector of match outcomes owns, in the order they are dropped.\<close>

definition outcome_block :: "match_outcome \<Rightarrow> imm_block list" where
  "outcome_block m = (case m of Active _ b \<Rightarrow> [b] | Resurrected _ b \<Rightarrow> [b] | Miss \<Rightarrow> [])"

definition scan_matches ::
    "block_manager_config \<Rightarrow> u64 list \<Rightarrow> 'p store \<Rightarrow> ('p store \<times> prefix_match) option" where
  "scan_matches c hashes s =
     (let probes = probe_blocks hashes s;
          n = (case position (\<lambda>p. p = None) probes of Some i \<Rightarrow> i | None \<Rightarrow> length probes)
      in Option.bind (confirm_prefix hashes n s) (\<lambda>(s1, confirmed).
           map_option (\<lambda>s2. (s2, \<lparr>n_blocks = n, n_tokens = n * cfg_block_tokens c\<rparr>))
             (drop_immutables (concat (map outcome_block confirmed)) s1)))"

subsection \<open>When an allocation succeeds\<close>

definition avail :: "'p store \<Rightarrow> nat" where
  "avail s = length (free s) + mlru_len (inactive s)"

lemma clear_slot_simps [simp]:
  "free (clear_slot st i s) = free s" "inactive (clear_slot st i s) = inactive s"
  "inactive_by_hash (clear_slot st i s) = inactive_by_hash s"
  "active_by_hash (clear_slot st i s) = active_by_hash s"
  "offered (clear_slot st i s) = offered s" "sink (clear_slot st i s) = sink s"
  by (simp_all add: clear_slot_def Let_def)

lemma clear_slot_other: "j \<noteq> i \<Longrightarrow> slots (clear_slot st i s) ! j = slots s ! j"
  by (simp add: clear_slot_def Let_def)

lemma avail_pick:
  assumes inv: "store_inv s M B"
  shows "pick_slot s = (s1, None) \<Longrightarrow> avail s = 0 \<and> s1 = s \<and> inactive_by_hash s = Map.empty"
    and "pick_slot s = (s1, Some (i, offer)) \<Longrightarrow> avail s = Suc (avail (clear_slot Mutable i s1)) \<and>
      offered s1 = offered s \<and> (\<forall>j. j \<noteq> i \<longrightarrow> slots s1 ! j = slots s ! j)"
proof -
  note F = store_inv_facts [OF inv]
  {
    assume "pick_slot s = (s1, None)"
    with pick_slot_cases [OF inv] have *: "free s = []" "mlru_evict (inactive s) = None" "s1 = s"
      by auto
    with mlru.evict_None [OF F(5)] F(6) mlru.len_elems [OF F(5)]
    show "avail s = 0 \<and> s1 = s \<and> inactive_by_hash s = Map.empty" by (auto simp: avail_def)
  next
    assume p: "pick_slot s = (s1, Some (i, offer))"
    from pick_slot_cases [OF inv] show "avail s = Suc (avail (clear_slot Mutable i s1)) \<and>
      offered s1 = offered s \<and> (\<forall>j. j \<noteq> i \<longrightarrow> slots s1 ! j = slots s ! j)"
    proof (elim disjE exE conjE, goal_cases)
      case (2 i' rest)
      then show ?case using p by (auto simp: avail_def)
    next
      case (3 h ps j)
      with mlru.len_evict [OF F(5) 3(2)] p show ?case by (auto simp: avail_def clear_slot_other)
    qed (use p in simp)
  }
qed

lemma alloc_loop_avail:
  assumes "store_inv s (M @ out) B" "alloc_loop n s out deferred = (s', out', deferred', ok)"
  shows "(ok \<longleftrightarrow> n \<le> avail s) \<and> (\<not> ok \<longrightarrow> inactive_by_hash s' = Map.empty) \<and>
    offered s' = offered s \<and> (\<forall>j h r. (j, h, r) \<in> set B \<longrightarrow> slots s' ! j = slots s ! j)"
  using assms
proof (induction n arbitrary: s out deferred)
  case (Suc n)
  obtain s1 c where pk: "pick_slot s = (s1, c)" by force
  show ?case
  proof (cases c)
    case None
    with avail_pick(1) [OF Suc.prems(1), of s1] Suc.prems(2) pk show ?thesis by auto
  next
    case (Some io)
    obtain i offer where io: "io = (i, offer)" by force
    note inv1 = inv_pick [OF Suc.prems(1) pk [unfolded Some io]]
    note av = avail_pick(2) [OF Suc.prems(1) pk [unfolded Some io]]
    from Suc.prems(2) pk Some io obtain df where
      l: "alloc_loop n (clear_slot Mutable i s1) (out @ [i]) df = (s', out', deferred', ok)"
      by simp
    have ne: "j \<noteq> i" if "(j, h, r) \<in> set B" for j h r
      using imm_primary [OF conjunct1 [OF inv1] that] by auto
    from Suc.IH [OF _ l] inv1 av ne show ?thesis by (auto simp: clear_slot_other)
  qed
qed simp

lemma fold_drop_mutable_simps [simp]:
  "inactive_by_hash (fold drop_mutable out s) = inactive_by_hash s"
  "offered (fold drop_mutable out s) = offered s"
  by (induction out arbitrary: s) (simp_all add: drop_mutable_def Let_def)

lemma fold_drop_mutable_other: "j \<notin> set out \<Longrightarrow> slots (fold drop_mutable out s) ! j = slots s ! j"
  by (induction out arbitrary: s) (auto simp: drop_mutable_def Let_def clear_slot_other)

lemma allocate_cases:
  assumes inv: "store_inv s M B"
  shows "n \<le> avail s \<Longrightarrow> \<exists>s' out. allocate_blocks n s = (s', Inr out) \<and> length out = n \<and>
      store_inv s' (M @ out) B"
    and "avail s < n \<Longrightarrow> \<exists>s'. allocate_blocks n s = (s', Inl (Full (capacity s) 0)) \<and>
      inactive_by_hash s' = Map.empty \<and> offered s' = offered s"
    and "(j, h, r) \<in> set B \<Longrightarrow> slots (fst (allocate_blocks n s)) ! j = slots s ! j"
proof -
  obtain s1 out df ok where l: "alloc_loop n s [] [] = (s1, out, df, ok)"
    by (cases "alloc_loop n s [] []") auto
  from alloc_loop_avail [of s M "[]" B, OF _ l] inv
  have a: "ok \<longleftrightarrow> n \<le> avail s" "\<not> ok \<longrightarrow> inactive_by_hash s1 = Map.empty" "offered s1 = offered s"
    and sl: "\<forall>j h r. (j, h, r) \<in> set B \<longrightarrow> slots s1 ! j = slots s ! j" by auto
  from inv_alloc_loop [of s M "[]" B, OF _ l] inv have inv1: "store_inv s1 (M @ out) B"
    and len: "ok \<longrightarrow> length out = n" by (auto split: if_splits)
  show "n \<le> avail s \<Longrightarrow> \<exists>s' out. allocate_blocks n s = (s', Inr out) \<and> length out = n \<and>
      store_inv s' (M @ out) B"
    using l a len inv1 by (simp add: allocate_blocks_def)
  show "avail s < n \<Longrightarrow> \<exists>s'. allocate_blocks n s = (s', Inl (Full (capacity s) 0)) \<and>
      inactive_by_hash s' = Map.empty \<and> offered s' = offered s"
    using l a by (simp add: allocate_blocks_def)
  assume b: "(j, h, r) \<in> set B"
  with imm_primary [OF inv1 b] have "j \<notin> set out" by simp
  with b sl l show "slots (fst (allocate_blocks n s)) ! j = slots s ! j"
    by (auto simp: allocate_blocks_def fold_drop_mutable_other)
qed

subsection \<open>A scan is exact and leaves the rest alone\<close>

definition resident :: "'p store \<Rightarrow> u64 \<Rightarrow> bool" where
  "resident s h \<longleftrightarrow> active_by_hash s h \<noteq> None \<or> inactive_by_hash s h \<noteq> None"

text \<open>Only slots that hold one of the hashes \<open>H\<close> may differ, and residency is the same.\<close>

definition touches :: "u64 set \<Rightarrow> 'p store \<Rightarrow> 'p store \<Rightarrow> bool" where
  "touches H s s' \<longleftrightarrow> (\<forall>h. resident s' h \<longleftrightarrow> resident s h) \<and>
     (\<forall>i. slot_hash (slots s' ! i) = slot_hash (slots s ! i) \<and>
        payload (slots s' ! i) = payload (slots s ! i) \<and>
        (slot_hash (slots s ! i) \<notin> Some ` H \<longrightarrow> slots s' ! i = slots s ! i))"

lemma touches_refl [simp]: "touches H s s"
  by (simp add: touches_def)

lemma touches_trans: "touches H s t \<Longrightarrow> touches H t u \<Longrightarrow> touches H s u"
  by (simp add: touches_def)

lemma touches_mono: "touches H s t \<Longrightarrow> H \<subseteq> K \<Longrightarrow> touches K s t"
  by (fastforce simp: touches_def)

lemma touches_confirm:
  assumes inv: "store_inv s M B" and c: "confirm_one h s = Some (s', Some (res, b))"
  shows "touches {h} s s' \<and> fst (snd b) = h"
proof (cases "active_by_hash s h")
  case (Some i)
  note a = activeD [OF inv Some]
  have "i < length (slots s)" using a store_inv_facts(1) [OF inv] by simp
  with c Some a show ?thesis
    by (auto simp: confirm_one_def Let_def touches_def resident_def nth_list_update split: option.splits)
next
  case None
  from c None obtain i where i: "inactive_by_hash s h = Some i"
    by (auto simp: confirm_one_def split: option.splits)
  note a = inactiveD [OF inv i]
  have "i < length (slots s)" using a store_inv_facts(1) [OF inv] by simp
  with c None i a show ?thesis
    by (auto simp: confirm_one_def case_prod_unfold Let_def touches_def resident_def nth_list_update
        split: option.splits if_splits)
qed

lemma touches_drop:
  assumes inv: "store_inv s M B" and b: "(i, h, r) \<in> set B"
    and d: "drop_immutable (i, h, r) s = Some s'"
  shows "touches {h} s s'"
proof -
  note p = imm_primary [OF inv b]
  have "i < length (slots s)" using p store_inv_facts(1) [OF inv] by simp
  with d p release_ref_cases [OF inv b] show ?thesis
    by (auto simp: touches_def resident_def nth_list_update split: if_splits)
qed

lemma handles_mset: "mset B = mset C \<Longrightarrow> mset (handles B i) = mset (handles C i)"
  by (simp add: handles_def mset_filter)

lemma store_inv_mset: "mset B = mset C \<Longrightarrow> store_inv s M B \<longleftrightarrow> store_inv s M C"
proof -
  assume m: "mset B = mset C"
  have "set (handles B i) = set (handles C i)" "length (handles B i) = length (handles C i)"
    "handles B i = [] \<longleftrightarrow> handles C i = []" for i
    using handles_mset [OF m, of i] by (metis mset_eq_setD, metis mset_eq_length, metis mset_zero_iff)
  then have "slot_ok sl fr mu (handles B i) a rl i = slot_ok sl fr mu (handles C i) a rl i"
    for sl :: "'a block_slot" and fr mu a rl i
    by (cases "slot_state sl") (simp_all add: slot_ok_def primary_ok_def inactive_ok_def)
  moreover have "set B = set C" using m by (rule mset_eq_setD)
  ultimately show ?thesis by (simp add: store_inv_def bounds_ok_def slots_ok_def)
qed

lemma match_blocks_resident:
  assumes "store_inv s M B" "\<forall>h\<in>set hs. resident s h"
  shows "\<exists>s' outs. match_blocks hs s = Some (s', outs) \<and>
    store_inv s' M (concat (map outcome_block outs) @ B) \<and> touches (set hs) s s' \<and>
    map (fst \<circ> snd) (concat (map outcome_block outs)) = hs"
  using assms
proof (induction hs arbitrary: s B)
  case (Cons h hs)
  from confirm_some [OF Cons.prems(1), of h] Cons.prems(2) obtain s1 res b where
    c: "confirm_one h s = Some (s1, Some (res, b))" by (auto simp: resident_def)
  note inv1 = inv_confirm_one [OF Cons.prems(1) c] and t = touches_confirm [OF Cons.prems(1) c]
  have "\<forall>h\<in>set hs. resident s1 h" using t Cons.prems(2) by (auto simp: touches_def)
  from Cons.IH [OF inv1 this] obtain s' outs where
    m: "match_blocks hs s1 = Some (s', outs)"
    and inv': "store_inv s' M (concat (map outcome_block outs) @ b # B)"
    and t': "touches (set hs) s1 s'"
    and hs: "map (fst \<circ> snd) (concat (map outcome_block outs)) = hs" by blast
  have ob: "outcome_block (outcome_of (Some (res, b))) = [b]"
    by (simp add: outcome_of_def outcome_block_def)
  have "store_inv s' M ((b # concat (map outcome_block outs)) @ B)"
    using inv' by (rule store_inv_mset [THEN iffD2, rotated]) simp
  moreover have "touches (set (h # hs)) s s'"
    by (rule touches_trans [OF touches_mono [OF conjunct1 [OF t]] touches_mono [OF t']]) auto
  ultimately show ?case using c m hs ob t by (simp add: comp_def)
qed simp

lemma touches_drops:
  assumes "store_inv s M (bs @ B)" "set (map (fst \<circ> snd) bs) \<subseteq> H" "drop_immutables bs s = Some s'"
  shows "touches H s s'"
  using assms
proof (induction bs arbitrary: s)
  case (Cons b bs)
  obtain i h r where b: "b = (i, h, r)" by (cases b)
  from Cons.prems(3) obtain s1 where d: "drop_immutable b s = Some s1"
    and ds: "drop_immutables bs s1 = Some s'" by (auto split: bind_splits)
  have "store_inv s1 M (bs @ B)"
    using inv_drop_immutable [OF Cons.prems(1), of i h r s1] d b by simp
  from Cons.IH [OF this _ ds] Cons.prems(2) have "touches H s1 s'" by simp
  moreover have "touches H s s1"
    using touches_drop [OF Cons.prems(1), of i h r s1] d b Cons.prems(2) touches_mono by fastforce
  ultimately show ?case using touches_trans by blast
qed simp

lemma position_takeWhile:
  "(case position (\<lambda>x. \<not> P x) xs of Some i \<Rightarrow> i | None \<Rightarrow> length xs) = length (takeWhile P xs)"
  by (induction xs) (auto split: option.splits)

lemma probe_resident:
  "(case position (\<lambda>p. p = None) (probe_blocks hs s) of Some i \<Rightarrow> i | None \<Rightarrow> length (probe_blocks hs s))
     = length (takeWhile (resident s) hs)"
proof -
  have "position (\<lambda>p. p = None) (probe_blocks hs s) = position (\<lambda>h. \<not> resident s h) hs"
    by (induction hs) (auto simp: probe_blocks_def probe_one_def resident_def split: option.splits)
  moreover have "length (probe_blocks hs s) = length hs" by (simp add: probe_blocks_def)
  ultimately show ?thesis using position_takeWhile [where P = "resident s" and xs = hs]
    by (simp only:)
qed

lemma take_takeWhile: "take (length (takeWhile P xs)) xs = takeWhile P xs"
  by (metis takeWhile_eq_take)

lemma scan_matches_spec:
  assumes inv: "store_inv s M B"
  shows "\<exists>s'. scan_matches c hs s = Some (s', \<lparr>n_blocks = length (takeWhile (resident s) hs),
      n_tokens = length (takeWhile (resident s) hs) * cfg_block_tokens c\<rparr>) \<and>
    store_inv s' M B \<and> touches (set (takeWhile (resident s) hs)) s s'"
proof -
  let ?hs = "takeWhile (resident s) hs"
  have "\<forall>h\<in>set ?hs. resident s h" by (auto dest: set_takeWhileD)
  from match_blocks_resident [OF inv this] obtain s1 outs where
    m: "match_blocks ?hs s = Some (s1, outs)"
    and inv1: "store_inv s1 M (concat (map outcome_block outs) @ B)"
    and t: "touches (set ?hs) s s1"
    and hs: "map (fst \<circ> snd) (concat (map outcome_block outs)) = ?hs" by blast
  from inv_drop_immutables [OF inv1] obtain s' where
    d: "drop_immutables (concat (map outcome_block outs)) s1 = Some s'" and inv': "store_inv s' M B"
    by blast
  have "touches (set ?hs) s1 s'" by (rule touches_drops [OF inv1 _ d]) (simp only: hs)
  with t touches_trans have "touches (set ?hs) s s'" by blast
  with m d inv' show ?thesis
    by (simp add: scan_matches_def Let_def probe_resident confirm_prefix_def take_takeWhile)
qed

subsection \<open>The data behind a live handle\<close>

lemma drop_mutable_other: "j \<noteq> i \<Longrightarrow> slots (drop_mutable i s) ! j = slots s ! j"
  by (simp add: drop_mutable_def Let_def clear_slot_other)

lemma commit_other:
  assumes inv: "store_inv s M B" and i: "i \<in> set M"
    and c: "commit_block i h p s = Some (s', j, new, r)" and "k \<noteq> i"
  shows "payload (slots s' ! k) = payload (slots s ! k) \<and> slot_hash (slots s' ! k) = slot_hash (slots s ! k)"
proof (cases "active_by_hash s h")
  case (Some e)
  note m = mut_mutable [OF inv i] and a = activeD [OF inv Some]
  have "e \<noteq> i" using a m by auto
  then have se: "slots (drop_mutable i s) ! e = slots s ! e" by (simp add: drop_mutable_other)
  obtain r' where r': "release (slots s ! e) = Some r'"
    using primary_okD [OF inv] a by (auto simp: primary_ok_def)
  have "e < length (slots s)" using a store_inv_facts(1) [OF inv] by simp
  from commit_block_dup [OF Some conjunct1 [OF conjunct2 [OF m]] this, of r' p] se r' c
  have "slots s' = slots (bump e r' (drop_mutable i s))" by auto
  then show ?thesis using \<open>k \<noteq> i\<close>
    by (cases "k < length (slots (drop_mutable i s))"; cases "k = e")
      (auto simp: bump_def nth_list_update drop_mutable_other list_update_beyond)
next
  case None
  with c \<open>k \<noteq> i\<close> show ?thesis by (auto simp: commit_block_def case_prod_unfold Let_def)
qed

lemma slot_stable:
  assumes st: "sys_step y z" and inv: "sys_inv y" and b: "(k, h, r) \<in> set (imms y)"
  shows "payload (slots (store z) ! k) = payload (slots (store y) ! k) \<and>
    slot_hash (slots (store z) ! k) = slot_hash (slots (store y) ! k)"
proof -
  from inv have inv: "store_inv (store y) (muts y) (imms y)" by (simp add: sys_inv_def)
  note p = imm_primary [OF inv b]
  have len: "k < length (slots (store y))" using p store_inv_facts(1) [OF inv] by simp
  show ?thesis
    using st
  proof cases
    case (alloc_ok n s' out)
    with allocate_cases(3) [OF inv b, of n] show ?thesis by simp
  next
    case (alloc_full n s' e)
    with allocate_cases(3) [OF inv b, of n] show ?thesis by simp
  next
    case (register i h' q s' b')
    then obtain j new r' where "commit_block i h' q (store y) = Some (s', j, new, r')"
      by (auto simp: register_block_def)
    moreover have "k \<noteq> i" using p register by auto
    ultimately show ?thesis using commit_other [OF inv] register by simp
  next
    case (drop_mut i)
    then have "k \<noteq> i" using p by auto
    with drop_mut show ?thesis by (simp add: drop_mutable_other)
  next
    case (clone_imm b')
    then show ?thesis using len
      by (cases b'; cases "k = fst b'") (auto simp: clone_immutable_def)
  next
    case (drop_imm b' s')
    then show ?thesis using touches_drop [OF inv] by (cases b') (auto simp: touches_def)
  next
    case (match_hit h' s' res b')
    then show ?thesis using touches_confirm [OF inv] by (auto simp: touches_def)
  next
    case (match_miss h' s')
    then show ?thesis by (auto dest: inv_confirm_miss)
  qed (auto simp: touch_frequency_def Let_def set_overflow_sink_def)
qed

end
