(* ===== verification/BlockProps.thy ===== *)
theory BlockProps
  imports BlockManager
begin

text \<open>
  What the block manager promises in every reachable state, and two behaviours of the
  code that its comments do not announce: a slot whose hash is registered again while
  it is inactive is lost for good, and resurrecting a block emits \<^verbatim>\<open>Remove\<close>.

  The sample states at the start are built by running the operations; the witnesses
  apply the theorems to them.
\<close>

subsection \<open>Sample states\<close>

lemma sample_mutable:
  "\<exists>s. reachable \<lparr>store = s :: nat store, muts = [0, 1], imms = []\<rparr> \<and>
     slots s = [(fresh_slot 0)\<lparr>slot_state := Mutable\<rparr>, (fresh_slot 1)\<lparr>slot_state := Mutable\<rparr>] \<and>
     active_by_hash s = Map.empty \<and> inactive_by_hash s = Map.empty \<and> capacity s = 2 \<and>
     events s = event_new \<and> free s = [] \<and> inactive s = mlru_new"
proof -
  let ?y = "sys_new 2 0 :: nat sys" and ?s = "fst (allocate_blocks 2 (store_new 2 0 :: nat store))"
  have a: "snd (allocate_blocks 2 (store_new 2 0 :: nat store)) = Inr [0, 1] \<and>
     slots ?s = [(fresh_slot 0)\<lparr>slot_state := Mutable\<rparr>, (fresh_slot 1)\<lparr>slot_state := Mutable\<rparr>] \<and>
     active_by_hash ?s = Map.empty \<and> inactive_by_hash ?s = Map.empty \<and> capacity ?s = 2 \<and>
     events ?s = event_new \<and> free ?s = [] \<and> inactive ?s = mlru_new"
    by (simp add: allocate_blocks_def numeral_2_eq_2 pick_slot_def store_new_def clear_slot_def
       fresh_slot_def Let_def upt_rec)
  have "sys_step ?y (?y\<lparr>store := ?s, muts := muts ?y @ [0, 1]\<rparr>)"
    by (rule alloc_ok [of 2]) (use a in \<open>simp add: sys_new_def prod_eq_iff\<close>)
  then have "reachable (?y\<lparr>store := ?s, muts := muts ?y @ [0, 1]\<rparr>)"
    using reachable.intros by blast
  with a show ?thesis by (auto simp: sys_new_def)
qed

lemma sample_live:
  "\<exists>s. reachable \<lparr>store = s :: nat store, muts = [1], imms = [(0, 7, 0)]\<rparr> \<and>
     inactive_by_hash s = Map.empty \<and> capacity s = 2 \<and> active_by_hash s = [7 \<mapsto> 0] \<and>
     free s = [] \<and> inactive s = mlru_new \<and> map payload (slots s) = [Some 100, None]"
proof -
  obtain s where s: "reachable \<lparr>store = s :: nat store, muts = [0, 1], imms = []\<rparr>"
    "slots s = [(fresh_slot 0)\<lparr>slot_state := Mutable\<rparr>, (fresh_slot 1)\<lparr>slot_state := Mutable\<rparr>]"
     "active_by_hash s = Map.empty" "inactive_by_hash s = Map.empty" "capacity s = 2"
     "events s = event_new" "free s = []" "inactive s = mlru_new"
    using sample_mutable by (elim exE conjE) (rule that; assumption)
  obtain t where t: "register_block 0 7 100 s = Some (t, (0, 7, 0))"
    "inactive_by_hash t = Map.empty" "capacity t = 2" "active_by_hash t = [7 \<mapsto> 0]"
    "free t = []" "inactive t = mlru_new" "map payload (slots t) = [Some 100, None]"
    using s by (auto simp: register_block_def commit_block_def event_new_def release_mint_def
        fresh_slot_def)
  let ?y = "\<lparr>store = s, muts = [0, 1], imms = []\<rparr>"
  have "sys_step ?y (?y\<lparr>store := t, muts := remove1 0 (muts ?y), imms := (0, 7, 0) # imms ?y\<rparr>)"
    by (rule register [of 0 _ 7 100]) (use t in simp_all)
  from reachable.step [OF s(1) this] t show ?thesis by (intro exI [of _ t]) simp
qed

lemma sample_inactive:
  "\<exists>s. reachable \<lparr>store = s :: nat store, muts = [1], imms = []\<rparr> \<and>
     inactive_by_hash s = [7 \<mapsto> 0] \<and> capacity s = 2 \<and> active_by_hash s = Map.empty \<and>
     free s = [] \<and> avail s = 1"
proof -
  obtain s where s: "reachable \<lparr>store = s :: nat store, muts = [1], imms = [(0, 7, 0)]\<rparr>"
     "inactive_by_hash s = Map.empty" "capacity s = 2" "active_by_hash s = [7 \<mapsto> 0]"
     "free s = []" "inactive s = mlru_new"
    using sample_live by (elim exE conjE) (rule that; assumption)
  let ?y = "\<lparr>store = s, muts = [1], imms = [(0, 7, 0)]\<rparr>"
  have inv: "store_inv s [1] [(0, 7, 0)]" using reachable_inv [OF s(1)] by (simp add: sys_inv_def)
  have b: "(0, 7, 0) \<in> set [(0, 7 :: u64, 0)]" by simp
  have "refcount (slots s ! 0) = 1" using imm_primary [OF inv b] by (simp add: handles_def)
  with release_ref_cases [OF inv b] s obtain t where t: "drop_immutable (0, 7, 0) s = Some t"
     "inactive_by_hash t = [7 \<mapsto> 0]" "capacity t = 2" "active_by_hash t = Map.empty" "free t = []"
     "mlru_len (inactive t) = mlru_len (mlru_insert (tinylfu s) 7 mlru_new)"
    by auto
  have "sys_step ?y (?y\<lparr>store := t, imms := remove1 (0, 7, 0) (imms ?y)\<rparr>)"
    by (rule drop_imm) (use t in simp_all)
  moreover have "avail t = 1"
    using t mlru.len_ins [of mlru_new "tinylfu s" 7] by (simp add: avail_def) (simp add: mlru_len_def mlru_new_def)
  ultimately show ?thesis using reachable.step [OF s(1)] t by auto
qed

subsection \<open>Slots that are lost\<close>

definition orphan :: "'p store \<Rightarrow> nat \<Rightarrow> bool" where
  "orphan s a \<longleftrightarrow> a < capacity s \<and> slot_state (slots s ! a) = Inactive \<and>
     a \<notin> ran (inactive_by_hash s)"

lemma orphan_frame:
  assumes "orphan s a" "capacity s' = capacity s" "slots s' ! a = slots s ! a"
    "ran (inactive_by_hash s') \<subseteq> insert j (ran (inactive_by_hash s))" "j \<noteq> a"
  shows "orphan s' a"
  using assms by (auto simp: orphan_def)

lemma orphan_alloc_loop:
  assumes "store_inv s (M @ out) B" "orphan s a" "alloc_loop n s out deferred = (s', out', deferred', ok)"
  shows "orphan s' a"
  using assms
proof (induction n arbitrary: s out deferred)
  case (Suc n)
  obtain s1 c where pk: "pick_slot s = (s1, c)" by force
  show ?case
  proof (cases c)
    case None
    with avail_pick(1) [OF Suc.prems(1), of s1] Suc.prems(2,3) pk show ?thesis by auto
  next
    case (Some io)
    obtain i offer where io: "io = (i, offer)" by force
    note pk' = pk [unfolded Some io]
    note inv1 = inv_pick [OF Suc.prems(1) pk'] and av = avail_pick(2) [OF Suc.prems(1) pk']
    from Suc.prems(3) pk Some io obtain df where
      l: "alloc_loop n (clear_slot Mutable i s1) (out @ [i]) df = (s', out', deferred', ok)"
      by simp
    have *: "a \<noteq> i \<and> ran (inactive_by_hash s1) \<subseteq> ran (inactive_by_hash s)"
      using pick_slot_cases [OF Suc.prems(1)]
    proof (elim disjE exE conjE, goal_cases)
      case (2 i' rest)
      then have "i' \<in> set (free s)" by simp
      with free_reset [OF Suc.prems(1)] Suc.prems(2) 2 pk' show ?case by (auto simp: orphan_def)
    next
      case (3 h ps j)
      with Suc.prems(2) pk' show ?case by (auto simp: orphan_def ran_def split: if_splits)
    qed (use pk' in simp)
    then have "orphan (clear_slot Mutable i s1) a"
      using orphan_frame [OF Suc.prems(2), of "clear_slot Mutable i s1" i] inv1 av
      by (auto simp: clear_slot_other)
    with Suc.IH [OF _ _ l] inv1 show ?thesis by simp
  qed
qed simp

lemma orphan_drop_mutable:
  "orphan s a \<Longrightarrow> orphan (drop_mutable i s) a"
proof (cases "slot_state (slots s ! i) = Mutable")
  case True
  assume o: "orphan s a"
  with True have "i \<noteq> a" by (auto simp: orphan_def)
  with o show ?thesis
    by (intro orphan_frame [OF o, of _ i]) (auto simp: drop_mutable_def Let_def clear_slot_other)
qed (simp add: drop_mutable_def)

lemma orphan_drop_mutables: "orphan s a \<Longrightarrow> orphan (fold drop_mutable out s) a"
  by (induction out arbitrary: s) (simp_all add: orphan_drop_mutable)

lemma ran_updD: "x \<in> ran (m(h \<mapsto> i)) \<Longrightarrow> x = i \<or> x \<in> ran m"
  by (auto simp: ran_def split: if_splits)

lemma ran_delD: "x \<in> ran (m(h := None)) \<Longrightarrow> x \<in> ran m"
  by (auto simp: ran_def split: if_splits)

lemma orphan_commit:
  assumes inv: "store_inv s M B" and i: "i \<in> set M" and o: "orphan s a"
    and c: "commit_block i h p s = Some (s', j, new, r)"
  shows "orphan s' a"
proof (cases "active_by_hash s h")
  case (Some e)
  note m = mut_mutable [OF inv i] and e = activeD [OF inv Some]
  have ne: "e \<noteq> i" "e \<noteq> a" "i \<noteq> a" using e m o by (auto simp: orphan_def)
  then have se: "slots (drop_mutable i s) ! e = slots s ! e" by (simp add: drop_mutable_other)
  obtain r' where r': "release (slots s ! e) = Some r'"
    using primary_okD [OF inv] e by (auto simp: primary_ok_def)
  have "e < length (slots s)" using e store_inv_facts(1) [OF inv] by simp
  from commit_block_dup [OF Some conjunct1 [OF conjunct2 [OF m]] this, of r' p] se r' c
  have s': "s' = bump e r' (drop_mutable i s)\<lparr>tinylfu := increment (tinylfu s) h\<rparr>" by auto
  show ?thesis
    by (rule orphan_frame [OF orphan_drop_mutable [OF o, of i], of _ e])
      (use ne in \<open>auto simp: s' bump_def\<close>)
next
  case None
  have "i \<noteq> a" using mut_mutable [OF inv i] o by (auto simp: orphan_def)
  with c None show ?thesis
    by (intro orphan_frame [OF o, of _ i]) (auto simp: commit_block_def case_prod_unfold Let_def)
qed

lemma orphan_drop_immutable:
  assumes inv: "store_inv s M B" and b: "(i, h, r) \<in> set B" and o: "orphan s a"
    and d: "drop_immutable (i, h, r) s = Some s'"
  shows "orphan s' a"
proof -
  have "i \<noteq> a" using imm_primary [OF inv b] o by (auto simp: orphan_def)
  then show ?thesis using d release_ref_cases [OF inv b]
    by (intro orphan_frame [OF o, of _ i]) (auto split: if_splits dest!: ran_updD)
qed

lemma orphan_confirm:
  assumes inv: "store_inv s M B" and o: "orphan s a" and c: "confirm_one h s = Some (s', x)"
  shows "orphan s' a"
proof (cases "active_by_hash s h")
  case (Some i)
  have "i \<noteq> a" using activeD [OF inv Some] o by (auto simp: orphan_def)
  with Some c show ?thesis
    by (intro orphan_frame [OF o, of _ i]) (auto simp: confirm_one_def Let_def split: option.splits)
next
  case None
  show ?thesis
  proof (cases "inactive_by_hash s h")
    case (Some i)
    have "i \<noteq> a" using o Some by (auto simp: orphan_def ran_def)
    then show ?thesis using None Some c
      by (intro orphan_frame [OF o, of _ i])
        (auto simp: confirm_one_def case_prod_unfold Let_def dest!: ran_delD)
  qed (use None c o in \<open>simp add: confirm_one_def\<close>)
qed

lemma orphan_step:
  assumes st: "sys_step y z" and inv: "sys_inv y" and o: "orphan (store y) a"
  shows "orphan (store z) a"
proof -
  from inv have inv: "store_inv (store y) (muts y) (imms y)" by (simp add: sys_inv_def)
  {
    fix n s' res
    assume "allocate_blocks n (store y) = (s', res)"
    then have "orphan s' a"
      using orphan_alloc_loop [of "store y" "muts y" "[]" "imms y" a n "[]"] inv o
      by (auto simp: allocate_blocks_def orphan_drop_mutables split: prod.splits if_splits)
        (auto simp: orphan_def)
  }
  note alloc = this
  show ?thesis
    using st
  proof cases
    case (register i h q s' b)
    then obtain j new r where "commit_block i h q (store y) = Some (s', j, new, r)"
      by (auto simp: register_block_def)
    from orphan_commit [OF inv _ o this] register show ?thesis by simp
  next
    case (clone_imm b)
    then have "fst b \<noteq> a" using imm_primary [OF inv] o by (cases b) (auto simp: orphan_def)
    with clone_imm show ?thesis
      by (intro orphan_frame [OF o, of _ "fst b"]) (auto simp: clone_immutable_def split: prod.splits)
  next
    case (drop_imm b s')
    then show ?thesis using orphan_drop_immutable [OF inv _ o] by (cases b) auto
  next
    case (match_hit h s' res b)
    then show ?thesis using orphan_confirm [OF inv o] by auto
  next
    case (match_miss h s')
    then show ?thesis using orphan_confirm [OF inv o] by auto
  next
    case (touch h)
    with o show ?thesis by (auto simp: touch_frequency_def Let_def orphan_def)
  next
    case set_sink
    with o show ?thesis by (auto simp: set_overflow_sink_def orphan_def)
  qed (use alloc o in \<open>auto simp: orphan_drop_mutable\<close>)
qed

subsection \<open>Properties\<close>

text \<open>C3: In every state reachable by any interleaving of the API calls and destructors,
  a live \<^verbatim>\<open>ImmutableBlock\<close> names a slot that is \<open>Primary\<close>, holds the block's hash and a
  payload, is what the active map returns for that hash, and has as its reference
  count exactly the number of live handles on it; it is neither free nor owned by a
  mutable handle.
\<close>

theorem live_handle_integrity:
  assumes "reachable y" "(i, h, r) \<in> set (imms y)"
  shows "slot_state (slots (store y) ! i) = Primary \<and> slot_hash (slots (store y) ! i) = Some h \<and>
    payload (slots (store y) ! i) \<noteq> None \<and> active_by_hash (store y) h = Some i \<and>
    refcount (slots (store y) ! i) = length (filter (\<lambda>b. fst b = i) (imms y)) \<and>
    i < capacity (store y) \<and> i \<notin> set (free (store y)) \<and> i \<notin> set (muts y)"
  using imm_primary [of "store y" "muts y" "imms y" i h r] reachable_inv [OF assms(1)] assms(2)
  by (simp add: sys_inv_def handles_def)

theorem live_handle_integrity_witness:
  "\<exists>y :: nat sys. (0, 7, 0) \<in> set (imms y) \<and> slot_state (slots (store y) ! 0) = Primary \<and>
     slot_hash (slots (store y) ! 0) = Some 7 \<and> active_by_hash (store y) 7 = Some 0"
proof -
  obtain s where "reachable \<lparr>store = s :: nat store, muts = [1], imms = [(0, 7, 0)]\<rparr>"
    using sample_live by (elim exE conjE) (rule that; assumption)
  from live_handle_integrity [OF this, of 0 7 0] show ?thesis
    by (intro exI [of _ "\<lparr>store = s, muts = [1], imms = [(0, 7, 0)]\<rparr>"]) simp
qed

text \<open>C15: No reachable state panics: registering a held mutable block, dropping a held
  immutable block, matching any hash and scanning any list of hashes all return; the
  \<^verbatim>\<open>expect\<close>s of \<^verbatim>\<open>core.rs\<close> never fail.
\<close>

theorem no_panic:
  assumes "reachable y"
  shows "(i \<in> set (muts y) \<longrightarrow> register_block i h p (store y) \<noteq> None) \<and>
    (b \<in> set (imms y) \<longrightarrow> drop_immutable b (store y) \<noteq> None) \<and>
    match_one h (store y) \<noteq> None \<and> scan_matches c hs (store y) \<noteq> None"
proof -
  from assms have inv: "store_inv (store y) (muts y) (imms y)"
    using reachable_inv by (simp add: sys_inv_def)
  from commit_some [OF inv, of i h p] drop_immutable_some [OF inv, of b] confirm_some [OF inv, of h]
    scan_matches_spec [OF inv, of c hs]
  show ?thesis by (auto simp: register_block_def match_one_def)
qed

theorem no_panic_witness:
  "\<exists>s :: nat store. register_block 1 7 5 s \<noteq> None \<and> drop_immutable (0, 7, 0) s \<noteq> None \<and>
     match_one 9 s \<noteq> None \<and> scan_matches config_default [7, 9] s \<noteq> None"
proof -
  obtain s where s: "reachable \<lparr>store = s :: nat store, muts = [1], imms = [(0, 7, 0)]\<rparr>"
    using sample_live by (elim exE conjE) (rule that; assumption)
  from no_panic [OF s, of 1 7 5 "(0, 7, 0)" config_default "[7, 9]"]
    no_panic [OF s, of 1 9 5 "(0, 7, 0)" config_default "[7, 9]"]
  show ?thesis by (intro exI [of _ s]) simp
qed

text \<open>C16: Allocation is exact. It succeeds if and only if the free and the inactive slots
  suffice, and then returns that many distinct slots, none of which is owned by
  another mutable handle or named by a live immutable one. When it fails it has
  evicted the whole inactive cache on the way: no hash stays resurrectable, and none
  of the evicted payloads was offered to the overflow sink.
\<close>

theorem allocate_exact:
  fixes y :: "'p sys"
  assumes "reachable y"
  shows "(if n \<le> length (free (store y)) + mlru_len (inactive (store y))
     then \<exists>s' out. allocate_blocks n (store y) = (s', Inr out) \<and> length out = n \<and> distinct out \<and>
       set out \<inter> set (muts y) = {} \<and> set out \<inter> fst ` set (imms y) = {}
     else \<exists>s'. allocate_blocks n (store y) = (s', Inl (Full (capacity (store y)) 0)) \<and>
       inactive_by_hash s' = Map.empty \<and> offered s' = offered (store y))"
proof -
  from assms have inv: "store_inv (store y) (muts y) (imms y)"
    using reachable_inv by (simp add: sys_inv_def)
  have ok: "distinct out \<and> set out \<inter> set (muts y) = {} \<and> set out \<inter> fst ` set (imms y) = {}"
    if s': "store_inv s' (muts y @ out) (imms y)" for s' :: "'p store" and out
    using store_inv_facts(3) [OF s'] imm_primary [OF s'] by fastforce
  show ?thesis
    using allocate_cases(1,2) [OF inv, of n] ok
    by (auto simp: avail_def not_le)
qed

theorem allocate_exact_witness:
  "\<exists>s :: nat store. inactive_by_hash s 7 = Some 0 \<and>
     (\<exists>s' out. allocate_blocks 1 s = (s', Inr out) \<and> length out = 1) \<and>
     (\<exists>s'. allocate_blocks 2 s = (s', Inl (Full 2 0)) \<and> inactive_by_hash s' 7 = None \<and>
        offered s' = offered s)"
proof -
  obtain s where s: "reachable \<lparr>store = s :: nat store, muts = [1], imms = []\<rparr>" "capacity s = 2"
    "inactive_by_hash s = [7 \<mapsto> 0]" and av: "length (free s) + mlru_len (inactive s) = 1"
    using sample_inactive unfolding avail_def by (elim exE conjE) (rule that; assumption)
  from allocate_exact [OF s(1), of 1] allocate_exact [OF s(1), of 2] s av
  show ?thesis by (intro exI [of _ s]) auto
qed

text \<open>C14: The block behind a live handle is immutable: whatever API call or destructor runs
  next, the slot a live handle names keeps its payload and carries the handle's hash, before
  and after (a second registration of the same hash does not replace the payload, and no
  eviction reaches the slot).
\<close>

theorem live_payload_stable:
  assumes "reachable y" "sys_step y z" "(i, h, r) \<in> set (imms y)"
  shows "payload (slots (store z) ! i) = payload (slots (store y) ! i) \<and>
    slot_hash (slots (store y) ! i) = Some h \<and> slot_hash (slots (store z) ! i) = Some h"
proof -
  note inv = reachable_inv [OF assms(1)]
  from imm_primary [of "store y" "muts y" "imms y" i h r] inv assms(3) have "slot_hash (slots (store y) ! i) = Some h"
    by (simp add: sys_inv_def)
  with slot_stable [OF assms(2) inv assms(3)] show ?thesis by simp
qed

theorem live_payload_stable_witness:
  "\<exists>s t :: nat store. register_block 1 7 5 s \<noteq> None \<and>
     fst (the (register_block 1 7 5 s)) = t \<and> payload (slots t ! 0) = Some 100 \<and> slot_hash (slots t ! 0) = Some 7"
proof -
  obtain s where s: "reachable \<lparr>store = s :: nat store, muts = [1], imms = [(0, 7, 0)]\<rparr>"
    and p: "map payload (slots s) = [Some 100, None]" using sample_live by (elim exE conjE) (rule that; assumption)
  have inv: "store_inv s [1] [(0, 7, 0)]" using reachable_inv [OF s] by (simp add: sys_inv_def)
  obtain t b where t: "register_block 1 7 5 s = Some (t, b)"
    using commit_some [OF inv, of 1 7 5] by (auto simp: register_block_def)
  have st: "sys_step \<lparr>store = s, muts = [1], imms = [(0, 7, 0)]\<rparr>
      \<lparr>store = t, muts = [], imms = [b, (0, 7, 0)]\<rparr>"
    using register [of 1 "\<lparr>store = s, muts = [1], imms = [(0, 7, 0)]\<rparr>" 7 5 t b] t by simp
  have "payload (slots s ! 0) = Some 100" using p by (cases "slots s") auto
  with live_payload_stable [OF s st, of 0 7 0] t show ?thesis by (intro exI [of _ s] exI [of _ t]) simp
qed

text \<open>
  Deduplication. Registering a hash that is active returns a handle on the block
  that is already there, puts the caller's slot back at the end of the free list,
  leaves the stored payload as it was and emits no event.
\<close>

theorem register_dedup:
  assumes "reachable y" "i \<in> set (muts y)" "active_by_hash (store y) h = Some e"
  shows "\<exists>s' r. register_block i h p (store y) = Some (s', (e, h, r)) \<and>
    free s' = free (store y) @ [i] \<and> slot_state (slots s' ! i) = Reset \<and>
    payload (slots s' ! e) = payload (slots (store y) ! e) \<and>
    active_by_hash s' = active_by_hash (store y) \<and>
    emitted (events s') = emitted (events (store y))"
proof -
  from assms(1) have inv: "store_inv (store y) (muts y) (imms y)"
    using reachable_inv by (simp add: sys_inv_def)
  note m = mut_mutable [OF inv assms(2)] and a = activeD [OF inv assms(3)]
  have ne: "e \<noteq> i" using a m by auto
  then have se: "slots (drop_mutable i (store y)) ! e = slots (store y) ! e"
    by (simp add: drop_mutable_other)
  obtain r where r: "release (slots (store y) ! e) = Some r"
    using primary_okD [OF inv, of e] a by (auto simp: primary_ok_def)
  have len: "e < length (slots (store y))" "i < length (slots (store y))"
    using a m store_inv_facts(1) [OF inv] by simp_all
  have "commit_block i h p (store y) =
      Some ((bump e r (drop_mutable i (store y)))\<lparr>tinylfu := increment (tinylfu (store y)) h\<rparr>, e, False, r)"
    by (rule commit_block_dup) (use assms(3) m len se r in auto)
  then show ?thesis using m ne r len
    by (auto simp: register_block_def bump_def drop_mutable_def Let_def clear_slot_blank blank_def)
qed

theorem register_dedup_witness:
  "\<exists>s s' :: nat store. \<exists>r. register_block 1 7 5 s = Some (s', (0, 7, r)) \<and>
     payload (slots s' ! 0) = Some 100 \<and> free s' = [1]"
proof -
  obtain s where s: "reachable \<lparr>store = s :: nat store, muts = [1], imms = [(0, 7, 0)]\<rparr>"
    "active_by_hash s = [7 \<mapsto> 0]" "free s = []" "map payload (slots s) = [Some 100, None]"
    using sample_live by (elim exE conjE) (rule that; assumption)
  have "payload (slots s ! 0) = Some 100" using s(4) by (cases "slots s") auto
  with register_dedup [OF s(1), of 1 7 0 5] s show ?thesis by auto
qed

text \<open>Every release handle is accounted for. In every reachable state the handles
  minted so far are the canonical handles of the occupied slots plus those whose last
  clone is gone, and each of these has emitted exactly one \<^verbatim>\<open>Remove\<close>.
\<close>

theorem release_conservation:
  assumes "reachable y"
  shows "next_release (events (store y)) =
    card {i. i < capacity (store y) \<and> slot_state (slots (store y) ! i) \<in> {Primary, Inactive}} +
    length (filter is_remove (emitted (events (store y))))"
proof -
  let ?s = "store y"
  from assms have inv: "store_inv ?s (muts y) (imms y)"
    using reachable_inv by (simp add: sys_inv_def)
  then have ro: "releases_ok ?s" and ri: "release_inv (events ?s)"
    by (simp_all add: store_inv_def releases_ok_def)
  let ?O = "{i. i < capacity ?s \<and> slot_state (slots ?s ! i) \<in> {Primary, Inactive}}"
  let ?f = "\<lambda>i. the (release (slots ?s ! i))"
  have occ: "slot_state (slots ?s ! i) \<in> {Primary, Inactive} \<longleftrightarrow> release (slots ?s ! i) \<noteq> None"
    if "i < capacity ?s" for i
    using slot_okD [OF inv that]
    by (auto simp: slot_ok_def primary_ok_def inactive_ok_def blank_def split: slot_state.splits)
  have inj: "inj_on ?f ?O"
  proof (rule inj_onI)
    fix i j
    assume i: "i \<in> ?O" and j: "j \<in> ?O" and eq: "?f i = ?f j"
    then have lt: "i < capacity ?s" "j < capacity ?s" by simp_all
    with occ i j obtain r q where "release (slots ?s ! i) = Some r" "release (slots ?s ! j) = Some q"
      by fastforce
    with eq ro lt show "i = j" by (auto simp: releases_ok_def)
  qed
  have img: "?f ` ?O = dom (releases (events ?s))"
  proof (intro set_eqI iffI)
    fix r
    assume "r \<in> ?f ` ?O"
    then obtain i where i: "i < capacity ?s" "r = ?f i" "i \<in> ?O" by auto
    with occ [OF i(1)] have "release (slots ?s ! i) = Some r" by auto
    with i(1) ro show "r \<in> dom (releases (events ?s))" by (auto simp: releases_ok_def)
  next
    fix r
    assume "r \<in> dom (releases (events ?s))"
    with ro obtain i where i: "i < capacity ?s" "release (slots ?s ! i) = Some r"
      by (force simp: releases_ok_def)
    with occ [OF i(1)] have "i \<in> ?O" by auto
    with i(2) show "r \<in> ?f ` ?O" by (intro image_eqI [of _ _ i]) auto
  qed
  have "card ?O = card (dom (releases (events ?s)))" using card_image [OF inj] by (simp only: img)
  with ri show ?thesis unfolding release_inv_def n_removes_def by linarith
qed

theorem release_conservation_witness:
  "\<exists>s :: nat store. next_release (events s) =
    card {i. i < capacity s \<and> slot_state (slots s ! i) \<in> {Primary, Inactive}} +
    length (filter is_remove (emitted (events s)))"
proof -
  obtain s where s: "reachable \<lparr>store = s :: nat store, muts = [1], imms = [(0, 7, 0)]\<rparr>"
    using sample_live by (elim exE conjE) (rule that; assumption)
  from release_conservation [OF s] show ?thesis by (intro exI [of _ s]) simp
qed

text \<open>C17: \<^verbatim>\<open>scan_matches\<close> is the longest-prefix scan. Its answer is a number of blocks and a
  number of tokens: it counts exactly the leading hashes
  that are resident (active or resurrectable), leaves every hash resident that was,
  changes no stored hash or payload, and does not touch at all the slots of the
  hashes from the first miss on.
\<close>

theorem scan_matches_exact:
  assumes "reachable y"
  shows "\<exists>s'. scan_matches c hs (store y) =
      Some (s', \<lparr>n_blocks = length (takeWhile (resident (store y)) hs),
        n_tokens = length (takeWhile (resident (store y)) hs) * cfg_block_tokens c\<rparr>) \<and>
    (\<forall>h. resident s' h \<longleftrightarrow> resident (store y) h) \<and>
    (\<forall>i. slot_hash (slots s' ! i) = slot_hash (slots (store y) ! i) \<and>
       payload (slots s' ! i) = payload (slots (store y) ! i) \<and>
       (slots s' ! i = slots (store y) ! i \<or>
        slot_hash (slots (store y) ! i) \<in> Some ` set (takeWhile (resident (store y)) hs)))"
proof -
  from assms have inv: "store_inv (store y) (muts y) (imms y)"
    using reachable_inv by (simp add: sys_inv_def)
  from scan_matches_spec [OF inv, of c hs] show ?thesis unfolding touches_def by blast
qed

theorem scan_matches_exact_witness:
  "\<exists>s s' :: nat store. scan_matches config_default [7, 8, 7] s =
     Some (s', \<lparr>n_blocks = 1, n_tokens = 256\<rparr>) \<and> resident s' 7"
proof -
  obtain s where s: "reachable \<lparr>store = s :: nat store, muts = [1], imms = []\<rparr>"
    "inactive_by_hash s = [7 \<mapsto> 0]" "active_by_hash s = Map.empty"
    using sample_inactive by (elim exE conjE) (rule that; assumption)
  have "takeWhile (resident s) [7, 8, 7] = [7]" using s by (simp add: resident_def)
  moreover have "resident s 7" using s by (simp add: resident_def)
  ultimately show ?thesis
    using scan_matches_exact [OF s(1), of config_default "[7, 8, 7]"]
    by (auto simp: config_default_def Let_def)
qed

text \<open>A resurrection emits \<^verbatim>\<open>Remove\<close>. Matching a hash that is inactive makes its block
  active again and hands out a live handle, and on the way the old canonical handle of
  the slot is dropped, so the subscribers see a \<^verbatim>\<open>Remove\<close> for a block that is resident
  and readable, and no \<^verbatim>\<open>Create\<close> follows.
\<close>

theorem resurrection_emits_remove:
  assumes "reachable y" "active_by_hash (store y) h = None" "inactive_by_hash (store y) h = Some i"
  shows "\<exists>s' r. match_one h (store y) = Some (s', Resurrected i (i, h, r)) \<and>
    active_by_hash s' h = Some i \<and> slot_state (slots s' ! i) = Primary \<and>
    emitted (events s') = emitted (events (store y)) @ [Remove h]"
proof -
  from assms(1) have inv: "store_inv (store y) (muts y) (imms y)"
    using reachable_inv by (simp add: sys_inv_def)
  note a = inactiveD [OF inv assms(3)] and F = store_inv_facts [OF inv]
  have "\<exists>r. release (slots (store y) ! i) = Some r \<and> releases (events (store y)) r = Some (h, 1)"
    using inactive_okD [OF inv, of i] a by (auto simp: inactive_ok_def)
  then obtain r where r: "release (slots (store y) ! i) = Some r"
    "releases (events (store y)) r = Some (h, 1)" by blast
  have ne: "r \<noteq> next_release (events (store y))" using release_inv_fresh [OF F(4)] r by auto
  have em: "emitted (release_drop r (release_clone q (fst (release_mint h (events (store y)))))) =
      emitted (events (store y)) @ [Remove h]" if "q = next_release (events (store y))" for q
    using r ne that by (simp add: release_drop_def releases_clone emit_def) (simp add: release_mint_def)
  have "i < length (slots (store y))" using a F(1) by simp
  with assms r em show ?thesis
    by (simp add: match_one_def confirm_one_def case_prod_unfold Let_def outcome_of_def)
qed

theorem resurrection_emits_remove_witness:
  "\<exists>s s' :: nat store. \<exists>r. match_one 7 s = Some (s', Resurrected 0 (0, 7, r)) \<and>
     active_by_hash s' 7 = Some 0 \<and> Remove 7 \<in> set (emitted (events s'))"
proof -
  obtain s where s: "reachable \<lparr>store = s :: nat store, muts = [1], imms = []\<rparr>"
    "inactive_by_hash s = [7 \<mapsto> 0]" "active_by_hash s = Map.empty"
    using sample_inactive by (elim exE conjE) (rule that; assumption)
  from resurrection_emits_remove [OF s(1), of 7 0] s show ?thesis by fastforce
qed

inductive steps :: "'p sys \<Rightarrow> 'p sys \<Rightarrow> bool" where
  steps_refl: "steps y y"
| steps_step: "steps y z \<Longrightarrow> sys_step z w \<Longrightarrow> steps y w"

lemma orphan_steps: "steps y z \<Longrightarrow> reachable y \<Longrightarrow> orphan (store y) a \<Longrightarrow> reachable z \<and> orphan (store z) a"
  by (induction rule: steps.induct) (auto intro: orphan_step reachable_inv reachable.step)

text \<open>C18: A slot can be lost. If a hash is inactive in a slot \<open>a\<close> and is registered again
  into another slot, then once the new block is released the old slot is in no pool,
  in no map and owned by nobody, and no sequence of API calls ever gives it back: the
  store has one slot less for the rest of its life.
\<close>

theorem reregister_inactive_loses_slot:
  assumes "reachable y" "i \<in> set (muts y)"
    "inactive_by_hash (store y) h = Some a" "active_by_hash (store y) h = None"
    "register_block i h p (store y) = Some (s1, b)" "drop_immutable b s1 = Some s2"
    "steps \<lparr>store = s2, muts = remove1 i (muts y), imms = imms y\<rparr> z"
  shows "a < capacity (store z) \<and> a \<notin> set (free (store z)) \<and> a \<notin> set (muts z) \<and>
    (\<forall>h. active_by_hash (store z) h \<noteq> Some a \<and> inactive_by_hash (store z) h \<noteq> Some a)"
proof -
  have inv: "store_inv (store y) (muts y) (imms y)"
    using reachable_inv [OF assms(1)] by (simp add: sys_inv_def)
  let ?y1 = "y\<lparr>store := s1, muts := remove1 i (muts y), imms := b # imms y\<rparr>"
  let ?y2 = "?y1\<lparr>store := s2, imms := remove1 b (imms ?y1)\<rparr>"
  have st1: "sys_step y ?y1" by (rule register [OF assms(2,5)])
  have st2: "sys_step ?y1 ?y2" by (rule drop_imm) (use assms(6) in simp_all)
  have r2: "reachable ?y2" using reachable.step [OF reachable.step [OF assms(1) st1] st2] .
  obtain r where b: "b = (i, h, r)" and s1: "inactive_by_hash s1 = inactive_by_hash (store y)"
    using assms(4,5) by (auto simp: register_block_def commit_block_def case_prod_unfold Let_def)
  have inv1: "store_inv s1 (remove1 i (muts y)) (b # imms y)"
    using reachable_inv [OF reachable.step [OF assms(1) st1]] by (simp add: sys_inv_def)
  have ia: "a \<noteq> i" using inactiveD [OF inv assms(3)] mut_mutable [OF inv assms(2)] by auto
  have inact: "a < capacity s1" "slot_state (slots s1 ! a) = Inactive"
    using inactiveD [OF inv1, of h a] s1 assms(3) by auto
  have only: "inactive_by_hash (store y) h' = Some a \<longleftrightarrow> h' = h" for h'
    using inactiveD [OF inv, of h' a] inactiveD [OF inv assms(3)] assms(3) by auto
  have rc: "refcount (slots s1 ! i) = 1"
    using assms(4,5) mut_mutable [OF inv assms(2)] store_inv_facts(1) [OF inv]
    by (auto simp: register_block_def commit_block_def case_prod_unfold Let_def)
  have "orphan s2 a"
    using release_ref_cases [OF inv1, of i h r] b assms(6) rc s1 inact ia only
    by (auto simp: orphan_def ran_def split: if_splits)
  have eq: "?y2 = \<lparr>store = s2, muts = remove1 i (muts y), imms = imms y\<rparr>" by simp
  have z: "reachable z" "orphan (store z) a"
    using orphan_steps [OF assms(7) r2 [unfolded eq], of a] \<open>orphan s2 a\<close> by simp_all
  from reachable_inv [OF z(1)] have invz: "store_inv (store z) (muts z) (imms z)"
    by (simp add: sys_inv_def)
  with z(2) free_reset [OF invz, of a] mut_mutable [OF invz, of a] activeD [OF invz, of _ a]
  show ?thesis by (auto simp: orphan_def ran_def)
qed

theorem reregister_inactive_loses_slot_witness:
  "\<exists>s s1 s2 :: nat store. \<exists>b. capacity s2 = 2 \<and> register_block 1 7 5 s = Some (s1, b) \<and>
     drop_immutable b s1 = Some s2 \<and> 0 \<notin> set (free s2) \<and>
     (\<forall>h. active_by_hash s2 h \<noteq> Some 0 \<and> inactive_by_hash s2 h \<noteq> Some 0)"
proof -
  obtain s where s: "reachable \<lparr>store = s :: nat store, muts = [1], imms = []\<rparr>"
    "inactive_by_hash s = [7 \<mapsto> 0]" "active_by_hash s = Map.empty" "capacity s = 2"
    using sample_inactive by (elim exE conjE) (rule that; assumption)
  let ?y = "\<lparr>store = s, muts = [1], imms = []\<rparr>"
  have inv: "store_inv s [1] []" using reachable_inv [OF s(1)] by (simp add: sys_inv_def)
  obtain s1 b where s1: "register_block 1 7 5 s = Some (s1, b)"
    using commit_some [OF inv, of 1 7 5] by (auto simp: register_block_def)
  have st: "sys_step ?y \<lparr>store = s1, muts = [], imms = [b]\<rparr>"
    using register [of 1 ?y 7 5 s1 b] s1 by simp
  obtain s2 where s2: "drop_immutable b s1 = Some s2"
    using drop_immutable_some [of s1 "[]" "[b]" b] reachable_inv [OF reachable.step [OF s(1) st]]
    by (auto simp: sys_inv_def)
  have "capacity s2 = 2"
    using s1 s2 s(4) by (cases b) (auto simp: register_block_def commit_block_def drop_immutable_def
        release_ref_def case_prod_unfold Let_def split: option.splits if_splits)
  moreover have "0 \<notin> set (free s2) \<and>
      (\<forall>h. active_by_hash s2 h \<noteq> Some 0 \<and> inactive_by_hash s2 h \<noteq> Some 0)"
    using reregister_inactive_loses_slot [OF s(1) _ _ _ _ s2 steps_refl, of 1 7 0 5] s s1
    by simp
  ultimately show ?thesis using s1 s2 by blast
qed

end
