(* ===== verification/PrefixIndex.thy ===== *)
theory PrefixIndex
  imports Prelude
begin

text \<open>
  The longest-prefix index of the prompt cache: the trait of
  \<^verbatim>\<open>crates/rmlx-models/src/prefix_index/mod.rs\<close> as the locale \<open>prefix_index\<close>, and its
  default implementation \<^verbatim>\<open>LinearScan\<close> (\<^verbatim>\<open>linear.rs\<close>), which interprets it. The radix
  tree is in the theory \<^verbatim>\<open>RadixTree\<close>.

  A key is a chain of block digests with a layout key. The contract is over the
  abstract map from keys to slot ids: what insert and remove do to it, and that
  \<^verbatim>\<open>match_best\<close> returns an entry with the longest shared prefix. A slot id is used for
  one key at a time (the prompt cache's ids are never reused), and a chain is shorter
  than \<^verbatim>\<open>u32::MAX\<close> blocks, which is where the radix tree's depth field saturates.
\<close>

type_synonym chain = "u64 list"
type_synonym index_map = "chain \<times> u64 \<rightharpoonup> u64"

definition U32_MAX :: nat where "U32_MAX = 2 ^ 32 - 1"

subsection \<open>Strategy selection\<close>

datatype prefix_index_kind = Linear | Radix
datatype kind_parse_error = Invalid string

definition to_ascii_lowercase :: "string \<Rightarrow> string" where
  "to_ascii_lowercase s =
     map (\<lambda>c. let n = of_char c :: nat in if 65 \<le> n \<and> n \<le> 90 then char_of (n + 32) else c) s"

definition kind_from_str :: "string \<Rightarrow> kind_parse_error + prefix_index_kind" where
  "kind_from_str s =
     (let l = to_ascii_lowercase s
      in if l = ''linear'' then Inr Linear
         else if l = ''radix'' then Inr Radix
         else Inl (Invalid l))"

text \<open>The process-global \<^verbatim>\<open>OnceLock\<close>: the first installed value stays.\<close>

definition install_prefix_index_kind ::
    "prefix_index_kind \<Rightarrow> prefix_index_kind option \<Rightarrow> prefix_index_kind option" where
  "install_prefix_index_kind kind cell = (case cell of None \<Rightarrow> Some kind | Some k \<Rightarrow> Some k)"

definition active_prefix_index_kind :: "prefix_index_kind option \<Rightarrow> prefix_index_kind" where
  "active_prefix_index_kind cell = (case cell of None \<Rightarrow> Linear | Some k \<Rightarrow> k)"

subsection \<open>The contract\<close>

definition index_fresh :: "index_map \<Rightarrow> chain \<Rightarrow> u64 \<Rightarrow> u64 \<Rightarrow> bool" where
  "index_fresh m c lk s \<longleftrightarrow> length c < U32_MAX \<and> (\<forall>key. m key = Some s \<longrightarrow> key = (c, lk))"

definition shared :: "index_map \<Rightarrow> chain \<Rightarrow> u64 \<Rightarrow> nat set" where
  "shared m p lk = {leading_matches p c | c. (c, lk) \<in> dom m}"

locale prefix_index =
  fixes ins :: "chain \<Rightarrow> u64 \<Rightarrow> u64 \<Rightarrow> 't \<Rightarrow> 't"
    and rem :: "chain \<Rightarrow> u64 \<Rightarrow> 't \<Rightarrow> 't"
    and best :: "chain \<Rightarrow> u64 \<Rightarrow> 't \<Rightarrow> (u64 \<times> nat) option"
    and len :: "'t \<Rightarrow> nat"
    and empt :: 't
    and abs :: "'t \<Rightarrow> index_map"
    and invar :: "'t \<Rightarrow> bool"
  assumes invar_empt: "invar empt" and abs_empt: "abs empt = Map.empty"
    and finite_abs: "invar t \<Longrightarrow> finite (dom (abs t))"
    and ins_nil: "ins [] lk s t = t"
    and abs_ins: "invar t \<Longrightarrow> c \<noteq> [] \<Longrightarrow> index_fresh (abs t) c lk s \<Longrightarrow>
      invar (ins c lk s t) \<and> abs (ins c lk s t) = (abs t)((c, lk) \<mapsto> s)"
    and abs_rem: "invar t \<Longrightarrow> length c < U32_MAX \<Longrightarrow>
      invar (rem c lk t) \<and> abs (rem c lk t) = (abs t)((c, lk) := None)"
    and best_None: "invar t \<Longrightarrow> best p lk t = None \<longleftrightarrow> shared (abs t) p lk \<subseteq> {0}"
    and best_Some: "invar t \<Longrightarrow> best p lk t = Some (s, d) \<Longrightarrow>
      0 < d \<and> (\<exists>c. abs t (c, lk) = Some s \<and> leading_matches p c = d) \<and>
      (\<forall>n\<in>shared (abs t) p lk. n \<le> d)"
    and len_abs: "invar t \<Longrightarrow> len t = card (dom (abs t))"
begin

text \<open>The matched depth is a function of the abstract map alone.\<close>

lemma depth_abs:
  "invar t \<Longrightarrow> map_option snd (best p lk t) =
     (if shared (abs t) p lk \<subseteq> {0} then None else Some (Max (shared (abs t) p lk)))"
proof (cases "best p lk t")
  case None
  assume "invar t"
  with None show ?thesis using best_None by simp
next
  case (Some sd)
  obtain s d where sd: "sd = (s, d)" by force
  assume inv: "invar t"
  from best_Some [OF inv Some [unfolded sd]] have d: "d \<in> shared (abs t) p lk" "0 < d"
    "\<forall>n\<in>shared (abs t) p lk. n \<le> d" by (auto simp: shared_def)
  have "finite (shared (abs t) p lk)"
    using d(3) by (meson finite_nat_set_iff_bounded_le)
  with d have "Max (shared (abs t) p lk) = d" by (simp add: Max_eqI)
  with d Some sd show ?thesis by auto
qed

lemma len_ins:
  "invar t \<Longrightarrow> c \<noteq> [] \<Longrightarrow> index_fresh (abs t) c lk s \<Longrightarrow>
     len (ins c lk s t) = (if (c, lk) \<in> dom (abs t) then len t else Suc (len t))"
  using abs_ins [of t c lk s] len_abs [of t] len_abs [of "ins c lk s t"] finite_abs [of t]
  by (simp add: insert_absorb)

end

subsection \<open>Sequences of calls\<close>

datatype index_op = Ins chain u64 u64 | Rem chain u64 | Clr

fun op_abs :: "index_op \<Rightarrow> index_map \<Rightarrow> index_map" where
  "op_abs (Ins c lk s) m = (if c = [] then m else m((c, lk) \<mapsto> s))"
| "op_abs (Rem c lk) m = m((c, lk) := None)"
| "op_abs Clr m = Map.empty"

text \<open>A caller that uses a slot id for one key at a time and keeps the depth bound.\<close>

fun ops_ok :: "index_op list \<Rightarrow> index_map \<Rightarrow> bool" where
  "ops_ok [] m \<longleftrightarrow> True"
| "ops_ok (Ins c lk s # ops) m \<longleftrightarrow> index_fresh m c lk s \<and> ops_ok ops (op_abs (Ins c lk s) m)"
| "ops_ok (Rem c lk # ops) m \<longleftrightarrow> length c < U32_MAX \<and> ops_ok ops (op_abs (Rem c lk) m)"
| "ops_ok (Clr # ops) m \<longleftrightarrow> ops_ok ops (op_abs Clr m)"

fun run_op :: "(chain \<Rightarrow> u64 \<Rightarrow> u64 \<Rightarrow> 't \<Rightarrow> 't) \<Rightarrow> (chain \<Rightarrow> u64 \<Rightarrow> 't \<Rightarrow> 't) \<Rightarrow> 't \<Rightarrow> index_op \<Rightarrow> 't \<Rightarrow> 't" where
  "run_op ins rem empt (Ins c lk s) t = ins c lk s t"
| "run_op ins rem empt (Rem c lk) t = rem c lk t"
| "run_op ins rem empt Clr t = empt"

context prefix_index
begin

lemma run_ops:
  "invar t \<Longrightarrow> ops_ok ops (abs t) \<Longrightarrow> invar (fold (run_op ins rem empt) ops t) \<and>
     abs (fold (run_op ins rem empt) ops t) = fold op_abs ops (abs t)"
proof (induction ops arbitrary: t)
  case (Cons op ops)
  have "invar (run_op ins rem empt op t) \<and> abs (run_op ins rem empt op t) = op_abs op (abs t)"
  proof (cases op)
    case (Ins c lk s)
    with Cons.prems show ?thesis by (cases "c = []") (simp_all add: ins_nil abs_ins)
  qed (use Cons.prems in \<open>simp_all add: abs_rem invar_empt abs_empt\<close>)
  moreover have "ops_ok ops (op_abs op (abs t))" using Cons.prems by (cases op) simp_all
  ultimately show ?case using Cons.IH [of "run_op ins rem empt op t"] by simp
qed simp

end

subsection \<open>The linear scan\<close>

record linear_entry =
  le_chained :: chain
  le_layout_key :: u64
  le_slot_id :: u64

type_synonym linear_scan = "linear_entry list"

definition linear_new :: linear_scan where "linear_new = []"

definition linear_position :: "chain \<Rightarrow> u64 \<Rightarrow> linear_scan \<Rightarrow> nat option" where
  "linear_position chained lk t =
     position (\<lambda>e. le_layout_key e = lk \<and> le_chained e = chained) t"

definition linear_insert :: "chain \<Rightarrow> u64 \<Rightarrow> u64 \<Rightarrow> linear_scan \<Rightarrow> linear_scan" where
  "linear_insert chained lk slot t =
     (if chained = [] then t
      else case linear_position chained lk t of
             Some idx \<Rightarrow> t[idx := (t ! idx)\<lparr>le_slot_id := slot\<rparr>]
           | None \<Rightarrow> t @ [\<lparr>le_chained = chained, le_layout_key = lk, le_slot_id = slot\<rparr>])"

definition linear_remove :: "chain \<Rightarrow> u64 \<Rightarrow> linear_scan \<Rightarrow> linear_scan" where
  "linear_remove chained lk t =
     (case linear_position chained lk t of Some idx \<Rightarrow> swap_remove t idx | None \<Rightarrow> t)"

fun linear_match_loop :: "chain \<Rightarrow> u64 \<Rightarrow> linear_scan \<Rightarrow> (u64 \<times> nat) option \<Rightarrow> (u64 \<times> nat) option" where
  "linear_match_loop p lk [] best = best"
| "linear_match_loop p lk (e # es) best =
     (if le_layout_key e \<noteq> lk then linear_match_loop p lk es best
      else
        let matched = leading_matches p (le_chained e)
        in if matched = 0 then linear_match_loop p lk es best
           else linear_match_loop p lk es
                  (case best of
                     Some (s, prev) \<Rightarrow> if prev \<ge> matched then best else Some (le_slot_id e, matched)
                   | None \<Rightarrow> Some (le_slot_id e, matched)))"

definition linear_match_best :: "chain \<Rightarrow> u64 \<Rightarrow> linear_scan \<Rightarrow> (u64 \<times> nat) option" where
  "linear_match_best p lk t = (if p = [] then None else linear_match_loop p lk t None)"

definition linear_len :: "linear_scan \<Rightarrow> nat" where "linear_len t = length t"

subsection \<open>The linear scan meets the contract\<close>

definition le_key :: "linear_entry \<Rightarrow> chain \<times> u64" where
  "le_key e = (le_chained e, le_layout_key e)"

definition linear_abs :: "linear_scan \<Rightarrow> index_map" where
  "linear_abs t = map_of (map (\<lambda>e. (le_key e, le_slot_id e)) t)"

definition linear_inv :: "linear_scan \<Rightarrow> bool" where
  "linear_inv t \<longleftrightarrow> distinct (map le_key t)"

lemma linear_position_alt: "linear_position c lk t = position (\<lambda>e. le_key e = (c, lk)) t"
  unfolding linear_position_def le_key_def by (rule arg_cong [of _ _ "\<lambda>f. position f t"]) auto

lemma linear_abs_iff:
  "linear_inv t \<Longrightarrow> linear_abs t k = Some s \<longleftrightarrow> (\<exists>e\<in>set t. le_key e = k \<and> le_slot_id e = s)"
  by (auto simp: linear_abs_def linear_inv_def map_of_eq_Some_iff comp_def)

lemma linear_dom: "dom (linear_abs t) = le_key ` set t"
  by (auto simp: linear_abs_def dom_map_of_conv_image_fst image_image)

lemma linear_match_loop_None:
  "linear_match_loop p lk t b = None \<longleftrightarrow>
     b = None \<and> (\<forall>e\<in>set t. le_layout_key e = lk \<longrightarrow> leading_matches p (le_chained e) = 0)"
  by (induction t arbitrary: b) (auto simp: Let_def split: option.splits prod.splits)

lemma linear_match_loop_Some:
  "linear_match_loop p lk t b = Some (s, d) \<Longrightarrow>
     (b = Some (s, d) \<or> (\<exists>e\<in>set t. le_layout_key e = lk \<and> le_slot_id e = s \<and>
        leading_matches p (le_chained e) = d \<and> 0 < d)) \<and>
     (\<forall>e\<in>set t. le_layout_key e = lk \<longrightarrow> leading_matches p (le_chained e) \<le> d) \<and>
     (\<forall>s' d'. b = Some (s', d') \<longrightarrow> d' \<le> d)"
proof (induction t arbitrary: b)
  case (Cons e t)
  show ?case
    using Cons.prems Cons.IH
    by (fastforce simp: Let_def split: if_splits option.splits prod.splits)
qed simp

lemma option_ext: "(\<And>y. a = Some y \<longleftrightarrow> b = Some y) \<Longrightarrow> a = b"
  by (cases a; cases b) auto

lemma linear_insert_abs:
  assumes inv: "linear_inv t" and c: "c \<noteq> []"
  shows "linear_inv (linear_insert c lk s t) \<and>
    linear_abs (linear_insert c lk s t) = (linear_abs t)((c, lk) \<mapsto> s)"
proof (cases "linear_position c lk t")
  case None
  then have new: "(c, lk) \<notin> le_key ` set t"
    by (auto simp: linear_position_alt position_None_iff)
  let ?e = "\<lparr>le_chained = c, le_layout_key = lk, le_slot_id = s\<rparr>"
  have eq: "linear_insert c lk s t = t @ [?e]" using None c by (simp add: linear_insert_def)
  have "linear_abs t (c, lk) = None" using new linear_dom [of t] by auto
  moreover have "le_key ?e = (c, lk)" by (simp add: le_key_def)
  ultimately have "linear_abs (t @ [?e]) = (linear_abs t)((c, lk) \<mapsto> s)"
    by (auto simp: linear_abs_def map_add_def fun_eq_iff split: option.splits)
  then show ?thesis using inv new eq by (auto simp: linear_inv_def le_key_def)
next
  case (Some idx)
  let ?t = "t[idx := (t ! idx)\<lparr>le_slot_id := s\<rparr>]"
  from Some position_SomeD have idx: "idx < length t" "le_key (t ! idx) = (c, lk)"
    unfolding linear_position_alt by blast+
  have eq: "linear_insert c lk s t = ?t" using Some c by (simp add: linear_insert_def)
  have k: "le_key ((t ! idx)\<lparr>le_slot_id := s\<rparr>) = le_key (t ! idx)" by (simp add: le_key_def)
  have "map le_key ?t = map le_key t" 
    by (rule nth_equalityI) (auto simp: nth_list_update k idx(1))
  then have inv': "linear_inv ?t" using inv by (simp add: linear_inv_def)
  have d: "i < length t \<Longrightarrow> le_key (t ! i) = (c, lk) \<longleftrightarrow> i = idx" for i
    using inv idx by (metis length_map linear_inv_def nth_eq_iff_index_eq nth_map)
  have "linear_abs ?t k = ((linear_abs t)((c, lk) \<mapsto> s)) k" for k
  proof (rule option_ext)
    fix y
    have "linear_abs ?t k = Some y \<longleftrightarrow> (\<exists>i<length t. le_key (?t ! i) = k \<and> le_slot_id (?t ! i) = y)"
      unfolding linear_abs_iff [OF inv'] bex_set_conv_nth by simp
    also have "\<dots> \<longleftrightarrow> ((linear_abs t)((c, lk) \<mapsto> s)) k = Some y"
    proof (cases "k = (c, lk)")
      case True
      then show ?thesis using d k idx by (auto simp: nth_list_update)
    next
      case False
      have "(\<exists>i<length t. le_key (?t ! i) = k \<and> le_slot_id (?t ! i) = y) \<longleftrightarrow>
          (\<exists>i<length t. le_key (t ! i) = k \<and> le_slot_id (t ! i) = y)"
        using False idx k by (auto simp: nth_list_update)
      also have "\<dots> \<longleftrightarrow> linear_abs t k = Some y"
        unfolding linear_abs_iff [OF inv] bex_set_conv_nth by simp
      finally show ?thesis using False by simp
    qed
    finally show "linear_abs ?t k = Some y \<longleftrightarrow> ((linear_abs t)((c, lk) \<mapsto> s)) k = Some y" .
  qed
  then show ?thesis using inv' eq by auto
qed

lemma linear_remove_abs:
  assumes inv: "linear_inv t"
  shows "linear_inv (linear_remove c lk t) \<and>
    linear_abs (linear_remove c lk t) = (linear_abs t)((c, lk) := None)"
proof (cases "linear_position c lk t")
  case None
  then have "(c, lk) \<notin> dom (linear_abs t)"
    by (auto simp: linear_position_alt position_None_iff linear_dom)
  with None inv show ?thesis by (auto simp: linear_remove_def fun_eq_iff)
next
  case (Some idx)
  from Some position_SomeD have idx: "idx < length t" "le_key (t ! idx) = (c, lk)"
    unfolding linear_position_alt by blast+
  have eq: "linear_remove c lk t = swap_remove t idx" using Some by (simp add: linear_remove_def)
  have dt: "distinct t" using inv distinct_map by (auto simp: linear_inv_def)
  have st: "set (swap_remove t idx) = set t - {t ! idx}" by (rule set_swap_remove_distinct [OF idx(1) dt])
  have ds: "distinct (swap_remove t idx)" using mset_swap_remove [OF idx(1)] dt by blast
  have injt: "inj_on le_key (set t)" using inv by (simp add: linear_inv_def distinct_map)
  then have inv': "linear_inv (swap_remove t idx)"
    using ds st by (auto simp: linear_inv_def distinct_map inj_on_def)
  have only: "e \<in> set t \<Longrightarrow> le_key e = (c, lk) \<longleftrightarrow> e = t ! idx" for e
    using injt idx by (metis inj_on_eq_iff nth_mem)
  have "linear_abs (swap_remove t idx) k = ((linear_abs t)((c, lk) := None)) k" for k
    by (rule option_ext) (use only in \<open>auto simp: linear_abs_iff [OF inv'] linear_abs_iff [OF inv] st\<close>)
  then show ?thesis using inv' eq by auto
qed

lemma linear_shared:
  "shared (linear_abs t) p lk = {leading_matches p (le_chained e) | e. e \<in> set t \<and> le_layout_key e = lk}"
  by (auto simp: shared_def linear_dom le_key_def image_iff)

interpretation linear: prefix_index linear_insert linear_remove linear_match_best linear_len
    linear_new linear_abs linear_inv
proof (unfold_locales, goal_cases)
  case 1
  show ?case by (simp add: linear_inv_def linear_new_def)
next
  case 2
  show ?case by (simp add: linear_abs_def linear_new_def)
next
  case (3 t)
  then show ?case by (simp add: linear_dom)
next
  case (4 lk s t)
  show ?case by (simp add: linear_insert_def)
next
  case (5 t c lk s)
  then show ?case by (simp add: linear_insert_abs)
next
  case (6 t c lk)
  then show ?case by (simp add: linear_remove_abs)
next
  case (7 t p lk)
  then show ?case
    by (auto simp: linear_match_best_def linear_match_loop_None linear_shared)
next
  case (8 t p lk s d)
  then have l: "linear_match_loop p lk t None = Some (s, d)"
    by (simp add: linear_match_best_def split: if_splits)
  from linear_match_loop_Some [OF l] obtain e where e: "e \<in> set t" "le_layout_key e = lk"
    "le_slot_id e = s" "leading_matches p (le_chained e) = d" "0 < d"
    and ub: "\<forall>e\<in>set t. le_layout_key e = lk \<longrightarrow> leading_matches p (le_chained e) \<le> d" by auto
  have "linear_abs t (le_chained e, lk) = Some s"
    using e by (auto simp: linear_abs_iff [OF 8(1)] le_key_def)
  with e ub show ?case by (auto simp: linear_shared)
next
  case (9 t)
  then have "card (set (map le_key t)) = length t" unfolding linear_inv_def by (metis distinct_card length_map)
  then show ?case by (simp add: linear_len_def linear_dom)
qed

end
