(* ===== verification/RadixTree.thy ===== *)
theory RadixTree
  imports PrefixIndex
begin

text \<open>
  The positional radix tree of \<^verbatim>\<open>crates/rmlx-models/src/prefix_index/radix.rs\<close>: an arena
  of nodes that only grows until \<^verbatim>\<open>clear\<close>, with child and entry vectors per node. Node
  ids are naturals: the arena is far below \<^verbatim>\<open>u32::MAX\<close> nodes.

  The correctness argument has two layers. \<open>tree_struct\<close> is what the arena guarantees
  (children are younger than parents, have one parent and distinct keys), so a path of
  digests leads to at most one node. \<open>radix_rep t E\<close> says which paths exist and which
  entries each node carries when the tree stores the abstract map \<open>E\<close>.
\<close>

record radix_node =
  block_hash :: u64
  node_layout_key :: u64
  entries :: "(u64 \<times> nat) list"
  children :: "nat list"

record radix_tree =
  nodes :: "radix_node list"
  n_entries :: nat

definition node_new :: "u64 \<Rightarrow> u64 \<Rightarrow> radix_node" where
  "node_new h lk = \<lparr>block_hash = h, node_layout_key = lk, entries = [], children = []\<rparr>"

definition node_root :: radix_node where "node_root = node_new 0 0"

definition radix_new :: radix_tree where
  "radix_new = \<lparr>nodes = [node_root], n_entries = 0\<rparr>"

definition ROOT :: nat where "ROOT = 0"

text \<open>\<^verbatim>\<open>Iterator::max_by_key\<close> returns the last of several maximal elements.\<close>

fun max_by_depth :: "(u64 \<times> nat) list \<Rightarrow> (u64 \<times> nat) option \<Rightarrow> (u64 \<times> nat) option" where
  "max_by_depth [] best = best"
| "max_by_depth (e # es) best =
     max_by_depth es (case best of None \<Rightarrow> Some e | Some b \<Rightarrow> if snd b \<le> snd e then Some e else Some b)"

definition best_entry :: "radix_node \<Rightarrow> (u64 \<times> nat) option" where
  "best_entry n = max_by_depth (entries n) None"

definition find_child :: "radix_tree \<Rightarrow> nat \<Rightarrow> u64 \<Rightarrow> u64 \<Rightarrow> nat option" where
  "find_child t parent h lk =
     List.find (\<lambda>c. block_hash (nodes t ! c) = h \<and> node_layout_key (nodes t ! c) = lk)
       (children (nodes t ! parent))"

definition upd_node :: "nat \<Rightarrow> (radix_node \<Rightarrow> radix_node) \<Rightarrow> radix_tree \<Rightarrow> radix_tree" where
  "upd_node i f t = t\<lparr>nodes := (nodes t)[i := f (nodes t ! i)]\<rparr>"

definition add_child :: "radix_tree \<Rightarrow> nat \<Rightarrow> u64 \<Rightarrow> u64 \<Rightarrow> radix_tree \<times> nat" where
  "add_child t parent h lk =
     (let id = length (nodes t);
          t1 = t\<lparr>nodes := nodes t @ [node_new h lk]\<rparr>
      in (upd_node parent (\<lambda>n. n\<lparr>children := children n @ [id]\<rparr>) t1, id))"

definition leaf_depth :: "chain \<Rightarrow> nat" where
  "leaf_depth c = (if length c \<le> U32_MAX then length c else U32_MAX)"

text \<open>The nodes along a chain, or nothing when a segment is missing.\<close>

fun walk_path :: "radix_tree \<Rightarrow> nat \<Rightarrow> chain \<Rightarrow> u64 \<Rightarrow> nat list option" where
  "walk_path t cursor [] lk = Some []"
| "walk_path t cursor (h # hs) lk =
     (case find_child t cursor h lk of
        None \<Rightarrow> None
      | Some c \<Rightarrow> map_option ((#) c) (walk_path t c hs lk))"

text \<open>
  The leaf-to-root loop that \<^verbatim>\<open>evict_slot_path\<close> and \<^verbatim>\<open>remove\<close> share, over the reversed
  path; the flag is whether the tuple was found at the leaf.
\<close>

fun unstamp_loop :: "u64 \<Rightarrow> nat \<Rightarrow> nat list \<Rightarrow> bool \<Rightarrow> radix_tree \<Rightarrow> bool \<Rightarrow> radix_tree \<times> bool" where
  "unstamp_loop slot depth (child # parent # rest) at_leaf t found =
     (let (t1, found1) =
            (case position (\<lambda>(s, d). s = slot \<and> d = depth) (entries (nodes t ! child)) of
               Some pos \<Rightarrow>
                 (upd_node child (\<lambda>n. n\<lparr>entries := swap_remove (entries n) pos\<rparr>) t, at_leaf \<or> found)
             | None \<Rightarrow> (t, found));
          t2 = (if entries (nodes t1 ! child) = [] \<and> children (nodes t1 ! child) = []
                then upd_node parent (\<lambda>n. n\<lparr>children := filter (\<lambda>c. c \<noteq> child) (children n)\<rparr>) t1
                else t1)
      in unstamp_loop slot depth (parent # rest) False t2 found1)"
| "unstamp_loop slot depth _ at_leaf t found = (t, found)"

definition unstamp :: "u64 \<Rightarrow> nat \<Rightarrow> nat list \<Rightarrow> radix_tree \<Rightarrow> radix_tree" where
  "unstamp slot depth path t =
     (let (t1, found_at_leaf) = unstamp_loop slot depth (rev (ROOT # path)) True t False
      in if found_at_leaf then t1\<lparr>n_entries := n_entries t1 - 1\<rparr> else t1)"

definition evict_slot_path :: "chain \<Rightarrow> u64 \<Rightarrow> nat \<Rightarrow> u64 \<Rightarrow> radix_tree \<Rightarrow> radix_tree" where
  "evict_slot_path chained lk depth slot t =
     (case walk_path t ROOT chained lk of
        None \<Rightarrow> t
      | Some path \<Rightarrow> unstamp slot depth path t)"

fun make_path :: "radix_tree \<Rightarrow> nat \<Rightarrow> chain \<Rightarrow> u64 \<Rightarrow> radix_tree \<times> nat list" where
  "make_path t cursor [] lk = (t, [])"
| "make_path t cursor (h # hs) lk =
     (let (t1, c) = (case find_child t cursor h lk of
                       Some c \<Rightarrow> (t, c)
                     | None \<Rightarrow> add_child t cursor h lk);
          (t2, ps) = make_path t1 c hs lk
      in (t2, c # ps))"

fun stamp_loop :: "u64 \<Rightarrow> nat \<Rightarrow> nat list \<Rightarrow> radix_tree \<Rightarrow> bool \<Rightarrow> radix_tree \<times> bool" where
  "stamp_loop slot depth [] t first = (t, first)"
| "stamp_loop slot depth (node # ns) t first =
     (case position (\<lambda>(s, _). s = slot) (entries (nodes t ! node)) of
        Some pos \<Rightarrow>
          stamp_loop slot depth ns
            (upd_node node (\<lambda>n. n\<lparr>entries := (entries n)[pos := (fst (entries n ! pos), depth)]\<rparr>) t) False
      | None \<Rightarrow>
          stamp_loop slot depth ns
            (upd_node node (\<lambda>n. n\<lparr>entries := entries n @ [(slot, depth)]\<rparr>) t) first)"

definition existing_slots :: "radix_tree \<Rightarrow> chain \<Rightarrow> u64 \<Rightarrow> u64 \<Rightarrow> u64 list" where
  "existing_slots t chained lk slot =
     (case walk_path t ROOT chained lk of
        None \<Rightarrow> []
      | Some path \<Rightarrow>
          map fst (filter (\<lambda>(s, d). d = leaf_depth chained \<and> s \<noteq> slot)
            (entries (nodes t ! last (ROOT # path)))))"

definition radix_insert :: "chain \<Rightarrow> u64 \<Rightarrow> u64 \<Rightarrow> radix_tree \<Rightarrow> radix_tree" where
  "radix_insert chained lk slot t =
     (if chained = [] then t
      else
        let depth = leaf_depth chained;
            t1 = fold (evict_slot_path chained lk depth) (existing_slots t chained lk slot) t;
            (t2, path_nodes) = make_path t1 ROOT chained lk;
            (t3, first_insert) = stamp_loop slot depth path_nodes t2 True
        in if first_insert then t3\<lparr>n_entries := n_entries t3 + 1\<rparr> else t3)"

definition radix_remove :: "chain \<Rightarrow> u64 \<Rightarrow> radix_tree \<Rightarrow> radix_tree" where
  "radix_remove chained lk t =
     (if chained = [] then t
      else case walk_path t ROOT chained lk of
             None \<Rightarrow> t
           | Some path \<Rightarrow>
               (case List.find (\<lambda>(_, d). d = leaf_depth chained) (entries (nodes t ! last (ROOT # path))) of
                  None \<Rightarrow> t
                | Some (slot, _) \<Rightarrow> unstamp slot (leaf_depth chained) path t))"

fun radix_match_loop :: "radix_tree \<Rightarrow> nat \<Rightarrow> nat \<Rightarrow> chain \<Rightarrow> u64 \<Rightarrow> (u64 \<times> nat) option \<Rightarrow> (u64 \<times> nat) option" where
  "radix_match_loop t cursor depth [] lk best = best"
| "radix_match_loop t cursor depth (h # hs) lk best =
     (case find_child t cursor h lk of
        None \<Rightarrow> best
      | Some c \<Rightarrow>
          radix_match_loop t c (depth + 1) hs lk
            (case best_entry (nodes t ! c) of Some (slot, _) \<Rightarrow> Some (slot, depth + 1) | None \<Rightarrow> best))"

definition radix_match_best :: "chain \<Rightarrow> u64 \<Rightarrow> radix_tree \<Rightarrow> (u64 \<times> nat) option" where
  "radix_match_best p lk t = (if p = [] then None else radix_match_loop t ROOT 0 p lk None)"

definition radix_clear :: "radix_tree \<Rightarrow> radix_tree" where
  "radix_clear t = \<lparr>nodes = [node_root], n_entries = 0\<rparr>"

definition radix_len :: "radix_tree \<Rightarrow> nat" where "radix_len t = n_entries t"

text \<open>Rebuilding from the SSD index: one block per row, under the row's hash.\<close>

record rebuild_row =
  last_block_hash :: u64
  rr_layout_key :: u64
  row_id :: u64

definition rebuild_from_sqlite_rows :: "rebuild_row list \<Rightarrow> radix_tree" where
  "rebuild_from_sqlite_rows rows =
     fold (\<lambda>row t. radix_insert [last_block_hash row] (rr_layout_key row) (row_id row) t) rows radix_new"

subsection \<open>The arena\<close>

definition tree_struct :: "radix_tree \<Rightarrow> bool" where
  "tree_struct t \<longleftrightarrow> nodes t \<noteq> [] \<and>
     (\<forall>n<length (nodes t). \<forall>c\<in>set (children (nodes t ! n)). n < c \<and> c < length (nodes t) \<and>
        (n \<noteq> 0 \<longrightarrow> node_layout_key (nodes t ! c) = node_layout_key (nodes t ! n))) \<and>
     (\<forall>n<length (nodes t). \<forall>m<length (nodes t). \<forall>c\<in>set (children (nodes t ! n)).
        c \<in> set (children (nodes t ! m)) \<longrightarrow> n = m) \<and>
     (\<forall>n<length (nodes t). \<forall>c\<in>set (children (nodes t ! n)). \<forall>d\<in>set (children (nodes t ! n)).
        block_hash (nodes t ! c) = block_hash (nodes t ! d) \<longrightarrow>
        node_layout_key (nodes t ! c) = node_layout_key (nodes t ! d) \<longrightarrow> c = d)"

lemma root_bound: "tree_struct t \<Longrightarrow> 0 < length (nodes t)"
  unfolding tree_struct_def by (elim conjE) (rule length_greater_0_conv [THEN iffD2])

lemma child_bound:
  "tree_struct t \<Longrightarrow> n < length (nodes t) \<Longrightarrow> c \<in> set (children (nodes t ! n)) \<Longrightarrow>
     n < c \<and> c < length (nodes t) \<and>
     (n \<noteq> 0 \<longrightarrow> node_layout_key (nodes t ! c) = node_layout_key (nodes t ! n))"
proof -
  assume "tree_struct t"
  then have "\<forall>n<length (nodes t). \<forall>c\<in>set (children (nodes t ! n)). n < c \<and> c < length (nodes t) \<and>
        (n \<noteq> 0 \<longrightarrow> node_layout_key (nodes t ! c) = node_layout_key (nodes t ! n))"
    unfolding tree_struct_def by (elim conjE)
  moreover assume "n < length (nodes t)" "c \<in> set (children (nodes t ! n))"
  ultimately show ?thesis by blast
qed

lemma child_parent:
  "tree_struct t \<Longrightarrow> n < length (nodes t) \<Longrightarrow> m < length (nodes t) \<Longrightarrow>
     c \<in> set (children (nodes t ! n)) \<Longrightarrow> c \<in> set (children (nodes t ! m)) \<Longrightarrow> n = m"
proof -
  assume "tree_struct t"
  then have "\<forall>n<length (nodes t). \<forall>m<length (nodes t). \<forall>c\<in>set (children (nodes t ! n)).
        c \<in> set (children (nodes t ! m)) \<longrightarrow> n = m"
    unfolding tree_struct_def by (elim conjE)
  moreover assume "n < length (nodes t)" "m < length (nodes t)" "c \<in> set (children (nodes t ! n))"
    "c \<in> set (children (nodes t ! m))"
  ultimately show ?thesis by blast
qed

lemma child_key:
  "tree_struct t \<Longrightarrow> n < length (nodes t) \<Longrightarrow>
     c \<in> set (children (nodes t ! n)) \<Longrightarrow> d \<in> set (children (nodes t ! n)) \<Longrightarrow>
     block_hash (nodes t ! c) = block_hash (nodes t ! d) \<Longrightarrow>
     node_layout_key (nodes t ! c) = node_layout_key (nodes t ! d) \<Longrightarrow> c = d"
proof -
  assume "tree_struct t"
  then have "\<forall>n<length (nodes t). \<forall>c\<in>set (children (nodes t ! n)). \<forall>d\<in>set (children (nodes t ! n)).
        block_hash (nodes t ! c) = block_hash (nodes t ! d) \<longrightarrow>
        node_layout_key (nodes t ! c) = node_layout_key (nodes t ! d) \<longrightarrow> c = d"
    unfolding tree_struct_def by (elim conjE)
  moreover assume "n < length (nodes t)" "c \<in> set (children (nodes t ! n))"
    "d \<in> set (children (nodes t ! n))" "block_hash (nodes t ! c) = block_hash (nodes t ! d)"
    "node_layout_key (nodes t ! c) = node_layout_key (nodes t ! d)"
  ultimately show ?thesis by simp
qed

lemma tree_struct_sub:
  assumes st: "tree_struct t" and len: "length (nodes t') = length (nodes t)"
    and key: "\<And>c. block_hash (nodes t' ! c) = block_hash (nodes t ! c)"
      "\<And>c. node_layout_key (nodes t' ! c) = node_layout_key (nodes t ! c)"
    and ch: "\<And>n. set (children (nodes t' ! n)) \<subseteq> set (children (nodes t ! n))"
  shows "tree_struct t'"
  unfolding tree_struct_def len key
proof (intro conjI allI impI ballI)
  show "nodes t' \<noteq> []" using root_bound [OF st] len by auto
next
  fix n c
  assume n: "n < length (nodes t)" and c: "c \<in> set (children (nodes t' ! n))"
  then have c: "c \<in> set (children (nodes t ! n))" using ch by blast
  note b = child_bound [OF st n c]
  show "n < c" "c < length (nodes t)" using b by simp_all
  assume "n \<noteq> 0"
  with b show "node_layout_key (nodes t ! c) = node_layout_key (nodes t ! n)" by simp
next
  fix n m c
  assume "n < length (nodes t)" "m < length (nodes t)" "c \<in> set (children (nodes t' ! n))"
    "c \<in> set (children (nodes t' ! m))"
  then show "n = m" using child_parent [OF st] ch by blast
next
  fix n c d
  assume n: "n < length (nodes t)" "c \<in> set (children (nodes t' ! n))"
    "d \<in> set (children (nodes t' ! n))" "block_hash (nodes t ! c) = block_hash (nodes t ! d)"
    "node_layout_key (nodes t ! c) = node_layout_key (nodes t ! d)"
  then have "c \<in> set (children (nodes t ! n))" "d \<in> set (children (nodes t ! n))" using ch by blast+
  from child_key [OF st n(1) this n(4,5)] show "c = d" .
qed

fun walk :: "radix_tree \<Rightarrow> nat \<Rightarrow> u64 \<Rightarrow> chain \<Rightarrow> nat option" where
  "walk t n lk [] = Some n"
| "walk t n lk (h # hs) = Option.bind (find_child t n h lk) (\<lambda>c. walk t c lk hs)"

lemma walk_append: "walk t n lk (p @ q) = Option.bind (walk t n lk p) (\<lambda>m. walk t m lk q)"
  by (induction p arbitrary: n) (simp_all split: bind_splits)

lemma walk_snoc: "walk t n lk (p @ [h]) = Option.bind (walk t n lk p) (\<lambda>m. find_child t m h lk)"
  by (simp add: walk_append)

lemma find_child_Some:
  "tree_struct t \<Longrightarrow> n < length (nodes t) \<Longrightarrow> find_child t n h lk = Some c \<longleftrightarrow>
     c \<in> set (children (nodes t ! n)) \<and> block_hash (nodes t ! c) = h \<and> node_layout_key (nodes t ! c) = lk"
proof
  assume s: "tree_struct t" "n < length (nodes t)"
    "c \<in> set (children (nodes t ! n)) \<and> block_hash (nodes t ! c) = h \<and> node_layout_key (nodes t ! c) = lk"
  then obtain d where d: "find_child t n h lk = Some d"
    by (cases "find_child t n h lk") (auto simp: find_child_def find_None_iff)
  then have "d \<in> set (children (nodes t ! n)) \<and> block_hash (nodes t ! d) = h \<and> node_layout_key (nodes t ! d) = lk"
    by (auto simp: find_child_def find_Some_iff)
  with s child_key [OF s(1,2)] have "c = d" by simp
  with d show "find_child t n h lk = Some c" by simp
qed (auto simp: find_child_def find_Some_iff)

lemma walk_bound:
  "tree_struct t \<Longrightarrow> n < length (nodes t) \<Longrightarrow> walk t n lk p = Some m \<Longrightarrow>
     m < length (nodes t) \<and> n \<le> m \<and> (p \<noteq> [] \<longrightarrow> n < m \<and> node_layout_key (nodes t ! m) = lk)"
proof (induction p arbitrary: m rule: rev_induct)
  case (snoc h p)
  then obtain k where k: "walk t n lk p = Some k" "find_child t k h lk = Some m"
    by (auto simp: walk_snoc split: bind_splits)
  with snoc have "k < length (nodes t)" "n \<le> k" by auto
  then show ?case
    using find_child_Some [of t k h lk m] child_bound [of t k m] k(2) snoc.prems(1) by simp
qed simp

lemma walk_inj:
  "tree_struct t \<Longrightarrow> walk t 0 lk p = Some n \<Longrightarrow> walk t 0 lk' p' = Some n \<Longrightarrow>
     p = p' \<and> (p = [] \<or> lk = lk')"
proof (induction p arbitrary: n p' rule: rev_induct)
  case Nil
  then have "n = 0" by simp
  with Nil walk_bound [OF Nil(1) root_bound [OF Nil(1)], of lk' p' n] show ?case by auto
next
  case (snoc h p)
  note s = snoc.prems(1) and rb = root_bound [OF snoc.prems(1)]
  have "p' \<noteq> []" using snoc.prems walk_bound [OF s rb, of lk "p @ [h]" n] by auto
  then obtain q h' where p': "p' = q @ [h']" by (cases p' rule: rev_cases) auto
  from snoc.prems obtain k where k: "walk t 0 lk p = Some k" "find_child t k h lk = Some n"
    by (auto simp: walk_snoc split: bind_splits)
  from snoc.prems p' obtain k' where k': "walk t 0 lk' q = Some k'" "find_child t k' h' lk' = Some n"
    by (auto simp: walk_snoc split: bind_splits)
  have b: "k < length (nodes t)" "k' < length (nodes t)"
    using walk_bound [OF s rb k(1)] walk_bound [OF s rb k'(1)] by auto
  have c: "n \<in> set (children (nodes t ! k))" "n \<in> set (children (nodes t ! k'))" "h = h'" "lk = lk'"
    using find_child_Some [OF s b(1)] find_child_Some [OF s b(2)] k(2) k'(2) by auto
  then have "k = k'" using child_parent [OF s b] by blast
  with snoc.IH [OF s k(1)] k'(1) c p' show ?case by auto
qed

lemma walk_path_walk:
  "walk_path t n p lk = Some ps \<Longrightarrow> walk t n lk p = Some (last (n # ps)) \<and> length ps = length p"
  by (induction p arbitrary: n ps) (auto split: option.splits)

lemma walk_path_None: "walk_path t n p lk = None \<longleftrightarrow> walk t n lk p = None"
  by (induction p arbitrary: n) (auto split: option.splits)

lemma walk_path_snoc:
  "walk_path t n (p @ [h]) lk = Some ps \<longleftrightarrow>
     (\<exists>qs c. ps = qs @ [c] \<and> walk_path t n p lk = Some qs \<and> find_child t (last (n # qs)) h lk = Some c)"
proof (induction p arbitrary: n ps)
  case Nil
  show ?case by (auto split: option.splits)
next
  case (Cons x p)
  show ?case
  proof (cases "find_child t n x lk")
    case (Some c)
    have "walk_path t n ((x # p) @ [h]) lk = Some ps \<longleftrightarrow>
        (\<exists>rs. ps = c # rs \<and> walk_path t c (p @ [h]) lk = Some rs)" using Some by auto
    also have "\<dots> \<longleftrightarrow> (\<exists>rs qs d. ps = c # rs \<and> rs = qs @ [d] \<and> walk_path t c p lk = Some qs \<and>
        find_child t (last (c # qs)) h lk = Some d)" using Cons.IH [of c] by blast
    also have "\<dots> \<longleftrightarrow> (\<exists>qs d. ps = qs @ [d] \<and> walk_path t n (x # p) lk = Some qs \<and>
        find_child t (last (n # qs)) h lk = Some d)"
    proof -
      have w: "walk_path t n (x # p) lk = Some qs \<longleftrightarrow> (\<exists>z. qs = c # z \<and> walk_path t c p lk = Some z)" for qs
        using Some by auto
      have l: "last (n # c # z) = last (c # z)" for z :: "nat list" by simp
      show ?thesis unfolding w using l by (auto simp del: last.simps)
    qed
    finally show ?thesis .
  qed simp
qed

subsection \<open>Paths and entries, and what each primitive does to them\<close>

text \<open>
  \<open>tree_inv t W F\<close>: \<open>W lk p\<close> says that the path \<open>p\<close> exists under the layout key \<open>lk\<close>, and
  \<open>F lk p\<close> is the set of entries of the node there.
\<close>

definition tree_inv ::
    "radix_tree \<Rightarrow> (u64 \<Rightarrow> chain \<Rightarrow> bool) \<Rightarrow> (u64 \<Rightarrow> chain \<Rightarrow> (u64 \<times> nat) set) \<Rightarrow> bool" where
  "tree_inv t W F \<longleftrightarrow> tree_struct t \<and> (\<forall>lk p. walk t 0 lk p \<noteq> None \<longleftrightarrow> W lk p) \<and>
     (\<forall>lk p n. p \<noteq> [] \<longrightarrow> walk t 0 lk p = Some n \<longrightarrow>
        distinct (entries (nodes t ! n)) \<and> set (entries (nodes t ! n)) = F lk p)"

lemma tree_invD:
  assumes "tree_inv t W F"
  shows "tree_struct t" "walk t 0 lk p \<noteq> None \<longleftrightarrow> W lk p"
    "p \<noteq> [] \<Longrightarrow> walk t 0 lk p = Some n \<Longrightarrow>
       distinct (entries (nodes t ! n)) \<and> set (entries (nodes t ! n)) = F lk p"
  using assms by (simp_all add: tree_inv_def)

lemma tree_inv_walk:
  "tree_inv t W F \<Longrightarrow> walk t 0 lk p = Some n \<Longrightarrow> n < length (nodes t)"
  using walk_bound [of t 0 lk p n] tree_invD(1) root_bound by blast

lemma nodes_upd [simp]:
  "length (nodes (upd_node i f t)) = length (nodes t)"
  "n_entries (upd_node i f t) = n_entries t"
  by (simp_all add: upd_node_def)

lemma nth_upd: "i < length (nodes t) \<Longrightarrow>
    nodes (upd_node i f t) ! c = (if c = i then f (nodes t ! i) else nodes t ! c)"
  by (simp add: upd_node_def nth_list_update)

lemma walk_cong:
  assumes "\<And>n h. find_child t' n h lk = find_child t n h lk"
  shows "walk t' n lk p = walk t n lk p"
  by (induction p arbitrary: n) (simp_all add: assms)

lemma tree_inv_upd_entries:
  assumes inv: "tree_inv t W F" and w: "walk t 0 lk q = Some n" and q: "q \<noteq> []"
    and f: "\<And>x. block_hash (f x) = block_hash x \<and> node_layout_key (f x) = node_layout_key x \<and>
      children (f x) = children x"
    and d: "distinct (entries (f (nodes t ! n)))"
  shows "tree_inv (upd_node n f t) W (F(lk := (F lk)(q := set (entries (f (nodes t ! n))))))"
    and "walk (upd_node n f t) m lk' p = walk t m lk' p"
proof -
  let ?t = "upd_node n f t"
  note n = tree_inv_walk [OF inv w]
  have nth: "block_hash (nodes ?t ! c) = block_hash (nodes t ! c)"
    "node_layout_key (nodes ?t ! c) = node_layout_key (nodes t ! c)"
    "children (nodes ?t ! c) = children (nodes t ! c)" for c
    using f by (auto simp: nth_upd n)
  have wk: "walk ?t m lk' p = walk t m lk' p" for m lk' p
    by (rule walk_cong) (simp add: find_child_def nth)
  have st: "tree_struct ?t"
    by (rule tree_struct_sub [OF tree_invD(1) [OF inv]]) (simp_all add: nth)
  show "walk ?t m lk' p = walk t m lk' p" by (rule wk)
  show "tree_inv ?t W (F(lk := (F lk)(q := set (entries (f (nodes t ! n))))))"
    unfolding tree_inv_def
  proof (intro conjI allI impI st)
    fix lk' p
    show "(walk ?t 0 lk' p \<noteq> None) = W lk' p" using tree_invD(2) [OF inv, of lk' p] by (simp only: wk)
  next
    fix lk' p m
    assume p: "p \<noteq> []" "walk ?t 0 lk' p = Some m"
    then have wm: "walk t 0 lk' p = Some m" using wk by simp
    have "m = n \<longleftrightarrow> lk' = lk \<and> p = q"
    proof
      assume "m = n"
      with w have "walk t 0 lk q = Some m" by simp
      from walk_inj [OF tree_invD(1) [OF inv] wm this] p(1) show "lk' = lk \<and> p = q" by simp
    next
      assume "lk' = lk \<and> p = q"
      with w wm show "m = n" by simp
    qed
    with tree_invD(3) [OF inv p(1) wm] d
    show "distinct (entries (nodes ?t ! m))"
      "set (entries (nodes ?t ! m)) = (F(lk := (F lk)(q := set (entries (f (nodes t ! n)))))) lk' p"
      by (auto simp: nth_upd n)
  qed
qed

lemma tree_struct_add:
  assumes st: "tree_struct t" and n: "cur < length (nodes t)" and none: "find_child t cur h lk = None"
    and lay: "cur \<noteq> 0 \<longrightarrow> node_layout_key (nodes t ! cur) = lk"
    and a: "add_child t cur h lk = (t', nid)"
  shows "tree_struct t'" "nid = length (nodes t)" "length (nodes t') = Suc (length (nodes t))"
    "\<And>c. c < length (nodes t) \<Longrightarrow> nodes t' ! c =
       (if c = cur then (nodes t ! c)\<lparr>children := children (nodes t ! c) @ [nid]\<rparr> else nodes t ! c)"
    "nodes t' ! nid = node_new h lk" "n_entries t' = n_entries t"
proof -
  show nid: "nid = length (nodes t)" and len: "length (nodes t') = Suc (length (nodes t))"
    and ne: "n_entries t' = n_entries t"
    using a by (auto simp: add_child_def Let_def upd_node_def)
  show nth: "nodes t' ! c = (if c = cur then (nodes t ! c)\<lparr>children := children (nodes t ! c) @ [nid]\<rparr>
      else nodes t ! c)" if "c < length (nodes t)" for c
    using a that n by (auto simp: add_child_def Let_def upd_node_def nth_list_update nth_append)
  show new: "nodes t' ! nid = node_new h lk"
    using a n by (auto simp: add_child_def Let_def upd_node_def nth_list_update)
  have ch: "set (children (nodes t' ! m)) =
      (if m = cur then insert nid (set (children (nodes t ! m)))
       else if m = nid then {} else set (children (nodes t ! m)))" if "m \<le> nid" for m
    using that nth [of m] new n nid by (cases "m = nid") (auto simp: node_new_def)
  have key: "block_hash (nodes t' ! c) = block_hash (nodes t ! c)"
    "node_layout_key (nodes t' ! c) = node_layout_key (nodes t ! c)" if "c < length (nodes t)" for c
    using nth [OF that] by auto
  have free: "\<not> (block_hash (nodes t ! c) = h \<and> node_layout_key (nodes t ! c) = lk)"
    if "c \<in> set (children (nodes t ! cur))" for c
    using find_child_Some [OF st n, of h lk c] none that by auto
  have cb: "c < nid" if "c \<in> set (children (nodes t ! m))" "m < length (nodes t)" for c m
    using child_bound [OF st that(2,1)] nid by simp
  have kid: "block_hash (nodes t' ! nid) = h" "node_layout_key (nodes t' ! nid) = lk"
    using new by (simp_all add: node_new_def)
  have old: "m < length (nodes t)" if "c \<in> set (children (nodes t' ! m))" "m < Suc (length (nodes t))" for c m
    using that ch [of m] nid by (cases "m = nid") (use n in auto)
  show "tree_struct t'"
    unfolding tree_struct_def len
  proof (intro conjI allI impI ballI)
    show "nodes t' \<noteq> []" using len by auto
  next
    fix m c
    assume m: "m < Suc (length (nodes t))" and c: "c \<in> set (children (nodes t' ! m))"
    note mo = old [OF c m]
    have cases: "c = nid \<and> m = cur \<or> c \<in> set (children (nodes t ! m)) \<and> c < nid"
      using ch [of m] c mo nid cb by (auto split: if_splits)
    then show "m < c" using mo nid child_bound [OF st mo] n by auto
    show "c < Suc (length (nodes t))" using cases nid by auto
    assume "m \<noteq> 0"
    with cases child_bound [OF st mo, of c] lay kid key mo n nid
    show "node_layout_key (nodes t' ! c) = node_layout_key (nodes t' ! m)" by auto
  next
    fix m k c
    assume m: "m < Suc (length (nodes t))" "k < Suc (length (nodes t))"
      "c \<in> set (children (nodes t' ! m))" "c \<in> set (children (nodes t' ! k))"
    note mo = old [OF m(3,1)] and ko = old [OF m(4,2)]
    then show "m = k"
      using ch [of m] ch [of k] m(3,4) nid cb [of c m] cb [of c k] child_parent [OF st mo ko, of c]
      by (auto split: if_splits)
  next
    fix m c d
    assume m: "m < Suc (length (nodes t))"
      "c \<in> set (children (nodes t' ! m))" "d \<in> set (children (nodes t' ! m))"
      "block_hash (nodes t' ! c) = block_hash (nodes t' ! d)"
      "node_layout_key (nodes t' ! c) = node_layout_key (nodes t' ! d)"
    note mo = old [OF m(2,1)]
    have cases: "x = nid \<and> m = cur \<or> x \<in> set (children (nodes t ! m)) \<and> x < length (nodes t)"
      if "x \<in> set (children (nodes t' ! m))" for x
      using ch [of m] that mo nid cb [of x m] by (auto split: if_splits)
    from cases [OF m(2)] cases [OF m(3)] show "c = d"
    proof (elim disjE conjE, goal_cases)
      case 2
      then show ?case using free [of d] key [of d] kid m(4,5) by simp
    next
      case 3
      then show ?case using free [of c] key [of c] kid m(4,5) by simp
    next
      case 4
      then show ?case using child_key [OF st mo 4(1,3)] m(4,5) key [of c] key [of d] by simp
    qed simp
  qed
qed

lemma tree_inv_add_child:
  assumes inv: "tree_inv t W F" and w: "walk t 0 lk q = Some cur"
    and none: "find_child t cur h lk = None" and F: "F lk (q @ [h]) = {}"
    and a: "add_child t cur h lk = (t', nid)"
  shows "tree_inv t' (\<lambda>lk' p. W lk' p \<or> lk' = lk \<and> p = q @ [h]) F"
    "walk t' 0 lk (q @ [h]) = Some nid"
    "\<And>lk' p m. walk t 0 lk' p = Some m \<Longrightarrow> walk t' 0 lk' p = Some m"
    "n_entries t' = n_entries t"
proof -
  note st = tree_invD(1) [OF inv] and n = tree_inv_walk [OF inv w]
  have lay: "cur \<noteq> 0 \<longrightarrow> node_layout_key (nodes t ! cur) = lk"
    using walk_bound [OF st root_bound [OF st] w] w by (cases "q = []") auto
  note add = tree_struct_add [OF st n none lay a]
  have fc: "find_child t' m x lk' = (if m = cur \<and> x = h \<and> lk' = lk then Some nid else find_child t m x lk')"
    if m: "m < length (nodes t)" for m x lk'
  proof -
    have m': "m < length (nodes t')" using m add(3) by simp
    have ch: "set (children (nodes t' ! m)) =
        (if m = cur then insert nid (set (children (nodes t ! m))) else set (children (nodes t ! m)))"
      using add(4) [OF m] by auto
    have old: "c < length (nodes t) \<and> nodes t' ! c = nodes t ! c \<or> c < length (nodes t) \<and> c = cur"
      if "c \<in> set (children (nodes t ! m))" for c
      using child_bound [OF st m that] add(4) [of c] by auto
    have key: "block_hash (nodes t' ! c) = block_hash (nodes t ! c) \<and>
        node_layout_key (nodes t' ! c) = node_layout_key (nodes t ! c)"
      if "c \<in> set (children (nodes t ! m))" for c
      using old [OF that] add(4) [of c] by auto
    show ?thesis
    proof (rule option_ext)
      fix d
      show "find_child t' m x lk' = Some d \<longleftrightarrow>
          (if m = cur \<and> x = h \<and> lk' = lk then Some nid else find_child t m x lk') = Some d"
      proof (cases "m = cur \<and> x = h \<and> lk' = lk")
        case True
        then have "find_child t' m x lk' = Some nid"
          using find_child_Some [OF add(1) m', of h lk nid] ch add(5) by (simp add: node_new_def)
        with True show ?thesis by auto
      next
        case False
        have "find_child t' m x lk' = Some d \<longleftrightarrow> d \<in> set (children (nodes t ! m)) \<and>
            block_hash (nodes t ! d) = x \<and> node_layout_key (nodes t ! d) = lk'"
          using find_child_Some [OF add(1) m', of x lk' d] ch key [of d] add(5) False
          by (auto simp: node_new_def split: if_splits)
        with False find_child_Some [OF st m, of x lk' d] show ?thesis by auto
      qed
    qed
  qed
  have fn: "find_child t' nid x lk' = None" for x lk'
    using add(5) by (simp add: find_child_def node_new_def)
  have wn: "walk t 0 lk (q @ [h]) = None" using w none by (simp add: walk_snoc)
  have wk: "walk t' 0 lk' p = (if lk' = lk \<and> p = q @ [h] then Some nid else walk t 0 lk' p)" for lk' p
  proof (induction p rule: rev_induct)
    case (snoc x p)
    show ?case
    proof (cases "lk' = lk \<and> p = q @ [h]")
      case True
      then have "walk t' 0 lk' p = Some nid" "walk t 0 lk' p = None" "p @ [x] \<noteq> q @ [h]"
        using snoc wn by auto
      then show ?thesis using fn walk_snoc [of t' 0 lk' p x] walk_snoc [of t 0 lk' p x] by simp
    next
      case False
      then have same: "walk t' 0 lk' p = walk t 0 lk' p" using snoc by auto
      show ?thesis
      proof (cases "walk t 0 lk' p")
        case None
        with same w show ?thesis by (auto simp: walk_snoc)
      next
        case (Some m)
        have m: "m < length (nodes t)" by (rule tree_inv_walk [OF inv Some])
        have "m = cur \<and> x = h \<and> lk' = lk \<longleftrightarrow> lk' = lk \<and> p @ [x] = q @ [h]"
        proof
          assume "m = cur \<and> x = h \<and> lk' = lk"
          with walk_inj [OF st Some, of lk q] w show "lk' = lk \<and> p @ [x] = q @ [h]" by simp
        next
          assume "lk' = lk \<and> p @ [x] = q @ [h]"
          with Some w show "m = cur \<and> x = h \<and> lk' = lk" by simp
        qed
        with fc [OF m, of x lk'] same Some show ?thesis by (simp add: walk_snoc)
      qed
    qed
  qed simp
  show "walk t' 0 lk (q @ [h]) = Some nid" by (simp add: wk)
  show "walk t 0 lk' p = Some m \<Longrightarrow> walk t' 0 lk' p = Some m" for lk' p m
    using wn by (auto simp: wk)
  show "n_entries t' = n_entries t" by (rule add(6))
  show "tree_inv t' (\<lambda>lk' p. W lk' p \<or> lk' = lk \<and> p = q @ [h]) F"
    unfolding tree_inv_def
  proof (intro conjI allI impI add(1))
    fix lk' p
    show "(walk t' 0 lk' p \<noteq> None) = (W lk' p \<or> lk' = lk \<and> p = q @ [h])"
      using tree_invD(2) [OF inv, of lk' p] by (auto simp: wk)
  next
    fix lk' p m
    assume p: "p \<noteq> []" "walk t' 0 lk' p = Some m"
    have "distinct (entries (nodes t' ! m)) \<and> set (entries (nodes t' ! m)) = F lk' p"
    proof (cases "lk' = lk \<and> p = q @ [h]")
      case True
      with p wk add(5) F show ?thesis by (simp add: node_new_def)
    next
      case False
      then have "walk t 0 lk' p = Some m" using p wk [of lk' p] by (auto split: if_splits)
      with tree_invD(3) [OF inv p(1) this] tree_inv_walk [OF inv this] add(4) [of m]
      show ?thesis by auto
    qed
    then show "distinct (entries (nodes t' ! m))" "set (entries (nodes t' ! m)) = F lk' p" by simp_all
  qed
qed

lemma tree_inv_detach:
  assumes inv: "tree_inv t W F" and w: "walk t 0 lk q = Some par"
    and c: "find_child t par h lk = Some c" and leaf: "children (nodes t ! c) = []"
  shows "tree_inv (upd_node par (\<lambda>n. n\<lparr>children := filter (\<lambda>x. x \<noteq> c) (children n)\<rparr>) t)
      (\<lambda>lk' p. W lk' p \<and> \<not> (lk' = lk \<and> p = q @ [h])) F"
    "walk (upd_node par (\<lambda>n. n\<lparr>children := filter (\<lambda>x. x \<noteq> c) (children n)\<rparr>) t) 0 lk' p =
      (if lk' = lk \<and> p = q @ [h] then None else walk t 0 lk' p)"
proof -
  let ?t = "upd_node par (\<lambda>n. n\<lparr>children := filter (\<lambda>x. x \<noteq> c) (children n)\<rparr>) t"
  note st = tree_invD(1) [OF inv] and n = tree_inv_walk [OF inv w]
  have nth: "block_hash (nodes ?t ! m) = block_hash (nodes t ! m)"
    "node_layout_key (nodes ?t ! m) = node_layout_key (nodes t ! m)"
    "entries (nodes ?t ! m) = entries (nodes t ! m)"
    "set (children (nodes ?t ! m)) = set (children (nodes t ! m)) - (if m = par then {c} else {})" for m
    by (auto simp: nth_upd n)
  have st': "tree_struct ?t"
    by (rule tree_struct_sub [OF st]) (simp_all add: nth(1,2), auto simp: nth(4))
  have ck: "c \<in> set (children (nodes t ! par)) \<and> block_hash (nodes t ! c) = h \<and>
      node_layout_key (nodes t ! c) = lk" using find_child_Some [OF st n] c by simp
  have fc: "find_child ?t m x lk' = (if m = par \<and> x = h \<and> lk' = lk then None else find_child t m x lk')"
    if m: "m < length (nodes t)" for m x lk'
  proof (rule option_ext)
    fix d
    have m': "m < length (nodes ?t)" using m by simp
    have eq: "d = c" if "m = par" "d \<in> set (children (nodes t ! par))"
      "block_hash (nodes t ! d) = h" "node_layout_key (nodes t ! d) = lk"
      using child_key [OF st n, of d c] that ck by simp
    show "find_child ?t m x lk' = Some d \<longleftrightarrow>
        (if m = par \<and> x = h \<and> lk' = lk then None else find_child t m x lk') = Some d"
      using find_child_Some [OF st' m', of x lk' d] find_child_Some [OF st m, of x lk' d] ck eq
      by (auto simp: nth split: if_splits)
  qed
  have fl: "find_child t c x lk' = None" for x lk' by (simp add: find_child_def leaf)
  have wc: "walk t 0 lk (q @ [h]) = Some c" using w c by (simp add: walk_snoc)
  have wk: "walk ?t 0 lk' p = (if lk' = lk \<and> p = q @ [h] then None else walk t 0 lk' p)" for lk' p
  proof (induction p rule: rev_induct)
    case (snoc x p)
    show ?case
    proof (cases "lk' = lk \<and> p = q @ [h]")
      case True
      then have "walk ?t 0 lk' p = None" "walk t 0 lk' p = Some c" "p @ [x] \<noteq> q @ [h]"
        using snoc wc by auto
      then show ?thesis using fl walk_snoc [of ?t 0 lk' p x] walk_snoc [of t 0 lk' p x] by simp
    next
      case False
      then have same: "walk ?t 0 lk' p = walk t 0 lk' p" using snoc by auto
      show ?thesis
      proof (cases "walk t 0 lk' p")
        case None
        with same w show ?thesis by (auto simp: walk_snoc)
      next
        case (Some m)
        have m: "m < length (nodes t)" by (rule tree_inv_walk [OF inv Some])
        have "m = par \<and> x = h \<and> lk' = lk \<longleftrightarrow> lk' = lk \<and> p @ [x] = q @ [h]"
        proof
          assume "m = par \<and> x = h \<and> lk' = lk"
          with walk_inj [OF st Some, of lk q] w show "lk' = lk \<and> p @ [x] = q @ [h]" by simp
        next
          assume "lk' = lk \<and> p @ [x] = q @ [h]"
          with Some w show "m = par \<and> x = h \<and> lk' = lk" by simp
        qed
        with fc [OF m, of x lk'] same Some show ?thesis by (simp add: walk_snoc)
      qed
    qed
  qed simp
  show "walk ?t 0 lk' p = (if lk' = lk \<and> p = q @ [h] then None else walk t 0 lk' p)" by (rule wk)
  show "tree_inv ?t (\<lambda>lk' p. W lk' p \<and> \<not> (lk' = lk \<and> p = q @ [h])) F"
    unfolding tree_inv_def
  proof (intro conjI allI impI st')
    fix lk' p
    show "(walk ?t 0 lk' p \<noteq> None) = (W lk' p \<and> \<not> (lk' = lk \<and> p = q @ [h]))"
      using tree_invD(2) [OF inv, of lk' p] by (simp add: wk)
  next
    fix lk' p m
    assume p: "p \<noteq> []" "walk ?t 0 lk' p = Some m"
    then have "walk t 0 lk' p = Some m" by (simp add: wk split: if_splits)
    from tree_invD(3) [OF inv p(1) this]
    show "distinct (entries (nodes ?t ! m))" "set (entries (nodes ?t ! m)) = F lk' p"
      by (simp_all add: nth(3))
  qed
qed

subsection \<open>The stored map\<close>

definition F_of :: "index_map \<Rightarrow> u64 \<Rightarrow> chain \<Rightarrow> (u64 \<times> nat) set" where
  "F_of E lk q = {(s, length c) | c s. E (c, lk) = Some s \<and> prefix q c}"

definition W_of :: "index_map \<Rightarrow> u64 \<Rightarrow> chain \<Rightarrow> bool" where
  "W_of E lk q \<longleftrightarrow> q = [] \<or> F_of E lk q \<noteq> {}"

definition map_ok :: "index_map \<Rightarrow> bool" where
  "map_ok E \<longleftrightarrow> finite (dom E) \<and> (\<forall>c lk. (c, lk) \<in> dom E \<longrightarrow> c \<noteq> [] \<and> length c < U32_MAX) \<and>
     (\<forall>k k' s. E k = Some s \<longrightarrow> E k' = Some s \<longrightarrow> k = k')"

definition radix_rep :: "radix_tree \<Rightarrow> index_map \<Rightarrow> bool" where
  "radix_rep t E \<longleftrightarrow> map_ok E \<and> tree_inv t (W_of E) (F_of E) \<and> n_entries t = card (dom E)"

lemma tree_inv_cong:
  assumes "tree_inv t W F" "\<And>lk q. W' lk q = W lk q" "\<And>lk q. q \<noteq> [] \<Longrightarrow> F' lk q = F lk q"
  shows "tree_inv t W' F'"
  using assms by (simp add: tree_inv_def)

lemma F_of_other:
  "\<not> (lk' = lk \<and> prefix q c) \<Longrightarrow> F_of (E((c, lk) := x)) lk' q = F_of E lk' q"
  unfolding F_of_def by (rule Collect_cong) auto

lemma F_of_mono: "prefix q r \<Longrightarrow> F_of E lk r \<subseteq> F_of E lk q"
  by (auto simp: F_of_def intro: prefix_order.trans)

lemma walk_path_nth:
  "walk_path t 0 p lk = Some qs \<longleftrightarrow>
     length qs = length p \<and> (\<forall>i<length p. walk t 0 lk (take (Suc i) p) = Some (qs ! i))"
proof (induction p arbitrary: qs rule: rev_induct)
  case (snoc h p)
  show ?case
  proof (cases "length qs = Suc (length p)")
    case True
    then obtain rs c where qs: "qs = rs @ [c]" "length rs = length p"
      by (metis length_Suc_conv_rev)
    have "walk_path t 0 (p @ [h]) lk = Some qs \<longleftrightarrow>
        walk_path t 0 p lk = Some rs \<and> walk t 0 lk (p @ [h]) = Some c"
      using walk_path_walk [of t 0 p lk rs] by (auto simp: walk_path_snoc qs walk_snoc)
    also have "\<dots> \<longleftrightarrow> (\<forall>i<length p. walk t 0 lk (take (Suc i) p) = Some (rs ! i)) \<and>
        walk t 0 lk (p @ [h]) = Some c" using snoc qs(2) by simp
    also have "\<dots> \<longleftrightarrow> (\<forall>i<length (p @ [h]). walk t 0 lk (take (Suc i) (p @ [h])) = Some (qs ! i))"
      using qs by (auto simp: less_Suc_eq nth_append)
    finally show ?thesis using True by simp
  next
    case False
    then show ?thesis using walk_path_walk [of t 0 "p @ [h]" lk qs] by auto
  qed
qed auto

lemma walk_path_same:
  "walk_path t 0 p lk = Some qs \<Longrightarrow> (\<And>i. i < length p \<Longrightarrow>
     walk t' 0 lk (take (Suc i) p) = walk t 0 lk (take (Suc i) p)) \<Longrightarrow> walk_path t' 0 p lk = Some qs"
  by (simp add: walk_path_nth)

subsection \<open>Removing a key\<close>

lemma position_mem:
  assumes "(s, d) \<in> set es"
  shows "\<exists>pos. position (\<lambda>(s', d'). s' = s \<and> d' = d) es = Some pos \<and> pos < length es \<and> es ! pos = (s, d)"
proof (cases "position (\<lambda>(s', d'). s' = s \<and> d' = d) es")
  case None
  with assms show ?thesis by (auto simp: position_None_iff)
next
  case (Some pos)
  with position_SomeD [OF Some] show ?thesis by auto
qed

lemma F_of_remove:
  assumes "map_ok E" "E (c, lk) = Some s" "prefix q c"
  shows "F_of (E((c, lk) := None)) lk q = F_of E lk q - {(s, length c)}"
proof -
  have inj: "E (c', lk) = Some s \<Longrightarrow> (c', lk) = (c, lk)" for c'
    using assms(1,2) unfolding map_ok_def by blast
  have *: "c' = c \<and> s' = s \<or> c' \<noteq> c \<and> s' \<noteq> s" if "E (c', lk) = Some s'" for c' s'
  proof (cases "c' = c")
    case True
    with that assms(2) show ?thesis by simp
  next
    case False
    then have "s' \<noteq> s" using inj [of c'] that by blast
    with False show ?thesis by simp
  qed
  show ?thesis
  proof (intro set_eqI iffI)
    fix x
    assume "x \<in> F_of (E((c, lk) := None)) lk q"
    then obtain c' s' where "x = (s', length c')" "c' \<noteq> c" "E (c', lk) = Some s'" "prefix q c'"
      by (auto simp: F_of_def split: if_splits)
    with * [of c' s'] show "x \<in> F_of E lk q - {(s, length c)}" by (auto simp: F_of_def)
  next
    fix x
    assume "x \<in> F_of E lk q - {(s, length c)}"
    then obtain c' s' where x: "x = (s', length c')" "E (c', lk) = Some s'" "prefix q c'"
      "x \<noteq> (s, length c)" unfolding F_of_def by blast
    then have "c' \<noteq> c" using assms(2) by auto
    with x show "x \<in> F_of (E((c, lk) := None)) lk q" by (auto simp: F_of_def)
  qed
qed

lemma prefix_length_eq_same: "prefix xs zs \<Longrightarrow> prefix ys zs \<Longrightarrow> length xs = length ys \<Longrightarrow> xs = ys"
  by (auto simp: prefix_def append_eq_append_conv)

lemma unstamp_loop_inv:
  assumes ok: "map_ok E" and Ec: "E (c, lk) = Some s" and E': "E' = E((c, lk) := None)"
    and "prefix p c" "walk_path t 0 p lk = Some ps"
    "tree_inv t (\<lambda>lk' q. if length p < length q then W_of E' lk' q else W_of E lk' q)
       (\<lambda>lk' q. if length p < length q then F_of E' lk' q else F_of E lk' q)"
  shows "\<exists>t'. unstamp_loop s (length c) (rev (0 # ps)) al t fd = (t', fd \<or> al \<and> p \<noteq> []) \<and>
    tree_inv t' (W_of E') (F_of E') \<and> n_entries t' = n_entries t"
  using assms(4-)
proof (induction p arbitrary: t ps al fd rule: rev_induct)
  case Nil
  have "tree_inv t (W_of E') (F_of E')"
  proof (rule tree_inv_cong [OF Nil(3)])
    fix lk' q
    show "W_of E' lk' q =
        (if length [] < length q then W_of E' lk' q else W_of E lk' q)"
      by (cases q) (simp_all only: W_of_def list.size, simp_all)
  qed simp
  with Nil(2) show ?case by simp
next
  case (snoc h p)
  let ?q = "p @ [h]"
  from snoc.prems(2) obtain qs ch where ps: "ps = qs @ [ch]" and qs: "walk_path t 0 p lk = Some qs"
    and fc: "find_child t (last (0 # qs)) h lk = Some ch" by (auto simp: walk_path_snoc)
  note wp = walk_path_walk [OF qs]
  have wq: "walk t 0 lk ?q = Some ch" using wp fc by (simp add: walk_snoc)
  let ?es = "entries (nodes t ! ch)"
  have es: "distinct ?es" "set ?es = F_of E lk ?q"
    using tree_invD(3) [OF snoc.prems(3) _ wq] by auto
  have mem: "(s, length c) \<in> set ?es" using es(2) Ec snoc.prems(1) by (auto simp: F_of_def)
  obtain pos where pos: "position (\<lambda>(s', d'). s' = s \<and> d' = length c) ?es = Some pos"
    "pos < length ?es" "?es ! pos = (s, length c)"
    using position_mem [OF mem] by (elim exE conjE) (rule that)
  let ?f = "\<lambda>n :: radix_node. n\<lparr>entries := swap_remove (entries n) pos\<rparr>"
  let ?t1 = "upd_node ch ?f t"
  have Fq: "F_of E' lk ?q = F_of E lk ?q - {(s, length c)}"
    unfolding E' by (rule F_of_remove [OF ok Ec snoc.prems(1)])
  have sr: "set (swap_remove ?es pos) = F_of E' lk ?q" "distinct (swap_remove ?es pos)"
  proof -
    show "set (swap_remove ?es pos) = F_of E' lk ?q"
      unfolding set_swap_remove_distinct [OF pos(2) es(1)] es(2) pos(3) Fq ..
    show "distinct (swap_remove ?es pos)" using distinct_swap_remove [OF pos(2) es(1)] .
  qed
  note up = tree_inv_upd_entries [OF snoc.prems(3) wq, of ?f]
  have chlen: "ch < length (nodes t)" by (rule tree_inv_walk [OF snoc.prems(3) wq])
  have t1ch: "entries (nodes ?t1 ! ch) = swap_remove ?es pos"
    "children (nodes ?t1 ! ch) = children (nodes t ! ch)" using chlen by (simp_all add: nth_upd)
  have w1: "walk ?t1 m lk' r = walk t m lk' r" for m lk' r by (rule up(2)) (simp_all add: sr)
  have same: "F_of E lk' r = F_of E' lk' r" if "length r = length ?q" "\<not> (lk' = lk \<and> r = ?q)" for lk' r
  proof -
    have "\<not> (lk' = lk \<and> prefix r c)"
      using that prefix_length_eq_same [OF _ snoc.prems(1)] by blast
    from F_of_other [OF this, of E None] show ?thesis unfolding E' by (rule sym)
  qed
  have tinv1: "tree_inv ?t1 (\<lambda>lk' r. if length ?q < length r then W_of E' lk' r else W_of E lk' r)
      (\<lambda>lk' r. if length p < length r then F_of E' lk' r else F_of E lk' r)"
  proof (rule tree_inv_cong [OF up(1)])
    fix lk' and r :: chain
    assume "r \<noteq> []"
    show "(if length p < length r then F_of E' lk' r else F_of E lk' r) =
       ((\<lambda>lk' q. if length ?q < length q then F_of E' lk' q else F_of E lk' q)
         (lk := ((\<lambda>q. if length ?q < length q then F_of E' lk q else F_of E lk q)
            (?q := set (entries (?f (nodes t ! ch))))))) lk' r"
      using same [of r lk'] sr(1) by auto
  qed (simp_all add: sr)
  have dead: "children (nodes t ! ch) = []" if "F_of E' lk ?q = {}"
  proof (rule ccontr)
    assume "children (nodes t ! ch) \<noteq> []"
    then obtain d where d: "d \<in> set (children (nodes t ! ch))" by (cases "children (nodes t ! ch)") auto
    note st = tree_invD(1) [OF snoc.prems(3)]
    have "ch \<noteq> 0 \<and> node_layout_key (nodes t ! ch) = lk"
      using walk_bound [OF st root_bound [OF st] wq] by auto
    with child_bound [OF st chlen d] have "node_layout_key (nodes t ! d) = lk" by simp
    with find_child_Some [OF st chlen] d
    have "find_child t ch (block_hash (nodes t ! d)) lk = Some d" by blast
    with wq have "walk t 0 lk (?q @ [block_hash (nodes t ! d)]) \<noteq> None"
      by (simp add: walk_snoc del: append_assoc)
    with tree_invD(2) [OF snoc.prems(3)] have "W_of E' lk (?q @ [block_hash (nodes t ! d)])" by simp
    then have "F_of E' lk (?q @ [block_hash (nodes t ! d)]) \<noteq> {}" by (simp add: W_of_def)
    with F_of_mono [of ?q "?q @ [block_hash (nodes t ! d)]" E' lk] that show False by simp
  qed
  define t2 where "t2 = (if entries (nodes ?t1 ! ch) = [] \<and> children (nodes ?t1 ! ch) = []
      then upd_node (last (0 # qs)) (\<lambda>n. n\<lparr>children := filter (\<lambda>x. x \<noteq> ch) (children n)\<rparr>) ?t1 else ?t1)"
  have wp1: "walk ?t1 0 lk p = Some (last (0 # qs))" using wp w1 by simp
  have fc1: "find_child ?t1 (last (0 # qs)) h lk = Some ch"
    using w1 [of 0 lk ?q] wq wp1 by (simp add: walk_snoc)
  have emp: "entries (nodes ?t1 ! ch) = [] \<longleftrightarrow> F_of E' lk ?q = {}"
    using sr(1) t1ch by (metis set_empty)
  have stage: "tree_inv t2 (\<lambda>lk' r. if length p < length r then W_of E' lk' r else W_of E lk' r)
      (\<lambda>lk' r. if length p < length r then F_of E' lk' r else F_of E lk' r) \<and>
    (\<forall>i<length p. walk t2 0 lk (take (Suc i) p) = walk t 0 lk (take (Suc i) p))"
  proof (cases "F_of E' lk ?q = {}")
    case True
    then have t2: "t2 = upd_node (last (0 # qs)) (\<lambda>n. n\<lparr>children := filter (\<lambda>x. x \<noteq> ch) (children n)\<rparr>) ?t1"
      using emp dead t1ch by (simp add: t2_def)
    have "children (nodes ?t1 ! ch) = []" using dead [OF True] t1ch by simp
    note dt = tree_inv_detach [OF tinv1 wp1 fc1 this, folded t2]
    have "tree_inv t2 (\<lambda>lk' r. if length p < length r then W_of E' lk' r else W_of E lk' r)
      (\<lambda>lk' r. if length p < length r then F_of E' lk' r else F_of E lk' r)"
    proof (rule tree_inv_cong [OF dt(1)])
      fix lk' r
      have "W_of E lk' r = W_of E' lk' r" if "length r = Suc (length p)" "\<not> (lk' = lk \<and> r = ?q)"
        using same [of r lk'] that by (auto simp: W_of_def)
      moreover have "\<not> W_of E' lk ?q" using True by (simp add: W_of_def)
      ultimately show "(if length p < length r then W_of E' lk' r else W_of E lk' r) =
         ((if length ?q < length r then W_of E' lk' r else W_of E lk' r) \<and> \<not> (lk' = lk \<and> r = ?q))"
        by (cases "length r = Suc (length p)"; cases "lk' = lk \<and> r = ?q") auto
    qed simp
    moreover have "walk t2 0 lk (take (Suc i) p) = walk t 0 lk (take (Suc i) p)" if "i < length p" for i
      using dt(2) [of lk "take (Suc i) p"] w1 that by (auto dest: arg_cong [of _ _ length])
    ultimately show ?thesis by blast
  next
    case False
    then have t2: "t2 = ?t1" using emp by (simp add: t2_def)
    have "tree_inv t2 (\<lambda>lk' r. if length p < length r then W_of E' lk' r else W_of E lk' r)
      (\<lambda>lk' r. if length p < length r then F_of E' lk' r else F_of E lk' r)"
      unfolding t2
    proof (rule tree_inv_cong [OF tinv1])
      fix lk' r
      have "W_of E lk' r = W_of E' lk' r" if "length r = Suc (length p)" "\<not> (lk' = lk \<and> r = ?q)"
        using same [of r lk'] that by (auto simp: W_of_def)
      moreover have "W_of E' lk ?q" "W_of E lk ?q" using False Fq by (auto simp: W_of_def)
      ultimately show "(if length p < length r then W_of E' lk' r else W_of E lk' r) =
         (if length ?q < length r then W_of E' lk' r else W_of E lk' r)"
        by (cases "length r = Suc (length p)"; cases "lk' = lk \<and> r = ?q") auto
    qed simp
    then show ?thesis by (simp add: t2 w1)
  qed
  have ne: "rev (0 # qs) \<noteq> []" by simp
  have rq: "rev (0 # qs) = last (0 # qs) # tl (rev (0 # qs))"
    using list.collapse [OF ne, symmetric] unfolding hd_rev .
  have rp: "rev (0 # ps) = ch # rev (0 # qs)" by (simp add: ps)
  obtain pr rest where pr: "last (0 # qs) = pr" "rev (0 # qs) = pr # rest" using rq by metis
  have loop: "unstamp_loop s (length c) (rev (0 # ps)) al t fd =
      unstamp_loop s (length c) (rev (0 # qs)) False t2 (al \<or> fd)"
    unfolding rp pr t2_def by (simp add: pos(1) Let_def)
  have "walk_path t2 0 p lk = Some qs" using walk_path_same [OF qs] stage by blast
  moreover have "prefix p c" using snoc.prems(1) append_prefixD by blast
  ultimately obtain t' where "unstamp_loop s (length c) (rev (0 # qs)) False t2 (al \<or> fd) = (t', al \<or> fd)"
    "tree_inv t' (W_of E') (F_of E')" "n_entries t' = n_entries t2"
    using snoc.IH [of t2 qs False "al \<or> fd"] stage by auto
  moreover have "n_entries t2 = n_entries t" by (simp add: t2_def)
  ultimately show ?case using loop by auto
qed

lemma map_okD:
  assumes "map_ok E"
  shows "finite (dom E)" "E (c, lk) = Some s \<Longrightarrow> c \<noteq> [] \<and> length c < U32_MAX"
    "E k = Some s \<Longrightarrow> E k' = Some s \<Longrightarrow> k = k'"
  using assms unfolding map_ok_def by blast+

lemma map_ok_remove: "map_ok E \<Longrightarrow> map_ok (E(k := None))"
proof -
  assume ok: "map_ok E"
  have "c \<noteq> [] \<and> length c < U32_MAX" if "(c, lk) \<in> dom (E(k := None))" for c lk
    using that map_okD(2) [OF ok, of c lk] by (auto split: if_splits)
  moreover have "k1 = k2" if "(E(k := None)) k1 = Some s" "(E(k := None)) k2 = Some s" for k1 k2 s
    using that map_okD(3) [OF ok, of k1 s k2] by (auto split: if_splits)
  moreover have "finite (dom (E(k := None)))" using map_okD(1) [OF ok] by simp
  ultimately show ?thesis unfolding map_ok_def by blast
qed

lemma card_dom_remove: "finite (dom E) \<Longrightarrow> E k = Some s \<Longrightarrow> card (dom (E(k := None))) = card (dom E) - 1"
  by (simp add: card_Diff_singleton domI)

lemma unstamp_rep:
  assumes rep: "radix_rep t E" and Ec: "E (c, lk) = Some s" and w: "walk_path t 0 c lk = Some path"
  shows "radix_rep (unstamp s (length c) path t) (E((c, lk) := None))"
proof -
  from rep have ok: "map_ok E" and inv: "tree_inv t (W_of E) (F_of E)" and n: "n_entries t = card (dom E)"
    by (simp_all add: radix_rep_def)
  define E' where "E' = E((c, lk) := None)"
  have c: "c \<noteq> []" using map_okD(2) [OF ok Ec] by simp
  have F: "F_of E' lk' q = F_of E lk' q" if "length c < length q" for lk' q
  proof -
    have "\<not> (lk' = lk \<and> prefix q c)" using that by (auto dest: prefix_length_le)
    from F_of_other [OF this] show ?thesis by (simp only: E'_def)
  qed
  have W: "W_of E' lk' q = W_of E lk' q" if "length c < length q" for lk' q
    using F [OF that] by (simp add: W_of_def)
  have "tree_inv t (\<lambda>lk' q. if length c < length q then W_of E' lk' q else W_of E lk' q)
       (\<lambda>lk' q. if length c < length q then F_of E' lk' q else F_of E lk' q)"
    by (rule tree_inv_cong [OF inv]) (simp_all add: F W)
  from unstamp_loop_inv [OF ok Ec E'_def prefix_order.order_refl w this, of True False] c
  obtain t' where t': "unstamp_loop s (length c) (rev (0 # path)) True t False = (t', True)"
    "tree_inv t' (W_of E') (F_of E')" "n_entries t' = n_entries t" by auto
  have "unstamp s (length c) path t = t'\<lparr>n_entries := n_entries t' - 1\<rparr>"
    using t'(1) by (simp add: unstamp_def ROOT_def)
  moreover have "tree_inv (t'\<lparr>n_entries := m\<rparr>) W G = tree_inv t' W G" for m W G
  proof -
    have "find_child (t'\<lparr>n_entries := m\<rparr>) i h l = find_child t' i h l" for i h l
      by (simp add: find_child_def)
    then have "walk (t'\<lparr>n_entries := m\<rparr>) i l p = walk t' i l p" for i l p by (rule walk_cong)
    then show ?thesis by (simp add: tree_inv_def tree_struct_def)
  qed
  moreover have "n_entries t' - 1 = card (dom E')"
    using t'(3) n card_dom_remove [OF map_okD(1) [OF ok] Ec] by (simp add: E'_def)
  ultimately show ?thesis
    using t'(2) map_ok_remove [OF ok] by (simp add: radix_rep_def E'_def)
qed

lemma rep_node:
  assumes rep: "radix_rep t E" and w: "walk t 0 lk q = Some n" and q: "q \<noteq> []"
  shows "distinct (entries (nodes t ! n))" "set (entries (nodes t ! n)) = F_of E lk q"
  using tree_invD(3) [of t "W_of E" "F_of E", OF _ q w] rep by (simp_all add: radix_rep_def)

lemma rep_walk: "radix_rep t E \<Longrightarrow> walk t 0 lk q \<noteq> None \<longleftrightarrow> W_of E lk q"
  using tree_invD(2) [of t "W_of E" "F_of E" lk q] by (simp add: radix_rep_def)

lemma rep_key:
  assumes rep: "radix_rep t E" and c: "length c < U32_MAX" and ne: "c \<noteq> []"
  shows "E (c, lk) = Some s \<longleftrightarrow> (\<exists>path n. walk_path t 0 c lk = Some path \<and> n = last (0 # path) \<and>
    (s, leaf_depth c) \<in> set (entries (nodes t ! n)))"
proof
  assume E: "E (c, lk) = Some s"
  then have "(s, length c) \<in> F_of E lk c" by (auto simp: F_of_def)
  then have "W_of E lk c" by (auto simp: W_of_def)
  then obtain path where p: "walk_path t 0 c lk = Some path"
    using rep_walk [OF rep, of lk c] walk_path_None [of t 0 c lk] by auto
  from walk_path_walk [OF p] have w: "walk t 0 lk c = Some (last (0 # path))" by simp
  with rep_node(2) [OF rep w ne] \<open>(s, length c) \<in> F_of E lk c\<close> p c
  show "\<exists>path n. walk_path t 0 c lk = Some path \<and> n = last (0 # path) \<and>
    (s, leaf_depth c) \<in> set (entries (nodes t ! n))" by (auto simp: leaf_depth_def)
next
  assume "\<exists>path n. walk_path t 0 c lk = Some path \<and> n = last (0 # path) \<and>
    (s, leaf_depth c) \<in> set (entries (nodes t ! n))"
  then obtain path where p: "walk_path t 0 c lk = Some path"
    and m: "(s, leaf_depth c) \<in> set (entries (nodes t ! last (0 # path)))" by auto
  from walk_path_walk [OF p] have w: "walk t 0 lk c = Some (last (0 # path))" by simp
  from m rep_node(2) [OF rep w ne] c obtain c' where "E (c', lk) = Some s" "prefix c c'"
    "length c' = length c" by (auto simp: F_of_def leaf_depth_def)
  then show "E (c, lk) = Some s" using prefix_length_eq_same by blast
qed

lemma radix_remove_rep:
  assumes rep: "radix_rep t E" and c: "length c < U32_MAX"
  shows "radix_rep (radix_remove c lk t) (E((c, lk) := None))"
proof (cases "E (c, lk)")
  case None
  then have E: "E((c, lk) := None) = E" by auto
  have "radix_remove c lk t = t"
  proof (cases "c = []")
    case False
    have "List.find (\<lambda>(_, d). d = leaf_depth c) (entries (nodes t ! last (ROOT # path))) = None"
      if "walk_path t ROOT c lk = Some path" for path
      using rep_key [OF rep c False, of lk] None that
      by (auto simp: find_None_iff ROOT_def)
    then show ?thesis by (auto simp: radix_remove_def split: option.split)
  qed (simp add: radix_remove_def)
  with rep E show ?thesis by simp
next
  case (Some s)
  from rep have ok: "map_ok E" by (simp add: radix_rep_def)
  have ne: "c \<noteq> []" using map_okD(2) [OF ok Some] by simp
  from Some rep_key [OF rep c ne] obtain path where p: "walk_path t 0 c lk = Some path"
    and m: "(s, leaf_depth c) \<in> set (entries (nodes t ! last (0 # path)))" by auto
  have only: "s' = s" if "(s', leaf_depth c) \<in> set (entries (nodes t ! last (0 # path)))" for s'
    using rep_key [OF rep c ne, of lk s'] that p Some by auto
  obtain e where e: "List.find (\<lambda>(_, d). d = leaf_depth c) (entries (nodes t ! last (0 # path))) = Some e"
    using m by (cases "List.find (\<lambda>(_, d). d = leaf_depth c) (entries (nodes t ! last (0 # path)))")
      (auto simp: find_None_iff)
  then have "e \<in> set (entries (nodes t ! last (0 # path)))" "snd e = leaf_depth c"
    using find_Some_mem [OF e] by (auto simp: case_prod_unfold)
  with only have "e = (s, leaf_depth c)" by (cases e) auto
  with e ne p have "radix_remove c lk t = unstamp s (leaf_depth c) path t"
    by (simp add: radix_remove_def ROOT_def)
  with unstamp_rep [OF rep Some p] c show ?thesis by (simp add: leaf_depth_def)
qed

subsection \<open>Inserting a key\<close>

lemma make_path_inv:
  assumes "tree_inv t W F" "walk t 0 lk q = Some cur" "make_path t cur p lk = (t', ps)"
    "\<And>l r. \<not> W l r \<Longrightarrow> F l r = {}"
  shows "tree_inv t' (\<lambda>lk' r. W lk' r \<or> lk' = lk \<and> prefix q r \<and> prefix r (q @ p)) F \<and>
    length ps = length p \<and> n_entries t' = n_entries t \<and>
    (\<forall>l r m. walk t 0 l r = Some m \<longrightarrow> walk t' 0 l r = Some m) \<and>
    (\<forall>i<length p. walk t' 0 lk (q @ take (Suc i) p) = Some (ps ! i))"
  using assms
proof (induction p arbitrary: t q cur W ps)
  case Nil
  have "W lk q" using tree_invD(2) [OF Nil(1), of lk q] Nil(2) by simp
  then have "tree_inv t (\<lambda>lk' r. W lk' r \<or> lk' = lk \<and> prefix q r \<and> prefix r (q @ [])) F"
    by (intro tree_inv_cong [OF Nil(1)]) (auto dest: prefix_order.antisym)
  with Nil show ?case by simp
next
  case (Cons h p)
  obtain t1 c where t1: "(case find_child t cur h lk of Some c \<Rightarrow> (t, c) | None \<Rightarrow> add_child t cur h lk) = (t1, c)"
    by force
  from t1 Cons.prems(3) obtain qs where rest: "make_path t1 c p lk = (t', qs)" and ps: "ps = c # qs"
    by (auto split: prod.splits)
  let ?W = "\<lambda>lk' r. W lk' r \<or> lk' = lk \<and> r = q @ [h]"
  have step: "tree_inv t1 ?W F \<and> walk t1 0 lk (q @ [h]) = Some c \<and> n_entries t1 = n_entries t \<and>
      (\<forall>l r m. walk t 0 l r = Some m \<longrightarrow> walk t1 0 l r = Some m)"
  proof (cases "find_child t cur h lk")
    case None
    have "walk t 0 lk (q @ [h]) = None" using None Cons.prems(2) by (simp add: walk_snoc)
    then have "F lk (q @ [h]) = {}"
      using Cons.prems(4) [of lk "q @ [h]"] tree_invD(2) [OF Cons.prems(1), of lk "q @ [h]"] by simp
    from tree_inv_add_child [OF Cons.prems(1,2) None this] t1 None show ?thesis by auto
  next
    case (Some c')
    with t1 have eq: "t1 = t" "c' = c" by auto
    then have w: "walk t 0 lk (q @ [h]) = Some c" using Some Cons.prems(2) by (simp add: walk_snoc)
    then have "W lk (q @ [h])" using tree_invD(2) [OF Cons.prems(1), of lk "q @ [h]"] by simp
    then have "tree_inv t ?W F" by (intro tree_inv_cong [OF Cons.prems(1)]) auto
    with w eq show ?thesis by simp
  qed
  have F: "\<not> ?W l r \<Longrightarrow> F l r = {}" for l r using Cons.prems(4) by blast
  from Cons.IH [OF conjunct1 [OF step] _ rest F] step
  have ih: "tree_inv t' (\<lambda>lk' r. ?W lk' r \<or> lk' = lk \<and> prefix (q @ [h]) r \<and> prefix r ((q @ [h]) @ p)) F"
    "length qs = length p" "n_entries t' = n_entries t1"
    "\<forall>l r m. walk t1 0 l r = Some m \<longrightarrow> walk t' 0 l r = Some m"
    "\<forall>i<length p. walk t' 0 lk ((q @ [h]) @ take (Suc i) p) = Some (qs ! i)" by blast+
  have "W lk q" using tree_invD(2) [OF Cons.prems(1), of lk q] Cons.prems(2) by simp
  have eq: "prefix q r \<and> prefix r (q @ h # p) \<longleftrightarrow>
      r = q \<or> prefix (q @ [h]) r \<and> prefix r ((q @ [h]) @ p)" for r
    by (auto simp: prefix_def append_eq_append_conv2 append_eq_Cons_conv Cons_eq_append_conv)
  have "tree_inv t' (\<lambda>lk' r. W lk' r \<or> lk' = lk \<and> prefix q r \<and> prefix r (q @ h # p)) F"
    by (rule tree_inv_cong [OF ih(1)]) (use \<open>W lk q\<close> in \<open>auto simp: eq\<close>)
  moreover have "walk t' 0 lk (q @ take (Suc i) (h # p)) = Some (ps ! i)" if "i < length (h # p)" for i
  proof (cases i)
    case 0
    then show ?thesis using step ih(4) ps by simp
  next
    case (Suc j)
    then show ?thesis using ih(5) that ps by simp
  qed
  ultimately show ?case using ih step ps by simp
qed

lemma stamp_fresh:
  assumes "tree_inv t W F" "length ns = length p" "\<forall>i<length p. walk t 0 lk (q @ take (Suc i) p) = Some (ns ! i)"
    "\<forall>i<length p. \<forall>d'. (s, d') \<notin> F lk (q @ take (Suc i) p)"
  shows "\<exists>t'. stamp_loop s d ns t fi = (t', fi) \<and> n_entries t' = n_entries t \<and>
    tree_inv t' W (\<lambda>lk' r. if lk' = lk \<and> (\<exists>i<length p. r = q @ take (Suc i) p)
       then insert (s, d) (F lk' r) else F lk' r)"
  using assms
proof (induction p arbitrary: t q ns F)
  case Nil
  then show ?case by simp
next
  case (Cons h p)
  then obtain n ns' where ns: "ns = n # ns'" "length ns' = length p" by (cases ns) auto
  have w: "walk t 0 lk (q @ [h]) = Some n" using Cons.prems(3) ns by force
  note nd = tree_invD(3) [OF Cons.prems(1) _ w]
  have notin: "(s, d') \<notin> set (entries (nodes t ! n))" for d'
    using nd Cons.prems(4) by force
  then have pos: "position (\<lambda>(s', _). s' = s) (entries (nodes t ! n)) = None"
    by (auto simp: position_None_iff)
  let ?f = "\<lambda>x :: radix_node. x\<lparr>entries := entries x @ [(s, d)]\<rparr>"
  have dist: "distinct (entries (?f (nodes t ! n)))" using nd notin by simp
  note up = tree_inv_upd_entries [where f = ?f, OF Cons.prems(1) w]
  let ?F = "F(lk := (F lk)(q @ [h] := insert (s, d) (F lk (q @ [h]))))"
  have inv1: "tree_inv (upd_node n ?f t) W ?F"
    by (rule tree_inv_cong [OF up(1)]) (use nd dist in simp_all)
  have w1: "walk (upd_node n ?f t) 0 lk r = walk t 0 lk r" for r by (rule up(2)) (use dist in simp_all)
  have neq: "(q @ [h]) @ take (Suc i) p \<noteq> q @ [h]" if "i < length p" for i
    using that by (cases p) auto
  have a: "\<forall>i<length p. walk (upd_node n ?f t) 0 lk ((q @ [h]) @ take (Suc i) p) = Some (ns' ! i)"
    using Cons.prems(3) ns by (auto simp: w1)
  have b: "\<forall>i<length p. \<forall>d'. (s, d') \<notin> ?F lk ((q @ [h]) @ take (Suc i) p)"
    using Cons.prems(4) neq by auto
  from Cons.IH [OF inv1 ns(2) a b] obtain t' where t':
    "stamp_loop s d ns' (upd_node n ?f t) fi = (t', fi)" "n_entries t' = n_entries t"
    "tree_inv t' W (\<lambda>lk' r. if lk' = lk \<and> (\<exists>i<length p. r = (q @ [h]) @ take (Suc i) p)
       then insert (s, d) (?F lk' r) else ?F lk' r)" by auto
  have "tree_inv t' W (\<lambda>lk' r. if lk' = lk \<and> (\<exists>i<length (h # p). r = q @ take (Suc i) (h # p))
       then insert (s, d) (F lk' r) else F lk' r)"
  proof (rule tree_inv_cong [OF t'(3)])
    fix lk' and r :: chain
    have "(\<exists>i<length (h # p). r = q @ take (Suc i) (h # p)) \<longleftrightarrow>
        r = q @ [h] \<or> (\<exists>i<length p. r = (q @ [h]) @ take (Suc i) p)"
      by (auto simp: less_Suc_eq_0_disj)
    then show "(if lk' = lk \<and> (\<exists>i<length (h # p). r = q @ take (Suc i) (h # p))
         then insert (s, d) (F lk' r) else F lk' r) =
        (if lk' = lk \<and> (\<exists>i<length p. r = (q @ [h]) @ take (Suc i) p)
         then insert (s, d) (?F lk' r) else ?F lk' r)" by auto
  qed simp
  with t' ns pos show ?case by simp
qed

lemma stamp_same:
  assumes "tree_inv t W F" "length ns = length p" "\<forall>i<length p. walk t 0 lk (q @ take (Suc i) p) = Some (ns ! i)"
    "\<forall>i<length p. \<forall>d'. (s, d') \<in> F lk (q @ take (Suc i) p) \<longleftrightarrow> d' = d"
  shows "\<exists>t'. stamp_loop s d ns t fi = (t', fi \<and> p = []) \<and> n_entries t' = n_entries t \<and> tree_inv t' W F"
  using assms
proof (induction p arbitrary: t q ns fi)
  case Nil
  then show ?case by simp
next
  case (Cons h p)
  then obtain n ns' where ns: "ns = n # ns'" "length ns' = length p" by (cases ns) auto
  have w: "walk t 0 lk (q @ [h]) = Some n" using Cons.prems(3) ns by force
  note nd = tree_invD(3) [OF Cons.prems(1) _ w]
  let ?es = "entries (nodes t ! n)"
  have mem: "(s, d') \<in> set ?es \<longleftrightarrow> d' = d" for d'
    using nd Cons.prems(4) by force
  then obtain pos where pos: "position (\<lambda>(s', _). s' = s) ?es = Some pos"
    by (cases "position (\<lambda>(s', _). s' = s) ?es") (auto simp: position_None_iff)
  from position_SomeD [OF pos] have lt: "pos < length ?es" "fst (?es ! pos) = s"
    by (auto simp: case_prod_unfold)
  with mem [of "snd (?es ! pos)"] have at: "?es ! pos = (s, d)"
    by (metis nth_mem prod.collapse)
  let ?f = "\<lambda>x :: radix_node. x\<lparr>entries := (entries x)[pos := (fst (entries x ! pos), d)]\<rparr>"
  have same: "entries (?f (nodes t ! n)) = ?es" using at lt by simp (metis list_update_id)
  have dist: "distinct (entries (?f (nodes t ! n)))" using nd unfolding same by simp
  note up = tree_inv_upd_entries [where f = ?f, OF Cons.prems(1) w]
  have inv1: "tree_inv (upd_node n ?f t) W F"
    
  proof (rule tree_inv_cong [OF up(1)])
    show "distinct (entries (?f (nodes t ! n)))" by (rule dist)
    show "F lk' r = (F(lk := (F lk)(q @ [h] := set (entries (?f (nodes t ! n)))))) lk' r" for lk' r
      using nd unfolding same by auto
  qed simp_all
  have w1: "walk (upd_node n ?f t) 0 lk r = walk t 0 lk r" for r 
  proof (rule up(2))
    show "distinct (entries (?f (nodes t ! n)))" by (rule dist)
  qed simp_all
  have a: "\<forall>i<length p. walk (upd_node n ?f t) 0 lk ((q @ [h]) @ take (Suc i) p) = Some (ns' ! i)"
    using Cons.prems(3) ns by (auto simp: w1)
  have b: "\<forall>i<length p. \<forall>d'. (s, d') \<in> F lk ((q @ [h]) @ take (Suc i) p) \<longleftrightarrow> d' = d"
    using Cons.prems(4) by auto
  from Cons.IH [OF inv1 ns(2) a b, of False] ns pos show ?case by simp
qed

lemma distinct_singleton: "distinct xs \<Longrightarrow> set xs = {x} \<Longrightarrow> xs = [x]"
  by (metis distinct.simps(2) insert_not_empty list.exhaust list.set(1) list.set(2) set_ConsD
      singletonI subset_singletonD set_subset_Cons list.set_intros(1) singletonD)

lemma existing_slots_eq:
  assumes rep: "radix_rep t E" and c: "c \<noteq> []" "length c < U32_MAX"
  shows "existing_slots t c lk slot =
    (case E (c, lk) of None \<Rightarrow> [] | Some s \<Rightarrow> if s = slot then [] else [s])"
proof (cases "walk_path t 0 c lk")
  case None
  then have "E (c, lk) = None" using rep_key [OF rep c(2,1), of lk] by (cases "E (c, lk)") auto
  with None show ?thesis by (simp add: existing_slots_def ROOT_def)
next
  case (Some path)
  from walk_path_walk [OF Some] have w: "walk t 0 lk c = Some (last (0 # path))" by simp
  note nd = rep_node [OF rep w c(1)]
  let ?es = "entries (nodes t ! last (0 # path))"
  let ?xs = "filter (\<lambda>(s, d). d = leaf_depth c \<and> s \<noteq> slot) ?es"
  have key: "E (c, lk) = Some s \<longleftrightarrow> (s, leaf_depth c) \<in> set ?es" for s
    using rep_key [OF rep c(2,1), of lk s] Some by auto
  have ex: "existing_slots t c lk slot = map fst ?xs" using Some by (simp add: existing_slots_def ROOT_def)
  have d: "distinct ?xs" using nd(1) by (rule distinct_filter)
  have s: "set ?xs = {(s, leaf_depth c) | s. E (c, lk) = Some s \<and> s \<noteq> slot}" using key by auto
  show ?thesis
  proof (cases "E (c, lk)")
    case None
    then have "set ?xs = {}" using s by simp
    then have "?xs = []" by (simp only: set_empty)
    with None ex show ?thesis by (simp only: list.map option.case)
  next
    case (Some s0)
    show ?thesis
    proof (cases "s0 = slot")
      case True
      then have "set ?xs = {}" using s Some by auto
      then have "?xs = []" by (simp only: set_empty)
      then show ?thesis unfolding ex using Some True by simp
    next
      case False
      then have "set ?xs = {(s0, leaf_depth c)}" using s Some by auto
      from distinct_singleton [OF d this] show ?thesis unfolding ex using Some False by simp
    qed
  qed
qed

lemma tree_inv_count [simp]: "tree_inv (t\<lparr>n_entries := m\<rparr>) W G = tree_inv t W G"
proof -
  have "find_child (t\<lparr>n_entries := m\<rparr>) i h l = find_child t i h l" for i h l
    by (simp add: find_child_def)
  then have "walk (t\<lparr>n_entries := m\<rparr>) i l p = walk t i l p" for i l p by (rule walk_cong)
  then show ?thesis by (simp add: tree_inv_def tree_struct_def)
qed

text \<open>The second half of \<^verbatim>\<open>insert\<close>: walk or create the path, then stamp it.\<close>

definition stamp_path :: "chain \<Rightarrow> u64 \<Rightarrow> u64 \<Rightarrow> radix_tree \<Rightarrow> radix_tree" where
  "stamp_path chained lk slot t1 =
     (let (t2, path_nodes) = make_path t1 ROOT chained lk;
          (t3, first_insert) = stamp_loop slot (leaf_depth chained) path_nodes t2 True
      in if first_insert then t3\<lparr>n_entries := n_entries t3 + 1\<rparr> else t3)"

lemma radix_insert_alt:
  "radix_insert c lk s t = (if c = [] then t
     else stamp_path c lk s (fold (evict_slot_path c lk (leaf_depth c)) (existing_slots t c lk s) t))"
  by (simp add: radix_insert_def stamp_path_def Let_def)

lemma map_ok_insert:
  assumes ok: "map_ok E" and c: "c \<noteq> []" and fr: "index_fresh E c lk s"
  shows "map_ok (E((c, lk) \<mapsto> s))"
proof -
  have "c' \<noteq> [] \<and> length c' < U32_MAX" if "(c', lk') \<in> dom (E((c, lk) \<mapsto> s))" for c' lk'
    using that map_okD(2) [OF ok, of c' lk'] c fr by (auto simp: index_fresh_def split: if_splits)
  moreover have "k1 = k2" if "(E((c, lk) \<mapsto> s)) k1 = Some s'" "(E((c, lk) \<mapsto> s)) k2 = Some s'" for k1 k2 s'
  proof -
    have f: "E k = Some s \<Longrightarrow> k = (c, lk)" for k using fr unfolding index_fresh_def by blast
    show ?thesis
    proof (cases "s' = s")
      case True
      have "k = (c, lk)" if k: "(E((c, lk) \<mapsto> s)) k = Some s'" for k
      proof (rule ccontr)
        assume "k \<noteq> (c, lk)"
        with k True have "E k = Some s" by simp
        with f [OF this] \<open>k \<noteq> (c, lk)\<close> show False by simp
      qed
      with that show ?thesis by metis
    next
      case False
      have "E k = Some s'" if k: "(E((c, lk) \<mapsto> s)) k = Some s'" for k
        using k False by (cases "k = (c, lk)") simp_all
      with that have "E k1 = Some s'" "E k2 = Some s'" by blast+
      then show ?thesis by (rule map_okD(3) [OF ok])
    qed
  qed
  moreover have "finite (dom (E((c, lk) \<mapsto> s)))" using map_okD(1) [OF ok] by simp
  ultimately show ?thesis unfolding map_ok_def by blast
qed

lemma stamp_path_rep:
  assumes rep: "radix_rep t E" and c: "c \<noteq> []" and fr: "index_fresh E c lk s"
    and E: "E (c, lk) = None \<or> E (c, lk) = Some s"
  shows "radix_rep (stamp_path c lk s t) (E((c, lk) \<mapsto> s))"
proof -
  from rep have ok: "map_ok E" and inv: "tree_inv t (W_of E) (F_of E)" and n: "n_entries t = card (dom E)"
    by (simp_all add: radix_rep_def)
  have len: "length c < U32_MAX" using fr by (simp add: index_fresh_def)
  define E' where "E' = E((c, lk) \<mapsto> s)"
  have ok': "map_ok E'" unfolding E'_def by (rule map_ok_insert [OF ok c fr])
  obtain t2 ps where mp: "make_path t 0 c lk = (t2, ps)" by force
  have F0: "\<not> W_of E l r \<Longrightarrow> F_of E l r = {}" for l r by (simp add: W_of_def)
  have w0: "walk t 0 lk [] = Some 0" by simp
  from make_path_inv [OF inv w0 mp F0]
  have m: "tree_inv t2 (\<lambda>lk' r. W_of E lk' r \<or> lk' = lk \<and> prefix r c) (F_of E)" "length ps = length c"
    "n_entries t2 = n_entries t" "\<forall>i<length c. walk t2 0 lk ([] @ take (Suc i) c) = Some (ps ! i)" by simp_all
  have slot: "E (c', lk') = Some s \<Longrightarrow> (c', lk') = (c, lk)" for c' lk'
    using fr unfolding index_fresh_def by blast
  have Wdist: "W_of E' lk' r \<longleftrightarrow> W_of E lk' r \<or> lk' = lk \<and> prefix r c" for lk' r
  proof (cases "lk' = lk \<and> prefix r c")
    case True
    then have "(s, length c) \<in> F_of E' lk' r" by (auto simp: F_of_def E'_def)
    with True show ?thesis by (auto simp: W_of_def)
  next
    case False
    from F_of_other [OF this, of E "Some s"] False show ?thesis unfolding W_of_def E'_def by blast
  qed
  have Fdist: "F_of E' lk' r = (if lk' = lk \<and> prefix r c then insert (s, length c) (F_of E lk' r) else F_of E lk' r)"
    for lk' r
  proof (cases "lk' = lk \<and> prefix r c")
    case True
    show ?thesis
    proof (intro set_eqI iffI)
      fix x
      assume "x \<in> F_of E' lk' r"
      then obtain c' s' where x: "x = (s', length c')" "E' (c', lk') = Some s'" "prefix r c'"
        unfolding F_of_def by blast
      then show "x \<in> (if lk' = lk \<and> prefix r c then insert (s, length c) (F_of E lk' r) else F_of E lk' r)"
        using True by (cases "c' = c") (auto simp: E'_def F_of_def)
    next
      fix x
      assume "x \<in> (if lk' = lk \<and> prefix r c then insert (s, length c) (F_of E lk' r) else F_of E lk' r)"
      then have "x = (s, length c) \<or> x \<in> F_of E lk' r" using True by simp
      then show "x \<in> F_of E' lk' r"
      proof
        assume "x \<in> F_of E lk' r"
        then obtain c' s' where x: "x = (s', length c')" "E (c', lk') = Some s'" "prefix r c'"
          unfolding F_of_def by blast
        then have "E' (c', lk') = Some s'" using E by (cases "c' = c \<and> lk' = lk") (auto simp: E'_def)
        with x show ?thesis unfolding F_of_def by blast
      qed (use True in \<open>auto simp: F_of_def E'_def\<close>)
    qed
  next
    case False
    from F_of_other [OF this, of E "Some s"] False show ?thesis unfolding E'_def by auto
  qed
  have pre: "(\<exists>i<length c. r = [] @ take (Suc i) c) \<longleftrightarrow> r \<noteq> [] \<and> prefix r c" for r
  proof
    assume "\<exists>i<length c. r = [] @ take (Suc i) c"
    then show "r \<noteq> [] \<and> prefix r c" using c by (auto simp: take_is_prefix)
  next
    assume r: "r \<noteq> [] \<and> prefix r c"
    then have "r = take (length r) c" "length r \<le> length c" "0 < length r"
      by (auto simp: prefix_def)
    then have "Suc (length r - 1) = length r" "length r - 1 < length c" by linarith+
    with \<open>r = take (length r) c\<close> have "length r - 1 < length c \<and> r = [] @ take (Suc (length r - 1)) c"
      by (simp only: append_Nil simp_thms)
    then show "\<exists>i<length c. r = [] @ take (Suc i) c" by blast
  qed
  show ?thesis
  proof (cases "E (c, lk)")
    case None
    have "(s, d') \<notin> F_of E lk ([] @ take (Suc i) c)" for i d'
    proof
      assume "(s, d') \<in> F_of E lk ([] @ take (Suc i) c)"
      then obtain c' where "E (c', lk) = Some s" by (auto simp: F_of_def)
      with slot [OF this] None show False by simp
    qed
    then have a: "\<forall>i<length c. \<forall>d'. (s, d') \<notin> F_of E lk ([] @ take (Suc i) c)" by blast
    from stamp_fresh [OF m(1,2,4) a, of "length c" True] obtain t3 where
      t3: "stamp_loop s (length c) ps t2 True = (t3, True)" "n_entries t3 = n_entries t2"
      and i3: "tree_inv t3 (\<lambda>lk' r. W_of E lk' r \<or> lk' = lk \<and> prefix r c)
        (\<lambda>lk' r. if lk' = lk \<and> (\<exists>i<length c. r = [] @ take (Suc i) c)
          then insert (s, length c) (F_of E lk' r) else F_of E lk' r)" by blast
    have "tree_inv t3 (W_of E') (F_of E')"
      by (rule tree_inv_cong [OF i3]) (simp_all only: Wdist Fdist pre, simp_all)
    moreover have "card (dom E') = Suc (card (dom E))"
      using None map_okD(1) [OF ok] by (simp add: E'_def domIff)
    ultimately show ?thesis using t3 m(3) n ok' len mp
      by (simp add: stamp_path_def ROOT_def leaf_depth_def radix_rep_def E'_def)
  next
    case (Some s')
    with E have Es: "E (c, lk) = Some s" by simp
    have "(s, d') \<in> F_of E lk ([] @ take (Suc i) c) \<longleftrightarrow> d' = length c" for i d'
    proof
      assume "(s, d') \<in> F_of E lk ([] @ take (Suc i) c)"
      then obtain c' where "E (c', lk) = Some s" "d' = length c'" by (auto simp: F_of_def)
      with slot [OF this(1)] show "d' = length c" by simp
    next
      assume "d' = length c"
      with Es show "(s, d') \<in> F_of E lk ([] @ take (Suc i) c)" by (auto simp: F_of_def take_is_prefix)
    qed
    then have a: "\<forall>i<length c. \<forall>d'. (s, d') \<in> F_of E lk ([] @ take (Suc i) c) \<longleftrightarrow> d' = length c" by blast
    from stamp_same [OF m(1,2,4) a, of True] c obtain t3 where
      t3: "stamp_loop s (length c) ps t2 True = (t3, False)" "n_entries t3 = n_entries t2"
      and i3: "tree_inv t3 (\<lambda>lk' r. W_of E lk' r \<or> lk' = lk \<and> prefix r c) (F_of E)" by auto
    have EE: "E' = E" using Es by (auto simp: E'_def)
    have "tree_inv t3 (W_of E') (F_of E')"
      by (rule tree_inv_cong [OF i3]) (simp_all only: Wdist EE, simp_all only: Wdist [unfolded EE, symmetric])
    then show ?thesis using t3 m(3) n ok' len mp EE
      by (simp add: stamp_path_def ROOT_def leaf_depth_def radix_rep_def E'_def)
  qed
qed

lemma radix_insert_rep:
  assumes rep: "radix_rep t E" and c: "c \<noteq> []" and fr: "index_fresh E c lk s"
  shows "radix_rep (radix_insert c lk s t) (E((c, lk) \<mapsto> s))"
proof -
  have len: "length c < U32_MAX" using fr by (simp add: index_fresh_def)
  note ex = existing_slots_eq [OF rep c len, of lk s]
  show ?thesis
  proof (cases "E (c, lk) = None \<or> E (c, lk) = Some s")
    case True
    then have "existing_slots t c lk s = []" using ex by auto
    with stamp_path_rep [OF rep c fr True] c show ?thesis by (simp add: radix_insert_alt)
  next
    case False
    then obtain s0 where s0: "E (c, lk) = Some s0" "s0 \<noteq> s" by auto
    then have el: "existing_slots t c lk s = [s0]" using ex by simp
    from rep_key [OF rep len c, of lk s0] s0 obtain path where p: "walk_path t 0 c lk = Some path" by auto
    let ?E = "E((c, lk) := None)"
    have "radix_rep (evict_slot_path c lk (leaf_depth c) s0 t) ?E"
      using unstamp_rep [OF rep s0(1) p] p len by (simp add: evict_slot_path_def ROOT_def leaf_depth_def)
    moreover have "index_fresh ?E c lk s" using fr by (simp add: index_fresh_def)
    moreover have "?E (c, lk) = None" by simp
    ultimately have "radix_rep (stamp_path c lk s (evict_slot_path c lk (leaf_depth c) s0 t)) (?E((c, lk) \<mapsto> s))"
      using stamp_path_rep c by blast
    then show ?thesis using c by (simp add: radix_insert_alt el)
  qed
qed

subsection \<open>Looking up a prompt\<close>

lemma max_by_depth_None: "max_by_depth es b = None \<longleftrightarrow> es = [] \<and> b = None"
  by (induction es arbitrary: b) (auto split: option.splits)

lemma max_by_depth_mem: "max_by_depth es b = Some e \<Longrightarrow> e \<in> set es \<or> b = Some e"
  by (induction es arbitrary: b) (fastforce split: option.splits if_splits)+

lemma best_entry_facts:
  "best_entry n = None \<longleftrightarrow> entries n = []"
  "best_entry n = Some e \<Longrightarrow> e \<in> set (entries n)"
  using max_by_depth_mem [of "entries n" None e] by (auto simp: best_entry_def max_by_depth_None)

text \<open>
  The loop from a node reached by \<open>q\<close>: it stops at the longest walkable prefix of
  \<open>q @ p\<close> and reports the best entry there.
\<close>

lemma radix_match_loop_rep:
  assumes rep: "radix_rep t E"
  shows "walk t 0 lk q = Some cur \<Longrightarrow> best = None \<and> q = [] \<or>
      (\<exists>s d. best = Some (s, length q) \<and> (s, d) \<in> F_of E lk q) \<and> q \<noteq> [] \<Longrightarrow>
    (\<exists>k\<le>length p. W_of E lk (q @ take k p) \<and>
      (k < length p \<longrightarrow> \<not> W_of E lk (q @ take (Suc k) p)) \<and>
      (if q @ take k p = [] then radix_match_loop t cur (length q) p lk best = None
       else \<exists>s d. radix_match_loop t cur (length q) p lk best = Some (s, length q + k) \<and>
         (s, d) \<in> F_of E lk (q @ take k p)))"
proof (induction p arbitrary: q cur best)
  case Nil
  have "W_of E lk q" using rep_walk [OF rep, of lk q] Nil(1) by simp
  with Nil(2) show ?case by auto
next
  case (Cons h p)
  have Wq: "W_of E lk q" using rep_walk [OF rep, of lk q] Cons.prems(1) by simp
  show ?case
  proof (cases "find_child t cur h lk")
    case None
    then have "walk t 0 lk (q @ [h]) = None" using Cons.prems(1) by (simp add: walk_snoc)
    then have "\<not> W_of E lk (q @ [h])" using rep_walk [OF rep, of lk "q @ [h]"] by simp
    with Wq None Cons.prems(2) show ?thesis by (intro exI [of _ 0]) auto
  next
    case (Some c)
    then have w: "walk t 0 lk (q @ [h]) = Some c" using Cons.prems(1) by (simp add: walk_snoc)
    then have "W_of E lk (q @ [h])" using rep_walk [OF rep, of lk "q @ [h]"] by simp
    then have ne: "F_of E lk (q @ [h]) \<noteq> {}" by (simp add: W_of_def)
    have es: "set (entries (nodes t ! c)) = F_of E lk (q @ [h])" using rep_node(2) [OF rep w] by simp
    with ne have "entries (nodes t ! c) \<noteq> []" by auto
    then obtain s d where b: "best_entry (nodes t ! c) = Some (s, d)"
      using best_entry_facts(1) [of "nodes t ! c"] by (cases "best_entry (nodes t ! c)") auto
    then have mem: "(s, d) \<in> F_of E lk (q @ [h])" using best_entry_facts(2) es by blast
    from Cons.IH [OF w, of "Some (s, length q + 1)"] mem obtain k where
      k: "k \<le> length p" "W_of E lk ((q @ [h]) @ take k p)"
      "k < length p \<longrightarrow> \<not> W_of E lk ((q @ [h]) @ take (Suc k) p)"
      "\<exists>s' d'. radix_match_loop t c (length (q @ [h])) p lk (Some (s, length q + 1)) =
         Some (s', length (q @ [h]) + k) \<and> (s', d') \<in> F_of E lk ((q @ [h]) @ take k p)"
      by (auto split: if_splits)
    then show ?thesis using Some b by (intro exI [of _ "Suc k"]) simp
  qed
qed

lemma prefix_take_leading:
  "k \<le> length p \<Longrightarrow> prefix (take k p) c \<longleftrightarrow> k \<le> leading_matches p c"
proof
  assume k: "k \<le> length p" and pr: "prefix (take k p) c"
  then have "k \<le> length c" using prefix_length_le by fastforce
  moreover have "take k p = take k c"
    using pr k by (auto simp: prefix_def)
  ultimately show "k \<le> leading_matches p c" using k by (simp add: leading_matches_ge_iff)
next
  assume "k \<le> length p" "k \<le> leading_matches p c"
  then have "take k p = take k c" by (simp add: leading_matches_ge_iff)
  then show "prefix (take k p) c" by (simp add: take_is_prefix)
qed

lemma W_of_take:
  assumes "k \<le> length p" "0 < k"
  shows "W_of E lk (take k p) \<longleftrightarrow> (\<exists>n\<in>shared E p lk. k \<le> n)"
proof -
  have "take k p \<noteq> []" using assms by auto
  then have "W_of E lk (take k p) \<longleftrightarrow> (\<exists>c s. E (c, lk) = Some s \<and> prefix (take k p) c)"
    by (auto simp: W_of_def F_of_def)
  also have "\<dots> \<longleftrightarrow> (\<exists>c s. E (c, lk) = Some s \<and> k \<le> leading_matches p c)"
    using prefix_take_leading [OF assms(1)] by simp
  finally show ?thesis by (auto simp: shared_def)
qed

lemma radix_match_rep:
  assumes rep: "radix_rep t E"
  shows "radix_match_best p lk t = None \<longleftrightarrow> shared E p lk \<subseteq> {0}"
    and "radix_match_best p lk t = Some (s, d) \<Longrightarrow>
      0 < d \<and> (\<exists>c. E (c, lk) = Some s \<and> leading_matches p c = d) \<and> (\<forall>n\<in>shared E p lk. n \<le> d)"
proof -
  have le: "n \<le> length p" if "n \<in> shared E p lk" for n
    using that leading_matches_le by (auto simp: shared_def)
  have w0: "walk t 0 lk [] = Some 0" by simp
  have "\<exists>k\<le>length p. W_of E lk (take k p) \<and> (k < length p \<longrightarrow> \<not> W_of E lk (take (Suc k) p)) \<and>
      (if take k p = [] then radix_match_loop t 0 0 p lk None = None
       else \<exists>s d. radix_match_loop t 0 0 p lk None = Some (s, k) \<and> (s, d) \<in> F_of E lk (take k p))"
    using radix_match_loop_rep [OF rep w0, of None p]
    by (simp only: append_Nil list.size add_0_left simp_thms)
  then obtain k where
    k: "k \<le> length p" "W_of E lk (take k p)" "k < length p \<longrightarrow> \<not> W_of E lk (take (Suc k) p)" and
    r: "if take k p = [] then radix_match_loop t 0 0 p lk None = None
       else \<exists>s d. radix_match_loop t 0 0 p lk None = Some (s, k) \<and> (s, d) \<in> F_of E lk (take k p)"
    by blast
  have ub: "n \<le> k" if "n \<in> shared E p lk" for n
  proof (rule ccontr)
    assume "\<not> n \<le> k"
    then have lt: "k < n" by simp
    then have "k < length p" using le [OF that] by simp
    moreover have "W_of E lk (take (Suc k) p)"
    proof (rule W_of_take [THEN iffD2])
      show "\<exists>n\<in>shared E p lk. Suc k \<le> n" using lt that by (intro bexI [of _ n]) simp_all
    qed (use \<open>k < length p\<close> in simp_all)
    ultimately show False using k(3) by blast
  qed
  have mb: "radix_match_best p lk t = radix_match_loop t 0 0 p lk None"
    by (simp add: radix_match_best_def ROOT_def)
  show "radix_match_best p lk t = None \<longleftrightarrow> shared E p lk \<subseteq> {0}"
  proof (cases "take k p = []")
    case True
    then have "k = 0 \<or> p = []" by auto
    then have "n = 0" if "n \<in> shared E p lk" for n using ub [OF that] le [OF that] by auto
    then show ?thesis using r True mb by auto
  next
    case False
    then have "0 < k" by (cases k) auto
    with W_of_take [OF k(1) this] k(2) have "\<exists>n\<in>shared E p lk. k \<le> n" by blast
    then have "\<not> shared E p lk \<subseteq> {0}" using \<open>0 < k\<close> by auto
    then show ?thesis using r False mb by auto
  qed
  assume "radix_match_best p lk t = Some (s, d)"
  then have ne: "take k p \<noteq> []" and d: "d = k" and mem: "\<exists>d'. (s, d') \<in> F_of E lk (take k p)"
    using r mb by (auto split: if_splits)
  then obtain c where c: "E (c, lk) = Some s" "prefix (take k p) c" by (auto simp: F_of_def)
  have "k \<le> leading_matches p c" using c(2) prefix_take_leading [OF k(1)] by simp
  moreover have "leading_matches p c \<in> shared E p lk" using c(1) by (auto simp: shared_def)
  ultimately have "leading_matches p c = k" using ub by force
  moreover have "0 < k" using ne by (cases k) auto
  ultimately show "0 < d \<and> (\<exists>c. E (c, lk) = Some s \<and> leading_matches p c = d) \<and> (\<forall>n\<in>shared E p lk. n \<le> d)"
    using d c(1) ub by blast
qed

subsection \<open>The radix tree meets the contract\<close>

definition radix_abs :: "radix_tree \<Rightarrow> index_map" where
  "radix_abs t = (\<lambda>(c, lk). if c = [] \<or> U32_MAX \<le> length c then None
     else case walk_path t ROOT c lk of
       None \<Rightarrow> None
     | Some path \<Rightarrow> map_option fst
         (List.find (\<lambda>(_, d). d = leaf_depth c) (entries (nodes t ! last (ROOT # path)))))"

definition radix_inv :: "radix_tree \<Rightarrow> bool" where
  "radix_inv t \<longleftrightarrow> (\<exists>E. radix_rep t E)"

lemma radix_abs_rep:
  assumes rep: "radix_rep t E"
  shows "radix_abs t = E"
proof
  fix k :: "chain \<times> u64"
  obtain c lk where k: "k = (c, lk)" by force
  have ok: "map_ok E" using rep by (simp add: radix_rep_def)
  show "radix_abs t k = E k"
  proof (cases "c = [] \<or> U32_MAX \<le> length c")
    case True
    then have "E (c, lk) = None" using map_okD(2) [OF ok, of c lk] by (cases "E (c, lk)") auto
    with True k show ?thesis by (simp add: radix_abs_def)
  next
    case False
    then have ne: "c \<noteq> []" and len: "length c < U32_MAX" by simp_all
    show ?thesis
    proof (cases "walk_path t 0 c lk")
      case None
      then have "E (c, lk) = None" using rep_key [OF rep len ne, of lk] by (cases "E (c, lk)") auto
      with False None k show ?thesis by (simp add: radix_abs_def ROOT_def)
    next
      case (Some path)
      let ?es = "entries (nodes t ! last (0 # path))"
      have key: "E (c, lk) = Some s \<longleftrightarrow> (s, leaf_depth c) \<in> set ?es" for s
        using rep_key [OF rep len ne, of lk s] Some by auto
      have abs: "radix_abs t k = map_option fst (List.find (\<lambda>(_, d). d = leaf_depth c) ?es)"
        using False Some k by (simp add: radix_abs_def ROOT_def)
      show ?thesis
      proof (cases "List.find (\<lambda>(_, d). d = leaf_depth c) ?es")
        case None
        then have "(s, leaf_depth c) \<notin> set ?es" for s by (auto simp: find_None_iff)
        then have "E (c, lk) = None" using key by (cases "E (c, lk)") auto
        with None abs k show ?thesis by simp
      next
        case (Some e)
        then have "(fst e, leaf_depth c) \<in> set ?es" using find_Some_mem [OF Some] by (cases e) auto
        then have "E (c, lk) = Some (fst e)" using key by blast
        with Some abs k show ?thesis by simp
      qed
    qed
  qed
qed

lemma radix_rep_new: "radix_rep radix_new Map.empty"
proof -
  have "walk radix_new 0 lk p = (if p = [] then Some 0 else None)" for lk p
    by (cases p) (simp_all add: find_child_def radix_new_def node_root_def node_new_def)
  moreover have "tree_struct radix_new" by (simp add: tree_struct_def radix_new_def node_root_def node_new_def)
  ultimately have "tree_inv radix_new (W_of Map.empty) (F_of Map.empty)"
    by (simp add: tree_inv_def W_of_def F_of_def)
  then show ?thesis by (simp add: radix_rep_def map_ok_def) (simp add: radix_new_def)
qed

interpretation radix: prefix_index radix_insert radix_remove radix_match_best radix_len
    radix_new radix_abs radix_inv
proof (unfold_locales, goal_cases)
  case 1
  show ?case using radix_rep_new by (auto simp: radix_inv_def)
next
  case 2
  show ?case by (rule radix_abs_rep [OF radix_rep_new])
next
  case (3 t)
  then obtain E where "radix_rep t E" by (auto simp: radix_inv_def)
  then show ?case using radix_abs_rep map_okD(1) by (auto simp: radix_rep_def)
next
  case (4 lk s t)
  show ?case by (simp add: radix_insert_def)
next
  case (5 t c lk s)
  then obtain E where E: "radix_rep t E" by (auto simp: radix_inv_def)
  with 5 radix_abs_rep [OF E] have r: "radix_rep (radix_insert c lk s t) (E((c, lk) \<mapsto> s))"
    by (intro radix_insert_rep) simp_all
  with radix_abs_rep [OF r] radix_abs_rep [OF E] show ?case unfolding radix_inv_def by auto
next
  case (6 t c lk)
  then obtain E where E: "radix_rep t E" by (auto simp: radix_inv_def)
  from radix_remove_rep [OF E 6(2)] have r: "radix_rep (radix_remove c lk t) (E((c, lk) := None))" .
  with radix_abs_rep [OF r] radix_abs_rep [OF E] show ?case unfolding radix_inv_def by auto
next
  case (7 t p lk)
  then obtain E where E: "radix_rep t E" by (auto simp: radix_inv_def)
  then show ?case using radix_match_rep(1) [OF E] radix_abs_rep [OF E] by simp
next
  case (8 t p lk s d)
  then obtain E where E: "radix_rep t E" by (auto simp: radix_inv_def)
  then show ?case using radix_match_rep(2) [OF E 8(2)] radix_abs_rep [OF E] by simp
next
  case (9 t)
  then obtain E where E: "radix_rep t E" by (auto simp: radix_inv_def)
  then show ?case using radix_abs_rep [OF E] by (simp add: radix_len_def radix_rep_def)
qed

subsection \<open>The index a prompt cache holds\<close>

text \<open>
  \<^verbatim>\<open>Box<dyn PrefixIndex>\<close> is the sum of the two implementations, and a call on it
  dispatches on the constructor. It meets the contract too.
\<close>

datatype dyn_index = LinearIx linear_scan | RadixIx radix_tree

definition build_active_index :: "prefix_index_kind option \<Rightarrow> dyn_index" where
  "build_active_index cell =
     (case active_prefix_index_kind cell of Linear \<Rightarrow> LinearIx linear_new | Radix \<Rightarrow> RadixIx radix_new)"

definition ix_insert :: "chain \<Rightarrow> u64 \<Rightarrow> u64 \<Rightarrow> dyn_index \<Rightarrow> dyn_index" where
  "ix_insert c lk s i = (case i of LinearIx t \<Rightarrow> LinearIx (linear_insert c lk s t)
     | RadixIx t \<Rightarrow> RadixIx (radix_insert c lk s t))"

definition ix_remove :: "chain \<Rightarrow> u64 \<Rightarrow> dyn_index \<Rightarrow> dyn_index" where
  "ix_remove c lk i = (case i of LinearIx t \<Rightarrow> LinearIx (linear_remove c lk t)
     | RadixIx t \<Rightarrow> RadixIx (radix_remove c lk t))"

definition ix_match_best :: "chain \<Rightarrow> u64 \<Rightarrow> dyn_index \<Rightarrow> (u64 \<times> nat) option" where
  "ix_match_best p lk i = (case i of LinearIx t \<Rightarrow> linear_match_best p lk t
     | RadixIx t \<Rightarrow> radix_match_best p lk t)"

definition ix_clear :: "dyn_index \<Rightarrow> dyn_index" where
  "ix_clear i = (case i of LinearIx t \<Rightarrow> LinearIx [] | RadixIx t \<Rightarrow> RadixIx (radix_clear t))"

definition ix_len :: "dyn_index \<Rightarrow> nat" where
  "ix_len i = (case i of LinearIx t \<Rightarrow> linear_len t | RadixIx t \<Rightarrow> radix_len t)"

definition ix_abs :: "dyn_index \<Rightarrow> index_map" where
  "ix_abs i = (case i of LinearIx t \<Rightarrow> linear_abs t | RadixIx t \<Rightarrow> radix_abs t)"

definition ix_inv :: "dyn_index \<Rightarrow> bool" where
  "ix_inv i = (case i of LinearIx t \<Rightarrow> linear_inv t | RadixIx t \<Rightarrow> radix_inv t)"

interpretation ix: prefix_index ix_insert ix_remove ix_match_best ix_len
    "build_active_index cell" ix_abs ix_inv
proof (unfold_locales, goal_cases)
  case 1
  show ?case using linear.invar_empt radix.invar_empt
    by (simp add: build_active_index_def ix_inv_def split: prefix_index_kind.split)
next
  case 2
  show ?case using linear.abs_empt radix.abs_empt
    by (simp add: build_active_index_def ix_abs_def split: prefix_index_kind.split)
next
  case (3 t)
  then show ?case using linear.finite_abs radix.finite_abs by (cases t) (simp_all add: ix_inv_def ix_abs_def)
next
  case (4 lk s t)
  show ?case using linear.ins_nil radix.ins_nil by (cases t) (simp_all add: ix_insert_def)
next
  case (5 t c lk s)
  then show ?case using linear.abs_ins radix.abs_ins
    by (cases t) (simp_all add: ix_inv_def ix_abs_def ix_insert_def)
next
  case (6 t c lk)
  then show ?case using linear.abs_rem radix.abs_rem
    by (cases t) (simp_all add: ix_inv_def ix_abs_def ix_remove_def)
next
  case (7 t p lk)
  then show ?case using linear.best_None radix.best_None
    by (cases t) (simp_all add: ix_inv_def ix_abs_def ix_match_best_def)
next
  case (8 t p lk s d)
  then show ?case using linear.best_Some [of _ p lk s d] radix.best_Some [of _ p lk s d]
    by (cases t) (simp_all add: ix_inv_def ix_abs_def ix_match_best_def)
next
  case (9 t)
  then show ?case using linear.len_abs radix.len_abs
    by (cases t) (simp_all add: ix_inv_def ix_abs_def ix_len_def)
qed

subsection \<open>Properties\<close>

definition run_linear :: "index_op list \<Rightarrow> linear_scan" where
  "run_linear ops = fold (run_op linear_insert linear_remove linear_new) ops linear_new"

definition run_radix :: "index_op list \<Rightarrow> radix_tree" where
  "run_radix ops = fold (run_op radix_insert radix_remove radix_new) ops radix_new"

lemma run_linear_abs: "ops_ok ops Map.empty \<Longrightarrow>
    linear_inv (run_linear ops) \<and> linear_abs (run_linear ops) = fold op_abs ops Map.empty"
  unfolding run_linear_def using linear.run_ops [OF linear.invar_empt, of ops] by (simp add: linear.abs_empt)

lemma run_radix_abs: "ops_ok ops Map.empty \<Longrightarrow>
    radix_inv (run_radix ops) \<and> radix_abs (run_radix ops) = fold op_abs ops Map.empty"
  unfolding run_radix_def using radix.run_ops [OF radix.invar_empt, of ops] by (simp add: radix.abs_empt)

text \<open>C4: The two index strategies are interchangeable. After the same sequence of inserts,
  removes and clears, by a caller that uses a slot id for one key at a time, the linear
  scan and the radix tree report the same number of matched blocks for every prompt
  (and the same miss), and count the same number of entries.
\<close>

theorem radix_agrees_with_linear:
  assumes "ops_ok ops Map.empty"
  shows "map_option snd (radix_match_best p lk (run_radix ops)) =
      map_option snd (linear_match_best p lk (run_linear ops)) \<and>
    radix_len (run_radix ops) = linear_len (run_linear ops)"
  using run_linear_abs [OF assms] run_radix_abs [OF assms]
    linear.depth_abs [of "run_linear ops" p lk] radix.depth_abs [of "run_radix ops" p lk]
    linear.len_abs [of "run_linear ops"] radix.len_abs [of "run_radix ops"]
  by simp

lemma sample_ops_ok:
  "ops_ok [Ins [1, 2, 3] 9 10, Ins [1, 2] 9 11, Ins [1, 2, 3] 9 12, Rem [1, 2] 9, Ins [1] 8 11] Map.empty"
  by (simp add: index_fresh_def U32_MAX_def)

theorem radix_agrees_with_linear_witness:
  "map_option snd (radix_match_best [1, 2, 7] 9 (run_radix
      [Ins [1, 2, 3] 9 10, Ins [1, 2] 9 11, Ins [1, 2, 3] 9 12, Rem [1, 2] 9, Ins [1] 8 11])) =
   map_option snd (linear_match_best [1, 2, 7] 9 (run_linear
      [Ins [1, 2, 3] 9 10, Ins [1, 2] 9 11, Ins [1, 2, 3] 9 12, Rem [1, 2] 9, Ins [1] 8 11]))"
  using radix_agrees_with_linear [OF sample_ops_ok] by blast

text \<open>C33: The arena of the radix tree is well typed. After any sequence of inserts, removes and
  clears by callers that give a slot id one key at a time, the children of every node are later nodes of the arena with the layout key of
  their path, no node has two parents and no two children share a block hash and a key; and
  a node that a lookup reaches is never empty, lists each entry once, and lists only entries
  at least as deep as itself whose depth fits a \<^verbatim>\<open>u32\<close>.
\<close>

theorem radix_arena_typed:
  assumes "ops_ok ops Map.empty"
  shows "tree_struct (run_radix ops) \<and>
    (\<forall>lk p n. p \<noteq> [] \<longrightarrow> walk (run_radix ops) 0 lk p = Some n \<longrightarrow>
       entries (nodes (run_radix ops) ! n) \<noteq> [] \<and> distinct (entries (nodes (run_radix ops) ! n)) \<and>
       (\<forall>e\<in>set (entries (nodes (run_radix ops) ! n)). length p \<le> snd e \<and> snd e < U32_MAX))"
proof -
  from run_radix_abs [OF assms] obtain E where "radix_rep (run_radix ops) E" by (auto simp: radix_inv_def)
  then have ok: "map_ok E" and inv: "tree_inv (run_radix ops) (W_of E) (F_of E)" by (simp_all add: radix_rep_def)
  show ?thesis
  proof (intro conjI allI impI)
    show "tree_struct (run_radix ops)" by (rule tree_invD(1) [OF inv])
    fix lk p n
    assume p: "p \<noteq> []" and w: "walk (run_radix ops) 0 lk p = Some n"
    from tree_invD(3) [OF inv p w] have d: "distinct (entries (nodes (run_radix ops) ! n))"
      and s: "set (entries (nodes (run_radix ops) ! n)) = F_of E lk p" by simp_all
    show "distinct (entries (nodes (run_radix ops) ! n))" by (rule d)
    have "W_of E lk p" using tree_invD(2) [OF inv, of lk p] w by simp
    with p s show "entries (nodes (run_radix ops) ! n) \<noteq> []" by (auto simp: W_of_def)
    show "\<forall>e\<in>set (entries (nodes (run_radix ops) ! n)). length p \<le> snd e \<and> snd e < U32_MAX"
      unfolding s using ok by (auto simp: F_of_def map_ok_def prefix_length_le)
  qed
qed

theorem radix_arena_typed_witness:
  "tree_struct (run_radix [Ins [1, 2, 3] 9 10, Ins [1, 2] 9 11, Ins [1, 2, 3] 9 12, Rem [1, 2] 9, Ins [1] 8 11])"
  using radix_arena_typed [OF sample_ops_ok] by (rule conjunct1)

text \<open>The radix tree answers the longest-prefix query. A match names the slot of an entry
  under the queried layout key that shares exactly the reported number of leading blocks
  with the prompt, that number is positive, and no entry under that layout key shares
  more; a miss means that none shares a block.
\<close>

theorem radix_longest_prefix:
  assumes "ops_ok ops Map.empty"
  shows "case radix_match_best p lk (run_radix ops) of
      None \<Rightarrow> (\<forall>c. (c, lk) \<in> dom (fold op_abs ops Map.empty) \<longrightarrow> leading_matches p c = 0)
    | Some (s, d) \<Rightarrow> 0 < d \<and>
        (\<exists>c. fold op_abs ops Map.empty (c, lk) = Some s \<and> leading_matches p c = d) \<and>
        (\<forall>c. (c, lk) \<in> dom (fold op_abs ops Map.empty) \<longrightarrow> leading_matches p c \<le> d)"
proof -
  from run_radix_abs [OF assms] have inv: "radix_inv (run_radix ops)"
    and abs: "radix_abs (run_radix ops) = fold op_abs ops Map.empty" by simp_all
  show ?thesis
  proof (cases "radix_match_best p lk (run_radix ops)")
    case None
    with radix.best_None [OF inv, of p lk] abs show ?thesis by (auto simp: shared_def)
  next
    case (Some sd)
    obtain s d where sd: "sd = (s, d)" by force
    from radix.best_Some [OF inv Some [unfolded sd]] abs Some sd show ?thesis by (auto simp: shared_def)
  qed
qed

theorem radix_longest_prefix_witness:
  "\<exists>s. radix_match_best [1, 2, 7] 9 (run_radix
      [Ins [1, 2, 3] 9 10, Ins [1, 2] 9 11, Ins [1, 2, 3] 9 12, Rem [1, 2] 9, Ins [1] 8 11]) = Some (s, 2)"
proof -
  let ?ops = "[Ins [1, 2, 3] 9 10, Ins [1, 2] 9 11, Ins [1, 2, 3] 9 12, Rem [1, 2] 9, Ins [1] 8 11]"
  have k: "fold op_abs ?ops Map.empty ([1, 2, 3], 9) = Some 12" by simp
  have only: "fold op_abs ?ops Map.empty (c, 9) = Some s \<Longrightarrow> c = [1, 2, 3]" for c s
    by (simp split: if_splits)
  have l: "leading_matches [1, 2, 7 :: u64] [1, 2, 3] = 2" by simp
  show ?thesis
  proof (cases "radix_match_best [1, 2, 7] 9 (run_radix ?ops)")
    case None
    with radix_longest_prefix [OF sample_ops_ok, where p = "[1, 2, 7]" and lk = 9]
    have "\<forall>c. (c, 9) \<in> dom (fold op_abs ?ops Map.empty) \<longrightarrow> leading_matches [1, 2, 7] c = 0"
      by (simp only: option.case)
    with domI [of "fold op_abs ?ops Map.empty", OF k] l show ?thesis by fastforce
  next
    case (Some sd)
    obtain s d where sd: "sd = (s, d)" by force
    from radix_longest_prefix [OF sample_ops_ok, where p = "[1, 2, 7]" and lk = 9]
    obtain c where "fold op_abs ?ops Map.empty (c, 9) = Some s" "leading_matches [1, 2, 7] c = d"
      unfolding Some sd option.case prod.case by blast
    with only [OF this(1)] l Some sd show ?thesis by simp
  qed
qed

end
