(* ===== verification/KvQuant.thy ===== *)
theory KvQuant
  imports Prelude
begin

text \<open>
  The KV codecs of \<^verbatim>\<open>rmlx-kv-quant\<close>: the closed enum of \<^verbatim>\<open>quant.rs\<close>, the row of facts
  \<^verbatim>\<open>quant_descriptor.rs\<close> states for each codec, the predicates that read it, and the
  byte model behind the net-benefit check. The payload fields (\<^verbatim>\<open>u8\<close> widths, \<^verbatim>\<open>u16\<close>
  group sizes) are natural numbers; \<open>kv_valid\<close> is what the parsers admit, and it is
  inside both types. The estimator computes in saturating 64-bit arithmetic, as the
  code does.

  The lemmas: a codec whose decode reads only the bf16 mirrors is estimated at exactly
  the bf16 bytes, the sign of the saving of the affine codecs, the rates the
  documentation quotes, and the bounds of the estimate the layer policy relies on.
\<close>

section \<open>The codecs\<close>

datatype kv_quant =
    K8V4 | K8V8 | Planar | KvNone
  | Mixed nat nat nat nat
  | RotK nat nat
  | K8VTurbo3 | TurboSym3 | TurboSym4 | Planar3 | PlanarK | K8VTurbo2
  | Iso3 | Iso4 | Iso3Sym | Iso4Sym | IsoKOnly3 | IsoKOnly4
  | Rotor3 | Rotor4 | K8VTurbo3Tcq
  | Rotor3Sym | Rotor4Sym | RotorKOnly3 | RotorKOnly4
  | RotorK3Asym nat nat | RotorK4Asym nat nat
  | K8VTurbo2Tcq

text \<open>
  \<open>Mixed k_bits v_bits k_group_size v_group_size\<close>; the other payloads are
  \<open>v_bits v_group_size\<close>.
\<close>

definition ALL_KV_QUANTS :: "kv_quant list" where
  "ALL_KV_QUANTS =
     [KvNone, K8V4, K8V8, Planar, Planar3, PlanarK, Mixed 8 4 64 64, RotK 8 64,
      K8VTurbo3, K8VTurbo3Tcq, K8VTurbo2, K8VTurbo2Tcq, TurboSym3, TurboSym4,
      Iso3, Iso4, Iso3Sym, Iso4Sym, IsoKOnly3, IsoKOnly4,
      Rotor3, Rotor4, Rotor3Sym, Rotor4Sym, RotorKOnly3, RotorKOnly4,
      RotorK3Asym 4 64, RotorK4Asym 4 64]"

datatype side_store =
  StQ8 | StTurbo | StAffine nat | StPlanar | StIsoRing | StIsoBlocks | StRotor

datatype mirror_rule = Never | Always | WhenSharesKv

definition mirror_applies :: "mirror_rule \<Rightarrow> bool \<Rightarrow> bool" where
  "mirror_applies r shares_kv =
     (case r of Never \<Rightarrow> False | Always \<Rightarrow> True | WhenSharesKv \<Rightarrow> shares_kv)"

datatype hot_reason =
  ISO_V_READS_MIRROR | ROTOR_READS_MIRROR | ROTOR_SYM_QJL_ON_CPU | ROTOR_K_ONLY_QJL_ON_CPU

datatype hot_path_class = Metal | Cpu hot_reason | CpuWhenQjl hot_reason

datatype spelling =
    Fixed string
  | SpMixed nat nat nat nat
  | SpRotK nat nat
  | SpRotorKAsym nat nat nat

record codec_descriptor =
  cd_index :: nat
  cd_spelling :: spelling
  k_mirror :: mirror_rule
  v_mirror :: mirror_rule
  reads_packed_store :: bool
  cd_carries_msl :: bool
  hot_path :: hot_path_class
  code_bits :: "nat \<times> nat"
  cd_side_stores :: "side_store option \<times> side_store option"
  cd_k_below_8bit :: bool
  k_only_iso_rotor :: bool
  cd_mixed_params :: "(nat \<times> nat \<times> nat \<times> nat) option"

text \<open>A row of the table: the twelve facts in the order the struct has them.\<close>

definition codec_row ::
    "nat \<Rightarrow> spelling \<Rightarrow> mirror_rule \<Rightarrow> mirror_rule \<Rightarrow> bool \<Rightarrow> bool \<Rightarrow> hot_path_class \<Rightarrow> nat \<times> nat \<Rightarrow>
     side_store option \<times> side_store option \<Rightarrow> bool \<Rightarrow> bool \<Rightarrow> (nat \<times> nat \<times> nat \<times> nat) option \<Rightarrow>
     codec_descriptor" where
  "codec_row i sp km vm rp msl hp cb ss b8 ko mp =
     \<lparr>cd_index = i, cd_spelling = sp, k_mirror = km, v_mirror = vm, reads_packed_store = rp,
      cd_carries_msl = msl, hot_path = hp, code_bits = cb, cd_side_stores = ss,
      cd_k_below_8bit = b8, k_only_iso_rotor = ko, cd_mixed_params = mp\<rparr>"

lemma codec_row_simps [simp]:
  "cd_index (codec_row i sp km vm rp msl hp cb ss b8 ko mp) = i"
  "cd_spelling (codec_row i sp km vm rp msl hp cb ss b8 ko mp) = sp"
  "k_mirror (codec_row i sp km vm rp msl hp cb ss b8 ko mp) = km"
  "v_mirror (codec_row i sp km vm rp msl hp cb ss b8 ko mp) = vm"
  "reads_packed_store (codec_row i sp km vm rp msl hp cb ss b8 ko mp) = rp"
  "cd_carries_msl (codec_row i sp km vm rp msl hp cb ss b8 ko mp) = msl"
  "hot_path (codec_row i sp km vm rp msl hp cb ss b8 ko mp) = hp"
  "code_bits (codec_row i sp km vm rp msl hp cb ss b8 ko mp) = cb"
  "cd_side_stores (codec_row i sp km vm rp msl hp cb ss b8 ko mp) = ss"
  "cd_k_below_8bit (codec_row i sp km vm rp msl hp cb ss b8 ko mp) = b8"
  "k_only_iso_rotor (codec_row i sp km vm rp msl hp cb ss b8 ko mp) = ko"
  "cd_mixed_params (codec_row i sp km vm rp msl hp cb ss b8 ko mp) = mp"
  by (simp_all add: codec_row_def)

fun descriptor :: "kv_quant \<Rightarrow> codec_descriptor" where
  "descriptor KvNone =
     codec_row 0 (Fixed ''none'') Always Always False False Metal (16, 16)
       (None, None) False False None"
| "descriptor K8V4 =
     codec_row 1 (Fixed ''k8v4'') Always Always False True Metal (8, 4)
       (Some StQ8, Some StTurbo) False False None"
| "descriptor K8V8 =
     codec_row 2 (Fixed ''k8v8'') Always Always False True Metal (8, 8)
       (Some StQ8, Some StQ8) False False None"
| "descriptor Planar =
     codec_row 3 (Fixed ''planar'') Always Always False True Metal (8, 4)
       (Some StQ8, Some StPlanar) False False None"
| "descriptor Planar3 =
     codec_row 4 (Fixed ''planar3'') Always Always False True Metal (8, 3)
       (Some StQ8, Some StPlanar) False False None"
| "descriptor PlanarK =
     codec_row 5 (Fixed ''planar_k'') Always Always False True Metal (4, 16)
       (Some StPlanar, None) False False None"
| "descriptor (Mixed kb vb kg vg) =
     codec_row 6 (SpMixed kb vb kg vg) WhenSharesKv WhenSharesKv True True Metal (kb, vb)
       (Some (StAffine kg), Some (StAffine vg)) False False (Some (kb, vb, kg, vg))"
| "descriptor (RotK vb vg) =
     codec_row 7 (SpRotK vb vg) WhenSharesKv WhenSharesKv True True Metal (8, vb)
       (Some (StAffine 64), Some (StAffine vg)) False False (Some (8, vb, 64, vg))"
| "descriptor K8VTurbo3 =
     codec_row 8 (Fixed ''k8vturbo3'') Always Always False True Metal (8, 3)
       (Some StQ8, Some StTurbo) False False None"
| "descriptor K8VTurbo3Tcq =
     codec_row 9 (Fixed ''k8vturbo3tcq'') Always Always False True Metal (8, 3)
       (Some StQ8, Some StTurbo) False False None"
| "descriptor K8VTurbo2 =
     codec_row 10 (Fixed ''k8vturbo2'') Always Always False True Metal (8, 2)
       (Some StQ8, Some StTurbo) False False None"
| "descriptor K8VTurbo2Tcq =
     codec_row 11 (Fixed ''k8vturbo2tcq'') Always Always False True Metal (8, 2)
       (Some StQ8, Some StTurbo) False False None"
| "descriptor TurboSym3 =
     codec_row 12 (Fixed ''tsym3'') Always Always False True Metal (3, 3)
       (Some StTurbo, Some StTurbo) True False None"
| "descriptor TurboSym4 =
     codec_row 13 (Fixed ''tsym4'') Always Always False True Metal (4, 4)
       (Some StTurbo, Some StTurbo) True False None"
| "descriptor Iso3 =
     codec_row 14 (Fixed ''iso3'') Always Always False True (Cpu ISO_V_READS_MIRROR) (8, 3)
       (Some StQ8, Some StIsoBlocks) False False None"
| "descriptor Iso4 =
     codec_row 15 (Fixed ''iso4'') Always Always False True (Cpu ISO_V_READS_MIRROR) (8, 4)
       (Some StQ8, Some StIsoBlocks) False False None"
| "descriptor Iso3Sym =
     codec_row 16 (Fixed ''iso3_sym'') Never Never True True Metal (3, 3)
       (Some StIsoRing, Some StIsoRing) True False None"
| "descriptor Iso4Sym =
     codec_row 17 (Fixed ''iso4_sym'') Never Never True True Metal (4, 4)
       (Some StIsoRing, Some StIsoRing) True False None"
| "descriptor IsoKOnly3 =
     codec_row 18 (Fixed ''k_iso3'') Never Always True True Metal (3, 16)
       (Some StIsoRing, None) True True None"
| "descriptor IsoKOnly4 =
     codec_row 19 (Fixed ''k_iso4'') Never Always True True Metal (4, 16)
       (Some StIsoRing, None) True True None"
| "descriptor Rotor3 =
     codec_row 20 (Fixed ''rotor3'') Always Always False True (Cpu ROTOR_READS_MIRROR) (8, 3)
       (Some StQ8, Some StRotor) False False None"
| "descriptor Rotor4 =
     codec_row 21 (Fixed ''rotor4'') Always Always False True (Cpu ROTOR_READS_MIRROR) (8, 4)
       (Some StQ8, Some StRotor) False False None"
| "descriptor Rotor3Sym =
     codec_row 22 (Fixed ''rotor3_sym'') Never Never True True (CpuWhenQjl ROTOR_SYM_QJL_ON_CPU) (3, 3)
       (Some StRotor, Some StRotor) True False None"
| "descriptor Rotor4Sym =
     codec_row 23 (Fixed ''rotor4_sym'') Never Never True True (CpuWhenQjl ROTOR_SYM_QJL_ON_CPU) (4, 4)
       (Some StRotor, Some StRotor) True False None"
| "descriptor RotorKOnly3 =
     codec_row 24 (Fixed ''k_rotor3'') Never Always True True (CpuWhenQjl ROTOR_K_ONLY_QJL_ON_CPU) (3, 16)
       (Some StRotor, None) True True None"
| "descriptor RotorKOnly4 =
     codec_row 25 (Fixed ''k_rotor4'') Never Always True True (CpuWhenQjl ROTOR_K_ONLY_QJL_ON_CPU) (4, 16)
       (Some StRotor, None) True True None"
| "descriptor (RotorK3Asym vb vg) =
     codec_row 26 (SpRotorKAsym 3 vb vg) Always Always False True (Cpu ROTOR_READS_MIRROR) (3, vb)
       (Some StRotor, Some StTurbo) True False None"
| "descriptor (RotorK4Asym vb vg) =
     codec_row 27 (SpRotorKAsym 4 vb vg) Always Always False True (Cpu ROTOR_READS_MIRROR) (4, vb)
       (Some StRotor, Some StTurbo) True False None"

section \<open>The predicates\<close>

definition uses_mixed_path :: "kv_quant \<Rightarrow> bool" where
  "uses_mixed_path q \<longleftrightarrow> cd_mixed_params (descriptor q) \<noteq> None"

definition k_below_8bit :: "kv_quant \<Rightarrow> bool" where
  "k_below_8bit q = cd_k_below_8bit (descriptor q)"

definition feeds_bf16_k_at_decode :: "kv_quant \<Rightarrow> bool \<Rightarrow> bool" where
  "feeds_bf16_k_at_decode q shares_kv = mirror_applies (k_mirror (descriptor q)) shares_kv"

definition feeds_bf16_v_at_decode :: "kv_quant \<Rightarrow> bool \<Rightarrow> bool" where
  "feeds_bf16_v_at_decode q shares_kv = mirror_applies (v_mirror (descriptor q)) shares_kv"

definition decode_reads_packed_store :: "kv_quant \<Rightarrow> bool" where
  "decode_reads_packed_store q = reads_packed_store (descriptor q)"

definition materialises_packed_store :: "kv_quant \<Rightarrow> bool" where
  "materialises_packed_store q \<longleftrightarrow>
     decode_reads_packed_store q \<or> \<not> feeds_bf16_k_at_decode q False \<or> \<not> feeds_bf16_v_at_decode q False"

definition carries_msl :: "kv_quant \<Rightarrow> bool" where
  "carries_msl q = cd_carries_msl (descriptor q)"

datatype device = CpuDevice | GpuDevice
datatype device_refuses_codec = DeviceRefusesCodec kv_quant

definition admitted_on :: "kv_quant \<Rightarrow> device \<Rightarrow> device_refuses_codec + unit" where
  "admitted_on q d =
     (case d of
        CpuDevice \<Rightarrow> if carries_msl q then Inl (DeviceRefusesCodec q) else Inr ()
      | GpuDevice \<Rightarrow> Inr ())"

text \<open>The rotor QJL switch is a process global; here it is an argument.\<close>

definition cpu_hot_path_reason :: "bool \<Rightarrow> kv_quant \<Rightarrow> hot_reason option" where
  "cpu_hot_path_reason qjl_enabled q =
     (case hot_path (descriptor q) of
        Metal \<Rightarrow> None
      | Cpu r \<Rightarrow> Some r
      | CpuWhenQjl r \<Rightarrow> if qjl_enabled then Some r else None)"

definition is_k_only_iso_rotor :: "kv_quant \<Rightarrow> bool" where
  "is_k_only_iso_rotor q = k_only_iso_rotor (descriptor q)"

definition mixed_params :: "kv_quant \<Rightarrow> (nat \<times> nat \<times> nat \<times> nat) option" where
  "mixed_params q = cd_mixed_params (descriptor q)"

definition approx_code_bits :: "kv_quant \<Rightarrow> nat \<times> nat" where
  "approx_code_bits q = code_bits (descriptor q)"

definition side_stores :: "kv_quant \<Rightarrow> side_store option \<times> side_store option" where
  "side_stores q = cd_side_stores (descriptor q)"

lemmas codec_facts = uses_mixed_path_def k_below_8bit_def feeds_bf16_k_at_decode_def
  feeds_bf16_v_at_decode_def decode_reads_packed_store_def materialises_packed_store_def
  carries_msl_def cpu_hot_path_reason_def is_k_only_iso_rotor_def mixed_params_def
  approx_code_bits_def side_stores_def mirror_applies_def

section \<open>What the parsers admit\<close>

definition valid_rotor_k_asym_v :: "nat \<Rightarrow> nat \<Rightarrow> bool" where
  "valid_rotor_k_asym_v v_bits v_group_size \<longleftrightarrow>
     v_bits = 4 \<and> v_group_size \<in> {128, 64, 32} \<or> v_bits \<in> {3, 2} \<and> v_group_size = 64"

definition valid_mixed_side :: "nat \<Rightarrow> nat \<Rightarrow> bool" where
  "valid_mixed_side bits group_size \<longleftrightarrow>
     bits \<in> {2, 3, 4, 5, 6, 8} \<and> group_size \<in> {32, 64, 128}"

fun kv_valid :: "kv_quant \<Rightarrow> bool" where
  "kv_valid (Mixed kb vb kg vg) \<longleftrightarrow> valid_mixed_side kb kg \<and> valid_mixed_side vb vg"
| "kv_valid (RotK vb vg) \<longleftrightarrow> valid_mixed_side vb vg"
| "kv_valid (RotorK3Asym vb vg) \<longleftrightarrow> valid_rotor_k_asym_v vb vg"
| "kv_valid (RotorK4Asym vb vg) \<longleftrightarrow> valid_rotor_k_asym_v vb vg"
| "kv_valid _ \<longleftrightarrow> True"

section \<open>The byte model\<close>

definition AFFINE_SIDEBAND_BYTES_PER_GROUP :: nat where "AFFINE_SIDEBAND_BYTES_PER_GROUP = 4"

text \<open>\<^verbatim>\<open>KV_SIDEBAND_DTYPE\<close> is bf16, two bytes.\<close>

definition SIDEBAND_BYTES :: nat where "SIDEBAND_BYTES = 2"
definition Q8_GROUP_SIZE :: nat where "Q8_GROUP_SIZE = 128"
definition TURBO_GROUP_SIZE :: nat where "TURBO_GROUP_SIZE = 32"

definition div_ceil :: "nat \<Rightarrow> nat \<Rightarrow> nat" where "div_ceil a b = (a + b - 1) div b"

definition row_words :: "nat \<Rightarrow> nat \<Rightarrow> nat" where
  "row_words n_codes bits = div_ceil (n_codes * bits) 32"

definition plane_bytes :: "nat \<Rightarrow> nat \<Rightarrow> nat \<Rightarrow> nat" where
  "plane_bytes codes_per_row bits n_tokens =
     sat_mul (sat_mul (row_words codes_per_row bits) 4) n_tokens"

definition packed_side_bytes :: "side_store \<Rightarrow> nat \<Rightarrow> nat \<Rightarrow> nat \<Rightarrow> nat \<Rightarrow> nat" where
  "packed_side_bytes st bits elems head_dim n_tokens =
     (let codes = sat_mul elems bits div 8 in
      case st of
        StQ8 \<Rightarrow> sat_add codes (sat_mul (elems div Q8_GROUP_SIZE) 4)
      | StTurbo \<Rightarrow> sat_add codes (sat_mul (elems div TURBO_GROUP_SIZE) 4)
      | StAffine grp \<Rightarrow> sat_add codes (sat_mul (elems div grp) AFFINE_SIDEBAND_BYTES_PER_GROUP)
      | StPlanar \<Rightarrow>
          (let groups = elems div 32
           in sat_add (sat_add (sat_mul groups (4 * 4)) (sat_mul (elems div 2) 4)) (sat_mul groups (2 * 4)))
      | StIsoRing \<Rightarrow>
          (let groups = elems div 4
           in sat_add (sat_add (plane_bytes head_dim bits n_tokens) (sat_mul groups SIDEBAND_BYTES))
                (sat_mul n_tokens SIDEBAND_BYTES))
      | StIsoBlocks \<Rightarrow>
          (let groups = elems div 4
           in sat_add (sat_add (plane_bytes head_dim bits n_tokens) (sat_mul groups (4 + 16)))
                (sat_mul n_tokens 4))
      | StRotor \<Rightarrow>
          (let n_groups = div_ceil head_dim 3
           in sat_add (sat_add (plane_bytes (sat_mul n_groups 3) bits n_tokens)
                        (sat_mul (sat_mul n_groups n_tokens) SIDEBAND_BYTES))
                (sat_mul n_tokens SIDEBAND_BYTES)))"

text \<open>The closure of \<^verbatim>\<open>estimated_resident_bytes_per_layer\<close> that sizes one side.\<close>

definition side_bytes ::
    "bool \<Rightarrow> nat \<Rightarrow> nat \<Rightarrow> nat \<Rightarrow> nat \<Rightarrow> bool \<Rightarrow> side_store option \<Rightarrow> nat" where
  "side_bytes packs_a_store elems head_dim n_tokens bits retains_seed st =
     (case st of
        None \<Rightarrow> sat_mul elems 2
      | Some st \<Rightarrow>
          if \<not> packs_a_store then sat_mul elems 2
          else sat_add (packed_side_bytes st bits elems head_dim n_tokens)
                 (if retains_seed then sat_mul elems 2 else 0))"

definition estimated_resident_bytes_per_layer ::
    "kv_quant \<Rightarrow> nat \<Rightarrow> nat \<Rightarrow> nat \<Rightarrow> bool \<Rightarrow> nat" where
  "estimated_resident_bytes_per_layer q s head_dim kv_heads shares_kv =
     (let elems = sat_mul (sat_mul s head_dim) kv_heads in
      if q = KvNone then sat_mul (sat_mul elems 2) 2
      else
        let n_tokens = sat_mul s kv_heads;
            packs = materialises_packed_store q;
            k_bytes = side_bytes packs elems head_dim n_tokens (fst (approx_code_bits q))
                        (feeds_bf16_k_at_decode q shares_kv) (fst (side_stores q));
            v_bytes = side_bytes packs elems head_dim n_tokens (snd (approx_code_bits q))
                        (feeds_bf16_v_at_decode q shares_kv) (snd (side_stores q))
        in sat_add k_bytes v_bytes)"

definition I64_MAX :: int where "I64_MAX = 2 ^ 63 - 1"

definition estimated_net_saving_per_layer ::
    "kv_quant \<Rightarrow> nat \<Rightarrow> nat \<Rightarrow> nat \<Rightarrow> bool \<Rightarrow> bool \<Rightarrow> int" where
  "estimated_net_saving_per_layer q s head_dim kv_heads is_windowed shares_kv =
     (if is_windowed then 0
      else
        let bf16 = estimated_resident_bytes_per_layer KvNone s head_dim kv_heads False;
            codec = estimated_resident_bytes_per_layer q s head_dim kv_heads shares_kv
        in min (int bf16) I64_MAX - min (int codec) I64_MAX)"


section \<open>What the estimate says\<close>

lemma sat_add_le: "sat_add a b \<le> a + b" by (simp add: sat_add_def)
lemma sat_mul_le: "sat_mul a b \<le> a * b" by (simp add: sat_mul_def)

lemma storeless_estimate:
  "\<not> materialises_packed_store q \<Longrightarrow>
    estimated_resident_bytes_per_layer q s d kvh sh = estimated_resident_bytes_per_layer KvNone s d kvh sh'"
  by (cases q) (simp_all add: estimated_resident_bytes_per_layer_def side_bytes_def codec_facts
      sat_mul_two Let_def)

lemma storeless_mirrors:
  "\<not> materialises_packed_store q \<Longrightarrow> feeds_bf16_k_at_decode q sh \<and> feeds_bf16_v_at_decode q sh"
  by (cases q) (simp_all add: codec_facts)

lemma shares_kv_only_moves_mixed:
  "\<not> uses_mixed_path q \<Longrightarrow>
    estimated_resident_bytes_per_layer q s d kvh sh = estimated_resident_bytes_per_layer q s d kvh sh'"
  by (cases q) (simp_all add: estimated_resident_bytes_per_layer_def codec_facts)

subsection \<open>Bounds of the packed sides\<close>

lemma codes_le: "bits \<le> 8 \<Longrightarrow> sat_mul e bits div 8 \<le> e"
proof -
  assume "bits \<le> 8"
  then have "sat_mul e bits \<le> e * 8" using sat_mul_le [of e bits] by (meson le_trans mult_le_mono2)
  then show ?thesis by simp
qed

lemma affine_side_lt:
  assumes "bits \<le> 8" "32 \<le> g" "0 < e"
  shows "packed_side_bytes (StAffine g) bits e d n < 2 * e"
proof -
  have "e div g \<le> e div 32" using assms(2) by (simp add: div_le_mono2)
  then have "sat_mul (e div g) 4 \<le> e div 32 * 4"
    using sat_mul_le [of "e div g" 4] by linarith
  moreover have "e div 32 * 4 < e" using assms(3) by linarith
  ultimately show ?thesis
    using codes_le [OF assms(1), of e]
      sat_add_le [of "sat_mul e bits div 8" "sat_mul (e div g) 4"]
    by (simp add: packed_side_bytes_def AFFINE_SIDEBAND_BYTES_PER_GROUP_def)
qed

lemma plane_le: "8 * plane_bytes c bits n \<le> (c * bits + 31) * n"
proof -
  have "row_words c bits * 32 \<le> c * bits + 31"
    by (simp add: row_words_def div_ceil_def)
  then have "(row_words c bits * 4) * n * 8 \<le> (c * bits + 31) * n"
    using mult_le_mono1 [of "row_words c bits * 32" "c * bits + 31" n] by (simp add: algebra_simps)
  moreover have "plane_bytes c bits n \<le> row_words c bits * 4 * n"
    unfolding plane_bytes_def
    by (meson sat_mul_le le_trans mult_le_mono1)
  ultimately show ?thesis by linarith
qed

lemma iso_arith:
  "8 * p \<le> 4 * e + 31 * n \<Longrightarrow> s * 2 \<le> e \<Longrightarrow> t \<le> n * 2 \<Longrightarrow> 0 < n \<Longrightarrow> 10 * n \<le> e \<Longrightarrow>
    p + s + t < 2 * (e :: nat)"
  by linarith

lemma rotor_arith:
  "8 * p \<le> 4 * e + 39 * n \<Longrightarrow> 3 * s \<le> 2 * e + 4 * n \<Longrightarrow> t \<le> n * 2 \<Longrightarrow> 0 < n \<Longrightarrow> 10 * n \<le> e \<Longrightarrow>
    p + s + t < 2 * (e :: nat)"
  by linarith

lemma iso_ring_side_lt:
  assumes "bits \<le> 4" "10 \<le> d" "0 < n" "e = n * d"
  shows "packed_side_bytes StIsoRing bits e d n < 2 * e"
proof -
  let ?p = "plane_bytes d bits n"
  have "d * bits + 31 \<le> d * 4 + 31" using assms(1) by simp
  then have "8 * ?p \<le> (d * 4 + 31) * n"
    using plane_le [of d bits n] by (meson le_trans mult_le_mono1)
  then have p: "8 * ?p \<le> 4 * e + 31 * n" using assms(4) by (simp add: algebra_simps)
  have s: "sat_mul (e div 4) SIDEBAND_BYTES * 2 \<le> e"
    using sat_mul_le [of "e div 4" SIDEBAND_BYTES] by (simp add: SIDEBAND_BYTES_def)
  have t: "sat_mul n SIDEBAND_BYTES \<le> n * 2"
    using sat_mul_le [of n SIDEBAND_BYTES] by (simp add: SIDEBAND_BYTES_def)
  have "10 * n \<le> e" using assms by simp
  from iso_arith [OF p s t assms(3) this] show ?thesis
    using sat_add_le [of ?p "sat_mul (e div 4) SIDEBAND_BYTES"]
      sat_add_le [of "sat_add ?p (sat_mul (e div 4) SIDEBAND_BYTES)" "sat_mul n SIDEBAND_BYTES"]
    by (simp add: packed_side_bytes_def Let_def)
qed

lemma rotor_side_lt:
  assumes "bits \<le> 4" "10 \<le> d" "0 < n" "e = n * d"
  shows "packed_side_bytes StRotor bits e d n < 2 * e"
proof -
  let ?g = "div_ceil d 3"
  let ?c = "sat_mul ?g 3"
  let ?p = "plane_bytes ?c bits n"
  have g: "3 * ?g \<le> d + 2" by (simp add: div_ceil_def)
  then have c: "?c \<le> d + 2" using sat_mul_le [of ?g 3] by simp
  have "?c * bits + 31 \<le> (d + 2) * 4 + 31"
    using mult_le_mono [OF c assms(1)] by simp
  then have "8 * ?p \<le> ((d + 2) * 4 + 31) * n"
    using plane_le [of ?c bits n] by (meson le_trans mult_le_mono1)
  then have p: "8 * ?p \<le> 4 * e + 39 * n" using assms(4) by (simp add: algebra_simps)
  have "sat_mul (sat_mul ?g n) SIDEBAND_BYTES \<le> ?g * n * 2"
    using sat_mul_le [of "sat_mul ?g n" SIDEBAND_BYTES] sat_mul_le [of ?g n]
    by (simp add: SIDEBAND_BYTES_def)
  moreover have "3 * ?g * n \<le> (d + 2) * n" using g mult_le_mono1 by blast
  ultimately have s: "3 * sat_mul (sat_mul ?g n) SIDEBAND_BYTES \<le> 2 * e + 4 * n"
    using assms(4) by (simp add: algebra_simps)
  have t: "sat_mul n SIDEBAND_BYTES \<le> n * 2"
    using sat_mul_le [of n SIDEBAND_BYTES] by (simp add: SIDEBAND_BYTES_def)
  have "10 * n \<le> e" using assms by simp
  from rotor_arith [OF p s t assms(3) this] show ?thesis
    using sat_add_le [of ?p "sat_mul (sat_mul ?g n) SIDEBAND_BYTES"]
      sat_add_le [of "sat_add ?p (sat_mul (sat_mul ?g n) SIDEBAND_BYTES)" "sat_mul n SIDEBAND_BYTES"]
    by (simp add: packed_side_bytes_def Let_def)
qed

subsection \<open>The sign of the saving\<close>

lemma valid_mixed_sideD: "valid_mixed_side bits g \<Longrightarrow> 2 \<le> bits \<and> bits \<le> 8 \<and> 32 \<le> g"
  by (auto simp: valid_mixed_side_def)

lemma side_bytes_plain: "side_bytes packs e d n bits seed None \<le> 2 * e"
  using sat_mul_le [of e 2] by (simp add: side_bytes_def)

lemma side_bytes_store:
  "packed_side_bytes st bits e d n < 2 * e \<Longrightarrow> side_bytes True e d n bits False (Some st) < 2 * e"
  by (simp add: side_bytes_def sat_add_def)

lemma side_bytes_affine:
  "valid_mixed_side bits g \<Longrightarrow> 0 < e \<Longrightarrow> side_bytes True e d n bits False (Some (StAffine g)) < 2 * e"
  using valid_mixed_sideD [of bits g] by (intro side_bytes_store affine_side_lt) auto

lemma side_bytes_iso:
  "bits \<le> 4 \<Longrightarrow> 10 \<le> d \<Longrightarrow> 0 < n \<Longrightarrow> side_bytes True (n * d) d n bits False (Some StIsoRing) < 2 * (n * d)"
  by (intro side_bytes_store iso_ring_side_lt) auto

lemma side_bytes_rotor:
  "bits \<le> 4 \<Longrightarrow> 10 \<le> d \<Longrightarrow> 0 < n \<Longrightarrow> side_bytes True (n * d) d n bits False (Some StRotor) < 2 * (n * d)"
  by (intro side_bytes_store rotor_side_lt) auto

text \<open>The two sides of a codec that keeps a store and mirrors no quantised axis.\<close>

lemma store_sides_lt:
  assumes "kv_valid q" "materialises_packed_store q" "\<not> (uses_mixed_path q \<and> sh)" "10 \<le> d" "0 < n"
  shows "side_bytes True (n * d) d n (fst (approx_code_bits q)) (feeds_bf16_k_at_decode q sh) (fst (side_stores q)) +
         side_bytes True (n * d) d n (snd (approx_code_bits q)) (feeds_bf16_v_at_decode q sh) (snd (side_stores q))
         < 4 * (n * d)"
proof -
  have e: "0 < n * d" using assms(4,5) by simp
  have v8: "valid_mixed_side 8 64" by (simp add: valid_mixed_side_def)
  note A = side_bytes_affine [OF _ e, of _ _ d n]
  note I3 = side_bytes_iso [OF _ assms(4,5), of 3] and I4 = side_bytes_iso [OF _ assms(4,5), of 4]
  note R3 = side_bytes_rotor [OF _ assms(4,5), of 3] and R4 = side_bytes_rotor [OF _ assms(4,5), of 4]
  note P = side_bytes_plain [of True "n * d" d n 16 True]
  show ?thesis
  proof (cases q)
    case (Mixed kb vb kg vg)
    then show ?thesis using assms(1,3) A [of kb kg] A [of vb vg] by (simp add: codec_facts)
  next
    case (RotK vb vg)
    then show ?thesis using assms(1,3) A [OF v8] A [of vb vg] by (simp add: codec_facts)
  qed (use assms(2) I3 I4 R3 R4 P in \<open>simp_all add: codec_facts\<close>)
qed

definition unsaturated :: "nat \<Rightarrow> nat \<Rightarrow> nat \<Rightarrow> bool" where
  "unsaturated s d kvh \<longleftrightarrow> 10 \<le> d \<and> 0 < s \<and> 0 < kvh \<and> s * d * kvh \<le> 2 ^ 58"

lemma unsaturated_elems:
  assumes "unsaturated s d kvh"
  shows "sat_mul (sat_mul s d) kvh = (s * kvh) * d" "sat_mul s kvh = s * kvh" "(s * kvh) * d \<le> 2 ^ 58"
    "0 < s * kvh" "10 \<le> d"
proof -
  let ?e = "s * d * kvh"
  have e: "?e \<le> 2 ^ 58" and pos: "10 \<le> d" "0 < s" "0 < kvh" using assms by (auto simp: unsaturated_def)
  have b: "2 ^ 58 \<le> U64_MAX" by (simp add: U64_MAX_def)
  have "s * d \<le> ?e" "s * kvh \<le> ?e" using pos by simp_all
  then have "s * d \<le> U64_MAX" "s * kvh \<le> U64_MAX" "?e \<le> U64_MAX"
    using e b by (meson le_trans)+
  then show "sat_mul (sat_mul s d) kvh = (s * kvh) * d" "sat_mul s kvh = s * kvh"
    by (simp_all add: sat_mul_exact algebra_simps)
  show "(s * kvh) * d \<le> 2 ^ 58" using e by (simp add: algebra_simps)
  show "0 < s * kvh" "10 \<le> d" using pos by simp_all
qed

lemma bf16_estimate:
  assumes "unsaturated s d kvh"
  shows "estimated_resident_bytes_per_layer KvNone s d kvh sh = 4 * (s * kvh * d)"
proof -
  have "sat_mul (sat_mul (s * kvh * d) 2) 2 = 4 * (s * kvh * d)"
    using unsaturated_elems(3) [OF assms] by (simp add: sat_mul_def U64_MAX_def)
  then show ?thesis
    by (simp add: estimated_resident_bytes_per_layer_def unsaturated_elems(1,2) [OF assms] Let_def)
qed

lemma store_estimate_lt:
  assumes "kv_valid q" "materialises_packed_store q" "\<not> (uses_mixed_path q \<and> sh)" "unsaturated s d kvh"
  shows "estimated_resident_bytes_per_layer q s d kvh sh < 4 * (s * kvh * d)"
proof -
  have "q \<noteq> KvNone" using assms(2) by (auto simp: codec_facts)
  then show ?thesis
    using store_sides_lt [OF assms(1-3) unsaturated_elems(5,4) [OF assms(4)]] assms(2)
    by (simp add: estimated_resident_bytes_per_layer_def unsaturated_elems(1,2) [OF assms(4)]
        Let_def sat_add_def)
qed

lemma affine_side_pos:
  assumes "2 \<le> bits" "10 \<le> e" "e \<le> 2 ^ 58" "bits \<le> 8"
  shows "0 < packed_side_bytes (StAffine g) bits e d n"
proof -
  have "20 \<le> e * bits" using mult_le_mono [OF assms(2,1)] by simp
  then have "8 \<le> sat_mul e bits" by (simp add: sat_mul_def U64_MAX_def)
  then have "0 < sat_mul e bits div 8" by (simp add: div_greater_zero_iff)
  then show ?thesis by (simp add: packed_side_bytes_def sat_add_def U64_MAX_def)
qed

lemma side_bytes_seeded:
  assumes "valid_mixed_side bits g" "10 \<le> e" "e \<le> 2 ^ 58"
  shows "2 * e < side_bytes True e d n bits True (Some (StAffine g))"
proof -
  have "0 < packed_side_bytes (StAffine g) bits e d n"
    using valid_mixed_sideD [OF assms(1)] assms by (intro affine_side_pos) auto
  moreover have "sat_mul e 2 = 2 * e" using assms(3) by (simp add: sat_mul_def U64_MAX_def)
  moreover have "2 * e < U64_MAX" using assms(3) by (simp add: U64_MAX_def)
  ultimately show ?thesis by (simp add: side_bytes_def sat_add_def)
qed

lemma shared_estimate_gt:
  assumes "kv_valid q" "uses_mixed_path q" "unsaturated s d kvh"
  shows "4 * (s * kvh * d) < estimated_resident_bytes_per_layer q s d kvh True"
proof -
  let ?e = "s * kvh * d"
  have "10 * 1 \<le> d * (s * kvh)"
    using unsaturated_elems(4,5) [OF assms(3)] by (intro mult_le_mono) auto
  then have e: "10 \<le> ?e" "?e \<le> 2 ^ 58"
    using unsaturated_elems(3) [OF assms(3)] by (simp_all add: algebra_simps)
  have v8: "valid_mixed_side 8 64" by (simp add: valid_mixed_side_def)
  note S = side_bytes_seeded [OF _ e, of _ _ d "s * kvh"]
  have U: "4 * ?e < U64_MAX" using e(2) by (simp add: U64_MAX_def)
  show ?thesis
  proof (cases q)
    case (Mixed kb vb kg vg)
    then show ?thesis using assms(1) S [of kb kg] S [of vb vg] U
      by (simp add: estimated_resident_bytes_per_layer_def codec_facts
          unsaturated_elems(1,2) [OF assms(3)] sat_add_def Let_def)
  next
    case (RotK vb vg)
    then show ?thesis using assms(1) S [OF v8] S [of vb vg] U
      by (simp add: estimated_resident_bytes_per_layer_def codec_facts
          unsaturated_elems(1,2) [OF assms(3)] sat_add_def Let_def)
  qed (use assms(2) in \<open>simp_all add: codec_facts\<close>)
qed

lemma quad_lt_i64: "x \<le> 2 ^ 58 \<Longrightarrow> int (4 * x) < I64_MAX"
  by (simp add: I64_MAX_def)

lemma saving_eq:
  assumes "unsaturated s d kvh"
  shows "estimated_net_saving_per_layer q s d kvh False sh =
    int (4 * (s * kvh * d)) - min (int (estimated_resident_bytes_per_layer q s d kvh sh)) I64_MAX"
  using quad_lt_i64 [OF unsaturated_elems(3) [OF assms]]
  by (simp add: estimated_net_saving_per_layer_def bf16_estimate [OF assms] min_def
      del: of_nat_mult)

lemma min_sign:
  "int m < I \<Longrightarrow> (0 < int m - min (int x) I \<longleftrightarrow> x < m) \<and> (int m - min (int x) I = 0 \<longleftrightarrow> x = m) \<and>
     (int m - min (int x) I < 0 \<longleftrightarrow> m < x)"
  by (auto simp: min_def)

lemma saving_sign:
  assumes "unsaturated s d kvh"
  shows "(0 < estimated_net_saving_per_layer q s d kvh False sh \<longleftrightarrow>
            estimated_resident_bytes_per_layer q s d kvh sh < 4 * (s * kvh * d)) \<and>
         (estimated_net_saving_per_layer q s d kvh False sh = 0 \<longleftrightarrow>
            estimated_resident_bytes_per_layer q s d kvh sh = 4 * (s * kvh * d)) \<and>
         (estimated_net_saving_per_layer q s d kvh False sh < 0 \<longleftrightarrow>
            4 * (s * kvh * d) < estimated_resident_bytes_per_layer q s d kvh sh)"
  unfolding saving_eq [OF assms]
  by (rule min_sign [OF quad_lt_i64 [OF unsaturated_elems(3) [OF assms]]])

text \<open>The sign of a codec's estimated saving. On a full-attention layer whose size does
  not saturate the counters, a codec saves memory against bf16 exactly when it keeps a
  packed store, unless it is one of the affine codecs on a stack that shares its K/V;
  those keep the store on top of both mirrors and cost more than bf16. A codec without a
  store costs exactly what bf16 costs.
\<close>

theorem net_saving_sign:
  assumes "kv_valid q" "unsaturated s d kvh"
  shows "(0 < estimated_net_saving_per_layer q s d kvh False sh \<longleftrightarrow>
           materialises_packed_store q \<and> \<not> (uses_mixed_path q \<and> sh)) \<and>
         (estimated_net_saving_per_layer q s d kvh False sh = 0 \<longleftrightarrow> \<not> materialises_packed_store q) \<and>
         (estimated_net_saving_per_layer q s d kvh False sh < 0 \<longleftrightarrow> uses_mixed_path q \<and> sh)"
proof -
  let ?e = "s * kvh * d" and ?est = "estimated_resident_bytes_per_layer q s d kvh sh"
  have mp: "uses_mixed_path q \<Longrightarrow> materialises_packed_store q"
    by (cases q) (simp_all add: codec_facts)
  note i = saving_sign [OF assms(2), of q sh]
  consider (none) "\<not> materialises_packed_store q"
    | (store) "materialises_packed_store q" "\<not> (uses_mixed_path q \<and> sh)"
    | (shared) "uses_mixed_path q" sh by blast
  then show ?thesis
  proof cases
    case none
    then have "?est = 4 * ?e" by (metis storeless_estimate bf16_estimate [OF assms(2)])
    with none mp i show ?thesis by auto
  next
    case store
    with i store_estimate_lt [OF assms(1) store assms(2)] show ?thesis by auto
  next
    case shared
    have "4 * ?e < ?est" using shared_estimate_gt [OF assms(1) shared(1) assms(2)] shared(2) by simp
    with i mp shared show ?thesis by auto
  qed
qed

theorem net_saving_sign_witness:
  "0 < estimated_net_saving_per_layer (Mixed 8 4 64 64) 4096 128 8 False False \<and>
   estimated_net_saving_per_layer (Mixed 8 4 64 64) 4096 128 8 False True < 0 \<and>
   estimated_net_saving_per_layer K8V4 4096 128 8 False False = 0"
proof -
  have u: "unsaturated 4096 128 8" by (simp add: unsaturated_def)
  have v: "kv_valid (Mixed 8 4 64 64)" "kv_valid K8V4" by (simp_all add: valid_mixed_side_def)
  show ?thesis
    using net_saving_sign [OF v(1) u, of False] net_saving_sign [OF v(1) u, of True]
      net_saving_sign [OF v(2) u, of False]
    by (simp add: codec_facts)
qed

subsection \<open>The documented rates\<close>

lemma plane_bytes_exact:
  assumes "n \<le> 2 ^ 40" "row_words c bits \<le> 2 ^ 10"
  shows "plane_bytes c bits n = 4 * row_words c bits * n"
proof -
  have m: "row_words c bits * n \<le> 2 ^ 10 * 2 ^ 40" using mult_le_mono [OF assms(2,1)] .
  have "sat_mul (row_words c bits) 4 = row_words c bits * 4"
    using assms(2) by (simp add: sat_mul_def U64_MAX_def)
  moreover have "sat_mul (row_words c bits * 4) n = row_words c bits * 4 * n"
    using m by (simp add: sat_mul_def U64_MAX_def)
  ultimately show ?thesis by (simp add: plane_bytes_def)
qed

text \<open>
  The stored rates the documentation quotes at \<^verbatim>\<open>head_dim = 128\<close>, in thousandths of a
  bit per value (\<open>128 n\<close> values, eight bits a byte): 7.125 and 8.125 for the iso ring,
  8.750 and 9.750 for rotor, 22.00 for planar at either width, 43.25 for the iso CPU
  blocks at three bits, and 8.5 for an eight-bit affine side at group 64.
\<close>

theorem documented_rates:
  assumes "n \<le> 2 ^ 40"
  shows "8000 * packed_side_bytes StIsoRing 3 (128 * n) 128 n = 7125 * (128 * n) \<and>
         8000 * packed_side_bytes StIsoRing 4 (128 * n) 128 n = 8125 * (128 * n) \<and>
         8000 * packed_side_bytes StRotor 3 (128 * n) 128 n = 8750 * (128 * n) \<and>
         8000 * packed_side_bytes StRotor 4 (128 * n) 128 n = 9750 * (128 * n) \<and>
         8000 * packed_side_bytes StPlanar 3 (128 * n) 128 n = 22000 * (128 * n) \<and>
         8000 * packed_side_bytes StPlanar 4 (128 * n) 128 n = 22000 * (128 * n) \<and>
         8000 * packed_side_bytes StIsoBlocks 3 (128 * n) 128 n = 43250 * (128 * n) \<and>
         8000 * packed_side_bytes (StAffine 64) 8 (128 * n) 128 n = 8500 * (128 * n)"
proof -
  note P = plane_bytes_exact [OF assms]
  have g: "128 * n div 4 = 32 * n" "128 * n div 32 = 4 * n" "128 * n div 2 = 64 * n"
    "128 * n div 64 = 2 * n" "1024 * n div 8 = 128 * n" by simp_all
  show ?thesis
    using assms P [of 128 3] P [of 128 4] P [of 129 3] P [of 129 4]
    by (simp add: packed_side_bytes_def Let_def row_words_def div_ceil_def g sat_mul_def sat_add_def
        U64_MAX_def SIDEBAND_BYTES_def AFFINE_SIDEBAND_BYTES_PER_GROUP_def min_def)
qed

theorem documented_rates_witness:
  "8000 * packed_side_bytes StIsoRing 3 (128 * 1000) 128 1000 = 7125 * (128 * (1000 :: nat))"
  using documented_rates [of 1000] by simp

end
