(* ===== verification/KvSpelling.thy ===== *)
theory KvSpelling
  imports KvQuant BlockHash
begin

text \<open>
  The spellings of the codecs: \<^verbatim>\<open>Display\<close>, \<^verbatim>\<open>FromStr\<close>, the metrics label and the cache salt
  of \<^verbatim>\<open>rmlx-kv-quant/src/quant.rs\<close>. The texts of the errors are not modelled, their
  cases are: a parse error carries the input and which component was wrong.
  Integers are parsed as \<^verbatim>\<open>u8::from_str\<close> and \<^verbatim>\<open>u16::from_str\<close> do, an optional plus sign and
  then at least one digit, with the overflow check of each step.

  Main result: the codecs the parser can return are exactly the valid ones, and each is
  read back from its own display text.
\<close>

section \<open>Decimal numbers\<close>

definition digit_char :: "nat \<Rightarrow> char" where "digit_char d = char_of (48 + d)"

fun show_nat :: "nat \<Rightarrow> string" where
  "show_nat n = (if n < 10 then [digit_char n] else show_nat (n div 10) @ [digit_char (n mod 10)])"

declare show_nat.simps [simp del]

definition digit_val :: "char \<Rightarrow> nat option" where
  "digit_val c = (let k = of_char c :: nat in if 48 \<le> k \<and> k \<le> 57 then Some (k - 48) else None)"

datatype num_error = NumEmpty | NumInvalidDigit | NumPosOverflow

fun parse_digits :: "nat \<Rightarrow> nat \<Rightarrow> string \<Rightarrow> num_error + nat" where
  "parse_digits mx acc [] = Inr acc"
| "parse_digits mx acc (c # cs) =
     (case digit_val c of
        None \<Rightarrow> Inl NumInvalidDigit
      | Some x \<Rightarrow> if mx < acc * 10 + x then Inl NumPosOverflow else parse_digits mx (acc * 10 + x) cs)"

definition parse_uint :: "nat \<Rightarrow> string \<Rightarrow> num_error + nat" where
  "parse_uint mx s =
     (case s of
        [] \<Rightarrow> Inl NumEmpty
      | c # cs \<Rightarrow>
          if c = CHR ''+'' then (if cs = [] then Inl NumInvalidDigit else parse_digits mx 0 cs)
          else parse_digits mx 0 s)"

definition parse_u8 :: "string \<Rightarrow> num_error + nat" where "parse_u8 = parse_uint 255"
definition parse_u16 :: "string \<Rightarrow> num_error + nat" where "parse_u16 = parse_uint 65535"

lemma digit_val_char [simp]: "d < 10 \<Longrightarrow> digit_val (digit_char d) = Some d"
  by (simp add: digit_val_def digit_char_def)

lemma digit_char_neq:
  "d < 10 \<Longrightarrow> digit_val c = None \<Longrightarrow> digit_char d \<noteq> c"
  using digit_val_char by fastforce

lemma show_nat_ne [simp]: "show_nat n \<noteq> []"
  by (subst show_nat.simps) simp

lemma show_nat_digits: "c \<in> set (show_nat n) \<Longrightarrow> \<exists>d < 10. c = digit_char d"
proof (induction n rule: show_nat.induct)
  case (1 n)
  have "\<exists>d<10. digit_char (n mod 10) = digit_char d" by (rule exI [of _ "n mod 10"]) simp
  with 1 show ?case by (subst (asm) (2) show_nat.simps) (auto split: if_splits)
qed

lemma show_nat_not_in: "digit_val c = None \<Longrightarrow> c \<notin> set (show_nat n)"
  using show_nat_digits digit_char_neq by blast

lemma parse_digits_append:
  "parse_digits mx acc (xs @ ys) =
     (case parse_digits mx acc xs of Inl e \<Rightarrow> Inl e | Inr a \<Rightarrow> parse_digits mx a ys)"
  by (induction xs arbitrary: acc) (auto split: option.splits)

lemma parse_digits_show: "n \<le> mx \<Longrightarrow> parse_digits mx 0 (show_nat n) = Inr n"
proof (induction n rule: show_nat.induct)
  case (1 n)
  show ?case
  proof (cases "n < 10")
    case True
    with "1.prems" show ?thesis by (subst show_nat.simps) simp
  next
    case False
    then have "parse_digits mx 0 (show_nat (n div 10)) = Inr (n div 10)"
      using 1 by simp
    moreover have "n div 10 * 10 + n mod 10 = n" by simp
    ultimately show ?thesis using False "1.prems"
      by (subst show_nat.simps) (simp add: parse_digits_append)
  qed
qed

lemma parse_uint_show [simp]: "n \<le> mx \<Longrightarrow> parse_uint mx (show_nat n) = Inr n"
proof -
  assume n: "n \<le> mx"
  obtain c cs where s: "show_nat n = c # cs" by (cases "show_nat n") auto
  have "digit_val (CHR ''+'') = None" by (simp add: digit_val_def)
  then have "c \<noteq> CHR ''+''" using show_nat_not_in [of "CHR ''+''" n] s by auto
  then show ?thesis using parse_digits_show [OF n] s by (simp add: parse_uint_def)
qed

section \<open>String helpers\<close>

fun strip_prefix :: "string \<Rightarrow> string \<Rightarrow> string option" where
  "strip_prefix [] s = Some s"
| "strip_prefix (p # ps) [] = None"
| "strip_prefix (p # ps) (c # cs) = (if p = c then strip_prefix ps cs else None)"

text \<open>\<^verbatim>\<open>str::split_once\<close> at the first occurrence of a separator.\<close>

fun split_once :: "string \<Rightarrow> string \<Rightarrow> (string \<times> string) option" where
  "split_once sep s =
     (case strip_prefix sep s of
        Some rest \<Rightarrow> Some ([], rest)
      | None \<Rightarrow>
          (case s of
             [] \<Rightarrow> None
           | c # cs \<Rightarrow> map_option (\<lambda>(a, b). (c # a, b)) (split_once sep cs)))"

declare split_once.simps [simp del]

lemma split_once_skip:
  "sep = p # ps \<Longrightarrow> p \<notin> set xs \<Longrightarrow> split_once sep (xs @ sep @ rest) = Some (xs, rest)"
proof (induction xs)
  case Nil
  have "strip_prefix sep (sep @ rest) = Some rest" by (induction sep) auto
  then show ?case by (subst split_once.simps) simp
next
  case (Cons x xs)
  then have "strip_prefix sep (x # xs @ sep @ rest) = None" by simp
  moreover have "split_once sep (xs @ sep @ rest) = Some (xs, rest)" using Cons by simp
  ultimately show ?case by (subst split_once.simps) simp
qed

section \<open>Display\<close>

fun display_spelling :: "spelling \<Rightarrow> string" where
  "display_spelling (Fixed t) = t"
| "display_spelling (SpMixed kb vb kg vg) =
     ''mixed_k'' @ show_nat kb @ ''g'' @ show_nat kg @ ''_v'' @ show_nat vb @ ''g'' @ show_nat vg"
| "display_spelling (SpRotK vb vg) = ''rot_k_v'' @ show_nat vb @ ''g'' @ show_nat vg"
| "display_spelling (SpRotorKAsym kb vb vg) =
     ''rotor_k_'' @ show_nat kb @ ''_asym_v'' @ show_nat vb @ ''_g'' @ show_nat vg"

definition kv_display :: "kv_quant \<Rightarrow> string" where
  "kv_display q = display_spelling (cd_spelling (descriptor q))"

fun kv_quant_label :: "kv_quant option \<Rightarrow> string" where
  "kv_quant_label None = ''auto''"
| "kv_quant_label (Some (Mixed kb vb kg vg)) = ''mixed''"
| "kv_quant_label (Some (RotK vb vg)) = ''rot_k''"
| "kv_quant_label (Some q) = kv_display q"

definition cache_key_salt :: "kv_quant \<Rightarrow> u64" where
  "cache_key_salt q = fnv1a64_seeded (map of_char (kv_display q)) FNV_OFFSET"

section \<open>FromStr\<close>

datatype spec_error =
    MissingPrefix
  | MissingSeparator
  | BadBits num_error
  | BadGroup num_error
  | UnsupportedTuple nat nat

datatype kv_quant_parse_error =
    Unknown string
  | InvalidMixed string spec_error
  | Retired string string
  | InvalidRotorKAsym string spec_error
  | InvalidRotK string spec_error

definition validate_rotor_k_asym_v :: "nat \<Rightarrow> nat \<Rightarrow> spec_error + unit" where
  "validate_rotor_k_asym_v v_bits v_group_size =
     (if valid_rotor_k_asym_v v_bits v_group_size then Inr ()
      else Inl (UnsupportedTuple v_bits v_group_size))"

definition validate_mixed_side :: "nat \<Rightarrow> nat \<Rightarrow> spec_error + unit" where
  "validate_mixed_side bits group_size =
     (if valid_mixed_side bits group_size then Inr () else Inl (UnsupportedTuple bits group_size))"

text \<open>The two integers around a separator, the width first.\<close>

definition parse_pair :: "string \<Rightarrow> string \<Rightarrow> spec_error + nat \<times> nat" where
  "parse_pair sep s =
     (case split_once sep s of
        None \<Rightarrow> Inl MissingSeparator
      | Some (bits_str, group_str) \<Rightarrow>
          (case parse_u8 bits_str of
             Inl e \<Rightarrow> Inl (BadBits e)
           | Inr bits \<Rightarrow>
               (case parse_u16 group_str of
                  Inl e \<Rightarrow> Inl (BadGroup e)
                | Inr grp \<Rightarrow> Inr (bits, grp))))"

definition parse_kv_side :: "string \<Rightarrow> char \<Rightarrow> spec_error + nat \<times> nat" where
  "parse_kv_side spec expected_prefix =
     (case strip_prefix [expected_prefix] spec of
        None \<Rightarrow> Inl MissingPrefix
      | Some rest \<Rightarrow> parse_pair ''g'' rest)"

definition parse_rotor_k_asym_v_suffix :: "string \<Rightarrow> spec_error + nat \<times> nat" where
  "parse_rotor_k_asym_v_suffix rest =
     (case strip_prefix ''v'' rest of
        None \<Rightarrow> Inl MissingPrefix
      | Some v_part \<Rightarrow>
          (case parse_pair ''_g'' v_part of
             Inl e \<Rightarrow> Inl e
           | Inr (vb, vg) \<Rightarrow>
               (case validate_rotor_k_asym_v vb vg of Inl e \<Rightarrow> Inl e | Inr _ \<Rightarrow> Inr (vb, vg))))"

definition parse_rot_k :: "string \<Rightarrow> spec_error + kv_quant" where
  "parse_rot_k rest =
     (case parse_pair ''g'' rest of
        Inl e \<Rightarrow> Inl e
      | Inr (vb, vg) \<Rightarrow>
          (case validate_mixed_side vb vg of Inl e \<Rightarrow> Inl e | Inr _ \<Rightarrow> Inr (RotK vb vg)))"

definition parse_mixed :: "string \<Rightarrow> spec_error + kv_quant" where
  "parse_mixed rest =
     (case split_once ''_'' rest of
        None \<Rightarrow> Inl MissingSeparator
      | Some (k_part, v_part) \<Rightarrow>
          (case parse_kv_side k_part (CHR ''k'') of
             Inl e \<Rightarrow> Inl e
           | Inr (kb, kg) \<Rightarrow>
               (case parse_kv_side v_part (CHR ''v'') of
                  Inl e \<Rightarrow> Inl e
                | Inr (vb, vg) \<Rightarrow>
                    (case validate_mixed_side kb kg of
                       Inl e \<Rightarrow> Inl e
                     | Inr _ \<Rightarrow>
                         (case validate_mixed_side vb vg of
                            Inl e \<Rightarrow> Inl e
                          | Inr _ \<Rightarrow> Inr (Mixed kb vb kg vg))))))"

definition KV_QUANT_ALIASES :: "(string \<times> kv_quant) list" where
  "KV_QUANT_ALIASES =
     [(''bf16'', KvNone), (''f16'', KvNone), (''rotor_v_3'', Rotor3), (''rotor_v_4'', Rotor4)]"

definition find_fixed :: "string \<Rightarrow> kv_quant option" where
  "find_fixed s = List.find (\<lambda>q. cd_spelling (descriptor q) = Fixed s) ALL_KV_QUANTS"

definition find_alias :: "string \<Rightarrow> kv_quant option" where
  "find_alias s = map_option snd (List.find (\<lambda>(name, _). name = s) KV_QUANT_ALIASES)"

definition kv_from_str :: "string \<Rightarrow> kv_quant_parse_error + kv_quant" where
  "kv_from_str s =
     (case (case find_fixed s of Some q \<Rightarrow> Some q | None \<Rightarrow> find_alias s) of
        Some q \<Rightarrow> Inr q
      | None \<Rightarrow>
          if s = ''rot_k_tq4v'' then Inl (Retired s ''rot_k_v4g64'')
          else
            (case strip_prefix ''rot_k_v'' s of
               Some rest \<Rightarrow>
                 (case parse_rot_k rest of Inl e \<Rightarrow> Inl (InvalidRotK s e) | Inr q \<Rightarrow> Inr q)
             | None \<Rightarrow>
                 (case strip_prefix ''rotor_k_3_asym_'' s of
                    Some rest \<Rightarrow>
                      (case parse_rotor_k_asym_v_suffix rest of
                         Inl e \<Rightarrow> Inl (InvalidRotorKAsym s e)
                       | Inr (vb, vg) \<Rightarrow> Inr (RotorK3Asym vb vg))
                  | None \<Rightarrow>
                      (case strip_prefix ''rotor_k_4_asym_'' s of
                         Some rest \<Rightarrow>
                           (case parse_rotor_k_asym_v_suffix rest of
                              Inl e \<Rightarrow> Inl (InvalidRotorKAsym s e)
                            | Inr (vb, vg) \<Rightarrow> Inr (RotorK4Asym vb vg))
                       | None \<Rightarrow>
                           (case strip_prefix ''mixed_'' s of
                              Some rest \<Rightarrow>
                                (case parse_mixed rest of
                                   Inl e \<Rightarrow> Inl (InvalidMixed s e)
                                 | Inr q \<Rightarrow> Inr q)
                            | None \<Rightarrow> Inl (Unknown s))))))"

section \<open>Round trip\<close>

lemma parse_pair_show:
  assumes "sep = p # ps" "digit_val p = None" "b \<le> 255" "g \<le> 65535"
  shows "parse_pair sep (show_nat b @ sep @ show_nat g) = Inr (b, g)"
  using assms split_once_skip [OF assms(1) show_nat_not_in [OF assms(2)], of b "show_nat g"]
  by (simp add: parse_pair_def parse_u8_def parse_u16_def)

lemma digit_val_seps [simp]: "digit_val (CHR ''g'') = None" "digit_val (CHR ''_'') = None"
  by (simp_all add: digit_val_def)

lemma parse_pair_g [simp]:
  "b \<le> 255 \<Longrightarrow> g \<le> 65535 \<Longrightarrow> parse_pair ''g'' (show_nat b @ CHR ''g'' # show_nat g) = Inr (b, g)"
  using parse_pair_show [of "''g''" "CHR ''g''" "[]" b g] by simp

lemma parse_pair_us [simp]:
  "b \<le> 255 \<Longrightarrow> g \<le> 65535 \<Longrightarrow>
    parse_pair ''_g'' (show_nat b @ CHR ''_'' # CHR ''g'' # show_nat g) = Inr (b, g)"
  using parse_pair_show [of "''_g''" "CHR ''_''" "''g''" b g] by simp

lemma valid_mixed_range: "valid_mixed_side b g \<Longrightarrow> b \<le> 255 \<and> g \<le> 65535"
  by (auto simp: valid_mixed_side_def)

lemma valid_asym_range: "valid_rotor_k_asym_v b g \<Longrightarrow> b \<le> 255 \<and> g \<le> 65535"
  by (auto simp: valid_rotor_k_asym_v_def)

lemma parse_kv_side_show [simp]:
  "b \<le> 255 \<Longrightarrow> g \<le> 65535 \<Longrightarrow> parse_kv_side (c # show_nat b @ CHR ''g'' # show_nat g) c = Inr (b, g)"
  by (simp add: parse_kv_side_def)

lemma parse_mixed_show:
  assumes "valid_mixed_side kb kg" "valid_mixed_side vb vg"
  shows "parse_mixed (CHR ''k'' # show_nat kb @ CHR ''g'' # show_nat kg @ ''_v'' @ show_nat vb @ CHR ''g'' # show_nat vg)
     = Inr (Mixed kb vb kg vg)"
proof -
  let ?k = "CHR ''k'' # show_nat kb @ CHR ''g'' # show_nat kg"
  have "CHR ''_'' \<notin> set ?k" using show_nat_not_in [of "CHR ''_''"] by simp
  from split_once_skip [OF refl this, of "[]"]
  have "split_once ''_'' (?k @ ''_'' @ (CHR ''v'' # show_nat vb @ CHR ''g'' # show_nat vg)) =
      Some (?k, CHR ''v'' # show_nat vb @ CHR ''g'' # show_nat vg)" by blast
  then show ?thesis
    using assms valid_mixed_range [OF assms(1)] valid_mixed_range [OF assms(2)]
    by (simp add: parse_mixed_def validate_mixed_side_def)
qed

lemma show_3_4 [simp]: "show_nat 3 = ''3''" "show_nat 4 = ''4''"
  by (simp_all add: show_nat.simps digit_char_def char_of_def bit_simps)

lemmas find_defs = find_fixed_def find_alias_def ALL_KV_QUANTS_def KV_QUANT_ALIASES_def

lemma kv_from_str_display: "kv_valid q \<Longrightarrow> kv_from_str (kv_display q) = Inr q"
proof (cases q)
  case (Mixed kb vb kg vg)
  assume "kv_valid q"
  with Mixed parse_mixed_show [of kb kg vb vg] show ?thesis
    by (simp add: kv_from_str_def kv_display_def find_defs)
next
  case (RotK vb vg)
  assume "kv_valid q"
  with RotK valid_mixed_range [of vb vg] show ?thesis
    by (simp add: kv_from_str_def kv_display_def find_defs parse_rot_k_def validate_mixed_side_def)
next
  case (RotorK3Asym vb vg)
  assume "kv_valid q"
  with RotorK3Asym valid_asym_range [of vb vg] show ?thesis
    by (simp add: kv_from_str_def kv_display_def find_defs parse_rotor_k_asym_v_suffix_def
        validate_rotor_k_asym_v_def)
next
  case (RotorK4Asym vb vg)
  assume "kv_valid q"
  with RotorK4Asym valid_asym_range [of vb vg] show ?thesis
    by (simp add: kv_from_str_def kv_display_def find_defs parse_rotor_k_asym_v_suffix_def
        validate_rotor_k_asym_v_def)
qed (simp_all add: kv_from_str_def kv_display_def find_defs)

lemma find_fixed_valid: "find_fixed s = Some q \<Longrightarrow> kv_valid q"
  by (auto simp: find_defs valid_mixed_side_def valid_rotor_k_asym_v_def split: if_splits)

lemma find_alias_valid: "find_alias s = Some q \<Longrightarrow> kv_valid q"
  by (auto simp: find_defs split: if_splits)

lemma parse_rot_k_valid: "parse_rot_k r = Inr q \<Longrightarrow> kv_valid q"
  by (auto simp: parse_rot_k_def validate_mixed_side_def split: sum.splits prod.splits if_splits)

lemma parse_mixed_valid: "parse_mixed r = Inr q \<Longrightarrow> kv_valid q"
  by (auto simp: parse_mixed_def validate_mixed_side_def
      split: option.splits sum.splits prod.splits if_splits)

lemma parse_suffix_valid: "parse_rotor_k_asym_v_suffix r = Inr (b, g) \<Longrightarrow> valid_rotor_k_asym_v b g"
  by (auto simp: parse_rotor_k_asym_v_suffix_def validate_rotor_k_asym_v_def
      split: option.splits sum.splits prod.splits if_splits)

lemma kv_from_str_valid:
  assumes "kv_from_str s = Inr q"
  shows "kv_valid q"
proof -
  consider "find_fixed s = Some q" | "find_alias s = Some q"
    | r where "parse_rot_k r = Inr q"
    | r vb vg where "parse_rotor_k_asym_v_suffix r = Inr (vb, vg)" "q = RotorK3Asym vb vg \<or> q = RotorK4Asym vb vg"
    | r where "parse_mixed r = Inr q"
    using assms unfolding kv_from_str_def
    by (simp split: option.splits sum.splits prod.splits if_splits)
  then show ?thesis
    by cases (auto dest: find_fixed_valid find_alias_valid parse_rot_k_valid parse_mixed_valid
        parse_suffix_valid)
qed

text \<open>C19: Printing and parsing. The codecs \<^verbatim>\<open>FromStr\<close> can return are exactly the valid ones (no
  string yields a width or group the store cannot build), and a codec is read back from
  its own \<^verbatim>\<open>Display\<close> text exactly when it is valid.
\<close>

theorem parse_display_roundtrip:
  "(kv_from_str (kv_display q) = Inr q \<longleftrightarrow> kv_valid q) \<and> (kv_valid q \<longleftrightarrow> (\<exists>s. kv_from_str s = Inr q))"
  using kv_from_str_display kv_from_str_valid by blast

lemma kv_display_inj: "kv_valid q \<Longrightarrow> kv_valid q' \<Longrightarrow> kv_display q = kv_display q' \<Longrightarrow> q = q'"
  by (metis kv_from_str_display sum.inject(2))

section \<open>The cache salts\<close>

lemma show_64 [simp]: "show_nat 64 = ''64''" "show_nat 8 = ''8''"
  by (simp_all add: show_nat.simps digit_char_def char_of_def bit_simps)

lemma salt_values:
  "map cache_key_salt ALL_KV_QUANTS =
     [4327140908117611899, 4987010730043946332, 4987015128090459176, 16709843012807770241,
      18292750992612454006, 13106174485578802339, 16750193004657402679, 1696189532966719150,
      11055115583382303421, 9543332610480143627, 11055114483870675210, 7590553752816444830,
      13055210311492183443, 13055215809050324498, 7331184842935624871, 7331181544400740238,
      14053554315201361119, 18276969853301973266, 14280251592869207365, 14280243896287809888,
      10363256584548320672, 10363264281129718149, 14283480549235966972, 11826870121038702709,
      13570284863844351518, 13570288162379236151, 2872083929385069641, 16421052906698478936]"
  by code_simp

text \<open>
  Codec isolation. The salts folded into the prompt-cache key are pairwise different
  over the listed codecs (every codec of the enum, the four with fields at their
  representative values).
\<close>

theorem codec_salts_distinct: "distinct (map cache_key_salt ALL_KV_QUANTS)"
  by (simp add: salt_values)

end
