(* ===== verification/KvLayers.thy ===== *)
theory KvLayers
  imports KvSpelling
begin

text \<open>
  The layer policy of \<^verbatim>\<open>rmlx-models/src/kv_cache/mod.rs\<close>: the codec of each decoder layer,
  the boundary floor, the boundary counts with their parser, the install-once cell that
  governs them, the net-benefit total, and the per-request cache seed of
  \<^verbatim>\<open>prompt_cache.rs\<close> that folds the vector.

  The two process globals (\<^verbatim>\<open>KV_BOUNDARY\<close> and its read latch) are one record, passed and
  returned. The lemmas: the floor is 8 bits on both axes and never costs more than bf16,
  exactly the head and tail layers of a quantizing codec are promoted, and a boundary
  that has been read can no longer change.
\<close>

section \<open>The layer policy\<close>

definition LAYER_ADAPTIVE_TAIL_N :: nat where "LAYER_ADAPTIVE_TAIL_N = 8"
definition LAYER_ADAPTIVE_HEAD_N :: nat where "LAYER_ADAPTIVE_HEAD_N = 2"
definition MODEL_DTYPE_CODE_BITS :: nat where "MODEL_DTYPE_CODE_BITS = 16"
definition FLOOR_BITS :: nat where "FLOOR_BITS = 8"

definition base_is_unquantized :: "kv_quant \<Rightarrow> bool" where
  "base_is_unquantized base_quant =
     (case approx_code_bits base_quant of
        (k_bits, v_bits) \<Rightarrow> MODEL_DTYPE_CODE_BITS \<le> k_bits \<and> MODEL_DTYPE_CODE_BITS \<le> v_bits)"

definition boundary_floor :: "kv_quant \<Rightarrow> bool \<Rightarrow> kv_quant" where
  "boundary_floor base_quant shares_kv =
     (let target =
        (case base_quant of
           Mixed kb vb kg vg \<Rightarrow> Mixed (max kb FLOOR_BITS) (max vb FLOOR_BITS) kg vg
         | RotK vb vg \<Rightarrow> RotK (max vb FLOOR_BITS) vg
         | _ \<Rightarrow> K8V8)
      in if feeds_bf16_k_at_decode target shares_kv \<and> feeds_bf16_v_at_decode target shares_kv
         then K8V8 else target)"

definition kv_quant_for_layer :: "nat \<Rightarrow> nat \<Rightarrow> kv_quant \<Rightarrow> nat \<Rightarrow> nat \<Rightarrow> bool \<Rightarrow> kv_quant" where
  "kv_quant_for_layer layer_idx n_layers base_quant tail_n head_n shares_kv =
     (let is_tail = 0 < tail_n \<and> n_layers - tail_n \<le> layer_idx;
          is_head = 0 < head_n \<and> layer_idx < head_n
      in if (is_tail \<or> is_head) \<and> \<not> base_is_unquantized base_quant
         then boundary_floor base_quant shares_kv else base_quant)"

record kv_boundary =
  head_n :: nat
  tail_n :: nat

definition boundary_default :: kv_boundary where
  "boundary_default = \<lparr>head_n = LAYER_ADAPTIVE_HEAD_N, tail_n = LAYER_ADAPTIVE_TAIL_N\<rparr>"

definition kv_layer_quants_at :: "nat \<Rightarrow> kv_quant \<Rightarrow> bool \<Rightarrow> kv_boundary \<Rightarrow> kv_quant list" where
  "kv_layer_quants_at n_layers base shares_kv boundary =
     map (\<lambda>i. kv_quant_for_layer i n_layers base (tail_n boundary) (head_n boundary) shares_kv)
       [0..<n_layers]"

section \<open>The boundary cell\<close>

record boundary_cell =
  installed :: "kv_boundary option"
  was_read :: bool

definition boundary_cell_new :: boundary_cell where
  "boundary_cell_new = \<lparr>installed = None, was_read = False\<rparr>"

datatype kv_boundary_install_error =
    AlreadyRead kv_boundary kv_boundary
  | AlreadyInstalled kv_boundary kv_boundary

definition active_kv_boundary :: "boundary_cell \<Rightarrow> boundary_cell \<times> kv_boundary" where
  "active_kv_boundary c =
     (c\<lparr>was_read := True\<rparr>, case installed c of Some b \<Rightarrow> b | None \<Rightarrow> boundary_default)"

definition install_kv_boundary ::
    "kv_boundary option \<Rightarrow> boundary_cell \<Rightarrow> boundary_cell \<times> (kv_boundary_install_error + unit)" where
  "install_kv_boundary boundary c =
     (let requested = (case boundary of Some b \<Rightarrow> b | None \<Rightarrow> boundary_default)
      in case installed c of
           Some b \<Rightarrow> (c, if b = requested then Inr () else Inl (AlreadyInstalled b requested))
         | None \<Rightarrow>
             if was_read c then (c, Inl (AlreadyRead boundary_default requested))
             else (c\<lparr>installed := Some requested\<rparr>, Inr ()))"

definition kv_layer_quants ::
    "nat \<Rightarrow> kv_quant \<Rightarrow> bool \<Rightarrow> boundary_cell \<Rightarrow> boundary_cell \<times> kv_quant list" where
  "kv_layer_quants n_layers base shares_kv c =
     (case active_kv_boundary c of
        (c', b) \<Rightarrow> (c', kv_layer_quants_at n_layers base shares_kv b))"

section \<open>Parsing the counts\<close>

definition MAX_BOUNDARY_LAYERS :: nat where "MAX_BOUNDARY_LAYERS = 512"

datatype boundary_side = HeadSide | TailSide

datatype kv_boundary_parse_error =
    Shape string
  | NotANumber string string
  | TooLarge boundary_side nat nat

fun split_char :: "char \<Rightarrow> string \<Rightarrow> string list" where
  "split_char sep [] = [[]]"
| "split_char sep (c # cs) =
     (if c = sep then [] # split_char sep cs
      else case split_char sep cs of [] \<Rightarrow> [[c]] | w # ws \<Rightarrow> (c # w) # ws)"

definition is_space :: "char \<Rightarrow> bool" where
  "is_space c \<longleftrightarrow> (let k = of_char c :: nat in k \<in> {9, 10, 11, 12, 13, 32})"

definition trim :: "string \<Rightarrow> string" where
  "trim s = rev (dropWhile is_space (rev (dropWhile is_space s)))"

definition USIZE_MAX :: nat where "USIZE_MAX = 2 ^ 64 - 1"

definition boundary_parse :: "string \<Rightarrow> kv_boundary_parse_error + kv_boundary" where
  "boundary_parse v =
     (case split_char (CHR '','') v of
        [h, t] \<Rightarrow>
          (case parse_uint USIZE_MAX (trim h) of
             Inl _ \<Rightarrow> Inl (NotANumber h v)
           | Inr hn \<Rightarrow>
               (case parse_uint USIZE_MAX (trim t) of
                  Inl _ \<Rightarrow> Inl (NotANumber t v)
                | Inr tn \<Rightarrow>
                    if MAX_BOUNDARY_LAYERS < hn then Inl (TooLarge HeadSide hn MAX_BOUNDARY_LAYERS)
                    else if MAX_BOUNDARY_LAYERS < tn then Inl (TooLarge TailSide tn MAX_BOUNDARY_LAYERS)
                    else Inr \<lparr>head_n = hn, tail_n = tn\<rparr>))
      | _ \<Rightarrow> Inl (Shape v))"

definition decode_config :: "kv_boundary \<Rightarrow> string option" where
  "decode_config b =
     (if b \<noteq> boundary_default
      then Some (''kv_boundary/head='' @ show_nat (head_n b) @ '',kv_boundary/tail='' @ show_nat (tail_n b))
      else None)"

section \<open>The net-benefit total\<close>

record kv_layer_shape =
  head_dim :: nat
  kv_heads :: nat
  window :: "nat option"

definition sat_addi :: "int \<Rightarrow> int \<Rightarrow> int" where
  "sat_addi a b = max (- I64_MAX - 1) (min I64_MAX (a + b))"

fun net_saving_loop ::
    "kv_quant \<Rightarrow> nat \<Rightarrow> bool \<Rightarrow> kv_layer_shape list \<Rightarrow> int \<times> nat \<times> nat \<Rightarrow> int \<times> nat \<times> nat" where
  "net_saving_loop q eff_seq shares_kv [] acc = acc"
| "net_saving_loop q eff_seq shares_kv (l # ls) (tot, n_global, n_windowed) =
     (let is_windowed = window l \<noteq> None;
          s = (case window l of Some w \<Rightarrow> min eff_seq w | None \<Rightarrow> eff_seq)
      in net_saving_loop q eff_seq shares_kv ls
           (sat_addi tot (estimated_net_saving_per_layer q s (head_dim l) (kv_heads l) is_windowed shares_kv),
            if is_windowed then n_global else Suc n_global,
            if is_windowed then Suc n_windowed else n_windowed))"

definition kv_codec_net_saving_total ::
    "kv_quant \<Rightarrow> kv_layer_shape list \<Rightarrow> nat \<Rightarrow> bool \<Rightarrow> int \<times> nat \<times> nat" where
  "kv_codec_net_saving_total q layers eff_seq shares_kv =
     (if q = KvNone \<or> layers = [] then (0, 0, 0)
      else net_saving_loop q eff_seq shares_kv layers (0, 0, 0))"

definition warn_if_kv_codec_net_negative ::
    "kv_quant \<Rightarrow> kv_layer_shape list \<Rightarrow> nat \<Rightarrow> bool \<Rightarrow> bool" where
  "warn_if_kv_codec_net_negative q layers eff_seq shares_kv \<longleftrightarrow>
     fst (kv_codec_net_saving_total q layers eff_seq shares_kv) < 0"

definition DEFAULT_KV_QUANT :: kv_quant where "DEFAULT_KV_QUANT = KvNone"

section \<open>The request seed\<close>

definition request_cache_seed ::
    "u64 \<Rightarrow> kv_quant \<Rightarrow> nat \<Rightarrow> bool \<Rightarrow> u64 \<Rightarrow> boundary_cell \<Rightarrow> boundary_cell \<times> u64" where
  "request_cache_seed layout_key q n_layers shares_kv model_sig c =
     (case kv_layer_quants n_layers q shares_kv c of
        (c', qs) \<Rightarrow> (c', cache_seed layout_key (cache_key_salt q) (map cache_key_salt qs) model_sig))"

section \<open>The floor\<close>

lemma unquantized_iff: "kv_valid q \<Longrightarrow> base_is_unquantized q \<longleftrightarrow> q = KvNone"
  by (cases q) (auto simp: base_is_unquantized_def codec_facts MODEL_DTYPE_CODE_BITS_def
      valid_mixed_side_def valid_rotor_k_asym_v_def)

lemma valid_mixed_floor: "valid_mixed_side b g \<Longrightarrow> valid_mixed_side (max b FLOOR_BITS) g"
  by (auto simp: valid_mixed_side_def FLOOR_BITS_def)

lemmas floor_facts = boundary_floor_def codec_facts FLOOR_BITS_def

lemma boundary_floor_valid: "kv_valid q \<Longrightarrow> kv_valid (boundary_floor q sh)"
  by (cases q) (auto simp: boundary_floor_def Let_def valid_mixed_floor)

lemma boundary_floor_cases:
  "boundary_floor q sh = K8V8 \<or> \<not> sh \<and> uses_mixed_path q \<and> uses_mixed_path (boundary_floor q sh)"
  by (cases q) (auto simp: floor_facts Let_def)

lemma boundary_floor_bits:
  "8 \<le> fst (approx_code_bits (boundary_floor q sh)) \<and> 8 \<le> snd (approx_code_bits (boundary_floor q sh))"
  by (cases q) (auto simp: floor_facts Let_def)

lemma boundary_floor_idem: "boundary_floor (boundary_floor q sh) sh = boundary_floor q sh"
  by (cases q) (auto simp: floor_facts Let_def)

text \<open>The boundary floor. The codec a boundary layer is promoted to is one the store can
  build, holds at least 8 bits on both axes, is a fixed point of the promotion, keeps a
  packed store only for the affine codecs on a stack that does not share its K/V, and is
  never estimated above bf16.
\<close>

theorem boundary_floor_bounds:
  assumes "kv_valid q" "unsaturated s d kvh"
  shows "kv_valid (boundary_floor q sh) \<and>
    8 \<le> fst (approx_code_bits (boundary_floor q sh)) \<and>
    8 \<le> snd (approx_code_bits (boundary_floor q sh)) \<and>
    boundary_floor (boundary_floor q sh) sh = boundary_floor q sh \<and>
    (materialises_packed_store (boundary_floor q sh) \<longleftrightarrow> uses_mixed_path q \<and> \<not> sh) \<and>
    estimated_resident_bytes_per_layer (boundary_floor q sh) s d kvh sh
      \<le> estimated_resident_bytes_per_layer KvNone s d kvh sh"
proof -
  have m: "materialises_packed_store (boundary_floor q sh) \<longleftrightarrow> uses_mixed_path q \<and> \<not> sh"
    by (cases q) (auto simp: floor_facts Let_def)
  have "estimated_resident_bytes_per_layer (boundary_floor q sh) s d kvh sh
      \<le> estimated_resident_bytes_per_layer KvNone s d kvh sh"
  proof (cases "materialises_packed_store (boundary_floor q sh)")
    case True
    then have "\<not> (uses_mixed_path (boundary_floor q sh) \<and> sh)" using m by simp
    from store_estimate_lt [OF boundary_floor_valid [OF assms(1)] True this assms(2)]
    show ?thesis by (simp add: bf16_estimate [OF assms(2)])
  next
    case False
    then show ?thesis by (metis storeless_estimate order_refl)
  qed
  with m show ?thesis
    using boundary_floor_valid [OF assms(1)] boundary_floor_bits boundary_floor_idem by simp
qed

theorem boundary_floor_bounds_witness:
  "boundary_floor (Mixed 4 4 64 64) False = Mixed 8 8 64 64 \<and>
   estimated_resident_bytes_per_layer (boundary_floor (Mixed 4 4 64 64) False) 4096 128 8 False
     \<le> estimated_resident_bytes_per_layer KvNone 4096 128 8 False"
proof -
  have u: "unsaturated 4096 128 8" by (simp add: unsaturated_def)
  have v: "kv_valid (Mixed 4 4 64 64)" by (simp add: valid_mixed_side_def)
  show ?thesis
    using boundary_floor_bounds [OF v u, of False] by (simp add: floor_facts Let_def)
qed

section \<open>The layer vector\<close>

lemma layer_at:
  "kv_quant_for_layer i n q t h sh =
     (if (0 < t \<and> n - t \<le> i \<or> 0 < h \<and> i < h) \<and> \<not> base_is_unquantized q
      then boundary_floor q sh else q)"
  by (simp add: kv_quant_for_layer_def Let_def)

text \<open>
  The codec vector of a model. A codec that quantizes nothing is used on every layer;
  any other gets the floor on exactly the configured head and tail layers and runs as
  requested on all layers between them.
\<close>

theorem layer_vector_shape:
  assumes "head_n b + tail_n b \<le> n"
  shows "kv_layer_quants_at n q sh b =
    (if base_is_unquantized q then replicate n q
     else replicate (head_n b) (boundary_floor q sh) @ replicate (n - head_n b - tail_n b) q @
          replicate (tail_n b) (boundary_floor q sh))"
    (is "?l = ?r")
proof (rule nth_equalityI)
  show "length ?l = length ?r" using assms by (simp add: kv_layer_quants_at_def)
next
  fix i assume "i < length ?l"
  then have "i < n" by (simp add: kv_layer_quants_at_def)
  then show "?l ! i = ?r ! i"
    using assms by (auto simp: kv_layer_quants_at_def layer_at nth_append)
qed

theorem layer_vector_shape_witness:
  "kv_layer_quants_at 12 (Mixed 8 4 64 64) False boundary_default =
     replicate 2 (Mixed 8 8 64 64) @ replicate 2 (Mixed 8 4 64 64) @ replicate 8 (Mixed 8 8 64 64)"
proof -
  have "head_n boundary_default + tail_n boundary_default \<le> 12"
    by (simp add: boundary_default_def LAYER_ADAPTIVE_HEAD_N_def LAYER_ADAPTIVE_TAIL_N_def)
  from layer_vector_shape [OF this, of "Mixed 8 4 64 64" False] show ?thesis
    by (simp add: floor_facts Let_def base_is_unquantized_def MODEL_DTYPE_CODE_BITS_def
        boundary_default_def LAYER_ADAPTIVE_HEAD_N_def LAYER_ADAPTIVE_TAIL_N_def)
qed

section \<open>One boundary per process\<close>

datatype boundary_op = Install "kv_boundary option" | Read

fun run_boundary :: "boundary_op list \<Rightarrow> boundary_cell \<Rightarrow> boundary_cell \<times> kv_boundary list" where
  "run_boundary [] c = (c, [])"
| "run_boundary (Install b # ops) c = run_boundary ops (fst (install_kv_boundary b c))"
| "run_boundary (Read # ops) c =
     (case active_kv_boundary c of
        (c1, b) \<Rightarrow> (case run_boundary ops c1 of (c2, bs) \<Rightarrow> (c2, b # bs)))"

lemma install_after_read: "was_read c \<Longrightarrow> fst (install_kv_boundary b c) = c"
  by (auto simp: install_kv_boundary_def Let_def split: option.splits)

lemma run_boundary_latched:
  "was_read c \<Longrightarrow> set (snd (run_boundary ops c)) \<subseteq> {snd (active_kv_boundary c)}"
proof (induction ops)
  case (Cons x ops)
  have c1: "fst (active_kv_boundary c) = c" using Cons.prems by (simp add: active_kv_boundary_def)
  with Cons show ?case by (cases x) (auto simp: case_prod_unfold install_after_read)
qed simp

text \<open>
  Whatever calls to install and to read the boundary a process makes, in any order,
  every read answers the same counts: the caches, the SSD layout key and the prompt-cache
  seed of one process describe the same layer mixture.
\<close>

theorem one_boundary_per_process:
  "\<exists>b. set (snd (run_boundary ops boundary_cell_new)) \<subseteq> {b}"
proof -
  have "\<exists>b. set (snd (run_boundary ops c)) \<subseteq> {b}" for c
  proof (induction ops arbitrary: c)
    case (Cons x ops)
    show ?case
    proof (cases x)
      case Read
      let ?c1 = "fst (active_kv_boundary c)"
      have "was_read ?c1" "snd (active_kv_boundary ?c1) = snd (active_kv_boundary c)"
        by (simp_all add: active_kv_boundary_def)
      with run_boundary_latched [of ?c1 ops] Read show ?thesis
        by (auto simp: case_prod_unfold)
    qed (simp add: Cons.IH)
  qed simp
  then show ?thesis .
qed

lemma install_error_keeps: "snd (install_kv_boundary b c) = Inl e \<Longrightarrow> fst (install_kv_boundary b c) = c"
  by (auto simp: install_kv_boundary_def Let_def split: option.splits if_splits)

end
