(* ===== verification/KvCacheType.thy ===== *)
theory KvCacheType
  imports KvLayers BlockEvents
begin

text \<open>
  The per-side cache types of \<^verbatim>\<open>rmlx-models/src/kv_cache/cache_type.rs\<close>: the tags of
  \<^verbatim>\<open>--cache-type-k\<close> and \<^verbatim>\<open>--cache-type-v\<close>, the pairing table that turns two tags into a
  codec, and the resolver with its guards. The message texts of the errors are not
  modelled; \<open>UnsupportedCombo\<close> carries the refused pair. The panic of \<^verbatim>\<open>decompose_auto\<close> is
  \<open>None\<close>. The warnings of \<^verbatim>\<open>validate_resolved\<close> have no effect on its result.

  The lemmas: tags and variants are in bijection through the parser, the pairing table is
  injective with \<open>decompose_auto\<close> as its inverse, and a resolved codec always passes the
  guards of its architecture and its head dimension.
\<close>

section \<open>Tags\<close>

datatype cache_type =
    CtAuto | CtBf16 | CtQ8G128 | CtQ8G64 | CtQ8G32 | CtQ6G64 | CtQ5G64 | CtQ4G128 | CtQ4G64 |
    CtQ4G32 | CtQ3G64 | CtQ2G64 | CtTq4 | CtPlanar4 | CtPlanarK4 | CtRotK | CtPlanar3 | CtIso3 |
    CtIso4 | CtRotor3 | CtRotor4 | CtTurbo3Tcq | CtTurbo2Tcq | CtIsoK3 | CtIsoK4 | CtRotorK3 |
    CtRotorK4 | CtTurboSym3

fun ct_tag :: "cache_type \<Rightarrow> string" where
  "ct_tag CtAuto = ''auto''"
| "ct_tag CtBf16 = ''bf16''"
| "ct_tag CtQ8G128 = ''q8_g128''"
| "ct_tag CtQ8G64 = ''q8_g64''"
| "ct_tag CtQ8G32 = ''q8_g32''"
| "ct_tag CtQ6G64 = ''q6_g64''"
| "ct_tag CtQ5G64 = ''q5_g64''"
| "ct_tag CtQ4G128 = ''q4_g128''"
| "ct_tag CtQ4G64 = ''q4_g64''"
| "ct_tag CtQ4G32 = ''q4_g32''"
| "ct_tag CtQ3G64 = ''q3_g64''"
| "ct_tag CtQ2G64 = ''q2_g64''"
| "ct_tag CtTq4 = ''tq4''"
| "ct_tag CtPlanar4 = ''planar4''"
| "ct_tag CtPlanarK4 = ''planar_k4''"
| "ct_tag CtRotK = ''rot_k''"
| "ct_tag CtPlanar3 = ''planar3''"
| "ct_tag CtIso3 = ''iso_v_3''"
| "ct_tag CtIso4 = ''iso_v_4''"
| "ct_tag CtRotor3 = ''rotor_v_3''"
| "ct_tag CtRotor4 = ''rotor_v_4''"
| "ct_tag CtTurbo3Tcq = ''k8v_turbo_3_tcq''"
| "ct_tag CtTurbo2Tcq = ''k8v_turbo_2_tcq''"
| "ct_tag CtIsoK3 = ''iso_k_3''"
| "ct_tag CtIsoK4 = ''iso_k_4''"
| "ct_tag CtRotorK3 = ''rotor_k_3''"
| "ct_tag CtRotorK4 = ''rotor_k_4''"
| "ct_tag CtTurboSym3 = ''tsym3''"

definition ct_all :: "cache_type list" where
  "ct_all =
     [CtAuto, CtBf16, CtQ8G128, CtQ8G64, CtQ8G32, CtQ6G64, CtQ5G64, CtQ4G128, CtQ4G64,
      CtQ4G32, CtQ3G64, CtQ2G64, CtTq4, CtPlanar4, CtPlanar3, CtPlanarK4, CtRotK, CtIso3,
      CtIso4, CtRotor3, CtRotor4, CtTurbo3Tcq, CtTurbo2Tcq, CtIsoK3, CtIsoK4, CtRotorK3,
      CtRotorK4, CtTurboSym3]"

fun ct_bits :: "cache_type \<Rightarrow> nat option" where
  "ct_bits CtQ8G128 = Some 8"
| "ct_bits CtQ8G64 = Some 8"
| "ct_bits CtQ8G32 = Some 8"
| "ct_bits CtQ6G64 = Some 6"
| "ct_bits CtQ5G64 = Some 5"
| "ct_bits CtQ4G128 = Some 4"
| "ct_bits CtQ4G64 = Some 4"
| "ct_bits CtQ4G32 = Some 4"
| "ct_bits CtQ3G64 = Some 3"
| "ct_bits CtQ2G64 = Some 2"
| "ct_bits _ = None"

fun ct_group_size :: "cache_type \<Rightarrow> nat option" where
  "ct_group_size CtQ8G128 = Some 128"
| "ct_group_size CtQ4G128 = Some 128"
| "ct_group_size CtQ8G64 = Some 64"
| "ct_group_size CtQ6G64 = Some 64"
| "ct_group_size CtQ5G64 = Some 64"
| "ct_group_size CtQ4G64 = Some 64"
| "ct_group_size CtQ3G64 = Some 64"
| "ct_group_size CtQ2G64 = Some 64"
| "ct_group_size CtQ8G32 = Some 32"
| "ct_group_size CtQ4G32 = Some 32"
| "ct_group_size _ = None"

definition is_affine :: "cache_type \<Rightarrow> bool" where "is_affine ct \<longleftrightarrow> ct_bits ct \<noteq> None"

datatype ct_parse_error = UnknownTag string | NotImplemented string

definition CT_PARSE_TABLE :: "(string \<times> (ct_parse_error + cache_type)) list" where
  "CT_PARSE_TABLE =
     [(''auto'', Inr CtAuto), (''bf16'', Inr CtBf16), (''q8_g128'', Inr CtQ8G128),
      (''q8_g64'', Inr CtQ8G64), (''q8_g32'', Inr CtQ8G32), (''q6_g64'', Inr CtQ6G64),
      (''q5_g64'', Inr CtQ5G64), (''q4_g128'', Inr CtQ4G128), (''q4_g64'', Inr CtQ4G64),
      (''q4_g32'', Inr CtQ4G32), (''q3_g64'', Inr CtQ3G64), (''q2_g64'', Inr CtQ2G64),
      (''tq4'', Inr CtTq4), (''planar4'', Inr CtPlanar4), (''planar3'', Inr CtPlanar3),
      (''planar_3'', Inr CtPlanar3), (''planar_k4'', Inr CtPlanarK4),
      (''rot_k'', Inr CtRotK), (''iso_v_3'', Inr CtIso3), (''iso3'', Inr CtIso3),
      (''iso_v_4'', Inr CtIso4), (''iso4'', Inr CtIso4), (''rotor_v_3'', Inr CtRotor3),
      (''rotor3'', Inr CtRotor3), (''rotor_v_4'', Inr CtRotor4),
      (''rotor4'', Inr CtRotor4), (''k8v_turbo_3_tcq'', Inr CtTurbo3Tcq),
      (''turbo3_tcq'', Inr CtTurbo3Tcq), (''k8v_turbo_2_tcq'', Inr CtTurbo2Tcq),
      (''turbo2_tcq'', Inr CtTurbo2Tcq), (''iso_k_3'', Inr CtIsoK3),
      (''k_iso3'', Inr CtIsoK3), (''iso_k_4'', Inr CtIsoK4), (''k_iso4'', Inr CtIsoK4),
      (''rotor_k_3'', Inr CtRotorK3), (''k_rotor3'', Inr CtRotorK3),
      (''rotor_k_4'', Inr CtRotorK4), (''k_rotor4'', Inr CtRotorK4),
      (''tsym3'', Inr CtTurboSym3), (''f16'', Inr CtBf16), (''none'', Inr CtBf16),
      (''turbo4'', Inr CtTq4), (''q8_0'', Inl (NotImplemented ''q8_0'')),
      (''q4_0'', Inl (NotImplemented ''q4_0'')), (''q4_1'', Inl (NotImplemented ''q4_1'')),
      (''q5_0'', Inl (NotImplemented ''q5_0'')), (''q5_1'', Inl (NotImplemented ''q5_1'')),
      (''iq4_nl'', Inl (NotImplemented ''iq4_nl''))]"

definition ct_parse :: "string \<Rightarrow> ct_parse_error + cache_type" where
  "ct_parse s = (case map_of CT_PARSE_TABLE s of Some r \<Rightarrow> r | None \<Rightarrow> Inl (UnknownTag s))"

record cache_type_spec =
  spec_k :: cache_type
  spec_v :: cache_type

record resolver_context =
  arch_class :: string
  ctx_head_dim :: "nat option"

datatype resolve_error =
    HeadDimUnknown
  | KSideRotationCodec string
  | RotKHeadDimNotPow2 nat
  | RotKVSide
  | Tq4UnsupportedHeadDim nat
  | GroupSizeNotDivisible nat nat
  | MlxBitPackingViolation nat nat
  | QwenMoeKBitsTooLow nat
  | QwenMoePlanarKRejected
  | QwenMoeIsoKRejected string
  | QwenMoeRotorKRejected string
  | QwenMoeTurboKRejected string
  | UnsupportedCombo cache_type cache_type

section \<open>From a codec to its tags\<close>

definition is_quantised :: "cache_type \<Rightarrow> bool" where
  "is_quantised ct \<longleftrightarrow> ct \<noteq> CtAuto \<and> ct \<noteq> CtBf16"

definition affine_to_cache_type :: "nat \<Rightarrow> nat \<Rightarrow> cache_type" where
  "affine_to_cache_type bits group_size =
     (if (bits, group_size) = (8, 128) then CtQ8G128
      else if (bits, group_size) = (8, 64) then CtQ8G64
      else if (bits, group_size) = (8, 32) then CtQ8G32
      else if (bits, group_size) = (6, 64) then CtQ6G64
      else if (bits, group_size) = (5, 64) then CtQ5G64
      else if (bits, group_size) = (4, 128) then CtQ4G128
      else if (bits, group_size) = (4, 64) then CtQ4G64
      else if (bits, group_size) = (4, 32) then CtQ4G32
      else if (bits, group_size) = (3, 64) then CtQ3G64
      else if (bits, group_size) = (2, 64) then CtQ2G64
      else CtBf16)"

fun decompose_auto :: "kv_quant \<Rightarrow> (cache_type \<times> cache_type) option" where
  "decompose_auto KvNone = Some (CtBf16, CtBf16)"
| "decompose_auto K8V4 = Some (CtQ8G128, CtTq4)"
| "decompose_auto K8V8 = Some (CtQ8G128, CtQ8G128)"
| "decompose_auto Planar = Some (CtQ8G128, CtPlanar4)"
| "decompose_auto (Mixed kb vb kg vg) = Some (affine_to_cache_type kb kg, affine_to_cache_type vb vg)"
| "decompose_auto (RotK vb vg) = Some (CtRotK, affine_to_cache_type vb vg)"
| "decompose_auto K8VTurbo3 = Some (CtQ8G128, CtQ3G64)"
| "decompose_auto TurboSym4 = Some (CtTq4, CtTq4)"
| "decompose_auto PlanarK = Some (CtPlanarK4, CtBf16)"
| "decompose_auto K8VTurbo2 = None"
| "decompose_auto Planar3 = Some (CtQ8G128, CtPlanar3)"
| "decompose_auto Iso3 = Some (CtQ8G128, CtIso3)"
| "decompose_auto Iso4 = Some (CtQ8G128, CtIso4)"
| "decompose_auto Rotor3 = Some (CtQ8G128, CtRotor3)"
| "decompose_auto Rotor4 = Some (CtQ8G128, CtRotor4)"
| "decompose_auto K8VTurbo3Tcq = Some (CtQ8G128, CtTurbo3Tcq)"
| "decompose_auto K8VTurbo2Tcq = Some (CtQ8G128, CtTurbo2Tcq)"
| "decompose_auto Iso3Sym = Some (CtIsoK3, CtIso3)"
| "decompose_auto Iso4Sym = Some (CtIsoK4, CtIso4)"
| "decompose_auto IsoKOnly3 = Some (CtIsoK3, CtBf16)"
| "decompose_auto IsoKOnly4 = Some (CtIsoK4, CtBf16)"
| "decompose_auto Rotor3Sym = Some (CtRotorK3, CtRotor3)"
| "decompose_auto Rotor4Sym = Some (CtRotorK4, CtRotor4)"
| "decompose_auto RotorKOnly3 = Some (CtRotorK3, CtBf16)"
| "decompose_auto RotorKOnly4 = Some (CtRotorK4, CtBf16)"
| "decompose_auto (RotorK3Asym vb vg) = Some (CtRotorK3, affine_to_cache_type vb vg)"
| "decompose_auto (RotorK4Asym vb vg) = Some (CtRotorK4, affine_to_cache_type vb vg)"
| "decompose_auto TurboSym3 = Some (CtTurboSym3, CtTurboSym3)"

section \<open>From two tags to a codec\<close>

definition k_side_rejected :: "cache_type \<Rightarrow> bool" where
  "k_side_rejected k \<longleftrightarrow>
     k \<in> {CtTq4, CtPlanar4, CtIso3, CtIso4, CtRotor3, CtRotor4, CtTurbo3Tcq, CtTurbo2Tcq}"

text \<open>The two rotor-K tags: a symmetric V, a bf16 V, or an affine V that TurboQuant has.\<close>

definition combo_rotor_k ::
    "cache_type \<Rightarrow> cache_type \<Rightarrow> kv_quant \<Rightarrow> kv_quant \<Rightarrow> cache_type \<Rightarrow> (nat \<Rightarrow> nat \<Rightarrow> kv_quant) \<Rightarrow>
     resolve_error + kv_quant" where
  "combo_rotor_k k v_sym q_sym q_only v q_asym =
     (if v = v_sym then Inr q_sym
      else if v = CtBf16 then Inr q_only
      else case (ct_bits v, ct_group_size v) of
             (Some vb, Some vg) \<Rightarrow>
               (case validate_rotor_k_asym_v vb vg of
                  Inr _ \<Rightarrow> Inr (q_asym vb vg)
                | Inl _ \<Rightarrow> Inl (UnsupportedCombo k v))
           | _ \<Rightarrow> Inl (UnsupportedCombo k v))"

text \<open>The closing \<^verbatim>\<open>match (k, v)\<close> of the pairing table.\<close>

definition combo_pair :: "cache_type \<Rightarrow> cache_type \<Rightarrow> resolve_error + kv_quant" where
  "combo_pair k v =
     (if k = CtBf16 \<and> v = CtBf16 then Inr KvNone
      else if k = CtQ8G128 \<and> v = CtQ8G128 then Inr K8V8
      else if k = CtQ8G128 \<and> v = CtTq4 then Inr K8V4
      else if k = CtQ8G128 \<and> v = CtPlanar4 then Inr Planar
      else if k = CtQ8G128 \<and> v = CtPlanar3 then Inr Planar3
      else if k = CtQ8G128 \<and> v = CtIso3 then Inr Iso3
      else if k = CtQ8G128 \<and> v = CtIso4 then Inr Iso4
      else if k = CtQ8G128 \<and> v = CtRotor3 then Inr Rotor3
      else if k = CtQ8G128 \<and> v = CtRotor4 then Inr Rotor4
      else if k = CtQ8G128 \<and> v = CtTurbo3Tcq then Inr K8VTurbo3Tcq
      else if k = CtQ8G128 \<and> v = CtTurbo2Tcq then Inr K8VTurbo2Tcq
      else if v \<in> {CtIso3, CtIso4, CtRotor3, CtRotor4, CtTurbo3Tcq, CtTurbo2Tcq, CtPlanar3, CtTq4,
                   CtPlanar4} then Inl (UnsupportedCombo k v)
      else if k = CtBf16 \<or> v = CtBf16 then Inl (UnsupportedCombo k v)
      else if k = CtQ2G64 then Inl (UnsupportedCombo k v)
      else if is_affine k \<and> is_affine v then
        (case (ct_bits k, ct_group_size k, ct_bits v, ct_group_size v) of
           (Some kb, Some kg, Some vb, Some vg) \<Rightarrow> Inr (Mixed kb vb kg vg)
         | _ \<Rightarrow> Inl (UnsupportedCombo k v))
      else Inl (UnsupportedCombo k v))"

definition combo_to_kv_quant :: "cache_type \<Rightarrow> cache_type \<Rightarrow> resolve_error + kv_quant" where
  "combo_to_kv_quant k v =
     (if k_side_rejected k then Inl (KSideRotationCodec (ct_tag k))
      else if k = CtAuto \<or> v = CtAuto then Inl (UnsupportedCombo k v)
      else if v = CtPlanarK4 then Inl (UnsupportedCombo k v)
      else if k = CtPlanarK4 then
        (if v = CtBf16 then Inr PlanarK else Inl (UnsupportedCombo k v))
      else if k = CtIsoK3 then
        (if v = CtIso3 then Inr Iso3Sym else if v = CtBf16 then Inr IsoKOnly3
         else Inl (UnsupportedCombo k v))
      else if k = CtIsoK4 then
        (if v = CtIso4 then Inr Iso4Sym else if v = CtBf16 then Inr IsoKOnly4
         else Inl (UnsupportedCombo k v))
      else if v \<in> {CtIsoK3, CtIsoK4} then Inl (UnsupportedCombo k v)
      else if k = CtRotorK3 then combo_rotor_k k CtRotor3 Rotor3Sym RotorKOnly3 v RotorK3Asym
      else if k = CtRotorK4 then combo_rotor_k k CtRotor4 Rotor4Sym RotorKOnly4 v RotorK4Asym
      else if k = CtTurboSym3 then
        (if v = CtTurboSym3 then Inr TurboSym3 else Inl (UnsupportedCombo k v))
      else if v = CtTurboSym3 then Inl (UnsupportedCombo k v)
      else if v \<in> {CtRotorK3, CtRotorK4} then Inl (UnsupportedCombo k v)
      else if k = CtRotK then
        (case (ct_bits v, ct_group_size v) of
           (Some vb, Some vg) \<Rightarrow> Inr (RotK vb vg)
         | _ \<Rightarrow> Inl (UnsupportedCombo k v))
      else combo_pair k v)"

section \<open>The resolver\<close>

definition is_qwen_moe :: "string \<Rightarrow> bool" where
  "is_qwen_moe arch \<longleftrightarrow>
     arch = ''Qwen3_5MoeForConditionalGeneration'' \<or> arch = ''Qwen3VLMoeForConditionalGeneration''"

definition mixed_k_low :: "kv_quant \<Rightarrow> bool" where
  "mixed_k_low q = (case q of Mixed kb vb kg vg \<Rightarrow> kb < 8 | _ \<Rightarrow> False)"

definition is_rotor_k_asym :: "kv_quant \<Rightarrow> bool" where
  "is_rotor_k_asym q = (case q of RotorK3Asym vb vg \<Rightarrow> True | RotorK4Asym vb vg \<Rightarrow> True | _ \<Rightarrow> False)"

definition validate_resolved :: "string \<Rightarrow> kv_quant \<Rightarrow> resolve_error + unit" where
  "validate_resolved arch q =
     (if is_qwen_moe arch then
        (if mixed_k_low q then Inl (QwenMoeKBitsTooLow (fst (approx_code_bits q)))
         else if q = PlanarK then Inl QwenMoePlanarKRejected
         else if q \<in> {Iso3Sym, Iso4Sym, IsoKOnly3, IsoKOnly4}
         then Inl (QwenMoeIsoKRejected (kv_display q))
         else if q \<in> {Rotor3Sym, Rotor4Sym, RotorKOnly3, RotorKOnly4} \<or> is_rotor_k_asym q
         then Inl (QwenMoeRotorKRejected (kv_display q))
         else if q = TurboSym3 then Inl (QwenMoeTurboKRejected (kv_display q))
         else if k_below_8bit q then Inl (QwenMoeKBitsTooLow 4)
         else Inr ())
      else Inr ())"

definition check_affine_invariants :: "cache_type \<Rightarrow> nat \<Rightarrow> resolve_error + unit" where
  "check_affine_invariants ct hdim =
     (case (ct_bits ct, ct_group_size ct) of
        (Some bits, Some group_size) \<Rightarrow>
          if hdim mod group_size \<noteq> 0 then Inl (GroupSizeNotDivisible hdim group_size)
          else if 2 \<le> bits \<and> bits \<le> 8 \<and> 0 < 32 div bits \<and> hdim mod (32 div bits) \<noteq> 0
          then Inl (MlxBitPackingViolation hdim bits)
          else Inr ()
      | _ \<Rightarrow> Inr ())"

text \<open>\<^verbatim>\<open>None\<close> is the panic of \<^verbatim>\<open>decompose_auto\<close>.\<close>

definition resolve ::
    "cache_type_spec \<Rightarrow> resolver_context \<Rightarrow> kv_quant \<Rightarrow> (resolve_error + kv_quant) option" where
  "resolve spec ctx auto_q =
     (case ctx_head_dim ctx of
        None \<Rightarrow> Some (Inl HeadDimUnknown)
      | Some hdim \<Rightarrow>
          if k_side_rejected (spec_k spec) \<or> spec_k spec = CtPlanar3
          then Some (Inl (KSideRotationCodec (ct_tag (spec_k spec))))
          else if spec_k spec = CtRotK \<and> \<not> is_power_of_two hdim
          then Some (Inl (RotKHeadDimNotPow2 hdim))
          else if spec_v spec = CtRotK then Some (Inl RotKVSide)
          else
            (case check_affine_invariants (spec_k spec) hdim of
               Inl e \<Rightarrow> Some (Inl e)
             | Inr _ \<Rightarrow>
                 (case check_affine_invariants (spec_v spec) hdim of
                    Inl e \<Rightarrow> Some (Inl e)
                  | Inr _ \<Rightarrow>
                      if spec_v spec = CtTq4 \<and> hdim \<noteq> 128 \<and> hdim \<noteq> 256
                      then Some (Inl (Tq4UnsupportedHeadDim hdim))
                      else
                        (case decompose_auto auto_q of
                           None \<Rightarrow> None
                         | Some (auto_k, auto_v) \<Rightarrow>
                             let k = (if spec_k spec = CtAuto
                                      then (if is_quantised (spec_v spec) then CtQ8G128 else auto_k)
                                      else spec_k spec);
                                 v = (if spec_v spec = CtAuto
                                      then (if is_quantised (spec_k spec) then CtQ8G128 else auto_v)
                                      else spec_v spec)
                             in Some (case combo_to_kv_quant k v of
                                        Inl e \<Rightarrow> Inl e
                                      | Inr q \<Rightarrow>
                                          (case validate_resolved (arch_class ctx) q of
                                             Inl e \<Rightarrow> Inl e
                                           | Inr _ \<Rightarrow> Inr q))))))"

section \<open>Properties\<close>

lemma ct_all_complete: "ct \<in> set ct_all"
  by (cases ct) (simp_all add: ct_all_def)

text \<open>
  Tags. Every cache type is in the published list once, and the parser reads each
  one's canonical tag back to it.
\<close>

theorem tag_roundtrip: "distinct ct_all \<and> set ct_all = UNIV \<and> ct_parse (ct_tag ct) = Inr ct"
proof -
  have "distinct ct_all" by (simp add: ct_all_def)
  moreover have "set ct_all = UNIV" using ct_all_complete by blast
  moreover have "ct_parse (ct_tag ct) = Inr ct"
    by (cases ct) (simp_all add: ct_parse_def CT_PARSE_TABLE_def)
  ultimately show ?thesis by blast
qed

lemmas combo_defs = combo_to_kv_quant_def k_side_rejected_def combo_pair_def combo_rotor_k_def
  is_affine_def validate_rotor_k_asym_v_def valid_rotor_k_asym_v_def affine_to_cache_type_def

lemma combo_inverse: "combo_to_kv_quant k v = Inr q \<Longrightarrow> decompose_auto q = Some (k, v)"
  by (cases k; cases v) (auto simp: combo_defs split: if_splits)

lemma combo_valid: "combo_to_kv_quant k v = Inr q \<Longrightarrow> kv_valid q"
  by (cases k; cases v) (auto simp: combo_defs valid_mixed_side_def split: if_splits)

text \<open>The pairing table and \<^verbatim>\<open>decompose_auto\<close> are inverse to each other where the table is
  defined: a pair of tags that resolves is the decomposition of the codec it resolves to.
  So no two pairs of tags name one codec, and every codec a pair names is valid.
\<close>

theorem pairing_inverse:
  "combo_to_kv_quant k v = Inr q \<Longrightarrow> decompose_auto q = Some (k, v) \<and> kv_valid q"
  using combo_inverse combo_valid by blast

theorem pairing_inverse_witness:
  "decompose_auto (RotorK3Asym 4 64) = Some (CtRotorK3, CtQ4G64) \<and> kv_valid (RotorK3Asym 4 64)"
proof -
  have "combo_to_kv_quant CtRotorK3 CtQ4G64 = Inr (RotorK3Asym 4 64)" by (simp add: combo_defs)
  then show ?thesis by (rule pairing_inverse)
qed

lemma validate_resolved_moe:
  "is_qwen_moe arch \<Longrightarrow> validate_resolved arch q = Inr () \<longleftrightarrow> 8 \<le> fst (approx_code_bits q)"
  by (cases q) (auto simp: validate_resolved_def mixed_k_low_def is_rotor_k_asym_def codec_facts)

lemma resolve_cases:
  assumes "resolve sp ctx a = Some (Inr q)"
  obtains hdim k v where "ctx_head_dim ctx = Some hdim" "combo_to_kv_quant k v = Inr q"
    "validate_resolved (arch_class ctx) q = Inr ()"
    "spec_k sp \<noteq> CtAuto \<Longrightarrow> k = spec_k sp" "spec_v sp \<noteq> CtAuto \<Longrightarrow> v = spec_v sp"
    "spec_k sp = CtRotK \<Longrightarrow> is_power_of_two hdim"
    "check_affine_invariants (spec_k sp) hdim = Inr ()"
    "check_affine_invariants (spec_v sp) hdim = Inr ()"
    "spec_v sp = CtTq4 \<Longrightarrow> hdim = 128 \<or> hdim = 256"
  using assms
  by (auto simp: resolve_def Let_def split: option.splits sum.splits prod.splits if_splits)

text \<open>C20: What the resolver accepts is safe to run. A resolved codec is valid, is the codec
  of the named tags, keeps K at 8 bits or more on the Qwen mixture-of-experts
  architectures, and every named affine side has a group size that divides the head
  dimension.
\<close>

theorem resolve_safe:
  assumes "resolve sp ctx a = Some (Inr q)" "ctx_head_dim ctx = Some d"
  shows "kv_valid q \<and>
    (\<exists>k v. decompose_auto q = Some (k, v) \<and> (spec_k sp = CtAuto \<or> k = spec_k sp) \<and>
       (spec_v sp = CtAuto \<or> v = spec_v sp)) \<and>
    (is_qwen_moe (arch_class ctx) \<longrightarrow> 8 \<le> fst (approx_code_bits q)) \<and>
    (\<forall>ct \<in> {spec_k sp, spec_v sp}. \<forall>g. ct_group_size ct = Some g \<longrightarrow> d mod g = 0)"
proof -
  from assms(1) obtain d' k v where r: "ctx_head_dim ctx = Some d'" "combo_to_kv_quant k v = Inr q"
    "validate_resolved (arch_class ctx) q = Inr ()"
    "spec_k sp \<noteq> CtAuto \<Longrightarrow> k = spec_k sp" "spec_v sp \<noteq> CtAuto \<Longrightarrow> v = spec_v sp"
    "check_affine_invariants (spec_k sp) d' = Inr ()" "check_affine_invariants (spec_v sp) d' = Inr ()"
    by (rule resolve_cases) blast
  have "d mod g = 0" if "check_affine_invariants ct d = Inr ()" "ct_group_size ct = Some g" for ct g
    using that by (cases ct) (auto simp: check_affine_invariants_def split: if_splits)
  with r assms(2) combo_inverse [OF r(2)] combo_valid [OF r(2)] validate_resolved_moe
  show ?thesis by auto
qed

theorem resolve_safe_witness:
  "resolve \<lparr>spec_k = CtQ8G128, spec_v = CtQ4G64\<rparr>
     \<lparr>arch_class = ''Qwen3_5MoeForConditionalGeneration'', ctx_head_dim = Some 128\<rparr> KvNone =
     Some (Inr (Mixed 8 4 128 64)) \<and> kv_valid (Mixed 8 4 128 64)"
proof -
  have r: "resolve \<lparr>spec_k = CtQ8G128, spec_v = CtQ4G64\<rparr>
     \<lparr>arch_class = ''Qwen3_5MoeForConditionalGeneration'', ctx_head_dim = Some 128\<rparr> KvNone =
     Some (Inr (Mixed 8 4 128 64))"
    by (simp add: resolve_def combo_defs check_affine_invariants_def validate_resolved_def
        is_qwen_moe_def mixed_k_low_def is_rotor_k_asym_def codec_facts is_quantised_def)
  from resolve_safe [OF r, of 128] r show ?thesis by simp
qed

text \<open>
  A lone K tag. With V left on auto, the auto side becomes \<^verbatim>\<open>q8_g128\<close>, so on a head
  dimension of 128 exactly the 8-bit and 4-bit affine K tags and \<^verbatim>\<open>rot_k\<close> resolve. The
  6-, 5- and 3-bit tags fail the packing check, and the other K-side codecs
  (\<^verbatim>\<open>planar_k4\<close>, \<^verbatim>\<open>iso_k_*\<close>, \<^verbatim>\<open>rotor_k_*\<close>, \<^verbatim>\<open>tsym3\<close>) never do, although each has a V
  partner in the pairing table.
\<close>

theorem lone_k_side:
  assumes "\<not> is_qwen_moe arch" "is_quantised k"
  shows "(\<exists>q. resolve \<lparr>spec_k = k, spec_v = CtAuto\<rparr> \<lparr>arch_class = arch, ctx_head_dim = Some 128\<rparr>
            DEFAULT_KV_QUANT = Some (Inr q)) \<longleftrightarrow>
         is_affine k \<and> ct_bits k \<in> {Some 8, Some 4} \<or> k = CtRotK"
proof -
  have p: "is_power_of_two 128"
    using is_power_of_two_iff [of 128] by (auto intro: exI [of _ 7])
  show ?thesis
    using assms p
    by (cases k) (simp_all add: resolve_def combo_defs check_affine_invariants_def
        validate_resolved_def DEFAULT_KV_QUANT_def is_quantised_def)
qed

theorem lone_k_side_witness:
  "\<not> (\<exists>q. resolve \<lparr>spec_k = CtIsoK4, spec_v = CtAuto\<rparr> \<lparr>arch_class = ''Qwen3'', ctx_head_dim = Some 128\<rparr>
            DEFAULT_KV_QUANT = Some (Inr q))"
proof -
  have a: "\<not> is_qwen_moe ''Qwen3''" "is_quantised CtIsoK4"
    by (simp_all add: is_qwen_moe_def is_quantised_def)
  show ?thesis using lone_k_side [OF a] by (simp add: is_affine_def)
qed

text \<open>
  The comment of \<^verbatim>\<open>decompose_auto\<close> says that an affine side without a canonical tag makes
  the resolver refuse the pair. When neither side has one it resolves to bf16 instead.
\<close>

lemma mixed_without_tags_becomes_bf16:
  "resolve \<lparr>spec_k = CtAuto, spec_v = CtAuto\<rparr> \<lparr>arch_class = ''Qwen3'', ctx_head_dim = Some 128\<rparr>
     (Mixed 6 6 32 32) = Some (Inr KvNone) \<and> kv_valid (Mixed 6 6 32 32)"
  by (simp add: resolve_def combo_defs check_affine_invariants_def validate_resolved_def
      is_qwen_moe_def is_quantised_def valid_mixed_side_def)

end
