(* ===== verification/RotatingRing.thy ===== *)
theory RotatingRing
  imports Prelude
begin

text \<open>
  The sliding-window ring of \<^verbatim>\<open>rmlx-kv-quant/src/rotating.rs\<close>. An MLX array of shape
  \<^verbatim>\<open>[B, kv_h, S, D]\<close> is the list of its \<^verbatim>\<open>S\<close> positions: every operation of the ring
  slices, concatenates and overwrites along that axis only. An \<^verbatim>\<open>i32\<close> position is an
  \<open>int\<close>, since the code subtracts below zero before it compares. The MLX calls are taken
  to succeed; an \<^verbatim>\<open>unwrap\<close> of a missing buffer is the result \<open>None\<close>.

  The lemmas relate a ring to the history it was written with: what a fetch returns is
  the window of that history, and a rollback that is admitted leaves a ring of the
  shorter history.
\<close>

section \<open>The ring\<close>

datatype stream_device = CpuStream | GpuStream

record ('k, 'v) ring =
  rg_keys :: "'k list option"
  rg_values :: "'v list option"
  rg_offset :: int
  rg_max_size :: int
  rg_keep :: int
  rg_idx :: int
  rg_stream :: "stream_device option"

record ('k, 'v) ring_snapshot =
  sn_keys :: "'k list option"
  sn_values :: "'v list option"
  sn_offset :: int
  sn_max_size :: int
  sn_keep :: int
  sn_idx :: int
  sn_stream :: "stream_device option"

definition ROTATING_STEP :: int where "ROTATING_STEP = 256"

definition ring_new :: "int \<Rightarrow> ('k, 'v) ring" where
  "ring_new m = \<lparr>rg_keys = None, rg_values = None, rg_offset = 0, rg_max_size = m,
     rg_keep = 0, rg_idx = 0, rg_stream = None\<rparr>"

definition ring_reset :: "('k, 'v) ring \<Rightarrow> ('k, 'v) ring" where
  "ring_reset r = r\<lparr>rg_keys := None, rg_values := None, rg_offset := 0, rg_idx := 0,
     rg_stream := None\<rparr>"

text \<open>Slices and the concatenation of the sequence axis.\<close>

definition seq_slice :: "int \<Rightarrow> int \<Rightarrow> 'a list \<Rightarrow> 'a list" where
  "seq_slice a b v = drop (nat a) (take (nat b) v)"

definition slice_leading :: "'a list \<Rightarrow> int \<Rightarrow> 'a list" where
  "slice_leading v n = seq_slice 0 n v"

definition slice_update :: "'a list \<Rightarrow> 'a list \<Rightarrow> int \<Rightarrow> int \<Rightarrow> 'a list" where
  "slice_update v new a b = take (nat a) v @ new @ drop (nat b) v"

definition can_trim :: "('k, 'v) ring \<Rightarrow> int \<Rightarrow> bool" where
  "can_trim r n =
     (if n \<le> 0 then True
      else if n > rg_offset r then False
      else if rg_offset r < rg_max_size r then True
      else case (rg_keys r, rg_stream r) of
        (Some ks, Some _) \<Rightarrow>
          rg_idx r = int (length ks) \<and>
          int (length ks) - n \<ge> min (rg_offset r - n) (rg_max_size r)
      | _ \<Rightarrow> False)"

datatype ring_error = NoStreamRecorded

definition roll_back :: "int \<Rightarrow> ('k, 'v) ring \<Rightarrow> ring_error + bool \<times> ('k, 'v) ring" where
  "roll_back n r =
     (if \<not> can_trim r n then Inr (False, r)
      else if n \<le> 0 then Inr (True, r)
      else if rg_offset r \<ge> rg_max_size r then
        (case rg_stream r of
           None \<Rightarrow> Inl NoStreamRecorded
         | Some _ \<Rightarrow>
             let kept = rg_idx r - n in
             Inr (True, r\<lparr>rg_keys := map_option (\<lambda>k. slice_leading k kept) (rg_keys r),
                           rg_values := map_option (\<lambda>v. slice_leading v kept) (rg_values r),
                           rg_idx := kept, rg_offset := rg_offset r - n\<rparr>))
      else Inr (True, r\<lparr>rg_idx := rg_idx r - n, rg_offset := rg_offset r - n\<rparr>))"

definition ring_take_snapshot :: "('k, 'v) ring \<Rightarrow> ('k, 'v) ring_snapshot" where
  "ring_take_snapshot r = \<lparr>sn_keys = rg_keys r, sn_values = rg_values r, sn_offset = rg_offset r,
     sn_max_size = rg_max_size r, sn_keep = rg_keep r, sn_idx = rg_idx r, sn_stream = rg_stream r\<rparr>"

definition ring_restore :: "('k, 'v) ring_snapshot \<Rightarrow> ('k, 'v) ring \<Rightarrow> ('k, 'v) ring" where
  "ring_restore s r = r\<lparr>rg_keys := sn_keys s, rg_values := sn_values s, rg_offset := sn_offset s,
     rg_max_size := sn_max_size s, rg_keep := sn_keep s, rg_idx := sn_idx s, rg_stream := sn_stream s\<rparr>"

definition ring_deep_clone :: "('k, 'v) ring \<Rightarrow> ('k, 'v) ring" where
  "ring_deep_clone r = ring_restore (ring_take_snapshot r) (ring_new (rg_max_size r))"

text \<open>\<open>ring_trim\<close> and \<open>temporal_order\<close> read only the scalars of \<^verbatim>\<open>self\<close>, given here.\<close>

definition ring_trim :: "int \<Rightarrow> int \<Rightarrow> 'a list \<Rightarrow> 'a list option \<Rightarrow> 'a list" where
  "ring_trim keep_n trim_size v app =
     (if trim_size > 0
      then seq_slice 0 keep_n v @ seq_slice (trim_size + keep_n) (int (length v)) v
      else v) @ (case app of None \<Rightarrow> [] | Some a \<Rightarrow> a)"

definition temporal_order :: "int \<Rightarrow> int \<Rightarrow> int \<Rightarrow> 'a list \<Rightarrow> 'a list" where
  "temporal_order keep_n idx off v =
     (if idx = int (length v) then v
      else if idx < off then
        seq_slice 0 keep_n v @ seq_slice idx (int (length v)) v @ seq_slice keep_n idx v
      else seq_slice 0 idx v)"

definition update_concat ::
  "('k, 'v) ring \<Rightarrow> 'k list \<Rightarrow> 'v list \<Rightarrow> (('k, 'v) ring \<times> 'k list \<times> 'v list) option" where
  "update_concat r new_k new_v =
     (case rg_keys r of
        None \<Rightarrow>
          Some (r\<lparr>rg_keys := Some new_k, rg_values := Some new_v,
                  rg_offset := rg_offset r + int (length new_k), rg_idx := int (length new_k)\<rparr>,
                new_k, new_v)
      | Some k \<Rightarrow>
          (case rg_values r of
             None \<Rightarrow> None
           | Some v \<Rightarrow>
               let kt = temporal_order (rg_keep r) (rg_idx r) (rg_offset r) k;
                   vt = temporal_order (rg_keep r) (rg_idx r) (rg_offset r) v;
                   trim_size = int (length kt) - rg_max_size r + 1;
                   kt2 = ring_trim (rg_keep r) trim_size kt (Some new_k);
                   vt2 = ring_trim (rg_keep r) trim_size vt (Some new_v)
               in Some (r\<lparr>rg_keys := Some kt2, rg_values := Some vt2,
                         rg_offset := rg_offset r + int (length new_k),
                         rg_idx := int (length kt2)\<rparr>, kt2, vt2)))"

definition grow_buffers :: "('k::zero, 'v::zero) ring \<Rightarrow> ('k, 'v) ring option" where
  "grow_buffers r =
     (let prev = rg_offset r;
          need_grow = (case rg_keys r of
              None \<Rightarrow> True
            | Some k \<Rightarrow> prev \<ge> int (length k) \<and> int (length k) < rg_max_size r);
          new_size = nat (min ROTATING_STEP (rg_max_size r - prev))
      in if \<not> need_grow then Some r
         else (case rg_keys r of
             Some k \<Rightarrow>
               (case rg_values r of
                  None \<Rightarrow> None
                | Some v \<Rightarrow> Some (r\<lparr>rg_keys := Some (k @ replicate new_size 0),
                                   rg_values := Some (v @ replicate new_size 0), rg_idx := prev\<rparr>))
           | None \<Rightarrow> Some (r\<lparr>rg_keys := Some (replicate new_size 0),
                             rg_values := Some (replicate new_size 0), rg_idx := prev\<rparr>)))"

definition update_in_place ::
  "('k::zero, 'v::zero) ring \<Rightarrow> 'k list \<Rightarrow> 'v list \<Rightarrow> (('k, 'v) ring \<times> 'k list \<times> 'v list) option" where
  "update_in_place r new_k new_v =
     (case grow_buffers r of
        None \<Rightarrow> None
      | Some r1 \<Rightarrow>
          (case (rg_keys r1, rg_values r1) of
             (Some k1, Some v1) \<Rightarrow>
               let s = int (length new_k);
                   trim_size = int (length k1) - rg_max_size r1;
                   k2 = (if trim_size > 0 then ring_trim (rg_keep r1) trim_size k1 None else k1);
                   v2 = (if trim_size > 0 then ring_trim (rg_keep r1) trim_size v1 None else v1);
                   idx2 = (if trim_size > 0 then rg_max_size r1 else rg_idx r1);
                   idx3 = (if idx2 = rg_max_size r1 then rg_keep r1 else idx2);
                   k3 = slice_update k2 new_k idx3 (idx3 + s);
                   v3 = slice_update v2 new_v idx3 (idx3 + s);
                   off = rg_offset r1 + s;
                   r3 = r1\<lparr>rg_keys := Some k3, rg_values := Some v3, rg_offset := off,
                           rg_idx := idx3 + s\<rparr>
               in if off < rg_max_size r1
                  then Some (r3, seq_slice 0 off k3, seq_slice 0 off v3)
                  else Some (r3, k3, v3)
           | _ \<Rightarrow> None))"

definition update_and_fetch ::
  "stream_device \<Rightarrow> ('k::zero, 'v::zero) ring \<Rightarrow> 'k list \<Rightarrow> 'v list \<Rightarrow>
   (('k, 'v) ring \<times> 'k list \<times> 'v list) option" where
  "update_and_fetch d r new_k new_v =
     (let r' = r\<lparr>rg_stream := Some d\<rparr> in
      if length new_k = 1 then update_in_place r' new_k new_v else update_concat r' new_k new_v)"

section \<open>One buffer and the history it holds\<close>

text \<open>
  \<open>b\<close> is a buffer, \<open>h\<close> every position written so far and not rolled back, \<open>m\<close> the window.
  Before the first wrap the buffer starts with the whole history; after a block write it is
  a suffix of the history in order; after a single write past the wrap it is the last \<open>m\<close>
  positions, rotated.
\<close>

datatype ring_shape = FrontOrder | Temporal | Rotated

fun buf_rep :: "ring_shape \<Rightarrow> nat \<Rightarrow> nat \<Rightarrow> 'a list \<Rightarrow> 'a list \<Rightarrow> bool" where
  "buf_rep FrontOrder m i b h \<longleftrightarrow>
     i = length h \<and> length h < m \<and> length h \<le> length b \<and> length b \<le> m \<and> take (length h) b = h"
| "buf_rep Temporal m i b h \<longleftrightarrow>
     i = length b \<and> m \<le> length b \<and> length b \<le> length h \<and> b = drop (length h - length b) h"
| "buf_rep Rotated m i b h \<longleftrightarrow>
     0 < i \<and> i < m \<and> length b = m \<and> m \<le> length h \<and>
     drop i b @ take i b = drop (length h - m) h"

lemma seq_slice_nat: "seq_slice (int a) (int b) v = drop a (take b v)"
  "seq_slice 0 (int b) v = take b v" "seq_slice c (int (length v)) v = drop (nat c) v"
  "seq_slice 0 0 v = []"
  by (simp_all add: seq_slice_def)

lemma slice_update_nat: "slice_update v new (int a) (int b) = take a v @ new @ drop b v"
  by (simp add: slice_update_def)

lemma temporal_order_rep:
  assumes "buf_rep sh m i b h"
  shows "temporal_order 0 (int i) (int (length h)) b =
    drop (length h - (case sh of FrontOrder \<Rightarrow> length h | Temporal \<Rightarrow> length b | Rotated \<Rightarrow> m)) h"
  using assms by (cases sh) (auto simp: temporal_order_def seq_slice_nat)

lemma concat_rep:
  assumes j: "min (length h) m \<le> j" "j \<le> length h" and m: "0 < m"
  shows "ring_trim 0 (int j - int m + 1) (drop (length h - j) h) (Some new) =
    drop (length h - min (length h) (m - 1)) h @ new"
proof (cases "m \<le> j")
  case True
  then have t: "int j - int m + 1 > 0" "nat (int j - int m + 1) = j + 1 - m" by simp_all
  define v where "v = drop (length h - j) h"
  have "ring_trim 0 (int j - int m + 1) v (Some new) = drop (j + 1 - m) v @ new"
    using t by (simp add: ring_trim_def seq_slice_nat add.commute)
  moreover have "(j + 1 - m) + (length h - j) = length h - min (length h) (m - 1)"
    using True j m by (simp add: min_def)
  ultimately show ?thesis by (simp add: v_def add.commute)
next
  case False
  with j have "j = length h" "length h \<le> m - 1" by auto
  with False show ?thesis by (simp add: ring_trim_def min_def)
qed

lemma concat_shape:
  fixes h new :: "'a list"
  assumes m: "0 < m" and s: "new \<noteq> []"
  defines "b \<equiv> drop (length h - min (length h) (m - 1)) h @ new"
  shows "buf_rep (if length (h @ new) < m then FrontOrder else Temporal) m (length b) b (h @ new)"
    and "length b = min (length h) (m - 1) + length new"
proof -
  show len: "length b = min (length h) (m - 1) + length new" by (simp add: b_def)
  from s have s1: "1 \<le> length new" by (simp add: Suc_leI)
  show "buf_rep (if length (h @ new) < m then FrontOrder else Temporal) m (length b) b (h @ new)"
  proof (cases "length (h @ new) < m")
    case True
    then have "length h - min (length h) (m - 1) = 0" by simp
    with True show ?thesis by (simp add: b_def)
  next
    case False
    have "length (h @ new) - length b = length h - min (length h) (m - 1)"
      by (simp add: len)
    then have "b = drop (length (h @ new) - length b) (h @ new)" by (simp add: b_def)
    with False s1 m len show ?thesis by (auto simp: min_def)
  qed
qed

text \<open>The steps of a single-position write, on one buffer.\<close>

definition grown :: "nat \<Rightarrow> nat \<Rightarrow> 'a::zero list \<Rightarrow> 'a list" where
  "grown m n b =
     (if length b \<le> n \<and> length b < m then b @ replicate (min 256 (m - n)) 0 else b)"

definition cut_to :: "nat \<Rightarrow> 'a list \<Rightarrow> 'a list" where "cut_to m b = drop (length b - m) b"

definition put_at :: "nat \<Rightarrow> 'a \<Rightarrow> 'a list \<Rightarrow> 'a list" where
  "put_at i x b = take i b @ x # drop (Suc i) b"

lemma length_put_at [simp]: "i < length b \<Longrightarrow> length (put_at i x b) = length b"
  by (simp add: put_at_def)

lemma grown_rep:
  assumes "buf_rep sh m i b h"
  shows "sh = FrontOrder \<Longrightarrow> buf_rep FrontOrder m i (grown m (length h) b) h"
    and "sh = FrontOrder \<Longrightarrow> length h < length (grown m (length h) b)"
    and "sh \<noteq> FrontOrder \<Longrightarrow> grown m (length h) b = b"
proof -
  show "sh \<noteq> FrontOrder \<Longrightarrow> grown m (length h) b = b"
    using assms by (cases sh) (simp_all add: grown_def)
  assume sh: "sh = FrontOrder"
  with assms have r: "i = length h" "length h < m" "length h \<le> length b" "length b \<le> m"
    "take (length h) b = h" by simp_all
  show "buf_rep FrontOrder m i (grown m (length h) b) h"
  proof (cases "length b \<le> length h")
    case True
    with r(3,5) have "b = h" by (metis le_antisym take_all)
    with r(1,2) show ?thesis by (simp add: grown_def)
  next
    case False
    then have "grown m (length h) b = b" by (simp add: grown_def)
    with assms sh show ?thesis by simp
  qed
  show "length h < length (grown m (length h) b)"
    using r(2,3) by (auto simp: grown_def)
qed

lemma put_linear:
  assumes "buf_rep FrontOrder m i b h" "length h < length b"
  shows "buf_rep (if length (h @ [x]) < m then FrontOrder else Temporal) m (Suc i) (put_at i x b) (h @ [x])"
    and "take (length (h @ [x])) (put_at i x b) = h @ [x]"
proof -
  from assms have i: "i = length h" and t: "take (length h) b = h" and l: "length b \<le> m" by auto
  show tk: "take (length (h @ [x])) (put_at i x b) = h @ [x]"
    using assms(2) i t by (simp add: put_at_def min_def)
  show "buf_rep (if length (h @ [x]) < m then FrontOrder else Temporal) m (Suc i) (put_at i x b) (h @ [x])"
  proof (cases "length (h @ [x]) < m")
    case True
    then show ?thesis using assms(2) i l tk by simp
  next
    case False
    with assms i l have "length b = m" "m = Suc (length h)" by auto
    with i tk assms(2) show ?thesis by simp
  qed
qed

lemma cut_temporal:
  assumes "buf_rep Temporal m i b h"
  shows "cut_to m b = drop (length h - m) h" "length (cut_to m b) = m"
proof -
  from assms have b: "b = drop (length h - length b) h" "m \<le> length b" "length b \<le> length h" by auto
  from b(2,3) have "(length h - length b) + (length b - m) = length h - m" by simp
  with b(1) show "cut_to m b = drop (length h - m) h"
    by (metis cut_to_def drop_drop add.commute)
  from b(2) show "length (cut_to m b) = m" by (simp add: cut_to_def)
qed

lemma put_wrapped:
  assumes len: "length b = m" and i: "i < m" and m: "m \<le> length h"
    and d: "drop i b @ take i b = drop (length h - m) h"
  shows "drop (Suc i) (put_at i x b) @ take (Suc i) (put_at i x b) = drop (length (h @ [x]) - m) (h @ [x])"
    and "buf_rep (if Suc i < m then Rotated else Temporal) m (Suc i) (put_at i x b) (h @ [x])"
proof -
  have di: "drop i b = b ! i # drop (Suc i) b" using len i by (simp add: Cons_nth_drop_Suc)
  have "drop (Suc (length h) - m) h = drop (Suc i) b @ take i b"
    using d di m by (metis Suc_diff_le append_Cons drop_Suc list.sel(3) drop_Suc tl_drop)
  then show e: "drop (Suc i) (put_at i x b) @ take (Suc i) (put_at i x b) = drop (length (h @ [x]) - m) (h @ [x])"
    using len i m by (simp add: put_at_def min_def)
  show "buf_rep (if Suc i < m then Rotated else Temporal) m (Suc i) (put_at i x b) (h @ [x])"
  proof (cases "Suc i < m")
    case True
    then show ?thesis using e len m i by simp
  next
    case False
    with i have "Suc i = m" by simp
    then show ?thesis using e len m i by simp
  qed
qed

section \<open>The ring and its history\<close>

definition ring_rep :: "nat \<Rightarrow> ('k, 'v) ring \<Rightarrow> 'k list \<Rightarrow> 'v list \<Rightarrow> bool" where
  "ring_rep m r hk hv \<longleftrightarrow>
     0 < m \<and> rg_keep r = 0 \<and> rg_max_size r = int m \<and> length hk = length hv \<and>
     rg_offset r = int (length hk) \<and>
     (case (rg_keys r, rg_values r) of
        (None, None) \<Rightarrow> hk = [] \<and> rg_idx r = 0
      | (Some k, Some v) \<Rightarrow> length k = length v \<and> rg_stream r \<noteq> None \<and>
          (\<exists>sh i. rg_idx r = int i \<and> buf_rep sh m i k hk \<and> buf_rep sh m i v hv)
      | _ \<Rightarrow> False)"

lemma ring_rep_cases:
  assumes "ring_rep m r hk hv"
  obtains (Empty) "rg_keys r = None" "rg_values r = None" "hk = []" "hv = []" "rg_idx r = 0"
  | (Filled) k v sh i where "rg_keys r = Some k" "rg_values r = Some v" "length k = length v"
      "rg_stream r \<noteq> None" "rg_idx r = int i" "buf_rep sh m i k hk" "buf_rep sh m i v hv"
  using assms by (auto simp: ring_rep_def split: option.splits)

lemma ring_repD:
  assumes "ring_rep m r hk hv"
  shows "0 < m" "rg_keep r = 0" "rg_max_size r = int m" "length hv = length hk"
    "rg_offset r = int (length hk)"
  using assms by (simp_all add: ring_rep_def)

lemma ring_rep_Filled:
  "\<lbrakk>0 < m; rg_keep r = 0; rg_max_size r = int m; length hk = length hv;
    rg_offset r = int (length hk); rg_keys r = Some k; rg_values r = Some v;
    length k = length v; rg_stream r \<noteq> None; rg_idx r = int i;
    buf_rep sh m i k hk; buf_rep sh m i v hv\<rbrakk> \<Longrightarrow> ring_rep m r hk hv"
  unfolding ring_rep_def by simp blast

lemma ring_new_rep: "0 < m \<Longrightarrow> ring_rep m (ring_new (int m)) [] []"
  by (simp add: ring_rep_def ring_new_def)

lemma ring_stream_rep: "ring_rep m r hk hv \<Longrightarrow> ring_rep m (r\<lparr>rg_stream := Some d\<rparr>) hk hv"
  by (auto simp: ring_rep_def split: option.splits)

lemma ring_clone_same: "ring_deep_clone r = r"
  by (simp add: ring_deep_clone_def ring_restore_def ring_take_snapshot_def ring_new_def)

text \<open>\<open>held m h\<close> is what a block write keeps of the history before it appends.\<close>

definition held :: "nat \<Rightarrow> 'a list \<Rightarrow> 'a list" where
  "held m h = drop (length h - min (length h) (m - 1)) h"

lemma length_held: "length (held m h) = min (length h) (m - 1)"
  by (simp add: held_def)

lemma update_concat_rep:
  assumes rep: "ring_rep m r hk hv" and st: "rg_stream r \<noteq> None"
    and len: "length nv = length nk" and ne: "nk \<noteq> []"
  shows "\<exists>r'. update_concat r nk nv = Some (r', held m hk @ nk, held m hv @ nv) \<and>
    ring_rep m r' (hk @ nk) (hv @ nv) \<and> rg_idx r' = int (length (held m hk @ nk)) \<and>
    rg_keys r' = Some (held m hk @ nk) \<and> rg_stream r' = rg_stream r"
proof -
  note D = ring_repD [OF rep]
  from len ne have ne': "nv \<noteq> []" by auto
  let ?k = "held m hk @ nk" and ?v = "held m hv @ nv"
  let ?r = "r\<lparr>rg_keys := Some ?k, rg_values := Some ?v,
              rg_offset := int (length hk) + int (length nk), rg_idx := int (length ?k)\<rparr>"
  have lens: "length ?v = length ?k" using len D(4) by (simp add: length_held)
  have "buf_rep (if length (hk @ nk) < m then FrontOrder else Temporal) m (length ?k) ?k (hk @ nk)"
    unfolding held_def by (rule concat_shape(1) [OF D(1) ne])
  moreover have "buf_rep (if length (hv @ nv) < m then FrontOrder else Temporal) m (length ?v) ?v (hv @ nv)"
    unfolding held_def by (rule concat_shape(1) [OF D(1) ne'])
  ultimately have rep': "ring_rep m ?r (hk @ nk) (hv @ nv)"
    using lens len D st
    by (intro ring_rep_Filled [where k = ?k and v = ?v and i = "length ?k"
          and sh = "if length (hk @ nk) < m then FrontOrder else Temporal"]) simp_all
  have up: "update_concat r nk nv = Some (?r, ?k, ?v)"
    using rep
  proof (cases rule: ring_rep_cases)
    case Empty
    then show ?thesis using D by (simp add: update_concat_def held_def)
  next
    case (Filled k v sh i)
    let ?j = "case sh of FrontOrder \<Rightarrow> length hk | Temporal \<Rightarrow> length k | Rotated \<Rightarrow> m"
    have kt: "temporal_order 0 (int i) (int (length hk)) k = drop (length hk - ?j) hk"
      using temporal_order_rep [OF Filled(6)] .
    have vt: "temporal_order 0 (int i) (int (length hk)) v = drop (length hv - ?j) hv"
      using temporal_order_rep [OF Filled(7)] D(4) Filled(3) by (simp cong: ring_shape.case_cong)
    have j: "min (length hk) m \<le> ?j" "?j \<le> length hk"
      using Filled(6) by (cases sh; simp)+
    have lj: "length (drop (length hk - ?j) hk) = ?j" using j(2) by simp
    have ck: "ring_trim 0 (int ?j - int m + 1) (drop (length hk - ?j) hk) (Some nk) = ?k"
      unfolding held_def by (rule concat_rep [OF j D(1)])
    have cv: "ring_trim 0 (int ?j - int m + 1) (drop (length hv - ?j) hv) (Some nv) = ?v"
      unfolding held_def by (rule concat_rep) (use j D in simp_all)
    show ?thesis
      unfolding update_concat_def Let_def Filled(1,2,5) D(2,3,5) option.case kt vt lj ck cv
      by simp
  qed
  show ?thesis using rep' up by (intro exI [of _ ?r]) simp
qed

lemma grow_buffers_rep:
  assumes rep: "ring_rep m r hk hv" and st: "rg_stream r \<noteq> None"
  shows "\<exists>k v sh i. grow_buffers r = Some (r\<lparr>rg_keys := Some k, rg_values := Some v, rg_idx := int i\<rparr>) \<and>
    length k = length v \<and> buf_rep sh m i k hk \<and> buf_rep sh m i v hv \<and>
    (sh = FrontOrder \<longrightarrow> length hk < length k)"
  using rep
proof (cases rule: ring_rep_cases)
  case Empty
  then show ?thesis using ring_repD [OF rep]
    by (intro exI [of _ "replicate (min 256 m) 0"] exI [of _ FrontOrder] exI [of _ 0])
       (auto simp: grow_buffers_def ROTATING_STEP_def min_def)
next
  case (Filled k v sh i)
  note D = ring_repD [OF rep]
  let ?k = "grown m (length hk) k" and ?v = "grown m (length hv) v"
  have idx: "sh = FrontOrder \<or> ?k = k" "sh = FrontOrder \<Longrightarrow> i = length hk"
    using Filled(6) grown_rep(3) [OF Filled(6)] by (blast, simp)
  have shape: "buf_rep sh m i ?k hk" "buf_rep sh m i ?v hv"
    using grown_rep(1) [of sh m i k hk] grown_rep(3) [of sh m i k hk]
      grown_rep(1) [of sh m i v hv] grown_rep(3) [of sh m i v hv] Filled(6,7)
    by (cases "sh = FrontOrder"; simp del: buf_rep.simps)+
  have need: "int (length k) \<le> int (length hk) \<and> int (length k) < int m \<longleftrightarrow>
      length k \<le> length hk \<and> length k < m" by simp
  have noneed: "\<not> (length k \<le> length hk \<and> length k < m) \<Longrightarrow> ?k = k \<and> ?v = v"
    using Filled(3) D(4) unfolding grown_def by metis
  have sz: "nat (min 256 (int m - int (length hk))) = min 256 (m - length hk)"
    by (auto simp: min_def)
  have "grow_buffers r = Some (r\<lparr>rg_keys := Some ?k, rg_values := Some ?v, rg_idx := int i\<rparr>)"
  proof (cases "length k \<le> length hk \<and> length k < m")
    case True
    then have "sh = FrontOrder" using Filled(6) by (cases sh) auto
    with True idx show ?thesis
      using Filled(1-3,5) D by (simp add: grow_buffers_def grown_def ROTATING_STEP_def sz Let_def)
  next
    case False
    have "r = r\<lparr>rg_keys := Some k, rg_values := Some v, rg_idx := int i\<rparr>"
      using Filled(1,2,5) by simp
    with False noneed show ?thesis
      using Filled(1) D by (simp add: grow_buffers_def)
  qed
  moreover have "length ?k = length ?v" using Filled(3) D(4) by (simp add: grown_def)
  moreover have "sh = FrontOrder \<longrightarrow> length hk < length ?k"
    using grown_rep(2) [OF Filled(6)] by blast
  ultimately show ?thesis using shape by blast
qed

text \<open>Where a single position is written, and what the buffer is when it is written.\<close>

definition slot_at :: "nat \<Rightarrow> nat \<Rightarrow> 'a list \<Rightarrow> nat" where
  "slot_at m i b = (if m < length b \<or> i = m then 0 else i)"

lemma slot_wrapped:
  assumes rep: "buf_rep sh m i b h" and m: "0 < m" and sh: "sh \<noteq> FrontOrder"
  defines "c \<equiv> if m < length b then cut_to m b else b" and "j \<equiv> slot_at m i b"
  shows "length c = m" "j < m" "m \<le> length h" "drop j c @ take j c = drop (length h - m) h"
proof -
  have all: "length c = m \<and> j < m \<and> m \<le> length h \<and> drop j c @ take j c = drop (length h - m) h"
  proof (cases sh)
    case Temporal
    with rep have T: "buf_rep Temporal m i b h" by simp
    then have "i = length b" "m \<le> length b" "m \<le> length h" by auto
    moreover from this have "c = cut_to m b" by (simp add: c_def cut_to_def)
    moreover have "j = 0" using calculation by (auto simp: j_def slot_at_def)
    ultimately show ?thesis using cut_temporal [OF T] m by simp
  next
    case Rotated
    with rep m show ?thesis by (simp add: c_def j_def slot_at_def)
  qed (use sh in simp)
  then show "length c = m" "j < m" "m \<le> length h" "drop j c @ take j c = drop (length h - m) h"
    by simp_all
qed

lemma put_rep:
  fixes x :: 'a
  assumes rep: "buf_rep sh m i b h" and m: "0 < m" and lin: "sh = FrontOrder \<Longrightarrow> length h < length b"
  defines "b' \<equiv> put_at (slot_at m i b) x (if m < length b then cut_to m b else b)"
    and "i' \<equiv> Suc (slot_at m i b)" and "h' \<equiv> h @ [x]"
  shows "buf_rep (if length h' < m then FrontOrder else if i' < m then Rotated else Temporal) m i' b' h' \<and>
    (length h' < m \<longrightarrow> take (length h') b' = h') \<and>
    (m \<le> length h' \<longrightarrow> drop i' b' @ take i' b' = drop (length h' - m) h')"
proof (cases "sh = FrontOrder")
  case True
  with rep have L: "buf_rep FrontOrder m i b h" by simp
  then have i: "i = length h" "length h < m" "length b \<le> m" by auto
  then have eq: "slot_at m i b = i" "b' = put_at i x b" by (auto simp: b'_def slot_at_def)
  note P = put_linear [OF L lin [OF True], of x]
  have "m \<le> length h' \<Longrightarrow> drop i' b' @ take i' b' = drop (length h' - m) h'"
    using P(2) i eq lin [OF True] by (simp add: i'_def h'_def)
  moreover have "i' < m \<longleftrightarrow> length h' < m" using eq i by (simp add: i'_def h'_def)
  ultimately show ?thesis using P eq by (auto simp: i'_def h'_def simp del: buf_rep.simps)
next
  case False
  note W = slot_wrapped [OF rep m False]
  from put_wrapped [OF W, of x] W(3) show ?thesis
    by (simp add: b'_def i'_def h'_def del: buf_rep.simps)
qed

lemma slot_in_range:
  assumes "buf_rep sh m i b h" "0 < m" "sh = FrontOrder \<Longrightarrow> length h < length b"
  shows "slot_at m i b < length (if m < length b then cut_to m b else b)"
  using slot_wrapped(1,2) [OF assms(1,2)] assms by (cases "sh = FrontOrder") (auto simp: slot_at_def)

lemma trim_is_cut:
  "m < length b \<Longrightarrow> n = length b \<Longrightarrow> ring_trim 0 (int n - int m) b None = cut_to m b"
  by (simp add: ring_trim_def seq_slice_nat cut_to_def nat_diff_distrib')

lemma put_is_slice_update: "slice_update b [z] (int j) (int j + 1) = put_at j z b" "slice_update b [z] 0 1 = put_at 0 z b"
  by (simp_all add: slice_update_def put_at_def nat_add_distrib numeral_eq_Suc)

lemma update_in_place_rep:
  assumes rep: "ring_rep m r hk hv" and st: "rg_stream r \<noteq> None"
  shows "\<exists>r' fk fv. update_in_place r [x] [y] = Some (r', fk, fv) \<and>
    ring_rep m r' (hk @ [x]) (hv @ [y]) \<and>
    (if length (hk @ [x]) < m then fk = hk @ [x] \<and> fv = hv @ [y]
     else \<exists>i. drop i fk @ take i fk = drop (length (hk @ [x]) - m) (hk @ [x]) \<and>
              drop i fv @ take i fv = drop (length (hk @ [x]) - m) (hv @ [y]))"
proof -
  note D = ring_repD [OF rep]
  obtain k v sh i where
    g: "grow_buffers r = Some (r\<lparr>rg_keys := Some k, rg_values := Some v, rg_idx := int i\<rparr>)"
    and len: "length k = length v" and bk: "buf_rep sh m i k hk" and bv: "buf_rep sh m i v hv"
    and lin: "sh = FrontOrder \<Longrightarrow> length hk < length k"
    using grow_buffers_rep [OF rep st] by blast
  define c where "c = (if m < length k then cut_to m k else k)"
  define d where "d = (if m < length v then cut_to m v else v)"
  define j where "j = slot_at m i k"
  have jv: "slot_at m i v = j" using len by (simp add: j_def slot_at_def)
  have linv: "sh = FrontOrder \<Longrightarrow> length hv < length v" using lin len D(4) by simp
  have jr: "j < length c" "j < length d"
    using slot_in_range [OF bk D(1) lin] slot_in_range [OF bv D(1) linv] jv
    by (simp_all add: j_def c_def d_def)
  let ?r = "r\<lparr>rg_keys := Some (put_at j x c), rg_values := Some (put_at j y d),
              rg_offset := int (length hk) + 1, rg_idx := int j + 1\<rparr>"
  have up: "update_in_place r [x] [y] =
      (if int (length hk) + 1 < int m
       then Some (?r, seq_slice 0 (int (length hk) + 1) (put_at j x c),
                      seq_slice 0 (int (length hk) + 1) (put_at j y d))
       else Some (?r, put_at j x c, put_at j y d))"
  proof (cases "m < length k")
    case True
    then have "j = 0" "c = cut_to m k" "d = cut_to m v"
      using len by (simp_all add: j_def slot_at_def c_def d_def)
    then show ?thesis using True D len
      by (simp add: update_in_place_def g put_is_slice_update trim_is_cut Let_def)
  next
    case False
    then have "int j = (if i = m then 0 else int i)" "c = k" "d = v"
      using len by (simp_all add: j_def slot_at_def c_def d_def)
    then show ?thesis using False D len
      by (cases "i = m") (simp_all add: update_in_place_def g Let_def put_is_slice_update)
  qed
  let ?hk = "hk @ [x]" and ?hv = "hv @ [y]"
  let ?sh = "if length ?hk < m then FrontOrder else if Suc j < m then Rotated else Temporal"
  have P: "buf_rep ?sh m (Suc j) (put_at j x c) ?hk \<and>
      (length ?hk < m \<longrightarrow> take (length ?hk) (put_at j x c) = ?hk) \<and>
      (m \<le> length ?hk \<longrightarrow> drop (Suc j) (put_at j x c) @ take (Suc j) (put_at j x c) =
         drop (length ?hk - m) ?hk)"
    using put_rep [OF bk D(1) lin, of x] unfolding c_def j_def .
  have "buf_rep (if length ?hv < m then FrontOrder else if Suc j < m then Rotated else Temporal) m (Suc j) (put_at j y d) ?hv \<and>
      (length ?hv < m \<longrightarrow> take (length ?hv) (put_at j y d) = ?hv) \<and>
      (m \<le> length ?hv \<longrightarrow> drop (Suc j) (put_at j y d) @ take (Suc j) (put_at j y d) =
         drop (length ?hv - m) ?hv)"
    using put_rep [OF bv D(1) linv, of y] unfolding d_def [symmetric] jv .
  then have Q: "buf_rep ?sh m (Suc j) (put_at j y d) ?hv \<and>
      (length ?hk < m \<longrightarrow> take (length ?hk) (put_at j y d) = ?hv) \<and>
      (m \<le> length ?hk \<longrightarrow> drop (Suc j) (put_at j y d) @ take (Suc j) (put_at j y d) =
         drop (length ?hk - m) ?hv)"
    using D(4) by (simp del: buf_rep.simps)
  have lens: "length (put_at j x c) = length (put_at j y d)"
    using jr len by (simp add: c_def d_def cut_to_def)
  have rep': "ring_rep m ?r ?hk ?hv"
    using D st lens P Q
    by (intro ring_rep_Filled [where k = "put_at j x c" and v = "put_at j y d" and i = "Suc j"
          and sh = ?sh]) simp_all
  show ?thesis
  proof (cases "length ?hk < m")
    case True
    with P Q up rep' show ?thesis
      by (intro exI [of _ ?r] exI [of _ ?hk] exI [of _ ?hv])
         (simp add: seq_slice_def nat_add_distrib del: buf_rep.simps)
  next
    case False
    with P Q up rep' show ?thesis
      by (intro exI [of _ ?r] exI [of _ "put_at j x c"] exI [of _ "put_at j y d"])
         (auto simp del: buf_rep.simps)
  qed
qed

lemma roll_linear:
  assumes "buf_rep FrontOrder m i b h" "n \<le> length h"
  shows "buf_rep FrontOrder m (i - n) b (take (length h - n) h)"
proof -
  from assms have "take (length h - n) b = take (length h - n) h"
    by (metis buf_rep.simps(1) min.absorb1 diff_le_self take_take)
  with assms show ?thesis by auto
qed

lemma roll_temporal:
  assumes T: "buf_rep Temporal m i b h" and n: "n \<le> length h" "n \<le> length b"
    and r: "min (length h - n) m \<le> length b - n"
  shows "buf_rep (if length h - n < m then FrontOrder else Temporal) m (length b - n)
           (take (length b - n) b) (take (length h - n) h)"
proof -
  from T have b: "b = drop (length h - length b) h" "length b \<le> length h" by auto
  show ?thesis
  proof (cases "length h - n < m")
    case True
    with r n b(2) have l: "length b = length h" by simp
    with b(1) have "b = h" by simp
    with True n show ?thesis by simp
  next
    case False
    define b' h' where "b' = take (length b - n) b" and "h' = take (length h - n) h"
    have len: "length b' = length b - n" "length h' = length h - n" by (simp_all add: b'_def h'_def)
    have "take (length b - n) (drop (length h - length b) h) =
        drop (length h - length b) (take (length h - n) h)"
      using b(2) n by (simp add: take_drop)
    then have "b' = drop (length h - length b) h'" using b(1) by (simp add: b'_def h'_def)
    moreover have "length h - length b = length h' - length b'" using n len by simp
    moreover have "m \<le> length b'" "length b' \<le> length h'" using False r b(2) len by auto
    ultimately have "buf_rep Temporal m (length b') b' h'" by simp
    then show ?thesis using False len by (simp add: b'_def h'_def del: buf_rep.simps)
  qed
qed

lemma can_trim_shape:
  assumes rep: "ring_rep m r hk hv" and n: "0 < n" and ct: "can_trim r (int n)"
  obtains (Front) k v where "rg_keys r = Some k" "rg_values r = Some v" "length k = length v"
      "rg_stream r \<noteq> None" "n \<le> length hk" "length hk < m"
      "buf_rep FrontOrder m (length hk) k hk" "buf_rep FrontOrder m (length hv) v hv" "rg_idx r = int (length hk)"
  | (Wrapped) k v where "rg_keys r = Some k" "rg_values r = Some v" "length k = length v"
      "rg_stream r \<noteq> None" "n \<le> length hk" "m \<le> length hk" "n \<le> length k"
      "buf_rep Temporal m (length k) k hk" "buf_rep Temporal m (length v) v hv" "rg_idx r = int (length k)"
      "min (length hk - n) m \<le> length k - n"
  using rep
proof (cases rule: ring_rep_cases)
  case Empty
  then show thesis using ct n ring_repD [OF rep] by (simp add: can_trim_def)
next
  case (Filled k v sh i)
  note D = ring_repD [OF rep]
  have nl: "n \<le> length hk" using ct n D by (auto simp: can_trim_def split: if_splits)
  show thesis
  proof (cases "length hk < m")
    case True
    then have sh: "sh = FrontOrder" using Filled(6) by (cases sh) auto
    then have "i = length hk" using Filled(6) by simp
    with sh Filled D(4) have "buf_rep FrontOrder m (length hk) k hk" "buf_rep FrontOrder m (length hv) v hv"
      "rg_idx r = int (length hk)" by (simp_all del: buf_rep.simps)
    with True Filled(1-4) nl show thesis by (intro Front [of k v])
  next
    case False
    then have c: "i = length k" "int (length k) - int n \<ge> min (int (length hk) - int n) (int m)"
      using ct n D Filled(1,4,5) nl by (auto simp: can_trim_def split: if_splits)
    have sh: "sh = Temporal" using Filled(6) c(1) False by (cases sh) auto
    have nk: "n \<le> length k" "min (length hk - n) m \<le> length k - n"
      using c(2) nl by (auto simp: min_def split: if_splits)
    from sh c Filled have "buf_rep Temporal m (length k) k hk" "buf_rep Temporal m (length v) v hv"
      by (simp_all del: buf_rep.simps)
    moreover have "rg_idx r = int (length k)" "m \<le> length hk" using Filled(5) c(1) False by simp_all
    ultimately show thesis using Filled(1-4) nl nk by (intro Wrapped [of k v])
  qed
qed

lemma roll_back_rep:
  assumes rep: "ring_rep m r hk hv" and n: "0 < n" and ct: "can_trim r (int n)"
  shows "\<exists>r'. roll_back (int n) r = Inr (True, r') \<and>
    ring_rep m r' (take (length hk - n) hk) (take (length hk - n) hv)"
  using rep n ct
proof (cases rule: can_trim_shape)
  case (Front k v)
  note D = ring_repD [OF rep]
  let ?r = "r\<lparr>rg_idx := int (length hk - n), rg_offset := int (length hk - n)\<rparr>"
  have "roll_back (int n) r = Inr (True, ?r)"
    using ct n D Front(5,6,9) by (simp add: roll_back_def of_nat_diff)
  moreover have "ring_rep m ?r (take (length hk - n) hk) (take (length hk - n) hv)"
    using D Front(1-4) roll_linear [OF Front(7) Front(5)] roll_linear [OF Front(8), of n] Front(5)
    by (intro ring_rep_Filled [where k = k and v = v and i = "length hk - n" and sh = FrontOrder])
       (simp_all del: buf_rep.simps)
  ultimately show ?thesis by blast
next
  case (Wrapped k v)
  note D = ring_repD [OF rep]
  let ?k = "take (length k - n) k" and ?v = "take (length k - n) v"
  let ?r = "r\<lparr>rg_keys := Some ?k, rg_values := Some ?v, rg_idx := int (length k - n),
              rg_offset := int (length hk - n)\<rparr>"
  have "roll_back (int n) r = Inr (True, ?r)"
    using ct n D Wrapped(1-7,10) by (auto simp: nat_diff_distrib' roll_back_def slice_leading_def seq_slice_def Let_def of_nat_diff split: option.splits)
  moreover have "ring_rep m ?r (take (length hk - n) hk) (take (length hk - n) hv)"
    using n D Wrapped roll_temporal [OF Wrapped(8,5,7,11)] roll_temporal [OF Wrapped(9), of n]
    by (intro ring_rep_Filled [where k = ?k and v = ?v and i = "length k - n"
          and sh = "if length hk - n < m then FrontOrder else Temporal"])
       (simp_all add: min_def del: buf_rep.simps)
  ultimately show ?thesis by blast
qed

lemma roll_back_refused: "\<not> can_trim r n \<Longrightarrow> roll_back n r = Inr (False, r)"
  by (simp add: roll_back_def)

inductive ring_reach :: "nat \<Rightarrow> ('k::zero, 'v::zero) ring \<Rightarrow> 'k list \<Rightarrow> 'v list \<Rightarrow> bool"
  for m where
  rr_new: "0 < m \<Longrightarrow> ring_reach m (ring_new (int m)) [] []"
| rr_write: "\<lbrakk>ring_reach m r hk hv; nk \<noteq> []; length nv = length nk;
    update_and_fetch d r nk nv = Some (r', out)\<rbrakk> \<Longrightarrow> ring_reach m r' (hk @ nk) (hv @ nv)"
| rr_roll: "\<lbrakk>ring_reach m r hk hv; 0 < n; roll_back (int n) r = Inr (True, r')\<rbrakk> \<Longrightarrow>
    ring_reach m r' (take (length hk - n) hk) (take (length hk - n) hv)"
| rr_clone: "ring_reach m r hk hv \<Longrightarrow> ring_reach m (ring_deep_clone r) hk hv"
| rr_reset: "ring_reach m r hk hv \<Longrightarrow> ring_reach m (ring_reset r) [] []"

text \<open>\<open>served m hk nk f i\<close>: what a fetch returns for one buffer, read from position \<open>i\<close> on.\<close>

definition served :: "nat \<Rightarrow> 'a list \<Rightarrow> 'a list \<Rightarrow> 'a list \<Rightarrow> nat \<Rightarrow> bool" where
  "served m h new f i \<longleftrightarrow>
     (if length new = 1
      then drop i f @ take i f = drop (length (h @ new) - m) (h @ new) \<and>
           (length (h @ new) < m \<longrightarrow> i = 0)
      else f = held m h @ new)"

lemma update_and_fetch_rep:
  assumes rep: "ring_rep m r hk hv" and ne: "nk \<noteq> []" and len: "length nv = length nk"
  shows "\<exists>r' fk fv i. update_and_fetch d r nk nv = Some (r', fk, fv) \<and>
    ring_rep m r' (hk @ nk) (hv @ nv) \<and> served m hk nk fk i \<and> served m hv nv fv i \<and>
    (length nk \<noteq> 1 \<longrightarrow> rg_idx r' = int (length fk) \<and> rg_keys r' = Some fk \<and> rg_stream r' \<noteq> None)"
proof -
  let ?r = "r\<lparr>rg_stream := Some d\<rparr>"
  note rep' = ring_stream_rep [OF rep, of d]
  note D = ring_repD [OF rep]
  show ?thesis
  proof (cases "length nk = 1")
    case True
    with len obtain x y where xy: "nk = [x]" "nv = [y]"
      by (metis One_nat_def length_0_conv length_Suc_conv)
    obtain r' fk fv where u: "update_in_place ?r [x] [y] = Some (r', fk, fv)"
      and rr: "ring_rep m r' (hk @ [x]) (hv @ [y])"
      and f: "if length (hk @ [x]) < m then fk = hk @ [x] \<and> fv = hv @ [y]
        else \<exists>i. drop i fk @ take i fk = drop (length (hk @ [x]) - m) (hk @ [x]) \<and>
              drop i fv @ take i fv = drop (length (hk @ [x]) - m) (hv @ [y])"
      using update_in_place_rep [OF rep', of x y] by auto
    from f D(4) have "\<exists>i. served m hk nk fk i \<and> served m hv nv fv i"
      by (cases "length (hk @ [x]) < m") (auto simp: served_def xy intro: exI [of _ 0])
    with u rr xy show ?thesis by (auto simp: update_and_fetch_def)
  next
    case False
    from update_concat_rep [OF rep' _ len ne] False len show ?thesis
      by (auto simp: update_and_fetch_def served_def)
  qed
qed

lemma ring_reach_rep: "ring_reach m r hk hv \<Longrightarrow> ring_rep m r hk hv"
proof (induction rule: ring_reach.induct)
  case rr_new
  then show ?case by (rule ring_new_rep)
next
  case (rr_write r hk hv nk nv d r' out)
  from update_and_fetch_rep [OF rr_write.IH rr_write.hyps(2,3), of d] rr_write.hyps(4)
  show ?case by auto
next
  case (rr_roll r hk hv n r')
  then have "can_trim r (int n)" by (auto simp: roll_back_def split: if_splits)
  from roll_back_rep [OF rr_roll.IH rr_roll.hyps(2) this] rr_roll.hyps(3) show ?case by auto
next
  case (rr_clone r hk hv)
  then show ?case by (simp add: ring_clone_same)
next
  case (rr_reset r hk hv)
  then show ?case by (simp add: ring_rep_def ring_reset_def)
qed

section \<open>Properties\<close>

text \<open>C11: The ring serves the sliding window. After any sequence of writes, admitted rollbacks,
  clones and resets, a further write of \<open>nk\<close>/\<open>nv\<close> succeeds, and what it returns is the window
  of the positions written and not rolled back: a single-position write returns the last
  \<open>m\<close> positions, in order until the ring is full and from then on for K and V rotated by
  the same amount; a block write returns the last
  \<open>m - 1\<close> positions of the history followed by the block, in order.
\<close>

theorem ring_serves_window:
  assumes "ring_reach m r hk hv" "nk \<noteq> []" "length nv = length nk"
  shows "\<exists>r' fk fv i. update_and_fetch d r nk nv = Some (r', fk, fv) \<and>
    served m hk nk fk i \<and> served m hv nv fv i"
  using update_and_fetch_rep [OF ring_reach_rep [OF assms(1)] assms(2,3), of d] by blast

definition sample_ring :: "(nat, nat) ring" where
  "sample_ring = \<lparr>rg_keys = Some [4, 2, 3], rg_values = Some [40, 20, 30], rg_offset = 4,
     rg_max_size = 3, rg_keep = 0, rg_idx = 1, rg_stream = Some GpuStream\<rparr>"

lemma sample_ring_reach: "ring_reach 3 sample_ring [1, 2, 3, 4] [10, 20, 30, 40]"
proof -
  note new = rr_new [of 3, simplified]
  have "update_and_fetch GpuStream (ring_new 3) [1, 2, 3::nat] [10, 20, 30::nat] =
      Some (\<lparr>rg_keys = Some [1, 2, 3], rg_values = Some [10, 20, 30], rg_offset = 3, rg_max_size = 3,
             rg_keep = 0, rg_idx = 3, rg_stream = Some GpuStream\<rparr>, [1, 2, 3], [10, 20, 30])"
    by (simp add: update_and_fetch_def update_concat_def ring_new_def)
  from rr_write [OF new _ _ this]
  have r1: "ring_reach 3 \<lparr>rg_keys = Some [1, 2, 3], rg_values = Some [10, 20, 30], rg_offset = 3,
      rg_max_size = 3, rg_keep = 0, rg_idx = 3, rg_stream = Some GpuStream\<rparr>
      [1, 2, 3::nat] [10, 20, 30::nat]" by simp
  have "update_and_fetch GpuStream \<lparr>rg_keys = Some [1, 2, 3], rg_values = Some [10, 20, 30],
      rg_offset = 3, rg_max_size = 3, rg_keep = 0, rg_idx = 3, rg_stream = Some GpuStream\<rparr>
      [4::nat] [40::nat] = Some (sample_ring, [4, 2, 3], [40, 20, 30])"
    by (simp add: update_and_fetch_def update_in_place_def grow_buffers_def sample_ring_def
        slice_update_def Let_def)
  from rr_write [OF r1 _ _ this] show ?thesis by simp
qed

theorem ring_serves_window_witness:
  "\<exists>r' fk fv i. update_and_fetch GpuStream sample_ring [5] [50] = Some (r', fk, fv) \<and>
    served 3 [1, 2, 3, 4] [5] fk i \<and> served 3 [10, 20, 30, 40] [50] fv i"
  by (rule ring_serves_window [OF sample_ring_reach]) simp_all

text \<open>
  Which rollbacks a block write leaves admitted. After a block of at least two positions
  the ring can always be rolled back over its own tail, up to one position less than the
  block, as a round of speculative decoding needs; it can be rolled back further exactly
  when the history before the block was shorter than the window, and then over anything
  written. A refused rollback returns \<^verbatim>\<open>false\<close> and leaves the ring as it was; no rollback
  fails for a missing stream.
\<close>

theorem block_rollback_exact:
  assumes "ring_reach m r hk hv" "2 \<le> length nk" "length nv = length nk" "0 < n"
    and "update_and_fetch d r nk nv = Some (r', out)"
  shows "if n < length nk \<or> length hk < m \<and> n \<le> length hk + length nk
    then \<exists>r''. roll_back (int n) r' = Inr (True, r'')
    else roll_back (int n) r' = Inr (False, r')"
proof -
  from assms(2) have ne: "nk \<noteq> []" "length nk \<noteq> 1" by auto
  note rep = ring_reach_rep [OF assms(1)]
  note m = ring_repD(1) [OF rep]
  obtain fk fv i where out: "out = (fk, fv)" and rep': "ring_rep m r' (hk @ nk) (hv @ nv)"
    and sv: "served m hk nk fk i" and b: "rg_idx r' = int (length fk)" "rg_keys r' = Some fk"
      "rg_stream r' \<noteq> None"
    using update_and_fetch_rep [OF rep ne(1) assms(3), of d] assms(5) ne(2) by auto
  have len: "length fk = min (length hk) (m - 1) + length nk"
    using sv ne(2) by (simp add: served_def length_held)
  note D = ring_repD [OF rep']
  have iff: "can_trim r' (int n) \<longleftrightarrow> n < length nk \<or> length hk < m \<and> n \<le> length hk + length nk"
  proof -
    have "can_trim r' (int n) \<longleftrightarrow> n \<le> length hk + length nk \<and>
        (length hk + length nk < m \<or>
         int (length fk) - int n \<ge> min (int (length hk + length nk) - int n) (int m))"
      using b assms(4) D by (auto simp: can_trim_def split: option.splits)
    then show ?thesis using len m by (auto simp: min_def split: if_splits)
  qed
  show ?thesis
    using roll_back_rep [OF rep' assms(4)] roll_back_refused [of r' "int n"] iff by auto
qed

theorem block_rollback_exact_witness:
  "roll_back 2 (fst (the (update_and_fetch GpuStream sample_ring [5, 6] [50, 60]))) =
     Inr (False, fst (the (update_and_fetch GpuStream sample_ring [5, 6] [50, 60]))) \<and>
   (\<exists>r''. roll_back 1 (fst (the (update_and_fetch GpuStream sample_ring [5, 6] [50, 60]))) =
     Inr (True, r''))"
proof -
  obtain r' out where u: "update_and_fetch GpuStream sample_ring [5, 6] [50, 60] = Some (r', out)"
    using update_and_fetch_rep [OF ring_reach_rep [OF sample_ring_reach], of "[5, 6]" "[50, 60]" GpuStream]
    by auto
  from block_rollback_exact [OF sample_ring_reach _ _ _ u, of 2]
    block_rollback_exact [OF sample_ring_reach _ _ _ u, of 1] u
  show ?thesis by simp
qed

end
