(* ===== verification/PromptEntry.thy ===== *)
theory PromptEntry
  imports RotatingRing KvLayers
begin

text \<open>
  The entries of the prompt cache: the \<^verbatim>\<open>PromptCacheEntry\<close> trait of
  \<^verbatim>\<open>rmlx-models/src/prompt_cache.rs\<close> as a record of functions, and the three shapes of
  entry that implement it: \<^verbatim>\<open>Gemma4Entry\<close> (partial reuse), \<^verbatim>\<open>Qwen35MoeEntry\<close> (a recurrent
  state and an anchor) and the entries that keep the trait's defaults (\<^verbatim>\<open>Qwen2Entry\<close>). Of a
  layer's \<^verbatim>\<open>KvCache\<close> the model keeps what an entry reads: its offset, its ring, whether it
  carries payload, whether it holds pages, and its resident bytes as a function of the
  offset.

  The locale \<open>cache_entry\<close> is what the cache relies on. The lemmas discharge it for each
  entry, and show that a spilled recurrent state sits at the end of the block it is keyed
  under.
\<close>

section \<open>Reuse kinds and anchors\<close>

datatype reuse_kind = StrictPrefix nat | BlockTruncate nat

fun reuse_prefix_len :: "reuse_kind \<Rightarrow> nat" where
  "reuse_prefix_len (StrictPrefix n) = n"
| "reuse_prefix_len (BlockTruncate b) = b * BLOCK_TOKENS"

record 'l lin_cache =
  lc_state :: 'l
  lc_bytes :: nat

record 'l anchor =
  an_pos :: nat
  an_lin_caches :: "'l lin_cache list"

definition anchor_pos_for :: "nat \<Rightarrow> nat option" where
  "anchor_pos_for prompt_len =
     (let pos = (prompt_len - 1) div BLOCK_TOKENS * BLOCK_TOKENS in
      if pos > 0 then Some pos else None)"

definition anchor_target :: "nat \<Rightarrow> nat \<Rightarrow> nat option" where
  "anchor_target prompt_len resume_from =
     (case anchor_pos_for prompt_len of
        Some pos \<Rightarrow> if pos \<ge> resume_from then Some pos else None
      | None \<Rightarrow> None)"

definition anchor_resident_bytes :: "'l anchor \<Rightarrow> nat" where
  "anchor_resident_bytes a = sum_list (map lc_bytes (an_lin_caches a))"

section \<open>A layer's cache\<close>

record ('k, 'v) kv_layer =
  kl_offset :: int
  kl_rotating :: "('k, 'v) ring option"
  kl_storage_none :: bool
  kl_fp16_k :: bool
  kl_fp16_v :: bool
  kl_holds_pages :: bool
  kl_bytes_at :: "int \<Rightarrow> nat"

datatype entry_error = PagedCacheHoldsPages | RingNotRollable | RingStreamMissing | NoAnchorAt nat

definition kl_resident_bytes :: "('k, 'v) kv_layer \<Rightarrow> nat" where
  "kl_resident_bytes l = kl_bytes_at l (kl_offset l)"

definition has_persistent_cache :: "('k, 'v) kv_layer \<Rightarrow> bool" where
  "has_persistent_cache l \<longleftrightarrow> \<not> kl_storage_none l"

definition has_fp16_kv :: "('k, 'v) kv_layer \<Rightarrow> bool" where
  "has_fp16_kv l \<longleftrightarrow> kl_fp16_k l \<and> kl_fp16_v l"

definition kl_can_truncate_to :: "('k, 'v) kv_layer \<Rightarrow> int \<Rightarrow> bool" where
  "kl_can_truncate_to l n \<longleftrightarrow> n \<le> kl_offset l \<and>
     (case kl_rotating l of None \<Rightarrow> True | Some r \<Rightarrow> can_trim r (kl_offset l - n))"

definition kl_truncate_to :: "int \<Rightarrow> ('k, 'v) kv_layer \<Rightarrow> entry_error + ('k, 'v) kv_layer" where
  "kl_truncate_to n l =
     (case kl_rotating l of
        Some r \<Rightarrow>
          (case roll_back (kl_offset l - n) r of
             Inl _ \<Rightarrow> Inl RingStreamMissing
           | Inr (False, _) \<Rightarrow> Inl RingNotRollable
           | Inr (True, r') \<Rightarrow> Inr (l\<lparr>kl_rotating := Some r', kl_offset := rg_offset r'\<rparr>))
      | None \<Rightarrow> Inr (l\<lparr>kl_offset := n\<rparr>))"

definition kl_deep_clone :: "('k, 'v) kv_layer \<Rightarrow> entry_error + ('k, 'v) kv_layer" where
  "kl_deep_clone l =
     (if kl_holds_pages l then Inl PagedCacheHoldsPages
      else Inr (l\<lparr>kl_rotating := map_option ring_deep_clone (kl_rotating l)\<rparr>))"

text \<open>\<^verbatim>\<open>collect::<Result<Vec<_>>>\<close>: the first error, or every element.\<close>

fun collect_results :: "('a \<Rightarrow> 'x + 'b) \<Rightarrow> 'a list \<Rightarrow> 'x + 'b list" where
  "collect_results f [] = Inr []"
| "collect_results f (x # xs) =
     (case f x of Inl e \<Rightarrow> Inl e
      | Inr y \<Rightarrow> (case collect_results f xs of Inl e \<Rightarrow> Inl e | Inr ys \<Rightarrow> Inr (y # ys)))"

definition truncate_kv_to :: "nat \<Rightarrow> ('k, 'v) kv_layer list \<Rightarrow> entry_error + ('k, 'v) kv_layer list" where
  "truncate_kv_to prefix_len =
     collect_results (\<lambda>l. if kl_offset l > 0 then kl_truncate_to (int prefix_len) l else Inr l)"

definition truncate_kv_to_block :: "nat \<Rightarrow> ('k, 'v) kv_layer list \<Rightarrow> entry_error + ('k, 'v) kv_layer list" where
  "truncate_kv_to_block blocks = truncate_kv_to (blocks * BLOCK_TOKENS)"

definition can_truncate_to_block :: "('k, 'v) kv_layer list \<Rightarrow> nat \<Rightarrow> bool" where
  "can_truncate_to_block ls blocks \<longleftrightarrow>
     (\<forall>l\<in>set (filter (\<lambda>l. kl_offset l > 0) ls). kl_can_truncate_to l (int (blocks * BLOCK_TOKENS)))"

definition kv_bytes_of :: "'l anchor option \<Rightarrow> ('k, 'v) kv_layer list \<Rightarrow> 'l lin_cache list \<Rightarrow> nat" where
  "kv_bytes_of a ls lins =
     (case a of None \<Rightarrow> 0 | Some a \<Rightarrow> anchor_resident_bytes a) +
     sum_list (map kl_resident_bytes ls) + sum_list (map lc_bytes lins)"

section \<open>The entry contract\<close>

record ('e, 'l) entry_ops =
  en_prompt_token_ids :: "'e \<Rightarrow> u32 list"
  en_block_hashes :: "'e \<Rightarrow> u64 list"
  en_deep_clone :: "'e \<Rightarrow> entry_error + 'e"
  en_kv_quant :: "'e \<Rightarrow> kv_quant option"
  en_is_ssd_hydrated :: "'e \<Rightarrow> bool"
  en_lin_caches :: "'e \<Rightarrow> 'l lin_cache list"
  en_anchor :: "'e \<Rightarrow> 'l anchor option"
  en_can_truncate_to_block :: "'e \<Rightarrow> nat \<Rightarrow> bool"
  en_kv_bytes :: "'e \<Rightarrow> nat"
  en_is_hydrate_complete :: "'e \<Rightarrow> bool"
  en_is_reusable_prefix_of :: "'e \<Rightarrow> u32 list \<Rightarrow> bool \<Rightarrow> nat \<Rightarrow> reuse_kind option"
  en_prepare_reuse :: "'e \<Rightarrow> reuse_kind \<Rightarrow> entry_error + 'e"

record 'l spill_plan_t =
  sp_hash :: u64
  sp_state_len :: nat
  sp_lin_caches :: "'l lin_cache list"

definition spill_plan :: "('e, 'l) entry_ops \<Rightarrow> 'e \<Rightarrow> 'l spill_plan_t option" where
  "spill_plan E e =
     (let hashes = en_block_hashes E e in
      if hashes = [] then None
      else
        let prompt_len = length (en_prompt_token_ids E e);
            block_end = length hashes * BLOCK_TOKENS
        in if prompt_len = block_end \<or> en_lin_caches E e = []
           then Some \<lparr>sp_hash = last hashes, sp_state_len = prompt_len, sp_lin_caches = en_lin_caches E e\<rparr>
           else (case en_anchor E e of
               None \<Rightarrow> None
             | Some a \<Rightarrow>
                 let anchor_blocks = an_pos a div BLOCK_TOKENS in
                 if \<not> en_can_truncate_to_block E e anchor_blocks then None
                 else if anchor_blocks = 0 \<or> length hashes \<le> anchor_blocks - 1 then None
                 else Some \<lparr>sp_hash = hashes ! (anchor_blocks - 1), sp_state_len = an_pos a,
                            sp_lin_caches = an_lin_caches a\<rparr>))"

locale cache_entry =
  fixes E :: "('e, 'l) entry_ops"
  assumes clone_keeps: "en_deep_clone E e = Inr e' \<Longrightarrow>
      en_prompt_token_ids E e' = en_prompt_token_ids E e \<and> en_kv_quant E e' = en_kv_quant E e \<and>
      en_is_ssd_hydrated E e' = en_is_ssd_hydrated E e"
    and prepare_keeps: "en_prepare_reuse E e k = Inr e' \<Longrightarrow>
      en_prompt_token_ids E e' = en_prompt_token_ids E e \<and> en_kv_quant E e' = en_kv_quant E e"
    and reuse_covers: "en_is_reusable_prefix_of E e p h b = Some k \<Longrightarrow>
      b * BLOCK_TOKENS \<le> length p \<Longrightarrow> b * BLOCK_TOKENS \<le> length (en_prompt_token_ids E e) \<Longrightarrow>
      take (b * BLOCK_TOKENS) p = take (b * BLOCK_TOKENS) (en_prompt_token_ids E e) \<Longrightarrow>
      reuse_prefix_len k < length p \<and>
      reuse_prefix_len k \<le> length (en_prompt_token_ids E e) \<and>
      take (reuse_prefix_len k) p = take (reuse_prefix_len k) (en_prompt_token_ids E e)"

section \<open>Gemma4\<close>

record ('k, 'v, 'p) gemma4_entry =
  g4_prompt_token_ids :: "u32 list"
  g4_block_hashes :: "u64 list"
  g4_kv_caches :: "('k, 'v) kv_layer list"
  g4_first_id :: u32
  g4_first_piece :: string
  g4_first_logprobs :: "'p option"
  g4_kv_quant :: "kv_quant option"
  g4_is_ssd_hydrated :: bool

definition is_strict_prefix_of :: "('k, 'v, 'p) gemma4_entry \<Rightarrow> u32 list \<Rightarrow> bool" where
  "is_strict_prefix_of e prompt_ids \<longleftrightarrow>
     (let cached_len = length (g4_prompt_token_ids e) in
      cached_len \<ge> BLOCK_TOKENS \<and> cached_len < length prompt_ids \<and>
      g4_prompt_token_ids e = take cached_len prompt_ids)"

definition g4_hydrate_complete :: "('k, 'v, 'p) gemma4_entry \<Rightarrow> bool" where
  "g4_hydrate_complete e \<longleftrightarrow> list_all (\<lambda>c. has_persistent_cache c \<or> has_fp16_kv c) (g4_kv_caches e)"

definition g4_deep_clone :: "('k, 'v, 'p) gemma4_entry \<Rightarrow> entry_error + ('k, 'v, 'p) gemma4_entry" where
  "g4_deep_clone e =
     (case collect_results kl_deep_clone (g4_kv_caches e) of
        Inl x \<Rightarrow> Inl x | Inr ls \<Rightarrow> Inr (e\<lparr>g4_kv_caches := ls\<rparr>))"

definition g4_effective_blocks :: "u32 list \<Rightarrow> nat \<Rightarrow> nat" where
  "g4_effective_blocks prompt_ids matched_blocks =
     (let prompt_blocks = length prompt_ids div BLOCK_TOKENS in
      if matched_blocks * BLOCK_TOKENS \<ge> length prompt_ids
      then min matched_blocks prompt_blocks - 1 else matched_blocks)"

definition g4_is_reusable_prefix_of ::
  "('k, 'v, 'p) gemma4_entry \<Rightarrow> u32 list \<Rightarrow> bool \<Rightarrow> nat \<Rightarrow> reuse_kind option" where
  "g4_is_reusable_prefix_of e prompt_ids is_hydrated matched_blocks =
     (if is_strict_prefix_of e prompt_ids then Some (StrictPrefix (length (g4_prompt_token_ids e)))
      else
        let effective_blocks = g4_effective_blocks prompt_ids matched_blocks in
        if effective_blocks \<ge> 1 \<and> can_truncate_to_block (g4_kv_caches e) effective_blocks
        then Some (BlockTruncate effective_blocks) else None)"

fun g4_prepare_reuse ::
  "('k, 'v, 'p) gemma4_entry \<Rightarrow> reuse_kind \<Rightarrow> entry_error + ('k, 'v, 'p) gemma4_entry" where
  "g4_prepare_reuse e (StrictPrefix n) = g4_deep_clone e"
| "g4_prepare_reuse e (BlockTruncate blocks) =
     (case g4_deep_clone e of
        Inl x \<Rightarrow> Inl x
      | Inr c \<Rightarrow>
          (case truncate_kv_to_block blocks (g4_kv_caches c) of
             Inl x \<Rightarrow> Inl x
           | Inr ls \<Rightarrow> Inr (c\<lparr>g4_kv_caches := ls\<rparr>)))"

definition g4_from_hydrated ::
  "u32 list \<Rightarrow> ('k, 'v) kv_layer list \<Rightarrow> u64 list \<Rightarrow> kv_quant \<Rightarrow> ('k, 'v, 'p) gemma4_entry" where
  "g4_from_hydrated prompt_ids ls hashes q =
     \<lparr>g4_prompt_token_ids = prompt_ids, g4_block_hashes = hashes, g4_kv_caches = ls, g4_first_id = 0,
      g4_first_piece = '''', g4_first_logprobs = None, g4_kv_quant = Some q, g4_is_ssd_hydrated = True\<rparr>"

definition gemma4_ops :: "(('k, 'v, 'p) gemma4_entry, 'l) entry_ops" where
  "gemma4_ops =
     \<lparr>en_prompt_token_ids = g4_prompt_token_ids, en_block_hashes = g4_block_hashes,
      en_deep_clone = g4_deep_clone, en_kv_quant = g4_kv_quant,
      en_is_ssd_hydrated = g4_is_ssd_hydrated, en_lin_caches = (\<lambda>_. []), en_anchor = (\<lambda>_. None),
      en_can_truncate_to_block = (\<lambda>e. can_truncate_to_block (g4_kv_caches e)),
      en_kv_bytes = (\<lambda>e. kv_bytes_of (None :: 'l anchor option) (g4_kv_caches e) []),
      en_is_hydrate_complete = g4_hydrate_complete,
      en_is_reusable_prefix_of = g4_is_reusable_prefix_of, en_prepare_reuse = g4_prepare_reuse\<rparr>"

section \<open>Qwen3.5\<close>

record ('k, 'v, 'p, 'l) qwen35_entry =
  q5_prompt_token_ids :: "u32 list"
  q5_block_hashes :: "u64 list"
  q5_kv_caches :: "('k, 'v) kv_layer list"
  q5_lin_caches :: "'l lin_cache list"
  q5_anchor :: "'l anchor option"
  q5_first_id :: u32
  q5_first_piece :: string
  q5_first_logprobs :: "'p option"
  q5_kv_quant :: "kv_quant option"
  q5_is_ssd_hydrated :: bool

text \<open>A clone of a recurrent state or an anchor is a reference-count step and gives the same value.\<close>

definition q5_deep_clone :: "('k, 'v, 'p, 'l) qwen35_entry \<Rightarrow> entry_error + ('k, 'v, 'p, 'l) qwen35_entry" where
  "q5_deep_clone e =
     (case collect_results kl_deep_clone (q5_kv_caches e) of
        Inl x \<Rightarrow> Inl x | Inr ls \<Rightarrow> Inr (e\<lparr>q5_kv_caches := ls\<rparr>))"

definition q5_is_reusable_prefix_of ::
  "('k, 'v, 'p, 'l) qwen35_entry \<Rightarrow> u32 list \<Rightarrow> bool \<Rightarrow> nat \<Rightarrow> reuse_kind option" where
  "q5_is_reusable_prefix_of e prompt_ids is_hydrated matched_blocks =
     (let stored = q5_prompt_token_ids e in
      if length stored < length prompt_ids \<and> take (length stored) prompt_ids = stored
      then Some (StrictPrefix (length stored))
      else
        (case q5_anchor e of
           None \<Rightarrow> None
         | Some a \<Rightarrow>
             let effective_blocks = an_pos a div BLOCK_TOKENS in
             if prompt_ids \<noteq> stored \<and> an_pos a < length prompt_ids \<and> an_pos a \<le> length stored \<and>
                take (an_pos a) prompt_ids = take (an_pos a) stored \<and>
                can_truncate_to_block (q5_kv_caches e) effective_blocks
             then Some (BlockTruncate effective_blocks) else None))"

fun q5_prepare_reuse ::
  "('k, 'v, 'p, 'l) qwen35_entry \<Rightarrow> reuse_kind \<Rightarrow> entry_error + ('k, 'v, 'p, 'l) qwen35_entry" where
  "q5_prepare_reuse e (StrictPrefix n) = q5_deep_clone e"
| "q5_prepare_reuse e (BlockTruncate blocks) =
     (case q5_anchor e of
        None \<Rightarrow> Inl (NoAnchorAt blocks)
      | Some a \<Rightarrow>
          if an_pos a \<noteq> blocks * BLOCK_TOKENS then Inl (NoAnchorAt blocks)
          else
            (case q5_deep_clone e of
               Inl x \<Rightarrow> Inl x
             | Inr c \<Rightarrow>
                 (case truncate_kv_to_block blocks (q5_kv_caches c) of
                    Inl x \<Rightarrow> Inl x
                  | Inr ls \<Rightarrow> Inr (c\<lparr>q5_kv_caches := ls, q5_lin_caches := an_lin_caches a\<rparr>))))"

definition q5_from_hydrated ::
  "u32 list \<Rightarrow> ('k, 'v) kv_layer list \<Rightarrow> 'l lin_cache list \<Rightarrow> u64 list \<Rightarrow> kv_quant \<Rightarrow>
   ('k, 'v, 'p, 'l) qwen35_entry" where
  "q5_from_hydrated prompt_ids ls lins hashes q =
     \<lparr>q5_prompt_token_ids = prompt_ids, q5_block_hashes = hashes, q5_kv_caches = ls,
      q5_lin_caches = lins, q5_anchor = None, q5_first_id = 0, q5_first_piece = '''',
      q5_first_logprobs = None, q5_kv_quant = Some q, q5_is_ssd_hydrated = True\<rparr>"

definition qwen35_ops :: "(('k, 'v, 'p, 'l) qwen35_entry, 'l) entry_ops" where
  "qwen35_ops =
     \<lparr>en_prompt_token_ids = q5_prompt_token_ids, en_block_hashes = q5_block_hashes,
      en_deep_clone = q5_deep_clone, en_kv_quant = q5_kv_quant,
      en_is_ssd_hydrated = q5_is_ssd_hydrated, en_lin_caches = q5_lin_caches, en_anchor = q5_anchor,
      en_can_truncate_to_block = (\<lambda>e. can_truncate_to_block (q5_kv_caches e)),
      en_kv_bytes = (\<lambda>e. kv_bytes_of (q5_anchor e) (q5_kv_caches e) (q5_lin_caches e)),
      en_is_hydrate_complete = (\<lambda>_. True),
      en_is_reusable_prefix_of = q5_is_reusable_prefix_of, en_prepare_reuse = q5_prepare_reuse\<rparr>"

section \<open>The default hooks\<close>

record ('k, 'v) qwen2_entry =
  q2_prompt_token_ids :: "u32 list"
  q2_block_hashes :: "u64 list"
  q2_kv_caches :: "('k, 'v) kv_layer list"
  q2_first_id :: u32
  q2_first_piece :: string
  q2_kv_quant :: "kv_quant option"
  q2_is_ssd_hydrated :: bool

definition q2_deep_clone :: "('k, 'v) qwen2_entry \<Rightarrow> entry_error + ('k, 'v) qwen2_entry" where
  "q2_deep_clone e =
     (case collect_results kl_deep_clone (q2_kv_caches e) of
        Inl x \<Rightarrow> Inl x | Inr ls \<Rightarrow> Inr (e\<lparr>q2_kv_caches := ls\<rparr>))"

definition qwen2_ops :: "(('k, 'v) qwen2_entry, 'l) entry_ops" where
  "qwen2_ops =
     \<lparr>en_prompt_token_ids = q2_prompt_token_ids, en_block_hashes = q2_block_hashes,
      en_deep_clone = q2_deep_clone, en_kv_quant = q2_kv_quant,
      en_is_ssd_hydrated = q2_is_ssd_hydrated, en_lin_caches = (\<lambda>_. []), en_anchor = (\<lambda>_. None),
      en_can_truncate_to_block = (\<lambda>e. can_truncate_to_block (q2_kv_caches e)),
      en_kv_bytes = (\<lambda>e. kv_bytes_of (None :: 'l anchor option) (q2_kv_caches e) []),
      en_is_hydrate_complete = (\<lambda>_. True),
      en_is_reusable_prefix_of = (\<lambda>_ _ _ _. None), en_prepare_reuse = (\<lambda>e _. q2_deep_clone e)\<rparr>"

section \<open>The contract holds\<close>

lemma take_shorter: "take n xs = take n ys \<Longrightarrow> m \<le> n \<Longrightarrow> take m xs = take m ys"
  by (metis min.absorb1 take_take)

interpretation gemma4: cache_entry gemma4_ops
proof (unfold_locales, goal_cases)
  case (1 e e')
  then show ?case by (auto simp: gemma4_ops_def g4_deep_clone_def split: sum.splits)
next
  case (2 e k e')
  then show ?case
    by (cases k) (auto simp: gemma4_ops_def g4_deep_clone_def split: sum.splits)
next
  case (3 e p h b k)
  let ?t = "g4_prompt_token_ids e"
  from 3 have r: "g4_is_reusable_prefix_of e p h b = Some k"
    and b: "b * 256 \<le> length p" "b * 256 \<le> length ?t" "take (b * 256) p = take (b * 256) ?t"
    by (simp_all add: gemma4_ops_def BLOCK_TOKENS_def)
  show ?case
  proof (cases "is_strict_prefix_of e p")
    case True
    with r show ?thesis
      by (auto simp: g4_is_reusable_prefix_of_def is_strict_prefix_of_def gemma4_ops_def Let_def)
  next
    case False
    define k' where "k' = g4_effective_blocks p b"
    with False r have k: "k = BlockTruncate k'" "k' \<ge> 1"
      by (auto simp: g4_is_reusable_prefix_of_def Let_def split: if_splits)
    have "k' * 256 < length p \<and> k' \<le> b"
    proof (cases "length p \<le> b * 256")
      case True
      with k'_def have "k' = min b (length p div 256) - 1"
        by (simp add: g4_effective_blocks_def BLOCK_TOKENS_def Let_def)
      with k(2) have "Suc k' \<le> length p div 256" "k' \<le> b" by linarith+
      then show ?thesis by (simp add: less_eq_div_iff_mult_less_eq)
    next
      case False
      with k'_def have "k' = b" by (simp add: g4_effective_blocks_def BLOCK_TOKENS_def Let_def)
      with False show ?thesis by simp
    qed
    then have "k' * 256 < length p" "k' * 256 \<le> b * 256" by simp_all
    with b k(1) show ?thesis
      using take_shorter [OF b(3), of "k' * 256"] by (simp add: gemma4_ops_def BLOCK_TOKENS_def)
  qed
qed

interpretation qwen35: cache_entry qwen35_ops
proof (unfold_locales, goal_cases)
  case (1 e e')
  then show ?case by (auto simp: qwen35_ops_def q5_deep_clone_def split: sum.splits)
next
  case (2 e k e')
  then show ?case
    by (cases k) (auto simp: qwen35_ops_def q5_deep_clone_def split: sum.splits option.splits if_splits)
next
  case (3 e p h b k)
  have small: "n div 256 * 256 \<le> n" for n :: nat by simp
  from 3(1) show ?case
    using small take_shorter [of _ p "q5_prompt_token_ids e"]
    by (auto simp: qwen35_ops_def q5_is_reusable_prefix_of_def BLOCK_TOKENS_def Let_def
        split: if_splits option.splits intro: order_le_less_trans order_trans)
qed

interpretation qwen2: cache_entry qwen2_ops
  by unfold_locales (auto simp: qwen2_ops_def q2_deep_clone_def split: sum.splits)

section \<open>Truncation at a block boundary\<close>

text \<open>A layer whose ring, if it has one, was driven by its own writes and sits at the layer's offset.\<close>

definition layer_ok :: "('k::zero, 'v::zero) kv_layer \<Rightarrow> bool" where
  "layer_ok l \<longleftrightarrow>
     (case kl_rotating l of None \<Rightarrow> True
      | Some r \<Rightarrow> (\<exists>m hk hv. ring_reach m r hk hv) \<and> kl_offset l = rg_offset r)"

lemma roll_back_offset:
  assumes "ring_reach m r hk hv" "can_trim r n" "0 \<le> n"
  shows "\<exists>r'. roll_back n r = Inr (True, r') \<and> rg_offset r' = rg_offset r - n"
proof (cases "n = 0")
  case True
  then show ?thesis by (simp add: roll_back_def can_trim_def)
next
  case False
  then have n: "0 < nat n" "int (nat n) = n" using assms(3) by simp_all
  note rep = ring_reach_rep [OF assms(1)]
  have le: "nat n \<le> length hk"
    using assms(2) n ring_repD(5) [OF rep] by (auto simp: can_trim_def split: if_splits)
  from roll_back_rep [OF rep n(1)] assms(2) n(2) obtain r' where
    "roll_back n r = Inr (True, r')" "ring_rep m r' (take (length hk - nat n) hk) (take (length hk - nat n) hv)"
    by auto
  with ring_repD(5) [OF this(2)] ring_repD(5) [OF rep] le n show ?thesis by auto
qed

lemma truncate_layer:
  assumes "layer_ok l" "kl_can_truncate_to l n"
  shows "\<exists>l'. kl_truncate_to n l = Inr l' \<and> kl_offset l' = n"
proof (cases "kl_rotating l")
  case None
  then show ?thesis by (simp add: kl_truncate_to_def)
next
  case (Some r)
  with assms obtain m hk hv where "ring_reach m r hk hv" "kl_offset l = rg_offset r"
    "can_trim r (kl_offset l - n)" "0 \<le> kl_offset l - n"
    by (auto simp: layer_ok_def kl_can_truncate_to_def)
  from roll_back_offset [OF this(1,3,4)] this(2) Some show ?thesis
    by (auto simp: kl_truncate_to_def)
qed

lemma collect_results_pointwise:
  "(\<And>x. x \<in> set xs \<Longrightarrow> \<exists>y. f x = Inr y \<and> R x y) \<Longrightarrow>
     \<exists>ys. collect_results f xs = Inr ys \<and> list_all2 R xs ys"
proof (induction xs)
  case (Cons x xs)
  then obtain ys where "collect_results f xs = Inr ys" "list_all2 R xs ys" by auto
  with Cons.prems [of x] show ?case by auto
qed simp

text \<open>C24: The gate in front of a truncating reuse is right. When \<open>can_truncate_to_block\<close> admits
  a block count, truncating every layer succeeds, and every layer that held anything ends
  exactly at the block boundary, a wrapped sliding-window ring included; a layer that was
  never filled is not touched.
\<close>

theorem gated_truncation:
  assumes "can_truncate_to_block ls b" "\<forall>l\<in>set ls. layer_ok l"
  shows "\<exists>ls'. truncate_kv_to_block b ls = Inr ls' \<and>
    list_all2 (\<lambda>l l'. if kl_offset l > 0 then kl_offset l' = int (b * BLOCK_TOKENS) else l' = l) ls ls'"
  unfolding truncate_kv_to_block_def truncate_kv_to_def
proof (rule collect_results_pointwise)
  fix l assume l: "l \<in> set ls"
  show "\<exists>y. (if kl_offset l > 0 then kl_truncate_to (int (b * BLOCK_TOKENS)) l else Inr l) = Inr y \<and>
      (if kl_offset l > 0 then kl_offset y = int (b * BLOCK_TOKENS) else y = l)"
  proof (cases "kl_offset l > 0")
    case True
    with assms l have "layer_ok l" "kl_can_truncate_to l (int (b * BLOCK_TOKENS))"
      by (auto simp: can_truncate_to_block_def)
    from truncate_layer [OF this] True show ?thesis by auto
  qed simp
qed

definition sample_layers :: "(nat, nat) kv_layer list" where
  "sample_layers =
     [\<lparr>kl_offset = 300, kl_rotating = None, kl_storage_none = False, kl_fp16_k = True, kl_fp16_v = True,
       kl_holds_pages = False, kl_bytes_at = (\<lambda>n. nat n)\<rparr>,
      \<lparr>kl_offset = 0, kl_rotating = Some (ring_new 3), kl_storage_none = True, kl_fp16_k = False,
       kl_fp16_v = False, kl_holds_pages = False, kl_bytes_at = (\<lambda>_. 0)\<rparr>]"

lemma sample_layers_ok: "can_truncate_to_block sample_layers 1" "\<forall>l\<in>set sample_layers. layer_ok l"
proof -
  show "can_truncate_to_block sample_layers 1"
    by (simp add: sample_layers_def can_truncate_to_block_def kl_can_truncate_to_def BLOCK_TOKENS_def)
  have "ring_reach 3 (ring_new 3 :: (nat, nat) ring) [] []" using rr_new [of 3] by simp
  then show "\<forall>l\<in>set sample_layers. layer_ok l"
    by (auto simp: sample_layers_def layer_ok_def ring_new_def)
qed

theorem gated_truncation_witness:
  "\<exists>ls'. truncate_kv_to_block 1 sample_layers = Inr ls' \<and>
    list_all2 (\<lambda>l l'. if kl_offset l > 0 then kl_offset l' = int (1 * BLOCK_TOKENS) else l' = l) sample_layers ls'"
  by (rule gated_truncation [OF sample_layers_ok])

section \<open>Spilled blocks\<close>

lemma anchor_pos_for_facts:
  "anchor_pos_for n = Some p \<Longrightarrow> 0 < p \<and> p < n \<and> BLOCK_TOKENS dvd p \<and> n \<le> p + BLOCK_TOKENS"
proof -
  assume "anchor_pos_for n = Some p"
  then have p: "p = (n - 1) div 256 * 256" "0 < p"
    by (auto simp: anchor_pos_for_def BLOCK_TOKENS_def Let_def split: if_splits)
  then have "p \<le> n - 1" by simp
  moreover have "n - 1 < p + 256" using p(1) by (metis div_mult_mod_eq mod_less_divisor add_less_cancel_left zero_less_numeral)
  ultimately have "p < n" "n \<le> p + 256" using p(2) by linarith+
  then show ?thesis using p by (simp add: BLOCK_TOKENS_def)
qed

text \<open>
  A spilled recurrent state sits where its key says. For an entry with a recurrent
  state, whose digests are one per full block and whose anchor is at a block boundary, the
  planned spill is keyed by the digest of some block and its state has consumed exactly the
  tokens up to the end of that block: the entry's own state when the prompt ends on a
  boundary, the anchor's otherwise.
\<close>

theorem spill_plan_aligned:
  assumes "length (en_block_hashes E e) = length (en_prompt_token_ids E e) div BLOCK_TOKENS"
    and "\<forall>a. en_anchor E e = Some a \<longrightarrow> BLOCK_TOKENS dvd an_pos a"
    and "en_lin_caches E e \<noteq> []" "spill_plan E e = Some p"
  shows "\<exists>i < length (en_block_hashes E e). sp_hash p = en_block_hashes E e ! i \<and>
    sp_state_len p = Suc i * BLOCK_TOKENS \<and>
    (sp_lin_caches p = en_lin_caches E e \<and> sp_state_len p = length (en_prompt_token_ids E e) \<or>
     (\<exists>a. en_anchor E e = Some a \<and> sp_lin_caches p = an_lin_caches a \<and> sp_state_len p = an_pos a))"
proof -
  let ?h = "en_block_hashes E e"
  have ne: "?h \<noteq> []" using assms(4) by (auto simp: spill_plan_def)
  show ?thesis
  proof (cases "length (en_prompt_token_ids E e) = length ?h * BLOCK_TOKENS")
    case True
    with assms(4) ne have p: "p = \<lparr>sp_hash = last ?h, sp_state_len = length (en_prompt_token_ids E e),
        sp_lin_caches = en_lin_caches E e\<rparr>"
      by (simp add: spill_plan_def Let_def)
    with True ne show ?thesis
      by (intro exI [of _ "length ?h - 1"]) (simp add: last_conv_nth)
  next
    case False
    with assms(3,4) ne obtain a where a: "en_anchor E e = Some a"
      and nz: "an_pos a div BLOCK_TOKENS \<noteq> 0" "an_pos a div BLOCK_TOKENS - 1 < length ?h"
      and p: "p = \<lparr>sp_hash = ?h ! (an_pos a div BLOCK_TOKENS - 1), sp_state_len = an_pos a,
        sp_lin_caches = an_lin_caches a\<rparr>"
      by (auto simp: spill_plan_def Let_def not_le split: option.splits if_splits)
    from assms(2) a have "an_pos a div BLOCK_TOKENS * BLOCK_TOKENS = an_pos a" by simp
    with a nz p show ?thesis
      by (intro exI [of _ "an_pos a div BLOCK_TOKENS - 1"]) simp
  qed
qed

definition sample_qwen :: "(nat, nat, nat, nat) qwen35_entry" where
  "sample_qwen = \<lparr>q5_prompt_token_ids = replicate 300 7, q5_block_hashes = [11], q5_kv_caches = [],
     q5_lin_caches = [\<lparr>lc_state = 5, lc_bytes = 8\<rparr>],
     q5_anchor = Some \<lparr>an_pos = 256, an_lin_caches = [\<lparr>lc_state = 4, lc_bytes = 8\<rparr>]\<rparr>,
     q5_first_id = 1, q5_first_piece = ''a'', q5_first_logprobs = None, q5_kv_quant = Some K8V8,
     q5_is_ssd_hydrated = False\<rparr>"

theorem spill_plan_aligned_witness:
  "sp_state_len (the (spill_plan qwen35_ops sample_qwen)) = 256"
proof -
  have p: "spill_plan qwen35_ops sample_qwen = Some \<lparr>sp_hash = 11, sp_state_len = 256,
      sp_lin_caches = [\<lparr>lc_state = 4, lc_bytes = 8\<rparr>]\<rparr>"
    by (simp add: spill_plan_def qwen35_ops_def sample_qwen_def BLOCK_TOKENS_def can_truncate_to_block_def Let_def)
  have "\<exists>i < length (en_block_hashes qwen35_ops sample_qwen). 11 = en_block_hashes qwen35_ops sample_qwen ! i"
    using spill_plan_aligned [OF _ _ _ p]
    by (simp add: qwen35_ops_def sample_qwen_def BLOCK_TOKENS_def)
  then show ?thesis using p by simp
qed

end
