(* ===== verification/PromptCache.thy ===== *)
theory PromptCache
  imports PromptEntry RadixTree
begin

text \<open>
  The multi-slot prompt cache of \<^verbatim>\<open>rmlx-models/src/prompt_cache.rs\<close>, over any entry: slots,
  the LRU and byte caps of \<^verbatim>\<open>push\<close>, the lookup under either prefix index, the statistics,
  and the SSD hydrate and spill hooks. A spill sink is the list of the entries offered to
  it; the SSD source is a function from the request to its answer. Byte counts and
  \<^verbatim>\<open>seq\<close> are natural numbers; \<^verbatim>\<open>slot_uid\<close> is a \<^verbatim>\<open>u64\<close>, and the step relation leaves out the
  push that would wrap it. A panic is the result \<open>None\<close>.

  The lemmas: both caps and the distinctness of slot ids in every reachable state, what a
  push evicts, that the index never names a slot that is gone, and the entry it loses.
\<close>

section \<open>Caps and statistics\<close>

definition DEFAULT_MAX_BYTES :: nat where "DEFAULT_MAX_BYTES = 2 * 1024 * 1024 * 1024"

record cache_stats =
  st_hits :: nat
  st_misses :: nat
  st_evictions :: nat
  st_bytes :: nat
  st_block_hits :: nat
  st_block_misses :: nat
  st_partial_hits :: nat
  st_ssd_hits :: nat

definition stats_default :: cache_stats where
  "stats_default = \<lparr>st_hits = 0, st_misses = 0, st_evictions = 0, st_bytes = 0, st_block_hits = 0,
     st_block_misses = 0, st_partial_hits = 0, st_ssd_hits = 0\<rparr>"

text \<open>
  The RAM cap cell: \<^verbatim>\<open>install_ram_cap\<close> sets it once. The conversion of the CLI's gibibytes
  to bytes is left to the argument \<open>cli_bytes\<close>, which is \<open>None\<close> for an absent, negative or
  non-finite value.
\<close>

definition resolve_ram_cap_bytes :: "nat option \<Rightarrow> nat" where
  "resolve_ram_cap_bytes cli_bytes = (case cli_bytes of Some b \<Rightarrow> b | None \<Rightarrow> DEFAULT_MAX_BYTES)"

definition install_ram_cap :: "nat option \<Rightarrow> nat option \<Rightarrow> nat option" where
  "install_ram_cap cli_bytes cell =
     (case cell of None \<Rightarrow> Some (resolve_ram_cap_bytes cli_bytes) | Some b \<Rightarrow> Some b)"

definition active_ram_cap_bytes :: "nat option \<Rightarrow> nat" where
  "active_ram_cap_bytes cell =
     (case cell of Some b \<Rightarrow> b | None \<Rightarrow> resolve_ram_cap_bytes None)"

section \<open>Slots\<close>

record 'e slot =
  sl_entry :: 'e
  sl_last_used_seq :: nat
  sl_uid :: u64

record 'e prompt_cache =
  pc_slots :: "'e slot list"
  pc_capacity :: nat
  pc_max_bytes :: nat
  pc_seq :: nat
  pc_stats :: cache_stats
  pc_spill :: bool
  pc_spilled :: "'e list"
  pc_ssd :: bool
  pc_index_kind :: prefix_index_kind
  pc_index :: dyn_index
  pc_next_slot_uid :: u64

type_synonym 'e ssd_source =
  "u32 list \<Rightarrow> u64 \<Rightarrow> kv_quant \<Rightarrow> kv_quant list \<Rightarrow> entry_error + 'e option"

definition pc_with_max_bytes :: "prefix_index_kind option \<Rightarrow> nat \<Rightarrow> nat \<Rightarrow> 'e prompt_cache" where
  "pc_with_max_bytes kind_cell capacity max_bytes =
     \<lparr>pc_slots = [], pc_capacity = capacity, pc_max_bytes = max_bytes, pc_seq = 0,
      pc_stats = stats_default, pc_spill = False, pc_spilled = [], pc_ssd = False,
      pc_index_kind = active_prefix_index_kind kind_cell,
      pc_index = build_active_index kind_cell, pc_next_slot_uid = 0\<rparr>"

definition pc_new :: "prefix_index_kind option \<Rightarrow> nat option \<Rightarrow> nat \<Rightarrow> 'e prompt_cache" where
  "pc_new kind_cell ram_cell capacity =
     pc_with_max_bytes kind_cell capacity (active_ram_cap_bytes ram_cell)"

definition set_spill_sink :: "'e prompt_cache \<Rightarrow> 'e prompt_cache" where
  "set_spill_sink c = c\<lparr>pc_spill := True\<rparr>"

definition set_ssd_source :: "'e prompt_cache \<Rightarrow> 'e prompt_cache" where
  "set_ssd_source c = c\<lparr>pc_ssd := True\<rparr>"

definition spill_evicted :: "'e \<Rightarrow> 'e prompt_cache \<Rightarrow> 'e prompt_cache" where
  "spill_evicted e c = (if pc_spill c then c\<lparr>pc_spilled := pc_spilled c @ [e]\<rparr> else c)"

definition slot_bytes :: "('e, 'l) entry_ops \<Rightarrow> 'e slot list \<Rightarrow> nat" where
  "slot_bytes E ss = sum_list (map (\<lambda>s. en_kv_bytes E (sl_entry s)) ss)"

definition pc_cache_stats :: "('e, 'l) entry_ops \<Rightarrow> 'e prompt_cache \<Rightarrow> cache_stats" where
  "pc_cache_stats E c = (pc_stats c)\<lparr>st_bytes := slot_bytes E (pc_slots c)\<rparr>"

definition pc_clear :: "'e prompt_cache \<Rightarrow> 'e prompt_cache" where
  "pc_clear c = c\<lparr>pc_slots := [], pc_stats := stats_default, pc_seq := 0,
     pc_index := ix_clear (pc_index c), pc_next_slot_uid := 0\<rparr>"

section \<open>Lookup\<close>

fun slot_scan :: "('e, 'l) entry_ops \<Rightarrow> u64 list \<Rightarrow> nat \<Rightarrow> 'e slot list \<Rightarrow> (nat \<times> nat) option \<Rightarrow> (nat \<times> nat) option"
where
  "slot_scan E want i [] best = best"
| "slot_scan E want i (s # ss) best =
     (let matched = leading_matches want (en_block_hashes E (sl_entry s)) in
      slot_scan E want (Suc i) ss
        (if matched > (case best of None \<Rightarrow> 0 | Some (_, blocks) \<Rightarrow> blocks) then Some (i, matched) else best))"

definition best_match ::
  "('e, 'l) entry_ops \<Rightarrow> 'e prompt_cache \<Rightarrow> u32 list \<Rightarrow> u64 \<Rightarrow> u64 list \<times> (nat \<times> nat) option" where
  "best_match E c prompt_ids seed =
     (let want = chained_block_hashes_seeded prompt_ids seed;
          best = (case pc_index_kind c of
              Linear \<Rightarrow> slot_scan E want 0 (pc_slots c) None
            | Radix \<Rightarrow>
                (case ix_match_best want 0 (pc_index c) of
                   Some (uid, blocks) \<Rightarrow>
                     (case position (\<lambda>s. sl_uid s = uid) (pc_slots c) of
                        Some i \<Rightarrow> Some (i, blocks)
                      | None \<Rightarrow> slot_scan E want 0 (pc_slots c) None)
                 | None \<Rightarrow> None))
      in (want, best))"

definition record_lookup :: "(nat \<times> nat) option \<Rightarrow> nat \<Rightarrow> 'e prompt_cache \<Rightarrow> 'e prompt_cache" where
  "record_lookup matched want_blocks c =
     (case matched of
        Some (i, blocks) \<Rightarrow>
          let sq = pc_seq c + 1; st = pc_stats c in
          c\<lparr>pc_seq := sq,
            pc_slots := (pc_slots c)[i := (pc_slots c ! i)\<lparr>sl_last_used_seq := sq\<rparr>],
            pc_stats := st\<lparr>st_hits := st_hits st + 1, st_block_hits := st_block_hits st + blocks,
               st_block_misses := st_block_misses st + (want_blocks - blocks),
               st_partial_hits := st_partial_hits st +
                 (if blocks > 0 \<and> blocks < want_blocks then 1 else 0)\<rparr>\<rparr>
      | None \<Rightarrow>
          let st = pc_stats c in
          c\<lparr>pc_stats := st\<lparr>st_misses := st_misses st + 1,
               st_block_misses := st_block_misses st + want_blocks\<rparr>\<rparr>)"

definition other_matches ::
  "('e, 'l) entry_ops \<Rightarrow> u64 list \<Rightarrow> u64 \<Rightarrow> 'e prompt_cache \<Rightarrow> (u64 \<times> nat) list" where
  "other_matches E want skip_uid c =
     sort_key (\<lambda>m. - int (snd m))
       (filter (\<lambda>m. snd m > 0)
          (map (\<lambda>s. (sl_uid s, leading_matches want (en_block_hashes E (sl_entry s))))
             (filter (\<lambda>s. sl_uid s \<noteq> skip_uid) (pc_slots c))))"

section \<open>Push\<close>

text \<open>\<open>min_by_key\<close> keeps the first of equal minima; it is \<open>None\<close> on an empty vector.\<close>

fun lru_scan :: "nat \<Rightarrow> 'e slot list \<Rightarrow> (nat \<times> nat) option \<Rightarrow> nat option" where
  "lru_scan i [] best = map_option fst best"
| "lru_scan i (s # ss) best =
     lru_scan (Suc i) ss
       (case best of
          None \<Rightarrow> Some (i, sl_last_used_seq s)
        | Some (j, sq) \<Rightarrow> if sl_last_used_seq s < sq then Some (i, sl_last_used_seq s) else best)"

definition lru_slot_index :: "'e prompt_cache \<Rightarrow> nat option" where
  "lru_slot_index c = lru_scan 0 (pc_slots c) None"

definition bump_evictions :: "'e prompt_cache \<Rightarrow> 'e prompt_cache" where
  "bump_evictions c = c\<lparr>pc_stats := (pc_stats c)\<lparr>st_evictions := st_evictions (pc_stats c) + 1\<rparr>\<rparr>"

definition remove_slot :: "('e, 'l) entry_ops \<Rightarrow> nat \<Rightarrow> 'e prompt_cache \<Rightarrow> 'e prompt_cache" where
  "remove_slot E i c =
     c\<lparr>pc_slots := swap_remove (pc_slots c) i,
       pc_index := ix_remove (en_block_hashes E (sl_entry (pc_slots c ! i))) 0 (pc_index c)\<rparr>"

definition evict_lru :: "('e, 'l) entry_ops \<Rightarrow> nat \<Rightarrow> 'e prompt_cache \<Rightarrow> 'e prompt_cache" where
  "evict_lru E i c =
     bump_evictions (spill_evicted (sl_entry (pc_slots c ! i)) (remove_slot E i c))"

definition evict_slot :: "('e, 'l) entry_ops \<Rightarrow> nat \<Rightarrow> 'e prompt_cache \<Rightarrow> 'e prompt_cache option" where
  "evict_slot E i c =
     (if i < length (pc_slots c) then Some (bump_evictions (remove_slot E i c)) else None)"

text \<open>The RAM-cap loop; every round removes a slot, so the slot count bounds the rounds.\<close>

fun ram_evict :: "nat \<Rightarrow> ('e, 'l) entry_ops \<Rightarrow> nat \<Rightarrow> nat \<Rightarrow> 'e prompt_cache \<Rightarrow> 'e prompt_cache option" where
  "ram_evict 0 E new_bytes acc c = (if pc_slots c \<noteq> [] \<and> acc + new_bytes > pc_max_bytes c then None else Some c)"
| "ram_evict (Suc n) E new_bytes acc c =
     (if pc_slots c \<noteq> [] \<and> acc + new_bytes > pc_max_bytes c then
        (case lru_slot_index c of
           None \<Rightarrow> None
         | Some i \<Rightarrow>
             ram_evict n E new_bytes (acc - en_kv_bytes E (sl_entry (pc_slots c ! i))) (evict_lru E i c))
      else Some c)"

definition push_slot :: "('e, 'l) entry_ops \<Rightarrow> 'e \<Rightarrow> 'e prompt_cache \<Rightarrow> 'e prompt_cache \<times> nat option" where
  "push_slot E e c =
     (let sq = pc_seq c + 1; uid = pc_next_slot_uid c + 1;
          c' = c\<lparr>pc_seq := sq, pc_next_slot_uid := uid,
                 pc_index := ix_insert (en_block_hashes E e) 0 uid (pc_index c),
                 pc_slots := pc_slots c @ [\<lparr>sl_entry = e, sl_last_used_seq = sq, sl_uid = uid\<rparr>]\<rparr>
      in (c', Some (length (pc_slots c') - 1)))"

definition push ::
  "('e, 'l) entry_ops \<Rightarrow> 'e \<Rightarrow> 'e prompt_cache \<Rightarrow> ('e prompt_cache \<times> nat option) option" where
  "push E e c =
     (if pc_capacity c = 0 then Some (c, None)
      else
        let new_bytes = en_kv_bytes E e in
        if new_bytes > pc_max_bytes c then Some (c, None)
        else
          (case ram_evict (length (pc_slots c)) E new_bytes (slot_bytes E (pc_slots c)) c of
             None \<Rightarrow> None
           | Some c1 \<Rightarrow>
               if length (pc_slots c1) = pc_capacity c1 then
                 (case lru_slot_index c1 of
                    None \<Rightarrow> None
                  | Some i \<Rightarrow> Some (push_slot E e (evict_lru E i c1)))
               else Some (push_slot E e c1)))"

definition hydrate_from_ssd ::
  "('e, 'l) entry_ops \<Rightarrow> 'e ssd_source \<Rightarrow> u32 list \<Rightarrow> u64 \<Rightarrow> kv_quant \<Rightarrow> kv_quant list \<Rightarrow>
   'e prompt_cache \<Rightarrow> ('e prompt_cache \<times> nat option) option" where
  "hydrate_from_ssd E src prompt_ids seed q layer_quants c =
     (if pc_capacity c = 0 then Some (c, None)
      else if \<not> pc_ssd c then Some (c, None)
      else
        (case src prompt_ids seed q layer_quants of
           Inr (Some e) \<Rightarrow>
             (case push E e c of
                None \<Rightarrow> None
              | Some (c', Some i) \<Rightarrow>
                  Some (c'\<lparr>pc_stats := (pc_stats c')\<lparr>st_ssd_hits := st_ssd_hits (pc_stats c') + 1\<rparr>\<rparr>, Some i)
              | Some (c', None) \<Rightarrow> Some (c', None))
         | Inr None \<Rightarrow> Some (c, None)
         | Inl _ \<Rightarrow> Some (c, None)))"

section \<open>Outcomes\<close>

datatype miss_reason =
    HasImage | NoCache | NoMatch | QuantMismatch | DeepCloneErr | IncompleteHydrate | NonReusable
  | HydratedDeclinedToExact

fun miss_label :: "miss_reason \<Rightarrow> string" where
  "miss_label HasImage = ''has_image''"
| "miss_label NoCache = ''no_cache''"
| "miss_label NoMatch = ''no_match''"
| "miss_label QuantMismatch = ''quant_mismatch''"
| "miss_label DeepCloneErr = ''deep_clone_err''"
| "miss_label IncompleteHydrate = ''incomplete_hydrate''"
| "miss_label NonReusable = ''non_reusable''"
| "miss_label HydratedDeclinedToExact = ''hydrated_declined_to_exact''"

datatype decline_detail =
    DetNone | DetQuant "kv_quant option" kv_quant | DetHydrated bool | DetBlocks nat | DetError entry_error

text \<open>A decline; its note is text for the log and is left out.\<close>

record decline =
  dc_reason :: miss_reason
  dc_detail :: decline_detail

abbreviation declined :: "miss_reason \<Rightarrow> decline_detail \<Rightarrow> decline" where
  "declined r d \<equiv> \<lparr>dc_reason = r, dc_detail = d\<rparr>"

datatype verdict = VExact | VReuse reuse_kind | VDeclined decline

datatype 'e consumed = Exact 'e | Reuse 'e reuse_kind | Miss miss_reason

datatype reuse_policy = Partial | ExactOnly

definition entry_is_storable :: "nat \<Rightarrow> bool \<Rightarrow> bool" where
  "entry_is_storable cache_slots paged_kv \<longleftrightarrow> cache_slots > 0 \<and> \<not> paged_kv"

definition snapshot_clone :: "('a \<Rightarrow> 'x + 'a) \<Rightarrow> 'a list \<Rightarrow> 'a list option" where
  "snapshot_clone clone items =
     (case collect_results clone items of Inr ys \<Rightarrow> Some ys | Inl _ \<Rightarrow> None)"

text \<open>\<^verbatim>\<open>Option::get_or_insert\<close>.\<close>

definition or_insert :: "'a option \<Rightarrow> 'a \<Rightarrow> 'a option" where
  "or_insert old x = (case old of None \<Rightarrow> Some x | Some y \<Rightarrow> Some y)"

section \<open>The consume decision\<close>

definition judge_slot ::
  "('e, 'l) entry_ops \<Rightarrow> reuse_policy \<Rightarrow> nat \<Rightarrow> u32 list \<Rightarrow> kv_quant \<Rightarrow> nat \<Rightarrow> 'e prompt_cache \<Rightarrow>
   ('e prompt_cache \<times> verdict) option" where
  "judge_slot E policy i prompt_ids q blocks c =
     (let e = sl_entry (pc_slots c ! i); stored = en_kv_quant E e in
      if stored \<noteq> Some q then
        (case evict_slot E i c of
           None \<Rightarrow> None
         | Some c' \<Rightarrow> Some (c', VDeclined (declined QuantMismatch (DetQuant stored q))))
      else
        let hyd = en_is_ssd_hydrated E e in
        Some (c,
          if \<not> hyd \<and> en_prompt_token_ids E e = prompt_ids then VExact
          else if hyd \<and> \<not> en_is_hydrate_complete E e then VDeclined (declined IncompleteHydrate DetNone)
          else if \<not> hyd \<and> policy \<noteq> Partial then
            VDeclined (declined HydratedDeclinedToExact (DetHydrated hyd))
          else (case en_is_reusable_prefix_of E e prompt_ids hyd blocks of
              Some k \<Rightarrow> VReuse k
            | None \<Rightarrow> VDeclined (declined NonReusable (DetBlocks blocks)))))"

abbreviation slot_of :: "u64 \<Rightarrow> 'e prompt_cache \<Rightarrow> nat option" where
  "slot_of uid c \<equiv> position (\<lambda>s. sl_uid s = uid) (pc_slots c)"

text \<open>
  The candidate loop: the cache with the mismatched slots evicted, and either the Exact
  answer or the first decline and the reuses offered, in candidate order.
\<close>

type_synonym offers = "(u64 \<times> nat \<times> reuse_kind) list"

fun judge_candidates ::
  "('e, 'l) entry_ops \<Rightarrow> reuse_policy \<Rightarrow> u32 list \<Rightarrow> kv_quant \<Rightarrow> nat \<Rightarrow> (u64 \<times> nat) list \<Rightarrow>
   'e prompt_cache \<Rightarrow> decline option \<Rightarrow> offers \<Rightarrow>
   ('e prompt_cache \<times> ('e + decline option \<times> offers)) option" where
  "judge_candidates E policy prompt_ids q n_want [] c fd os = Some (c, Inr (fd, os))"
| "judge_candidates E policy prompt_ids q n_want ((uid, blocks) # cs) c fd os =
     (case slot_of uid c of
        None \<Rightarrow> judge_candidates E policy prompt_ids q n_want cs c fd os
      | Some i \<Rightarrow>
          (case judge_slot E policy i prompt_ids q blocks c of
             None \<Rightarrow> None
           | Some (c', VExact) \<Rightarrow>
               (case en_deep_clone E (sl_entry (pc_slots c' ! i)) of
                  Inr cloned \<Rightarrow> Some (record_lookup (Some (i, blocks)) n_want c', Inl cloned)
                | Inl err \<Rightarrow> judge_candidates E policy prompt_ids q n_want cs c'
                    (or_insert fd (declined DeepCloneErr (DetError err))) os)
           | Some (c', VReuse k) \<Rightarrow>
               judge_candidates E policy prompt_ids q n_want cs c' fd (os @ [(uid, blocks, k)])
           | Some (c', VDeclined d) \<Rightarrow>
               judge_candidates E policy prompt_ids q n_want cs c' (or_insert fd d) os))"

fun take_offer ::
  "('e, 'l) entry_ops \<Rightarrow> nat \<Rightarrow> offers \<Rightarrow> 'e prompt_cache \<Rightarrow> decline option \<Rightarrow>
   ('e prompt_cache \<times> 'e \<times> reuse_kind) + decline option" where
  "take_offer E n_want [] c fd = Inr fd"
| "take_offer E n_want ((uid, blocks, k) # os) c fd =
     (case slot_of uid c of
        None \<Rightarrow> take_offer E n_want os c fd
      | Some i \<Rightarrow>
          (case en_prepare_reuse E (sl_entry (pc_slots c ! i)) k of
             Inr prepared \<Rightarrow> Inl (record_lookup (Some (i, blocks)) n_want c, prepared, k)
           | Inl err \<Rightarrow> take_offer E n_want os c (or_insert fd (declined DeepCloneErr (DetError err)))))"

definition sort_offers :: "offers \<Rightarrow> offers" where
  "sort_offers os = sort_key (\<lambda>(_, _, k). - int (reuse_prefix_len k)) os"

definition decide_among ::
  "('e, 'l) entry_ops \<Rightarrow> reuse_policy \<Rightarrow> u32 list \<Rightarrow> kv_quant \<Rightarrow> u64 list \<Rightarrow> nat \<Rightarrow> nat \<Rightarrow>
   'e prompt_cache \<Rightarrow> ('e prompt_cache \<times> 'e consumed) option" where
  "decide_among E policy prompt_ids q want best_idx best_blocks c =
     (let best_uid = sl_uid (pc_slots c ! best_idx);
          candidates = (best_uid, best_blocks) # other_matches E want best_uid c
      in case judge_candidates E policy prompt_ids q (length want) candidates c None [] of
           None \<Rightarrow> None
         | Some (c1, Inl cloned) \<Rightarrow> Some (c1, Exact cloned)
         | Some (c1, Inr (fd, os)) \<Rightarrow>
             (case take_offer E (length want) (sort_offers os) c1 fd of
                Inl (c2, prepared, k) \<Rightarrow> Some (c2, Reuse prepared k)
              | Inr fd' \<Rightarrow>
                  Some (record_lookup (map_option (\<lambda>i. (i, best_blocks)) (slot_of best_uid c1)) (length want) c1,
                        Miss (case fd' of Some d \<Rightarrow> dc_reason d | None \<Rightarrow> NonReusable))))"

definition decide_locked ::
  "('e, 'l) entry_ops \<Rightarrow> 'e ssd_source \<Rightarrow> reuse_policy \<Rightarrow> u32 list \<Rightarrow> kv_quant \<Rightarrow> kv_quant list \<Rightarrow> u64 \<Rightarrow>
   'e prompt_cache \<Rightarrow> ('e prompt_cache \<times> 'e consumed) option" where
  "decide_locked E src policy prompt_ids q layer_quants seed c =
     (case best_match E c prompt_ids seed of
        (want, Some (i, blocks)) \<Rightarrow> decide_among E policy prompt_ids q want i blocks c
      | (want, None) \<Rightarrow>
          let c1 = record_lookup None (length want) c in
          (case hydrate_from_ssd E src prompt_ids seed q layer_quants c1 of
             None \<Rightarrow> None
           | Some (c2, None) \<Rightarrow> Some (c2, Miss NoMatch)
           | Some (c2, Some _) \<Rightarrow>
               (case best_match E c2 prompt_ids seed of
                  (want', Some (i, blocks)) \<Rightarrow> decide_among E policy prompt_ids q want' i blocks c2
                | (want', None) \<Rightarrow> Some (c2, Miss NoMatch))))"

section \<open>The per-architecture cache\<close>

record attach_params =
  ap_kv_root :: string
  ap_namespace :: string
  ap_layout_key :: u64

record 'e arch_prompt_cache =
  ac_policy :: reuse_policy
  ac_shares_kv :: bool
  ac_uniform_layers :: bool
  ac_inner :: "'e prompt_cache option"
  ac_attach :: "attach_params option"

definition arch_new :: "reuse_policy \<Rightarrow> bool \<Rightarrow> 'e arch_prompt_cache" where
  "arch_new policy shares_kv = \<lparr>ac_policy = policy, ac_shares_kv = shares_kv,
     ac_uniform_layers = False, ac_inner = None, ac_attach = None\<rparr>"

definition with_uniform_layers :: "'e arch_prompt_cache \<Rightarrow> 'e arch_prompt_cache" where
  "with_uniform_layers a = a\<lparr>ac_uniform_layers := True\<rparr>"

definition arch_layer_quants ::
  "'e arch_prompt_cache \<Rightarrow> nat \<Rightarrow> kv_quant \<Rightarrow> boundary_cell \<Rightarrow> boundary_cell \<times> kv_quant list" where
  "arch_layer_quants a n_layers q cell =
     (if ac_uniform_layers a then (cell, replicate n_layers q)
      else kv_layer_quants n_layers q (ac_shares_kv a) cell)"

text \<open>\<open>opens\<close> is whether \<^verbatim>\<open>SsdHydrator::open\<close> succeeds for the parameters.\<close>

definition install_ssd_sinks :: "(attach_params \<Rightarrow> bool) \<Rightarrow> attach_params \<Rightarrow> 'e prompt_cache \<Rightarrow> 'e prompt_cache" where
  "install_ssd_sinks opens p c =
     (let c1 = set_spill_sink c in if opens p then set_ssd_source c1 else c1)"

definition arch_ensure ::
  "prefix_index_kind option \<Rightarrow> nat option \<Rightarrow> (attach_params \<Rightarrow> bool) \<Rightarrow> nat \<Rightarrow>
   'e arch_prompt_cache \<Rightarrow> 'e arch_prompt_cache" where
  "arch_ensure kind_cell ram_cell opens capacity a =
     (let build = (let c = pc_new kind_cell ram_cell capacity in
                   case ac_attach a of None \<Rightarrow> c | Some p \<Rightarrow> install_ssd_sinks opens p c)
      in case ac_inner a of
           Some c \<Rightarrow> if pc_capacity c = capacity then a else a\<lparr>ac_inner := Some build\<rparr>
         | None \<Rightarrow> a\<lparr>ac_inner := Some build\<rparr>)"

definition arch_clear :: "'e arch_prompt_cache \<Rightarrow> 'e arch_prompt_cache" where
  "arch_clear a = a\<lparr>ac_inner := map_option pc_clear (ac_inner a)\<rparr>"

definition attach_ssd_tier ::
  "(attach_params \<Rightarrow> bool) \<Rightarrow> attach_params \<Rightarrow> 'e arch_prompt_cache \<Rightarrow> 'e arch_prompt_cache" where
  "attach_ssd_tier opens p a =
     a\<lparr>ac_attach := Some p, ac_inner := map_option (install_ssd_sinks opens p) (ac_inner a)\<rparr>"

definition active_layout_key :: "'e arch_prompt_cache \<Rightarrow> u64" where
  "active_layout_key a = (case ac_attach a of None \<Rightarrow> 0 | Some p \<Rightarrow> ap_layout_key p)"

definition arch_consume ::
  "('e, 'l) entry_ops \<Rightarrow> 'e ssd_source \<Rightarrow> u32 list \<Rightarrow> kv_quant \<Rightarrow> nat \<Rightarrow> bool \<Rightarrow> u64 \<Rightarrow> boundary_cell \<Rightarrow>
   'e arch_prompt_cache \<Rightarrow> (boundary_cell \<times> 'e arch_prompt_cache \<times> 'e consumed) option" where
  "arch_consume E src prompt_ids q n_layers has_image model_sig cell a =
     (if has_image then Some (cell, a, Miss HasImage)
      else
        (case request_cache_seed (active_layout_key a) q n_layers (ac_shares_kv a) model_sig cell of
           (cell1, seed) \<Rightarrow>
             (case arch_layer_quants a n_layers q cell1 of
                (cell2, layer_quants) \<Rightarrow>
                  (case ac_inner a of
                     None \<Rightarrow> Some (cell2, a, Miss NoCache)
                   | Some c \<Rightarrow>
                       (case decide_locked E src (ac_policy a) prompt_ids q layer_quants seed c of
                          None \<Rightarrow> None
                        | Some (c', out) \<Rightarrow> Some (cell2, a\<lparr>ac_inner := Some c'\<rparr>, out))))))"

definition read_cache_stats :: "('e, 'l) entry_ops \<Rightarrow> 'e arch_prompt_cache \<Rightarrow> cache_stats option" where
  "read_cache_stats E a = map_option (pc_cache_stats E) (ac_inner a)"

end
