(* ===== verification/PromptCacheProps.thy ===== *)
theory PromptCacheProps
  imports PromptCache "HOL-Library.Multiset"
begin

text \<open>
  The invariant of the prompt cache, the steps a process can take, and the properties: the
  caps hold in every reachable state, what a push evicts, when an answer is Exact or Reuse,
  and how the index is kept.
\<close>

section \<open>Removing a slot\<close>

lemma mset_of_swap_remove:
  assumes "i < length xs"
  shows "mset xs = add_mset (xs ! i) (mset (swap_remove xs i))"
proof -
  from swap_remove_split [OF assms] obtain ys zs where
    xs: "xs = ys @ xs ! i # zs" and
    sr: "swap_remove xs i = ys @ (if zs = [] then [] else last zs # butlast zs)" by blast
  have "zs \<noteq> [] \<Longrightarrow> mset (last zs # butlast zs) = mset zs"
    by (metis append_butlast_last_id mset.simps(2) mset_append add_mset_add_single mset_single_iff_right)
  then have "mset (swap_remove xs i) = mset ys + mset zs" by (simp add: sr)
  then show ?thesis by (subst xs) simp
qed

lemma swap_remove_facts:
  fixes f :: "'a \<Rightarrow> nat"
  assumes "i < length xs"
  shows "set xs = insert (xs ! i) (set (swap_remove xs i))"
    and "sum_list (map f xs) = f (xs ! i) + sum_list (map f (swap_remove xs i :: 'a list))"
    and "distinct (map g xs) \<longleftrightarrow>
      distinct (map g (swap_remove xs i)) \<and> g (xs ! i) \<notin> g ` set (swap_remove xs i)"
proof -
  note m = mset_of_swap_remove [OF assms]
  show "set xs = insert (xs ! i) (set (swap_remove xs i))"
    using m by (metis set_mset_mset set_mset_add_mset_insert)
  have "sum_list (map f xs) = sum_mset (image_mset f (mset xs))"
    by (metis mset_map sum_mset_sum_list)
  also have "\<dots> = f (xs ! i) + sum_mset (image_mset f (mset (swap_remove xs i)))" by (simp add: m)
  finally show "sum_list (map f xs) = f (xs ! i) + sum_list (map f (swap_remove xs i :: 'a list))"
    by (metis mset_map sum_mset_sum_list)
  have "mset (map g xs) = mset (map g (xs ! i # swap_remove xs i))" by (simp add: m)
  then have "distinct (map g xs) = distinct (map g (xs ! i # swap_remove xs i))"
    by (rule mset_eq_imp_distinct_iff)
  then show "distinct (map g xs) \<longleftrightarrow>
      distinct (map g (swap_remove xs i)) \<and> g (xs ! i) \<notin> g ` set (swap_remove xs i)" by auto
qed

lemma lru_scan_spec:
  "lru_scan i ss best = Some j \<Longrightarrow>
     (case best of
        Some (b, sq) \<Rightarrow> (j = b \<and> (\<forall>s\<in>set ss. sq \<le> sl_last_used_seq s)) \<or>
          (\<exists>k < length ss. j = i + k \<and> sl_last_used_seq (ss ! k) < sq \<and>
             (\<forall>s\<in>set ss. sl_last_used_seq (ss ! k) \<le> sl_last_used_seq s))
      | None \<Rightarrow> \<exists>k < length ss. j = i + k \<and> (\<forall>s\<in>set ss. sl_last_used_seq (ss ! k) \<le> sl_last_used_seq s))"
proof (induction ss arbitrary: i best)
  case (Cons s ss)
  show ?case
  proof (cases best)
    case None
    with Cons.IH [of "Suc i" "Some (i, sl_last_used_seq s)"] Cons.prems show ?thesis
      by (fastforce intro: exI [of _ 0] exI [of _ "Suc _"])
  next
    case (Some b)
    then obtain bi sq where b: "best = Some (bi, sq)" by (cases b) auto
    show ?thesis
    proof (cases "sl_last_used_seq s < sq")
      case True
      with Cons.IH [of "Suc i" "Some (i, sl_last_used_seq s)"] Cons.prems b show ?thesis
        by (fastforce intro: exI [of _ 0] exI [of _ "Suc _"])
    next
      case False
      with Cons.IH [of "Suc i" best] Cons.prems b show ?thesis
        by (fastforce intro: exI [of _ "Suc _"])
    qed
  qed
qed (auto split: option.splits)

lemma lru_slot_index_spec:
  assumes "lru_slot_index c = Some i"
  shows "i < length (pc_slots c)"
    and "s \<in> set (pc_slots c) \<Longrightarrow> sl_last_used_seq (pc_slots c ! i) \<le> sl_last_used_seq s"
  using lru_scan_spec [OF assms [unfolded lru_slot_index_def]] by auto

lemma lru_scan_Some: "ss \<noteq> [] \<or> best \<noteq> None \<Longrightarrow> lru_scan i ss best \<noteq> None"
  by (induction ss arbitrary: i best) (auto split: option.splits)

lemma lru_slot_index_Some: "pc_slots c \<noteq> [] \<Longrightarrow> \<exists>i. lru_slot_index c = Some i"
  using lru_scan_Some [of "pc_slots c" None 0] by (auto simp: lru_slot_index_def)

section \<open>The invariant\<close>

definition index_ok :: "('e, 'l) entry_ops \<Rightarrow> 'e prompt_cache \<Rightarrow> bool" where
  "index_ok E c \<longleftrightarrow> ix_inv (pc_index c) \<and>
     (\<forall>chain lk u. ix_abs (pc_index c) (chain, lk) = Some u \<longrightarrow>
        lk = 0 \<and> (\<exists>s\<in>set (pc_slots c). sl_uid s = u \<and> en_block_hashes E (sl_entry s) = chain))"

definition pc_inv :: "('e, 'l) entry_ops \<Rightarrow> 'e prompt_cache \<Rightarrow> bool" where
  "pc_inv E c \<longleftrightarrow>
     length (pc_slots c) \<le> pc_capacity c \<and> slot_bytes E (pc_slots c) \<le> pc_max_bytes c \<and>
     distinct (map sl_uid (pc_slots c)) \<and> distinct (map sl_last_used_seq (pc_slots c)) \<and>
     (\<forall>s\<in>set (pc_slots c). sl_uid s \<le> pc_next_slot_uid c \<and> sl_last_used_seq s \<le> pc_seq c \<and>
        length (en_block_hashes E (sl_entry s)) < U32_MAX) \<and>
     index_ok E c"

lemma pc_invD:
  assumes "pc_inv E c"
  shows "length (pc_slots c) \<le> pc_capacity c" "slot_bytes E (pc_slots c) \<le> pc_max_bytes c"
    "distinct (map sl_uid (pc_slots c))" "distinct (map sl_last_used_seq (pc_slots c))" "index_ok E c"
    "s \<in> set (pc_slots c) \<Longrightarrow> sl_uid s \<le> pc_next_slot_uid c \<and> sl_last_used_seq s \<le> pc_seq c \<and>
        length (en_block_hashes E (sl_entry s)) < U32_MAX"
  using assms by (auto simp: pc_inv_def)

text \<open>Only the slots, the index, the caps and the two counters matter.\<close>

lemma pc_inv_cong:
  "\<lbrakk>pc_slots c' = pc_slots c; pc_index c' = pc_index c; pc_capacity c' = pc_capacity c;
    pc_max_bytes c' = pc_max_bytes c; pc_seq c' = pc_seq c; pc_next_slot_uid c' = pc_next_slot_uid c\<rbrakk>
   \<Longrightarrow> pc_inv E c' = pc_inv E c"
  by (simp add: pc_inv_def index_ok_def)

lemma pc_new_inv: "pc_inv E (pc_with_max_bytes kc cap mx)"
  using ix.invar_empt [of kc] ix.abs_empt [of kc]
  by (simp add: pc_inv_def index_ok_def pc_with_max_bytes_def slot_bytes_def)

lemma remove_slot_fields [simp]:
  "pc_slots (remove_slot E i c) = swap_remove (pc_slots c) i"
  "pc_capacity (remove_slot E i c) = pc_capacity c" "pc_max_bytes (remove_slot E i c) = pc_max_bytes c"
  "pc_seq (remove_slot E i c) = pc_seq c" "pc_next_slot_uid (remove_slot E i c) = pc_next_slot_uid c"
  "pc_spill (remove_slot E i c) = pc_spill c" "pc_spilled (remove_slot E i c) = pc_spilled c"
  "pc_stats (remove_slot E i c) = pc_stats c" "pc_index_kind (remove_slot E i c) = pc_index_kind c"
  "pc_ssd (remove_slot E i c) = pc_ssd c"
  by (simp_all add: remove_slot_def)

lemma remove_slot_inv [inv_intro]:
  assumes "pc_inv E c" "i < length (pc_slots c)"
  shows "pc_inv E (remove_slot E i c)"
proof -
  note I = pc_invD [OF assms(1)]
  note F = swap_remove_facts [OF assms(2)]
  let ?s = "pc_slots c ! i"
  have sub: "set (swap_remove (pc_slots c) i) \<subseteq> set (pc_slots c)" using F(1) by auto
  have bytes: "slot_bytes E (swap_remove (pc_slots c) i) \<le> pc_max_bytes c"
    using I(2) F(2) [of "\<lambda>s. en_kv_bytes E (sl_entry s)"] by (simp add: slot_bytes_def)
  have len: "length (en_block_hashes E (sl_entry ?s)) < U32_MAX"
    using I(6) [of ?s] assms(2) by simp
  from I(5) have inv: "ix_inv (pc_index c)" by (simp add: index_ok_def)
  note rm = ix.abs_rem [OF inv len, of 0]
  have "index_ok E (remove_slot E i c)"
    unfolding index_ok_def
  proof (intro conjI allI impI)
    show "ix_inv (pc_index (remove_slot E i c))" using rm by (simp add: remove_slot_def)
    fix chain lk u
    assume "ix_abs (pc_index (remove_slot E i c)) (chain, lk) = Some u"
    then have ne: "(chain, lk) \<noteq> (en_block_hashes E (sl_entry ?s), 0)"
      and ab: "ix_abs (pc_index c) (chain, lk) = Some u"
      using rm by (auto simp: remove_slot_def split: if_splits)
    from I(5) ab obtain s where s: "lk = 0" "s \<in> set (pc_slots c)" "sl_uid s = u"
      "en_block_hashes E (sl_entry s) = chain" unfolding index_ok_def by blast
    with ne have "s \<noteq> ?s" by auto
    with s F(1) have "s \<in> set (swap_remove (pc_slots c) i)" by auto
    with s show "lk = 0" "\<exists>s\<in>set (pc_slots (remove_slot E i c)). sl_uid s = u \<and>
        en_block_hashes E (sl_entry s) = chain" by auto
  qed
  then show ?thesis
    using I F(3) [of sl_uid] F(3) [of sl_last_used_seq] sub bytes by (auto simp: pc_inv_def)
qed

lemma bump_fields [simp]:
  "pc_slots (bump_evictions c) = pc_slots c" "pc_index (bump_evictions c) = pc_index c"
  "pc_capacity (bump_evictions c) = pc_capacity c" "pc_max_bytes (bump_evictions c) = pc_max_bytes c"
  "pc_seq (bump_evictions c) = pc_seq c" "pc_next_slot_uid (bump_evictions c) = pc_next_slot_uid c"
  "pc_spill (bump_evictions c) = pc_spill c" "pc_spilled (bump_evictions c) = pc_spilled c"
  "st_evictions (pc_stats (bump_evictions c)) = st_evictions (pc_stats c) + 1"
  by (simp_all add: bump_evictions_def)

lemma spill_fields [simp]:
  "pc_slots (spill_evicted e c) = pc_slots c" "pc_index (spill_evicted e c) = pc_index c"
  "pc_capacity (spill_evicted e c) = pc_capacity c" "pc_max_bytes (spill_evicted e c) = pc_max_bytes c"
  "pc_seq (spill_evicted e c) = pc_seq c" "pc_next_slot_uid (spill_evicted e c) = pc_next_slot_uid c"
  "pc_spill (spill_evicted e c) = pc_spill c" "pc_stats (spill_evicted e c) = pc_stats c"
  by (simp_all add: spill_evicted_def)

lemma evict_lru_inv [inv_intro]:
  "pc_inv E c \<Longrightarrow> i < length (pc_slots c) \<Longrightarrow> pc_inv E (evict_lru E i c)"
  using remove_slot_inv pc_inv_cong [of "evict_lru E i c" "remove_slot E i c" E]
  by (simp add: evict_lru_def)

lemma evict_slot_inv [inv_intro]: "pc_inv E c \<Longrightarrow> evict_slot E i c = Some c' \<Longrightarrow> pc_inv E c'"
  using remove_slot_inv [of E c i] pc_inv_cong [of c' "remove_slot E i c" E]
  by (auto simp: evict_slot_def split: if_splits)

section \<open>Eviction\<close>

text \<open>\<open>evicted E c ev c'\<close>: \<open>c'\<close> is \<open>c\<close> after the slots \<open>ev\<close> were evicted in that order, least recent first.\<close>

definition evicted :: "'e prompt_cache \<Rightarrow> 'e slot list \<Rightarrow> 'e prompt_cache \<Rightarrow> bool" where
  "evicted c ev c' \<longleftrightarrow>
     mset (pc_slots c) = mset ev + mset (pc_slots c') \<and>
     (\<forall>v\<in>set ev. \<forall>s\<in>set (pc_slots c'). sl_last_used_seq v < sl_last_used_seq s) \<and>
     pc_spilled c' = (if pc_spill c then pc_spilled c @ map sl_entry ev else pc_spilled c) \<and>
     st_evictions (pc_stats c') = st_evictions (pc_stats c) + length ev \<and>
     pc_capacity c' = pc_capacity c \<and> pc_max_bytes c' = pc_max_bytes c \<and> pc_spill c' = pc_spill c \<and>
     pc_seq c' = pc_seq c \<and> pc_next_slot_uid c' = pc_next_slot_uid c"

lemma evicted_refl: "evicted c [] c"
  by (simp add: evicted_def)

lemma evicted_Cons:
  assumes "evicted c [v] c1" "evicted c1 ev c2"
  shows "evicted c (v # ev) c2"
proof -
  from assms(2) have "set (pc_slots c2) \<subseteq> set (pc_slots c1)"
    by (metis evicted_def mset_subset_eq_add_right set_mset_mono set_mset_mset)
  with assms show ?thesis by (auto simp: evicted_def)
qed

lemma evict_lru_evicted:
  assumes inv: "pc_inv E c" and i: "lru_slot_index c = Some i"
  shows "evicted c [pc_slots c ! i] (evict_lru E i c)"
    and "slot_bytes E (pc_slots c) = en_kv_bytes E (sl_entry (pc_slots c ! i)) + slot_bytes E (pc_slots (evict_lru E i c))"
    and "pc_inv E (evict_lru E i c)" "length (pc_slots (evict_lru E i c)) < length (pc_slots c)"
proof -
  note L = lru_slot_index_spec [OF i]
  note F = swap_remove_facts [OF L(1)]
  let ?v = "pc_slots c ! i" and ?rest = "swap_remove (pc_slots c) i"
  have lt: "sl_last_used_seq ?v < sl_last_used_seq s" if "s \<in> set ?rest" for s
  proof -
    have "sl_last_used_seq ?v \<le> sl_last_used_seq s" using L(2) F(1) that by auto
    moreover have "sl_last_used_seq ?v \<noteq> sl_last_used_seq s"
      using F(3) [of sl_last_used_seq] pc_invD(4) [OF inv] that by auto
    ultimately show ?thesis by simp
  qed
  have m: "mset (pc_slots c) = add_mset ?v (mset ?rest)" by (rule mset_of_swap_remove [OF L(1)])
  show "evicted c [?v] (evict_lru E i c)"
    using m lt by (simp add: evicted_def evict_lru_def) (simp add: spill_evicted_def bump_evictions_def)
  show "slot_bytes E (pc_slots c) = en_kv_bytes E (sl_entry ?v) + slot_bytes E (pc_slots (evict_lru E i c))"
    using F(2) [of "\<lambda>s. en_kv_bytes E (sl_entry s)"] by (simp add: slot_bytes_def evict_lru_def)
  show "pc_inv E (evict_lru E i c)" using inv L(1) by (rule evict_lru_inv)
  show "length (pc_slots (evict_lru E i c)) < length (pc_slots c)" using L(1) by (simp add: evict_lru_def)
qed

text \<open>\<open>over\<close>: putting the last evicted slot back would break the byte cap for the new entry.\<close>

definition over :: "('e, 'l) entry_ops \<Rightarrow> nat \<Rightarrow> 'e slot list \<Rightarrow> 'e prompt_cache \<Rightarrow> bool" where
  "over E new ev c \<longleftrightarrow>
     pc_max_bytes c < en_kv_bytes E (sl_entry (last ev)) + slot_bytes E (pc_slots c) + new"

lemma slot_bytes_mset: "mset xs = mset ys \<Longrightarrow> slot_bytes E xs = slot_bytes E ys"
proof -
  have eq: "slot_bytes E zs = sum_mset (image_mset (\<lambda>s. en_kv_bytes E (sl_entry s)) (mset zs))" for zs
    unfolding slot_bytes_def by (metis mset_map sum_mset_sum_list)
  assume "mset xs = mset ys"
  then show ?thesis by (simp only: eq)
qed

lemma ram_evict_spec:
  "pc_inv E c \<Longrightarrow> length (pc_slots c) \<le> n \<Longrightarrow> acc = slot_bytes E (pc_slots c) \<Longrightarrow>
     \<exists>c' ev. ram_evict n E new acc c = Some c' \<and> pc_inv E c' \<and> evicted c ev c' \<and>
       (pc_slots c' = [] \<or> slot_bytes E (pc_slots c') + new \<le> pc_max_bytes c') \<and>
       (ev \<noteq> [] \<longrightarrow> over E new ev c')"
proof (induction n arbitrary: c acc)
  case 0
  then have nil: "pc_slots c = []" by simp
  then have "ram_evict 0 E new acc c = Some c" by simp
  with nil "0.prems"(1) evicted_refl [of c] show ?case by blast
next
  case (Suc n)
  show ?case
  proof (cases "pc_slots c \<noteq> [] \<and> acc + new > pc_max_bytes c")
    case False
    then have "ram_evict (Suc n) E new acc c = Some c"
      "pc_slots c = [] \<or> slot_bytes E (pc_slots c) + new \<le> pc_max_bytes c"
      using Suc.prems(3) by auto
    with Suc.prems(1) evicted_refl [of c] show ?thesis by blast
  next
    case True
    then obtain i where i: "lru_slot_index c = Some i" using lru_slot_index_Some by blast
    note S = evict_lru_evicted [OF Suc.prems(1) i]
    let ?c1 = "evict_lru E i c" and ?v = "pc_slots c ! i"
    from S(4) Suc.prems(2) have "length (pc_slots ?c1) \<le> n" by simp
    from Suc.IH [OF S(3) this refl] obtain c' ev where
      r: "ram_evict n E new (slot_bytes E (pc_slots ?c1)) ?c1 = Some c'" "pc_inv E c'" "evicted ?c1 ev c'"
      "pc_slots c' = [] \<or> slot_bytes E (pc_slots c') + new \<le> pc_max_bytes c'"
      "ev \<noteq> [] \<longrightarrow> over E new ev c'" by blast
    have "acc - en_kv_bytes E (sl_entry ?v) = slot_bytes E (pc_slots ?c1)" using S(2) Suc.prems(3) by simp
    with r(1) True i have "ram_evict (Suc n) E new acc c = Some c'" by simp
    moreover have "over E new (?v # ev) c'"
    proof (cases "ev = []")
      case True
      with r(3) have "mset (pc_slots ?c1) = mset (pc_slots c')" "pc_max_bytes c' = pc_max_bytes c"
        using S(1) by (simp_all add: evicted_def)
      then have "slot_bytes E (pc_slots c') = slot_bytes E (pc_slots ?c1)" "pc_max_bytes c' = pc_max_bytes c"
        using slot_bytes_mset by metis+
      with True \<open>pc_slots c \<noteq> [] \<and> acc + new > pc_max_bytes c\<close> S(2) Suc.prems(3) show ?thesis
        by (simp add: over_def)
    next
      case False
      with r(5) show ?thesis by (simp add: over_def)
    qed
    ultimately show ?thesis using r evicted_Cons [OF S(1) r(3)] by blast
  qed
qed

lemma evicted_trans:
  assumes "evicted c ev c1" "evicted c1 ev' c2"
  shows "evicted c (ev @ ev') c2"
proof -
  from assms(2) have "set (pc_slots c2) \<subseteq> set (pc_slots c1)" "set ev' \<subseteq> set (pc_slots c1)"
    unfolding evicted_def by (metis mset_subset_eq_add_right set_mset_mono set_mset_mset,
      metis mset_subset_eq_add_left set_mset_mono set_mset_mset)
  with assms show ?thesis by (auto simp: evicted_def)
qed

section \<open>Push\<close>

lemma uid_grows: "unat (x::u64) < 2 ^ 64 - 1 \<Longrightarrow> x < x + 1"
proof -
  assume a: "unat x < 2 ^ 64 - 1"
  then have "x \<noteq> - 1" by (auto simp: unsigned_minus_1_eq_mask mask_eq_exp_minus_1)
  moreover have "1 + x = 0 \<Longrightarrow> x = - 1" by (metis add.commute eq_neg_iff_add_eq_0)
  ultimately have "1 + x \<noteq> 0" by blast
  then show ?thesis by (simp add: word_less_nat_alt unatSuc add.commute)
qed

definition push_admits :: "('e, 'l) entry_ops \<Rightarrow> 'e \<Rightarrow> 'e prompt_cache \<Rightarrow> bool" where
  "push_admits E e c \<longleftrightarrow> 0 < pc_capacity c \<and> en_kv_bytes E e \<le> pc_max_bytes c"

text \<open>The bounds a push needs of its inputs: a free slot id, and a chain that fits a \<^verbatim>\<open>u32\<close> depth.\<close>

definition push_bounds :: "('e, 'l) entry_ops \<Rightarrow> 'e \<Rightarrow> 'e prompt_cache \<Rightarrow> bool" where
  "push_bounds E e c \<longleftrightarrow>
     unat (pc_next_slot_uid c) < 2 ^ 64 - 1 \<and> length (en_block_hashes E e) < U32_MAX"

lemma push_slot_inv:
  assumes inv: "pc_inv E c" and room: "length (pc_slots c) < pc_capacity c"
    and bytes: "slot_bytes E (pc_slots c) + en_kv_bytes E e \<le> pc_max_bytes c" and b: "push_bounds E e c"
  shows "pc_inv E (fst (push_slot E e c))"
proof -
  note I = pc_invD [OF inv]
  let ?uid = "pc_next_slot_uid c + 1" and ?ch = "en_block_hashes E e"
  have up: "pc_next_slot_uid c < ?uid" using b uid_grows by (simp add: push_bounds_def)
  have old: "sl_uid s \<noteq> ?uid \<and> sl_uid s \<le> ?uid \<and> sl_last_used_seq s \<le> pc_seq c" if "s \<in> set (pc_slots c)" for s
    using I(6) [OF that] up by auto
  from I(5) have ii: "ix_inv (pc_index c)" by (simp add: index_ok_def)
  have fresh: "index_fresh (ix_abs (pc_index c)) ?ch 0 ?uid"
    using b I(5) old unfolding index_fresh_def index_ok_def push_bounds_def by (metis surj_pair)
  have ab: "ix_inv (ix_insert ?ch 0 ?uid (pc_index c)) \<and>
      (\<forall>k u. ix_abs (ix_insert ?ch 0 ?uid (pc_index c)) k = Some u \<longrightarrow>
         ix_abs (pc_index c) k = Some u \<or> k = (?ch, 0) \<and> u = ?uid)"
  proof (cases "?ch = []")
    case True
    with ii show ?thesis by (simp add: ix.ins_nil)
  next
    case False
    from ix.abs_ins [OF ii False fresh] show ?thesis by auto
  qed
  have "index_ok E (fst (push_slot E e c))"
    unfolding index_ok_def
  proof (intro conjI allI impI)
    show "ix_inv (pc_index (fst (push_slot E e c)))" using ab by (simp add: push_slot_def Let_def)
    fix chain lk u assume "ix_abs (pc_index (fst (push_slot E e c))) (chain, lk) = Some u"
    then have "ix_abs (pc_index c) (chain, lk) = Some u \<or> (chain, lk) = (?ch, 0) \<and> u = ?uid"
      using ab by (simp add: push_slot_def Let_def)
    with I(5) show "lk = 0" "\<exists>s\<in>set (pc_slots (fst (push_slot E e c))). sl_uid s = u \<and>
        en_block_hashes E (sl_entry s) = chain"
      unfolding index_ok_def by (auto simp: push_slot_def Let_def)
  qed
  moreover have "Suc (pc_seq c) \<notin> sl_last_used_seq ` set (pc_slots c)"
  proof
    assume "Suc (pc_seq c) \<in> sl_last_used_seq ` set (pc_slots c)"
    then obtain s where "s \<in> set (pc_slots c)" "Suc (pc_seq c) = sl_last_used_seq s" by blast
    with old [of s] show False by simp
  qed
  moreover have "?uid \<notin> sl_uid ` set (pc_slots c)"
  proof
    assume "?uid \<in> sl_uid ` set (pc_slots c)"
    then obtain s where "s \<in> set (pc_slots c)" "?uid = sl_uid s" by blast
    with old [of s] show False by simp
  qed
  ultimately show ?thesis
    using I(1-4) room bytes b old I(6)
    by (simp add: pc_inv_def push_slot_def Let_def slot_bytes_def push_bounds_def le_SucI)
qed

lemma push_spec:
  assumes inv: "pc_inv E c" and adm: "push_admits E e c" and b: "push_bounds E e c"
  obtains c1 ev where "push E e c = Some (push_slot E e c1)" "evicted c ev c1"
    "pc_inv E (fst (push_slot E e c1))"
    "ev \<noteq> [] \<Longrightarrow> over E (en_kv_bytes E e) ev c1 \<or> length (pc_slots c1) + 1 = pc_capacity c1"
proof -
  let ?new = "en_kv_bytes E e"
  from ram_evict_spec [OF inv order_refl refl, of ?new] obtain c1 ev where
    r: "ram_evict (length (pc_slots c)) E ?new (slot_bytes E (pc_slots c)) c = Some c1" "pc_inv E c1"
      "evicted c ev c1" "pc_slots c1 = [] \<or> slot_bytes E (pc_slots c1) + ?new \<le> pc_max_bytes c1"
      "ev \<noteq> [] \<longrightarrow> over E ?new ev c1" by blast
  have same: "pc_capacity c1 = pc_capacity c" "pc_max_bytes c1 = pc_max_bytes c"
    "pc_next_slot_uid c1 = pc_next_slot_uid c" using r(3) by (simp_all add: evicted_def)
  have fits: "slot_bytes E (pc_slots c1) + ?new \<le> pc_max_bytes c1"
    using r(4) adm same by (auto simp: slot_bytes_def push_admits_def)
  show thesis
  proof (cases "length (pc_slots c1) = pc_capacity c1")
    case False
    then have "push E e c = Some (push_slot E e c1)"
      using r(1) adm by (simp add: push_def push_admits_def Let_def)
    moreover have "pc_inv E (fst (push_slot E e c1))"
      using push_slot_inv [OF r(2) _ fits] False pc_invD(1) [OF r(2)] b same by (simp add: push_bounds_def)
    ultimately show thesis using r by (intro that [of c1 ev]) auto
  next
    case True
    then have "pc_slots c1 \<noteq> []" using adm same by (auto simp: push_admits_def)
    then obtain i where i: "lru_slot_index c1 = Some i" using lru_slot_index_Some by blast
    note S = evict_lru_evicted [OF r(2) i]
    let ?c2 = "evict_lru E i c1"
    have "push E e c = Some (push_slot E e ?c2)"
      using r(1) adm True i by (simp add: push_def push_admits_def Let_def)
    moreover have same2: "pc_capacity ?c2 = pc_capacity c1" "pc_max_bytes ?c2 = pc_max_bytes c1"
      "pc_next_slot_uid ?c2 = pc_next_slot_uid c1" using S(1) by (simp_all add: evicted_def)
    moreover have "pc_inv E (fst (push_slot E e ?c2))"
      using push_slot_inv [OF S(3), of e] S(2,4) fits True same same2 b by (simp add: push_bounds_def)
    moreover have "length (pc_slots ?c2) + 1 = pc_capacity ?c2"
      using True same2 lru_slot_index_spec(1) [OF i] by (simp add: evict_lru_def)
    ultimately show thesis using evicted_trans [OF r(3) S(1)] by (intro that [of ?c2 "ev @ [pc_slots c1 ! i]"]) auto
  qed
qed

lemma push_refused: "\<not> push_admits E e c \<Longrightarrow> push E e c = Some (c, None)"
  by (auto simp: push_def push_admits_def Let_def)

section \<open>Lookups and the consume decision\<close>

lemma touch_inv:
  assumes inv: "pc_inv E c" and i: "i < length (pc_slots c)"
  shows "pc_inv E (c\<lparr>pc_seq := pc_seq c + 1,
    pc_slots := (pc_slots c)[i := (pc_slots c ! i)\<lparr>sl_last_used_seq := pc_seq c + 1\<rparr>]\<rparr>)" (is "pc_inv E ?c")
proof -
  note I = pc_invD [OF inv]
  let ?s' = "(pc_slots c ! i)\<lparr>sl_last_used_seq := pc_seq c + 1\<rparr>"
  have uid: "map sl_uid (pc_slots ?c) = map sl_uid (pc_slots c)"
    and ent: "map sl_entry (pc_slots ?c) = map sl_entry (pc_slots c)"
    using i by (simp_all add: map_update list_update_id [of _ i, symmetric] del: list_update_id)
      (metis list_update_id nth_map)+
  have key: "map (\<lambda>s. (sl_uid s, sl_entry s)) (pc_slots ?c) = map (\<lambda>s. (sl_uid s, sl_entry s)) (pc_slots c)"
    using i by (simp add: map_update) (metis (no_types, lifting) list_update_id nth_map)
  have sq: "distinct (map sl_last_used_seq (pc_slots ?c))"
  proof -
    have "map sl_last_used_seq (pc_slots ?c) = (map sl_last_used_seq (pc_slots c))[i := pc_seq c + 1]"
      by (simp add: map_update)
    moreover have "pc_seq c + 1 \<notin> set (map sl_last_used_seq (pc_slots c))" using I(6) by fastforce
    ultimately show ?thesis using I(4) by (simp add: distinct_list_update)
  qed
  have sub: "\<And>s. s \<in> set (pc_slots ?c) \<Longrightarrow> s \<in> set (pc_slots c) \<or> s = ?s'"
    using set_update_subset_insert by fastforce
  have mem: "\<And>s. s \<in> set (pc_slots c) \<Longrightarrow> \<exists>s'\<in>set (pc_slots ?c). sl_uid s' = sl_uid s \<and> sl_entry s' = sl_entry s"
  proof -
    fix s assume "s \<in> set (pc_slots c)"
    then have "(sl_uid s, sl_entry s) \<in> set (map (\<lambda>s. (sl_uid s, sl_entry s)) (pc_slots ?c))"
      unfolding key by simp
    then show "\<exists>s'\<in>set (pc_slots ?c). sl_uid s' = sl_uid s \<and> sl_entry s' = sl_entry s" by auto
  qed
  have bytes: "slot_bytes E (pc_slots ?c) = slot_bytes E (pc_slots c)"
    using arg_cong [OF ent, of "\<lambda>es. sum_list (map (en_kv_bytes E) es)"] by (simp add: slot_bytes_def comp_def)
  have "index_ok E ?c" using I(5) mem unfolding index_ok_def by simp metis
  moreover have "\<forall>s\<in>set (pc_slots ?c). sl_uid s \<le> pc_next_slot_uid ?c \<and> sl_last_used_seq s \<le> pc_seq ?c \<and>
      length (en_block_hashes E (sl_entry s)) < U32_MAX"
    using sub I(6) i by (fastforce dest: I(6) [OF nth_mem])
  ultimately show ?thesis using I(1-3) uid sq bytes unfolding pc_inv_def by simp
qed

lemma record_lookup_inv [inv_intro]:
  assumes "pc_inv E c" "\<And>i b. m = Some (i, b) \<Longrightarrow> i < length (pc_slots c)"
  shows "pc_inv E (record_lookup m w c)"
proof (cases m)
  case None
  then show ?thesis using assms(1) pc_inv_cong [of "record_lookup m w c" c E]
    by (simp add: record_lookup_def Let_def)
next
  case (Some ib)
  obtain i b where ib: "ib = (i, b)" by force
  with Some assms touch_inv [OF assms(1), of i] show ?thesis
    using pc_inv_cong [of "record_lookup m w c" "c\<lparr>pc_seq := pc_seq c + 1,
      pc_slots := (pc_slots c)[i := (pc_slots c ! i)\<lparr>sl_last_used_seq := pc_seq c + 1\<rparr>]\<rparr>" E]
    by (simp add: record_lookup_def Let_def)
qed

lemma slot_of_lt: "slot_of uid c = Some i \<Longrightarrow> i < length (pc_slots c) \<and> sl_uid (pc_slots c ! i) = uid"
  by (auto dest: position_SomeD)

lemma judge_slot_total: "i < length (pc_slots c) \<Longrightarrow> judge_slot E p i ids q b c \<noteq> None"
  by (auto simp: judge_slot_def evict_slot_def Let_def)

lemma judge_slot_inv [inv_intro]:
  "pc_inv E c \<Longrightarrow> judge_slot E p i ids q b c = Some (c', v) \<Longrightarrow> pc_inv E c'"
  by (auto simp: judge_slot_def Let_def evict_slot_inv split: if_splits option.splits)

lemma judge_slot_same:
  "judge_slot E p i ids q b c = Some (c', v) \<Longrightarrow> v = VExact \<or> v = VReuse k \<Longrightarrow> c' = c"
  by (auto simp: judge_slot_def Let_def split: if_splits option.splits)

lemma judge_candidates_inv:
  "pc_inv E c \<Longrightarrow> judge_candidates E p ids q n cs c fd os = Some (c', r) \<Longrightarrow> pc_inv E c'"
proof (induction cs arbitrary: c fd os)
  case (Cons ub cs)
  obtain uid b where ub: "ub = (uid, b)" by force
  show ?case
  proof (cases "slot_of uid c")
    case None
    with Cons ub show ?thesis by simp
  next
    case (Some i)
    note lt = slot_of_lt [OF Some]
    obtain c1 v where j: "judge_slot E p i ids q b c = Some (c1, v)"
      using judge_slot_total lt by fastforce
    note inv1 = judge_slot_inv [OF Cons.prems(1) j]
    show ?thesis
    proof (cases v)
      case VExact
      with j have "c1 = c" using judge_slot_same by blast
      with VExact j ub Some lt Cons.prems Cons.IH inv1 show ?thesis
        by (auto split: sum.splits intro!: record_lookup_inv)
    qed (use j ub Some Cons.prems Cons.IH inv1 in auto)
  qed
qed simp

lemma judge_candidates_total: "judge_candidates E p ids q n cs c fd os \<noteq> None"
proof (induction cs arbitrary: c fd os)
  case (Cons ub cs)
  obtain uid b where ub: "ub = (uid, b)" by force
  show ?case
  proof (cases "slot_of uid c")
    case None
    with Cons ub show ?thesis by simp
  next
    case (Some i)
    obtain c1 v where "judge_slot E p i ids q b c = Some (c1, v)"
      using judge_slot_total slot_of_lt [OF Some] by fastforce
    with Some ub Cons show ?thesis by (auto split: verdict.splits sum.splits)
  qed
qed simp

lemma take_offer_inv:
  "pc_inv E c \<Longrightarrow> take_offer E n os c fd = Inl (c', e, k) \<Longrightarrow> pc_inv E c'"
proof (induction os arbitrary: fd)
  case (Cons o' os)
  obtain uid b k' where o': "o' = (uid, b, k')" by (cases o') auto
  show ?case
    using Cons.prems Cons.IH o'
    by (auto split: option.splits sum.splits intro!: record_lookup_inv dest: slot_of_lt)
qed simp

lemma decide_among_inv:
  assumes "pc_inv E c" "decide_among E p ids q want i b c = Some (c', out)"
  shows "pc_inv E c'"
proof -
  let ?uid = "sl_uid (pc_slots c ! i)"
  obtain c1 r1 where j: "judge_candidates E p ids q (length want) ((?uid, b) # other_matches E want ?uid c)
      c None [] = Some (c1, r1)"
    using assms(2) by (auto simp: decide_among_def Let_def split: option.splits simp del: judge_candidates.simps)
  note inv1 = judge_candidates_inv [OF assms(1) j]
  show ?thesis
  proof (cases r1)
    case (Inl e)
    with assms(2) j inv1 show ?thesis
      by (simp add: decide_among_def Let_def del: judge_candidates.simps)
  next
    case (Inr fo)
    obtain fd os where fo: "fo = (fd, os)" by force
    show ?thesis
    proof (cases "take_offer E (length want) (sort_offers os) c1 fd")
      case (Inl t)
      obtain c2 e k where "t = (c2, e, k)" by (cases t) auto
      with Inl Inr fo assms(2) j take_offer_inv [OF inv1] show ?thesis
        by (auto simp: decide_among_def Let_def simp del: judge_candidates.simps)
    next
      case (Inr fd')
      with \<open>r1 = Inr fo\<close> fo assms(2) j have "c' = record_lookup (map_option (\<lambda>i. (i, b)) (slot_of ?uid c1)) (length want) c1"
        by (simp add: decide_among_def Let_def del: judge_candidates.simps)
      with inv1 show ?thesis by (auto intro!: record_lookup_inv dest: slot_of_lt)
    qed
  qed
qed

lemma push_inv:
  assumes "pc_inv E c" "push_bounds E e c" "push E e c = Some (c', r)"
  shows "pc_inv E c'"
proof (cases "push_admits E e c")
  case True
  from push_spec [OF assms(1) True assms(2)] assms(3) show ?thesis
    by (metis fst_conv option.inject)
next
  case False
  with assms push_refused show ?thesis by fastforce
qed

text \<open>The bounds for whatever the SSD source answers.\<close>

definition source_bounds ::
  "('e, 'l) entry_ops \<Rightarrow> 'e ssd_source \<Rightarrow> u32 list \<Rightarrow> u64 \<Rightarrow> kv_quant \<Rightarrow> kv_quant list \<Rightarrow> 'e prompt_cache \<Rightarrow> bool"
where
  "source_bounds E src ids seed q lq c \<longleftrightarrow>
     (\<forall>e. src ids seed q lq = Inr (Some e) \<longrightarrow> push_bounds E e c)"

lemma push_bounds_lookup [simp]: "push_bounds E e (record_lookup m w c) = push_bounds E e c"
  by (auto simp: push_bounds_def record_lookup_def Let_def split: option.splits)

lemma push_total:
  assumes "pc_inv E c" "push_bounds E e c"
  shows "push E e c \<noteq> None"
proof (cases "push_admits E e c")
  case True
  from push_spec [OF assms(1) True assms(2)] show ?thesis by (metis option.distinct(1))
qed (simp add: push_refused)

lemma hydrate_inv:
  assumes inv: "pc_inv E c" and sb: "source_bounds E src ids seed q lq c"
    and h: "hydrate_from_ssd E src ids seed q lq c = Some (c', r)"
  shows "pc_inv E c'"
proof -
  have "pc_inv E c''" if "push E e c = Some (c'', x)" "src ids seed q lq = Inr (Some e)" for e c'' x
    using push_inv [OF inv _ that(1)] that(2) sb by (simp add: source_bounds_def)
  moreover have "pc_inv E (d\<lparr>pc_stats := s\<rparr>) = pc_inv E d" for d :: "'a prompt_cache" and s
    by (rule pc_inv_cong) simp_all
  ultimately show ?thesis using inv h
    by (auto simp: hydrate_from_ssd_def split: if_splits sum.splits option.splits prod.splits)
qed

lemma decide_locked_inv:
  assumes inv: "pc_inv E c" and sb: "source_bounds E src ids seed q lq c"
    and d: "decide_locked E src p ids q lq seed c = Some (c', out)"
  shows "pc_inv E c'"
proof -
  have inv1: "pc_inv E (record_lookup None w c)" for w using inv by (intro record_lookup_inv) simp_all
  have sb1: "source_bounds E src ids seed q lq (record_lookup None w c)" for w
    using sb by (simp add: source_bounds_def)
  show ?thesis
    using d hydrate_inv [OF inv1 sb1] inv
    by (auto simp: decide_locked_def Let_def split: prod.splits option.splits
        intro: decide_among_inv)
qed

lemma decide_locked_total:
  assumes inv: "pc_inv E c" and sb: "source_bounds E src ids seed q lq c"
  shows "decide_locked E src p ids q lq seed c \<noteq> None"
proof -
  have inv1: "pc_inv E (record_lookup None w c)" for w using inv by (intro record_lookup_inv) simp_all
  have da: "decide_among E p ids q want i b d \<noteq> None" for want i b d
    using judge_candidates_total
    by (fastforce simp: decide_among_def Let_def split: option.splits sum.splits simp del: judge_candidates.simps)
  have "hydrate_from_ssd E src ids seed q lq (record_lookup None w c) \<noteq> None" for w
  proof -
    have "push E e (record_lookup None w c) \<noteq> None" if "src ids seed q lq = Inr (Some e)" for e
      using push_total [OF inv1 [of w], of e] that sb by (simp add: source_bounds_def)
    then show ?thesis
      by (fastforce simp: hydrate_from_ssd_def split: sum.splits option.splits prod.splits)
  qed
  note hy = this
  obtain want m where bm: "best_match E c ids seed = (want, m)" by force
  show ?thesis
  proof (cases m)
    case (Some ib)
    with bm da show ?thesis by (auto simp: decide_locked_def split: prod.splits)
  next
    case None
    obtain c2 r where h: "hydrate_from_ssd E src ids seed q lq (record_lookup None (length want) c) = Some (c2, r)"
      using hy [of "length want"] by auto
    obtain want' m' where bm': "best_match E c2 ids seed = (want', m')" by force
    from None bm h bm' da show ?thesis
      by (cases r; cases m') (auto simp: decide_locked_def Let_def)
  qed
qed

section \<open>Reachable states\<close>

text \<open>
  What a process does with one cache: build it, attach the sinks, push the snapshot of a
  prefill, consume, clear. The source may answer anything within the bounds.
\<close>

inductive pc_reach :: "('e, 'l) entry_ops \<Rightarrow> 'e prompt_cache \<Rightarrow> bool" for E where
  pr_new: "pc_reach E (pc_with_max_bytes kc cap mx)"
| pr_spill: "pc_reach E c \<Longrightarrow> pc_reach E (set_spill_sink c)"
| pr_ssd: "pc_reach E c \<Longrightarrow> pc_reach E (set_ssd_source c)"
| pr_push: "\<lbrakk>pc_reach E c; push_bounds E e c; push E e c = Some (c', r)\<rbrakk> \<Longrightarrow> pc_reach E c'"
| pr_consume: "\<lbrakk>pc_reach E c; source_bounds E src ids seed q lq c;
    decide_locked E src p ids q lq seed c = Some (c', out)\<rbrakk> \<Longrightarrow> pc_reach E c'"
| pr_clear: "pc_reach E c \<Longrightarrow> pc_reach E (pc_clear c)"

lemma ix_clear_facts [simp]: "ix_inv (ix_clear i)" "ix_abs (ix_clear i) = Map.empty"
proof -
  have "radix_clear t = radix_new" for t by (simp add: radix_clear_def radix_new_def)
  then show "ix_inv (ix_clear i)" "ix_abs (ix_clear i) = Map.empty"
    using linear.invar_empt linear.abs_empt radix.invar_empt radix.abs_empt
    by (cases i; simp add: ix_clear_def ix_inv_def ix_abs_def linear_new_def)+
qed

lemma pc_reach_inv: "pc_reach E c \<Longrightarrow> pc_inv E c"
proof (induction rule: pc_reach.induct)
  case (pr_new kc cap mx)
  show ?case by (rule pc_new_inv)
next
  case (pr_spill c)
  then show ?case using pc_inv_cong [of "set_spill_sink c" c E] by (simp add: set_spill_sink_def)
next
  case (pr_ssd c)
  then show ?case using pc_inv_cong [of "set_ssd_source c" c E] by (simp add: set_ssd_source_def)
next
  case (pr_push c e c' r)
  show ?case by (rule push_inv [OF pr_push.IH pr_push.hyps(2,3)])
next
  case (pr_consume c src ids seed q lq p c' out)
  show ?case by (rule decide_locked_inv [OF pr_consume.IH pr_consume.hyps(2,3)])
next
  case (pr_clear c)
  then show ?case
    by (simp add: pc_inv_def pc_clear_def index_ok_def slot_bytes_def)
qed

text \<open>C23: The caps hold. In every state a cache can reach, it holds at most its capacity of
  slots, their entries weigh at most its byte cap, no two slots share an id, and every
  entry of the prefix index names a slot that is resident and was stored under that chain:
  the stale-id fallback of the lookup is never taken.
\<close>

theorem cache_caps_hold:
  assumes "pc_reach E c"
  shows "length (pc_slots c) \<le> pc_capacity c \<and> slot_bytes E (pc_slots c) \<le> pc_max_bytes c \<and>
    distinct (map sl_uid (pc_slots c)) \<and>
    (ix_match_best want 0 (pc_index c) = Some (uid, blocks) \<longrightarrow>
       (\<exists>i. slot_of uid c = Some i \<and>
          leading_matches want (en_block_hashes E (sl_entry (pc_slots c ! i))) = blocks))"
proof -
  note I = pc_invD [OF pc_reach_inv [OF assms]]
  have "\<exists>i. slot_of uid c = Some i \<and>
      leading_matches want (en_block_hashes E (sl_entry (pc_slots c ! i))) = blocks"
    if b: "ix_match_best want 0 (pc_index c) = Some (uid, blocks)"
  proof -
    from I(5) have inv: "ix_inv (pc_index c)" by (simp add: index_ok_def)
    from ix.best_Some [OF inv b] obtain ch where
      ch: "ix_abs (pc_index c) (ch, 0) = Some uid" "leading_matches want ch = blocks" by blast
    with I(5) obtain s where s: "s \<in> set (pc_slots c)" "sl_uid s = uid" "en_block_hashes E (sl_entry s) = ch"
      unfolding index_ok_def by blast
    then obtain i where i: "slot_of uid c = Some i"
      by (cases "slot_of uid c") (auto simp: position_None_iff)
    from slot_of_lt [OF i] s I(3) have "pc_slots c ! i = s"
      by (metis distinct_map inj_on_eq_iff nth_mem)
    with i s ch show ?thesis by auto
  qed
  with I(1-3) show ?thesis by blast
qed

text \<open>C22: What a push does. When the entry is admissible it is stored in the last slot, as the
  most recently used; the slots evicted for it are older than every slot that stays, each
  was offered to the spill sink and counted, and none was evicted in vain: with the last
  one put back, the bytes or the slot count would not leave room for the entry.
\<close>

theorem push_exact:
  assumes "pc_reach E c" "push_admits E e c" "push_bounds E e c"
  shows "\<exists>c' ev. push E e c = Some (c', Some (length (pc_slots c') - 1)) \<and>
    mset (pc_slots c) = mset ev + mset (butlast (pc_slots c')) \<and>
    pc_slots c' \<noteq> [] \<and> last (pc_slots c') =
      \<lparr>sl_entry = e, sl_last_used_seq = pc_seq c + 1, sl_uid = pc_next_slot_uid c + 1\<rparr> \<and>
    (\<forall>v\<in>set ev. \<forall>s\<in>set (butlast (pc_slots c')). sl_last_used_seq v < sl_last_used_seq s) \<and>
    pc_spilled c' = pc_spilled c @ (if pc_spill c then map sl_entry ev else []) \<and>
    st_evictions (pc_stats c') = st_evictions (pc_stats c) + length ev \<and>
    (ev \<noteq> [] \<longrightarrow>
       pc_max_bytes c < en_kv_bytes E (sl_entry (last ev)) + slot_bytes E (pc_slots c') \<or>
       length (pc_slots c') = pc_capacity c)"
proof -
  from push_spec [OF pc_reach_inv [OF assms(1)] assms(2,3)] obtain c1 ev where
    p: "push E e c = Some (push_slot E e c1)" and ev: "evicted c ev c1"
    and need: "ev \<noteq> [] \<Longrightarrow> over E (en_kv_bytes E e) ev c1 \<or> length (pc_slots c1) + 1 = pc_capacity c1"
    by metis
  let ?s = "\<lparr>sl_entry = e, sl_last_used_seq = pc_seq c + 1, sl_uid = pc_next_slot_uid c + 1\<rparr>"
  let ?c' = "fst (push_slot E e c1)"
  have sl: "pc_slots ?c' = pc_slots c1 @ [?s]" "pc_spilled ?c' = pc_spilled c1"
    "pc_stats ?c' = pc_stats c1" "push_slot E e c1 = (?c', Some (length (pc_slots ?c') - 1))"
    using ev by (simp_all add: push_slot_def Let_def evicted_def)
  have bytes: "slot_bytes E (pc_slots ?c') = slot_bytes E (pc_slots c1) + en_kv_bytes E e"
    by (simp add: sl(1) slot_bytes_def)
  have caps: "pc_max_bytes c1 = pc_max_bytes c" "pc_capacity c1 = pc_capacity c"
    using ev by (simp_all add: evicted_def)
  have bl: "butlast (pc_slots ?c') = pc_slots c1" "last (pc_slots ?c') = ?s" by (simp_all add: sl(1))
  show ?thesis
  proof (intro exI conjI)
    show "push E e c = Some (?c', Some (length (pc_slots ?c') - 1))" using p sl(4) by (rule trans [OF _ arg_cong [of _ _ Some]])
    show "mset (pc_slots c) = mset ev + mset (butlast (pc_slots ?c'))"
      "\<forall>v\<in>set ev. \<forall>s\<in>set (butlast (pc_slots ?c')). sl_last_used_seq v < sl_last_used_seq s"
      using ev unfolding bl(1) by (simp_all add: evicted_def)
    show "pc_slots ?c' \<noteq> []" by (simp add: sl(1))
    show "last (pc_slots ?c') = ?s" by (rule bl(2))
    show "pc_spilled ?c' = pc_spilled c @ (if pc_spill c then map sl_entry ev else [])"
      "st_evictions (pc_stats ?c') = st_evictions (pc_stats c) + length ev"
      using ev unfolding sl(2,3) by (simp_all add: evicted_def)
    show "ev \<noteq> [] \<longrightarrow>
       pc_max_bytes c < en_kv_bytes E (sl_entry (last ev)) + slot_bytes E (pc_slots ?c') \<or>
       length (pc_slots ?c') = pc_capacity c"
      using need caps bytes by (auto simp: over_def sl(1))
  qed
qed

text \<open>No panic. A push or a consume on a reachable cache never asks an empty slot vector for
  its least recent slot, never removes a slot that is not there, and its eviction loop ends.
\<close>

theorem prompt_cache_no_panic:
  assumes "pc_reach E c" "push_bounds E e c" "source_bounds E src ids seed q lq c"
  shows "push E e c \<noteq> None \<and> decide_locked E src p ids q lq seed c \<noteq> None"
  using push_total [OF pc_reach_inv [OF assms(1)] assms(2)]
    decide_locked_total [OF pc_reach_inv [OF assms(1)] assms(3)] by simp

section \<open>What a consume answers\<close>

text \<open>The cache as a map from slot ids to entries.\<close>

definition entry_at :: "'e prompt_cache \<Rightarrow> u64 \<rightharpoonup> 'e" where
  "entry_at c uid = map_option (\<lambda>i. sl_entry (pc_slots c ! i)) (slot_of uid c)"

lemma entry_at_iff:
  "distinct (map sl_uid (pc_slots c)) \<Longrightarrow>
     entry_at c u = Some e \<longleftrightarrow> (\<exists>s\<in>set (pc_slots c). sl_uid s = u \<and> sl_entry s = e)"
proof (cases "slot_of u c")
  case None
  then have "\<forall>s\<in>set (pc_slots c). sl_uid s \<noteq> u" by (simp add: position_None_iff)
  with None show ?thesis by (auto simp: entry_at_def)
next
  case (Some i)
  assume d: "distinct (map sl_uid (pc_slots c))"
  from slot_of_lt [OF Some] have i: "i < length (pc_slots c)" "sl_uid (pc_slots c ! i) = u" by auto
  with d have "\<And>s. s \<in> set (pc_slots c) \<Longrightarrow> sl_uid s = u \<Longrightarrow> s = pc_slots c ! i"
    by (metis distinct_map inj_on_eq_iff nth_mem)
  with i Some show ?thesis by (auto simp: entry_at_def)
qed

lemma evict_slot_entries:
  assumes inv: "pc_inv E c" and e: "evict_slot E i c = Some c'"
  shows "entry_at c' u = (if u = sl_uid (pc_slots c ! i) then None else entry_at c u)"
proof -
  from e have i: "i < length (pc_slots c)" and s: "pc_slots c' = swap_remove (pc_slots c) i"
    by (auto simp: evict_slot_def split: if_splits)
  note F = swap_remove_facts [OF i]
  note d = pc_invD(3) [OF inv]
  note d' = pc_invD(3) [OF evict_slot_inv [OF inv e]]
  have "entry_at c' u = Some x \<longleftrightarrow> u \<noteq> sl_uid (pc_slots c ! i) \<and> entry_at c u = Some x" for x
  proof -
    from F(3) [of sl_uid] d have "sl_uid (pc_slots c ! i) \<notin> sl_uid ` set (swap_remove (pc_slots c) i)"
      by blast
    then have "\<forall>s\<in>set (swap_remove (pc_slots c) i). sl_uid s \<noteq> sl_uid (pc_slots c ! i)" by (metis imageI)
    then show ?thesis
      using F(1) unfolding entry_at_iff [OF d] entry_at_iff [OF d'] s by auto
  qed
  then show ?thesis by (metis not_Some_eq)
qed

text \<open>What one entry offers a request, as \<open>judge_slot\<close> decides it.\<close>

definition exact_ok :: "('e, 'l) entry_ops \<Rightarrow> u32 list \<Rightarrow> kv_quant \<Rightarrow> 'e \<Rightarrow> bool" where
  "exact_ok E ids q e \<longleftrightarrow> en_kv_quant E e = Some q \<and> \<not> en_is_ssd_hydrated E e \<and>
     en_prompt_token_ids E e = ids"

definition entry_offer ::
  "('e, 'l) entry_ops \<Rightarrow> reuse_policy \<Rightarrow> u32 list \<Rightarrow> kv_quant \<Rightarrow> nat \<Rightarrow> 'e \<Rightarrow> reuse_kind option" where
  "entry_offer E p ids q b e =
     (if en_kv_quant E e = Some q \<and> \<not> exact_ok E ids q e \<and>
         (if en_is_ssd_hydrated E e then en_is_hydrate_complete E e else p = Partial)
      then en_is_reusable_prefix_of E e ids (en_is_ssd_hydrated E e) b else None)"

lemma judge_slot_match:
  assumes "en_kv_quant E (sl_entry (pc_slots c ! i)) = Some q"
  shows "exact_ok E ids q (sl_entry (pc_slots c ! i)) \<Longrightarrow> judge_slot E p i ids q b c = Some (c, VExact)"
    and "\<not> exact_ok E ids q (sl_entry (pc_slots c ! i)) \<Longrightarrow>
      entry_offer E p ids q b (sl_entry (pc_slots c ! i)) = Some k \<Longrightarrow>
      judge_slot E p i ids q b c = Some (c, VReuse k)"
    and "\<not> exact_ok E ids q (sl_entry (pc_slots c ! i)) \<Longrightarrow>
      entry_offer E p ids q b (sl_entry (pc_slots c ! i)) = None \<Longrightarrow>
      \<exists>d. judge_slot E p i ids q b c = Some (c, VDeclined d)"
  using assms
  by (simp_all add: judge_slot_def exact_ok_def entry_offer_def Let_def split: if_splits)

lemma judge_slot_cases:
  assumes inv: "pc_inv E c" and i: "slot_of u c = Some i" and j: "judge_slot E p i ids q b c = Some (c', v)"
  obtains (exact) e where "entry_at c u = Some e" "v = VExact" "c' = c" "exact_ok E ids q e"
      "e = sl_entry (pc_slots c' ! i)"
  | (reuse) e k where "entry_at c u = Some e" "v = VReuse k" "c' = c" "entry_offer E p ids q b e = Some k"
  | (declined) e d where "entry_at c u = Some e" "v = VDeclined d" "\<not> exact_ok E ids q e"
      "entry_offer E p ids q b e = None"
      "\<forall>u' e'. entry_at c' u' = Some e' \<longrightarrow> entry_at c u' = Some e'"
      "\<forall>u' e'. entry_at c u' = Some e' \<and> en_kv_quant E e' = Some q \<longrightarrow> entry_at c' u' = Some e'"
proof -
  let ?e = "sl_entry (pc_slots c ! i)"
  have e: "entry_at c u = Some ?e" using i by (simp add: entry_at_def)
  have u: "sl_uid (pc_slots c ! i) = u" using slot_of_lt [OF i] by simp
  show thesis
  proof (cases "en_kv_quant E ?e = Some q")
    case False
    with j obtain ev: "evict_slot E i c = Some c'" and v: "\<exists>d. v = VDeclined d"
      by (auto simp: judge_slot_def Let_def split: option.splits)
    note ent = evict_slot_entries [OF inv ev, unfolded u]
    have "\<forall>u' e'. entry_at c u' = Some e' \<and> en_kv_quant E e' = Some q \<longrightarrow> entry_at c' u' = Some e'"
      using e False by (auto simp: ent)
    moreover have "\<forall>u' e'. entry_at c' u' = Some e' \<longrightarrow> entry_at c u' = Some e'" by (auto simp: ent)
    moreover obtain d where "v = VDeclined d" using v by blast
    moreover have "\<not> exact_ok E ids q ?e" "entry_offer E p ids q b ?e = None"
      using False by (simp_all add: exact_ok_def entry_offer_def)
    ultimately show thesis using declined [OF e] by blast
  next
    case True
    note M = judge_slot_match [OF True]
    show thesis
    proof (cases "exact_ok E ids q ?e")
      case True
      from M(1) [OF True] j have "c' = c" "v = VExact" by simp_all
      with True show thesis by (intro exact [OF e]) simp_all
    next
      case False
      show thesis
      proof (cases "entry_offer E p ids q b ?e")
        case None
        from M(3) [OF False None] j obtain d where "c' = c" "v = VDeclined d" by auto
        with False None show thesis by (intro declined [OF e]) simp_all
      next
        case (Some k)
        from M(2) [OF False Some] j have "c' = c" "v = VReuse k" by simp_all
        with Some show thesis by (intro reuse [OF e])
      qed
    qed
  qed
qed

definition keeps :: "('e, 'l) entry_ops \<Rightarrow> kv_quant \<Rightarrow> 'e prompt_cache \<Rightarrow> 'e prompt_cache \<Rightarrow> bool" where
  "keeps E q c c' \<longleftrightarrow>
     (\<forall>u e. entry_at c' u = Some e \<longrightarrow> entry_at c u = Some e) \<and>
     (\<forall>u e. entry_at c u = Some e \<and> en_kv_quant E e = Some q \<longrightarrow> entry_at c' u = Some e)"

lemma keeps_refl [simp]: "keeps E q c c" by (simp add: keeps_def)
lemma keeps_trans: "keeps E q c c1 \<Longrightarrow> keeps E q c1 c2 \<Longrightarrow> keeps E q c c2" unfolding keeps_def by blast

lemma keeps_back: "keeps E q c c' \<Longrightarrow> entry_at c' u = Some e \<Longrightarrow> entry_at c u = Some e"
  unfolding keeps_def by blast

lemma offer_quant: "entry_offer E p ids q b e = Some k \<Longrightarrow> en_kv_quant E e = Some q"
  by (simp add: entry_offer_def split: if_splits)

lemma keeps_offer: "keeps E q c c1 \<Longrightarrow> entry_at c u = Some e \<Longrightarrow> entry_offer E p ids q b e = Some k \<Longrightarrow>
    entry_at c1 u = Some e"
proof -
  assume k: "keeps E q c c1" and e: "entry_at c u = Some e" and o': "entry_offer E p ids q b e = Some k"
  from k have "entry_at c u = Some e \<and> en_kv_quant E e = Some q \<Longrightarrow> entry_at c1 u = Some e"
    unfolding keeps_def by blast
  with e offer_quant [OF o'] show ?thesis by blast
qed

lemma keeps_exact: "keeps E q c c1 \<Longrightarrow> entry_at c u = Some e \<Longrightarrow> exact_ok E ids q e \<Longrightarrow> entry_at c1 u = Some e"
  unfolding keeps_def exact_ok_def by blast

lemma judge_slot_keeps:
  assumes "pc_inv E c" "slot_of u c = Some i" "judge_slot E p i ids q b c = Some (c', v)"
  shows "keeps E q c c'"
proof (rule judge_slot_cases [OF assms])
  fix e d
  assume "\<forall>u' e'. entry_at c' u' = Some e' \<longrightarrow> entry_at c u' = Some e'"
    "\<forall>u' e'. entry_at c u' = Some e' \<and> en_kv_quant E e' = Some q \<longrightarrow> entry_at c' u' = Some e'"
  then show ?thesis unfolding keeps_def by blast
qed simp_all

definition judged ::
  "('e, 'l) entry_ops \<Rightarrow> reuse_policy \<Rightarrow> u32 list \<Rightarrow> kv_quant \<Rightarrow> (u64 \<times> nat) list \<Rightarrow> 'e prompt_cache \<Rightarrow>
   offers \<Rightarrow> 'e prompt_cache \<Rightarrow> offers \<Rightarrow> bool" where
  "judged E p ids q cs c os c' os' \<longleftrightarrow>
     keeps E q c c' \<and> set os \<subseteq> set os' \<and>
     (\<forall>u b k. (u, b, k) \<in> set os' \<longrightarrow> (u, b, k) \<in> set os \<or>
        (u, b) \<in> set cs \<and> (\<exists>e. entry_at c u = Some e \<and> entry_offer E p ids q b e = Some k)) \<and>
     (\<forall>u b e. (u, b) \<in> set cs \<and> entry_at c u = Some e \<longrightarrow>
        (\<forall>k. entry_offer E p ids q b e = Some k \<longrightarrow> (u, b, k) \<in> set os') \<and>
        (exact_ok E ids q e \<longrightarrow> (\<exists>err. en_deep_clone E e = Inl err)))"

lemma judged_Cons:
  assumes k: "keeps E q c c1" and r: "judged E p ids q cs c1 os1 c' os'"
    and os: "os1 = os \<or> (\<exists>k e. os1 = os @ [(u, b, k)] \<and> entry_at c u = Some e \<and> entry_offer E p ids q b e = Some k)"
    and h: "\<And>e. entry_at c u = Some e \<Longrightarrow>
        (\<forall>k. entry_offer E p ids q b e = Some k \<longrightarrow> (u, b, k) \<in> set os1) \<and>
        (exact_ok E ids q e \<longrightarrow> (\<exists>err. en_deep_clone E e = Inl err))"
  shows "judged E p ids q ((u, b) # cs) c os c' os'"
proof -
  have sub: "set os1 \<subseteq> set os'" using r by (simp add: judged_def)
  have bk: "\<And>u e. entry_at c1 u = Some e \<Longrightarrow> entry_at c u = Some e" using k unfolding keeps_def by blast
  show ?thesis
    unfolding judged_def
  proof (intro conjI allI impI)
    show "keeps E q c c'" using k r keeps_trans by (auto simp: judged_def)
    show "set os \<subseteq> set os'" using os sub by auto
  next
    fix u' b' k' assume o': "(u', b', k') \<in> set os'"
    have "(u', b', k') \<in> set os1 \<or> (u', b') \<in> set cs \<and> (\<exists>e. entry_at c1 u' = Some e \<and> entry_offer E p ids q b' e = Some k')"
      using r o' unfolding judged_def by blast
    then show "(u', b', k') \<in> set os \<or> (u', b') \<in> set ((u, b) # cs) \<and>
        (\<exists>e. entry_at c u' = Some e \<and> entry_offer E p ids q b' e = Some k')"
      using os bk by fastforce
  next
    fix u' b' e k' assume a: "(u', b') \<in> set ((u, b) # cs) \<and> entry_at c u' = Some e"
      and f: "entry_offer E p ids q b' e = Some k'"
    show "(u', b', k') \<in> set os'"
    proof (cases "(u', b') \<in> set cs")
      case True
      with a f keeps_offer [OF k] r show ?thesis unfolding judged_def by blast
    next
      case False
      with a h f sub show ?thesis by auto
    qed
  next
    fix u' b' e assume a: "(u', b') \<in> set ((u, b) # cs) \<and> entry_at c u' = Some e" and x: "exact_ok E ids q e"
    show "\<exists>err. en_deep_clone E e = Inl err"
    proof (cases "(u', b') \<in> set cs")
      case True
      with a x keeps_exact [OF k] r show ?thesis unfolding judged_def by blast
    next
      case False
      with a h x show ?thesis by auto
    qed
  qed
qed

lemma exact_no_offer: "exact_ok E ids q e \<Longrightarrow> entry_offer E p ids q b e = None"
  by (simp add: entry_offer_def)

definition judged_result ::
  "('e, 'l) entry_ops \<Rightarrow> reuse_policy \<Rightarrow> u32 list \<Rightarrow> kv_quant \<Rightarrow> (u64 \<times> nat) list \<Rightarrow> 'e prompt_cache \<Rightarrow>
   offers \<Rightarrow> 'e prompt_cache \<Rightarrow> 'e + decline option \<times> offers \<Rightarrow> bool" where
  "judged_result E p ids q cs c os c' r \<longleftrightarrow>
     (case r of
        Inl e \<Rightarrow> \<exists>u en. entry_at c u = Some en \<and> exact_ok E ids q en \<and> en_deep_clone E en = Inr e
      | Inr (fd', os') \<Rightarrow> judged E p ids q cs c os c' os')"

lemma judged_result_Cons:
  assumes k: "keeps E q c c1" and r: "judged_result E p ids q cs c1 os1 c' r"
    and os: "os1 = os \<or> (\<exists>k e. os1 = os @ [(u, b, k)] \<and> entry_at c u = Some e \<and> entry_offer E p ids q b e = Some k)"
    and h: "\<And>e. entry_at c u = Some e \<Longrightarrow>
        (\<forall>k. entry_offer E p ids q b e = Some k \<longrightarrow> (u, b, k) \<in> set os1) \<and>
        (exact_ok E ids q e \<longrightarrow> (\<exists>err. en_deep_clone E e = Inl err))"
  shows "judged_result E p ids q ((u, b) # cs) c os c' r"
proof (cases r)
  case (Inl e)
  with r obtain u' en where en: "entry_at c1 u' = Some en" "exact_ok E ids q en" "en_deep_clone E en = Inr e"
    by (auto simp: judged_result_def)
  from k en(1) have "entry_at c u' = Some en" by (rule keeps_back)
  with en(2,3) have "\<exists>u en. entry_at c u = Some en \<and> exact_ok E ids q en \<and> en_deep_clone E en = Inr e" by blast
  with Inl show ?thesis by (simp add: judged_result_def)
next
  case (Inr x)
  obtain fd' os' where x: "x = (fd', os')" by force
  with Inr r have "judged E p ids q cs c1 os1 c' os'" by (simp add: judged_result_def)
  from judged_Cons [OF k this os h] Inr x show ?thesis by (simp add: judged_result_def)
qed

lemma judge_candidates_judged:
  "pc_inv E c \<Longrightarrow> judge_candidates E p ids q n cs c fd os = Some (c', r) \<Longrightarrow>
     judged_result E p ids q cs c os c' r"
proof (induction cs arbitrary: c fd os)
  case Nil
  then have "c' = c" "r = Inr (fd, os)" by simp_all
  then show ?case by (simp add: judged_def judged_result_def)
next
  case (Cons ub cs)
  obtain u b where ub: "ub = (u, b)" by force
  show ?case
  proof (cases "slot_of u c")
    case None
    then have e: "entry_at c u = None" by (simp add: entry_at_def)
    from None Cons.prems ub have "judge_candidates E p ids q n cs c fd os = Some (c', r)" by simp
    note IH = Cons.IH [OF Cons.prems(1) this]
    show ?thesis unfolding ub by (rule judged_result_Cons [OF keeps_refl IH]) (simp_all add: e)
  next
    case (Some i)
    obtain c1 v where j: "judge_slot E p i ids q b c = Some (c1, v)"
      using judge_slot_total slot_of_lt [OF Some] by fastforce
    note inv1 = judge_slot_inv [OF Cons.prems(1) j]
    note kp = judge_slot_keeps [OF Cons.prems(1) Some j]
    show ?thesis
    proof (rule judge_slot_cases [OF Cons.prems(1) Some j])
      fix e assume c: "entry_at c u = Some e" "v = VExact" "c1 = c" "exact_ok E ids q e" "e = sl_entry (pc_slots c1 ! i)"
      show ?thesis
      proof (cases "en_deep_clone E e")
        case (Inr x)
        with c Some j Cons.prems ub have "r = Inl x" by auto
        with c(1,4) Inr show ?thesis unfolding judged_result_def by (simp only: sum.case) blast
      next
        case (Inl err)
        with c Some j Cons.prems ub have "judge_candidates E p ids q n cs c1 (or_insert fd (declined DeepCloneErr (DetError err))) os = Some (c', r)"
          by simp
        note IH = Cons.IH [OF inv1 this]
        show ?thesis unfolding ub
          by (rule judged_result_Cons [OF kp IH]) (use c Inl exact_no_offer [OF c(4)] in simp_all)
      qed
    next
      fix e k assume c: "entry_at c u = Some e" "v = VReuse k" "c1 = c" "entry_offer E p ids q b e = Some k"
      then have "judge_candidates E p ids q n cs c1 fd (os @ [(u, b, k)]) = Some (c', r)"
        using Some j Cons.prems ub by simp
      note IH = Cons.IH [OF inv1 this]
      have "\<not> exact_ok E ids q e" using c(4) exact_no_offer by fastforce
      then show ?thesis unfolding ub
        by (intro judged_result_Cons [OF kp IH]) (use c in auto)
    next
      fix e d assume c: "entry_at c u = Some e" "v = VDeclined d" "\<not> exact_ok E ids q e" "entry_offer E p ids q b e = None"
      then have "judge_candidates E p ids q n cs c1 (or_insert fd d) os = Some (c', r)"
        using Some j Cons.prems ub by simp
      note IH = Cons.IH [OF inv1 this]
      show ?thesis unfolding ub
        by (rule judged_result_Cons [OF kp IH]) (use c in simp_all)
    qed
  qed
qed

lemma take_offer_sound:
  assumes "take_offer E n os c fd = Inl (c', e, k)"
  shows "\<exists>u b en. (u, b, k) \<in> set os \<and> entry_at c u = Some en \<and> en_prepare_reuse E en k = Inr e"
  using assms
proof (induction os arbitrary: fd)
  case (Cons o' os)
  obtain u b k' where o': "o' = (u, b, k')" by (cases o') auto
  show ?case
  proof (cases "slot_of u c")
    case None
    with Cons o' show ?thesis by fastforce
  next
    case (Some i)
    then have en: "entry_at c u = Some (sl_entry (pc_slots c ! i))" by (simp add: entry_at_def)
    show ?thesis
    proof (cases "en_prepare_reuse E (sl_entry (pc_slots c ! i)) k'")
      case (Inl err)
      with Cons o' Some show ?thesis by fastforce
    next
      case (Inr x)
      with Cons.prems o' Some en show ?thesis by auto
    qed
  qed
qed simp

abbreviation offer_key :: "u64 \<times> nat \<times> reuse_kind \<Rightarrow> int" where
  "offer_key \<equiv> (\<lambda>(_, _, k). - int (reuse_prefix_len k))"

lemma take_offer_longest:
  assumes "sorted (map offer_key os)" "(u, b, k') \<in> set os" "entry_at c u = Some en"
    "en_prepare_reuse E en k' = Inr e'"
  shows "\<exists>c' e k. take_offer E n os c fd = Inl (c', e, k) \<and> reuse_prefix_len k' \<le> reuse_prefix_len k"
  using assms(1,2)
proof (induction os arbitrary: fd)
  case (Cons o' os)
  obtain v b' k where o': "o' = (v, b', k)" by (cases o') auto
  have le: "reuse_prefix_len k' \<le> reuse_prefix_len k"
    using Cons.prems o' by fastforce
  show ?case
  proof (cases "slot_of v c")
    case None
    then have "(u, b, k') \<in> set os" using Cons.prems(2) o' assms(3) by (auto simp: entry_at_def)
    with None Cons o' show ?thesis by simp
  next
    case (Some i)
    show ?thesis
    proof (cases "en_prepare_reuse E (sl_entry (pc_slots c ! i)) k")
      case (Inl err)
      then have "(u, b, k') \<in> set os" using Cons.prems(2) o' assms(3,4) Some by (auto simp: entry_at_def)
      with Inl Some Cons o' show ?thesis by simp
    next
      case (Inr x)
      with Some o' le show ?thesis by simp
    qed
  qed
qed simp

lemma sorted_offers: "sorted (map offer_key (sort_offers os))" "set (sort_offers os) = set os"
  by (simp_all add: sort_offers_def)

text \<open>The candidates are the slots that share a block, each with the blocks it shares.\<close>

definition cands :: "('e, 'l) entry_ops \<Rightarrow> u64 list \<Rightarrow> 'e prompt_cache \<Rightarrow> (u64 \<times> nat) set" where
  "cands E want c = {(u, leading_matches want (en_block_hashes E e)) | u e.
     entry_at c u = Some e \<and> 0 < leading_matches want (en_block_hashes E e)}"

lemma slot_scan_spec:
  "slot_scan E want i ss best = Some (j, b) \<Longrightarrow>
     best = Some (j, b) \<or>
     (\<exists>k < length ss. j = i + k \<and> b = leading_matches want (en_block_hashes E (sl_entry (ss ! k))) \<and> 0 < b)"
proof (induction ss arbitrary: i best)
  case (Cons s ss)
  let ?m = "leading_matches want (en_block_hashes E (sl_entry s))"
  show ?case
  proof (cases "?m > (case best of None \<Rightarrow> 0 | Some (_, blocks) \<Rightarrow> blocks)")
    case True
    then have pos: "0 < ?m" by simp
    from True Cons.prems have "slot_scan E want (Suc i) ss (Some (i, ?m)) = Some (j, b)" by (simp add: Let_def)
    from Cons.IH [OF this] pos show ?thesis by (auto intro: exI [of _ 0] exI [of _ "Suc _"])
  next
    case False
    with Cons.prems have "slot_scan E want (Suc i) ss best = Some (j, b)" by (simp add: Let_def)
    from Cons.IH [OF this] show ?thesis by (auto intro: exI [of _ "Suc _"])
  qed
qed simp

lemma best_match_spec:
  assumes inv: "pc_inv E c" and bm: "best_match E c ids seed = (want, Some (i, b))"
  shows "i < length (pc_slots c) \<and> b = leading_matches want (en_block_hashes E (sl_entry (pc_slots c ! i))) \<and> 0 < b"
proof -
  have scan: "slot_scan E want 0 (pc_slots c) None = Some (i, b) \<Longrightarrow> ?thesis"
    by (drule slot_scan_spec) auto
  have w: "want = chained_block_hashes_seeded ids seed" using bm by (simp add: best_match_def Let_def)
  show ?thesis
  proof (cases "pc_index_kind c")
    case Linear
    with bm scan w show ?thesis by (simp add: best_match_def Let_def)
  next
    case Radix
    with bm w obtain uid blocks where m: "ix_match_best want 0 (pc_index c) = Some (uid, blocks)"
      by (auto simp: best_match_def Let_def split: option.splits)
    show ?thesis
    proof (cases "slot_of uid c")
      case None
      with Radix m bm w scan show ?thesis by (simp add: best_match_def Let_def)
    next
      case (Some k)
      with Radix m bm w have "i = k" "b = blocks" by (simp_all add: best_match_def Let_def)
      note I = pc_invD [OF inv]
      from I(5) have ii: "ix_inv (pc_index c)" by (simp add: index_ok_def)
      from ix.best_Some [OF ii m] obtain ch where
        ch: "ix_abs (pc_index c) (ch, 0) = Some uid" "leading_matches want ch = blocks" "0 < blocks" by blast
      with I(5) obtain s where s: "s \<in> set (pc_slots c)" "sl_uid s = uid" "en_block_hashes E (sl_entry s) = ch"
        unfolding index_ok_def by blast
      with slot_of_lt [OF Some] I(3) have "pc_slots c ! k = s" by (metis distinct_map inj_on_eq_iff nth_mem)
      with s ch slot_of_lt [OF Some] \<open>i = k\<close> \<open>b = blocks\<close> show ?thesis by simp
    qed
  qed
qed

lemma cands_eq:
  assumes inv: "pc_inv E c" and i: "i < length (pc_slots c)"
    and b: "b = leading_matches want (en_block_hashes E (sl_entry (pc_slots c ! i)))" "0 < b"
  shows "set ((sl_uid (pc_slots c ! i), b) # other_matches E want (sl_uid (pc_slots c ! i)) c) = cands E want c"
proof -
  note d = pc_invD(3) [OF inv]
  let ?u = "sl_uid (pc_slots c ! i)" and ?m = "\<lambda>s. leading_matches want (en_block_hashes E (sl_entry s))"
  have one: "s = pc_slots c ! i" if "s \<in> set (pc_slots c)" "sl_uid s = ?u" for s
    using that i d by (metis distinct_map inj_on_eq_iff nth_mem)
  have om: "set (other_matches E want ?u c) = {(sl_uid s, ?m s) | s. s \<in> set (pc_slots c) \<and> sl_uid s \<noteq> ?u \<and> 0 < ?m s}"
    by (auto simp: other_matches_def)
  have "cands E want c = {(sl_uid s, ?m s) | s. s \<in> set (pc_slots c) \<and> 0 < ?m s}"
    unfolding cands_def entry_at_iff [OF d] by auto
  then show ?thesis using om one i b by auto
qed

text \<open>The decision among the candidates, as one statement.\<close>

lemma decide_among_spec:
  assumes inv: "pc_inv E c" and i: "i < length (pc_slots c)"
    and b: "b = leading_matches want (en_block_hashes E (sl_entry (pc_slots c ! i)))" "0 < b"
    and d: "decide_among E p ids q want i b c = Some (c', out)"
  shows "case out of
      Exact e \<Rightarrow> \<exists>u en. entry_at c u = Some en \<and> exact_ok E ids q en \<and> en_deep_clone E en = Inr e
    | Reuse e k \<Rightarrow>
        (\<exists>u b en. (u, b) \<in> cands E want c \<and> entry_at c u = Some en \<and> entry_offer E p ids q b en = Some k \<and>
           en_prepare_reuse E en k = Inr e) \<and>
        (\<forall>u b en k' e'. (u, b) \<in> cands E want c \<and> entry_at c u = Some en \<and> entry_offer E p ids q b en = Some k' \<and>
           en_prepare_reuse E en k' = Inr e' \<longrightarrow> reuse_prefix_len k' \<le> reuse_prefix_len k) \<and>
        (\<forall>u b en. (u, b) \<in> cands E want c \<and> entry_at c u = Some en \<and> exact_ok E ids q en \<longrightarrow>
           (\<exists>err. en_deep_clone E en = Inl err))
    | Miss _ \<Rightarrow>
        (\<forall>u b en. (u, b) \<in> cands E want c \<and> entry_at c u = Some en \<longrightarrow>
           (exact_ok E ids q en \<longrightarrow> (\<exists>err. en_deep_clone E en = Inl err)) \<and>
           (\<forall>k. entry_offer E p ids q b en = Some k \<longrightarrow> (\<exists>err. en_prepare_reuse E en k = Inl err)))"
proof -
  let ?uid = "sl_uid (pc_slots c ! i)"
  let ?cs = "(?uid, b) # other_matches E want ?uid c"
  note cs = cands_eq [OF inv i b]
  obtain c1 r where j: "judge_candidates E p ids q (length want) ?cs c None [] = Some (c1, r)"
    using d by (auto simp: decide_among_def Let_def split: option.splits simp del: judge_candidates.simps)
  note J = judge_candidates_judged [OF inv j]
  show ?thesis
  proof (cases r)
    case (Inl e)
    with d j have "out = Exact e" by (simp add: decide_among_def Let_def del: judge_candidates.simps)
    with J Inl show ?thesis by (simp add: judged_result_def)
  next
    case (Inr fo)
    obtain fd os where fo: "fo = (fd, os)" by force
    have "judged E p ids q ?cs c [] c1 os" using J Inr fo by (simp add: judged_result_def)
    then have kp: "keeps E q c c1"
      and sound: "\<And>u b k. (u, b, k) \<in> set os \<Longrightarrow> (u, b) \<in> cands E want c \<and>
        (\<exists>e. entry_at c u = Some e \<and> entry_offer E p ids q b e = Some k)"
      and compl: "\<And>u b e k. (u, b) \<in> cands E want c \<Longrightarrow> entry_at c u = Some e \<Longrightarrow>
        entry_offer E p ids q b e = Some k \<Longrightarrow> (u, b, k) \<in> set os"
      and noex: "\<And>u b e. (u, b) \<in> cands E want c \<Longrightarrow> entry_at c u = Some e \<Longrightarrow>
        exact_ok E ids q e \<Longrightarrow> \<exists>err. en_deep_clone E e = Inl err"
      unfolding judged_def cs by (simp, fastforce, blast, blast)
    have long: "\<exists>c' e k. take_offer E (length want) (sort_offers os) c1 fd = Inl (c', e, k) \<and>
        reuse_prefix_len k' \<le> reuse_prefix_len k"
      if "(u, b) \<in> cands E want c" "entry_at c u = Some en" "entry_offer E p ids q b en = Some k'"
        "en_prepare_reuse E en k' = Inr e'" for u b en k' e'
      using take_offer_longest [OF sorted_offers(1), of u b k' os c1 en E e' "length want" fd]
        compl [OF that(1-3)] keeps_offer [OF kp that(2,3)] that(4) sorted_offers(2) by blast
    show ?thesis
    proof (cases "take_offer E (length want) (sort_offers os) c1 fd")
      case (Inl t)
      obtain c2 e k where t: "t = (c2, e, k)" by (cases t) auto
      then have out: "out = Reuse e k"
        using Inl Inr fo d j \<open>r = Inr fo\<close> by (simp add: decide_among_def Let_def del: judge_candidates.simps)
      obtain u b' en where u: "(u, b', k) \<in> set os" "entry_at c1 u = Some en" "en_prepare_reuse E en k = Inr e"
        using take_offer_sound [of E "length want" "sort_offers os" c1 fd c2 e k] Inl t sorted_offers(2) by blast
      have "entry_at c u = Some en" using keeps_back [OF kp u(2)] .
      with sound [OF u(1)] u(3) have
        "\<exists>u b en. (u, b) \<in> cands E want c \<and> entry_at c u = Some en \<and> entry_offer E p ids q b en = Some k \<and>
           en_prepare_reuse E en k = Inr e" by fastforce
      moreover have "\<forall>u b en k' e'. (u, b) \<in> cands E want c \<and> entry_at c u = Some en \<and>
          entry_offer E p ids q b en = Some k' \<and> en_prepare_reuse E en k' = Inr e' \<longrightarrow>
          reuse_prefix_len k' \<le> reuse_prefix_len k"
        using long Inl t by fastforce
      moreover have "\<forall>u b en. (u, b) \<in> cands E want c \<and> entry_at c u = Some en \<and> exact_ok E ids q en \<longrightarrow>
          (\<exists>err. en_deep_clone E en = Inl err)" using noex by blast
      ultimately show ?thesis using out by (simp only: consumed.case)
    next
      case (Inr fd')
      with d j \<open>r = Inr fo\<close> fo obtain m where out: "out = Miss m"
        by (auto simp: decide_among_def Let_def simp del: judge_candidates.simps)
      have "\<exists>err. en_prepare_reuse E en k = Inl err"
        if "(u, b) \<in> cands E want c" "entry_at c u = Some en" "entry_offer E p ids q b en = Some k" for u b en k
        using long [OF that] Inr by (cases "en_prepare_reuse E en k") auto
      with noex have "\<forall>u b en. (u, b) \<in> cands E want c \<and> entry_at c u = Some en \<longrightarrow>
           (exact_ok E ids q en \<longrightarrow> (\<exists>err. en_deep_clone E en = Inl err)) \<and>
           (\<forall>k. entry_offer E p ids q b en = Some k \<longrightarrow> (\<exists>err. en_prepare_reuse E en k = Inl err))"
        by blast
      with out show ?thesis by (simp only: consumed.case)
    qed
  qed
qed

section \<open>Soundness and completeness of a consume\<close>

text \<open>
  \<open>digests_truthful\<close>: the blocks an entry's digests share with the request's are blocks the
  prompts share. It fails only for a collision of the 64-bit digests.
\<close>

definition digests_truthful :: "('e, 'l) entry_ops \<Rightarrow> u32 list \<Rightarrow> u64 \<Rightarrow> 'e \<Rightarrow> bool" where
  "digests_truthful E ids seed e \<longleftrightarrow>
     (let n = leading_matches (chained_block_hashes_seeded ids seed) (en_block_hashes E e) * BLOCK_TOKENS in
      n \<le> length (en_prompt_token_ids E e) \<and> take n ids = take n (en_prompt_token_ids E e))"

definition serves :: "('e, 'l) entry_ops \<Rightarrow> reuse_policy \<Rightarrow> u32 list \<Rightarrow> kv_quant \<Rightarrow> 'e consumed \<Rightarrow> bool" where
  "serves E p ids q out \<longleftrightarrow>
     (case out of
        Exact e \<Rightarrow> en_prompt_token_ids E e = ids \<and> en_kv_quant E e = Some q \<and> \<not> en_is_ssd_hydrated E e
      | Reuse e k \<Rightarrow> en_kv_quant E e = Some q \<and> reuse_prefix_len k < length ids \<and>
          reuse_prefix_len k \<le> length (en_prompt_token_ids E e) \<and>
          take (reuse_prefix_len k) ids = take (reuse_prefix_len k) (en_prompt_token_ids E e)
      | Miss _ \<Rightarrow> True)"

lemma want_of_best_match: "best_match E c ids seed = (want, m) \<Longrightarrow> want = chained_block_hashes_seeded ids seed"
  by (simp add: best_match_def Let_def)

lemma matched_blocks_le:
  "leading_matches (chained_block_hashes_seeded ids seed) hs * BLOCK_TOKENS \<le> length ids"
proof -
  have "leading_matches (chained_block_hashes_seeded ids seed) hs \<le> length ids div 256"
    using leading_matches_le [of "chained_block_hashes_seeded ids seed" hs] by simp
  then show ?thesis by (simp add: BLOCK_TOKENS_def less_eq_div_iff_mult_less_eq)
qed

lemma decide_among_serves:
  assumes E: "cache_entry E" and inv: "pc_inv E c" and bm: "best_match E c ids seed = (want, Some (i, b))"
    and t: "\<forall>s\<in>set (pc_slots c). digests_truthful E ids seed (sl_entry s)"
    and d: "decide_among E p ids q want i b c = Some (c', out)"
  shows "serves E p ids q out"
proof -
  note B = best_match_spec [OF inv bm]
  note W = want_of_best_match [OF bm]
  note S = decide_among_spec [OF inv _ _ _ d]
  have S: "case out of
      Exact e \<Rightarrow> \<exists>u en. entry_at c u = Some en \<and> exact_ok E ids q en \<and> en_deep_clone E en = Inr e
    | Reuse e k \<Rightarrow> \<exists>u b en. (u, b) \<in> cands E want c \<and> entry_at c u = Some en \<and>
        entry_offer E p ids q b en = Some k \<and> en_prepare_reuse E en k = Inr e
    | Miss _ \<Rightarrow> True"
    using S B by (simp split: consumed.splits)
  show ?thesis
  proof (cases out)
    case (Exact e)
    with S obtain en where "exact_ok E ids q en" "en_deep_clone E en = Inr e" by auto
    with cache_entry.clone_keeps [OF E, of en e] Exact show ?thesis by (auto simp: serves_def exact_ok_def)
  next
    case (Reuse e k)
    with S obtain u b en where o': "(u, b) \<in> cands E want c" "entry_at c u = Some en"
      "entry_offer E p ids q b en = Some k" "en_prepare_reuse E en k = Inr e" by auto
    then have bl: "b = leading_matches want (en_block_hashes E en)" by (auto simp: cands_def)
    from o'(2) obtain s where "s \<in> set (pc_slots c)" "sl_entry s = en"
      using entry_at_iff [OF pc_invD(3) [OF inv]] by blast
    with t have "digests_truthful E ids seed en" by blast
    then have tr: "b * BLOCK_TOKENS \<le> length (en_prompt_token_ids E en)"
      "take (b * BLOCK_TOKENS) ids = take (b * BLOCK_TOKENS) (en_prompt_token_ids E en)"
      using bl W by (simp_all add: digests_truthful_def Let_def)
    have le: "b * BLOCK_TOKENS \<le> length ids" using bl W matched_blocks_le by simp
    from o'(3) have "en_is_reusable_prefix_of E en ids (en_is_ssd_hydrated E en) b = Some k"
      "en_kv_quant E en = Some q" by (simp_all add: entry_offer_def split: if_splits)
    with cache_entry.reuse_covers [OF E this(1) le tr] cache_entry.prepare_keeps [OF E o'(4)] Reuse
    show ?thesis by (simp add: serves_def)
  qed (simp add: serves_def)
qed

lemma push_slots_subset:
  assumes "pc_inv E c" "push_bounds E e c" "push E e c = Some (c', r)"
  shows "sl_entry ` set (pc_slots c') \<subseteq> insert e (sl_entry ` set (pc_slots c))"
proof (cases "push_admits E e c")
  case True
  from push_spec [OF assms(1) True assms(2)] assms(3) obtain c1 ev where
    "push_slot E e c1 = (c', r)" "evicted c ev c1" by (metis option.inject)
  then have "pc_slots c' = pc_slots c1 @ [\<lparr>sl_entry = e, sl_last_used_seq = pc_seq c1 + 1, sl_uid = pc_next_slot_uid c1 + 1\<rparr>]"
    "mset (pc_slots c) = mset ev + mset (pc_slots c1)"
    by (auto simp: push_slot_def Let_def evicted_def)
  moreover from this(2) have "set (pc_slots c1) \<subseteq> set (pc_slots c)"
    by (metis mset_subset_eq_add_right set_mset_mono set_mset_mset)
  ultimately show ?thesis by auto
next
  case False
  with assms(3) push_refused show ?thesis by fastforce
qed

lemma record_None_slots [simp]: "pc_slots (record_lookup None w c) = pc_slots c"
  by (simp add: record_lookup_def Let_def)

lemma hydrate_slots_subset:
  assumes "pc_inv E c" "source_bounds E src ids seed q lq c"
    and "hydrate_from_ssd E src ids seed q lq c = Some (c', r)"
  shows "sl_entry ` set (pc_slots c') \<subseteq>
    sl_entry ` set (pc_slots c) \<union> {e. src ids seed q lq = Inr (Some e)}"
proof -
  have "sl_entry ` set (pc_slots c'') \<subseteq> insert e (sl_entry ` set (pc_slots c))"
    if "push E e c = Some (c'', x)" "src ids seed q lq = Inr (Some e)" for e c'' x
    using push_slots_subset [OF assms(1) _ that(1)] that(2) assms(2) by (simp add: source_bounds_def)
  with assms(3) show ?thesis
    by (fastforce simp: hydrate_from_ssd_def split: if_splits sum.splits option.splits prod.splits)
qed

text \<open>C12: What a consume hands out is right. On a reachable cache, an Exact answer is an entry
  for exactly this prompt, of exactly this codec, that was not restored from the SSD tier;
  a Reuse answer is an entry of this codec whose first \<open>prefix_len\<close> tokens are the request's,
  and it leaves at least one token to prefill. Entries meet the trait's contract
  (\<open>cache_entry\<close>, which the three models of it satisfy), and digests do not collide.
\<close>

theorem consume_sound:
  assumes "cache_entry E" "pc_reach E c" "source_bounds E src ids seed q lq c"
    and "\<forall>s\<in>set (pc_slots c). digests_truthful E ids seed (sl_entry s)"
    and "\<forall>e. src ids seed q lq = Inr (Some e) \<longrightarrow> digests_truthful E ids seed e"
    and "decide_locked E src p ids q lq seed c = Some (c', out)"
  shows "serves E p ids q out"
proof -
  note inv = pc_reach_inv [OF assms(2)]
  obtain want m where bm: "best_match E c ids seed = (want, m)" by force
  show ?thesis
  proof (cases m)
    case (Some ib)
    obtain i b where "ib = (i, b)" by force
    with Some bm assms(6) decide_among_serves [OF assms(1) inv _ assms(4)] show ?thesis
      by (simp add: decide_locked_def)
  next
    case None
    let ?c1 = "record_lookup None (length want) c"
    have inv1: "pc_inv E ?c1" using inv by (intro record_lookup_inv) simp_all
    have sb1: "source_bounds E src ids seed q lq ?c1" using assms(3) by (simp add: source_bounds_def)
    obtain c2 r where h: "hydrate_from_ssd E src ids seed q lq ?c1 = Some (c2, r)"
      using assms(6) None bm by (auto simp: decide_locked_def Let_def split: option.splits)
    note inv2 = hydrate_inv [OF inv1 sb1 h]
    have t2: "\<forall>s\<in>set (pc_slots c2). digests_truthful E ids seed (sl_entry s)"
      using hydrate_slots_subset [OF inv1 sb1 h] assms(4,5) by fastforce
    obtain want' m' where bm': "best_match E c2 ids seed = (want', m')" by force
    show ?thesis
      using assms(6) None bm h bm' decide_among_serves [OF assms(1) inv2 _ t2]
      by (cases r; cases m') (auto simp: decide_locked_def Let_def serves_def)
  qed
qed

text \<open>C21: A consume takes the best of what its lookup reaches. When the index lookup finds a
  slot, every slot that shares a block with the request was asked: the answer is Exact if some
  such slot is exact and can be cloned, otherwise a Reuse at least as long as any that a slot
  offers and can prepare; it is a Miss only when no such slot can serve. Slots
  that the index no longer finds are outside of this.
\<close>

theorem consume_takes_best:
  assumes "pc_reach E c" "best_match E c ids seed = (want, Some (i, b))"
    and "decide_locked E src p ids q lq seed c = Some (c', out)"
    and "s \<in> set (pc_slots c)" "n = leading_matches want (en_block_hashes E (sl_entry s))" "0 < n"
  shows "(exact_ok E ids q (sl_entry s) \<and> en_deep_clone E (sl_entry s) = Inr e \<longrightarrow> (\<exists>x. out = Exact x)) \<and>
    (entry_offer E p ids q n (sl_entry s) = Some k \<and> en_prepare_reuse E (sl_entry s) k = Inr e \<longrightarrow>
       (\<exists>x. out = Exact x) \<or> (\<exists>x k'. out = Reuse x k' \<and> reuse_prefix_len k \<le> reuse_prefix_len k'))"
proof -
  note inv = pc_reach_inv [OF assms(1)]
  have d: "decide_among E p ids q want i b c = Some (c', out)"
    using assms(2,3) by (simp add: decide_locked_def)
  have e: "entry_at c (sl_uid s) = Some (sl_entry s)"
    using entry_at_iff [OF pc_invD(3) [OF inv]] assms(4) by blast
  have cd: "(sl_uid s, n) \<in> cands E want c" using e assms(5,6) by (auto simp: cands_def)
  note B = best_match_spec [OF inv assms(2)]
  from decide_among_spec [OF inv _ _ _ d] B cd e show ?thesis
    by (cases out) fastforce+
qed

end
