(* ===== verification/PromptCacheSamples.thy ===== *)
theory PromptCacheSamples
  imports PromptCacheProps
begin

text \<open>
  A one-slot cache that stores one Gemma4 entry for a prompt of 300 tokens, the instances
  of the prompt-cache properties on it, and the two-slot cache whose radix index loses a
  resident slot.
\<close>

section \<open>A sample cache\<close>

definition sample_ids :: "u32 list" where "sample_ids = replicate 300 7"

definition sample_layer :: "(nat, nat) kv_layer" where
  "sample_layer = \<lparr>kl_offset = 300, kl_rotating = None, kl_storage_none = False, kl_fp16_k = True,
     kl_fp16_v = True, kl_holds_pages = False, kl_bytes_at = (\<lambda>n. 40)\<rparr>"

definition sample_entry :: "(nat, nat, nat) gemma4_entry" where
  "sample_entry = \<lparr>g4_prompt_token_ids = sample_ids,
     g4_block_hashes = chained_block_hashes_seeded sample_ids 5, g4_kv_caches = [sample_layer],
     g4_first_id = 1, g4_first_piece = ''a'', g4_first_logprobs = None, g4_kv_quant = Some K8V8,
     g4_is_ssd_hydrated = False\<rparr>"

abbreviation "sample_ops \<equiv> (gemma4_ops :: ((nat, nat, nat) gemma4_entry, nat) entry_ops)"

definition sample_slot :: "nat \<Rightarrow> u64 \<Rightarrow> (nat, nat, nat) gemma4_entry slot" where
  "sample_slot n u = \<lparr>sl_entry = sample_entry, sl_last_used_seq = n, sl_uid = u\<rparr>"

definition sample_cache :: "(nat, nat, nat) gemma4_entry prompt_cache" where
  "sample_cache = fst (push_slot sample_ops sample_entry (pc_with_max_bytes (Some Linear) 1 100))"

lemma sample_bytes [simp]: "en_kv_bytes sample_ops sample_entry = 40"
  by (simp add: gemma4_ops_def sample_entry_def sample_layer_def kv_bytes_of_def kl_resident_bytes_def)

lemma sample_hashes: "length (en_block_hashes sample_ops sample_entry) = 1"
  by (simp add: gemma4_ops_def sample_entry_def sample_ids_def)

lemma sample_push: "push sample_ops sample_entry (pc_with_max_bytes (Some Linear) 1 100) = Some (sample_cache, Some 0)"
  by (simp add: push_def sample_cache_def pc_with_max_bytes_def Let_def slot_bytes_def push_slot_def)

lemma sample_push_bounds: "unat (pc_next_slot_uid c) < 2 ^ 64 - 1 \<Longrightarrow> push_bounds sample_ops sample_entry c"
  unfolding push_bounds_def by (simp only: sample_hashes) (simp add: U32_MAX_def)

lemma sample_new_bounds: "push_bounds sample_ops sample_entry (pc_with_max_bytes kc cap mx)"
  by (rule sample_push_bounds) (simp add: pc_with_max_bytes_def)

lemma sample_reach: "pc_reach sample_ops sample_cache"
  by (rule pr_push [OF pr_new sample_new_bounds sample_push])

lemma sample_slots: "pc_slots sample_cache = [sample_slot 1 1]"
  by (simp add: sample_cache_def push_slot_def Let_def sample_slot_def pc_with_max_bytes_def)

lemma sample_index: "ix_match_best (en_block_hashes sample_ops sample_entry) 0 (pc_index sample_cache) = Some (1, 1)"
proof -
  obtain h where h: "en_block_hashes sample_ops sample_entry = [h]"
    using sample_hashes by (auto simp: length_Suc_conv)
  then show ?thesis
    by (simp add: sample_cache_def push_slot_def pc_with_max_bytes_def Let_def build_active_index_def
        active_prefix_index_kind_def ix_insert_def ix_match_best_def linear_new_def linear_insert_def
        linear_position_def linear_match_best_def)
qed

theorem cache_caps_hold_witness:
  "slot_bytes sample_ops (pc_slots sample_cache) \<le> 100 \<and>
   (\<exists>i. slot_of 1 sample_cache = Some i \<and>
      leading_matches (en_block_hashes sample_ops sample_entry)
        (en_block_hashes sample_ops (sl_entry (pc_slots sample_cache ! i))) = 1)"
proof -
  have "pc_max_bytes sample_cache = 100"
    by (simp add: sample_cache_def push_slot_def Let_def pc_with_max_bytes_def)
  with cache_caps_hold [OF sample_reach, of _ 1 1] sample_index show ?thesis by force
qed

theorem push_exact_witness:
  "\<exists>c' ev. push sample_ops sample_entry sample_cache = Some (c', Some (length (pc_slots c') - 1)) \<and>
     mset (pc_slots sample_cache) = mset ev + mset (butlast (pc_slots c'))"
proof -
  have "unat (pc_next_slot_uid sample_cache) < 2 ^ 64 - 1"
    by (simp add: sample_cache_def push_slot_def Let_def pc_with_max_bytes_def)
  moreover have "push_admits sample_ops sample_entry sample_cache"
    by (simp add: push_admits_def) (simp add: sample_cache_def push_slot_def Let_def pc_with_max_bytes_def)
  ultimately show ?thesis
    using push_exact [OF sample_reach _ sample_push_bounds] by blast
qed

definition no_source :: "'e ssd_source" where "no_source _ _ _ _ = Inr None"

lemma no_source_bounds: "source_bounds E no_source ids seed q lq c"
  by (simp add: source_bounds_def no_source_def)

lemma sample_uid: "pc_next_slot_uid sample_cache = 1"
  by (simp add: sample_cache_def push_slot_def Let_def pc_with_max_bytes_def)

theorem prompt_cache_no_panic_witness:
  "push sample_ops sample_entry sample_cache \<noteq> None \<and>
   decide_locked sample_ops no_source Partial sample_ids K8V8 [] 5 sample_cache \<noteq> None"
proof -
  have "push_bounds sample_ops sample_entry sample_cache"
    by (rule sample_push_bounds) (simp add: sample_uid)
  with prompt_cache_no_panic [OF sample_reach _ no_source_bounds] show ?thesis by blast
qed

lemma sample_match:
  "best_match sample_ops sample_cache (sample_ids @ xs) 5 =
     (chained_block_hashes_seeded (sample_ids @ xs) 5,
      (let n = leading_matches (chained_block_hashes_seeded (sample_ids @ xs) 5)
         (en_block_hashes sample_ops sample_entry) in if n = 0 then None else Some (0, n)))"
proof -
  have "pc_index_kind sample_cache = Linear"
    by (simp add: sample_cache_def push_slot_def Let_def pc_with_max_bytes_def active_prefix_index_kind_def)
  then show ?thesis
    by (simp add: best_match_def Let_def sample_slots sample_slot_def)
qed

lemma sample_prefix:
  "length xs < 212 \<Longrightarrow> leading_matches (chained_block_hashes_seeded (sample_ids @ xs) 5)
         (en_block_hashes sample_ops sample_entry) = 1"
proof -
  assume "length xs < 212"
  then have "(300 + length xs) div 256 = 1" by linarith
  then have eq: "chained_block_hashes_seeded (sample_ids @ xs) 5 = chained_block_hashes_seeded sample_ids 5"
    by (simp add: chained_block_hashes_seeded_def block_digests_def sample_ids_def block_slice_def
        BLOCK_TOKENS_def)
  show ?thesis using sample_hashes unfolding eq
    by (simp add: sample_entry_def gemma4_ops_def)
qed

definition sample_request :: "u32 list" where "sample_request = sample_ids @ [8]"

lemma sample_truthful: "\<forall>s\<in>set (pc_slots sample_cache). digests_truthful sample_ops sample_request 5 (sl_entry s)"
  using sample_prefix [of "[8]"]
  by (simp add: sample_slots sample_slot_def digests_truthful_def sample_request_def BLOCK_TOKENS_def)
     (simp add: sample_entry_def gemma4_ops_def sample_ids_def)

theorem consume_sound_witness:
  "\<exists>c' out. decide_locked sample_ops no_source Partial sample_request K8V8 [] 5 sample_cache = Some (c', out) \<and>
     serves sample_ops Partial sample_request K8V8 out"
proof -
  obtain c' out where d: "decide_locked sample_ops no_source Partial sample_request K8V8 [] 5 sample_cache = Some (c', out)"
    using decide_locked_total [OF pc_reach_inv [OF sample_reach] no_source_bounds] by fastforce
  have "serves sample_ops Partial sample_request K8V8 out"
    by (rule consume_sound [OF gemma4.cache_entry_axioms sample_reach no_source_bounds sample_truthful _ d])
       (simp add: no_source_def)
  with d show ?thesis by blast
qed

lemma sample_offer: "entry_offer sample_ops Partial sample_request K8V8 1 sample_entry = Some (StrictPrefix 300)"
  "\<exists>e. en_prepare_reuse sample_ops sample_entry (StrictPrefix 300) = Inr e"
  by (simp_all add: entry_offer_def exact_ok_def gemma4_ops_def sample_entry_def sample_request_def sample_ids_def
    g4_is_reusable_prefix_of_def is_strict_prefix_of_def BLOCK_TOKENS_def g4_deep_clone_def sample_layer_def
    kl_deep_clone_def Let_def)

theorem consume_takes_best_witness:
  "\<exists>c' out. decide_locked sample_ops no_source Partial sample_request K8V8 [] 5 sample_cache = Some (c', out) \<and>
     ((\<exists>x. out = Exact x) \<or> (\<exists>x k. out = Reuse x k \<and> 300 \<le> reuse_prefix_len k))"
proof -
  obtain c' out where d: "decide_locked sample_ops no_source Partial sample_request K8V8 [] 5 sample_cache = Some (c', out)"
    using decide_locked_total [OF pc_reach_inv [OF sample_reach] no_source_bounds] by fastforce
  have m: "best_match sample_ops sample_cache sample_request 5 =
      (chained_block_hashes_seeded sample_request 5, Some (0, 1))"
    using sample_match [of "[8]"] sample_prefix [of "[8]"] by (simp add: sample_request_def Let_def)
  have s: "sample_slot 1 1 \<in> set (pc_slots sample_cache)" "sl_entry (sample_slot 1 1) = sample_entry"
    by (simp_all add: sample_slots sample_slot_def)
  have n: "1 = leading_matches (chained_block_hashes_seeded sample_request 5)
      (en_block_hashes sample_ops (sl_entry (sample_slot 1 1)))"
    using sample_prefix [of "[8]"] s(2) by (simp add: sample_request_def)
  from sample_offer consume_takes_best [OF sample_reach m d s(1) n] s(2) d show ?thesis by force
qed

section \<open>A resident slot the radix index loses\<close>

definition short_entry :: "(nat, nat, nat) gemma4_entry" where
  "short_entry = sample_entry\<lparr>g4_prompt_token_ids := [3], g4_block_hashes := chained_block_hashes_seeded [3] 5\<rparr>"

lemma short_hashes: "en_block_hashes sample_ops short_entry = []"
  by (simp add: gemma4_ops_def short_entry_def chained_block_hashes_seeded_def block_digests_def BLOCK_TOKENS_def)

lemma short_bytes [simp]: "en_kv_bytes sample_ops short_entry = 40"
  by (simp add: gemma4_ops_def sample_entry_def short_entry_def sample_layer_def kv_bytes_of_def kl_resident_bytes_def)

abbreviation "radix_cache \<equiv> (pc_with_max_bytes (Some Radix) 2 100 :: (nat, nat, nat) gemma4_entry prompt_cache)"

definition twice :: "(nat, nat, nat) gemma4_entry prompt_cache" where
  "twice = fst (push_slot sample_ops sample_entry (fst (push_slot sample_ops sample_entry radix_cache)))"

definition forgetful :: "(nat, nat, nat) gemma4_entry prompt_cache" where
  "forgetful = fst (push_slot sample_ops short_entry (evict_lru sample_ops 0 twice))"

lemma radix_pushes:
  "push sample_ops sample_entry radix_cache = Some (fst (push_slot sample_ops sample_entry radix_cache), Some 0)"
  "push sample_ops sample_entry (fst (push_slot sample_ops sample_entry radix_cache)) = Some (twice, Some 1)"
  "push sample_ops short_entry twice = Some (forgetful, Some 1)"
  by (simp_all add: push_def pc_with_max_bytes_def Let_def slot_bytes_def push_slot_def twice_def forgetful_def
      lru_slot_index_def evict_lru_def bump_evictions_def spill_evicted_def remove_slot_def swap_remove_def
      eval_nat_numeral)

lemma forgetful_reach: "pc_reach sample_ops forgetful"
proof -
  have b: "push_bounds sample_ops sample_entry (fst (push_slot sample_ops sample_entry radix_cache))"
    "push_bounds sample_ops short_entry twice"
    by (rule sample_push_bounds) (simp_all add: push_bounds_def short_hashes U32_MAX_def push_slot_def Let_def
        pc_with_max_bytes_def twice_def)
  show ?thesis
    by (rule pr_push [OF pr_push [OF pr_push [OF pr_new sample_new_bounds radix_pushes(1)]
          b(1) radix_pushes(2)] b(2) radix_pushes(3)])
qed

lemma forgetful_slots:
  "pc_slots forgetful = [sample_slot 2 2, \<lparr>sl_entry = short_entry, sl_last_used_seq = 3, sl_uid = 3\<rparr>]"
  by (simp add: forgetful_def push_slot_def evict_lru_def bump_evictions_def spill_evicted_def remove_slot_def
      swap_remove_def twice_def pc_with_max_bytes_def Let_def sample_slot_def)

lemma forgetful_index: "ix_inv (pc_index forgetful) \<and> ix_abs (pc_index forgetful) = Map.empty"
proof -
  obtain h where h: "en_block_hashes sample_ops sample_entry = [h]"
    using sample_hashes by (auto simp: length_Suc_conv)
  let ?i0 = "build_active_index (Some Radix)"
  let ?i1 = "ix_insert [h] 0 1 ?i0"
  let ?i2 = "ix_insert [h] 0 2 ?i1"
  have 1: "ix_inv ?i1 \<and> ix_abs ?i1 = [([h], 0) \<mapsto> 1]"
    using ix.abs_ins [of ?i0 "[h]" 0 1] ix.invar_empt [of "Some Radix"] ix.abs_empt [of "Some Radix"]
    by (simp add: index_fresh_def U32_MAX_def)
  then have 2: "ix_inv ?i2 \<and> ix_abs ?i2 = [([h], 0) \<mapsto> 2]"
    using ix.abs_ins [of ?i1 "[h]" 0 2] by (simp add: index_fresh_def U32_MAX_def)
  have 3: "ix_inv (ix_remove [h] 0 ?i2) \<and> ix_abs (ix_remove [h] 0 ?i2) = Map.empty"
    using ix.abs_rem [of ?i2 "[h]" 0] 2 by (simp add: U32_MAX_def)
  have "pc_index forgetful = ix_remove [h] 0 ?i2"
    by (simp add: forgetful_def push_slot_def evict_lru_def bump_evictions_def spill_evicted_def remove_slot_def
      swap_remove_def twice_def pc_with_max_bytes_def Let_def short_hashes h ix.ins_nil)
  with 3 show ?thesis by simp
qed

text \<open>The radix index can lose a resident slot. Two snapshots of one prompt share a digest
  chain, and the index keeps one slot id per chain; evicting the older one removes the
  chain. The newer one is still resident, and the linear lookup finds it, but the radix
  lookup answers that nothing matches.
\<close>

theorem radix_forgets_resident:
  "\<exists>c s. pc_reach sample_ops c \<and> s \<in> set (pc_slots c) \<and>
     en_prompt_token_ids sample_ops (sl_entry s) = sample_ids \<and>
     snd (best_match sample_ops c sample_ids 5) = None \<and>
     snd (best_match sample_ops (c\<lparr>pc_index_kind := Linear\<rparr>) sample_ids 5) = Some (0, 1)"
proof (intro exI conjI)
  show "pc_reach sample_ops forgetful" by (rule forgetful_reach)
  show "sample_slot 2 2 \<in> set (pc_slots forgetful)" by (simp add: forgetful_slots)
  show "en_prompt_token_ids sample_ops (sl_entry (sample_slot 2 2)) = sample_ids"
    by (simp add: sample_slot_def sample_entry_def gemma4_ops_def)
  have k: "pc_index_kind forgetful = Radix"
    by (simp add: forgetful_def push_slot_def evict_lru_def bump_evictions_def spill_evicted_def remove_slot_def
      twice_def pc_with_max_bytes_def Let_def active_prefix_index_kind_def)
  have "ix_match_best want 0 (pc_index forgetful) = None" for want
    using ix.best_None [of "pc_index forgetful" want 0] forgetful_index by (simp add: shared_def)
  with k show "snd (best_match sample_ops forgetful sample_ids 5) = None"
    by (simp add: best_match_def Let_def)
  show "snd (best_match sample_ops (forgetful\<lparr>pc_index_kind := Linear\<rparr>) sample_ids 5) = Some (0, 1)"
    using sample_prefix [of "[]"]
    by (simp add: best_match_def Let_def forgetful_slots sample_slot_def short_hashes)
qed
end
