(* ===== verification/JsonGrammar.thy ===== *)
theory JsonGrammar
  imports Prelude
begin

text \<open>
  The free-form JSON automaton of \<^verbatim>\<open>rmlx-server/src/constraint_json/mod.rs\<close>
  (\<^verbatim>\<open>JsonGrammar\<close>): its states, the byte sets it offers and its step function. The stack is a
  list with the innermost frame first. A step returns the new grammar and whether the byte
  was accepted: \<^verbatim>\<open>step\<close> takes \<^verbatim>\<open>&mut self\<close> and its callers go on using the value after an
  error, so the changes an error leaves behind are part of the result.
\<close>

section \<open>Bytes\<close>

abbreviation "b_quote \<equiv> 0x22 :: u8"
abbreviation "b_backslash \<equiv> 0x5C :: u8"
abbreviation "b_lbrace \<equiv> 0x7B :: u8"
abbreviation "b_rbrace \<equiv> 0x7D :: u8"
abbreviation "b_lbracket \<equiv> 0x5B :: u8"
abbreviation "b_rbracket \<equiv> 0x5D :: u8"
abbreviation "b_colon \<equiv> 0x3A :: u8"
abbreviation "b_comma \<equiv> 0x2C :: u8"
abbreviation "b_minus \<equiv> 0x2D :: u8"
abbreviation "b_u \<equiv> 0x75 :: u8"

text \<open>The bytes of an ASCII literal, \<^verbatim>\<open>b"..."\<close>.\<close>

definition ascii :: "string \<Rightarrow> u8 list" where
  "ascii s = map of_char s"

definition WS :: "u8 list" where "WS = [0x20, 0x09, 0x0A, 0x0D]"

definition MAX_INSIGNIFICANT_WS_RUN :: nat where "MAX_INSIGNIFICANT_WS_RUN = 64"

definition is_digit :: "u8 \<Rightarrow> bool" where "is_digit b \<longleftrightarrow> 0x30 \<le> b \<and> b \<le> 0x39"

definition is_hex :: "u8 \<Rightarrow> bool" where
  "is_hex b \<longleftrightarrow> is_digit b \<or> 0x61 \<le> b \<and> b \<le> 0x66 \<or> 0x41 \<le> b \<and> b \<le> 0x46"

text \<open>\<^verbatim>\<open>b".eE+-"\<close> and \<^verbatim>\<open>b"\"\\/bfnrt"\<close>.\<close>

definition NUM_MARKS :: "u8 list" where "NUM_MARKS = [0x2E, 0x65, 0x45, 0x2B, 0x2D]"

definition ESCAPES :: "u8 list" where
  "ESCAPES = [0x22, 0x5C, 0x2F, 0x62, 0x66, 0x6E, 0x72, 0x74]"

section \<open>The automaton\<close>

datatype literal_kind = LitTrue | LitFalse | LitNull

fun literal_bytes :: "literal_kind \<Rightarrow> u8 list" where
  "literal_bytes LitTrue = [0x74, 0x72, 0x75, 0x65]"
| "literal_bytes LitFalse = [0x66, 0x61, 0x6C, 0x73, 0x65]"
| "literal_bytes LitNull = [0x6E, 0x75, 0x6C, 0x6C]"

datatype json_state =
    Start
  | InString bool
  | InStringEscape bool
  | InStringUnicode bool nat
  | InNumber
  | InLiteral literal_kind nat
  | ObjectExpectKeyOrEnd bool
  | ObjectExpectColon
  | ArrayExpectValueOrEnd bool
  | AfterValue
  | Done

datatype json_frame = ObjectFrame | ArrayFrame

record json_grammar =
  jg_state :: json_state
  jg_stack :: "json_frame list"
  jg_ws_run :: nat

definition jg_new :: json_grammar where
  "jg_new = \<lparr>jg_state = Start, jg_stack = [], jg_ws_run = 0\<rparr>"

definition jg_is_done :: "json_grammar \<Rightarrow> bool" where
  "jg_is_done g \<longleftrightarrow> jg_state g = Done \<or> jg_state g = InNumber \<and> jg_stack g = []"

definition in_object :: "json_grammar \<Rightarrow> bool" where
  "in_object g \<longleftrightarrow> (case jg_stack g of ObjectFrame # _ \<Rightarrow> True | _ \<Rightarrow> False)"

definition in_array :: "json_grammar \<Rightarrow> bool" where
  "in_array g \<longleftrightarrow> (case jg_stack g of ArrayFrame # _ \<Rightarrow> True | _ \<Rightarrow> False)"

definition value_starter :: "u8 \<Rightarrow> bool" where
  "value_starter b \<longleftrightarrow> b \<in> set [0x7B, 0x5B, 0x22, 0x74, 0x66, 0x6E, 0x2D] \<or> is_digit b"

definition allowed_bytes :: "json_grammar \<Rightarrow> u8 \<Rightarrow> bool" where
  "allowed_bytes g b \<longleftrightarrow>
     (case jg_state g of
        Start \<Rightarrow> b \<in> set WS \<or> value_starter b
      | ArrayExpectValueOrEnd just_after_comma \<Rightarrow>
          b \<in> set WS \<or> value_starter b \<or> \<not> just_after_comma \<and> b = b_rbracket
      | InString _ \<Rightarrow> 0x20 \<le> b
      | InStringEscape _ \<Rightarrow> b \<in> set ESCAPES \<or> b = b_u
      | InStringUnicode _ _ \<Rightarrow> is_hex b
      | InNumber \<Rightarrow> is_digit b \<or> b \<in> set NUM_MARKS \<or> b \<in> set WS \<or>
          (if in_object g then b = b_comma \<or> b = b_rbrace
           else if in_array g then b = b_comma \<or> b = b_rbracket else False)
      | InLiteral which pos \<Rightarrow> pos < length (literal_bytes which) \<and> b = literal_bytes which ! pos
      | ObjectExpectKeyOrEnd just_after_comma \<Rightarrow>
          b \<in> set WS \<or> b = b_quote \<or> \<not> just_after_comma \<and> b = b_rbrace
      | ObjectExpectColon \<Rightarrow> b \<in> set WS \<or> b = b_colon
      | AfterValue \<Rightarrow> b \<in> set WS \<or>
          (case jg_stack g of
             ObjectFrame # _ \<Rightarrow> b = b_comma \<or> b = b_rbrace
           | ArrayFrame # _ \<Rightarrow> b = b_comma \<or> b = b_rbracket
           | [] \<Rightarrow> False)
      | Done \<Rightarrow> b \<in> set WS) \<and>
     \<not> (jg_ws_run g \<ge> MAX_INSIGNIFICANT_WS_RUN \<and> b \<in> set WS)"

definition enter_value :: "u8 \<Rightarrow> json_grammar \<Rightarrow> json_grammar \<times> bool" where
  "enter_value b g =
     (if b = b_lbrace then
        (g\<lparr>jg_stack := ObjectFrame # jg_stack g, jg_state := ObjectExpectKeyOrEnd False\<rparr>, True)
      else if b = b_lbracket then
        (g\<lparr>jg_stack := ArrayFrame # jg_stack g, jg_state := ArrayExpectValueOrEnd False\<rparr>, True)
      else if b = b_quote then (g\<lparr>jg_state := InString False\<rparr>, True)
      else if b = 0x74 then (g\<lparr>jg_state := InLiteral LitTrue 1\<rparr>, True)
      else if b = 0x66 then (g\<lparr>jg_state := InLiteral LitFalse 1\<rparr>, True)
      else if b = 0x6E then (g\<lparr>jg_state := InLiteral LitNull 1\<rparr>, True)
      else if b = b_minus \<or> is_digit b then (g\<lparr>jg_state := InNumber\<rparr>, True)
      else (g, False))"

definition transit_value_complete :: "json_grammar \<Rightarrow> json_grammar" where
  "transit_value_complete g = g\<lparr>jg_state := (if jg_stack g = [] then Done else AfterValue)\<rparr>"

definition close_number :: "json_grammar \<Rightarrow> json_grammar" where
  "close_number g = transit_value_complete g"

definition close_container :: "json_frame \<Rightarrow> json_grammar \<Rightarrow> json_grammar \<times> bool" where
  "close_container expected g =
     (case jg_stack g of
        [] \<Rightarrow> (g, False)
      | f # fs \<Rightarrow>
          let g' = g\<lparr>jg_stack := fs\<rparr> in
          if f = expected then (transit_value_complete g', True) else (g', False))"

definition handle_after_value :: "u8 \<Rightarrow> json_grammar \<Rightarrow> json_grammar \<times> bool" where
  "handle_after_value b g =
     (case jg_stack g of
        [] \<Rightarrow> (g, False)
      | ObjectFrame # _ \<Rightarrow>
          if b = b_comma then (g\<lparr>jg_state := ObjectExpectKeyOrEnd True\<rparr>, True)
          else if b = b_rbrace then close_container ObjectFrame g else (g, False)
      | ArrayFrame # _ \<Rightarrow>
          if b = b_comma then (g\<lparr>jg_state := ArrayExpectValueOrEnd True\<rparr>, True)
          else if b = b_rbracket then close_container ArrayFrame g else (g, False))"

definition in_string :: "json_grammar \<Rightarrow> bool" where
  "in_string g \<longleftrightarrow> (case jg_state g of
     InString _ \<Rightarrow> True | InStringEscape _ \<Rightarrow> True | InStringUnicode _ _ \<Rightarrow> True | _ \<Rightarrow> False)"

text \<open>The recursive call is made once: it is on a closed number, which is another state.\<close>

function jg_step :: "u8 \<Rightarrow> json_grammar \<Rightarrow> json_grammar \<times> bool" where
  "jg_step b g =
     (if \<not> in_string g \<and> b \<in> set WS then
        (if jg_ws_run g \<ge> MAX_INSIGNIFICANT_WS_RUN then (g, False)
         else
           let g1 = g\<lparr>jg_ws_run := jg_ws_run g + 1\<rparr> in
           (if jg_state g1 = InNumber then close_number g1 else g1, True))
      else
        let g = g\<lparr>jg_ws_run := 0\<rparr> in
        (case jg_state g of
           Start \<Rightarrow> enter_value b g
         | ArrayExpectValueOrEnd just_after_comma \<Rightarrow>
             if b = b_rbracket then
               (if just_after_comma then (g, False) else close_container ArrayFrame g)
             else enter_value b g
         | InString is_key \<Rightarrow>
             if b = b_quote then
               (if is_key then g\<lparr>jg_state := ObjectExpectColon\<rparr> else transit_value_complete g, True)
             else if b = b_backslash then (g\<lparr>jg_state := InStringEscape is_key\<rparr>, True)
             else if b \<le> 0x1F then (g, False)
             else (g, True)
         | InStringEscape is_key \<Rightarrow>
             if b = b_u then (g\<lparr>jg_state := InStringUnicode is_key 0\<rparr>, True)
             else if b \<in> set ESCAPES then (g\<lparr>jg_state := InString is_key\<rparr>, True)
             else (g, False)
         | InStringUnicode is_key n_consumed \<Rightarrow>
             if \<not> is_hex b then (g, False)
             else if n_consumed + 1 \<ge> 4 then (g\<lparr>jg_state := InString is_key\<rparr>, True)
             else (g\<lparr>jg_state := InStringUnicode is_key (n_consumed + 1)\<rparr>, True)
         | InNumber \<Rightarrow>
             if is_digit b \<or> b \<in> set NUM_MARKS then (g, True)
             else jg_step b (close_number g)
         | InLiteral which pos \<Rightarrow>
             if pos \<ge> length (literal_bytes which) \<or> b \<noteq> literal_bytes which ! pos then (g, False)
             else if pos + 1 = length (literal_bytes which) then (transit_value_complete g, True)
             else (g\<lparr>jg_state := InLiteral which (pos + 1)\<rparr>, True)
         | ObjectExpectKeyOrEnd just_after_comma \<Rightarrow>
             if b = b_quote then (g\<lparr>jg_state := InString True\<rparr>, True)
             else if b = b_rbrace \<and> \<not> just_after_comma then close_container ObjectFrame g
             else (g, False)
         | ObjectExpectColon \<Rightarrow>
             if b = b_colon then (g\<lparr>jg_state := Start\<rparr>, True) else (g, False)
         | AfterValue \<Rightarrow> handle_after_value b g
         | Done \<Rightarrow> (g, False)))"
  by pat_completeness auto
termination
  by (relation "measure (\<lambda>(b, g). if jg_state g = InNumber then 1 else 0)")
     (auto simp: close_number_def transit_value_complete_def)

declare jg_step.simps [simp del]

text \<open>
  Feeding bytes while they are accepted: the probe of \<^verbatim>\<open>fill_allow_mask\<close> for one token. The
  result is the grammar after them, or \<open>None\<close> at the first byte that is refused.
\<close>

fun jg_run :: "u8 list \<Rightarrow> json_grammar \<Rightarrow> json_grammar option" where
  "jg_run [] g = Some g"
| "jg_run (b # bs) g = (case jg_step b g of (g', ok) \<Rightarrow> if ok then jg_run bs g' else None)"

lemma jg_run_append: "jg_run (xs @ ys) g = (case jg_run xs g of None \<Rightarrow> None | Some g' \<Rightarrow> jg_run ys g')"
  by (induction xs arbitrary: g) (auto split: prod.splits)

end
