(* ===== verification/JsonLanguage.thy ===== *)
theory JsonLanguage
  imports JsonGrammar
begin

text \<open>
  The language the JSON automaton accepts, as a grammar, and the equivalence of the two.
  The grammar is JSON with three differences the automaton makes: a whitespace run is at
  most \<open>MAX_INSIGNIFICANT_WS_RUN\<close> bytes, a number is any run of digits and the marks
  \<^verbatim>\<open>. e E + -\<close> that starts with a digit or a minus sign, and whitespace may stand between
  the letters of a literal.
\<close>

section \<open>The grammar\<close>

definition ws :: "u8 list \<Rightarrow> bool" where
  "ws w \<longleftrightarrow> set w \<subseteq> set WS \<and> length w \<le> MAX_INSIGNIFICANT_WS_RUN"

inductive str_body :: "u8 list \<Rightarrow> bool" where
  sb_nil: "str_body []"
| sb_char: "\<lbrakk>str_body s; 0x20 \<le> c; c \<noteq> b_quote; c \<noteq> b_backslash\<rbrakk> \<Longrightarrow> str_body (s @ [c])"
| sb_escape: "\<lbrakk>str_body s; c \<in> set ESCAPES\<rbrakk> \<Longrightarrow> str_body (s @ [b_backslash, c])"
| sb_unicode: "\<lbrakk>str_body s; length hs = 4; list_all is_hex hs\<rbrakk> \<Longrightarrow> str_body (s @ [b_backslash, b_u] @ hs)"

text \<open>\<open>gapped cs v\<close>: \<open>v\<close> is the letters \<open>cs\<close> with whitespace between them.\<close>

inductive gapped :: "u8 list \<Rightarrow> u8 list \<Rightarrow> bool" where
  gap_one: "gapped [c] [c]"
| gap_snoc: "\<lbrakk>gapped cs v; ws w\<rbrakk> \<Longrightarrow> gapped (cs @ [c]) (v @ w @ [c])"

definition num_byte :: "u8 \<Rightarrow> bool" where "num_byte b \<longleftrightarrow> is_digit b \<or> b \<in> set NUM_MARKS"

definition number :: "u8 list \<Rightarrow> bool" where
  "number v \<longleftrightarrow> (\<exists>b bs. v = b # bs \<and> (b = b_minus \<or> is_digit b) \<and> list_all num_byte bs)"

text \<open>
  \<open>open_arr\<close>: an array up to where an element is expected; \<open>open_obj\<close>: an object up to where
  a key is expected; \<open>key_obj\<close>: up to where the value of a key is expected.
\<close>

inductive jvalue :: "u8 list \<Rightarrow> bool" and open_arr :: "u8 list \<Rightarrow> bool"
  and open_obj :: "u8 list \<Rightarrow> bool" and key_obj :: "u8 list \<Rightarrow> bool" where
  jv_literal: "gapped (literal_bytes k) v \<Longrightarrow> jvalue v"
| jv_number: "number v \<Longrightarrow> jvalue v"
| jv_string: "str_body s \<Longrightarrow> jvalue (b_quote # s @ [b_quote])"
| jv_array_nil: "ws w \<Longrightarrow> jvalue (b_lbracket # w @ [b_rbracket])"
| jv_array: "\<lbrakk>open_arr p; ws w; jvalue v; ws w'\<rbrakk> \<Longrightarrow> jvalue (p @ w @ v @ w' @ [b_rbracket])"
| jv_object_nil: "ws w \<Longrightarrow> jvalue (b_lbrace # w @ [b_rbrace])"
| jv_object: "\<lbrakk>key_obj p; ws w; jvalue v; ws w'\<rbrakk> \<Longrightarrow> jvalue (p @ w @ v @ w' @ [b_rbrace])"
| oa_open: "open_arr [b_lbracket]"
| oa_next: "\<lbrakk>open_arr p; ws w; jvalue v; ws w'\<rbrakk> \<Longrightarrow> open_arr (p @ w @ v @ w' @ [b_comma])"
| oo_open: "open_obj [b_lbrace]"
| oo_next: "\<lbrakk>key_obj p; ws w; jvalue v; ws w'\<rbrakk> \<Longrightarrow> open_obj (p @ w @ v @ w' @ [b_comma])"
| ko_key: "\<lbrakk>open_obj p; ws w; str_body s; ws w'\<rbrakk> \<Longrightarrow>
    key_obj (p @ w @ b_quote # s @ [b_quote] @ w' @ [b_colon])"

definition json_text :: "u8 list \<Rightarrow> bool" where
  "json_text bs \<longleftrightarrow> (\<exists>w v w'. bs = w @ v @ w' \<and> ws w \<and> jvalue v \<and> ws w')"

lemma ws_nil [simp]: "ws []" by (simp add: ws_def)
lemma ws_snoc: "ws w \<Longrightarrow> b \<in> set WS \<Longrightarrow> length w < MAX_INSIGNIFICANT_WS_RUN \<Longrightarrow> ws (w @ [b])"
  by (simp add: ws_def)

section \<open>Positions inside a text\<close>

text \<open>\<open>ctx st p\<close>: after \<open>p\<close> the frames \<open>st\<close> are open and a value is expected in the innermost.\<close>

inductive ctx :: "json_frame list \<Rightarrow> u8 list \<Rightarrow> bool" where
  ctx_top: "ctx [] []"
| ctx_array: "\<lbrakk>ctx st p; ws w; open_arr q\<rbrakk> \<Longrightarrow> ctx (ArrayFrame # st) (p @ w @ q)"
| ctx_object: "\<lbrakk>ctx st p; ws w; key_obj q\<rbrakk> \<Longrightarrow> ctx (ObjectFrame # st) (p @ w @ q)"

inductive_cases ctx_NilE: "ctx [] p"
inductive_cases ctx_ArrayE: "ctx (ArrayFrame # st) p"
inductive_cases ctx_ObjectE: "ctx (ObjectFrame # st) p"

definition at_value :: "json_frame list \<Rightarrow> u8 list \<Rightarrow> nat \<Rightarrow> bool" where
  "at_value st q n \<longleftrightarrow> (\<exists>p w. q = p @ w \<and> ctx st p \<and> ws w \<and> length w = n)"

definition at_element :: "bool \<Rightarrow> json_frame list \<Rightarrow> u8 list \<Rightarrow> nat \<Rightarrow> bool" where
  "at_element later st q n \<longleftrightarrow> (\<exists>st' p m a w. st = ArrayFrame # st' \<and> q = p @ a @ w \<and> at_value st' p m \<and>
     open_arr a \<and> (\<not> later \<longrightarrow> a = [b_lbracket]) \<and> ws w \<and> length w = n)"

definition at_key :: "bool \<Rightarrow> json_frame list \<Rightarrow> u8 list \<Rightarrow> nat \<Rightarrow> bool" where
  "at_key later st q n \<longleftrightarrow> (\<exists>st' p m a w. st = ObjectFrame # st' \<and> q = p @ a @ w \<and> at_value st' p m \<and>
     open_obj a \<and> (\<not> later \<longrightarrow> a = [b_lbrace]) \<and> ws w \<and> length w = n)"

definition at_colon :: "json_frame list \<Rightarrow> u8 list \<Rightarrow> nat \<Rightarrow> bool" where
  "at_colon st q n \<longleftrightarrow> (\<exists>l m p s w. q = p @ b_quote # s @ [b_quote] @ w \<and> at_key l st p m \<and> str_body s \<and>
     ws w \<and> length w = n)"

definition after_value :: "json_frame list \<Rightarrow> u8 list \<Rightarrow> nat \<Rightarrow> bool" where
  "after_value st q n \<longleftrightarrow> (\<exists>p m v w. q = p @ v @ w \<and> at_value st p m \<and> jvalue v \<and> ws w \<and> length w = n)"

definition at_string :: "bool \<Rightarrow> json_frame list \<Rightarrow> u8 list \<Rightarrow> bool" where
  "at_string is_key st q \<longleftrightarrow>
     (\<exists>n. if is_key then (\<exists>l. at_key l st q n) else at_value st q n)"

definition jg_inv :: "u8 list \<Rightarrow> json_grammar \<Rightarrow> bool" where
  "jg_inv bs g \<longleftrightarrow> (let st = jg_stack g; n = jg_ws_run g in
     case jg_state g of
       Start \<Rightarrow> at_value st bs n
     | ArrayExpectValueOrEnd l \<Rightarrow> at_element l st bs n
     | InString k \<Rightarrow> n = 0 \<and> (\<exists>p s. bs = p @ b_quote # s \<and> at_string k st p \<and> str_body s)
     | InStringEscape k \<Rightarrow> n = 0 \<and>
         (\<exists>p s. bs = p @ b_quote # s @ [b_backslash] \<and> at_string k st p \<and> str_body s)
     | InStringUnicode k m \<Rightarrow> n = 0 \<and> m < 4 \<and>
         (\<exists>p s hs. bs = p @ b_quote # s @ [b_backslash, b_u] @ hs \<and> at_string k st p \<and> str_body s \<and>
            length hs = m \<and> list_all is_hex hs)
     | InNumber \<Rightarrow> n = 0 \<and> (\<exists>p m v. bs = p @ v \<and> at_value st p m \<and> number v)
     | InLiteral k pos \<Rightarrow> 0 < pos \<and> pos < length (literal_bytes k) \<and>
         (\<exists>p m v w. bs = p @ v @ w \<and> at_value st p m \<and> gapped (take pos (literal_bytes k)) v \<and>
            ws w \<and> length w = n)
     | ObjectExpectKeyOrEnd l \<Rightarrow> at_key l st bs n
     | ObjectExpectColon \<Rightarrow> at_colon st bs n
     | AfterValue \<Rightarrow> st \<noteq> [] \<and> after_value st bs n
     | Done \<Rightarrow> st = [] \<and> after_value st bs n)"

lemma jg_inv_new: "jg_inv [] jg_new"
  by (auto simp: jg_inv_def jg_new_def at_value_def intro: ctx_top)

text \<open>What each accepted byte does to a position.\<close>

lemma at_value_0: "ctx st p \<Longrightarrow> at_value st p 0" by (auto simp: at_value_def)

lemma at_element_value: "at_element l st q n \<Longrightarrow> at_value st q n"
  unfolding at_element_def at_value_def by (metis append_assoc ctx_array)

lemma value_done: "at_value st p m \<Longrightarrow> jvalue v \<Longrightarrow> after_value st (p @ v) 0"
  unfolding after_value_def by (metis append_Nil2 list.size(3) ws_nil)

lemma open_bracket: "at_value st p m \<Longrightarrow> at_element False (ArrayFrame # st) (p @ [b_lbracket]) 0"
  unfolding at_element_def using oa_open by fastforce

lemma open_brace: "at_value st p m \<Longrightarrow> at_key False (ObjectFrame # st) (p @ [b_lbrace]) 0"
  unfolding at_key_def using oo_open by fastforce

lemma ws_grows:
  assumes "b \<in> set WS" "n < MAX_INSIGNIFICANT_WS_RUN"
  shows "at_value st q n \<Longrightarrow> at_value st (q @ [b]) (n + 1)"
    "at_element l st q n \<Longrightarrow> at_element l st (q @ [b]) (n + 1)"
    "at_key l st q n \<Longrightarrow> at_key l st (q @ [b]) (n + 1)"
    "at_colon st q n \<Longrightarrow> at_colon st (q @ [b]) (n + 1)"
    "after_value st q n \<Longrightarrow> after_value st (q @ [b]) (n + 1)"
proof -
  have w: "ws (w @ [b]) \<and> length (w @ [b]) = n + 1" if "ws w" "length w = n" for w
    using ws_snoc [OF that(1) assms(1)] that(2) assms(2) by simp
  show "at_value st q n \<Longrightarrow> at_value st (q @ [b]) (n + 1)"
    unfolding at_value_def using w by (metis append_assoc)
  show "at_element l st q n \<Longrightarrow> at_element l st (q @ [b]) (n + 1)"
    unfolding at_element_def using w by (metis append_assoc)
  show "at_key l st q n \<Longrightarrow> at_key l st (q @ [b]) (n + 1)"
    unfolding at_key_def using w by (metis append_assoc)
  show "at_colon st q n \<Longrightarrow> at_colon st (q @ [b]) (n + 1)"
  proof -
    assume "at_colon st q n"
    then obtain l' m p s x where c: "q = p @ b_quote # s @ [b_quote] @ x" "at_key l' st p m" "str_body s"
      "ws x" "length x = n" unfolding at_colon_def by blast
    then have "q @ [b] = p @ b_quote # s @ [b_quote] @ (x @ [b])" by simp
    with c(2,3) w [OF c(4,5)] show ?thesis unfolding at_colon_def by blast
  qed
  show "after_value st q n \<Longrightarrow> after_value st (q @ [b]) (n + 1)"
    unfolding after_value_def using w by (metis append_assoc)
qed

lemma close_array:
  assumes "after_value (ArrayFrame # st) q n"
  shows "after_value st (q @ [b_rbracket]) 0"
proof -
  from assms obtain p m v w where a: "q = p @ v @ w" "at_value (ArrayFrame # st) p m" "jvalue v" "ws w"
    unfolding after_value_def by blast
  from a(2) obtain c x where b: "p = c @ x" "ctx (ArrayFrame # st) c" "ws x" unfolding at_value_def by blast
  from b(2) obtain c' y o' where d: "c = c' @ y @ o'" "ctx st c'" "ws y" "open_arr o'"
    by (rule ctx_ArrayE) blast
  have "jvalue (o' @ x @ v @ w @ [b_rbracket])" by (rule jv_array [OF d(4) b(3) a(3,4)])
  moreover have "at_value st (c' @ y) (length y)" using d unfolding at_value_def by blast
  ultimately show ?thesis using value_done a(1) b(1) d(1) by fastforce
qed

lemma close_object:
  assumes "after_value (ObjectFrame # st) q n"
  shows "after_value st (q @ [b_rbrace]) 0"
proof -
  from assms obtain p m v w where a: "q = p @ v @ w" "at_value (ObjectFrame # st) p m" "jvalue v" "ws w"
    unfolding after_value_def by blast
  from a(2) obtain c x where b: "p = c @ x" "ctx (ObjectFrame # st) c" "ws x" unfolding at_value_def by blast
  from b(2) obtain c' y o' where d: "c = c' @ y @ o'" "ctx st c'" "ws y" "key_obj o'"
    by (rule ctx_ObjectE) blast
  have "jvalue (o' @ x @ v @ w @ [b_rbrace])" by (rule jv_object [OF d(4) b(3) a(3,4)])
  moreover have "at_value st (c' @ y) (length y)" using d unfolding at_value_def by blast
  ultimately show ?thesis using value_done a(1) b(1) d(1) by fastforce
qed

lemma next_element:
  assumes "after_value (ArrayFrame # st) q n"
  shows "at_element True (ArrayFrame # st) (q @ [b_comma]) 0"
proof -
  from assms obtain p m v w where a: "q = p @ v @ w" "at_value (ArrayFrame # st) p m" "jvalue v" "ws w"
    unfolding after_value_def by blast
  from a(2) obtain c x where b: "p = c @ x" "ctx (ArrayFrame # st) c" "ws x" unfolding at_value_def by blast
  from b(2) obtain c' y o' where d: "c = c' @ y @ o'" "ctx st c'" "ws y" "open_arr o'"
    by (rule ctx_ArrayE) blast
  have o: "open_arr (o' @ x @ v @ w @ [b_comma])" by (rule oa_next [OF d(4) b(3) a(3,4)])
  have "at_value st (c' @ y) (length y)" using d unfolding at_value_def by blast
  moreover have "q @ [b_comma] = (c' @ y) @ (o' @ x @ v @ w @ [b_comma]) @ []" using a(1) b(1) d(1) by simp
  ultimately show ?thesis using o unfolding at_element_def by (metis list.size(3) ws_nil)
qed

lemma next_key:
  assumes "after_value (ObjectFrame # st) q n"
  shows "at_key True (ObjectFrame # st) (q @ [b_comma]) 0"
proof -
  from assms obtain p m v w where a: "q = p @ v @ w" "at_value (ObjectFrame # st) p m" "jvalue v" "ws w"
    unfolding after_value_def by blast
  from a(2) obtain c x where b: "p = c @ x" "ctx (ObjectFrame # st) c" "ws x" unfolding at_value_def by blast
  from b(2) obtain c' y o' where d: "c = c' @ y @ o'" "ctx st c'" "ws y" "key_obj o'"
    by (rule ctx_ObjectE) blast
  have o: "open_obj (o' @ x @ v @ w @ [b_comma])" by (rule oo_next [OF d(4) b(3) a(3,4)])
  have "at_value st (c' @ y) (length y)" using d unfolding at_value_def by blast
  moreover have "q @ [b_comma] = (c' @ y) @ (o' @ x @ v @ w @ [b_comma]) @ []" using a(1) b(1) d(1) by simp
  ultimately show ?thesis using o unfolding at_key_def by (metis list.size(3) ws_nil)
qed

lemma close_empty_array:
  assumes "at_element False st q n"
  shows "\<exists>st'. st = ArrayFrame # st' \<and> after_value st' (q @ [b_rbracket]) 0"
proof -
  from assms obtain st' p m w where "st = ArrayFrame # st'" "q = p @ [b_lbracket] @ w" "at_value st' p m" "ws w"
    unfolding at_element_def by blast
  with value_done [OF _ jv_array_nil, of st' p m w] show ?thesis by simp
qed

lemma close_empty_object:
  assumes "at_key False st q n"
  shows "\<exists>st'. st = ObjectFrame # st' \<and> after_value st' (q @ [b_rbrace]) 0"
proof -
  from assms obtain st' p m w where "st = ObjectFrame # st'" "q = p @ [b_lbrace] @ w" "at_value st' p m" "ws w"
    unfolding at_key_def by blast
  with value_done [OF _ jv_object_nil, of st' p m w] show ?thesis by simp
qed

lemma colon_value:
  assumes "at_colon st q n"
  shows "at_value st (q @ [b_colon]) 0"
proof -
  from assms obtain l m p s w where a: "q = p @ b_quote # s @ [b_quote] @ w" "at_key l st p m" "str_body s" "ws w"
    unfolding at_colon_def by blast
  from a(2) obtain st' p' m' a' w' where b: "st = ObjectFrame # st'" "p = p' @ a' @ w'" "at_value st' p' m'"
    "open_obj a'" "ws w'" unfolding at_key_def by blast
  from b(3) obtain c x where d: "p' = c @ x" "ctx st' c" "ws x" unfolding at_value_def by blast
  have "key_obj (a' @ w' @ b_quote # s @ [b_quote] @ w @ [b_colon])" by (rule ko_key [OF b(4,5) a(3,4)])
  from ctx_object [OF d(2,3) this] a(1) b(1,2) d(1) show ?thesis
    by (auto intro: at_value_0)
qed

section \<open>Soundness\<close>

lemma ws_facts: "b \<in> set WS \<longleftrightarrow> b = 0x20 \<or> b = 0x09 \<or> b = 0x0A \<or> b = 0x0D"
  by (auto simp: WS_def)

lemma jg_inv_complete:
  "after_value (jg_stack g) q 0 \<Longrightarrow> jg_ws_run g = 0 \<Longrightarrow> jg_inv q (transit_value_complete g)"
  by (auto simp: jg_inv_def transit_value_complete_def)

text \<open>How to establish the invariant in the states that carry a partial token.\<close>

lemma jg_inv_literalI:
  "\<lbrakk>bs = p @ v @ w; at_value (jg_stack g) p m; gapped (take pos (literal_bytes k)) v; ws w;
    0 < pos; pos < length (literal_bytes k); jg_state g = InLiteral k pos; jg_ws_run g = length w\<rbrakk> \<Longrightarrow> jg_inv bs g"
  unfolding jg_inv_def by (simp add: Let_def) blast

lemma jg_inv_stringI:
  "\<lbrakk>bs = p @ b_quote # s; at_string k (jg_stack g) p; str_body s; jg_state g = InString k; jg_ws_run g = 0\<rbrakk>
    \<Longrightarrow> jg_inv bs g"
  unfolding jg_inv_def by (simp add: Let_def) blast

lemma jg_inv_unicodeI:
  "\<lbrakk>bs = p @ b_quote # s @ [b_backslash, b_u] @ hs; at_string k (jg_stack g) p; str_body s; list_all is_hex hs;
    length hs < 4; jg_state g = InStringUnicode k (length hs); jg_ws_run g = 0\<rbrakk> \<Longrightarrow> jg_inv bs g"
  unfolding jg_inv_def by (simp add: Let_def) blast

lemma jg_inv_numberI:
  "\<lbrakk>bs = p @ v; at_value (jg_stack g) p m; number v; jg_state g = InNumber; jg_ws_run g = 0\<rbrakk> \<Longrightarrow> jg_inv bs g"
  unfolding jg_inv_def by (simp add: Let_def) blast

lemma jg_inv_number_closed:
  "jg_inv q g \<Longrightarrow> jg_state g = InNumber \<Longrightarrow> jg_inv q (close_number g)"
  unfolding close_number_def
  by (rule jg_inv_complete) (auto simp: jg_inv_def intro: value_done jv_number)

lemma enter_value_inv:
  assumes "at_value (jg_stack g) q n" "jg_ws_run g = 0" "enter_value b g = (g', True)"
  shows "jg_inv (q @ [b]) g'"
proof -
  have lit: "\<exists>p m v w. q @ [x] = p @ v @ w \<and> at_value (jg_stack g) p m \<and> gapped [x] v \<and> ws w \<and> w = []" for x
    using assms(1) gap_one by fastforce
  have str: "\<exists>p s. q @ [x] = p @ x # s \<and> at_string False (jg_stack g) p \<and> str_body s" for x
    using assms(1) sb_nil by (auto simp: at_string_def)
  have num: "\<exists>p m v. q @ [x] = p @ v \<and> at_value (jg_stack g) p m \<and> number v" if "x = b_minus \<or> is_digit x" for x
  proof (intro exI conjI)
    show "number [x]" using that by (simp add: number_def)
  qed (use assms(1) in simp_all)
  show ?thesis
    using assms(2,3) open_brace [OF assms(1)] open_bracket [OF assms(1)] lit str num
    by (auto simp: enter_value_def jg_inv_def split: if_splits)
qed

lemma whitespace_inv:
  assumes "jg_inv bs g" "\<not> in_string g" "b \<in> set WS" "jg_ws_run g < MAX_INSIGNIFICANT_WS_RUN"
    "jg_state g \<noteq> InNumber"
  shows "jg_inv (bs @ [b]) (g\<lparr>jg_ws_run := jg_ws_run g + 1\<rparr>)"
proof (cases "jg_state g")
  case (InLiteral k pos)
  with assms(1) obtain p m v w where "0 < pos" "pos < length (literal_bytes k)" "bs = p @ v @ w"
    "at_value (jg_stack g) p m" "gapped (take pos (literal_bytes k)) v" "ws w" "length w = jg_ws_run g"
    by (auto simp: jg_inv_def)
  with ws_snoc [OF \<open>ws w\<close> assms(3)] assms(4) InLiteral show ?thesis
    by (intro jg_inv_literalI [of _ p v "w @ [b]"]) simp_all
qed (use assms ws_grows [OF assms(3,4)] in \<open>auto simp: jg_inv_def in_string_def Let_def\<close>)

lemma literal_inv:
  assumes "jg_inv bs g" "jg_state g = InLiteral k pos" "b = literal_bytes k ! pos"
  shows "pos + 1 < length (literal_bytes k) \<Longrightarrow> jg_inv (bs @ [b]) (g\<lparr>jg_ws_run := 0, jg_state := InLiteral k (pos + 1)\<rparr>)"
    "pos + 1 = length (literal_bytes k) \<Longrightarrow> after_value (jg_stack g) (bs @ [b]) 0"
proof -
  from assms obtain p m v w where l: "pos < length (literal_bytes k)" "bs = p @ v @ w"
    "at_value (jg_stack g) p m" "gapped (take pos (literal_bytes k)) v" "ws w"
    by (auto simp: jg_inv_def)
  from gap_snoc [OF l(4,5), of b] l(1) assms(3)
  have g: "gapped (take (pos + 1) (literal_bytes k)) (v @ w @ [b])" by (simp add: take_Suc_conv_app_nth)
  have e: "bs @ [b] = p @ (v @ w @ [b]) @ []" using l(2) by simp
  show "jg_inv (bs @ [b]) (g\<lparr>jg_ws_run := 0, jg_state := InLiteral k (pos + 1)\<rparr>)"
    if "pos + 1 < length (literal_bytes k)"
    using that l(3) g e by (intro jg_inv_literalI [of _ p "v @ w @ [b]" "[]"]) simp_all
  show "after_value (jg_stack g) (bs @ [b]) 0" if "pos + 1 = length (literal_bytes k)"
    using that l(3) g e jv_literal [of k "v @ w @ [b]"] unfolding after_value_def
    by (metis list.size(3) take_all_iff order_refl ws_nil)
qed

lemma handle_after_value_inv:
  assumes "after_value (jg_stack g) q n" "jg_ws_run g = 0" "handle_after_value b g = (g', True)"
  shows "jg_inv (q @ [b]) g'"
proof (cases "jg_stack g")
  case Nil
  with assms show ?thesis by (simp add: handle_after_value_def)
next
  case (Cons f st)
  show ?thesis
  proof (cases f)
    case ObjectFrame
    with Cons assms close_object [of st q n] next_key [of st q n] show ?thesis
      by (auto simp: handle_after_value_def close_container_def Let_def transit_value_complete_def jg_inv_def
          split: if_splits)
  next
    case ArrayFrame
    with Cons assms close_array [of st q n] next_element [of st q n] show ?thesis
      by (auto simp: handle_after_value_def close_container_def Let_def transit_value_complete_def jg_inv_def
          split: if_splits)
  qed
qed

lemma string_char_inv:
  assumes "jg_inv bs g" "jg_state g = InString k" "0x20 \<le> b" "b \<noteq> b_quote" "b \<noteq> b_backslash"
  shows "jg_inv (bs @ [b]) (g\<lparr>jg_ws_run := 0\<rparr>)"
proof -
  from assms obtain p s where s: "bs = p @ b_quote # s" "at_string k (jg_stack g) p" "str_body s"
    by (auto simp: jg_inv_def)
  with sb_char [OF s(3) assms(3-5)] assms(2) show ?thesis by (auto simp: jg_inv_def)
qed

lemma string_end_inv:
  assumes "jg_inv bs g" "jg_state g = InString k"
  shows "if k then at_colon (jg_stack g) (bs @ [b_quote]) 0 else after_value (jg_stack g) (bs @ [b_quote]) 0"
proof -
  from assms obtain p s where s: "bs = p @ b_quote # s" "at_string k (jg_stack g) p" "str_body s"
    by (auto simp: jg_inv_def)
  show ?thesis
  proof (cases k)
    case True
    with s(2) obtain l n where "at_key l (jg_stack g) p n" by (auto simp: at_string_def)
    with s(1,3) True show ?thesis unfolding at_colon_def by force
  next
    case False
    with s(2) obtain n where "at_value (jg_stack g) p n" by (auto simp: at_string_def)
    from value_done [OF this jv_string [OF s(3)]] s(1) False show ?thesis by simp
  qed
qed

lemma escape_inv:
  assumes "jg_inv bs g" "jg_state g = InStringEscape k"
  shows "b \<in> set ESCAPES \<Longrightarrow> jg_inv (bs @ [b]) (g\<lparr>jg_ws_run := 0, jg_state := InString k\<rparr>)"
    "jg_inv (bs @ [b_u]) (g\<lparr>jg_ws_run := 0, jg_state := InStringUnicode k 0\<rparr>)"
proof -
  from assms obtain p s where s: "bs = p @ b_quote # s @ [b_backslash]" "at_string k (jg_stack g) p" "str_body s"
    by (auto simp: jg_inv_def)
  show "jg_inv (bs @ [b]) (g\<lparr>jg_ws_run := 0, jg_state := InString k\<rparr>)" if "b \<in> set ESCAPES"
    using s sb_escape [OF s(3) that] by (auto simp: jg_inv_def)
  show "jg_inv (bs @ [b_u]) (g\<lparr>jg_ws_run := 0, jg_state := InStringUnicode k 0\<rparr>)"
    using s by (auto simp: jg_inv_def)
qed

lemma unicode_inv:
  assumes "jg_inv bs g" "jg_state g = InStringUnicode k m" "is_hex b"
  shows "jg_inv (bs @ [b]) (g\<lparr>jg_ws_run := 0,
    jg_state := (if m + 1 \<ge> 4 then InString k else InStringUnicode k (m + 1))\<rparr>)"
proof -
  from assms obtain p s hs where s: "bs = p @ b_quote # s @ [b_backslash, b_u] @ hs"
    "at_string k (jg_stack g) p" "str_body s" "length hs = m" "list_all is_hex hs" "m < 4"
    by (auto simp: jg_inv_def)
  show ?thesis
  proof (cases "m + 1 \<ge> 4")
    case True
    with s assms(3) have "str_body (s @ [b_backslash, b_u] @ (hs @ [b]))" by (intro sb_unicode) simp_all
    with True s(1,2) show ?thesis by (auto simp: jg_inv_def)
  next
    case False
    with s assms(3) show ?thesis
      by (intro jg_inv_unicodeI [of _ p s "hs @ [b]"]) simp_all
  qed
qed

lemma number_inv:
  assumes "jg_inv bs g" "jg_state g = InNumber" "num_byte b"
  shows "jg_inv (bs @ [b]) (g\<lparr>jg_ws_run := 0\<rparr>)"
proof -
  from assms obtain p m v where "bs = p @ v" "at_value (jg_stack g) p m" "number v" by (auto simp: jg_inv_def)
  moreover from this(3) assms(3) have "number (v @ [b])" by (auto simp: number_def)
  ultimately show ?thesis
    using assms(2) by (intro jg_inv_numberI [of _ p "v @ [b]"]) simp_all
qed

lemma jg_inv_ws_run: "jg_inv bs g \<Longrightarrow> jg_state g \<in> {InNumber} \<union> range InString \<union> range InStringEscape \<Longrightarrow> jg_ws_run g = 0"
  by (auto simp: jg_inv_def Let_def)

lemma jg_step_inv_aux:
  assumes "jg_inv bs g" "jg_state g \<noteq> InNumber" "jg_step b g = (g', True)"
  shows "jg_inv (bs @ [b]) g'"
proof (cases "\<not> in_string g \<and> b \<in> set WS")
  case True
  with assms(2,3) have "jg_ws_run g < MAX_INSIGNIFICANT_WS_RUN" "g' = g\<lparr>jg_ws_run := jg_ws_run g + 1\<rparr>"
    by (auto simp: jg_step.simps [of b g] Let_def split: if_splits)
  with whitespace_inv [OF assms(1) _ _ this(1) assms(2)] True show ?thesis by simp
next
  case False
  note S = assms(3) [unfolded jg_step.simps [of b g] if_not_P [OF False] Let_def]
  show ?thesis
  proof (cases "jg_state g")
    case Start
    with assms(1) have "at_value (jg_stack g) bs (jg_ws_run g)" by (simp add: jg_inv_def Let_def)
    with enter_value_inv [of "g\<lparr>jg_ws_run := 0\<rparr>"] S Start show ?thesis by simp
  next
    case (InString k)
    note k = this
    consider "b = b_quote" | "b = b_backslash" | "b \<noteq> b_quote" "b \<noteq> b_backslash" by blast
    then show ?thesis
    proof cases
      case 1
      with S k string_end_inv [OF assms(1) k] show ?thesis
        by (auto simp: jg_inv_def transit_value_complete_def Let_def split: if_splits)
    next
      case 2
      with S k have "g' = g\<lparr>jg_ws_run := 0, jg_state := InStringEscape k\<rparr>" by simp
      moreover from assms(1) k obtain p s where "bs = p @ b_quote # s" "at_string k (jg_stack g) p" "str_body s"
        by (auto simp: jg_inv_def Let_def)
      ultimately show ?thesis using 2 by (simp add: jg_inv_def Let_def) blast
    next
      case 3
      with S k have "\<not> b \<le> 0x1F" "g' = g\<lparr>jg_ws_run := 0\<rparr>" by (auto split: if_splits)
      then have "0x20 \<le> b" by unat_arith
      with string_char_inv [OF assms(1) k _ 3] \<open>g' = _\<close> show ?thesis by simp
    qed
  next
    case (InStringEscape k)
    with S escape_inv [OF assms(1) this] show ?thesis by (auto split: if_splits)
  next
    case (InStringUnicode k m)
    with S unicode_inv [OF assms(1) this] show ?thesis by (auto split: if_splits)
  next
    case InNumber
    with assms(2) show ?thesis by simp
  next
    case (InLiteral k pos)
    with S have b: "b = literal_bytes k ! pos" by (auto split: if_splits)
    from assms(1) InLiteral have "pos < length (literal_bytes k)" by (auto simp: jg_inv_def Let_def)
    with S InLiteral literal_inv [OF assms(1) InLiteral b] show ?thesis
      using jg_inv_complete [of "g\<lparr>jg_ws_run := 0\<rparr>"] by (auto split: if_splits)
  next
    case (ObjectExpectKeyOrEnd l)
    with assms(1) have k: "at_key l (jg_stack g) bs (jg_ws_run g)" by (simp add: jg_inv_def Let_def)
    show ?thesis
    proof (cases "b = b_quote")
      case True
      from k have "at_string True (jg_stack g) bs" by (auto simp: at_string_def)
      with True ObjectExpectKeyOrEnd S sb_nil show ?thesis
        by (intro jg_inv_stringI [of _ bs "[]" True]) auto
    next
      case False
      with k ObjectExpectKeyOrEnd S close_empty_object [of "jg_stack g" bs "jg_ws_run g"] show ?thesis
        by (auto simp: jg_inv_def Let_def close_container_def transit_value_complete_def split: if_splits)
    qed
  next
    case ObjectExpectColon
    with assms(1) have "at_colon (jg_stack g) bs (jg_ws_run g)" by (simp add: jg_inv_def Let_def)
    from colon_value [OF this] ObjectExpectColon S show ?thesis by (auto simp: jg_inv_def Let_def split: if_splits)
  next
    case (ArrayExpectValueOrEnd l)
    with assms(1) have e: "at_element l (jg_stack g) bs (jg_ws_run g)" by (simp add: jg_inv_def Let_def)
    show ?thesis
    proof (cases "b = b_rbracket")
      case True
      with e ArrayExpectValueOrEnd S close_empty_array [of "jg_stack g" bs "jg_ws_run g"] show ?thesis
        by (auto simp: jg_inv_def Let_def close_container_def transit_value_complete_def split: if_splits)
    next
      case False
      with ArrayExpectValueOrEnd S enter_value_inv [of "g\<lparr>jg_ws_run := 0\<rparr>"] at_element_value [OF e]
      show ?thesis by simp
    qed
  next
    case AfterValue
    with assms(1) have "after_value (jg_stack g) bs (jg_ws_run g)" by (simp add: jg_inv_def Let_def)
    with handle_after_value_inv [of "g\<lparr>jg_ws_run := 0\<rparr>"] S AfterValue show ?thesis by simp
  next
    case Done
    with S show ?thesis by simp
  qed
qed

lemma close_number_facts [simp]:
  "jg_state (close_number g) = (if jg_stack g = [] then Done else AfterValue)"
  "jg_stack (close_number g) = jg_stack g" "jg_ws_run (close_number g) = jg_ws_run g"
  by (simp_all add: close_number_def transit_value_complete_def)

text \<open>Outside its own bytes a number behaves as the closed number does.\<close>

lemma jg_step_number:
  assumes "jg_state g = InNumber" "\<not> num_byte b" "jg_ws_run g = 0"
  shows "jg_step b g = jg_step b (close_number g)"
proof -
  have e: "close_number (g\<lparr>jg_ws_run := 0\<rparr>) = close_number g" using assms(3) by (cases g) simp
  show ?thesis
  proof (cases "b \<in> set WS")
    case True
    have "close_number (g\<lparr>jg_ws_run := n\<rparr>) = (close_number g)\<lparr>jg_ws_run := n\<rparr>" for n
      by (simp add: close_number_def transit_value_complete_def)
    with True assms show ?thesis
      by (simp add: jg_step.simps [of b g] jg_step.simps [of b "close_number g"] in_string_def Let_def
          MAX_INSIGNIFICANT_WS_RUN_def)
  next
    case False
    with assms show ?thesis
      by (simp add: jg_step.simps [of b g] num_byte_def Let_def e)
  qed
qed

lemma jg_step_inv:
  assumes "jg_inv bs g" "jg_step b g = (g', True)"
  shows "jg_inv (bs @ [b]) g'"
proof (cases "jg_state g = InNumber")
  case True
  with assms(1) have z: "jg_ws_run g = 0" by (auto simp: jg_inv_def Let_def)
  show ?thesis
  proof (cases "num_byte b")
    case n: True
    then have "b \<notin> set WS" by (auto simp: num_byte_def NUM_MARKS_def WS_def is_digit_def)
    with n assms(2) True have "g' = g\<lparr>jg_ws_run := 0\<rparr>"
      by (simp add: jg_step.simps [of b g] num_byte_def Let_def)
    with number_inv [OF assms(1) True n] show ?thesis by simp
  next
    case False
    with jg_step_number [OF True False z] assms(2) jg_inv_number_closed [OF assms(1) True]
    show ?thesis using jg_step_inv_aux [of bs "close_number g" b g'] by simp
  qed
qed (use jg_step_inv_aux assms in blast)

lemma jg_run_inv: "jg_inv p g \<Longrightarrow> jg_run bs g = Some g' \<Longrightarrow> jg_inv (p @ bs) g'"
proof (induction bs arbitrary: p g)
  case (Cons b bs)
  then obtain g1 where s: "jg_step b g = (g1, True)" "jg_run bs g1 = Some g'" by (auto split: prod.splits if_splits)
  from Cons.IH [OF jg_step_inv [OF Cons.prems(1) s(1)] s(2)] show ?case by simp
qed simp

lemma jg_done_sound:
  assumes "jg_inv bs g" "jg_is_done g"
  shows "json_text bs"
proof -
  from assms have "\<exists>n. after_value [] bs n"
    using value_done [OF _ jv_number] by (fastforce simp: jg_is_done_def jg_inv_def Let_def)
  then obtain p m v w where "bs = p @ v @ w" "at_value [] p m" "jvalue v" "ws w"
    unfolding after_value_def by blast
  moreover from this(2) have "ws p" by (auto simp: at_value_def elim: ctx_NilE)
  ultimately show ?thesis unfolding json_text_def by blast
qed
section \<open>Completeness\<close>

definition value_complete :: "json_frame list \<Rightarrow> json_state" where
  "value_complete st = (if st = [] then Done else AfterValue)"

text \<open>
  \<open>ready\<close>: a value may start. \<open>fin\<close>: a value has just ended inside the frames \<open>st\<close>; \<open>fin_ws\<close>:
  the same with whitespace after it.
\<close>

definition ready :: "json_grammar \<Rightarrow> bool" where
  "ready g \<longleftrightarrow> jg_state g = Start \<or> (\<exists>l. jg_state g = ArrayExpectValueOrEnd l)"

definition fin :: "json_frame list \<Rightarrow> json_grammar \<Rightarrow> bool" where
  "fin st g \<longleftrightarrow> jg_stack g = st \<and> jg_ws_run g = 0 \<and> (jg_state g = value_complete st \<or> jg_state g = InNumber)"

definition fin_ws :: "json_frame list \<Rightarrow> json_grammar \<Rightarrow> bool" where
  "fin_ws st g \<longleftrightarrow> jg_stack g = st \<and>
     (jg_state g = value_complete st \<or> jg_state g = InNumber \<and> jg_ws_run g = 0)"

text \<open>\<open>jg_to q g s st\<close>: from \<open>g\<close> the bytes \<open>q\<close> lead to state \<open>s\<close> with the stack \<open>st\<close>.\<close>

definition jg_to :: "u8 list \<Rightarrow> json_grammar \<Rightarrow> json_state \<Rightarrow> json_frame list \<Rightarrow> bool" where
  "jg_to q g s st \<longleftrightarrow> jg_run q g = Some \<lparr>jg_state = s, jg_stack = st, jg_ws_run = 0\<rparr>"

lemma ws_byte_facts [simp]:
  "b_lbrace \<notin> set WS" "b_rbrace \<notin> set WS" "b_lbracket \<notin> set WS" "b_rbracket \<notin> set WS"
  "b_quote \<notin> set WS" "b_colon \<notin> set WS" "b_comma \<notin> set WS"
  by (simp_all add: WS_def)

lemma num_byte_facts [simp]:
  "\<not> num_byte b_rbrace" "\<not> num_byte b_rbracket" "\<not> num_byte b_comma"
  by (simp_all add: num_byte_def is_digit_def NUM_MARKS_def)

lemma literal_not_ws: "pos < length (literal_bytes k) \<Longrightarrow> literal_bytes k ! pos \<notin> set WS"
  by (cases k) (auto simp: WS_def less_Suc_eq nth_Cons')

lemma run_ws:
  assumes "set w \<subseteq> set WS" "jg_ws_run g + length w \<le> MAX_INSIGNIFICANT_WS_RUN" "\<not> in_string g"
    "jg_state g \<noteq> InNumber"
  shows "jg_run w g = Some (g\<lparr>jg_ws_run := jg_ws_run g + length w\<rparr>)"
  using assms
proof (induction w arbitrary: g)
  case (Cons b w)
  let ?g = "g\<lparr>jg_ws_run := jg_ws_run g + 1\<rparr>"
  from Cons.prems have "jg_step b g = (?g, True)" by (simp add: jg_step.simps [of b g] Let_def)
  moreover have "in_string ?g = in_string g" by (simp add: in_string_def)
  ultimately show ?case using Cons.prems Cons.IH [of ?g] by simp
qed simp

lemma run_ws_fin: "fin st g \<Longrightarrow> ws w \<Longrightarrow> \<exists>g'. jg_run w g = Some g' \<and> fin_ws st g'"
proof (cases w)
  case Nil
  assume "fin st g"
  then show ?thesis using Nil by (auto simp: fin_def fin_ws_def)
next
  case (Cons b w')
  assume f: "fin st g" and w: "ws w"
  have b: "b \<in> set WS" "set w' \<subseteq> set WS" "length w' < MAX_INSIGNIFICANT_WS_RUN"
    using w Cons by (auto simp: ws_def)
  let ?g = "\<lparr>jg_state = value_complete st, jg_stack = st, jg_ws_run = 1\<rparr>"
  have "jg_step b g = (?g, True)"
    using f b(1) by (auto simp: jg_step.simps [of b g] fin_def in_string_def value_complete_def Let_def
        close_number_def transit_value_complete_def MAX_INSIGNIFICANT_WS_RUN_def)
  moreover have "jg_run w' ?g = Some (?g\<lparr>jg_ws_run := jg_ws_run ?g + length w'\<rparr>)"
    by (rule run_ws) (use b in \<open>auto simp: in_string_def value_complete_def\<close>)
  ultimately show ?thesis using Cons by (auto simp: fin_ws_def)
qed

lemma step_str_char:
  "0x20 \<le> c \<Longrightarrow> c \<noteq> b_quote \<Longrightarrow> c \<noteq> b_backslash \<Longrightarrow>
    jg_step c \<lparr>jg_state = InString k, jg_stack = st, jg_ws_run = 0\<rparr> =
      (\<lparr>jg_state = InString k, jg_stack = st, jg_ws_run = 0\<rparr>, True)"
proof -
  assume a: "0x20 \<le> c" "c \<noteq> b_quote" "c \<noteq> b_backslash"
  from a(1) have "\<not> c \<le> 0x1F" by unat_arith
  with a show ?thesis by (simp add: jg_step.simps in_string_def Let_def)
qed

lemma run_hex:
  "list_all is_hex hs \<Longrightarrow> m + length hs = 4 \<Longrightarrow> hs \<noteq> [] \<Longrightarrow>
    jg_to hs \<lparr>jg_state = InStringUnicode k m, jg_stack = st, jg_ws_run = 0\<rparr> (InString k) st"
proof (induction hs arbitrary: m)
  case (Cons h hs)
  have "jg_step h \<lparr>jg_state = InStringUnicode k m, jg_stack = st, jg_ws_run = 0\<rparr> =
     (\<lparr>jg_state = (if m + 1 \<ge> 4 then InString k else InStringUnicode k (m + 1)), jg_stack = st, jg_ws_run = 0\<rparr>, True)"
    using Cons.prems by (simp add: jg_step.simps in_string_def Let_def)
  moreover have "m + 1 \<ge> 4 \<longleftrightarrow> hs = []" using Cons.prems(2) by (cases hs) auto
  ultimately show ?case using Cons.prems Cons.IH [of "m + 1"] by (auto simp: jg_to_def)
qed simp

lemma run_str_body: "str_body s \<Longrightarrow> jg_to s \<lparr>jg_state = InString k, jg_stack = st, jg_ws_run = 0\<rparr> (InString k) st"
proof (induction rule: str_body.induct)
  case (sb_char s c)
  then show ?case by (simp add: jg_to_def jg_run_append step_str_char)
next
  case (sb_escape s c)
  have "c \<noteq> b_u" using sb_escape(2) by (auto simp: ESCAPES_def)
  with sb_escape show ?case
    by (simp add: jg_to_def jg_run_append jg_step.simps in_string_def Let_def)
next
  case (sb_unicode s hs)
  with run_hex [of hs 0 k st] show ?case
    by (cases hs) (simp_all add: jg_to_def jg_run_append jg_step.simps in_string_def Let_def del: jg_run.simps(2),
      simp add: jg_step.simps in_string_def Let_def jg_run.simps)
qed (simp add: jg_to_def)

lemma run_number:
  "list_all num_byte bs \<Longrightarrow> jg_state g = InNumber \<Longrightarrow> jg_ws_run g = 0 \<Longrightarrow> jg_run bs g = Some g"
proof (induction bs)
  case (Cons b bs)
  have "b \<notin> set WS" using Cons.prems(1) by (auto simp: num_byte_def NUM_MARKS_def WS_def is_digit_def)
  then have "jg_step b g = (g\<lparr>jg_ws_run := 0\<rparr>, True)"
    using Cons.prems by (simp add: jg_step.simps [of b g] Let_def num_byte_def)
  moreover have "g\<lparr>jg_ws_run := 0\<rparr> = g" using Cons.prems(3) by (cases g) simp
  ultimately show ?case using Cons by simp
qed simp


lemma run_gapped:
  assumes "gapped cs v" "ready g" "cs = take pos (literal_bytes k)" "0 < pos" "pos \<le> length (literal_bytes k)"
  shows "jg_to v g (if pos = length (literal_bytes k) then value_complete (jg_stack g) else InLiteral k pos) (jg_stack g)"
  using assms
proof (induction arbitrary: pos rule: gapped.induct)
  case (gap_one c)
  then have "length [c] = pos" using length_take [of pos "literal_bytes k"] by simp
  then have "pos = 1" by simp
  moreover have "length (literal_bytes k) \<noteq> 1" by (cases k) simp_all
  moreover have "c = literal_bytes k ! 0" using gap_one.prems \<open>pos = 1\<close> by (cases k) simp_all
  ultimately show ?case using gap_one.prems(1)
    by (cases k) (auto simp: jg_to_def ready_def jg_step.simps [of _ g] WS_def in_string_def enter_value_def
        is_digit_def Let_def)
next
  case (gap_snoc cs v w c)
  have ne: "cs \<noteq> []" using gap_snoc.hyps(1) by cases simp_all
  have p: "pos - 1 < length (literal_bytes k)" "length (cs @ [c]) = pos" using gap_snoc.prems by auto
  then have "take pos (literal_bytes k) = take (pos - 1) (literal_bytes k) @ [literal_bytes k ! (pos - 1)]"
    using gap_snoc.prems(3) take_Suc_conv_app_nth [of "pos - 1" "literal_bytes k"] by simp
  with gap_snoc.prems(2) have c: "cs = take (pos - 1) (literal_bytes k)" "c = literal_bytes k ! (pos - 1)" by simp_all
  have "0 < pos - 1" using ne p(2) by (cases cs) auto
  with gap_snoc.IH [OF gap_snoc.prems(1) c(1)] p(1)
  have r: "jg_run v g = Some \<lparr>jg_state = InLiteral k (pos - 1), jg_stack = jg_stack g, jg_ws_run = 0\<rparr>"
    by (simp add: jg_to_def)
  let ?g = "\<lparr>jg_state = InLiteral k (pos - 1), jg_stack = jg_stack g, jg_ws_run = 0\<rparr>"
  have w: "jg_run w ?g = Some (?g\<lparr>jg_ws_run := length w\<rparr>)"
    using run_ws [of w ?g] gap_snoc.hyps(2) by (simp add: ws_def in_string_def)
  show ?case
    using r w c(2) p(1) literal_not_ws [OF p(1)] gap_snoc.prems(3)
    by (auto simp: jg_to_def jg_run_append jg_step.simps in_string_def Let_def transit_value_complete_def
        value_complete_def)
qed

lemma step_fin_ws:
  assumes "fin_ws st g" "\<not> num_byte b" "b \<notin> set WS" "st \<noteq> []"
  shows "jg_step b g = handle_after_value b \<lparr>jg_state = AfterValue, jg_stack = st, jg_ws_run = 0\<rparr>"
proof -
  have a: "jg_step b g' = handle_after_value b \<lparr>jg_state = AfterValue, jg_stack = st, jg_ws_run = 0\<rparr>"
    if "jg_state g' = AfterValue" "jg_stack g' = st" for g'
    using that assms(3) by (cases g') (simp add: jg_step.simps Let_def)
  show ?thesis
  proof (cases "jg_state g = InNumber")
    case True
    with assms have "jg_stack g = st" "jg_ws_run g = 0" by (auto simp: fin_ws_def value_complete_def)
    with jg_step_number [OF True assms(2)] a [of "close_number g"] assms(4) show ?thesis by simp
  next
    case False
    with assms a [of g] show ?thesis by (auto simp: fin_ws_def value_complete_def)
  qed
qed

lemma fin_to: "jg_to v g (value_complete st) st \<Longrightarrow> \<exists>g'. jg_run v g = Some g' \<and> fin st g'"
  by (auto simp: jg_to_def fin_def)

lemma run_value_tail:
  assumes "jg_run p g = Some g1" "ready g1" "jg_ws_run g1 = 0" "jg_stack g1 = st" "st \<noteq> []" "ws w"
    "\<And>g. ready g \<Longrightarrow> \<exists>g'. jg_run v g = Some g' \<and> fin (jg_stack g) g'" "ws w'"
    "\<not> num_byte b" "b \<notin> set WS"
    "handle_after_value b \<lparr>jg_state = AfterValue, jg_stack = st, jg_ws_run = 0\<rparr> = (g2, True)"
  shows "jg_run (p @ w @ v @ w' @ [b]) g = Some g2"
proof -
  have ns: "\<not> in_string g1" "jg_state g1 \<noteq> InNumber" using assms(2) by (auto simp: ready_def in_string_def)
  have "jg_run w g1 = Some (g1\<lparr>jg_ws_run := length w\<rparr>)"
    using run_ws [of w g1] assms(3,6) ns by (simp add: ws_def)
  moreover have "ready (g1\<lparr>jg_ws_run := length w\<rparr>)" using assms(2) by (simp add: ready_def)
  ultimately obtain g' where v: "jg_run v (g1\<lparr>jg_ws_run := length w\<rparr>) = Some g'" "fin st g'"
    using assms(4,7) by (metis json_grammar.ext_inject json_grammar.surjective json_grammar.update_convs(3))
  from run_ws_fin [OF v(2) assms(8)] obtain g'' where "jg_run w' g' = Some g''" "fin_ws st g''" by blast
  with step_fin_ws [OF this(2) assms(9,10,5)] v(1) \<open>jg_run w g1 = _\<close> assms(1,11) show ?thesis
    by (simp add: jg_run_append)
qed

lemma run_ready:
  "jvalue v \<Longrightarrow> ready g \<Longrightarrow> \<exists>g'. jg_run v g = Some g' \<and> fin (jg_stack g) g'"
  "open_arr p \<Longrightarrow> ready g \<Longrightarrow> \<exists>l. jg_to p g (ArrayExpectValueOrEnd l) (ArrayFrame # jg_stack g)"
  "open_obj p' \<Longrightarrow> ready g \<Longrightarrow> \<exists>l. jg_to p' g (ObjectExpectKeyOrEnd l) (ObjectFrame # jg_stack g)"
  "key_obj q \<Longrightarrow> ready g \<Longrightarrow> jg_to q g Start (ObjectFrame # jg_stack g)"
proof (induction arbitrary: g and g and g and g rule: jvalue_open_arr_open_obj_key_obj.inducts)
  case (jv_literal k v)
  from run_gapped [OF jv_literal(1,2), of "length (literal_bytes k)" k] show ?case
    by (cases k) (auto intro!: fin_to)
next
  case (jv_number v)
  then obtain b bs where v: "v = b # bs" "b = b_minus \<or> is_digit b" "list_all num_byte bs" by (auto simp: number_def)
  let ?g = "\<lparr>jg_state = InNumber, jg_stack = jg_stack g, jg_ws_run = 0\<rparr>"
  have "b \<notin> set WS" "b \<noteq> b_rbracket" using v(2) by (auto simp: WS_def is_digit_def)
  moreover have "enter_value b (g\<lparr>jg_ws_run := 0\<rparr>) = (?g, True)"
    using v(2) by (cases g) (auto simp: enter_value_def is_digit_def)
  ultimately have "jg_step b g = (?g, True)"
    using jv_number(2) by (auto simp: jg_step.simps [of b g] ready_def Let_def)
  with run_number [OF v(3), of ?g] v(1) show ?case by (simp add: fin_def)
next
  case (jv_string s)
  let ?g = "\<lparr>jg_state = InString False, jg_stack = jg_stack g, jg_ws_run = 0\<rparr>"
  have "jg_step b_quote g = (?g, True)"
    using jv_string(2) by (cases g) (auto simp: jg_step.simps ready_def enter_value_def in_string_def Let_def)
  with run_str_body [OF jv_string(1), of False "jg_stack g"] show ?case
    by (auto simp: jg_to_def jg_run_append jg_step.simps in_string_def Let_def transit_value_complete_def fin_def
        value_complete_def)
next
  case (jv_array_nil w)
  let ?g = "\<lparr>jg_state = ArrayExpectValueOrEnd False, jg_stack = ArrayFrame # jg_stack g, jg_ws_run = 0\<rparr>"
  have "jg_step b_lbracket g = (?g, True)"
    using jv_array_nil(2) by (cases g) (auto simp: jg_step.simps ready_def enter_value_def in_string_def Let_def)
  moreover have "jg_run w ?g = Some (?g\<lparr>jg_ws_run := length w\<rparr>)"
    using run_ws [of w ?g] jv_array_nil(1) by (simp add: ws_def in_string_def)
  ultimately show ?case
    by (simp add: jg_run_append jg_step.simps in_string_def Let_def close_container_def
        transit_value_complete_def fin_def value_complete_def)
next
  case (jv_array p w v w')
  then obtain l where "jg_to p g (ArrayExpectValueOrEnd l) (ArrayFrame # jg_stack g)" by blast
  with jv_array run_value_tail [of p g _ "ArrayFrame # jg_stack g" w v w' b_rbracket]
  show ?case by (auto simp: jg_to_def ready_def handle_after_value_def close_container_def Let_def
        transit_value_complete_def fin_def value_complete_def)
next
  case (jv_object_nil w)
  let ?g = "\<lparr>jg_state = ObjectExpectKeyOrEnd False, jg_stack = ObjectFrame # jg_stack g, jg_ws_run = 0\<rparr>"
  have "jg_step b_lbrace g = (?g, True)"
    using jv_object_nil(2) by (cases g) (auto simp: jg_step.simps ready_def enter_value_def in_string_def Let_def)
  moreover have "jg_run w ?g = Some (?g\<lparr>jg_ws_run := length w\<rparr>)"
    using run_ws [of w ?g] jv_object_nil(1) by (simp add: ws_def in_string_def)
  ultimately show ?case
    by (simp add: jg_run_append jg_step.simps in_string_def Let_def close_container_def
        transit_value_complete_def fin_def value_complete_def)
next
  case (jv_object p w v w')
  then have "jg_to p g Start (ObjectFrame # jg_stack g)" by blast
  with jv_object run_value_tail [of p g _ "ObjectFrame # jg_stack g" w v w' b_rbrace]
  show ?case by (auto simp: jg_to_def ready_def handle_after_value_def close_container_def Let_def
        transit_value_complete_def fin_def value_complete_def)
next
  case oa_open
  then show ?case
    by (cases g) (auto simp: jg_to_def jg_step.simps ready_def enter_value_def in_string_def Let_def)
next
  case (oa_next p w v w')
  then obtain l where "jg_to p g (ArrayExpectValueOrEnd l) (ArrayFrame # jg_stack g)" by blast
  with oa_next run_value_tail [of p g _ "ArrayFrame # jg_stack g" w v w' b_comma]
  show ?case by (auto simp: jg_to_def ready_def handle_after_value_def)
next
  case oo_open
  then show ?case
    by (cases g) (auto simp: jg_to_def jg_step.simps ready_def enter_value_def in_string_def Let_def)
next
  case (oo_next p w v w')
  then have "jg_to p g Start (ObjectFrame # jg_stack g)" by blast
  with oo_next run_value_tail [of p g _ "ObjectFrame # jg_stack g" w v w' b_comma]
  show ?case by (auto simp: jg_to_def ready_def handle_after_value_def)
next
  case (ko_key p w s w')
  then obtain l where p: "jg_to p g (ObjectExpectKeyOrEnd l) (ObjectFrame # jg_stack g)" by blast
  let ?g1 = "\<lparr>jg_state = ObjectExpectKeyOrEnd l, jg_stack = ObjectFrame # jg_stack g, jg_ws_run = 0\<rparr>"
  let ?g2 = "\<lparr>jg_state = ObjectExpectColon, jg_stack = ObjectFrame # jg_stack g, jg_ws_run = 0\<rparr>"
  have "jg_run w ?g1 = Some (?g1\<lparr>jg_ws_run := length w\<rparr>)"
    using run_ws [of w ?g1] ko_key.hyps by (simp add: ws_def in_string_def)
  moreover have "jg_run w' ?g2 = Some (?g2\<lparr>jg_ws_run := length w'\<rparr>)"
    using run_ws [of w' ?g2] ko_key.hyps by (simp add: ws_def in_string_def)
  ultimately show ?case
    using p run_str_body [OF ko_key.hyps(3), of True "ObjectFrame # jg_stack g"]
    by (simp add: jg_to_def jg_run_append jg_step.simps in_string_def Let_def)
qed

section \<open>The automaton and the grammar agree\<close>

lemma json_text_run:
  assumes "json_text bs"
  shows "\<exists>g. jg_run bs jg_new = Some g \<and> jg_is_done g"
proof -
  from assms obtain w v w' where t: "bs = w @ v @ w'" "ws w" "jvalue v" "ws w'" unfolding json_text_def by blast
  let ?g = "jg_new\<lparr>jg_ws_run := length w\<rparr>"
  have w: "jg_run w jg_new = Some ?g"
    using run_ws [of w jg_new] t(2) by (simp add: ws_def jg_new_def in_string_def)
  have "ready ?g" "jg_stack ?g = []" by (simp_all add: ready_def jg_new_def)
  with run_ready(1) [OF t(3)] obtain g1 where v: "jg_run v ?g = Some g1" "fin [] g1" by metis
  from run_ws_fin [OF v(2) t(4)] obtain g2 where "jg_run w' g1 = Some g2" "fin_ws [] g2" by blast
  with t(1) w v(1) show ?thesis
    by (auto simp: jg_run_append fin_ws_def jg_is_done_def value_complete_def)
qed

text \<open>C5: What the JSON automaton accepts. The byte strings that lead from the initial state to
  one where \<open>is_done\<close> holds are exactly the texts of the grammar: JSON, with bounded
  whitespace runs, lenient numbers and gapped literals.
\<close>

theorem json_automaton_language:
  "(\<exists>g. jg_run bs jg_new = Some g \<and> jg_is_done g) \<longleftrightarrow> json_text bs"
  using json_text_run jg_run_inv [OF jg_inv_new] jg_done_sound by fastforce

text \<open>The byte set and the step agree. In a reachable state \<open>allowed_bytes\<close> offers exactly
  the bytes that \<open>step\<close> takes, with one exception: inside a literal \<open>step\<close> also takes
  whitespace, which the byte set does not offer.
\<close>

theorem allowed_bytes_exact:
  assumes "jg_run bs jg_new = Some g"
  shows "snd (jg_step b g) \<longleftrightarrow>
    allowed_bytes g b \<or> (\<exists>k pos. jg_state g = InLiteral k pos) \<and> b \<in> set WS \<and> jg_ws_run g < MAX_INSIGNIFICANT_WS_RUN"
proof -
  note inv = jg_run_inv [OF jg_inv_new assms, simplified]
  have num: "snd (jg_step b g) = allowed_bytes g b" if n: "jg_state g = InNumber"
  proof -
    have z: "jg_ws_run g = 0" using inv n by (simp add: jg_inv_def Let_def)
    show ?thesis
    proof (cases "num_byte b")
      case True
      then have "b \<notin> set WS" by (auto simp: num_byte_def NUM_MARKS_def WS_def is_digit_def)
      with True n z show ?thesis
        by (auto simp: jg_step.simps [of b g] num_byte_def allowed_bytes_def MAX_INSIGNIFICANT_WS_RUN_def Let_def)
    next
      case False
      with n z show ?thesis
        by (simp add: jg_step_number jg_step.simps [of b "close_number g"] in_string_def allowed_bytes_def
            num_byte_def Let_def MAX_INSIGNIFICANT_WS_RUN_def handle_after_value_def close_container_def
            in_object_def in_array_def split: list.split json_frame.split)
    qed
  qed
  have lt: "\<not> b \<le> 0x1F \<longleftrightarrow> 0x20 \<le> b" by unat_arith
  have str: "b \<in> set WS \<Longrightarrow> jg_ws_run g < 64" if "in_string g"
    using inv that by (auto simp: jg_inv_def in_string_def Let_def split: json_state.splits)
  show ?thesis
  proof (cases "jg_state g")
    case InNumber
    with num show ?thesis by simp
  next
    case (InString k)
    with str show ?thesis
      using lt by (auto simp: jg_step.simps [of b g] allowed_bytes_def in_string_def MAX_INSIGNIFICANT_WS_RUN_def Let_def)
  next
    case (InStringEscape k)
    with str show ?thesis
      by (auto simp: jg_step.simps [of b g] allowed_bytes_def in_string_def MAX_INSIGNIFICANT_WS_RUN_def Let_def)
  next
    case (InStringUnicode k m)
    with str show ?thesis
      by (auto simp: jg_step.simps [of b g] allowed_bytes_def in_string_def MAX_INSIGNIFICANT_WS_RUN_def Let_def)
  next
    case Start
    then show ?thesis
      by (auto simp: jg_step.simps [of b g] allowed_bytes_def in_string_def enter_value_def value_starter_def
          WS_def is_digit_def Let_def)
  next
    case (ArrayExpectValueOrEnd l)
    then have "\<exists>st. jg_stack g = ArrayFrame # st" using inv by (auto simp: jg_inv_def at_element_def Let_def)
    with ArrayExpectValueOrEnd show ?thesis
      by (auto simp: jg_step.simps [of b g] allowed_bytes_def in_string_def enter_value_def value_starter_def
          WS_def is_digit_def close_container_def Let_def)
  next
    case (InLiteral k pos)
    then have "b = literal_bytes k ! pos \<Longrightarrow> pos < length (literal_bytes k) \<Longrightarrow> b \<notin> set WS"
      using literal_not_ws by blast
    with InLiteral show ?thesis
      by (auto simp: jg_step.simps [of b g] allowed_bytes_def in_string_def Let_def)
  next
    case (ObjectExpectKeyOrEnd l)
    then have "\<exists>st. jg_stack g = ObjectFrame # st" using inv by (auto simp: jg_inv_def at_key_def Let_def)
    with ObjectExpectKeyOrEnd show ?thesis
      by (auto simp: jg_step.simps [of b g] allowed_bytes_def in_string_def close_container_def Let_def)
  next
    case ObjectExpectColon
    then show ?thesis by (auto simp: jg_step.simps [of b g] allowed_bytes_def in_string_def Let_def)
  next
    case AfterValue
    then show ?thesis
      by (auto simp: jg_step.simps [of b g] allowed_bytes_def in_string_def handle_after_value_def
          close_container_def Let_def split: list.splits json_frame.splits)
  next
    case Done
    then show ?thesis by (auto simp: jg_step.simps [of b g] allowed_bytes_def in_string_def Let_def)
  qed
qed

section \<open>Every state can be completed\<close>

fun closer :: "json_frame \<Rightarrow> u8" where
  "closer ArrayFrame = b_rbracket"
| "closer ObjectFrame = b_rbrace"

text \<open>The bytes that end the token in progress and, where one is due, give a value.\<close>

fun string_rest :: "bool \<Rightarrow> u8 list" where
  "string_rest is_key = (if is_key then [b_quote, b_colon, 0x30] else [b_quote])"

fun token_rest :: "json_state \<Rightarrow> u8 list" where
  "token_rest Start = [0x30]"
| "token_rest (ArrayExpectValueOrEnd _) = [0x30]"
| "token_rest (InString k) = string_rest k"
| "token_rest (InStringEscape k) = b_quote # string_rest k"
| "token_rest (InStringUnicode k m) = replicate (4 - m) 0x30 @ string_rest k"
| "token_rest InNumber = []"
| "token_rest (InLiteral k pos) = drop pos (literal_bytes k)"
| "token_rest (ObjectExpectKeyOrEnd _) = b_quote # string_rest True"
| "token_rest ObjectExpectColon = [b_colon, 0x30]"
| "token_rest AfterValue = []"
| "token_rest Done = []"

lemma step_value_digit:
  "ready g \<Longrightarrow> jg_step 0x30 g = (\<lparr>jg_state = InNumber, jg_stack = jg_stack g, jg_ws_run = 0\<rparr>, True)"
  by (cases g) (auto simp: jg_step.simps ready_def WS_def enter_value_def is_digit_def in_string_def Let_def)

lemma run_zero: "ready g \<Longrightarrow> \<exists>g'. jg_run [0x30] g = Some g' \<and> fin_ws (jg_stack g) g'"
  by (simp add: step_value_digit fin_ws_def)

lemma run_string_rest:
  assumes "jg_state g = InString k"
  shows "\<exists>g'. jg_run (string_rest k) g = Some g' \<and> fin_ws (jg_stack g) g'"
proof (cases k)
  case False
  with assms show ?thesis
    by (simp add: jg_step.simps [of _ g] in_string_def Let_def transit_value_complete_def fin_ws_def value_complete_def)
next
  case True
  let ?g = "\<lparr>jg_state = Start, jg_stack = jg_stack g, jg_ws_run = 0\<rparr>"
  have "jg_step b_quote g = (\<lparr>jg_state = ObjectExpectColon, jg_stack = jg_stack g, jg_ws_run = 0\<rparr>, True)"
    using assms True by (cases g) (simp add: jg_step.simps in_string_def Let_def)
  moreover have "jg_step b_colon \<lparr>jg_state = ObjectExpectColon, jg_stack = jg_stack g, jg_ws_run = 0\<rparr> = (?g, True)"
    by (simp add: jg_step.simps in_string_def Let_def)
  ultimately show ?thesis using True step_value_digit [of ?g] by (simp add: ready_def fin_ws_def)
qed

lemma run_literal_rest:
  "jg_state g = InLiteral k pos \<Longrightarrow> n = length (literal_bytes k) - pos \<Longrightarrow> 0 < n \<Longrightarrow>
    \<exists>g'. jg_run (drop pos (literal_bytes k)) g = Some g' \<and> fin_ws (jg_stack g) g'"
proof (induction n arbitrary: pos g)
  case (Suc n)
  then have p: "pos < length (literal_bytes k)" by simp
  let ?g = "g\<lparr>jg_ws_run := 0, jg_state := InLiteral k (pos + 1)\<rparr>"
  have "drop pos (literal_bytes k) = literal_bytes k ! pos # drop (pos + 1) (literal_bytes k)"
    using p by (simp add: Cons_nth_drop_Suc)
  moreover have "jg_step (literal_bytes k ! pos) g =
      (if n = 0 then transit_value_complete (g\<lparr>jg_ws_run := 0\<rparr>) else ?g, True)"
    using Suc.prems literal_not_ws [OF p] p
    by (auto simp: jg_step.simps [of _ g] Let_def)
  ultimately show ?case
    using Suc.prems(2) Suc.IH [of ?g "pos + 1"]
    by (cases n) (auto simp: transit_value_complete_def fin_ws_def value_complete_def)
qed simp

lemma run_token_rest:
  assumes "jg_inv bs g"
  shows "\<exists>g'. jg_run (token_rest (jg_state g)) g = Some g' \<and> fin_ws (jg_stack g) g'"
proof (cases "jg_state g")
  case Start
  then show ?thesis using run_zero [of g] by (simp only: token_rest.simps) (simp add: ready_def)
next
  case (ArrayExpectValueOrEnd l)
  then show ?thesis using run_zero [of g] by (simp only: token_rest.simps) (simp add: ready_def)
next
  case (InString k)
  with run_string_rest [OF this] show ?thesis by simp
next
  case (InStringEscape k)
  let ?g = "g\<lparr>jg_ws_run := 0, jg_state := InString k\<rparr>"
  have "jg_step b_quote g = (?g, True)"
    using InStringEscape by (simp add: jg_step.simps [of _ g] in_string_def ESCAPES_def Let_def)
  with run_string_rest [of ?g k] InStringEscape show ?thesis by simp
next
  case (InStringUnicode k m)
  with assms have "m < 4" "jg_ws_run g = 0" by (simp_all add: jg_inv_def Let_def)
  moreover have "list_all is_hex (replicate n 0x30)" for n by (induction n) (simp_all add: is_hex_def is_digit_def)
  ultimately have "jg_to (replicate (4 - m) 0x30) g (InString k) (jg_stack g)"
    using run_hex [of "replicate (4 - m) 0x30" m k "jg_stack g"] InStringUnicode by (cases g) simp
  with run_string_rest [of "\<lparr>jg_state = InString k, jg_stack = jg_stack g, jg_ws_run = 0\<rparr>" k] InStringUnicode
  show ?thesis by (simp add: jg_to_def jg_run_append)
next
  case InNumber
  with assms show ?thesis by (simp add: jg_inv_def fin_ws_def Let_def)
next
  case (InLiteral k pos)
  with assms have "0 < length (literal_bytes k) - pos" by (auto simp: jg_inv_def Let_def)
  with run_literal_rest [OF InLiteral _ this] InLiteral show ?thesis by simp
next
  case (ObjectExpectKeyOrEnd l)
  let ?g = "g\<lparr>jg_ws_run := 0, jg_state := InString True\<rparr>"
  have "jg_step b_quote g = (?g, True)"
    using ObjectExpectKeyOrEnd by (simp add: jg_step.simps [of _ g] in_string_def Let_def)
  with run_string_rest [of ?g True] ObjectExpectKeyOrEnd show ?thesis by simp
next
  case ObjectExpectColon
  let ?g = "g\<lparr>jg_ws_run := 0, jg_state := Start\<rparr>"
  have "jg_step b_colon g = (?g, True)"
    using ObjectExpectColon by (simp add: jg_step.simps [of _ g] in_string_def Let_def)
  with run_zero [of ?g] ObjectExpectColon show ?thesis by (simp add: ready_def)
next
  case AfterValue
  with assms show ?thesis by (simp add: jg_inv_def fin_ws_def value_complete_def Let_def)
next
  case Done
  with assms show ?thesis by (simp add: jg_inv_def fin_ws_def value_complete_def Let_def)
qed

lemma run_closers: "fin_ws st g \<Longrightarrow> \<exists>g'. jg_run (map closer st) g = Some g' \<and> jg_is_done g'"
proof (induction st arbitrary: g)
  case Nil
  then show ?case by (auto simp: fin_ws_def jg_is_done_def value_complete_def)
next
  case (Cons f st)
  let ?g = "\<lparr>jg_state = value_complete st, jg_stack = st, jg_ws_run = 0\<rparr>"
  have "jg_step (closer f) g = (?g, True)"
    using step_fin_ws [OF Cons.prems, of "closer f"]
    by (cases f) (simp_all add: handle_after_value_def close_container_def transit_value_complete_def value_complete_def Let_def)
  moreover have "fin_ws st ?g" by (simp add: fin_ws_def)
  ultimately show ?case using Cons.IH by simp
qed

lemma length_token_rest: "jg_inv bs g \<Longrightarrow> length (token_rest (jg_state g)) \<le> 7"
proof (cases "jg_state g")
  case (InLiteral k pos)
  assume "jg_inv bs g"
  with InLiteral show ?thesis by (cases k) (auto simp: jg_inv_def Let_def)
qed auto

lemma jg_inv_completable:
  assumes inv: "jg_inv bs g"
  shows "\<exists>rest g'. jg_run rest g = Some g' \<and> jg_is_done g' \<and> length rest \<le> 7 + length (jg_stack g)"
proof -
  from run_token_rest [OF inv] obtain g1 where a: "jg_run (token_rest (jg_state g)) g = Some g1" "fin_ws (jg_stack g) g1"
    by blast
  from run_closers [OF a(2)] obtain g2 where "jg_run (map closer (jg_stack g)) g1 = Some g2" "jg_is_done g2" by blast
  with a(1) length_token_rest [OF inv] show ?thesis
    by (intro exI [of _ "token_rest (jg_state g) @ map closer (jg_stack g)"] exI [of _ g2])
       (simp add: jg_run_append)
qed

text \<open>C25: No dead end. From every state the automaton reaches, at most seven bytes and one
  closing bracket for each open frame lead to a complete text: the constraint never
  leaves a reply that cannot be finished, and at every position some byte is offered.
\<close>

theorem json_completable:
  assumes "jg_run bs jg_new = Some g"
  shows "\<exists>rest g'. jg_run rest g = Some g' \<and> jg_is_done g' \<and> length rest \<le> 7 + length (jg_stack g)"
  by (rule jg_inv_completable [OF jg_run_inv [OF jg_inv_new assms]])

section \<open>Instances\<close>

text \<open>\<^verbatim>\<open>{"a": [1, tr\<close>\<close>

definition sample_json :: "u8 list" where
  "sample_json = [0x7B, 0x22, 0x61, 0x22, 0x3A, 0x20, 0x5B, 0x31, 0x2C, 0x20, 0x74, 0x72]"

definition sample_json_state :: json_grammar where
  "sample_json_state = \<lparr>jg_state = InLiteral LitTrue 2, jg_stack = [ArrayFrame, ObjectFrame], jg_ws_run = 0\<rparr>"

lemma sample_run: "jg_run sample_json jg_new = Some sample_json_state"
  by code_simp

theorem allowed_bytes_exact_witness:
  "snd (jg_step 0x75 sample_json_state) \<and> \<not> snd (jg_step 0x76 sample_json_state)"
proof -
  have "allowed_bytes sample_json_state 0x75" "\<not> allowed_bytes sample_json_state 0x76" "0x76 \<notin> set WS" by code_simp+
  with allowed_bytes_exact [OF sample_run] show ?thesis by blast
qed

theorem json_completable_witness:
  "\<exists>rest g'. jg_run rest sample_json_state = Some g' \<and> jg_is_done g' \<and> length rest \<le> 9"
  using json_completable [OF sample_run] by (simp add: sample_json_state_def)

text \<open>Texts that are not JSON. The automaton accepts and completes on \<^verbatim>\<open>t rue\<close> (whitespace
  inside a literal), \<^verbatim>\<open>-\<close> and \<^verbatim>\<open>1.e+-2\<close> (numbers without their grammar); the byte set does
  not offer the space inside the literal that the step takes.
\<close>

theorem json_accepts_malformed:
  "(\<exists>g. jg_run [0x74, 0x20, 0x72, 0x75, 0x65] jg_new = Some g \<and> jg_is_done g) \<and>
   (\<exists>g. jg_run [0x2D] jg_new = Some g \<and> jg_is_done g) \<and>
   (\<exists>g. jg_run [0x31, 0x2E, 0x65, 0x2B, 0x2D, 0x32] jg_new = Some g \<and> jg_is_done g) \<and>
   \<not> allowed_bytes (fst (jg_step 0x74 jg_new)) 0x20"
proof -
  have "map_option jg_is_done (jg_run [0x74, 0x20, 0x72, 0x75, 0x65] jg_new) = Some True"
    "map_option jg_is_done (jg_run [0x2D] jg_new) = Some True"
    "map_option jg_is_done (jg_run [0x31, 0x2E, 0x65, 0x2B, 0x2D, 0x32] jg_new) = Some True"
    "\<not> allowed_bytes (fst (jg_step 0x74 jg_new)) 0x20"
    by code_simp+
  then show ?thesis by auto
qed

end
