(* ===== verification/Utf8.thy ===== *)
theory Utf8
  imports Prelude
begin

text \<open>
  A Rust \<^verbatim>\<open>str\<close> as its bytes. \<open>is_char_boundary\<close> is the standard library's test: an index
  inside the text is a boundary unless the byte there continues a character. \<open>find_bytes\<close>
  is \<^verbatim>\<open>str::find\<close> and \<open>rfind_bytes\<close> is \<^verbatim>\<open>str::rfind\<close> with a string needle.
\<close>

definition is_cont :: "u8 \<Rightarrow> bool" where "is_cont b \<longleftrightarrow> 0x80 \<le> b \<and> b \<le> 0xBF"

definition is_char_boundary :: "u8 list \<Rightarrow> nat \<Rightarrow> bool" where
  "is_char_boundary s i \<longleftrightarrow> i = 0 \<or> i = length s \<or> i < length s \<and> \<not> is_cont (s ! i)"

definition starts_with :: "'a list \<Rightarrow> 'a list \<Rightarrow> bool" where
  "starts_with s p \<longleftrightarrow> take (length p) s = p"

fun find_bytes :: "'a list \<Rightarrow> 'a list \<Rightarrow> nat option" where
  "find_bytes p [] = (if p = [] then Some 0 else None)"
| "find_bytes p (b # bs) =
     (if starts_with (b # bs) p then Some 0 else map_option Suc (find_bytes p bs))"

definition rfind_bytes :: "'a list \<Rightarrow> 'a list \<Rightarrow> nat option" where
  "rfind_bytes p s = map_option (\<lambda>i. length s - i - length p) (find_bytes (rev p) (rev s))"

text \<open>Text that does not start with a continuation byte: a valid UTF-8 text, or a suffix cut at a boundary.\<close>

definition starts_char :: "u8 list \<Rightarrow> bool" where
  "starts_char s \<longleftrightarrow> (case s of [] \<Rightarrow> True | b # _ \<Rightarrow> \<not> is_cont b)"

lemma starts_with_iff: "starts_with s p \<longleftrightarrow> (\<exists>t. s = p @ t)"
  unfolding starts_with_def by (metis append_eq_conv_conj append_take_drop_id)

lemma starts_with_length: "starts_with s p \<Longrightarrow> length p \<le> length s"
  unfolding starts_with_def by (metis length_take min.cobounded1)

lemma find_bytes_Some:
  "find_bytes p s = Some i \<Longrightarrow> i + length p \<le> length s \<and> starts_with (drop i s) p \<and>
     (\<forall>j<i. \<not> starts_with (drop j s) p)"
proof (induction s arbitrary: i)
  case Nil
  then show ?case by (auto simp: starts_with_def split: if_splits)
next
  case (Cons b bs)
  show ?case
  proof (cases "starts_with (b # bs) p")
    case True
    with Cons.prems have "i = 0" by simp
    with starts_with_length [OF True] show ?thesis using True by simp
  next
    case False
    with Cons.prems obtain k where "find_bytes p bs = Some k" "i = Suc k" by auto
    with Cons.IH [of k] False show ?thesis by (auto simp: less_Suc_eq_0_disj)
  qed
qed

lemma find_bytes_None: "find_bytes p s = None \<longleftrightarrow> (\<forall>j\<le>length s. \<not> starts_with (drop j s) p)"
proof (induction s)
  case Nil
  show ?case by (auto simp: starts_with_def)
next
  case (Cons b bs)
  show ?case
  proof (cases "starts_with (b # bs) p")
    case True
    then show ?thesis by (auto intro!: exI [of _ 0])
  next
    case False
    have split: "(\<forall>j\<le>Suc n. Q j) \<longleftrightarrow> Q 0 \<and> (\<forall>j\<le>n. Q (Suc j))" for Q :: "nat \<Rightarrow> bool" and n
      by (metis Suc_le_mono le0 not0_implies_Suc)
    show ?thesis using False Cons.IH by (simp add: split)
  qed
qed

lemma find_bytes_eqI:
  assumes "starts_with (drop i s) p" "i \<le> length s" "\<And>j. j < i \<Longrightarrow> \<not> starts_with (drop j s) p"
  shows "find_bytes p s = Some i"
proof (cases "find_bytes p s")
  case None
  with assms show ?thesis by (simp add: find_bytes_None)
next
  case (Some k)
  note F = find_bytes_Some [OF this]
  have "\<not> i < k" "\<not> k < i" using F assms by blast+
  with Some show ?thesis by simp
qed

end
