(* ===== verification/JsonConstraint.thy ===== *)
theory JsonConstraint
  imports JsonLanguage Utf8
begin

text \<open>
  Constrained decoding to JSON: the token table, the allow-mask and the \<^verbatim>\<open>json_object\<close>
  constraint of \<^verbatim>\<open>rmlx-server/src/constraint_json/mod.rs\<close>, the engagement record of
  \<^verbatim>\<open>rmlx-models/src/constraint.rs\<close> and the reply cut of \<^verbatim>\<open>rmlx-server/src/openai/json_reply.rs\<close>.
  The tokenizer is a function from a token id to the bytes it decodes to.
\<close>

section \<open>The token table\<close>

record token_bytes_map =
  tb_bytes :: "u8 list"
  tb_offsets :: "u32 list"
  tb_vocab_size :: nat

fun tb_build :: "(u32 \<Rightarrow> u8 list) \<Rightarrow> nat list \<Rightarrow> u8 list \<Rightarrow> u32 list \<Rightarrow> u8 list \<times> u32 list" where
  "tb_build decode [] bytes offsets = (bytes, offsets)"
| "tb_build decode (i # ids) bytes offsets =
     (let bytes' = bytes @ decode (word_of_nat i) in
      tb_build decode ids bytes' (offsets @ [word_of_nat (length bytes')]))"

definition tb_new :: "(u32 \<Rightarrow> u8 list) \<Rightarrow> nat \<Rightarrow> token_bytes_map" where
  "tb_new decode vocab_size =
     (case tb_build decode [0..<vocab_size] [] [0] of
        (bytes, offsets) \<Rightarrow> \<lparr>tb_bytes = bytes, tb_offsets = offsets, tb_vocab_size = vocab_size\<rparr>)"

definition token_bytes :: "token_bytes_map \<Rightarrow> nat \<Rightarrow> u8 list" where
  "token_bytes m i =
     (if i + 1 \<ge> length (tb_offsets m) then []
      else let lo = unat (tb_offsets m ! i); hi = unat (tb_offsets m ! (i + 1)) in
        take (hi - lo) (drop lo (tb_bytes m)))"

section \<open>The allow-mask\<close>

fun feed_ok :: "(u8 \<Rightarrow> 'g \<Rightarrow> 'g \<times> bool) \<Rightarrow> u8 list \<Rightarrow> 'g \<Rightarrow> 'g \<times> bool" where
  "feed_ok feed [] g = (g, True)"
| "feed_ok feed (b # bs) g = (case feed b g of (g', ok) \<Rightarrow> if ok then feed_ok feed bs g' else (g', False))"

fun mask_loop ::
  "('g \<Rightarrow> 'g \<Rightarrow> 'g) \<Rightarrow> (u8 \<Rightarrow> 'g \<Rightarrow> 'g \<times> bool) \<Rightarrow> 'g \<Rightarrow> token_bytes_map \<Rightarrow> nat list \<Rightarrow> 'g \<Rightarrow> bool list \<Rightarrow> bool list"
where
  "mask_loop reset_from feed g m [] scratch msk = msk"
| "mask_loop reset_from feed g m (i # is) scratch msk =
     (let bytes = token_bytes m i in
      if bytes = [] then mask_loop reset_from feed g m is scratch msk
      else
        (case feed_ok feed bytes (reset_from g scratch) of
           (scratch', ok) \<Rightarrow>
             mask_loop reset_from feed g m is scratch'
               (if ok \<and> i < length msk then msk[i := True] else msk)))"

definition fill_allow_mask ::
  "('g \<Rightarrow> 'g \<Rightarrow> 'g) \<Rightarrow> (u8 \<Rightarrow> 'g \<Rightarrow> 'g \<times> bool) \<Rightarrow> 'g \<Rightarrow> 'g \<Rightarrow> token_bytes_map \<Rightarrow> nat \<Rightarrow> bool list \<Rightarrow> bool list"
where
  "fill_allow_mask reset_from feed g scratch m vocab_size msk =
     mask_loop reset_from feed g m [0..<min (tb_vocab_size m) vocab_size] scratch msk"

text \<open>The contract of \<^verbatim>\<open>ProbeGrammar\<close>: a reset forgets the scratch value.\<close>

locale probe_grammar =
  fixes reset_from :: "'g \<Rightarrow> 'g \<Rightarrow> 'g" and feed :: "u8 \<Rightarrow> 'g \<Rightarrow> 'g \<times> bool"
  assumes reset: "reset_from src self = src"
begin

lemma mask_loop_spec:
  "length (mask_loop reset_from feed g m is scratch msk) = length msk \<and>
   (\<forall>i<length msk. mask_loop reset_from feed g m is scratch msk ! i \<longleftrightarrow>
      msk ! i \<or> i \<in> set is \<and> token_bytes m i \<noteq> [] \<and> snd (feed_ok feed (token_bytes m i) g))"
  by (induction "is" arbitrary: scratch msk)
     (auto simp: Let_def reset nth_list_update split: prod.splits)

lemma fill_allow_mask_spec:
  assumes "i < length msk"
  shows "fill_allow_mask reset_from feed g scratch m vocab msk ! i \<longleftrightarrow>
    msk ! i \<or> i < min (tb_vocab_size m) vocab \<and> token_bytes m i \<noteq> [] \<and> snd (feed_ok feed (token_bytes m i) g)"
  using assms mask_loop_spec by (simp add: fill_allow_mask_def)

lemma length_fill_allow_mask: "length (fill_allow_mask reset_from feed g scratch m vocab msk) = length msk"
  using mask_loop_spec by (simp add: fill_allow_mask_def)

end

definition jg_reset_from :: "json_grammar \<Rightarrow> json_grammar \<Rightarrow> json_grammar" where
  "jg_reset_from src self =
     self\<lparr>jg_state := jg_state src, jg_ws_run := jg_ws_run src, jg_stack := [] @ jg_stack src\<rparr>"

interpretation json_probe: probe_grammar jg_reset_from jg_step
  by unfold_locales (simp add: jg_reset_from_def)

lemma feed_ok_run: "snd (feed_ok jg_step bs g) \<longleftrightarrow> jg_run bs g \<noteq> None"
  by (induction bs arbitrary: g) (auto split: prod.splits)

section \<open>Engagement\<close>

definition WHOLE_TOKEN :: u32 where "WHOLE_TOKEN = 0xFFFFFFFF"

definition report :: "u32 \<Rightarrow> nat \<Rightarrow> u64" where
  "report token bytes_to_end =
     (let b = (if bytes_to_end < 2 ^ 32 then word_of_nat bytes_to_end else WHOLE_TOKEN) in
      push_bit 32 (ucast token) OR ucast (b :: u32))"

definition report_token_start :: "u32 \<Rightarrow> u64" where
  "report_token_start token = report token (unat WHOLE_TOKEN)"

definition bytes_before :: "u64 \<Rightarrow> u32 \<Rightarrow> u8 list \<Rightarrow> nat" where
  "bytes_before place token piece =
     (let engaged_token = (ucast (drop_bit 32 place) :: u32); bytes_to_end = unat (ucast place :: u32) in
      if engaged_token = 0 \<or> token < engaged_token then length piece
      else if token > engaged_token then 0
      else
        let before = length piece - bytes_to_end in
        if is_char_boundary piece before then before else 0)"

lemma bit_above: "\<not> bit (b :: u32) (32 + n)"
  using bit_imp_le_length [of b "32 + n"] by auto

lemma report_fields:
  "ucast (drop_bit 32 (push_bit 32 (ucast t :: u64) OR ucast (b :: u32))) = (t :: u32)" (is "?l = _")
  "ucast (push_bit 32 (ucast t :: u64) OR ucast (b :: u32)) = (b :: u32)" (is "?r = _")
proof -
  show "?l = t" by (rule bit_word_eqI) (simp add: bit_simps bit_above)
  show "?r = b" by (rule bit_word_eqI) (simp add: bit_simps)
qed

section \<open>The \<^verbatim>\<open>json_object\<close> constraint\<close>

record json_constraint =
  jc_grammar :: json_grammar
  jc_map :: token_bytes_map
  jc_eos_ids :: "u32 list"
  jc_mask :: "bool list"
  jc_engaged :: bool
  jc_engagement :: u64
  jc_advances :: u32
  jc_thinking :: bool

definition jc_from_bytes_map :: "token_bytes_map \<Rightarrow> u32 list \<Rightarrow> json_constraint" where
  "jc_from_bytes_map m eos_ids =
     \<lparr>jc_grammar = jg_new, jc_map = m, jc_eos_ids = eos_ids, jc_mask = [], jc_engaged = False,
      jc_engagement = 0, jc_advances = 0, jc_thinking = False\<rparr>"

definition jc_new :: "(u32 \<Rightarrow> u8 list) \<Rightarrow> nat \<Rightarrow> u32 list \<Rightarrow> json_constraint" where
  "jc_new decode vocab_size eos_ids = jc_from_bytes_map (tb_new decode vocab_size) eos_ids"

definition force_engage :: "json_constraint \<Rightarrow> json_constraint" where
  "force_engage c = c\<lparr>jc_engaged := True\<rparr>"

text \<open>The store the route makes through \<^verbatim>\<open>is_thinking_handle\<close>.\<close>

definition set_thinking :: "bool \<Rightarrow> json_constraint \<Rightarrow> json_constraint" where
  "set_thinking t c = c\<lparr>jc_thinking := t\<rparr>"

fun feed_bytes :: "u8 list \<Rightarrow> json_constraint \<Rightarrow> json_constraint" where
  "feed_bytes [] c = c"
| "feed_bytes (b # bs) c =
     (case jg_step b (jc_grammar c) of
        (g, True) \<Rightarrow> feed_bytes bs (c\<lparr>jc_grammar := g\<rparr>)
      | (g, False) \<Rightarrow> c\<lparr>jc_grammar := g\<lparr>jg_state := Done\<rparr>\<rparr>)"

fun feed_bytes_partial :: "u8 list \<Rightarrow> json_constraint \<Rightarrow> json_constraint" where
  "feed_bytes_partial [] c = c"
| "feed_bytes_partial (b # bs) c =
     (case jg_step b (jc_grammar c) of
        (g, True) \<Rightarrow> feed_bytes_partial bs (c\<lparr>jc_grammar := g\<rparr>)
      | (g, False) \<Rightarrow> c\<lparr>jc_grammar := g\<rparr>)"

fun mark_eos :: "u32 list \<Rightarrow> nat \<Rightarrow> bool list \<Rightarrow> bool list" where
  "mark_eos [] vocab_size msk = msk"
| "mark_eos (e # es) vocab_size msk =
     mark_eos es vocab_size (if unat e < vocab_size then msk[unat e := True] else msk)"

definition jc_step_mask :: "nat \<Rightarrow> json_constraint \<Rightarrow> json_constraint" where
  "jc_step_mask vocab_size c =
     (let m0 = replicate vocab_size False in
      if \<not> jc_engaged c then c\<lparr>jc_mask := replicate vocab_size True\<rparr>
      else if jg_is_done (jc_grammar c) then c\<lparr>jc_mask := mark_eos (jc_eos_ids c) vocab_size m0\<rparr>
      else c\<lparr>jc_mask := fill_allow_mask jg_reset_from jg_step (jc_grammar c) (jc_grammar c) (jc_map c) vocab_size m0\<rparr>)"

definition jc_advance :: "u32 \<Rightarrow> json_constraint \<Rightarrow> json_constraint" where
  "jc_advance token_id c0 =
     (let c = c0\<lparr>jc_advances := jc_advances c0 + 1\<rparr> in
      if token_id \<in> set (jc_eos_ids c) then c
      else
        let bytes = token_bytes (jc_map c) (unat token_id) in
        if jc_engaged c then feed_bytes bytes c
        else if jc_thinking c then c
        else
          (case position (\<lambda>b. b = b_lbrace \<or> b = b_lbracket) bytes of
             None \<Rightarrow> c
           | Some idx \<Rightarrow>
               feed_bytes_partial (drop idx bytes)
                 (c\<lparr>jc_engaged := True, jc_engagement := report (jc_advances c) (length bytes - idx)\<rparr>)))"

definition jc_finished :: "json_constraint \<Rightarrow> bool" where
  "jc_finished c \<longleftrightarrow> jc_engaged c \<and> jg_is_done (jc_grammar c)"

definition jc_wants_mask :: "json_constraint \<Rightarrow> bool" where "jc_wants_mask c = True"

section \<open>The engine that never constrains\<close>

definition noop_step_mask :: "nat \<Rightarrow> bool list \<Rightarrow> bool list" where
  "noop_step_mask vocab_size msk = (if length msk \<noteq> vocab_size then replicate vocab_size True else msk)"

section \<open>Cutting the reply\<close>

text \<open>The engagement cell is shared with the constraint; \<open>jr_receive\<close> reads its value as \<open>place\<close>.\<close>

record json_reply =
  jr_received :: nat
  jr_released :: nat
  jr_start :: "nat option"

definition jr_new :: json_reply where
  "jr_new = \<lparr>jr_received = 0, jr_released = 0, jr_start = None\<rparr>"

definition jr_receive :: "u64 \<Rightarrow> u32 \<Rightarrow> u8 list \<Rightarrow> json_reply \<Rightarrow> json_reply" where
  "jr_receive place token piece r =
     (let r1 = (if jr_start r = None then
                  let before = bytes_before place token piece in
                  if before < length piece then r\<lparr>jr_start := Some (jr_received r + before)\<rparr> else r
                else r)
      in r1\<lparr>jr_received := jr_received r1 + length piece\<rparr>)"

definition jr_release :: "u8 list \<Rightarrow> json_reply \<Rightarrow> json_reply \<times> nat" where
  "jr_release text r =
     (let from = jr_released r in
      (r\<lparr>jr_released := jr_released r + length text\<rparr>,
       case jr_start r of
         None \<Rightarrow> length text
       | Some start \<Rightarrow> if is_char_boundary text (start - from) then start - from else length text))"

definition jr_engaged :: "json_reply \<Rightarrow> bool" where
  "jr_engaged r \<longleftrightarrow> (case jr_start r of None \<Rightarrow> False | Some start \<Rightarrow> jr_released r > start)"

section \<open>The token table reads back\<close>

lemma tb_build_spec:
  assumes "tb_build decode is bytes offsets = (bytes', offsets')" "offsets \<noteq> []" "last offsets = word_of_nat (length bytes)"
    "length bytes' < 2 ^ 32"
  shows "(\<exists>more. bytes' = bytes @ more) \<and> (\<exists>os. offsets' = offsets @ os) \<and>
    length offsets' = length offsets + length is \<and>
    (\<forall>k<length is. let lo = unat (offsets' ! (length offsets + k - 1)); hi = unat (offsets' ! (length offsets + k)) in
       take (hi - lo) (drop lo bytes') = decode (word_of_nat (is ! k)))"
  using assms
proof (induction "is" arbitrary: bytes offsets)
  case (Cons i "is")
  let ?b = "bytes @ decode (word_of_nat i)"
  let ?o = "offsets @ [word_of_nat (length ?b)]"
  from Cons.prems have r: "tb_build decode is ?b ?o = (bytes', offsets')" by (simp add: Let_def)
  have l: "last ?o = word_of_nat (length ?b)" by simp
  note IH = Cons.IH [OF r _ l Cons.prems(4), simplified]
  then obtain more os where m: "bytes' = ?b @ more" "offsets' = ?o @ os" by auto
  have lo: "unat (offsets' ! (length offsets - 1)) = length bytes"
    using m Cons.prems(2-4) by (simp add: nth_append last_conv_nth unat_of_nat take_bit_nat_eq_self)
  have small: "unat (word_of_nat n :: u32) = n" if "n < 2 ^ 32" for n
    using that by (simp add: unat_of_nat take_bit_nat_eq_self)
  have "offsets' ! length offsets = word_of_nat (length ?b)" by (simp only: m(2) append_assoc nth_append_length append.simps)
  then have hi: "unat (offsets' ! length offsets) = length ?b"
    using small [of "length ?b"] m(1) Cons.prems(4) by simp
  have "let lo = unat (offsets' ! (length offsets + k - 1)); hi = unat (offsets' ! (length offsets + k)) in
       take (hi - lo) (drop lo bytes') = decode (word_of_nat ((i # is) ! k))" if "k < length (i # is)" for k
  proof (cases k)
    case 0
    then show ?thesis using lo hi m(1) by (simp add: Let_def)
  next
    case (Suc j)
    with that have "j < length is" by simp
    with IH Suc show ?thesis by (auto simp: Let_def)
  qed
  with IH m show ?case by auto
qed simp

lemma token_table:
  assumes "length (tb_bytes (tb_new decode n)) < 2 ^ 32"
  shows "token_bytes (tb_new decode n) i = (if i < n then decode (word_of_nat i) else [])"
proof -
  obtain bytes offsets where b: "tb_build decode [0..<n] [] [0] = (bytes, offsets)" by force
  with assms have l: "length bytes < 2 ^ 32" by (simp add: tb_new_def)
  from tb_build_spec [OF b _ _ l] have s: "length offsets = Suc n"
    "\<forall>k<n. take (unat (offsets ! Suc k) - unat (offsets ! k)) (drop (unat (offsets ! k)) bytes) = decode (word_of_nat k)"
    by (auto simp: Let_def)
  with b show ?thesis by (auto simp: token_bytes_def tb_new_def Let_def)
qed

text \<open>The token table reads back. For every id below the vocabulary size the table gives the
  bytes the tokenizer decodes it to, and nothing above it, as long as the table is smaller
  than four gibibytes (the offsets are \<^verbatim>\<open>u32\<close>).
\<close>

theorem token_table_roundtrip:
  assumes "length (tb_bytes (tb_new decode n)) < 2 ^ 32"
  shows "token_bytes (tb_new decode n) i = (if i < n then decode (word_of_nat i) else [])"
  by (rule token_table [OF assms])

section \<open>Engagement\<close>

lemma bytes_before_report:
  assumes "t \<noteq> 0"
  shows "bytes_before (report t n) t' piece =
    (if t' < t then length piece else if t < t' then 0
     else let k = length piece - min n (2 ^ 32 - 1) in if is_char_boundary piece k then k else 0)"
proof -
  define b :: u32 where "b = (if n < 2 ^ 32 then word_of_nat n else WHOLE_TOKEN)"
  have b: "unat b = min n (2 ^ 32 - 1)"
  proof (cases "n < 2 ^ 32")
    case True
    then show ?thesis by (simp add: b_def unat_of_nat take_bit_nat_eq_self)
  qed (simp add: b_def WHOLE_TOKEN_def)
  have "report t n = push_bit 32 (ucast t) OR ucast b" by (simp add: report_def b_def Let_def)
  then have p: "ucast (drop_bit 32 (report t n)) = t" "ucast (report t n) = b"
    by (simp_all only: report_fields)
  consider "t' < t" | "t < t'" | "t' = t" by (metis linorder_neqE)
  then show ?thesis
    using assms by cases (simp_all add: bytes_before_def p b Let_def less_not_sym)
qed

text \<open>
  The engagement place reads back. A place reported for token \<open>t\<close>, \<open>n\<close> bytes before its
  end, puts all of every earlier token before the value, nothing of a later one, and of
  token \<open>t\<close> itself what precedes its last \<open>n\<close> bytes, unless that splits a character.
\<close>

theorem engagement_roundtrip:
  assumes "t \<noteq> 0"
  shows "bytes_before (report t n) t' piece =
    (if t' < t then length piece else if t < t' then 0
     else let k = length piece - min n (2 ^ 32 - 1) in if is_char_boundary piece k then k else 0)"
  by (rule bytes_before_report [OF assms])

section \<open>A constrained reply\<close>

lemma nth_set_True: "j < length xs \<Longrightarrow> xs[i := True] ! j \<longleftrightarrow> xs ! j \<or> i = j"
  by (cases "i < length xs") (auto simp: nth_list_update)

lemma unat_image_iff [simp]: "unat t \<in> unat ` S \<longleftrightarrow> t \<in> S"
  by (metis (no_types, opaque_lifting) image_iff word_unat_eq_iff)

lemma mark_eos_spec:
  "length (mark_eos es vocab msk) = length msk \<and>
   (\<forall>i<length msk. mark_eos es vocab msk ! i \<longleftrightarrow> msk ! i \<or> i < vocab \<and> i \<in> unat ` set es)"
  by (induction es arbitrary: msk) (auto simp: nth_set_True)

lemma step_mask_spec:
  assumes "i < vocab"
  shows "jc_mask (jc_step_mask vocab c) ! i \<longleftrightarrow>
    \<not> jc_engaged c \<or>
    (if jg_is_done (jc_grammar c) then i \<in> unat ` set (jc_eos_ids c)
     else i < tb_vocab_size (jc_map c) \<and> token_bytes (jc_map c) i \<noteq> [] \<and>
       jg_run (token_bytes (jc_map c) i) (jc_grammar c) \<noteq> None)"
  using assms mark_eos_spec [of "jc_eos_ids c" vocab "replicate vocab False"]
  by (auto simp: jc_step_mask_def Let_def json_probe.fill_allow_mask_spec feed_ok_run)

lemma step_mask_fields [simp]:
  "jc_grammar (jc_step_mask v c) = jc_grammar c" "jc_map (jc_step_mask v c) = jc_map c"
  "jc_eos_ids (jc_step_mask v c) = jc_eos_ids c" "jc_engaged (jc_step_mask v c) = jc_engaged c"
  by (simp_all add: jc_step_mask_def Let_def)

lemma feed_bytes_run:
  "jg_run bs (jc_grammar c) = Some g \<Longrightarrow> feed_bytes bs c = c\<lparr>jc_grammar := g\<rparr>"
proof (induction bs arbitrary: c)
  case (Cons b bs)
  then obtain g1 where "jg_step b (jc_grammar c) = (g1, True)" "jg_run bs g1 = Some g"
    by (auto split: prod.splits if_splits)
  with Cons.IH [of "c\<lparr>jc_grammar := g1\<rparr>"] show ?case by simp
qed (cases c, simp)

text \<open>
  The decode loop: it builds the mask, samples a token the mask allows and shows it to the
  constraint. \<open>decodes vocab c ts c'\<close>: the loop takes the tokens \<open>ts\<close>, none of them an
  end-of-turn token, from \<open>c\<close> to \<open>c'\<close>.
\<close>

inductive decodes :: "nat \<Rightarrow> json_constraint \<Rightarrow> u32 list \<Rightarrow> json_constraint \<Rightarrow> bool" for vocab where
  dec_nil: "decodes vocab c [] c"
| dec_step: "\<lbrakk>unat t < vocab; jc_mask (jc_step_mask vocab c) ! unat t; t \<notin> set (jc_eos_ids c);
    decodes vocab (jc_advance t (jc_step_mask vocab c)) ts c'\<rbrakk> \<Longrightarrow> decodes vocab c (t # ts) c'"

lemma jc_advance_engaged:
  assumes "jc_engaged c" "unat t < vocab" "jc_mask (jc_step_mask vocab c) ! unat t" "t \<notin> set (jc_eos_ids c)"
  shows "\<exists>g. jg_run (token_bytes (jc_map c) (unat t)) (jc_grammar c) = Some g \<and>
    jc_grammar (jc_advance t (jc_step_mask vocab c)) = g \<and>
    jc_engaged (jc_advance t (jc_step_mask vocab c)) \<and>
    jc_map (jc_advance t (jc_step_mask vocab c)) = jc_map c \<and>
    jc_eos_ids (jc_advance t (jc_step_mask vocab c)) = jc_eos_ids c"
proof -
  from assms step_mask_spec [OF assms(2), of c]
  obtain g where g: "jg_run (token_bytes (jc_map c) (unat t)) (jc_grammar c) = Some g"
    by (auto split: if_splits)
  with feed_bytes_run [of "token_bytes (jc_map c) (unat t)"
      "(jc_step_mask vocab c)\<lparr>jc_advances := jc_advances (jc_step_mask vocab c) + 1\<rparr>" g] assms(1,4)
  show ?thesis by (simp add: jc_advance_def Let_def)
qed

lemma decodes_run:
  assumes "decodes vocab c ts c'" "jc_engaged c"
  shows "jg_run (concat (map (\<lambda>t. token_bytes (jc_map c) (unat t)) ts)) (jc_grammar c) = Some (jc_grammar c') \<and> jc_engaged c'"
  using assms
proof induction
  case (dec_step t c ts c')
  from jc_advance_engaged [OF dec_step.prems dec_step.hyps(1-3)] dec_step.IH show ?case
    by (auto simp: jg_run_append)
qed simp

text \<open>C8: A constrained reply is the text the grammar checked, from the engagement on. Let the
  constraint be engaged and the bytes \<open>bs\<close> behind it be a run of the automaton. Then the tokens
  sampled under its mask, none of them an end-of-turn token, extend the reply, byte for byte,
  to what the automaton has read: it never refuses one of them and never clamps, and it
  reports \<open>finished\<close> exactly when the reply is a complete text. The rest of an engaging token
  that the grammar refuses and end-of-turn tokens inside a string are outside of this, as the
  last section shows.
\<close>

theorem constrained_reply_checked:
  assumes "jc_engaged c" "jg_run bs jg_new = Some (jc_grammar c)" "decodes vocab c ts c'"
  shows "let reply = bs @ concat (map (\<lambda>t. token_bytes (jc_map c) (unat t)) ts) in
    jg_run reply jg_new = Some (jc_grammar c') \<and> (jc_finished c' \<longrightarrow> json_text reply) \<and>
    (json_text reply \<longrightarrow> jc_finished c')"
proof -
  let ?reply = "bs @ concat (map (\<lambda>t. token_bytes (jc_map c) (unat t)) ts)"
  from decodes_run [OF assms(3,1)] assms(2)
  have r: "jg_run ?reply jg_new = Some (jc_grammar c')" "jc_engaged c'" by (auto simp: jg_run_append)
  have d: "jg_is_done (jc_grammar c') \<Longrightarrow> json_text ?reply"
    using jg_done_sound jg_run_inv [OF jg_inv_new r(1)] by simp
  moreover have "jg_is_done (jc_grammar c')" if "json_text ?reply"
    using json_text_run [OF that] r(1) by simp
  ultimately show ?thesis using r by (auto simp: jc_finished_def Let_def)
qed

text \<open>The mask is never empty. With a vocabulary that has a token for every single byte, an
  engaged constraint whose text is not complete allows some token that keeps it alive.
\<close>

theorem json_mask_never_empty:
  assumes "jc_engaged c" "jg_run bs jg_new = Some (jc_grammar c)" "\<not> jg_is_done (jc_grammar c)"
    and "\<forall>b. \<exists>i < min vocab (tb_vocab_size (jc_map c)). token_bytes (jc_map c) i = [b]"
  shows "\<exists>i < vocab. jc_mask (jc_step_mask vocab c) ! i"
proof -
  from jg_inv_completable [OF jg_run_inv [OF jg_inv_new assms(2)]] obtain rest g' where
    r: "jg_run rest (jc_grammar c) = Some g'" "jg_is_done g'" by blast
  with assms(3) obtain b bs' where "rest = b # bs'" by (cases rest) auto
  with r(1) have b: "jg_run [b] (jc_grammar c) \<noteq> None" by (auto split: prod.splits if_splits)
  from assms(4) obtain i where "i < vocab" "i < tb_vocab_size (jc_map c)" "token_bytes (jc_map c) i = [b]" by auto
  with step_mask_spec [of i vocab c] assms(1,3) b show ?thesis by auto
qed
section \<open>Where the reply starts\<close>

text \<open>The pieces of tokens \<open>k\<close>, \<open>k + 1\<close>, ... arrive in order.\<close>

fun receive_all :: "u64 \<Rightarrow> nat \<Rightarrow> u8 list list \<Rightarrow> json_reply \<Rightarrow> json_reply" where
  "receive_all place k [] r = r"
| "receive_all place k (p # ps) r = receive_all place (Suc k) ps (jr_receive place (word_of_nat k) p r)"

text \<open>What is left of the released texts once the bytes before the reply are dropped.\<close>

fun kept_text :: "u8 list list \<Rightarrow> json_reply \<Rightarrow> u8 list" where
  "kept_text [] r = []"
| "kept_text (t # ts) r = (case jr_release t r of (r', n) \<Rightarrow> drop n t @ kept_text ts r')"

lemma receive_all_started: "jr_start r = Some s \<Longrightarrow> jr_start (receive_all place k ps r) = Some s"
  by (induction ps arbitrary: k r) (auto simp: jr_receive_def Let_def)

lemma jr_received_receive [simp]: "jr_received (jr_receive pl t p r) = jr_received r + length p"
  by (simp add: jr_receive_def Let_def)

lemma jr_released_receive [simp]: "jr_released (jr_receive pl t p r) = jr_released r"
  by (simp add: jr_receive_def Let_def)

lemma receive_all_released [simp]: "jr_released (receive_all pl k ps r) = jr_released r"
  by (induction ps arbitrary: k r) simp_all

lemma word_of_nat_less: "m < n \<Longrightarrow> n < 2 ^ 32 \<Longrightarrow> (word_of_nat m :: u32) < word_of_nat n"
  by (simp add: word_less_nat_alt unat_of_nat take_bit_nat_eq_self)

lemma receive_all_start:
  assumes "jr_start r = None" "j < length ps" "0 < k" "k + j < 2 ^ 32"
    and n: "0 < n" "n \<le> length (ps ! j)" "is_char_boundary (ps ! j) (length (ps ! j) - n)" "n < 2 ^ 32"
  shows "jr_start (receive_all (report (word_of_nat (k + j)) n) k ps r) =
    Some (jr_received r + length (concat (take j ps)) + (length (ps ! j) - n))"
  using assms
proof (induction ps arbitrary: j k r)
  case (Cons p ps)
  let ?pl = "report (word_of_nat (k + j)) n"
  have nz: "(word_of_nat (k + j) :: u32) \<noteq> 0"
    using word_of_nat_less [of 0 "k + j"] Cons.prems(3,4) by auto
  show ?case
  proof (cases j)
    case 0
    have "bytes_before ?pl (word_of_nat k) p = length p - n"
      using bytes_before_report [OF nz, of n "word_of_nat k" p] 0 n Cons.prems by (simp add: Let_def min_def)
    then have "jr_start (jr_receive ?pl (word_of_nat k) p r) = Some (jr_received r + (length p - n))"
      using Cons.prems 0 by (simp add: jr_receive_def Let_def)
    with 0 show ?thesis by (simp add: receive_all_started)
  next
    case (Suc i)
    have "(word_of_nat k :: u32) < word_of_nat (k + j)" using Suc Cons.prems(4) by (intro word_of_nat_less) simp_all
    then have "bytes_before ?pl (word_of_nat k) p = length p"
      using bytes_before_report [OF nz, of n "word_of_nat k" p] by simp
    then have "jr_start (jr_receive ?pl (word_of_nat k) p r) = None"
      using Cons.prems(1) by (simp add: jr_receive_def Let_def)
    from Cons.IH [OF this, of i "Suc k"] Suc Cons.prems show ?thesis by simp
  qed
qed simp

lemma kept_text_drop:
  assumes "jr_start r = Some s"
    "0 < s - jr_released r \<and> s - jr_released r < length (concat ts) \<longrightarrow> \<not> is_cont (concat ts ! (s - jr_released r))"
  shows "kept_text ts r = drop (s - jr_released r) (concat ts)"
  using assms
proof (induction ts arbitrary: r)
  case (Cons t ts)
  let ?k = "s - jr_released r" and ?r = "r\<lparr>jr_released := jr_released r + length t\<rparr>"
  have "\<not> is_cont (concat ts ! (s - jr_released ?r))"
    if "0 < s - jr_released ?r \<and> s - jr_released ?r < length (concat ts)"
  proof -
    from that have "0 < ?k \<and> ?k < length (concat (t # ts))" "length t \<le> ?k" by auto
    with Cons.prems(2) show ?thesis by (simp add: nth_append)
  qed
  with Cons.IH [of ?r] Cons.prems(1) have rest: "kept_text ts ?r = drop (?k - length t) (concat ts)" by simp
  have "jr_release t r = (?r, if ?k \<le> length t then ?k else length t)"
    using Cons.prems by (auto simp: jr_release_def is_char_boundary_def Let_def nth_append)
  with rest show ?case by simp
qed simp

text \<open>
  The reply is cut at the engagement byte. When the constraint engaged \<open>n\<close> bytes before
  the end of token \<open>j + 1\<close>, the text a route keeps of whatever the stop matcher lets through,
  in any division into pieces, is that text without the bytes before the engagement byte.
\<close>

theorem reply_cut:
  assumes "j < length ps" "1 + j < 2 ^ 32" "0 < n" "n \<le> length (ps ! j)" "n < 2 ^ 32"
    and "is_char_boundary (ps ! j) (length (ps ! j) - n)"
    and "s = length (concat (take j ps)) + (length (ps ! j) - n)"
    and "s < length (concat ts) \<longrightarrow> \<not> is_cont (concat ts ! s)"
  shows "kept_text ts (receive_all (report (word_of_nat (1 + j)) n) 1 ps jr_new) = drop s (concat ts)"
proof -
  have "jr_start (receive_all (report (word_of_nat (1 + j)) n) 1 ps jr_new) = Some s"
    using receive_all_start [of jr_new j ps 1 n] assms by (simp add: jr_new_def)
  from kept_text_drop [OF this, of ts] assms(8) show ?thesis by (simp add: jr_new_def)
qed

theorem reply_cut_witness:
  "kept_text [[0x61], [0x62, 0x7B, 0x7D]] (receive_all (report 2 1) 1 [[0x61, 0x62], [0x7B], [0x7D]] jr_new) = [0x7B, 0x7D]"
proof -
  have "1 + (1::nat) < 2 ^ 32" "(1::nat) < 2 ^ 32" by simp_all
  from reply_cut [OF _ this(1) _ _ this(2), of "[[0x61, 0x62], [0x7B], [0x7D]]" 2 "[[0x61], [0x62, 0x7B, 0x7D]]"]
  show ?thesis by (simp add: is_char_boundary_def is_cont_def del: receive_all.simps kept_text.simps)
qed

section \<open>Instances\<close>

definition byte_table :: token_bytes_map where "byte_table = tb_new (\<lambda>w. [ucast w]) 256"

lemma tb_build_length: "(\<And>w. length (decode w) = 1) \<Longrightarrow> tb_build decode is bs os = (bs', os') \<Longrightarrow> length bs' = length bs + length is"
  by (induction "is" arbitrary: bs os) (auto simp: Let_def)

lemma byte_table_facts: "length (tb_bytes byte_table) = 256" "tb_vocab_size byte_table = 256"
  using tb_build_length [of "\<lambda>w. [ucast w]" "[0..<256]" "[]" "[0]"]
  by (auto simp: byte_table_def tb_new_def split: prod.splits)

theorem token_table_roundtrip_witness: "token_bytes (tb_new (\<lambda>w. [ucast w]) 256) 65 = [65]"
  using token_table_roundtrip [of "\<lambda>w. [ucast w]" 256 65] byte_table_facts(1)
  by (simp add: byte_table_def)

lemma byte_table_bytes: "i < 256 \<Longrightarrow> token_bytes byte_table i = [word_of_nat i]"
  using token_table [of "\<lambda>w. [ucast w]" 256 i] byte_table_facts(1)
  by (simp add: byte_table_def unsigned_of_nat take_bit_nat_eq_self)

theorem engagement_roundtrip_witness: "bytes_before (report 2 1) 2 [0x61, 0x7B] = 1"
  using engagement_roundtrip [of 2 1 2 "[0x61, 0x7B]"] by (simp add: is_char_boundary_def is_cont_def Let_def)

definition byte_constraint :: json_constraint where
  "byte_constraint = force_engage (jc_from_bytes_map byte_table [999])"

lemma byte_constraint_facts [simp]:
  "jc_engaged byte_constraint" "jc_grammar byte_constraint = jg_new" "jc_map byte_constraint = byte_table"
  "jc_eos_ids byte_constraint = [999]"
  by (simp_all add: byte_constraint_def force_engage_def jc_from_bytes_map_def)

theorem json_mask_never_empty_witness: "\<exists>i < 256. jc_mask (jc_step_mask 256 byte_constraint) ! i"
proof (rule json_mask_never_empty)
  show "jg_run [] jg_new = Some (jc_grammar byte_constraint)" "jc_engaged byte_constraint" by simp_all
  show "\<not> jg_is_done (jc_grammar byte_constraint)" by (simp add: jg_is_done_def jg_new_def)
  have "token_bytes byte_table (unat b) = [b]" for b
    using byte_table_bytes [of "unat b"] unsigned_less [of b, where 'a=nat] by simp
  then show "\<forall>b. \<exists>i<min 256 (tb_vocab_size (jc_map byte_constraint)). token_bytes (jc_map byte_constraint) i = [b]"
    using unsigned_less [where 'a=nat and 'b=8] by (auto simp: byte_table_facts)
qed

lemma byte_decodes: "\<exists>c. decodes 256 byte_constraint [0x5B, 0x5D] c"
proof -
  have run: "jg_run [0x5B] jg_new = Some \<lparr>jg_state = ArrayExpectValueOrEnd False, jg_stack = [ArrayFrame], jg_ws_run = 0\<rparr>"
    "jg_run [0x5D] \<lparr>jg_state = ArrayExpectValueOrEnd False, jg_stack = [ArrayFrame], jg_ws_run = 0\<rparr> =
      Some \<lparr>jg_state = Done, jg_stack = [], jg_ws_run = 0\<rparr>"
    by code_simp+
  let ?c = "jc_advance 0x5B (jc_step_mask 256 byte_constraint)"
  have m: "jc_mask (jc_step_mask 256 byte_constraint) ! unat (0x5B :: u32)"
    using step_mask_spec [of "unat (0x5B :: u32)" 256 byte_constraint] byte_table_bytes [of "0x5B"] run(1)
    by (simp add: byte_table_facts jg_is_done_def jg_new_def)
  have c: "jc_engaged ?c" "jc_map ?c = byte_table" "jc_eos_ids ?c = [999]"
    "jc_grammar ?c = \<lparr>jg_state = ArrayExpectValueOrEnd False, jg_stack = [ArrayFrame], jg_ws_run = 0\<rparr>"
    using jc_advance_engaged [OF _ _ m] run(1) byte_table_bytes [of "0x5B"] by auto
  have m2: "jc_mask (jc_step_mask 256 ?c) ! unat (0x5D :: u32)"
    using step_mask_spec [of "unat (0x5D :: u32)" 256 ?c] byte_table_bytes [of "0x5D"] run(2) c
    by (simp add: byte_table_facts jg_is_done_def)
  have "decodes 256 ?c [0x5D] (jc_advance 0x5D (jc_step_mask 256 ?c))"
    by (rule dec_step [OF _ m2 _ dec_nil]) (simp_all add: c)
  with dec_step [OF _ m, of "[0x5D]"] show ?thesis by auto
qed

theorem constrained_reply_checked_witness:
  "\<exists>c. decodes 256 byte_constraint [0x5B, 0x5D] c \<and> jg_run [0x5B, 0x5D] jg_new = Some (jc_grammar c)"
proof -
  obtain c where d: "decodes 256 byte_constraint [0x5B, 0x5D] c" using byte_decodes by blast
  from constrained_reply_checked [OF _ _ d, where bs = "[]"] d byte_table_bytes [of "0x5B"] byte_table_bytes [of "0x5D"]
  show ?thesis by (auto simp: Let_def)
qed

section \<open>Two replies that are not JSON\<close>

text \<open>\<^verbatim>\<open></s>\<close> as the decoded text of an end-of-turn token, and \<^verbatim>\<open>{x\<close>, \<^verbatim>\<open>}\<close> as two tokens.\<close>

definition eos_table :: token_bytes_map where
  "eos_table = tb_new (\<lambda>_. [0x3C, 0x2F, 0x73, 0x3E]) 1"

definition string_constraint :: json_constraint where
  "string_constraint = (force_engage (jc_from_bytes_map eos_table [0]))
     \<lparr>jc_grammar := fst (jg_step b_quote jg_new)\<rparr>"

text \<open>The end-of-turn token inside a string. The table decodes with special tokens kept, so
  an end-of-turn token has its spelling as bytes; inside a string every byte of \<^verbatim>\<open></s>\<close> is
  legal, the mask offers the token, and taking it ends the reply in the middle of the string.
\<close>

theorem eos_inside_string:
  "jg_run [b_quote] jg_new = Some (jc_grammar string_constraint) \<and>
   jc_mask (jc_step_mask 1 string_constraint) ! 0 \<and>
   0 \<in> set (jc_eos_ids string_constraint) \<and>
   \<not> jc_finished (jc_advance 0 string_constraint)"
proof (intro conjI)
  show "jg_run [b_quote] jg_new = Some (jc_grammar string_constraint)" by code_simp
  show "jc_mask (jc_step_mask 1 string_constraint) ! 0" by code_simp
  show "0 \<in> set (jc_eos_ids string_constraint)" by code_simp
  show "\<not> jc_finished (jc_advance 0 string_constraint)" by code_simp
qed

definition brace_table :: token_bytes_map where
  "brace_table = tb_new (\<lambda>w. if w = 0 then [b_lbrace, 0x78] else [b_rbrace]) 2"

definition brace_constraint :: json_constraint where
  "brace_constraint = jc_advance 0 (jc_from_bytes_map brace_table [])"

text \<open>The engagement token's rest is not checked. The token \<^verbatim>\<open>{x\<close> engages the constraint; the
  automaton refuses the \<^verbatim>\<open>x\<close>, which stays in the reply, and goes on from the brace. The mask
  then offers \<^verbatim>\<open>}\<close>, and the constraint finishes on the reply \<^verbatim>\<open>{x}\<close>.
\<close>

theorem engagement_rest_unchecked:
  "jc_engaged brace_constraint \<and> jc_mask (jc_step_mask 2 brace_constraint) ! 1 \<and>
   jc_finished (jc_advance 1 (jc_step_mask 2 brace_constraint)) \<and>
   \<not> json_text (token_bytes brace_table 0 @ token_bytes brace_table 1)"
proof (intro conjI)
  let ?g = "\<lparr>jg_state = ObjectExpectKeyOrEnd False, jg_stack = [ObjectFrame], jg_ws_run = 0\<rparr>"
  have t: "token_bytes brace_table 0 = [b_lbrace, 0x78]" "token_bytes brace_table 1 = [b_rbrace]"
    "tb_vocab_size brace_table = 2" by code_simp+
  have s: "jg_step b_lbrace jg_new = (?g, True)" "jg_step 0x78 ?g = (?g, False)"
    "jg_run [b_rbrace] ?g = Some \<lparr>jg_state = Done, jg_stack = [], jg_ws_run = 0\<rparr>"
    by code_simp+
  have c: "jc_engaged brace_constraint" "jc_grammar brace_constraint = ?g" "jc_map brace_constraint = brace_table"
    "jc_eos_ids brace_constraint = []"
    using s(1,2) by (simp_all add: brace_constraint_def jc_advance_def jc_from_bytes_map_def t Let_def)
  show "jc_engaged brace_constraint" by (rule c)
  show m: "jc_mask (jc_step_mask 2 brace_constraint) ! 1"
    using step_mask_spec [of 1 2 brace_constraint] by (simp add: c t t(2) [unfolded One_nat_def] s jg_is_done_def del: jg_run.simps)
  show "jc_finished (jc_advance 1 (jc_step_mask 2 brace_constraint))"
    using jc_advance_engaged [of brace_constraint 1 2] m
    by (auto simp: c t t(2) [unfolded One_nat_def] s jc_finished_def jg_is_done_def simp del: jg_run.simps)
  have "jg_run (token_bytes brace_table 0 @ token_bytes brace_table 1) jg_new = None" by code_simp
  with json_text_run show "\<not> json_text (token_bytes brace_table 0 @ token_bytes brace_table 1)" by force
qed

end
