(* ===== verification/StopMatcher.thy ===== *)
theory StopMatcher
  imports Utf8
begin

text \<open>
  Stop sequences: \<^verbatim>\<open>rmlx-server/src/stop_matcher.rs\<close>. A text is its UTF-8 bytes. The matcher
  is fed the decoded text piece by piece and holds back a tail that could still grow into a
  stop string. The lemmas relate it to one search over the text received so far.
\<close>

record stop_hit =
  sh_offset :: nat
  sh_matched :: "u8 list"

fun stop_scan :: "u8 list \<Rightarrow> u8 list list \<Rightarrow> stop_hit option \<Rightarrow> stop_hit option" where
  "stop_scan text [] best = best"
| "stop_scan text (s # ss) best =
     (if s = [] then stop_scan text ss best
      else
        (case find_bytes s text of
           None \<Rightarrow> stop_scan text ss best
         | Some off \<Rightarrow>
             stop_scan text ss
               (if (case best of Some b \<Rightarrow> off < sh_offset b | None \<Rightarrow> True)
                then Some \<lparr>sh_offset = off, sh_matched = s\<rparr> else best)))"

definition find_stop_match :: "u8 list \<Rightarrow> u8 list list \<Rightarrow> stop_hit option" where
  "find_stop_match text stops = stop_scan text stops None"

record stop_push =
  sp_emit :: "u8 list"
  sp_stopped :: bool
  sp_matched :: "u8 list option"

definition stop_push_default :: stop_push where
  "stop_push_default = \<lparr>sp_emit = [], sp_stopped = False, sp_matched = None\<rparr>"

record stop_matcher =
  sm_stops :: "u8 list list"
  sm_max_len :: nat
  sm_pending :: "u8 list"
  sm_done :: bool

definition sm_new :: "u8 list list \<Rightarrow> stop_matcher" where
  "sm_new stops =
     (let ss = filter (\<lambda>s. s \<noteq> []) stops in
      \<lparr>sm_stops = ss, sm_max_len = fold max (map length ss) 0, sm_pending = [], sm_done = False\<rparr>)"

definition sm_is_active :: "stop_matcher \<Rightarrow> bool" where "sm_is_active m \<longleftrightarrow> sm_stops m \<noteq> []"

text \<open>The scan for the held-back tail: from position \<open>i\<close>, with \<open>n\<close> positions left.\<close>

fun hold_scan :: "u8 list list \<Rightarrow> u8 list \<Rightarrow> nat \<Rightarrow> nat \<Rightarrow> nat" where
  "hold_scan stops pending i 0 = length pending"
| "hold_scan stops pending i (Suc n) =
     (if is_char_boundary pending i \<and> list_ex (\<lambda>s. starts_with s (drop i pending)) stops then i
      else hold_scan stops pending (i + 1) n)"

definition sm_drain :: "stop_matcher \<Rightarrow> stop_matcher \<times> stop_push" where
  "sm_drain m =
     (case find_stop_match (sm_pending m) (sm_stops m) of
        Some hit \<Rightarrow>
          (m\<lparr>sm_pending := [], sm_done := True\<rparr>,
           \<lparr>sp_emit = take (sh_offset hit) (sm_pending m), sp_stopped = True, sp_matched = Some (sh_matched hit)\<rparr>)
      | None \<Rightarrow>
          let len = length (sm_pending m); scan_from = len - (sm_max_len m - 1);
              hold_at = hold_scan (sm_stops m) (sm_pending m) scan_from (len - scan_from) in
          (m\<lparr>sm_pending := drop hold_at (sm_pending m)\<rparr>,
           \<lparr>sp_emit = take hold_at (sm_pending m), sp_stopped = False, sp_matched = None\<rparr>))"

definition sm_push :: "u8 list \<Rightarrow> stop_matcher \<Rightarrow> stop_matcher \<times> stop_push" where
  "sm_push piece m =
     (if sm_done m then (m, stop_push_default)
      else if sm_stops m = [] then (m, \<lparr>sp_emit = piece, sp_stopped = False, sp_matched = None\<rparr>)
      else sm_drain (m\<lparr>sm_pending := sm_pending m @ piece\<rparr>))"

definition sm_finalize :: "stop_matcher \<Rightarrow> stop_matcher \<times> u8 list" where
  "sm_finalize m = (if sm_done m then (m, []) else (m\<lparr>sm_pending := []\<rparr>, sm_pending m))"

section \<open>The content gate\<close>

record content_gate =
  cg_matcher :: stop_matcher
  cg_matched :: "u8 list option"
  cg_end_requested :: bool

definition cg_new :: "stop_matcher \<Rightarrow> bool \<Rightarrow> content_gate" where
  "cg_new m end_requested = \<lparr>cg_matcher = m, cg_matched = None, cg_end_requested = end_requested\<rparr>"

definition request_end :: "content_gate \<Rightarrow> content_gate" where
  "request_end g = g\<lparr>cg_end_requested := True\<rparr>"

definition cg_is_stopped :: "content_gate \<Rightarrow> bool" where "cg_is_stopped g \<longleftrightarrow> cg_matched g \<noteq> None"

definition cg_push :: "u8 list \<Rightarrow> content_gate \<times> u8 list \<Rightarrow> content_gate \<times> u8 list" where
  "cg_push piece gt =
     (case gt of (g, text) \<Rightarrow>
        if cg_matched g \<noteq> None then (g, text)
        else
          (case sm_push piece (cg_matcher g) of
             (m, pushed) \<Rightarrow>
               let g1 = g\<lparr>cg_matcher := m\<rparr> in
               (if sp_stopped pushed then request_end (g1\<lparr>cg_matched := sp_matched pushed\<rparr>) else g1,
                text @ sp_emit pushed)))"

definition cg_flush :: "content_gate \<times> u8 list \<Rightarrow> content_gate \<times> u8 list" where
  "cg_flush gt =
     (case gt of (g, text) \<Rightarrow>
        if cg_matched g = None then
          (case sm_finalize (cg_matcher g) of (m, tail) \<Rightarrow> (g\<lparr>cg_matcher := m\<rparr>, text @ tail))
        else (g, text))"

section \<open>The search\<close>

text \<open>\<open>occurs s t i\<close>: the stop string \<open>s\<close> stands at offset \<open>i\<close> of the text \<open>t\<close>.\<close>

definition occurs :: "u8 list \<Rightarrow> u8 list \<Rightarrow> nat \<Rightarrow> bool" where
  "occurs s t i \<longleftrightarrow> s \<noteq> [] \<and> starts_with (drop i t) s"

lemma occurs_lt: "occurs s t i \<Longrightarrow> i < length t"
  unfolding occurs_def starts_with_def by (cases "i < length t") auto

lemma find_bytes_occurs:
  "s \<noteq> [] \<Longrightarrow> find_bytes s t = Some i \<longleftrightarrow> occurs s t i \<and> (\<forall>j<i. \<not> occurs s t j)"
proof
  assume "s \<noteq> []" "find_bytes s t = Some i"
  then show "occurs s t i \<and> (\<forall>j<i. \<not> occurs s t j)" using find_bytes_Some [of s t i] by (simp add: occurs_def)
next
  assume s: "s \<noteq> []" and o: "occurs s t i \<and> (\<forall>j<i. \<not> occurs s t j)"
  with occurs_lt [of s t i] show "find_bytes s t = Some i"
    by (intro find_bytes_eqI) (simp_all add: occurs_def)
qed

lemma find_bytes_no_occurs: "s \<noteq> [] \<Longrightarrow> find_bytes s t = None \<longleftrightarrow> (\<forall>j. \<not> occurs s t j)"
  unfolding find_bytes_None using occurs_lt by (metis less_imp_le occurs_def)

text \<open>\<open>first_stop\<close>: no stop string stands earlier, and none that the request lists earlier stands there.\<close>

definition first_stop :: "u8 list \<Rightarrow> u8 list list \<Rightarrow> stop_hit \<Rightarrow> bool" where
  "first_stop t stops h \<longleftrightarrow>
     (\<exists>ss s ss'. stops = ss @ s # ss' \<and> sh_matched h = s \<and> occurs s t (sh_offset h) \<and>
        (\<forall>s'\<in>set stops. \<forall>j < sh_offset h. \<not> occurs s' t j) \<and> (\<forall>s'\<in>set ss. \<not> occurs s' t (sh_offset h)))"

definition scan_ok :: "u8 list \<Rightarrow> u8 list list \<Rightarrow> stop_hit option \<Rightarrow> bool" where
  "scan_ok t stops r \<longleftrightarrow>
     (case r of None \<Rightarrow> \<forall>s\<in>set stops. \<forall>j. \<not> occurs s t j | Some h \<Rightarrow> first_stop t stops h)"

lemma scan_ok_snoc:
  assumes "scan_ok t pre best" "\<And>j. occurs s t j \<Longrightarrow> \<exists>h. best = Some h \<and> sh_offset h \<le> j"
  shows "scan_ok t (pre @ [s]) best"
proof (cases best)
  case None
  with assms show ?thesis by (auto simp: scan_ok_def)
next
  case (Some h)
  with assms(1) obtain as a bs where f: "pre = as @ a # bs" "sh_matched h = a" "occurs a t (sh_offset h)"
    "\<forall>s'\<in>set pre. \<forall>j < sh_offset h. \<not> occurs s' t j" "\<forall>s'\<in>set as. \<not> occurs s' t (sh_offset h)"
    by (auto simp: scan_ok_def first_stop_def)
  have "\<not> occurs s t j" if "j < sh_offset h" for j using assms(2) [of j] Some that by auto
  with f have "first_stop t (pre @ [s]) h"
    unfolding first_stop_def by (intro exI [of _ as] exI [of _ a] exI [of _ "bs @ [s]"]) auto
  with Some show ?thesis by (simp add: scan_ok_def)
qed

lemma stop_scan_spec: "scan_ok t pre best \<Longrightarrow> scan_ok t (pre @ ss) (stop_scan t ss best)"
proof (induction ss arbitrary: pre best)
  case (Cons s ss)
  have go: "scan_ok t (pre @ s # ss) (stop_scan t ss b)" if "scan_ok t (pre @ [s]) b" for b
    using Cons.IH [OF that] by simp
  show ?case
  proof (cases "s = []")
    case True
    with go [OF scan_ok_snoc [OF Cons.prems]] show ?thesis by (simp add: occurs_def)
  next
    case s: False
    show ?thesis
    proof (cases "find_bytes s t")
      case None
      with s have "\<not> occurs s t j" for j by (simp add: find_bytes_no_occurs)
      with None s go [OF scan_ok_snoc [OF Cons.prems]] show ?thesis by simp
    next
      case (Some off)
      with s have o: "occurs s t off" "\<And>j. j < off \<Longrightarrow> \<not> occurs s t j" by (auto simp: find_bytes_occurs)
      show ?thesis
      proof (cases "case best of Some b \<Rightarrow> off < sh_offset b | None \<Rightarrow> True")
        case True
        let ?h = "\<lparr>sh_offset = off, sh_matched = s\<rparr>"
        have old: "\<not> occurs s' t j" if "s' \<in> set pre" "j \<le> off" for s' j
          using that True Cons.prems by (cases best) (auto simp: scan_ok_def first_stop_def)
        have "first_stop t (pre @ [s]) ?h"
          unfolding first_stop_def
          by (intro exI [of _ pre] exI [of _ s] exI [of _ "[]"]) (use o old in auto)
        then show ?thesis using True Some s go [of "Some ?h"] by (simp add: scan_ok_def)
      next
        case False
        then obtain h where h: "best = Some h" "sh_offset h \<le> off" by (cases best) auto
        have "\<exists>h. best = Some h \<and> sh_offset h \<le> j" if "occurs s t j" for j
          using h o(2) [of j] that by (cases "j < off") auto
        from go [OF scan_ok_snoc [OF Cons.prems this]] False Some s show ?thesis by simp
      qed
    qed
  qed
qed simp

lemma find_stop_match_spec: "scan_ok t stops (find_stop_match t stops)"
  using stop_scan_spec [of t "[]" None stops] by (simp add: find_stop_match_def scan_ok_def)

lemma first_stop_unique:
  assumes "first_stop t stops h" "first_stop t stops h'"
  shows "h = h'"
proof -
  from assms(1) obtain as a bs where f: "stops = as @ a # bs" "sh_matched h = a" "occurs a t (sh_offset h)"
    "\<forall>s\<in>set stops. \<forall>j < sh_offset h. \<not> occurs s t j" "\<forall>s\<in>set as. \<not> occurs s t (sh_offset h)"
    by (auto simp: first_stop_def)
  from assms(2) obtain cs c ds where g: "stops = cs @ c # ds" "sh_matched h' = c" "occurs c t (sh_offset h')"
    "\<forall>s\<in>set stops. \<forall>j < sh_offset h'. \<not> occurs s t j" "\<forall>s\<in>set cs. \<not> occurs s t (sh_offset h')"
    by (auto simp: first_stop_def)
  have "a \<in> set stops" using f(1) by simp
  with g(4) f(3) have "\<not> sh_offset h < sh_offset h'" by blast
  moreover have "c \<in> set stops" using g(1) by simp
  with f(4) g(3) have "\<not> sh_offset h' < sh_offset h" by blast
  ultimately have o: "sh_offset h = sh_offset h'" by simp
  from f(1) g(1) have "as @ a # bs = cs @ c # ds" by simp
  then have "a = c \<or> c \<in> set as \<or> a \<in> set cs"
    unfolding append_eq_append_conv2 by (auto simp: Cons_eq_append_conv append_eq_Cons_conv)
  with f g o have "a = c" by auto
  with f(2) g(2) o show ?thesis by simp
qed

lemma find_stop_match_iff: "find_stop_match t stops = Some h \<longleftrightarrow> first_stop t stops h"
proof
  assume f: "first_stop t stops h"
  then have s: "sh_matched h \<in> set stops" "occurs (sh_matched h) t (sh_offset h)" by (auto simp: first_stop_def)
  show "find_stop_match t stops = Some h"
  proof (cases "find_stop_match t stops")
    case None
    with find_stop_match_spec [of t stops] s show ?thesis by (auto simp: scan_ok_def)
  next
    case (Some h')
    with find_stop_match_spec [of t stops] first_stop_unique [OF f, of h'] show ?thesis by (simp add: scan_ok_def)
  qed
next
  show "find_stop_match t stops = Some h \<Longrightarrow> first_stop t stops h"
    using find_stop_match_spec [of t stops] by (simp add: scan_ok_def)
qed

lemma find_stop_match_None: "find_stop_match t stops = None \<longleftrightarrow> (\<forall>s\<in>set stops. \<forall>j. \<not> occurs s t j)"
proof
  show "find_stop_match t stops = None \<Longrightarrow> \<forall>s\<in>set stops. \<forall>j. \<not> occurs s t j"
    using find_stop_match_spec [of t stops] by (simp add: scan_ok_def)
next
  assume n: "\<forall>s\<in>set stops. \<forall>j. \<not> occurs s t j"
  show "find_stop_match t stops = None"
  proof (cases "find_stop_match t stops")
    case (Some h)
    with n show ?thesis by (auto simp: find_stop_match_iff first_stop_def)
  qed simp
qed


section \<open>Streaming\<close>

text \<open>The emitted text, whether a stop was reported and which, after a sequence of pushes.\<close>

fun sm_run :: "u8 list list \<Rightarrow> stop_matcher \<Rightarrow> stop_matcher \<times> u8 list \<times> u8 list option" where
  "sm_run [] m = (m, [], None)"
| "sm_run (p # ps) m =
     (case sm_push p m of
        (m1, r) \<Rightarrow> case sm_run ps m1 of
          (m2, emitted, matched) \<Rightarrow>
            (m2, sp_emit r @ emitted, if sp_stopped r then sp_matched r else matched))"

text \<open>A position is dead when no stop string stands there now or after more text.\<close>

definition dead :: "u8 list list \<Rightarrow> u8 list \<Rightarrow> nat \<Rightarrow> bool" where
  "dead stops t j \<longleftrightarrow> (\<forall>s\<in>set stops. \<not> starts_with (drop j t) s \<and> \<not> starts_with s (drop j t))"

lemma dead_append: "dead stops t j \<Longrightarrow> j \<le> length t \<Longrightarrow> dead stops (t @ x) j"
proof -
  assume d: "dead stops t j" and j: "j \<le> length t"
  have "\<not> starts_with (drop j t @ x) s" "\<not> starts_with s (drop j t @ x)" if "s \<in> set stops" for s
    using d that unfolding dead_def starts_with_iff
    by (metis append_eq_append_conv2, metis append_assoc)
  with j show ?thesis by (simp add: dead_def)
qed

lemma dead_no_occurs: "dead stops t j \<Longrightarrow> s \<in> set stops \<Longrightarrow> \<not> occurs s t j"
  by (simp add: dead_def occurs_def)

lemma find_stop_match_drop:
  assumes "\<forall>j<n. dead stops t j" "n \<le> length t"
  shows "find_stop_match t stops = map_option (\<lambda>h. h\<lparr>sh_offset := n + sh_offset h\<rparr>) (find_stop_match (drop n t) stops)"
proof (cases "find_stop_match (drop n t) stops")
  case None
  have "\<not> occurs s t j" if "s \<in> set stops" for s j
  proof (cases "j < n")
    case True
    with assms(1) that dead_no_occurs show ?thesis by blast
  next
    case False
    with None that have "\<not> occurs s (drop n t) (j - n)" by (simp add: find_stop_match_None)
    with False show ?thesis by (simp add: occurs_def)
  qed
  with None show ?thesis by (simp add: find_stop_match_None [of t])
next
  case (Some h)
  then obtain as a bs where f: "stops = as @ a # bs" "sh_matched h = a" "occurs a (drop n t) (sh_offset h)"
    "\<forall>s\<in>set stops. \<forall>j < sh_offset h. \<not> occurs s (drop n t) j" "\<forall>s\<in>set as. \<not> occurs s (drop n t) (sh_offset h)"
    by (auto simp: find_stop_match_iff first_stop_def)
  have o: "occurs s (drop n t) j = occurs s t (n + j)" for s j by (simp add: occurs_def add.commute)
  have "\<not> occurs s t j" if "s \<in> set stops" "j < n + sh_offset h" for s j
  proof (cases "j < n")
    case True
    with assms(1) that dead_no_occurs show ?thesis by blast
  next
    case False
    with that f(4) [rule_format, of s "j - n"] show ?thesis by (simp add: o)
  qed
  with f have "first_stop t stops (h\<lparr>sh_offset := n + sh_offset h\<rparr>)"
    unfolding first_stop_def by (intro exI [of _ as] exI [of _ a] exI [of _ bs]) (auto simp: o)
  with Some show ?thesis by (simp add: find_stop_match_iff [of t])
qed

lemma hold_scan_spec:
  "i + n = length p \<Longrightarrow>
     (let h = hold_scan stops p i n in i \<le> h \<and> h \<le> length p \<and>
        (\<forall>j. i \<le> j \<and> j < h \<longrightarrow> \<not> (is_char_boundary p j \<and> list_ex (\<lambda>s. starts_with s (drop j p)) stops)))"
proof (induction n arbitrary: i)
  case (Suc n)
  from Suc.IH [of "i + 1"] Suc.prems show ?case
    by (auto simp: Let_def not_less_eq_eq le_less_Suc_eq) (metis Suc_leI le_neq_implies_less)+
qed (auto simp: Let_def)

lemma fold_max_start: "(a::nat) \<le> fold max xs a"
  by (induction xs arbitrary: a) (auto intro: order_trans [OF max.cobounded2])

lemma fold_max_ge: "x \<in> set xs \<Longrightarrow> (x::nat) \<le> fold max xs a"
  by (induction xs arbitrary: a) (auto intro: order_trans [OF max.cobounded1 fold_max_start])

text \<open>The matcher after the text \<open>t\<close>, of which it has emitted \<open>e\<close>.\<close>

definition sm_inv :: "u8 list list \<Rightarrow> u8 list \<Rightarrow> u8 list \<Rightarrow> stop_matcher \<Rightarrow> bool" where
  "sm_inv stops t e m \<longleftrightarrow> sm_stops m = stops \<and> (\<forall>s\<in>set stops. s \<noteq> [] \<and> length s \<le> sm_max_len m) \<and>
     \<not> sm_done m \<and> t = e @ sm_pending m \<and> (stops = [] \<longrightarrow> sm_pending m = []) \<and> (\<forall>j<length e. dead stops t j) \<and>
     (\<forall>s\<in>set stops. \<forall>j. \<not> occurs s t j)"

lemma sm_new_inv: "sm_inv (filter (\<lambda>s. s \<noteq> []) stops) [] [] (sm_new stops)"
  using fold_max_ge [of _ "map length (filter (\<lambda>s. s \<noteq> []) stops)" 0]
  by (auto simp: sm_inv_def sm_new_def occurs_def starts_with_def Let_def)

lemma sm_push_step:
  assumes inv: "sm_inv stops t e m" and s: "\<forall>s\<in>set stops. starts_char s"
  shows "case find_stop_match (t @ p) stops of
      None \<Rightarrow> \<exists>m' e'. sm_push p m = (m', \<lparr>sp_emit = e', sp_stopped = False, sp_matched = None\<rparr>) \<and>
        sm_inv stops (t @ p) (e @ e') m'
    | Some h \<Rightarrow> \<exists>m' e'. sm_push p m = (m', \<lparr>sp_emit = e', sp_stopped = True, sp_matched = Some (sh_matched h)\<rparr>) \<and>
        sm_done m' \<and> e @ e' = take (sh_offset h) (t @ p)"
proof (cases "stops = []")
  case True
  with inv show ?thesis by (cases m) (auto simp: find_stop_match_def sm_push_def sm_inv_def dead_def)
next
  case ne: False
  let ?p = "sm_pending m @ p"
  from inv have I: "sm_stops m = stops" "\<not> sm_done m" "t = e @ sm_pending m" "\<forall>j<length e. dead stops t j"
    "\<And>s. s \<in> set stops \<Longrightarrow> s \<noteq> [] \<and> length s \<le> sm_max_len m"
    unfolding sm_inv_def by blast+
  have d: "\<forall>j<length e. dead stops (t @ p) j"
  proof (intro allI impI)
    fix j assume j: "j < length e"
    with I(4) have "dead stops t j" by blast
    moreover have "j \<le> length t" using j arg_cong [OF I(3), of length] by simp
    ultimately show "dead stops (t @ p) j" by (rule dead_append)
  qed
  have shift: "find_stop_match (t @ p) stops =
      map_option (\<lambda>h. h\<lparr>sh_offset := length e + sh_offset h\<rparr>) (find_stop_match ?p stops)"
    using find_stop_match_drop [of "length e" stops "t @ p"] d I(3) by simp
  have push: "sm_push p m = sm_drain (m\<lparr>sm_pending := ?p\<rparr>)" using ne I(1,2) by (simp add: sm_push_def)
  show ?thesis
  proof (cases "find_stop_match ?p stops")
    case (Some h)
    with shift push I(1,3) show ?thesis by (simp add: sm_drain_def)
  next
    case None
    define from' where "from' = length ?p - (sm_max_len m - 1)"
    define h where "h = hold_scan stops ?p from' (length ?p - from')"
    have hs: "from' \<le> h" "h \<le> length ?p"
      "\<And>j. from' \<le> j \<Longrightarrow> j < h \<Longrightarrow> \<not> (is_char_boundary ?p j \<and> list_ex (\<lambda>s. starts_with s (drop j ?p)) stops)"
      using hold_scan_spec [of from' "length ?p - from'" ?p stops] by (auto simp: h_def from'_def Let_def)
    have no: "\<not> occurs s ?p j" if "s \<in> set stops" for s j using None that by (simp add: find_stop_match_None)
    have dead': "dead stops ?p j" if j: "j < h" for j
      unfolding dead_def
    proof (intro ballI conjI)
      fix s assume st: "s \<in> set stops"
      with I(5) have sn: "s \<noteq> []" "length s \<le> sm_max_len m" by simp_all
      show a: "\<not> starts_with (drop j ?p) s" using no [OF st] sn(1) by (auto simp: occurs_def)
      show "\<not> starts_with s (drop j ?p)"
      proof
        assume b: "starts_with s (drop j ?p)"
        then have l: "length (drop j ?p) \<le> length s" by (rule starts_with_length)
        show False
        proof (cases "j < from'")
          case True
          then have "length s \<le> length (drop j ?p)" using sn by (auto simp: from'_def)
          with l b have "drop j ?p = s" unfolding starts_with_def by (metis le_antisym take_all_iff order_refl)
          with a show False unfolding starts_with_def by (metis take_all_iff order_refl)
        next
          case False
          with hs(3) [of j] j b st have nb: "\<not> is_char_boundary ?p j" by (auto simp: list_ex_iff)
          have jl: "j < length ?p" using j hs(2) by simp
          with nb have "is_cont (?p ! j)" by (auto simp: is_char_boundary_def)
          moreover have "s ! 0 = ?p ! j"
            using b jl sn(1) by (metis Cons_nth_drop_Suc append_Cons nth_Cons_0 starts_with_iff)
          ultimately show False using s st sn(1) by (cases s) (auto simp: starts_char_def)
        qed
      qed
    qed
    define q where "q = ?p"
    have tp: "t @ p = e @ q" using I(3) by (simp add: q_def)
    have nd: "dead stops (t @ p) j" if "j < length (e @ take h q)" for j
    proof (cases "j < length e")
      case True
      with d show ?thesis by blast
    next
      case False
      with that hs(2) dead' [of "j - length e"] show ?thesis by (simp add: dead_def tp q_def [symmetric])
    qed
    have "\<not> occurs s (t @ p) j" if "s \<in> set stops" for s j
      using shift None that by (simp add: find_stop_match_None)
    with nd I tp ne have "sm_inv stops (t @ p) (e @ take h q) (m\<lparr>sm_pending := drop h q\<rparr>)"
      by (simp add: sm_inv_def)
    moreover have "sm_drain (m\<lparr>sm_pending := ?p\<rparr>) =
        (m\<lparr>sm_pending := drop h q\<rparr>, \<lparr>sp_emit = take h q, sp_stopped = False, sp_matched = None\<rparr>)"
      using None I(1) by (simp add: sm_drain_def Let_def h_def from'_def q_def)
    ultimately show ?thesis using push shift None by simp
  qed
qed

text \<open>
  The reference: the text received so far is searched after every piece, and the first
  search that finds a stop string decides.
\<close>

fun first_hit :: "u8 list list \<Rightarrow> u8 list \<Rightarrow> u8 list list \<Rightarrow> (u8 list \<times> stop_hit) option" where
  "first_hit stops t [] = None"
| "first_hit stops t (p # ps) =
     (case find_stop_match (t @ p) stops of
        Some h \<Rightarrow> Some (t @ p, h)
      | None \<Rightarrow> first_hit stops (t @ p) ps)"

lemma sm_run_done: "sm_done m \<Longrightarrow> sm_run ps m = (m, [], None)"
  by (induction ps) (simp_all add: sm_push_def stop_push_default_def)

lemma sm_run_spec:
  assumes "sm_inv stops t e m" "\<forall>s\<in>set stops. starts_char s"
  shows "case first_hit stops t ps of
      Some (t', h) \<Rightarrow> \<exists>m' e'. sm_run ps m = (m', e', Some (sh_matched h)) \<and> sm_done m' \<and> e @ e' = take (sh_offset h) t'
    | None \<Rightarrow> \<exists>m' e'. sm_run ps m = (m', e', None) \<and> sm_inv stops (t @ concat ps) (e @ e') m'"
  using assms(1)
proof (induction ps arbitrary: t e m)
  case Nil
  then show ?case by simp
next
  case (Cons p ps)
  note step = sm_push_step [OF Cons.prems assms(2), of p]
  show ?case
  proof (cases "find_stop_match (t @ p) stops")
    case (Some h)
    with step obtain m' e' where
      "sm_push p m = (m', \<lparr>sp_emit = e', sp_stopped = True, sp_matched = Some (sh_matched h)\<rparr>)"
      "sm_done m'" "e @ e' = take (sh_offset h) (t @ p)" by auto
    with Some show ?thesis by (simp add: sm_run_done)
  next
    case None
    with step obtain m' e' where p: "sm_push p m = (m', \<lparr>sp_emit = e', sp_stopped = False, sp_matched = None\<rparr>)"
      "sm_inv stops (t @ p) (e @ e') m'" by auto
    from Cons.IH [OF p(2)] p(1) None show ?thesis
      by (cases "first_hit stops (t @ p) ps") auto
  qed
qed

abbreviation kept_stops :: "u8 list list \<Rightarrow> u8 list list" where
  "kept_stops stops \<equiv> filter (\<lambda>s. s \<noteq> []) stops"

text \<open>C13: Streaming agrees with searching, piece by piece. The matcher reports a stop at the
  first piece after which the text received so far contains a complete stop string; it is the
  one that a search of that text finds (the earliest offset among the complete ones, then the
  order of the request), and the matcher has then emitted exactly the text before it. A stop
  that is still incomplete at that piece does not count, even where it begins earlier. When no
  stop is ever complete, what was emitted and the tail that is flushed are the whole text.
\<close>

theorem stop_streaming_exact:
  assumes "\<forall>s\<in>set stops. starts_char s" "sm_run ps (sm_new stops) = (m, emitted, matched)"
  shows "case first_hit (kept_stops stops) [] ps of
      Some (t, h) \<Rightarrow> matched = Some (sh_matched h) \<and> emitted = take (sh_offset h) t \<and> snd (sm_finalize m) = []
    | None \<Rightarrow> matched = None \<and> emitted @ snd (sm_finalize m) = concat ps"
proof -
  have s: "\<forall>s\<in>set (kept_stops stops). starts_char s" using assms(1) by simp
  from sm_run_spec [OF sm_new_inv s, of ps] assms(2) show ?thesis
    by (cases "first_hit (kept_stops stops) [] ps") (auto simp: sm_finalize_def sm_inv_def)
qed

text \<open>
  Which stop is found. A search reports a stop string of the request at an offset where
  it stands, no stop string stands at an earlier offset, and none that the request lists
  before it stands there; it reports nothing only when none occurs.
\<close>

theorem stop_search_earliest:
  "case find_stop_match t stops of
     None \<Rightarrow> \<forall>s\<in>set stops. \<forall>j. \<not> occurs s t j
   | Some h \<Rightarrow> first_stop t stops h"
  using find_stop_match_spec [of t stops] by (simp add: scan_ok_def)

section \<open>The gate\<close>

text \<open>The text a non-streaming route keeps.\<close>

definition gate_run :: "u8 list list \<Rightarrow> content_gate \<Rightarrow> content_gate \<times> u8 list" where
  "gate_run ps g = cg_flush (fold cg_push ps (g, []))"

lemma gate_matched: "cg_matched g \<noteq> None \<Longrightarrow> fold cg_push ps (g, x) = (g, x)"
  by (induction ps) (simp_all add: cg_push_def)

lemma sm_push_cases:
  assumes "\<not> sm_done m" "sm_push p m = (m', r)"
  shows "(sp_stopped r \<and> sp_matched r \<noteq> None \<and> sm_done m') \<or> (\<not> sp_stopped r \<and> sp_matched r = None \<and> \<not> sm_done m')"
  using assms by (auto simp: sm_push_def sm_drain_def Let_def split: if_splits option.splits)

lemma gate_fold:
  assumes "cg_matched g = None" "\<not> sm_done (cg_matcher g)" "sm_run ps (cg_matcher g) = (m, e, matched)"
  shows "\<exists>g'. fold cg_push ps (g, x) = (g', x @ e) \<and> cg_matched g' = matched \<and>
    (matched = None \<longrightarrow> cg_matcher g' = m) \<and> cg_end_requested g' = (cg_end_requested g \<or> matched \<noteq> None)"
  using assms
proof (induction ps arbitrary: g x e)
  case Nil
  then show ?case by (cases g) simp
next
  case (Cons p ps)
  obtain m1 r where p: "sm_push p (cg_matcher g) = (m1, r)" by force
  obtain m2 e2 k2 where q: "sm_run ps m1 = (m2, e2, k2)" by (metis prod_cases3)
  from Cons.prems(3) p q have e: "m = m2" "e = sp_emit r @ e2" "matched = (if sp_stopped r then sp_matched r else k2)"
    by simp_all
  show ?case
  proof (cases "sp_stopped r")
    case True
    with sm_push_cases [OF Cons.prems(2) p] have d: "sp_matched r \<noteq> None" "sm_done m1" by auto
    let ?g = "request_end (g\<lparr>cg_matcher := m1, cg_matched := sp_matched r\<rparr>)"
    have "cg_push p (g, x) = (?g, x @ sp_emit r)" using Cons.prems(1) p True by (simp add: cg_push_def Let_def)
    moreover have "fold cg_push ps (?g, x @ sp_emit r) = (?g, x @ sp_emit r)"
      using d by (intro gate_matched) (simp add: request_end_def)
    ultimately show ?thesis using e d q True sm_run_done [OF d(2), of ps] by (simp add: request_end_def)
  next
    case False
    with sm_push_cases [OF Cons.prems(2) p] have d: "sp_matched r = None" "\<not> sm_done m1" by auto
    let ?g = "g\<lparr>cg_matcher := m1\<rparr>"
    have "cg_push p (g, x) = (?g, x @ sp_emit r)" using Cons.prems(1) p False by (simp add: cg_push_def Let_def)
    with Cons.IH [of ?g e2 "x @ sp_emit r"] Cons.prems(1) d e q False show ?thesis by auto
  qed
qed

lemma gate_run_spec:
  assumes "sm_run ps (sm_new stops) = (m, e, matched)" "gate_run ps (cg_new (sm_new stops) False) = (g, text)"
  shows "cg_matched g = matched \<and> cg_end_requested g = (matched \<noteq> None) \<and>
    text = e @ (if matched = None then snd (sm_finalize m) else [])"
proof -
  have "\<not> sm_done (sm_new stops)" by (simp add: sm_new_def Let_def)
  with gate_fold [of "cg_new (sm_new stops) False" ps m e matched "[]"] assms(1) obtain g1 where
    "fold cg_push ps (cg_new (sm_new stops) False, []) = (g1, e)" "cg_matched g1 = matched"
    "matched = None \<Longrightarrow> cg_matcher g1 = m" "cg_end_requested g1 = (matched \<noteq> None)"
    by (auto simp: cg_new_def)
  with assms(2) show ?thesis
    by (cases "sm_finalize m") (auto simp: gate_run_def cg_flush_def split: if_splits prod.splits)
qed

text \<open>The gate keeps the text before the stop and asks for the end. A non-streaming route
  ends with the text up to the stop string, or the whole text when there is none, and the
  end flag of the request is set exactly when a stop matched.
\<close>

theorem gate_keeps_prefix:
  assumes "\<forall>s\<in>set stops. starts_char s" "gate_run ps (cg_new (sm_new stops) False) = (g, text)"
  shows "case first_hit (kept_stops stops) [] ps of
      Some (t, h) \<Rightarrow> text = take (sh_offset h) t \<and> cg_matched g = Some (sh_matched h) \<and> cg_end_requested g
    | None \<Rightarrow> text = concat ps \<and> cg_matched g = None \<and> \<not> cg_end_requested g"
proof -
  obtain m e matched where r: "sm_run ps (sm_new stops) = (m, e, matched)" by (metis prod_cases3)
  have s: "\<forall>s\<in>set (kept_stops stops). starts_char s" using assms(1) by simp
  from sm_run_spec [OF sm_new_inv s, of ps] r gate_run_spec [OF r assms(2)] show ?thesis
    by (cases "first_hit (kept_stops stops) [] ps") (auto simp: sm_finalize_def sm_inv_def)
qed

section \<open>Instances\<close>

text \<open>\<^verbatim>\<open>charlie\<close> in the pieces \<^verbatim>\<open>a char\<close> and \<^verbatim>\<open>lie b\<close>; the stops \<^verbatim>\<open>abc\<close> and \<^verbatim>\<open>b\<close> on the text \<^verbatim>\<open>abc\<close>.\<close>

definition charlie :: "u8 list" where "charlie = [0x63, 0x68, 0x61, 0x72, 0x6C, 0x69, 0x65]"

theorem stop_streaming_exact_witness:
  "\<exists>m. sm_run [[0x61, 0x20, 0x63, 0x68, 0x61, 0x72], [0x6C, 0x69, 0x65, 0x20, 0x62]] (sm_new [charlie]) =
     (m, [0x61, 0x20], Some charlie)"
proof -
  let ?ps = "[[0x61, 0x20, 0x63, 0x68, 0x61, 0x72], [0x6C, 0x69, 0x65, 0x20, 0x62]] :: u8 list list"
  obtain m e k where r: "sm_run ?ps (sm_new [charlie]) = (m, e, k)" by (metis prod_cases3)
  have h: "first_hit (kept_stops [charlie]) [] ?ps =
      Some ([0x61, 0x20, 0x63, 0x68, 0x61, 0x72, 0x6C, 0x69, 0x65, 0x20, 0x62], \<lparr>sh_offset = 2, sh_matched = charlie\<rparr>)"
    by code_simp
  have "\<forall>s\<in>set [charlie]. starts_char s" by code_simp
  from stop_streaming_exact [OF this r] h r show ?thesis by simp
qed

theorem gate_keeps_prefix_witness:
  "snd (gate_run [[0x61, 0x62], [0x63]] (cg_new (sm_new [[0x62]]) False)) = [0x61]"
proof -
  obtain g tx where r: "gate_run [[0x61, 0x62], [0x63]] (cg_new (sm_new [[0x62]]) False) = (g, tx)" by force
  have h: "first_hit (kept_stops [[0x62]]) [] [[0x61, 0x62], [0x63]] =
      Some ([0x61, 0x62], \<lparr>sh_offset = 1, sh_matched = [0x62]\<rparr>)" by code_simp
  have "\<forall>s\<in>set [[0x62 :: u8]]. starts_char s" by code_simp
  from gate_keeps_prefix [OF this r] h r show ?thesis by simp
qed

text \<open>The pieces matter. With the stops \<^verbatim>\<open>abc\<close> and \<^verbatim>\<open>b\<close> the text \<^verbatim>\<open>abc\<close> in one piece stops at
  \<^verbatim>\<open>abc\<close> with nothing emitted; in the pieces \<^verbatim>\<open>ab\<close>, \<^verbatim>\<open>c\<close> it stops at \<^verbatim>\<open>b\<close> with \<^verbatim>\<open>a\<close> emitted,
  though \<^verbatim>\<open>abc\<close> stands at the earlier offset.
\<close>

theorem stop_depends_on_pieces:
  "snd (sm_run [[0x61, 0x62, 0x63]] (sm_new [[0x61, 0x62, 0x63], [0x62]])) = ([], Some [0x61, 0x62, 0x63]) \<and>
   snd (sm_run [[0x61, 0x62], [0x63]] (sm_new [[0x61, 0x62, 0x63], [0x62]])) = ([0x61], Some [0x62])"
  by code_simp

end
