(* ===== verification/ThinkSplitter.thy ===== *)
theory ThinkSplitter
  imports StopMatcher
begin

text \<open>
  The routing of a reasoning model's text, \<^verbatim>\<open>rmlx-server/src/engine/think.rs\<close>:
  \<^verbatim>\<open>prompt_leaves_think_open\<close> and the state machine \<^verbatim>\<open>ThinkSplitter\<close>. The scan loop of \<^verbatim>\<open>step\<close>
  advances by the length of the tag it found, so it need not end when a tag is empty: it is
  a partial function whose value \<open>None\<close> is the run that does not return.
\<close>

section \<open>The prompt\<close>

definition prompt_leaves_think_open :: "u8 list \<Rightarrow> u8 list \<Rightarrow> u8 list \<Rightarrow> bool" where
  "prompt_leaves_think_open rendered start end_t =
     (if start = [] \<or> end_t = [] then False
      else (case (rfind_bytes start rendered, rfind_bytes end_t rendered) of
          (Some s, Some e) \<Rightarrow> e < s
        | (Some _, None) \<Rightarrow> True
        | (None, _) \<Rightarrow> False))"

section \<open>The splitter\<close>

definition THINK_START :: "u8 list" where "THINK_START = [0x3C, 0x74, 0x68, 0x69, 0x6E, 0x6B, 0x3E]"
definition THINK_END :: "u8 list" where
  "THINK_END = [0x3C, 0x2F, 0x74, 0x68, 0x69, 0x6E, 0x6B, 0x3E]"

record think_splitter =
  ts_open :: bool
  ts_start :: "u8 list"
  ts_end :: "u8 list"
  ts_count :: u32
  ts_budget :: "u32 option"
  ts_budget_exceeded :: bool
  ts_force_close :: bool

definition ts_new_for_request ::
  "bool \<Rightarrow> u32 option \<Rightarrow> u8 list option \<Rightarrow> u8 list option \<Rightarrow> think_splitter" where
  "ts_new_for_request prompt_think_open budget start end_t =
     \<lparr>ts_open = prompt_think_open,
      ts_start = (case start of Some s \<Rightarrow> if s \<noteq> [] then s else THINK_START | None \<Rightarrow> THINK_START),
      ts_end = (case end_t of Some s \<Rightarrow> if s \<noteq> [] then s else THINK_END | None \<Rightarrow> THINK_END),
      ts_count = 0, ts_budget = budget, ts_budget_exceeded = False, ts_force_close = False\<rparr>"

definition ts_new :: think_splitter where
  "ts_new = \<lparr>ts_open = False, ts_start = THINK_START, ts_end = THINK_END, ts_count = 0,
     ts_budget = None, ts_budget_exceeded = False, ts_force_close = False\<rparr>"

definition ts_new_qwen3_prefilled :: think_splitter where
  "ts_new_qwen3_prefilled = ts_new\<lparr>ts_open := True\<rparr>"

definition take_force_close :: "think_splitter \<Rightarrow> think_splitter \<times> bool" where
  "take_force_close s = (if ts_force_close s then (s\<lparr>ts_force_close := False\<rparr>, True) else (s, False))"

definition account_thinking_piece :: "think_splitter \<Rightarrow> think_splitter" where
  "account_thinking_piece s =
     (case ts_budget s of
        None \<Rightarrow> s
      | Some budget \<Rightarrow>
          if \<not> ts_open s \<or> ts_budget_exceeded s then s
          else
            let s = s\<lparr>ts_count := ts_count s + 1\<rparr> in
            if budget < ts_count s then s\<lparr>ts_budget_exceeded := True, ts_force_close := True\<rparr> else s)"

text \<open>The nearest tag of the remaining text: its offset, the tag, and the channel it opens.\<close>

definition next_tag :: "u8 list \<Rightarrow> u8 list \<Rightarrow> u8 list \<Rightarrow> (nat \<times> u8 list \<times> bool) option" where
  "next_tag start end_t rest =
     (case (find_bytes start rest, find_bytes end_t rest) of
        (None, None) \<Rightarrow> None
      | (Some i, None) \<Rightarrow> Some (i, start, True)
      | (None, Some c) \<Rightarrow> Some (c, end_t, False)
      | (Some i, Some c) \<Rightarrow> if i < c then Some (i, start, True) else Some (c, end_t, False))"

partial_function (option) ts_scan ::
  "u8 list \<Rightarrow> u8 list \<Rightarrow> bool \<Rightarrow> u8 list \<Rightarrow> u8 list \<Rightarrow> (bool \<times> u8 list) option" where
  "ts_scan start end_t opn out rest =
     (case next_tag start end_t rest of
        None \<Rightarrow> Some (opn, out @ rest)
      | Some (pos, tag, new_open) \<Rightarrow>
          ts_scan start end_t new_open (out @ take pos rest) (drop (pos + length tag) rest))"

declare ts_scan.simps [code]

definition ts_step :: "u8 list \<Rightarrow> think_splitter \<Rightarrow> (think_splitter \<times> u8 list \<times> bool) option" where
  "ts_step piece s =
     (if find_bytes (ts_start s) piece = None \<and> find_bytes (ts_end s) piece = None then
        let s = account_thinking_piece s in Some (s, piece, ts_open s)
      else
        (case ts_scan (ts_start s) (ts_end s) (ts_open s) [] piece of
           None \<Rightarrow> None
         | Some (opn, out) \<Rightarrow>
             let s = account_thinking_piece (s\<lparr>ts_open := opn\<rparr>) in Some (s, out, ts_open s)))"

text \<open>The step callback: a piece, then the one-shot flag.\<close>

fun ts_run :: "u8 list list \<Rightarrow> think_splitter \<Rightarrow> (think_splitter \<times> (u8 list \<times> bool \<times> bool) list) option" where
  "ts_run [] s = Some (s, [])"
| "ts_run (p # ps) s =
     (case ts_step p s of
        None \<Rightarrow> None
      | Some (s1, out, th) \<Rightarrow>
          (case take_force_close s1 of
             (s2, forced) \<Rightarrow>
               (case ts_run ps s2 of
                  None \<Rightarrow> None
                | Some (s3, rs) \<Rightarrow> Some (s3, (out, th, forced) # rs))))"

section \<open>The scan returns\<close>

lemma next_tag_Some:
  "next_tag start end_t rest = Some (pos, tag, b) \<Longrightarrow>
     tag = (if b then start else end_t) \<and> find_bytes tag rest = Some pos \<and>
     (\<forall>j<pos. \<not> starts_with (drop j rest) start \<and> \<not> starts_with (drop j rest) end_t)"
  by (auto simp: next_tag_def find_bytes_None dest!: find_bytes_Some split: option.splits if_splits)

lemma next_tag_None:
  "next_tag start end_t rest = None \<longleftrightarrow> find_bytes start rest = None \<and> find_bytes end_t rest = None"
  by (auto simp: next_tag_def split: option.splits)

lemma ts_scan_total:
  assumes "start \<noteq> []" "end_t \<noteq> []"
  shows "\<exists>r. ts_scan start end_t opn out rest = Some r"
proof (induction "length rest" arbitrary: opn out rest rule: less_induct)
  case less
  show ?case
  proof (cases "next_tag start end_t rest")
    case None
    then show ?thesis by (subst ts_scan.simps) simp
  next
    case (Some a)
    obtain pos tag b where a: "a = (pos, tag, b)" by (cases a)
    note n = next_tag_Some [OF Some [unfolded a]]
    from n find_bytes_Some [of tag rest pos] have le: "pos + length tag \<le> length rest" by blast
    from n assms have "0 < length tag" by auto
    with le have "length (drop (pos + length tag) rest) < length rest" unfolding length_drop by linarith
    from less [OF this, of b "out @ take pos rest"]
    show ?thesis by (subst ts_scan.simps) (simp add: Some a)
  qed
qed

lemma account_tags [simp]:
  "ts_start (account_thinking_piece s) = ts_start s" "ts_end (account_thinking_piece s) = ts_end s"
  "ts_open (account_thinking_piece s) = ts_open s" "ts_budget (account_thinking_piece s) = ts_budget s"
  by (auto simp: account_thinking_piece_def Let_def split: option.splits)

lemma take_force_close_tags [simp]:
  "ts_start (fst (take_force_close s)) = ts_start s" "ts_end (fst (take_force_close s)) = ts_end s"
  by (auto simp: take_force_close_def)

lemma ts_new_for_request_tags [simp]:
  "ts_start (ts_new_for_request op b st en) \<noteq> []" "ts_end (ts_new_for_request op b st en) \<noteq> []"
  by (auto simp: ts_new_for_request_def THINK_START_def THINK_END_def split: option.splits)

lemma ts_step_Some:
  assumes "ts_start s \<noteq> []" "ts_end s \<noteq> []"
  obtains opn out where "ts_step p s =
    Some (account_thinking_piece (s\<lparr>ts_open := opn\<rparr>), out, opn)"
proof (cases "find_bytes (ts_start s) p = None \<and> find_bytes (ts_end s) p = None")
  case True
  have "s\<lparr>ts_open := ts_open s\<rparr> = s" by simp
  with True that [of "ts_open s" p] show ?thesis by (simp add: ts_step_def Let_def)
next
  case False
  obtain opn out where "ts_scan (ts_start s) (ts_end s) (ts_open s) [] p = Some (opn, out)"
    using ts_scan_total [OF assms] by fastforce
  then have "ts_step p s = Some (account_thinking_piece (s\<lparr>ts_open := opn\<rparr>), out, opn)"
    unfolding ts_step_def if_not_P [OF False] by (simp add: Let_def)
  with that show ?thesis by blast
qed

lemma ts_run_total: "ts_start s \<noteq> [] \<Longrightarrow> ts_end s \<noteq> [] \<Longrightarrow> \<exists>r. ts_run ps s = Some r"
proof (induction ps arbitrary: s)
  case (Cons p ps)
  obtain opn out where st: "ts_step p s = Some (account_thinking_piece (s\<lparr>ts_open := opn\<rparr>), out, opn)"
    by (rule ts_step_Some [OF Cons.prems])
  let ?s = "fst (take_force_close (account_thinking_piece (s\<lparr>ts_open := opn\<rparr>)))"
  from Cons.IH [of ?s] Cons.prems obtain r where "ts_run ps ?s = Some r" by auto
  then show ?case by (auto simp: st split: prod.splits)
qed simp

section \<open>The channel a text leaves\<close>

lemma occurs_iff: "occurs p t i \<longleftrightarrow> p \<noteq> [] \<and> (\<exists>a b. t = a @ p @ b \<and> length a = i)"
proof
  assume o: "occurs p t i"
  then obtain b where "drop i t = p @ b" by (auto simp: occurs_def starts_with_iff)
  with occurs_lt [OF o] have "t = take i t @ p @ b" "length (take i t) = i"
    by (metis append_take_drop_id, simp)
  with o show "p \<noteq> [] \<and> (\<exists>a b. t = a @ p @ b \<and> length a = i)" unfolding occurs_def by blast
qed (auto simp: occurs_def starts_with_iff)

lemma occurs_rev: "occurs (rev p) (rev t) i \<longleftrightarrow> i + length p \<le> length t \<and> occurs p t (length t - i - length p)"
proof
  assume "occurs (rev p) (rev t) i"
  then obtain a b where p: "p \<noteq> []" and "rev t = a @ rev p @ b" "length a = i"
    by (auto simp: occurs_iff)
  then have t: "t = rev b @ p @ rev a" by (metis append.assoc rev_append rev_rev_ident)
  have len: "length t = length b + length p + i" using t \<open>length a = i\<close> by simp
  then have "length (rev b) = length t - i - length p" by simp
  with p t have "occurs p t (length t - i - length p)" unfolding occurs_iff by blast
  with len show "i + length p \<le> length t \<and> occurs p t (length t - i - length p)" by simp
next
  assume "i + length p \<le> length t \<and> occurs p t (length t - i - length p)"
  then obtain a b where p: "p \<noteq> []" "i + length p \<le> length t" and t: "t = a @ p @ b"
    and la: "length a = length t - i - length p"
    unfolding occurs_iff by blast
  from t have "length t = length a + length p + length b" by simp
  with la p(2) have "length b = i" by linarith
  from t have rt: "rev t = rev b @ rev p @ rev a" by simp
  have "rev p \<noteq> []" "length (rev b) = i" using p(1) \<open>length b = i\<close> by simp_all
  with rt show "occurs (rev p) (rev t) i" unfolding occurs_iff by blast
qed

lemma rfind_bytes_occurs:
  assumes "p \<noteq> []"
  shows "rfind_bytes p t = None \<longleftrightarrow> (\<forall>j. \<not> occurs p t j)"
    and "rfind_bytes p t = Some i \<Longrightarrow> occurs p t i \<and> (\<forall>j. occurs p t j \<longrightarrow> j \<le> i)"
proof -
  have flip: "occurs p t j \<Longrightarrow> occurs (rev p) (rev t) (length t - j - length p) \<and> j + length p \<le> length t" for j
    unfolding occurs_rev by (auto simp: occurs_iff)
  have rp: "rev p \<noteq> []" using assms by simp
  show "rfind_bytes p t = None \<longleftrightarrow> (\<forall>j. \<not> occurs p t j)"
    using flip by (auto simp: rfind_bytes_def find_bytes_no_occurs [OF rp] occurs_rev)
  assume "rfind_bytes p t = Some i"
  then obtain k where k: "find_bytes (rev p) (rev t) = Some k" and i: "i = length t - k - length p"
    by (auto simp: rfind_bytes_def)
  from k have o: "occurs (rev p) (rev t) k" and least: "\<And>j. j < k \<Longrightarrow> \<not> occurs (rev p) (rev t) j"
    by (simp_all add: find_bytes_occurs [OF rp])
  from o have "k + length p \<le> length t" "occurs p t i" by (auto simp: occurs_rev i)
  moreover have "j \<le> i" if "occurs p t j" for j
    using flip [OF that] least [of "length t - j - length p"] \<open>k + length p \<le> length t\<close>
    unfolding i by linarith
  ultimately show "occurs p t i \<and> (\<forall>j. occurs p t j \<longrightarrow> j \<le> i)" by blast
qed

definition channel_of :: "u8 list \<Rightarrow> u8 list \<Rightarrow> bool \<Rightarrow> u8 list \<Rightarrow> bool" where
  "channel_of start end_t opn t =
     (case (rfind_bytes start t, rfind_bytes end_t t) of
        (Some s, Some e) \<Rightarrow> e < s
      | (Some _, None) \<Rightarrow> True
      | (None, Some _) \<Rightarrow> False
      | (None, None) \<Rightarrow> opn)"

text \<open>\<open>separated\<close>: the tags begin with a byte that neither repeats, and neither continues the other.\<close>

definition separated :: "u8 list \<Rightarrow> u8 list \<Rightarrow> bool" where
  "separated start end_t \<longleftrightarrow>
     start \<noteq> [] \<and> end_t \<noteq> [] \<and> hd end_t = hd start \<and> hd start \<notin> set (tl start) \<and>
     hd start \<notin> set (tl end_t) \<and> \<not> prefix start end_t \<and> \<not> prefix end_t start"

definition tag_at :: "u8 list \<Rightarrow> u8 list \<Rightarrow> u8 list \<Rightarrow> nat \<Rightarrow> bool \<Rightarrow> bool" where
  "tag_at start end_t t i b \<longleftrightarrow> occurs (if b then start else end_t) t i"

lemma tag_at_drop: "tag_at start end_t (drop n t) i b \<longleftrightarrow> tag_at start end_t t (n + i) b"
  by (simp add: tag_at_def occurs_def add.commute)

lemma channel_of_none:
  assumes "start \<noteq> []" "end_t \<noteq> []" "\<And>i b. \<not> tag_at start end_t t i b"
  shows "channel_of start end_t opn t = opn"
proof -
  have "rfind_bytes start t = None" "rfind_bytes end_t t = None"
    using assms(3) [of _ True] assms(3) [of _ False]
    by (simp_all add: rfind_bytes_occurs(1) assms(1,2) tag_at_def)
  then show ?thesis by (simp add: channel_of_def)
qed

lemma separated_order:
  assumes sep: "separated start end_t" and p: "tag_at start end_t t i b" and q: "tag_at start end_t t j b'"
    and le: "i \<le> j"
  shows "(i = j \<and> b = b') \<or> i + length (if b then start else end_t) \<le> j"
proof -
  define P Q where "P = (if b then start else end_t)" and "Q = (if b' then start else end_t)"
  from sep have hd: "P \<noteq> []" "Q \<noteq> []" "hd P = hd start" "hd Q = hd start" "hd start \<notin> set (tl P)"
    by (auto simp: P_def Q_def separated_def)
  from p have "starts_with (drop i t) P" by (simp add: tag_at_def occurs_def P_def)
  then obtain r where r: "drop i t = P @ r" by (auto simp: starts_with_iff)
  from q have "starts_with (drop j t) Q" by (simp add: tag_at_def occurs_def Q_def)
  then obtain r' where r': "drop j t = Q @ r'" by (auto simp: starts_with_iff)
  have shift: "drop (j - i) (P @ r) = Q @ r'" using r r' le by (metis drop_drop le_add_diff_inverse2)
  show ?thesis
  proof (cases "j - i < length P")
    case False
    with le have "i + length P \<le> j" by linarith
    then show ?thesis unfolding P_def by blast
  next
    case lt: True
    show ?thesis
    proof (cases "j = i")
      case True
      with shift have e: "P @ r = Q @ r'" by simp
      have "prefix P Q \<or> prefix Q P"
        using prefix_same_cases [of P "P @ r" Q] e by (metis prefixI)
      with sep have "b = b'" by (auto simp: P_def Q_def separated_def split: if_splits)
      with True show ?thesis by simp
    next
      case False
      with le have pos: "0 < j - i" by simp
      from shift lt have "hd (Q @ r') = P ! (j - i)"
        by (metis drop_eq_Nil hd_append2 hd_drop_conv_nth leD drop_append drop0 nth_append length_append trans_less_add1 append_is_Nil_conv)
      with hd have "P ! (j - i) = hd start" by simp
      moreover have "P ! (j - i) \<in> set (tl P)"
        using pos lt by (cases P) (auto simp: nth_Cons split: nat.splits)
      ultimately show ?thesis using hd by simp
    qed
  qed
qed


lemma channel_of_last:
  assumes sep: "separated start end_t" and at: "tag_at start end_t t i b"
    and last: "\<And>j b'. tag_at start end_t t j b' \<Longrightarrow> j \<le> i"
  shows "channel_of start end_t opn t = b"
proof -
  from sep have ne: "start \<noteq> []" "end_t \<noteq> []" by (simp_all add: separated_def)
  define P Q where "P = (if b then start else end_t)" and "Q = (if b then end_t else start)"
  have P: "rfind_bytes P t = Some i"
  proof (cases "rfind_bytes P t")
    case None
    with at ne show ?thesis by (auto simp: P_def tag_at_def rfind_bytes_occurs(1) split: if_splits)
  next
    case (Some k)
    with ne have k: "occurs P t k" "\<And>j. occurs P t j \<Longrightarrow> j \<le> k"
      by (auto simp: P_def dest: rfind_bytes_occurs(2) split: if_splits)
    from at k(2) have "i \<le> k" by (simp add: P_def tag_at_def)
    moreover from k(1) last [of k b] have "k \<le> i" by (simp add: P_def tag_at_def)
    ultimately show ?thesis using Some by simp
  qed
  have Q: "k < i" if "rfind_bytes Q t = Some k" for k
  proof -
    from that ne have "occurs Q t k" by (auto simp: Q_def dest: rfind_bytes_occurs(2) split: if_splits)
    then have q: "tag_at start end_t t k (\<not> b)" by (cases b) (simp_all add: Q_def tag_at_def)
    from last [OF q] have "k \<le> i" .
    moreover have "k \<noteq> i" using separated_order [OF sep at q] last [OF q] ne
      by (auto split: if_splits)
    ultimately show ?thesis by simp
  qed
  show ?thesis using P Q by (cases b) (auto simp: channel_of_def P_def Q_def split: option.splits)
qed

lemma channel_of_step:
  assumes sep: "separated start end_t" and at: "tag_at start end_t t i b"
    and first: "\<And>j b'. tag_at start end_t t j b' \<Longrightarrow> i \<le> j"
  shows "channel_of start end_t opn t =
    channel_of start end_t b (drop (i + length (if b then start else end_t)) t)"
proof -
  define n where "n = i + length (if b then start else end_t)"
  from sep have ne: "start \<noteq> []" "end_t \<noteq> []" by (simp_all add: separated_def)
  have later: "tag_at start end_t (drop n t) (j - n) b'" "n \<le> j"
    if "tag_at start end_t t j b'" "j \<noteq> i" for j b'
    using separated_order [OF sep at that(1) first [OF that(1)]] that
    by (simp_all add: tag_at_drop n_def)
  show ?thesis
  proof (cases "\<exists>j b'. tag_at start end_t (drop n t) j b'")
    case False
    with later have "\<And>j b'. tag_at start end_t t j b' \<Longrightarrow> j \<le> i" by force
    from channel_of_last [OF sep at this] channel_of_none [OF ne, of "drop n t" b] False
    show ?thesis unfolding n_def by simp
  next
    case True
    let ?P = "\<lambda>j. \<exists>b'. tag_at start end_t (drop n t) j b'"
    have bound: "?P j \<Longrightarrow> j \<le> length t" for j
      using occurs_lt [of _ "drop n t" j] by (fastforce simp: tag_at_def)
    define m where "m = (GREATEST j. ?P j)"
    have "?P m" unfolding m_def by (rule GreatestI_ex_nat [OF True]) (rule bound)
    then obtain b' where m: "tag_at start end_t (drop n t) m b'" ..
    have max: "j \<le> m" if "tag_at start end_t (drop n t) j c" for j c
      unfolding m_def by (rule Greatest_le_nat [of ?P _ "length t"]) (use that bound in blast)+
    have "channel_of start end_t b (drop n t) = b'" by (rule channel_of_last [OF sep m max])
    moreover have "channel_of start end_t opn t = b'"
    proof (rule channel_of_last [OF sep])
      show "tag_at start end_t t (n + m) b'" using m by (simp add: tag_at_drop)
      show "j \<le> n + m" if j: "tag_at start end_t t j c" for j c
      proof (cases "j = i")
        case True
        then show ?thesis by (simp add: n_def)
      next
        case False
        from later [OF j False] max show ?thesis by fastforce
      qed
    qed
    ultimately show ?thesis by (simp add: n_def)
  qed
qed

lemma ts_scan_channel:
  assumes sep: "separated start end_t"
  shows "ts_scan start end_t opn out t = Some (opn', out') \<Longrightarrow> opn' = channel_of start end_t opn t"
proof (induction "length t" arbitrary: opn out t rule: less_induct)
  case less
  from sep have ne: "start \<noteq> []" "end_t \<noteq> []" by (simp_all add: separated_def)
  show ?case
  proof (cases "next_tag start end_t t")
    case None
    with less.prems have "opn' = opn" by (subst (asm) ts_scan.simps) simp
    moreover from None ne have "\<And>i b. \<not> tag_at start end_t t i b"
      by (simp add: next_tag_None find_bytes_no_occurs tag_at_def)
    ultimately show ?thesis using channel_of_none [OF ne] by simp
  next
    case (Some a)
    obtain pos tag b where a: "a = (pos, tag, b)" by (cases a)
    note n = next_tag_Some [OF Some [unfolded a]]
    from n find_bytes_Some [of tag t pos] have le: "pos + length tag \<le> length t" by blast
    from n ne have tag: "tag \<noteq> []" by auto
    with le have shorter: "length (drop (pos + length tag) t) < length t" unfolding length_drop
      by (metis add_is_0 diff_less length_0_conv neq0_conv le_zero_eq)
    have at: "tag_at start end_t t pos b"
      using n tag by (auto simp: tag_at_def find_bytes_occurs)
    have first: "pos \<le> j" if "tag_at start end_t t j c" for j c
      using n that by (auto simp: tag_at_def occurs_def not_le [symmetric] split: if_splits)
    from less.prems have "ts_scan start end_t b (out @ take pos t) (drop (pos + length tag) t) = Some (opn', out')"
      by (subst (asm) ts_scan.simps) (simp add: Some a)
    from less.hyps [OF shorter this] n channel_of_step [OF sep at first, where opn = opn]
    show ?thesis by simp
  qed
qed

lemma separated_default: "separated THINK_START THINK_END"
  by (simp add: separated_def THINK_START_def THINK_END_def)

lemma ts_scan_empty_end: "ts_scan start [] opn out rest = None"
proof -
  have "end_t \<noteq> []" if "ts_scan start end_t opn out rest = Some r" for end_t r
    using that
  proof (rule ts_scan.raw_induct [rotated, where P = "\<lambda>start end_t opn out rest r. end_t \<noteq> []"])
    fix f start end_t opn out rest r
    assume ih: "\<And>start end_t opn out rest r. f start end_t opn out rest = Some r \<Longrightarrow> end_t \<noteq> []"
      and eq: "(case next_tag start end_t rest of None \<Rightarrow> Some (opn, out @ rest)
        | Some (pos, tag, new_open) \<Rightarrow>
            f start end_t new_open (out @ take pos rest) (drop (pos + length tag) rest)) = Some r"
    show "end_t \<noteq> []"
    proof
      assume e: "end_t = []"
      have "find_bytes [] rest = Some 0" by (cases rest) (simp_all add: starts_with_def)
      then have "\<exists>tg b. next_tag start end_t rest = Some (0, tg, b)"
        by (cases "find_bytes start rest") (auto simp: next_tag_def e)
      with ih eq e show False by fastforce
    qed
  qed
  then show ?thesis by (cases "ts_scan start [] opn out rest") auto
qed

section \<open>The budget\<close>

definition thinking_count :: "(u8 list \<times> bool \<times> bool) list \<Rightarrow> nat" where
  "thinking_count rs = length (filter (\<lambda>r. fst (snd r)) rs)"

text \<open>
  The counter after \<open>n\<close> thinking pieces: it counts up to one past the budget and stays there.
\<close>

definition budget_inv :: "u32 \<Rightarrow> nat \<Rightarrow> think_splitter \<Rightarrow> bool" where
  "budget_inv b n s \<longleftrightarrow> ts_start s \<noteq> [] \<and> ts_end s \<noteq> [] \<and> ts_budget s = Some b \<and> \<not> ts_force_close s \<and>
     ts_budget_exceeded s = (unat b < n) \<and> (n \<le> unat b \<longrightarrow> unat (ts_count s) = n)"

lemma budget_inv_step:
  assumes inv: "budget_inv b n s" and "Suc n < 2 ^ 32" and step: "ts_step p s = Some (s1, out, th)"
  shows "\<exists>s2. take_force_close s1 = (s2, th \<and> n = unat b) \<and> budget_inv b (if th then Suc n else n) s2"
proof -
  from inv have ne: "ts_start s \<noteq> []" "ts_end s \<noteq> []" by (simp_all add: budget_inv_def)
  obtain opn out' where "ts_step p s = Some (account_thinking_piece (s\<lparr>ts_open := opn\<rparr>), out', opn)"
    by (rule ts_step_Some [OF ne])
  with step have s1: "s1 = account_thinking_piece (s\<lparr>ts_open := th\<rparr>)" by auto
  show ?thesis
  proof (cases "th \<and> n \<le> unat b")
    case False
    with inv have "s1 = s\<lparr>ts_open := th\<rparr>"
      by (auto simp: s1 account_thinking_piece_def budget_inv_def split: option.split)
    with False inv show ?thesis by (auto simp: take_force_close_def budget_inv_def)
  next
    case True
    with inv have c: "unat (ts_count s) = n" by (simp add: budget_inv_def)
    have c1: "unat (ts_count s + 1) = Suc n"
      using assms(2) c by (simp add: unat_word_ariths)
    have lt: "b < ts_count s + 1 \<longleftrightarrow> n = unat b"
      using True c1 by (auto simp: word_less_nat_alt)
    show ?thesis
    proof (cases "n = unat b")
      case t: True
      with True inv lt have "s1 = s\<lparr>ts_open := th, ts_count := ts_count s + 1, ts_budget_exceeded := True, ts_force_close := True\<rparr>"
        by (auto simp: s1 account_thinking_piece_def budget_inv_def Let_def split: option.split)
      with t True inv show ?thesis by (auto simp: take_force_close_def budget_inv_def)
    next
      case f: False
      with True inv lt have "s1 = s\<lparr>ts_open := th, ts_count := ts_count s + 1\<rparr>"
        by (auto simp: s1 account_thinking_piece_def budget_inv_def Let_def split: option.split)
      with f True inv c1 show ?thesis by (auto simp: take_force_close_def budget_inv_def)
    qed
  qed
qed

lemma budget_run:
  assumes "budget_inv b n s" "n + length ps < 2 ^ 32" "ts_run ps s = Some (s', rs)" "i < length rs"
  shows "snd (snd (rs ! i)) \<longleftrightarrow> fst (snd (rs ! i)) \<and> n + thinking_count (take (Suc i) rs) = unat b + 1"
  using assms
proof (induction ps arbitrary: n s rs i)
  case (Cons p ps)
  from Cons.prems(3) obtain s1 out th s2 forced rs' where
    st: "ts_step p s = Some (s1, out, th)" and tk: "take_force_close s1 = (s2, forced)" and
    rn: "ts_run ps s2 = Some (s', rs')" and rs: "rs = (out, th, forced) # rs'"
    by (auto split: option.splits prod.splits)
  from Cons.prems(2) have "Suc n < 2 ^ 32" by simp
  from budget_inv_step [OF Cons.prems(1) this st] tk
  have f: "forced = (th \<and> n = unat b)" and inv: "budget_inv b (if th then Suc n else n) s2" by auto
  show ?case
  proof (cases i)
    case 0
    then show ?thesis by (auto simp: rs f thinking_count_def)
  next
    case (Suc j)
    from Cons.prems(4) Suc rs have "j < length rs'" by simp
    from Cons.IH [OF inv _ rn this] Cons.prems(2) Suc show ?thesis
      by (auto simp: rs thinking_count_def split: if_splits)
  qed
qed simp

lemma budget_inv_new: "budget_inv b 0 (ts_new_for_request op (Some b) st en)"
  using ts_new_for_request_tags [of op "Some b" st en] by (simp add: budget_inv_def ts_new_for_request_def)

section \<open>Properties\<close>

text \<open>The splitter returns on every text. A splitter built for a request never has an
  empty tag, so each piece of any stream is routed. The guard is needed: with an empty end
  tag no piece is, whatever it holds.
\<close>

theorem think_splitter_returns:
  "(\<exists>r. ts_run ps (ts_new_for_request op b st en) = Some r) \<and>
   ts_step p ((ts_new_for_request op b st en)\<lparr>ts_end := []\<rparr>) = None"
proof
  show "\<exists>r. ts_run ps (ts_new_for_request op b st en) = Some r" by (rule ts_run_total) simp_all
  have "find_bytes [] p = Some 0" by (cases p) (simp_all add: starts_with_def)
  then show "ts_step p ((ts_new_for_request op b st en)\<lparr>ts_end := []\<rparr>) = None"
    by (simp add: ts_step_def ts_scan_empty_end)
qed

text \<open>
  The channel over several pieces. \<open>unsplit\<close> says that no tag begins in the text so far and ends
  in the next piece; then the pieces leave the channel that their concatenation leaves.
\<close>

definition unsplit :: "u8 list \<Rightarrow> u8 list \<Rightarrow> u8 list \<Rightarrow> u8 list \<Rightarrow> bool" where
  "unsplit start end_t xs ys \<longleftrightarrow>
     (\<forall>j < length xs. \<forall>b. tag_at start end_t (xs @ ys) j b \<longrightarrow> j + length (if b then start else end_t) \<le> length xs)"

lemma unsplit_list:
  "start \<noteq> [] \<Longrightarrow> end_t \<noteq> [] \<Longrightarrow> unsplit start end_t xs ys \<longleftrightarrow>
     list_all (\<lambda>j. (starts_with (drop j (xs @ ys)) start \<longrightarrow> j + length start \<le> length xs) \<and>
       (starts_with (drop j (xs @ ys)) end_t \<longrightarrow> j + length end_t \<le> length xs)) [0..<length xs]"
  by (auto simp: unsplit_def tag_at_def occurs_def list_all_iff all_bool_eq)

lemma occurs_bound: "occurs p t i \<Longrightarrow> i + length p \<le> length t"
  by (auto simp: occurs_iff)

lemma occurs_append:
  assumes "p \<noteq> []" "j + length p \<le> length xs"
  shows "occurs p (xs @ ys) j \<longleftrightarrow> occurs p xs j"
  using assms by (auto simp: occurs_def starts_with_def)

lemma channel_of_append:
  assumes sep: "separated start end_t" and un: "unsplit start end_t xs ys"
  shows "channel_of start end_t opn (xs @ ys) = channel_of start end_t (channel_of start end_t opn xs) ys"
proof -
  from sep have ne: "start \<noteq> []" "end_t \<noteq> []" by (simp_all add: separated_def)
  have right: "tag_at start end_t (xs @ ys) (length xs + j) b \<longleftrightarrow> tag_at start end_t ys j b" for j b
    using tag_at_drop [of start end_t "length xs" "xs @ ys" j b] by simp
  have left: "tag_at start end_t xs j b" if "tag_at start end_t (xs @ ys) j b" "j < length xs" for j b
    using un that ne occurs_append [of "if b then start else end_t" j xs ys] by (auto simp: unsplit_def tag_at_def)
  have left': "tag_at start end_t (xs @ ys) j b" if "tag_at start end_t xs j b" for j b
  proof -
    from that have "j + length (if b then start else end_t) \<le> length xs"
      using occurs_bound by (auto simp: tag_at_def)
    with that ne occurs_append [of "if b then start else end_t" j xs ys] show ?thesis by (auto simp: tag_at_def)
  qed
  let ?last = "\<lambda>t i b. tag_at start end_t t i b \<and> (\<forall>j b'. tag_at start end_t t j b' \<longrightarrow> j \<le> i)"
  have last: "(\<exists>i b. ?last t i b) \<or> (\<forall>j b. \<not> tag_at start end_t t j b)" for t
  proof (cases "\<exists>j b. tag_at start end_t t j b")
    case True
    let ?P = "\<lambda>j. \<exists>b. tag_at start end_t t j b"
    have bd: "?P j \<Longrightarrow> j \<le> length t" for j using occurs_bound by (fastforce simp: tag_at_def)
    have "?P (GREATEST j. ?P j)" by (rule GreatestI_ex_nat [OF True]) (rule bd)
    moreover have "j \<le> (GREATEST j. ?P j)" if "?P j" for j by (rule Greatest_le_nat [of ?P j, OF that]) (rule bd)
    ultimately show ?thesis by blast
  qed blast
  from last [of ys] show ?thesis
  proof
    assume "\<exists>i b. ?last ys i b"
    then obtain i b where y: "tag_at start end_t ys i b" "\<And>j b'. tag_at start end_t ys j b' \<Longrightarrow> j \<le> i" by blast
    have "j \<le> length xs + i" if "tag_at start end_t (xs @ ys) j b'" for j b'
    proof (cases "j < length xs")
      case False
      then obtain j' where "j = length xs + j'" by (metis le_Suc_ex not_less)
      with that y(2) right show ?thesis by auto
    qed simp
    then have "channel_of start end_t opn (xs @ ys) = b" for opn
      by (intro channel_of_last [OF sep, where i = "length xs + i"]) (use y(1) right in simp_all)
    moreover have "channel_of start end_t opn ys = b" for opn by (rule channel_of_last [OF sep y])
    ultimately show ?thesis by simp
  next
    assume none: "\<forall>j b. \<not> tag_at start end_t ys j b"
    have in_xs: "j < length xs" if "tag_at start end_t (xs @ ys) j b" for j b
    proof (rule ccontr)
      assume "\<not> j < length xs"
      then obtain j' where "j = length xs + j'" by (metis le_Suc_ex not_less)
      with that right none show False by auto
    qed
    have r: "channel_of start end_t o1 ys = o1" for o1 by (rule channel_of_none [OF ne]) (use none in blast)
    from last [of xs] show ?thesis
    proof
      assume "\<exists>i b. ?last xs i b"
      then obtain i b where x: "tag_at start end_t xs i b" "\<And>j b'. tag_at start end_t xs j b' \<Longrightarrow> j \<le> i" by blast
      have "j \<le> i" if "tag_at start end_t (xs @ ys) j b'" for j b'
        using x(2) left [OF that in_xs [OF that]] .
      then have "channel_of start end_t opn (xs @ ys) = b" for opn by (rule channel_of_last [OF sep left' [OF x(1)]])
      moreover have "channel_of start end_t opn xs = b" for opn by (rule channel_of_last [OF sep x])
      ultimately show ?thesis by (simp add: r)
    next
      assume "\<forall>j b. \<not> tag_at start end_t xs j b"
      then have no: "\<not> tag_at start end_t (xs @ ys) j b" "\<not> tag_at start end_t xs j b" for j b
        using left in_xs by blast+
      have "channel_of start end_t opn (xs @ ys) = opn" "channel_of start end_t opn xs = opn"
        by (rule channel_of_none [OF ne], rule no)+
      with r show ?thesis by simp
    qed
  qed
qed

lemma ts_step_channel:
  assumes sep: "separated (ts_start s) (ts_end s)" and st: "ts_step p s = Some (s', out, th)"
  shows "ts_open s' = channel_of (ts_start s) (ts_end s) (ts_open s) p" "th = ts_open s'"
    "ts_start s' = ts_start s" "ts_end s' = ts_end s"
proof -
  from sep have ne: "ts_start s \<noteq> []" "ts_end s \<noteq> []" by (simp_all add: separated_def)
  obtain opn out' where e: "ts_step p s = Some (account_thinking_piece (s\<lparr>ts_open := opn\<rparr>), out', opn)"
    by (rule ts_step_Some [OF ne])
  have "opn = channel_of (ts_start s) (ts_end s) (ts_open s) p"
  proof (cases "find_bytes (ts_start s) p = None \<and> find_bytes (ts_end s) p = None")
    case True
    then have "channel_of (ts_start s) (ts_end s) (ts_open s) p = ts_open s"
      by (intro channel_of_none [OF ne]) (simp add: tag_at_def find_bytes_no_occurs ne)
    with True e show ?thesis by (auto simp: ts_step_def Let_def)
  next
    case False
    with e obtain opn' where "ts_scan (ts_start s) (ts_end s) (ts_open s) [] p = Some (opn', out')" "opn = opn'"
      unfolding ts_step_def if_not_P [OF False] by (auto simp: Let_def split: option.splits)
    with ts_scan_channel [OF sep this(1)] show ?thesis by simp
  qed
  with st e show "ts_open s' = channel_of (ts_start s) (ts_end s) (ts_open s) p" "th = ts_open s'"
    "ts_start s' = ts_start s" "ts_end s' = ts_end s" by auto
qed

lemma take_force_close_open [simp]: "ts_open (fst (take_force_close s)) = ts_open s"
  by (auto simp: take_force_close_def)

lemma ts_run_channel:
  assumes "separated (ts_start s) (ts_end s)" "ts_open s = channel_of (ts_start s) (ts_end s) False t"
    and "ts_run ps s = Some (s', rs)" "i < length ps"
    and "\<And>k. k < length ps \<Longrightarrow> unsplit (ts_start s) (ts_end s) (t @ concat (take k ps)) (ps ! k)"
  shows "fst (snd (rs ! i)) = channel_of (ts_start s) (ts_end s) False (t @ concat (take (Suc i) ps))"
  using assms
proof (induction ps arbitrary: s t rs i)
  case (Cons p ps)
  from Cons.prems(3) obtain s1 out th s2 forced rs' where
    st: "ts_step p s = Some (s1, out, th)" and tk: "take_force_close s1 = (s2, forced)" and
    rn: "ts_run ps s2 = Some (s', rs')" and rs: "rs = (out, th, forced) # rs'"
    by (auto split: option.splits prod.splits)
  note one = ts_step_channel [OF Cons.prems(1) st]
  have s2: "ts_start s2 = ts_start s" "ts_end s2 = ts_end s" "ts_open s2 = ts_open s1"
    using tk one take_force_close_tags [of s1] take_force_close_open [of s1] by simp_all
  from Cons.prems(5) [of 0] have "unsplit (ts_start s) (ts_end s) t p" by simp
  from channel_of_append [OF Cons.prems(1) this] one(1) Cons.prems(2)
  have o1: "ts_open s1 = channel_of (ts_start s) (ts_end s) False (t @ p)" by simp
  show ?case
  proof (cases i)
    case 0
    then show ?thesis using one(2) o1 by (simp add: rs)
  next
    case (Suc j)
    have "unsplit (ts_start s) (ts_end s) ((t @ p) @ concat (take k ps)) (ps ! k)" if "k < length ps" for k
      using Cons.prems(5) [of "Suc k"] that by simp
    from Cons.IH [of s2 "t @ p" rs' j, unfolded s2] Cons.prems(1,4) o1 rn this Suc
    show ?thesis by (simp add: rs)
  qed
qed simp

text \<open>C26: The prompt test and the splitter agree over a whole reply. Start a splitter on the
  channel on which \<^verbatim>\<open>prompt_leaves_think_open\<close> puts the prompt, and feed it the pieces of the
  reply. Each piece is marked as reasoning exactly when \<^verbatim>\<open>prompt_leaves_think_open\<close> says that
  the prompt and the pieces up to and with it leave the block open. This is for tags that share
  their first byte, repeat it nowhere and do not continue one another, as the default pair
  does, and for pieces that split no tag: the splitter searches each piece alone.
\<close>

theorem think_channel_agrees:
  assumes "separated (ts_start s) (ts_end s)"
    and "ts_open s = prompt_leaves_think_open prompt (ts_start s) (ts_end s)"
    and "ts_run ps s = Some (s', rs)" "i < length ps"
    and "\<And>k. k < length ps \<Longrightarrow> unsplit (ts_start s) (ts_end s) (prompt @ concat (take k ps)) (ps ! k)"
  shows "fst (snd (rs ! i)) =
    prompt_leaves_think_open (prompt @ concat (take (Suc i) ps)) (ts_start s) (ts_end s)"
proof -
  from assms(1) have ne: "ts_start s \<noteq> []" "ts_end s \<noteq> []" by (simp_all add: separated_def)
  have pl: "prompt_leaves_think_open t (ts_start s) (ts_end s) = channel_of (ts_start s) (ts_end s) False t" for t
    using ne by (auto simp: prompt_leaves_think_open_def channel_of_def split: option.splits)
  show ?thesis unfolding pl using ts_run_channel [OF assms(1) assms(2) [unfolded pl] assms(3-5)] .
qed

text \<open>The thinking budget asks once, and at the right piece. Over a stream of fewer than
  \<^verbatim>\<open>2^32\<close> pieces the forced close is asked exactly at the thinking piece whose number is one
  past the budget.
\<close>

theorem thinking_budget_asks_once:
  assumes "length ps < 2 ^ 32" "ts_run ps (ts_new_for_request op (Some b) st en) = Some (s, rs)"
    and "i < length rs"
  shows "snd (snd (rs ! i)) \<longleftrightarrow> fst (snd (rs ! i)) \<and> thinking_count (take (Suc i) rs) = unat b + 1"
  using budget_run [OF budget_inv_new _ assms(2,3)] assms(1) by simp

section \<open>Samples\<close>

definition open_text :: "u8 list" where "open_text = [0x61] @ THINK_START @ [0x62]"

definition reply_pieces :: "u8 list list" where
  "reply_pieces = [[0x61] @ THINK_END @ [0x62], [0x63], THINK_START @ [0x64]]"

theorem think_channel_agrees_witness:
  "\<exists>s' rs. ts_run reply_pieces (ts_new\<lparr>ts_open := True\<rparr>) = Some (s', rs) \<and>
     map (\<lambda>r. fst (snd r)) rs = [False, False, True] \<and>
     prompt_leaves_think_open (open_text @ concat reply_pieces) THINK_START THINK_END"
proof -
  let ?s = "ts_new\<lparr>ts_open := True\<rparr>"
  have tags: "ts_start ?s = THINK_START" "ts_end ?s = THINK_END" "ts_open ?s" by (simp_all add: ts_new_def)
  obtain s' rs where r: "ts_run reply_pieces ?s = Some (s', rs)"
    using ts_run_total [of ?s reply_pieces] tags by (auto simp: THINK_START_def THINK_END_def)
  have op: "ts_open ?s = prompt_leaves_think_open open_text THINK_START THINK_END" unfolding tags by code_simp
  have ne: "THINK_START \<noteq> []" "THINK_END \<noteq> []" by (simp_all add: THINK_START_def THINK_END_def)
  have "unsplit THINK_START THINK_END (open_text @ concat (take 0 reply_pieces)) (reply_pieces ! 0)"
    "unsplit THINK_START THINK_END (open_text @ concat (take 1 reply_pieces)) (reply_pieces ! 1)"
    "unsplit THINK_START THINK_END (open_text @ concat (take 2 reply_pieces)) (reply_pieces ! 2)"
    unfolding unsplit_list [OF ne] by code_simp+
  then have un: "unsplit THINK_START THINK_END (open_text @ concat (take k reply_pieces)) (reply_pieces ! k)"
    if "k < length reply_pieces" for k
    using that by (auto simp: reply_pieces_def less_Suc_eq numeral_3_eq_3)
  have th: "fst (snd (rs ! i)) = prompt_leaves_think_open (open_text @ concat (take (Suc i) reply_pieces)) THINK_START THINK_END"
    if "i < 3" for i
    using think_channel_agrees [of ?s open_text reply_pieces s' rs i, unfolded tags(1,2)] separated_default op r un that
    by (simp add: reply_pieces_def)
  have "map_option (map (\<lambda>r. fst (snd r)) \<circ> snd) (ts_run reply_pieces ?s) = Some [False, False, True]" by code_simp
  then have m: "map (\<lambda>r. fst (snd r)) rs = [False, False, True]" by (simp add: r)
  then have "fst (snd (rs ! 2))" by (cases rs; cases "tl rs"; cases "tl (tl rs)") auto
  with th [of 2] m r show ?thesis by (simp add: reply_pieces_def)
qed

theorem thinking_budget_asks_once_witness:
  "snd (snd ([([0x61], True, False), ([0x62::u8], True, True)] ! 1)) \<longleftrightarrow>
     thinking_count [([0x61], True, False), ([0x62], True, True)] = 2"
proof -
  have "ts_run [[0x61], [0x62]] (ts_new_for_request True (Some 1) None None) =
      Some ((ts_new_for_request True (Some 1) None None)\<lparr>ts_count := 2, ts_budget_exceeded := True\<rparr>,
        [([0x61], True, False), ([0x62], True, True)])" by code_simp
  from thinking_budget_asks_once [OF _ this, of 1] show ?thesis by simp
qed

end
