(* ===== verification/DecodeLoop.thy ===== *)
theory DecodeLoop
  imports KvSpelling
begin

text \<open>
  The decode loop of \<^verbatim>\<open>rmlx-models/src/decode_loop.rs\<close>: showing a token to the step
  callback, replaying a cached first token, choosing a token under the constraint's mask, and
  the pipelined loop itself, in which a step runs the forward of one token before the
  token is shown. The model's forward, the sampler and the callback are parameters, and so
  is the constraint engine, as the record of its operations. A failing read-back of the
  device is a failing forward. The timings and the largest logit of a step are left out.

  The reference \<open>seq_decode\<close> shows a token, stops or takes a forced one, and only then
  runs the next forward. The theorems say that the pipeline shows the same tokens.
\<close>

section \<open>Steps and verdicts\<close>

record 'lp probe_step =
  ps_token_id :: u32
  ps_piece :: string
  ps_nan_count :: nat
  ps_logprobs :: "'lp option"

datatype step_verdict = Continue | Force u32 | End

record emitted =
  em_ends :: bool
  em_force :: "u32 option"

definition verdict_of :: "u32 list \<Rightarrow> u32 \<Rightarrow> step_verdict \<Rightarrow> emitted" where
  "verdict_of eos_ids token_id v =
     \<lparr>em_ends = (token_id \<in> set eos_ids \<or> v = End),
      em_force = (case v of Force t \<Rightarrow> Some t | _ \<Rightarrow> None)\<rparr>"

definition emit_token ::
  "('s \<Rightarrow> 'lp probe_step \<Rightarrow> 's \<times> step_verdict) \<Rightarrow> 's \<Rightarrow> 'lp probe_step list \<Rightarrow> u32 list \<Rightarrow> 'lp probe_step \<Rightarrow>
   's \<times> 'lp probe_step list \<times> emitted" where
  "emit_token step_fn s steps eos_ids step =
     (case step_fn s step of (s', v) \<Rightarrow> (s', steps @ [step], verdict_of eos_ids (ps_token_id step) v))"

record 'c constraint_ops =
  co_wants_mask :: "'c \<Rightarrow> bool"
  co_step_mask :: "nat \<Rightarrow> 'c \<Rightarrow> 'c \<times> bool list"
  co_advance :: "u32 \<Rightarrow> 'c \<Rightarrow> 'c"

text \<open>What a request's prefill did, as its one event reports it.\<close>

record prefill_report =
  pr_prompt_tokens :: nat
  pr_reused_tokens :: nat
  pr_forwarded_tokens :: nat
  pr_prefill_ns :: nat
  pr_draft_prefill_ns :: nat

definition pr_reusing :: "nat \<Rightarrow> nat \<Rightarrow> nat \<Rightarrow> prefill_report" where
  "pr_reusing prompt reused ns =
     \<lparr>pr_prompt_tokens = prompt, pr_reused_tokens = reused, pr_forwarded_tokens = prompt - reused,
      pr_prefill_ns = ns, pr_draft_prefill_ns = 0\<rparr>"

definition pr_cold :: "nat \<Rightarrow> nat \<Rightarrow> prefill_report" where "pr_cold prompt ns = pr_reusing prompt 0 ns"
definition pr_exact :: "nat \<Rightarrow> prefill_report" where "pr_exact prompt = pr_reusing prompt prompt 0"
definition pr_carried :: "nat \<Rightarrow> nat \<Rightarrow> prefill_report" where
  "pr_carried prompt ns = (pr_cold prompt ns)\<lparr>pr_forwarded_tokens := prompt - 1\<rparr>"
definition pr_with_draft :: "nat \<Rightarrow> prefill_report \<Rightarrow> prefill_report" where
  "pr_with_draft ns r = r\<lparr>pr_draft_prefill_ns := ns\<rparr>"

text \<open>The guard on a prefill's logits: a dtype the NaN scan cannot read is refused as well.\<close>

datatype dtype = F32 | Bf16 | F16 | U8 | U32 | I32

datatype nan_verdict = LogitsUnreadable | LogitsNaN nat

definition reject_nan_prefill :: "dtype \<Rightarrow> nat \<Rightarrow> nan_verdict + unit" where
  "reject_nan_prefill dt nan_count =
     (if dt \<noteq> F32 \<and> dt \<noteq> Bf16 then Inl LogitsUnreadable
      else if nan_count = 0 then Inr () else Inl (LogitsNaN nan_count))"

text \<open>The logprobs an exact hit replays, cut to the width the request asks for.\<close>

record 'a token_logprobs =
  lp_chosen :: 'a
  lp_top :: "'a list"

definition PROMPT_CACHE_LOGPROBS_K :: nat where "PROMPT_CACHE_LOGPROBS_K = 20"

definition replay_first_logprobs :: "'a token_logprobs option \<Rightarrow> nat \<Rightarrow> 'a token_logprobs option" where
  "replay_first_logprobs stored k =
     (case stored of None \<Rightarrow> None
      | Some lp \<Rightarrow> if 0 < k then Some (lp\<lparr>lp_top := take k (lp_top lp)\<rparr>) else None)"

section \<open>The loop's state\<close>

text \<open>What a request fixes, and the pieces it calls.\<close>

record ('s, 'c, 'r, 'lg, 'lp, 'e) decode_ctx =
  dx_vocab :: nat
  dx_n_tokens :: nat
  dx_eos_ids :: "u32 list"
  dx_step_fn :: "'s \<Rightarrow> 'lp probe_step \<Rightarrow> 's \<times> step_verdict"
  dx_constraint_ops :: "'c constraint_ops"
  dx_sampling_active :: bool
  dx_penalties_active :: bool
  dx_top_logprobs_k :: nat
  dx_select_token :: "bool list option \<Rightarrow> u32 list \<Rightarrow> 'lg \<Rightarrow> 'r \<Rightarrow> 'e + (u32 \<times> 'r)"
  dx_capture :: "'lg \<Rightarrow> u32 \<Rightarrow> nat \<Rightarrow> 'lp option"
  dx_id_to_token :: "u32 \<Rightarrow> string option"
  dx_resolve_pieces :: bool

text \<open>What changes: the callback's state, the constraint, the sampler's stream, the emitted steps.\<close>

record ('s, 'c, 'r, 'lp) shown =
  sh_cb :: 's
  sh_constraint :: "'c option"
  sh_rng :: 'r
  sh_history :: "u32 list"
  sh_steps :: "'lp probe_step list"

datatype 'e run_error = Cancelled | Failed 'e | UnwrapNone

definition emit_replayed_token ::
  "'c constraint_ops \<Rightarrow> ('s \<Rightarrow> 'lp probe_step \<Rightarrow> 's \<times> step_verdict) \<Rightarrow> u32 list \<Rightarrow> 'lp probe_step \<Rightarrow>
   ('s, 'c, 'r, 'lp) shown \<Rightarrow> ('s, 'c, 'r, 'lp) shown \<times> bool" where
  "emit_replayed_token C step_fn eos_ids step w =
     (let w = w\<lparr>sh_constraint := map_option (co_advance C (ps_token_id step)) (sh_constraint w)\<rparr> in
      case emit_token step_fn (sh_cb w) (sh_steps w) eos_ids step of
        (cb, steps, em) \<Rightarrow>
          (w\<lparr>sh_cb := cb, sh_steps := steps, sh_history := sh_history w @ [ps_token_id step]\<rparr>, em_ends em))"

definition unk_piece :: "u32 \<Rightarrow> string" where "unk_piece t = ''<unk:'' @ show_nat (unat t) @ ''>''"

definition resolve_piece :: "('s, 'c, 'r, 'lg, 'lp, 'e) decode_ctx \<Rightarrow> u32 \<Rightarrow> string" where
  "resolve_piece X t =
     (if dx_resolve_pieces X then (case dx_id_to_token X t of Some p \<Rightarrow> p | None \<Rightarrow> unk_piece t) else '''')"

definition RECENT :: nat where "RECENT = 20"

definition choose_token ::
  "('s, 'c, 'r, 'lg, 'lp, 'e) decode_ctx \<Rightarrow> 'lg \<Rightarrow> bool \<Rightarrow> ('s, 'c, 'r, 'lp) shown \<Rightarrow>
   'e run_error + (u32 \<times> ('s, 'c, 'r, 'lp) shown)" where
  "choose_token X logits mask_active w =
     (let recent = drop (length (sh_history w) - RECENT) (sh_history w);
          sel = (\<lambda>msk w. case dx_select_token X msk recent logits (sh_rng w) of
                   Inl e \<Rightarrow> Inl (Failed e) | Inr (t, r) \<Rightarrow> Inr (t, w\<lparr>sh_rng := r\<rparr>))
      in if mask_active then
           (case sh_constraint w of
              None \<Rightarrow> Inl UnwrapNone
            | Some c \<Rightarrow> (case co_step_mask (dx_constraint_ops X) (dx_vocab X) c of
                         (c, msk) \<Rightarrow> sel (Some msk) (w\<lparr>sh_constraint := Some c\<rparr>)))
         else sel None w)"

definition mask_active :: "('s, 'c, 'r, 'lg, 'lp, 'e) decode_ctx \<Rightarrow> ('s, 'c, 'r, 'lp) shown \<Rightarrow> bool" where
  "mask_active X w =
     (case sh_constraint w of None \<Rightarrow> False | Some c \<Rightarrow> co_wants_mask (dx_constraint_ops X) c)"

definition drain_now :: "('s, 'c, 'r, 'lg, 'lp, 'e) decode_ctx \<Rightarrow> ('s, 'c, 'r, 'lp) shown \<Rightarrow> bool" where
  "drain_now X w \<longleftrightarrow>
     mask_active X w \<or> dx_sampling_active X \<or> dx_penalties_active X \<or> 0 < dx_top_logprobs_k X"

text \<open>Showing the pending token: the constraint first, then the history, then the callback.\<close>

definition drain ::
  "('s, 'c, 'r, 'lg, 'lp, 'e) decode_ctx \<Rightarrow> u32 \<Rightarrow> 'lp option \<Rightarrow> ('s, 'c, 'r, 'lp) shown \<Rightarrow>
   ('s, 'c, 'r, 'lp) shown \<times> emitted" where
  "drain X t lp w =
     (let w = w\<lparr>sh_constraint := map_option (co_advance (dx_constraint_ops X) t) (sh_constraint w),
                sh_history := sh_history w @ [t]\<rparr>;
          step = \<lparr>ps_token_id = t, ps_piece = resolve_piece X t, ps_nan_count = 0, ps_logprobs = lp\<rparr>
      in case emit_token (dx_step_fn X) (sh_cb w) (sh_steps w) (dx_eos_ids X) step of
           (cb, steps, em) \<Rightarrow> (w\<lparr>sh_cb := cb, sh_steps := steps\<rparr>, em))"

section \<open>The pipelined loop\<close>

record ('s, 'c, 'r, 'lp, 'm) pipe =
  pp_model :: 'm
  pp_y :: u32
  pp_pending :: "u32 option"
  pp_pending_lp :: "'lp option"
  pp_decode_steps :: nat
  pp_shown :: "('s, 'c, 'r, 'lp) shown"

text \<open>
  One step. \<open>Inr (p, True)\<close> is the break of an end, \<open>Inr (p, False)\<close> goes on. The forced token of
  the shown token replaces the successor the pipeline has already chosen.
\<close>

definition pipe_step ::
  "('s, 'c, 'r, 'lg, 'lp, 'e) decode_ctx \<Rightarrow> (u32 \<Rightarrow> 'm \<Rightarrow> 'e + ('lg \<times> 'm)) \<Rightarrow> (nat \<Rightarrow> bool) \<Rightarrow> nat \<Rightarrow>
   ('s, 'c, 'r, 'lp, 'm) pipe \<Rightarrow> 'e run_error + (('s, 'c, 'r, 'lp, 'm) pipe \<times> bool)" where
  "pipe_step X fwd cancel i p =
     (if cancel i then Inl Cancelled
      else (case fwd (pp_y p) (pp_model p) of
          Inl e \<Rightarrow> Inl (Failed e)
        | Inr (logits, m) \<Rightarrow>
            let masked = mask_active X (pp_shown p);
                now = drain_now X (pp_shown p);
                shw = (\<lambda>lp w. case pp_pending p of
                         None \<Rightarrow> (w, \<lparr>em_ends = False, em_force = None\<rparr>) | Some t \<Rightarrow> drain X t lp w);
                (w1, em1) = (if now then shw (pp_pending_lp p) (pp_shown p)
                             else (pp_shown p, \<lparr>em_ends = False, em_force = None\<rparr>))
            in if em_ends em1 then Inr (p\<lparr>pp_model := m, pp_pending := None, pp_shown := w1\<rparr>, True)
               else (case choose_token X logits masked w1 of
                   Inl e \<Rightarrow> Inl e
                 | Inr (next_y, w2) \<Rightarrow>
                     let lp = (if 0 < dx_top_logprobs_k X
                               then dx_capture X logits next_y (dx_top_logprobs_k X) else None);
                         (w3, em2) = (if now then (w2, em1) else shw None w2);
                         p = p\<lparr>pp_model := m, pp_shown := w3, pp_decode_steps := pp_decode_steps p + 1\<rparr>
                     in if em_ends em2 then Inr (p\<lparr>pp_pending := None\<rparr>, True)
                        else (case em_force em2 of
                            Some f \<Rightarrow> Inr (p\<lparr>pp_y := f, pp_pending := Some f, pp_pending_lp := None\<rparr>, False)
                          | None \<Rightarrow> Inr (p\<lparr>pp_y := next_y, pp_pending := Some next_y, pp_pending_lp := lp\<rparr>, False)))))"

fun pipe_loop ::
  "('s, 'c, 'r, 'lg, 'lp, 'e) decode_ctx \<Rightarrow> (u32 \<Rightarrow> 'm \<Rightarrow> 'e + ('lg \<times> 'm)) \<Rightarrow> (nat \<Rightarrow> bool) \<Rightarrow> nat \<Rightarrow> nat \<Rightarrow>
   ('s, 'c, 'r, 'lp, 'm) pipe \<Rightarrow> 'e run_error + (('s, 'c, 'r, 'lp, 'm) pipe \<times> bool)" where
  "pipe_loop X fwd cancel i 0 p = Inr (p, False)"
| "pipe_loop X fwd cancel i (Suc n) p =
     (case pipe_step X fwd cancel i p of
        Inl e \<Rightarrow> Inl e
      | Inr (p, True) \<Rightarrow> Inr (p, True)
      | Inr (p, False) \<Rightarrow> pipe_loop X fwd cancel (Suc i) n p)"

definition pipe_start :: "u32 \<Rightarrow> 'm \<Rightarrow> ('s, 'c, 'r, 'lp) shown \<Rightarrow> ('s, 'c, 'r, 'lp, 'm) pipe" where
  "pipe_start first_id m w =
     \<lparr>pp_model = m, pp_y = first_id, pp_pending = None, pp_pending_lp = None, pp_decode_steps = 0, pp_shown = w\<rparr>"

definition pipelined_decode ::
  "('s, 'c, 'r, 'lg, 'lp, 'e) decode_ctx \<Rightarrow> (u32 \<Rightarrow> 'm \<Rightarrow> 'e + ('lg \<times> 'm)) \<Rightarrow> (nat \<Rightarrow> bool) \<Rightarrow> u32 \<Rightarrow> 'm \<Rightarrow>
   ('s, 'c, 'r, 'lp) shown \<Rightarrow> 'e run_error + (('s, 'c, 'r, 'lp) shown \<times> 'm \<times> nat)" where
  "pipelined_decode X fwd cancel first_id m w =
     (case pipe_loop X fwd cancel 1 (dx_n_tokens X - 1) (pipe_start first_id m w) of
        Inl e \<Rightarrow> Inl e
      | Inr (p, early_stop) \<Rightarrow>
          (let w = (if early_stop then pp_shown p
                    else (case pp_pending p of
                        None \<Rightarrow> pp_shown p
                      | Some t \<Rightarrow> fst (drain X t (pp_pending_lp p) (pp_shown p))))
           in Inr (w, pp_model p, pp_decode_steps p)))"

section \<open>The sequential reference\<close>

definition seq_next ::
  "('s, 'c, 'r, 'lg, 'lp, 'e) decode_ctx \<Rightarrow> (u32 \<Rightarrow> 'm \<Rightarrow> 'e + ('lg \<times> 'm)) \<Rightarrow> u32 \<Rightarrow> 'm \<Rightarrow> ('s, 'c, 'r, 'lp) shown \<Rightarrow>
   'e run_error + (u32 \<times> 'lp option \<times> 'm \<times> ('s, 'c, 'r, 'lp) shown)" where
  "seq_next X fwd y m w =
     (case fwd y m of
        Inl e \<Rightarrow> Inl (Failed e)
      | Inr (logits, m) \<Rightarrow>
          (case choose_token X logits (mask_active X w) w of
             Inl e \<Rightarrow> Inl e
           | Inr (t, w) \<Rightarrow>
               Inr (t, if 0 < dx_top_logprobs_k X then dx_capture X logits t (dx_top_logprobs_k X) else None, m, w)))"

fun seq_loop ::
  "('s, 'c, 'r, 'lg, 'lp, 'e) decode_ctx \<Rightarrow> (u32 \<Rightarrow> 'm \<Rightarrow> 'e + ('lg \<times> 'm)) \<Rightarrow> nat \<Rightarrow> u32 \<Rightarrow> 'lp option \<Rightarrow> 'm \<Rightarrow>
   ('s, 'c, 'r, 'lp) shown \<Rightarrow> 'e run_error + ('s, 'c, 'r, 'lp) shown" where
  "seq_loop X fwd 0 t lp m w = Inr (fst (drain X t lp w))"
| "seq_loop X fwd (Suc n) t lp m w =
     (case drain X t lp w of
        (w, em) \<Rightarrow>
          if em_ends em then Inr w
          else (case seq_next X fwd t m w of
              Inl e \<Rightarrow> Inl e
            | Inr (t', lp', m, w) \<Rightarrow>
                (case em_force em of
                   Some f \<Rightarrow> seq_loop X fwd n f None m w
                 | None \<Rightarrow> seq_loop X fwd n t' lp' m w)))"

definition seq_decode ::
  "('s, 'c, 'r, 'lg, 'lp, 'e) decode_ctx \<Rightarrow> (u32 \<Rightarrow> 'm \<Rightarrow> 'e + ('lg \<times> 'm)) \<Rightarrow> u32 \<Rightarrow> 'm \<Rightarrow> ('s, 'c, 'r, 'lp) shown \<Rightarrow>
   'e run_error + ('s, 'c, 'r, 'lp) shown" where
  "seq_decode X fwd first_id m w =
     (case dx_n_tokens X - 1 of
        0 \<Rightarrow> Inr w
      | Suc n \<Rightarrow>
          (case seq_next X fwd first_id m w of
             Inl e \<Rightarrow> Inl e | Inr (t, lp, m, w) \<Rightarrow> seq_loop X fwd n t lp m w))"

text \<open>
  What the loop relies on. An engine wants its mask always or never, and the sampler without
  a mask, a temperature and penalties is a function of the logits that leaves its stream alone.
\<close>

definition steady_mask :: "'c constraint_ops \<Rightarrow> bool" where
  "steady_mask C \<longleftrightarrow>
     (\<forall>c t n. co_wants_mask C (co_advance C t c) = co_wants_mask C c \<and>
        co_wants_mask C (fst (co_step_mask C n c)) = co_wants_mask C c)"

definition greedy_select :: "('s, 'c, 'r, 'lg, 'lp, 'e) decode_ctx \<Rightarrow> bool" where
  "greedy_select X \<longleftrightarrow>
     (\<not> dx_sampling_active X \<and> \<not> dx_penalties_active X \<longrightarrow>
        (\<exists>g. \<forall>recent lg r. dx_select_token X None recent lg r =
           (case g lg of Inl e \<Rightarrow> Inl e | Inr t \<Rightarrow> Inr (t, r))))"

lemma drain_mask_active:
  "steady_mask (dx_constraint_ops X) \<Longrightarrow> mask_active X (fst (drain X t lp w)) = mask_active X w"
  by (auto simp: drain_def emit_token_def mask_active_def steady_mask_def Let_def split: prod.splits option.splits)

lemma choose_greedy:
  assumes "greedy_select X" "\<not> dx_sampling_active X" "\<not> dx_penalties_active X"
  obtains g where "\<And>lg w. choose_token X lg False w =
    (case g lg of Inl e \<Rightarrow> Inl (Failed e) | Inr t \<Rightarrow> Inr (t, w))"
proof -
  from assms obtain g where g: "\<And>recent lg r. dx_select_token X None recent lg r =
      (case g lg of Inl e \<Rightarrow> Inl e | Inr t \<Rightarrow> Inr (t, r))" by (auto simp: greedy_select_def)
  have "w\<lparr>sh_rng := sh_rng w\<rparr> = w" for w :: "('s, 'c, 'r, 'lp) shown" by simp
  then have "choose_token X lg False w = (case g lg of Inl e \<Rightarrow> Inl (Failed e) | Inr t \<Rightarrow> Inr (t, w))" for lg w
    by (simp add: choose_token_def Let_def g split: sum.split)
  with that show ?thesis by blast
qed

definition fin :: "('s, 'c, 'r, 'lg, 'lp, 'e) decode_ctx \<Rightarrow> ('s, 'c, 'r, 'lp, 'm) pipe \<times> bool \<Rightarrow> ('s, 'c, 'r, 'lp) shown" where
  "fin X r = (case r of (p, early_stop) \<Rightarrow>
     if early_stop then pp_shown p
     else (case pp_pending p of None \<Rightarrow> pp_shown p | Some t \<Rightarrow> fst (drain X t (pp_pending_lp p) (pp_shown p))))"

text \<open>One step of the pipeline with a pending token is one round of the reference.\<close>

lemma pipe_step_pending:
  assumes steady: "steady_mask (dx_constraint_ops X)" and greedy: "greedy_select X"
    and p: "pp_pending p = Some t" "pp_y p = t" "dx_top_logprobs_k X = 0 \<longrightarrow> pp_pending_lp p = None"
    and step: "pipe_step X fwd cancel i p = Inr (p', br)"
    and d: "drain X t (pp_pending_lp p) (pp_shown p) = (w1, em)"
  shows "if em_ends em then br \<and> pp_shown p' = w1
    else \<not> br \<and> (\<exists>t' lp' m w2. seq_next X fwd t (pp_model p) w1 = Inr (t', lp', m, w2) \<and>
      pp_model p' = m \<and> pp_shown p' = w2 \<and>
      pp_pending p' = Some (case em_force em of Some f \<Rightarrow> f | None \<Rightarrow> t') \<and>
      pp_y p' = (case em_force em of Some f \<Rightarrow> f | None \<Rightarrow> t') \<and>
      pp_pending_lp p' = (case em_force em of Some f \<Rightarrow> None | None \<Rightarrow> lp'))"
proof -
  have mk: "mask_active X w1 = mask_active X (pp_shown p)"
    using drain_mask_active [OF steady, of t "pp_pending_lp p" "pp_shown p"] by (simp add: d)
  from step obtain logits m where f: "\<not> cancel i" "fwd t (pp_model p) = Inr (logits, m)"
    by (auto simp: pipe_step_def p split: if_splits sum.splits)
  show ?thesis
  proof (cases "drain_now X (pp_shown p)")
    case True
    then show ?thesis using step mk
      by (auto simp: pipe_step_def p f d seq_next_def Let_def split: if_splits sum.splits option.splits)
  next
    case False
    then have nm: "\<not> mask_active X (pp_shown p)" "\<not> dx_sampling_active X" "\<not> dx_penalties_active X"
      and k: "dx_top_logprobs_k X = 0" by (simp_all add: drain_now_def)
    obtain g where g: "\<And>lg w. choose_token X lg False w =
        (case g lg of Inl e \<Rightarrow> Inl (Failed e) | Inr t \<Rightarrow> Inr (t, w))"
      using choose_greedy [OF greedy nm(2,3)] by blast
    from p(3) k d have d: "drain X t None (pp_shown p) = (w1, em)" by simp
    show ?thesis using False step mk nm(1)
      by (auto simp: pipe_step_def p f d k g seq_next_def Let_def split: if_splits sum.splits option.splits)
  qed
qed

lemma seq_next_lp: "seq_next X fwd y m w = Inr (t, lp, m', w') \<Longrightarrow> dx_top_logprobs_k X = 0 \<Longrightarrow> lp = None"
  by (auto simp: seq_next_def split: sum.splits prod.splits)

lemma pipe_loop_seq:
  assumes steady: "steady_mask (dx_constraint_ops X)" and greedy: "greedy_select X"
  shows "pp_pending p = Some t \<Longrightarrow> pp_y p = t \<Longrightarrow>
     dx_top_logprobs_k X = 0 \<longrightarrow> pp_pending_lp p = None \<Longrightarrow>
     pipe_loop X fwd cancel i n p = Inr r \<Longrightarrow>
     seq_loop X fwd n t (pp_pending_lp p) (pp_model p) (pp_shown p) = Inr (fin X r)"
proof (induction n arbitrary: i p t)
  case 0
  then show ?case by (auto simp: fin_def)
next
  case (Suc n)
  obtain w1 em where d: "drain X t (pp_pending_lp p) (pp_shown p) = (w1, em)" by fastforce
  from Suc.prems(4) obtain p' br where st: "pipe_step X fwd cancel i p = Inr (p', br)"
    by (auto split: sum.splits)
  note s = pipe_step_pending [OF steady greedy Suc.prems(1-3) st d]
  show ?case
  proof (cases "em_ends em")
    case True
    with s Suc.prems(4) show ?thesis by (auto simp: d st fin_def)
  next
    case False
    with s obtain t' lp' m w2 where nx: "\<not> br" "seq_next X fwd t (pp_model p) w1 = Inr (t', lp', m, w2)"
      "pp_model p' = m" "pp_shown p' = w2"
      "pp_pending p' = Some (case em_force em of Some f \<Rightarrow> f | None \<Rightarrow> t')"
      "pp_y p' = (case em_force em of Some f \<Rightarrow> f | None \<Rightarrow> t')"
      "pp_pending_lp p' = (case em_force em of Some f \<Rightarrow> None | None \<Rightarrow> lp')" by auto
    from Suc.prems(4) nx(1) have lp: "pipe_loop X fwd cancel (Suc i) n p' = Inr r" by (simp add: st)
    have "dx_top_logprobs_k X = 0 \<longrightarrow> pp_pending_lp p' = None"
      using seq_next_lp [OF nx(2)] nx(7) by (simp split: option.split)
    from Suc.IH [OF nx(5,6) this lp] False nx show ?thesis
      by (cases "em_force em") (simp_all add: d)
  qed
qed

lemma seq_of_pipeline:
  assumes "steady_mask (dx_constraint_ops X)" "greedy_select X"
    and "pipelined_decode X fwd cancel first_id m w = Inr (w', m', k)"
  shows "seq_decode X fwd first_id m w = Inr w'"
proof -
  from assms(3) obtain p early where lp: "pipe_loop X fwd cancel 1 (dx_n_tokens X - 1) (pipe_start first_id m w) = Inr (p, early)"
    and w': "w' = fin X (p, early)"
    by (auto simp: pipelined_decode_def fin_def Let_def split: sum.splits prod.splits)
  show ?thesis
  proof (cases "dx_n_tokens X - 1")
    case 0
    with lp w' show ?thesis by (auto simp: seq_decode_def fin_def pipe_start_def)
  next
    case (Suc n)
    obtain p1 where st: "pipe_step X fwd cancel 1 (pipe_start first_id m w) = Inr (p1, False)"
      and rest: "pipe_loop X fwd cancel (Suc 1) n p1 = Inr (p, early)"
      using lp Suc by (auto simp: pipe_step_def pipe_start_def Let_def split: sum.splits prod.splits if_splits option.splits)
    from st obtain t lp m1 w1 where nx: "seq_next X fwd first_id m w = Inr (t, lp, m1, w1)"
      and p1: "pp_pending p1 = Some t" "pp_y p1 = t" "pp_pending_lp p1 = lp" "pp_model p1 = m1" "pp_shown p1 = w1"
      by (auto simp: pipe_step_def pipe_start_def seq_next_def Let_def split: sum.splits prod.splits if_splits option.splits)
    have "seq_loop X fwd n t lp m1 w1 = Inr w'"
      using pipe_loop_seq [OF assms(1,2) p1(1,2) _ rest] seq_next_lp [OF nx] p1(3-5) w' by simp
    then show ?thesis unfolding seq_decode_def Suc by (simp add: nx)
  qed
qed

section \<open>Properties\<close>

text \<open>C9: The pipeline shows the tokens of the sequential loop. When the pipelined loop
  returns, the callback, the constraint, the history and the emitted steps are those of the
  loop that shows each token before it runs the next forward, forced tokens included: the
  successor the pipeline had already chosen is dropped without a trace.
\<close>

theorem pipeline_shows_sequential:
  assumes "steady_mask (dx_constraint_ops X)" "greedy_select X"
    and "pipelined_decode X fwd cancel first_id m w = Inr (w', m', k)"
  shows "seq_decode X fwd first_id m w = Inr w'"
  by (rule seq_of_pipeline [OF assms])

lemma drain_steps [simp]: "length (sh_steps (fst (drain X t lp w))) = Suc (length (sh_steps w))"
  by (simp add: drain_def emit_token_def Let_def split: prod.split)

lemma choose_steps: "choose_token X lg b w = Inr (t, w') \<Longrightarrow> sh_steps w' = sh_steps w"
  by (auto simp: choose_token_def Let_def split: if_splits option.splits prod.splits sum.splits)

lemma seq_next_steps: "seq_next X fwd t m w = Inr (t', lp', m', w') \<Longrightarrow> sh_steps w' = sh_steps w"
  by (auto simp: seq_next_def dest!: choose_steps split: sum.splits)

lemma seq_loop_steps:
  "seq_loop X fwd n t lp m w = Inr w' \<Longrightarrow> length (sh_steps w') \<le> length (sh_steps w) + Suc n"
proof (induction n arbitrary: t lp m w)
  case 0
  then show ?case using drain_steps [of X t lp w] by auto
next
  case (Suc n)
  obtain w1 em where d: "drain X t lp w = (w1, em)" by fastforce
  from drain_steps [of X t lp w] d have l: "length (sh_steps w1) = Suc (length (sh_steps w))" by simp
  show ?case
  proof (cases "em_ends em")
    case False
    with Suc.prems d obtain t1 lp1 m1 w2 where
      nx: "seq_next X fwd t m w1 = Inr (t1, lp1, m1, w2)" and
      rest: "\<exists>t' lp'. seq_loop X fwd n t' lp' m1 w2 = Inr w'"
      by (auto split: sum.splits prod.splits option.splits)
    from rest Suc.IH seq_next_steps [OF nx] l show ?thesis by fastforce
  qed (use Suc.prems d l in simp)
qed

lemma pipe_step_total:
  assumes "\<And>y m. \<exists>r. fwd y m = Inr r" "\<And>m h l r. \<exists>q. dx_select_token X m h l r = Inr q" "\<not> cancel i"
  shows "\<exists>r. pipe_step X fwd cancel i p = Inr r"
proof -
  from assms(1) obtain lg m where f: "fwd (pp_y p) (pp_model p) = Inr (lg, m)" by fastforce
  have ch: "\<exists>r. choose_token X lg b w = Inr r" if "b \<longrightarrow> sh_constraint w \<noteq> None" for b w
  proof -
    have sel: "\<exists>q. dx_select_token X m h lg r = Inr q" for m h r by (rule assms(2))
    show ?thesis using that
      by (auto simp: choose_token_def Let_def split: option.splits prod.splits sum.splits)
         (metis sel Inr_Inl_False)+
  qed
  have dr: "sh_constraint (fst (drain X t lp w)) = None \<longleftrightarrow> sh_constraint w = None" for t lp w
    by (simp add: drain_def emit_token_def Let_def split: prod.split)
  define shw where "shw = (\<lambda>lp w. case pp_pending p of None \<Rightarrow> (w, \<lparr>em_ends = False, em_force = None\<rparr>)
    | Some t \<Rightarrow> drain X t lp w)"
  have sc: "sh_constraint (fst (shw lp w)) = None \<longleftrightarrow> sh_constraint w = None" for lp w
    using dr by (auto simp: shw_def split: option.split)
  define z where "z = (if drain_now X (pp_shown p) then shw (pp_pending_lp p) (pp_shown p)
    else (pp_shown p, \<lparr>em_ends = False, em_force = None\<rparr>))"
  obtain w1 em where z: "z = (w1, em)" by fastforce
  have "sh_constraint w1 = None \<longleftrightarrow> sh_constraint (pp_shown p) = None"
    using sc [of "pp_pending_lp p" "pp_shown p"] z by (auto simp: z_def split: if_splits)
  with ch [of "mask_active X (pp_shown p)" w1] obtain r where
    r: "choose_token X lg (mask_active X (pp_shown p)) w1 = Inr r"
    by (auto simp: mask_active_def split: option.splits)
  show ?thesis
    using assms(3) r z
    by (auto simp: pipe_step_def f Let_def z_def shw_def split: prod.splits option.splits)
qed

lemma pipe_loop_total:
  assumes "\<And>y m. \<exists>r. fwd y m = Inr r" "\<And>m h l r. \<exists>q. dx_select_token X m h l r = Inr q" "\<And>i. \<not> cancel i"
  shows "\<exists>r. pipe_loop X fwd cancel i n p = Inr r"
proof (induction n arbitrary: i p)
  case (Suc n)
  obtain p' b where "pipe_step X fwd cancel i p = Inr (p', b)"
    using pipe_step_total [OF assms(1,2), where cancel = cancel and i = i and p = p] assms(3) by fastforce
  with Suc show ?case by (cases b) auto
qed (auto intro: exI [of _ False])

text \<open>The pipelined loop returns. When no forward and no selection fails and the request is
  not stopped, it returns, and with it the callback has been shown at most
  \<^verbatim>\<open>n_tokens - 1\<close> tokens, the first token of the request being the caller's.
\<close>

theorem pipeline_returns:
  assumes "\<And>y m. \<exists>r. fwd y m = Inr r" "\<And>m h l r. \<exists>q. dx_select_token X m h l r = Inr q" "\<And>i. \<not> cancel i"
    and "steady_mask (dx_constraint_ops X)" "greedy_select X"
  shows "\<exists>w' m' k. pipelined_decode X fwd cancel first_id m w = Inr (w', m', k) \<and>
    length (sh_steps w') \<le> length (sh_steps w) + (dx_n_tokens X - 1)"
proof -
  obtain p early where "pipe_loop X fwd cancel 1 (dx_n_tokens X - 1) (pipe_start first_id m w) = Inr (p, early)"
    using pipe_loop_total [OF assms(1-3), where p = "pipe_start first_id m w"] by fastforce
  then obtain w' m' k where r: "pipelined_decode X fwd cancel first_id m w = Inr (w', m', k)"
    by (auto simp: pipelined_decode_def Let_def)
  have "seq_decode X fwd first_id m w = Inr w'" by (rule seq_of_pipeline [OF assms(4,5) r])
  then have "length (sh_steps w') \<le> length (sh_steps w) + (dx_n_tokens X - 1)"
    by (auto simp: seq_decode_def dest!: seq_next_steps dest: seq_loop_steps split: nat.splits sum.splits)
  with r show ?thesis by blast
qed

section \<open>Samples\<close>

text \<open>A model that answers each token with its successor, and a callback that forces once.\<close>

definition succ_ctx :: "(nat, unit, unit, u32, unit, unit) decode_ctx" where
  "succ_ctx = \<lparr>dx_vocab = 10, dx_n_tokens = 5, dx_eos_ids = [9],
     dx_step_fn = (\<lambda>n s. (Suc n, if ps_token_id s = 2 then Force 7 else Continue)),
     dx_constraint_ops = \<lparr>co_wants_mask = (\<lambda>_. False), co_step_mask = (\<lambda>_ c. (c, [])), co_advance = (\<lambda>_ c. c)\<rparr>,
     dx_sampling_active = False, dx_penalties_active = False, dx_top_logprobs_k = 0,
     dx_select_token = (\<lambda>_ _ lg r. Inr (lg, r)), dx_capture = (\<lambda>_ _ _. None),
     dx_id_to_token = (\<lambda>_. None), dx_resolve_pieces = False\<rparr>"

definition succ_shown :: "(nat, unit, unit, unit) shown" where
  "succ_shown = \<lparr>sh_cb = 0, sh_constraint = None, sh_rng = (), sh_history = [1], sh_steps = []\<rparr>"

definition succ_fwd :: "u32 \<Rightarrow> unit \<Rightarrow> unit + (u32 \<times> unit)" where "succ_fwd y m = Inr (y + 1, m)"

lemma succ_ctx_ok: "steady_mask (dx_constraint_ops succ_ctx)" "greedy_select succ_ctx"
  by (auto simp: steady_mask_def greedy_select_def succ_ctx_def intro!: exI [of _ Inr])

theorem pipeline_shows_sequential_witness:
  "seq_decode succ_ctx succ_fwd 1 () succ_shown =
     Inr (fst (projr (pipelined_decode succ_ctx succ_fwd (\<lambda>_. False) 1 () succ_shown)))"
proof -
  have "pipelined_decode succ_ctx succ_fwd (\<lambda>_. False) 1 () succ_shown =
      Inr (fst (projr (pipelined_decode succ_ctx succ_fwd (\<lambda>_. False) 1 () succ_shown)), (), 4)" by code_simp
  then show ?thesis by (rule pipeline_shows_sequential [OF succ_ctx_ok])
qed

theorem pipeline_returns_witness:
  "\<exists>w' m' k. pipelined_decode succ_ctx succ_fwd (\<lambda>_. False) 1 () succ_shown = Inr (w', m', k) \<and>
     length (sh_steps w') \<le> 4"
  using pipeline_returns [of succ_fwd succ_ctx "\<lambda>_. False" 1 "()" succ_shown] succ_ctx_ok
  by (simp add: succ_fwd_def succ_ctx_def succ_shown_def)

end
