(* ===== verification/ReasoningBudget.thy ===== *)
theory ReasoningBudget
  imports ThinkSplitter DecodeLoop
begin

text \<open>
  The thinking budget across its three parts: the server's step callback
  (\<^verbatim>\<open>rmlx-server/src/engine/arch_generator.rs\<close>) counts pieces with the splitter and answers
  \<^verbatim>\<open>Force\<close>, the decode loop takes the forced token, and the tail of \<^verbatim>\<open>generate_greedy\<close>
  (\<^verbatim>\<open>rmlx-models/src/qwen3.rs\<close>) shows the first token before the loop. The incremental
  detokenizer, the tokenizer and the reads of the end flag are parameters.
\<close>

section \<open>The step callback\<close>

record 'd server_cb =
  sv_detok :: 'd
  sv_splitter :: "think_splitter option"
  sv_thinking :: "bool option"
  sv_sent :: "(u32 \<times> u8 list \<times> bool) list"

record 'd server_env =
  se_detok :: "'d \<Rightarrow> u32 \<Rightarrow> 'd \<times> u8 list option"
  se_emit_tool_markers :: bool
  se_id_to_token :: "u32 \<Rightarrow> u8 list option"
  se_end_requested :: "nat \<Rightarrow> bool"
  se_thinking_end_token_id :: "u32 option"

definition TOOL_MARKERS :: "u8 list list" where
  "TOOL_MARKERS = map (map (of_nat \<circ> of_char)) [''<|tool_call>'', ''<tool_call|>'', ''<|'' @ [CHR 0x22] @ ''|>'']"

definition is_reconstructible_tool_marker :: "u8 list \<Rightarrow> bool" where
  "is_reconstructible_tool_marker surface \<longleftrightarrow> surface \<in> set TOOL_MARKERS"

definition step_text :: "'d server_env \<Rightarrow> u32 \<Rightarrow> u8 list option \<Rightarrow> u8 list" where
  "step_text V t seg =
     (let text = (case seg of Some b \<Rightarrow> b | None \<Rightarrow> []) in
      if se_emit_tool_markers V \<and> text = [] then
        (case se_id_to_token V t of
           Some surface \<Rightarrow> if is_reconstructible_tool_marker surface then surface else text
         | None \<Rightarrow> text)
      else text)"

text \<open>
  The splitter of a request has no empty tag, so its step returns (\<open>think_splitter_returns\<close>); the
  branch that keeps the piece is not reached.
\<close>

definition split_text :: "u8 list \<Rightarrow> think_splitter option \<Rightarrow> think_splitter option \<times> u8 list \<times> bool" where
  "split_text text sp =
     (case sp of
        None \<Rightarrow> (None, text, False)
      | Some sm \<Rightarrow>
          (case ts_step text sm of Some (sm, visible, th) \<Rightarrow> (Some sm, visible, th) | None \<Rightarrow> (sp, text, ts_open sm)))"

definition server_step ::
  "'d server_env \<Rightarrow> 'd server_cb \<Rightarrow> 'lp probe_step \<Rightarrow> 'd server_cb \<times> step_verdict" where
  "server_step V cb s =
     (let t = ps_token_id s in
      case se_detok V (sv_detok cb) t of
        (d, seg) \<Rightarrow>
          (case split_text (step_text V t seg) (sv_splitter cb) of
             (sp, visible, th) \<Rightarrow>
               let cb = cb\<lparr>sv_detok := d, sv_splitter := sp, sv_thinking := map_option (\<lambda>_. th) (sv_thinking cb),
                           sv_sent := sv_sent cb @ [(t, visible, th)]\<rparr>
               in if se_end_requested V (length (sv_sent cb)) then (cb, End)
                  else (case sp of
                      None \<Rightarrow> (cb, Continue)
                    | Some sm \<Rightarrow>
                        (case take_force_close sm of
                           (sm, forced) \<Rightarrow>
                             (cb\<lparr>sv_splitter := Some sm\<rparr>,
                              if forced then (case se_thinking_end_token_id V of Some e \<Rightarrow> Force e | None \<Rightarrow> Continue)
                              else Continue)))))"

section \<open>The first token\<close>

text \<open>
  The tail of a prefill: the token is chosen from the prefill's logits, shown, and, unless it
  ends the request, handed to the pipelined loop. \<open>lp\<close> is its logprobs and \<open>nans\<close> the NaN
  count of its row.
\<close>

definition decode_tail ::
  "('s, 'c, 'r, 'lg, 'lp, 'e) decode_ctx \<Rightarrow> (u32 \<Rightarrow> 'm \<Rightarrow> 'e + ('lg \<times> 'm)) \<Rightarrow> (nat \<Rightarrow> bool) \<Rightarrow> 'lg \<Rightarrow> nat \<Rightarrow> 'm \<Rightarrow>
   ('s, 'c, 'r, 'lp) shown \<Rightarrow> 'e run_error + ('s, 'c, 'r, 'lp) shown" where
  "decode_tail X fwd cancel logits nans m w =
     (case choose_token X logits (mask_active X w) w of
        Inl e \<Rightarrow> Inl e
      | Inr (t, w) \<Rightarrow>
          let w = w\<lparr>sh_constraint := map_option (co_advance (dx_constraint_ops X) t) (sh_constraint w),
                    sh_history := sh_history w @ [t]\<rparr>;
              piece = (case dx_id_to_token X t of Some p \<Rightarrow> p | None \<Rightarrow> unk_piece t);
              lp = (if 0 < dx_top_logprobs_k X then dx_capture X logits t (dx_top_logprobs_k X) else None);
              step = \<lparr>ps_token_id = t, ps_piece = piece, ps_nan_count = nans, ps_logprobs = lp\<rparr>
          in (case emit_token (dx_step_fn X) (sh_cb w) (sh_steps w) (dx_eos_ids X) step of
                (cb, steps, em) \<Rightarrow>
                  let w = w\<lparr>sh_cb := cb, sh_steps := steps\<rparr> in
                  if em_ends em then Inr w
                  else (case pipelined_decode X fwd cancel t m w of
                      Inl e \<Rightarrow> Inl e | Inr (w, _, _) \<Rightarrow> Inr w)))"

section \<open>Forced tokens\<close>

text \<open>A callback that also logs what it answered to each token.\<close>

definition logged ::
  "('s \<Rightarrow> 'lp probe_step \<Rightarrow> 's \<times> step_verdict) \<Rightarrow> 's \<times> (u32 \<times> step_verdict) list \<Rightarrow> 'lp probe_step \<Rightarrow>
   ('s \<times> (u32 \<times> step_verdict) list) \<times> step_verdict" where
  "logged f sl s = (case f (fst sl) s of (cb, v) \<Rightarrow> ((cb, snd sl @ [(ps_token_id s, v)]), v))"

abbreviation "log_of w \<equiv> snd (sh_cb w)"

definition forces_kept :: "(u32 \<times> step_verdict) list \<Rightarrow> bool" where
  "forces_kept l \<longleftrightarrow> (\<forall>i f. Suc i < length l \<longrightarrow> snd (l ! i) = Force f \<longrightarrow> fst (l ! Suc i) = f)"

lemma forces_kept_snoc:
  "forces_kept l \<Longrightarrow> (\<And>f. l \<noteq> [] \<Longrightarrow> snd (last l) = Force f \<Longrightarrow> fst x = f) \<Longrightarrow> forces_kept (l @ [x])"
  unfolding forces_kept_def
proof (intro allI impI)
  fix i f
  assume l: "\<forall>i f. Suc i < length l \<longrightarrow> snd (l ! i) = Force f \<longrightarrow> fst (l ! Suc i) = f"
    and x: "\<And>f. l \<noteq> [] \<Longrightarrow> snd (last l) = Force f \<Longrightarrow> fst x = f"
    and i: "Suc i < length (l @ [x])" and v: "snd ((l @ [x]) ! i) = Force f"
  show "fst ((l @ [x]) ! Suc i) = f"
  proof (cases "Suc i < length l")
    case True
    with l v show ?thesis by (simp add: nth_append)
  next
    case False
    with i have "l \<noteq> []" "i = length l - 1" by auto
    with x v show ?thesis by (simp add: nth_append last_conv_nth)
  qed
qed

lemma drain_logged:
  assumes "dx_step_fn X = logged f"
  shows "\<exists>v. log_of (fst (drain X t lp w)) = log_of w @ [(t, v)] \<and>
    em_force (snd (drain X t lp w)) = (case v of Force u \<Rightarrow> Some u | _ \<Rightarrow> None)"
  by (auto simp: drain_def emit_token_def assms logged_def verdict_of_def Let_def split: prod.splits)

lemma choose_cb: "choose_token X lg b w = Inr (t, w') \<Longrightarrow> sh_cb w' = sh_cb w"
  by (auto simp: choose_token_def Let_def split: if_splits option.splits prod.splits sum.splits)

lemma seq_next_cb: "seq_next X fwd t m w = Inr (t', lp', m', w') \<Longrightarrow> sh_cb w' = sh_cb w"
  by (auto simp: seq_next_def dest!: choose_cb split: sum.splits)

lemma seq_loop_forces:
  assumes X: "dx_step_fn X = logged f"
  shows "seq_loop X fwd n t lp m w = Inr w' \<Longrightarrow> forces_kept (log_of w) \<Longrightarrow>
     (\<And>u. log_of w \<noteq> [] \<Longrightarrow> snd (last (log_of w)) = Force u \<Longrightarrow> t = u) \<Longrightarrow> forces_kept (log_of w')"
proof (induction n arbitrary: t lp m w)
  case 0
  obtain v where "log_of (fst (drain X t lp w)) = log_of w @ [(t, v)]" using drain_logged [OF X, of t lp w] by blast
  with 0 show ?case by (auto intro!: forces_kept_snoc)
next
  case (Suc n)
  obtain w1 em where d: "drain X t lp w = (w1, em)" by fastforce
  obtain v where lg: "log_of w1 = log_of w @ [(t, v)]" and em: "em_force em = (case v of Force u \<Rightarrow> Some u | _ \<Rightarrow> None)"
    using drain_logged [OF X, of t lp w] d by auto
  have kept: "forces_kept (log_of w1)" unfolding lg using Suc.prems(2,3) by (auto intro!: forces_kept_snoc)
  show ?case
  proof (cases "em_ends em")
    case True
    with Suc.prems(1) d kept show ?thesis by simp
  next
    case False
    with Suc.prems(1) d obtain t1 lp1 m1 w2 where nx: "seq_next X fwd t m w1 = Inr (t1, lp1, m1, w2)"
      and rest: "seq_loop X fwd n (case em_force em of Some u \<Rightarrow> u | None \<Rightarrow> t1)
        (case em_force em of Some u \<Rightarrow> None | None \<Rightarrow> lp1) m1 w2 = Inr w'"
      by (cases "em_force em") (auto split: sum.splits prod.splits)
    from seq_next_cb [OF nx] have cb: "log_of w2 = log_of w1" by simp
    show ?thesis by (rule Suc.IH [OF rest]) (use kept lg em in \<open>auto simp: cb\<close>)
  qed
qed

section \<open>Properties\<close>

text \<open>The token a callback forces is the next one shown. In every run of the pipelined loop,
  when the callback answered \<^verbatim>\<open>Force\<close> to a token of the loop and another token was shown, that
  other token is the forced one.
\<close>

theorem forced_token_follows:
  assumes "dx_step_fn X = logged f" "steady_mask (dx_constraint_ops X)" "greedy_select X"
    and "pipelined_decode X fwd cancel first_id m w = Inr (w', m', k)" "log_of w = []"
  shows "\<forall>i u. Suc i < length (log_of w') \<longrightarrow> snd (log_of w' ! i) = Force u \<longrightarrow> fst (log_of w' ! Suc i) = u"
proof -
  have empty: "forces_kept []" by (simp add: forces_kept_def)
  have "seq_decode X fwd first_id m w = Inr w'" by (rule seq_of_pipeline [OF assms(2-4)])
  then have "forces_kept (log_of w')"
    using assms(5) empty
    by (auto simp: seq_decode_def dest!: seq_next_cb intro: seq_loop_forces [OF assms(1)] split: nat.splits sum.splits)
  then show ?thesis by (simp add: forces_kept_def)
qed

section \<open>Samples\<close>

definition log_ctx :: "(nat \<times> (u32 \<times> step_verdict) list, unit, unit, u32, unit, unit) decode_ctx" where
  "log_ctx = \<lparr>dx_vocab = 10, dx_n_tokens = 5, dx_eos_ids = [9],
     dx_step_fn = logged (\<lambda>n s. (Suc n, if ps_token_id s = 2 then Force 7 else Continue)),
     dx_constraint_ops = \<lparr>co_wants_mask = (\<lambda>_. False), co_step_mask = (\<lambda>_ c. (c, [])), co_advance = (\<lambda>_ c. c)\<rparr>,
     dx_sampling_active = False, dx_penalties_active = False, dx_top_logprobs_k = 0,
     dx_select_token = (\<lambda>_ _ lg r. Inr (lg, r)), dx_capture = (\<lambda>_ _ _. None),
     dx_id_to_token = (\<lambda>_. None), dx_resolve_pieces = False\<rparr>"

definition log_shown :: "(nat \<times> (u32 \<times> step_verdict) list, unit, unit, unit) shown" where
  "log_shown = \<lparr>sh_cb = (0, []), sh_constraint = None, sh_rng = (), sh_history = [1], sh_steps = []\<rparr>"

theorem forced_token_follows_witness:
  "fst (log_of (fst (projr (pipelined_decode log_ctx succ_fwd (\<lambda>_. False) 1 () log_shown))) ! Suc 0) = 7"
proof -
  define r where "r = projr (pipelined_decode log_ctx succ_fwd (\<lambda>_. False) 1 () log_shown)"
  have run: "pipelined_decode log_ctx succ_fwd (\<lambda>_. False) 1 () log_shown = Inr (fst r, fst (snd r), snd (snd r))"
    unfolding r_def by code_simp
  have lg: "log_of (fst r) = [(2, Force 7), (7, Continue), (8, Continue), (9, Continue)]" unfolding r_def by code_simp
  have "dx_step_fn log_ctx = logged (\<lambda>n s. (Suc n, if ps_token_id s = 2 then Force 7 else Continue))"
      "steady_mask (dx_constraint_ops log_ctx)" "greedy_select log_ctx"
    by (auto simp: steady_mask_def greedy_select_def log_ctx_def intro!: exI [of _ Inr])
  from forced_token_follows [OF this run] have
    "\<forall>i u. Suc i < length (log_of (fst r)) \<longrightarrow> snd (log_of (fst r) ! i) = Force u \<longrightarrow> fst (log_of (fst r) ! Suc i) = u"
    by (simp add: log_shown_def)
  then have "fst (log_of (fst r) ! Suc 0) = 7" using lg by (metis (no_types) length_Cons list.size(3) nth_Cons_0 snd_conv Suc_less_eq zero_less_Suc)
  then show ?thesis by (simp add: r_def)
qed

text \<open>
  A reasoning model that writes \<^verbatim>\<open>a\<close> for ever, under the server's callback: token 1 is \<^verbatim>\<open>a\<close> and
  token 2 closes the block.
\<close>

definition a_env :: "unit server_env" where
  "a_env = \<lparr>se_detok = (\<lambda>d t. (d, Some (if t = 2 then THINK_END else [0x61]))), se_emit_tool_markers = False, se_id_to_token = (\<lambda>_. None),
     se_end_requested = (\<lambda>_. False), se_thinking_end_token_id = Some 2\<rparr>"

definition a_ctx :: "(unit server_cb, unit, unit, u32, unit, unit) decode_ctx" where
  "a_ctx = \<lparr>dx_vocab = 10, dx_n_tokens = 6, dx_eos_ids = [9], dx_step_fn = server_step a_env,
     dx_constraint_ops = \<lparr>co_wants_mask = (\<lambda>_. False), co_step_mask = (\<lambda>_ c. (c, [])), co_advance = (\<lambda>_ c. c)\<rparr>,
     dx_sampling_active = False, dx_penalties_active = False, dx_top_logprobs_k = 0,
     dx_select_token = (\<lambda>_ _ lg r. Inr (lg, r)), dx_capture = (\<lambda>_ _ _. None),
     dx_id_to_token = (\<lambda>_. None), dx_resolve_pieces = False\<rparr>"

definition a_shown :: "u32 \<Rightarrow> (unit server_cb, unit, unit, unit) shown" where
  "a_shown budget = \<lparr>sh_cb = \<lparr>sv_detok = (), sv_splitter = Some (ts_new_for_request True (Some budget) None None),
     sv_thinking = None, sv_sent = []\<rparr>, sh_constraint = None, sh_rng = (), sh_history = [], sh_steps = []\<rparr>"

definition tail_ids :: "u32 \<Rightarrow> u32 list" where
  "tail_ids budget = map fst (sv_sent (sh_cb (projr
     (decode_tail a_ctx (\<lambda>y m. Inr (1, m)) (\<lambda>_. False) 1 0 () (a_shown budget)))))"

text \<open>A thinking budget of zero is never enforced. The splitter asks for the close at the
  first token, which is shown before the loop, and the tail of \<^verbatim>\<open>generate_greedy\<close> reads only
  whether that token ends the request: the order is dropped and not asked again. With budget
  one the close is the third token; with budget zero it never comes.
\<close>

theorem zero_budget_not_enforced:
  "tail_ids 0 = [1, 1, 1, 1, 1, 1] \<and> tail_ids 1 = [1, 1, 2, 1, 1, 1]"
  unfolding tail_ids_def by code_simp

end

