(* ===== verification/PrefillPlan.thy ===== *)
theory PrefillPlan
  imports PromptEntry
begin

text \<open>
  How a prompt is split into forwards: \<^verbatim>\<open>rmlx-models/src/prefill_chunk.rs\<close> (the chunk size, the
  runtime override, the pieces) and the two loops that run the pieces between
  \<^verbatim>\<open>enter_prefill\<close> and \<^verbatim>\<open>exit_prefill\<close>, \<^verbatim>\<open>chunked_prefill\<close> of \<^verbatim>\<open>decode_loop.rs\<close> and
  \<^verbatim>\<open>prefill_chunked_with\<close> of \<^verbatim>\<open>speculative/mod.rs\<close>. Token positions are far below
  \<^verbatim>\<open>usize::MAX\<close>, so they are natural numbers. So is \<^verbatim>\<open>from + chunk\<close> in the split, which
  supposes that the chunk, which the environment may set without a cap, is far below it too. The model's forward and what a cache does on
  entering, evaluating and leaving the prefill are parameters.
\<close>

section \<open>The chunk size\<close>

definition FALLBACK :: nat where "FALLBACK = 64"
definition PREFILL_CHUNK_MIN :: nat where "PREFILL_CHUNK_MIN = 32"
definition PREFILL_CHUNK_MAX :: nat where "PREFILL_CHUNK_MAX = 2048"

text \<open>\<^verbatim>\<open>RUNTIME_OVERRIDE\<close> is the state; \<^verbatim>\<open>0\<close> is no override.\<close>

definition set_prefill_chunk :: "nat \<Rightarrow> nat" where
  "set_prefill_chunk v = (if v = 0 then 0 else max PREFILL_CHUNK_MIN (min v PREFILL_CHUNK_MAX))"

definition runtime_override :: "nat \<Rightarrow> nat option" where
  "runtime_override v = (if v = 0 then None else Some v)"

definition arch_default :: "string \<Rightarrow> nat option" where
  "arch_default arch =
     (if arch = ''qwen3'' then Some 1024
      else if arch = ''qwen3_5_moe'' then Some 2048
      else if arch = ''qwen3_vl_moe'' then Some 512
      else if arch = ''gemma3'' then Some 256
      else if arch = ''gemma4'' then Some 1024
      else if arch = ''qwen2'' then Some 256
      else if arch = ''laguna'' then Some 256
      else if arch = ''bitnet'' then Some 64
      else None)"

definition module_key_for_class :: "string \<Rightarrow> string" where
  "module_key_for_class cls =
     (if cls = ''Gemma4ForConditionalGeneration'' \<or> cls = ''Gemma4UnifiedForConditionalGeneration'' then ''gemma4''
      else if cls = ''Gemma3ForConditionalGeneration'' then ''gemma3''
      else if cls = ''Qwen2ForCausalLM'' then ''qwen2''
      else if cls = ''Qwen3ForCausalLM'' then ''qwen3''
      else if cls = ''LagunaForCausalLM'' then ''laguna''
      else if cls = ''Qwen3_5MoeForConditionalGeneration'' \<or> cls = ''Qwen3_5ForConditionalGeneration'' then ''qwen3_5_moe''
      else if cls = ''BitNetForCausalLM'' then ''bitnet''
      else if cls = ''Qwen3VLMoeForConditionalGeneration'' then ''qwen3_vl_moe''
      else [])"

definition event_name :: "string \<Rightarrow> string" where
  "event_name cls = (if module_key_for_class cls = [] then cls else module_key_for_class cls)"

definition upper_char :: "char \<Rightarrow> char" where
  "upper_char c = (let n = of_char c :: nat in if 97 \<le> n \<and> n \<le> 122 then char_of (n - 32) else c)"

definition resolve_with :: "nat \<Rightarrow> string \<Rightarrow> (string \<Rightarrow> nat option) \<Rightarrow> nat \<times> string" where
  "resolve_with runtime arch read_env =
     (if runtime \<noteq> 0 then (runtime, ''adaptive'')
      else (case read_env (''RMLX_PREFILL_CHUNK_'' @ map upper_char arch) of
          Some v \<Rightarrow> (v, ''env_arch'')
        | None \<Rightarrow>
            (case read_env ''RMLX_PREFILL_CHUNK'' of
               Some v \<Rightarrow> (v, ''env_global'')
             | None \<Rightarrow>
                 (case arch_default arch of
                    Some v \<Rightarrow> (v, ''arch_default'')
                  | None \<Rightarrow> (FALLBACK, ''fallback'')))))"

section \<open>The pieces\<close>

definition piece_of :: "nat option \<Rightarrow> nat \<Rightarrow> nat \<Rightarrow> (nat \<times> nat) list" where
  "piece_of cutp lo hi =
     (case cutp of
        Some at \<Rightarrow> if lo < at \<and> at < hi then [(lo, at), (at, hi)] else [(lo, hi)]
      | None \<Rightarrow> [(lo, hi)])"

function pieces_from :: "nat \<Rightarrow> nat \<Rightarrow> nat \<Rightarrow> nat option \<Rightarrow> (nat \<times> nat) list" where
  "pieces_from lo en chunk cutp =
     (if lo < en then
        let hi = min en (lo + max 1 chunk) in piece_of cutp lo hi @ pieces_from hi en chunk cutp
      else [])"
  by pat_completeness auto
termination by (relation "measure (\<lambda>(lo, en, _). en - lo)") auto

declare pieces_from.simps [simp del]

lemma pieces_from_step:
  assumes "lo < en" and "hi = min en (lo + max 1 chunk)"
  shows "pieces_from lo en chunk cutp = piece_of cutp lo hi @ pieces_from hi en chunk cutp"
  using assms by (subst pieces_from.simps) (simp only: Let_def if_True)

definition prefill_pieces :: "nat \<Rightarrow> nat \<Rightarrow> nat \<Rightarrow> nat option \<Rightarrow> (nat \<times> nat) list" where
  "prefill_pieces start en chunk cutp = pieces_from start en chunk cutp"

definition slice_of :: "'a list \<Rightarrow> nat \<times> nat \<Rightarrow> 'a list" where
  "slice_of xs p = take (snd p - fst p) (drop (fst p) xs)"

section \<open>Running the pieces\<close>

datatype 'e prefill_error = Cancelled | Failed 'e | NoLogits

record ('k, 'e) prefill_ops =
  pf_enter :: "'k \<Rightarrow> 'k"
  pf_eval :: "'k \<Rightarrow> 'e option"
  pf_exit :: "'k \<Rightarrow> 'k \<times> 'e option"

text \<open>
  The chunk loop. \<open>cancel\<close> answers the reads of the stop flag in order; the caches are
  returned beside the outcome because the sweep runs on them whatever it is. The log is the
  chunks the forward was given. The forward is a closure; \<open>z\<close> is the state it captures.
\<close>

fun run_chunks ::
  "('k, 'e) prefill_ops \<Rightarrow> (nat \<Rightarrow> bool) \<Rightarrow> ('t list \<Rightarrow> 'k list \<times> 'z \<Rightarrow> ('e + 'o) \<times> 'k list \<times> 'z) \<Rightarrow> 't list \<Rightarrow> nat \<Rightarrow>
   (nat \<times> nat) list \<Rightarrow> 'k list \<times> 'z \<Rightarrow> ('e prefill_error + 'o option) \<times> ('k list \<times> 'z) \<times> 't list list" where
  "run_chunks E cancel fwd ids i [] kz = (Inr None, kz, [])"
| "run_chunks E cancel fwd ids i (p # ps) kz =
     (if cancel i then (Inl Cancelled, kz, [])
      else let chunk = slice_of ids p in
        (case fwd chunk kz of
           (Inl e, kz) \<Rightarrow> (Inl (Failed e), kz, [chunk])
         | (Inr logits, kz) \<Rightarrow>
             if ps = [] then (Inr (Some logits), kz, [chunk])
             else
               (case List.map_filter (pf_eval E) (fst kz) of
                  e # _ \<Rightarrow> (Inl (Failed e), kz, [chunk])
                | [] \<Rightarrow>
                    (case run_chunks E cancel fwd ids (Suc i) ps kz of
                       (r, kz, log) \<Rightarrow> (r, kz, chunk # log)))))"

definition exit_sweep :: "('k, 'e) prefill_ops \<Rightarrow> 'k list \<Rightarrow> 'k list \<times> 'e option" where
  "exit_sweep E ks =
     (map (fst \<circ> pf_exit E) ks,
      case List.map_filter (snd \<circ> pf_exit E) ks of [] \<Rightarrow> None | e # _ \<Rightarrow> Some e)"

definition chunked_prefill ::
  "('k, 'e) prefill_ops \<Rightarrow> (nat \<Rightarrow> bool) \<Rightarrow> ('t list \<Rightarrow> 'k list \<times> 'z \<Rightarrow> ('e + 'o) \<times> 'k list \<times> 'z) \<Rightarrow> 't list \<Rightarrow> nat \<Rightarrow>
   nat option \<Rightarrow> 'k list \<times> 'z \<Rightarrow> ('e prefill_error + 'o) \<times> ('k list \<times> 'z) \<times> 't list list" where
  "chunked_prefill E cancel fwd ids chunk cutp kz =
     (case run_chunks E cancel fwd ids 0 (prefill_pieces 0 (length ids) chunk cutp) (map (pf_enter E) (fst kz), snd kz) of
        (r, (ks, z), log) \<Rightarrow>
          (case exit_sweep E ks of
             (ks, exit_err) \<Rightarrow>
               ((case r of
                   Inl e \<Rightarrow> Inl e
                 | Inr last_logits \<Rightarrow>
                     (case exit_err of
                        Some e \<Rightarrow> Inl (Failed e)
                      | None \<Rightarrow> (case last_logits of None \<Rightarrow> Inl NoLogits | Some l \<Rightarrow> Inr l))), (ks, z), log)))"

text \<open>
  The speculative prefill: the same bracket around a forward whose logits are not kept, and
  an empty prompt is no error and enters nothing.
\<close>

definition prefill_chunked_with ::
  "('k, 'e) prefill_ops \<Rightarrow> (nat \<Rightarrow> bool) \<Rightarrow> ('t list \<Rightarrow> 'k list \<times> 'z \<Rightarrow> ('e + unit) \<times> 'k list \<times> 'z) \<Rightarrow> 't list \<Rightarrow>
   (nat \<times> nat) list \<Rightarrow> 'k list \<times> 'z \<Rightarrow> ('e prefill_error + unit) \<times> ('k list \<times> 'z) \<times> 't list list" where
  "prefill_chunked_with E cancel fwd tokens pieces kz =
     (if tokens = [] then (Inr (), kz, [])
      else
        (case run_chunks E cancel fwd tokens 0 pieces (map (pf_enter E) (fst kz), snd kz) of
           (r, (ks, z), log) \<Rightarrow>
             (case exit_sweep E ks of
                (ks, exit_err) \<Rightarrow>
                  ((case r of
                      Inl e \<Rightarrow> Inl e
                    | Inr _ \<Rightarrow> (case exit_err of Some e \<Rightarrow> Inl (Failed e) | None \<Rightarrow> Inr ())), (ks, z), log))))"

section \<open>What the plan covers\<close>

lemma piece_of_upt: "lo < hi \<Longrightarrow> concat (map (\<lambda>(a, b). [a..<b]) (piece_of cutp lo hi)) = [lo..<hi]"
  by (auto simp: piece_of_def split: option.split)
     (metis less_imp_le upt_add_eq_append le_Suc_ex)

lemma pieces_from_upt: "lo \<le> en \<Longrightarrow> concat (map (\<lambda>(a, b). [a..<b]) (pieces_from lo en chunk cutp)) = [lo..<en]"
proof (induction lo en chunk cutp rule: pieces_from.induct)
  case (1 lo en chunk cutp)
  show ?case
  proof (cases "lo < en")
    case True
    define hi where "hi = min en (lo + max 1 chunk)"
    have hi: "lo < hi" "hi \<le> en" using True by (simp_all add: hi_def)
    have "concat (map (\<lambda>(a, b). [a..<b]) (pieces_from hi en chunk cutp)) = [hi..<en]"
      using 1 True hi by (simp add: hi_def)
    moreover have "[lo..<en] = [lo..<hi] @ [hi..<en]" using hi by (metis less_imp_le upt_add_eq_append le_Suc_ex)
    ultimately show ?thesis
      unfolding pieces_from_step [OF True hi_def] using piece_of_upt [OF hi(1), of cutp] by simp
  qed (use 1 in \<open>simp add: pieces_from.simps\<close>)
qed

lemma pieces_from_width:
  "(a, b) \<in> set (pieces_from lo en chunk cutp) \<Longrightarrow> a < b \<and> b - a \<le> max 1 chunk \<and> lo \<le> a \<and> b \<le> en"
proof (induction lo en chunk cutp rule: pieces_from.induct)
  case (1 lo en chunk cutp)
  define hi where "hi = min en (lo + max 1 chunk)"
  show ?case
  proof (cases "lo < en")
    case True
    from 1(2) have "(a, b) \<in> set (piece_of cutp lo hi) \<or> (a, b) \<in> set (pieces_from hi en chunk cutp)"
      unfolding pieces_from_step [OF True hi_def] by simp
    moreover have "lo < hi" "hi \<le> en" "hi - lo \<le> max 1 chunk" using True by (simp_all add: hi_def)
    ultimately show ?thesis using 1(1) [OF True hi_def]
      by (fastforce simp: piece_of_def split: option.splits if_splits)
  qed (use 1 in \<open>simp add: pieces_from.simps\<close>)
qed

lemma pieces_from_cut:
  "lo < at \<Longrightarrow> at < en \<Longrightarrow> \<exists>b. (at, b) \<in> set (pieces_from lo en chunk (Some at))"
proof (induction lo en chunk "Some at" rule: pieces_from.induct)
  case (1 lo en chunk)
  define hi where "hi = min en (lo + max 1 chunk)"
  have "lo < en" using 1(2,3) by simp
  note unf = pieces_from_step [OF this hi_def]
  consider "at < hi" | "at = hi" | "hi < at" by linarith
  then show ?case
  proof cases
    case 1
    with \<open>lo < at\<close> show ?thesis unfolding unf by (auto simp: piece_of_def)
  next
    case 2
    with \<open>at < en\<close> have "hi < en" by simp
    have "\<exists>b. (hi, b) \<in> set (pieces_from hi en chunk (Some at))"
      unfolding pieces_from_step [OF \<open>hi < en\<close> refl] by (auto simp: piece_of_def)
    with 2 show ?thesis unfolding unf by auto
  next
    case 3
    from 1(1) [OF \<open>lo < en\<close> hi_def 3 \<open>at < en\<close>] show ?thesis unfolding unf by auto
  qed
qed

lemma slice_of_upt: "b \<le> length xs \<Longrightarrow> slice_of xs (a, b) = map ((!) xs) [a..<b]"
  by (rule nth_equalityI) (auto simp: slice_of_def)

lemma slices_of_pieces: "concat (map (slice_of xs) (prefill_pieces 0 (length xs) chunk cutp)) = xs"
proof -
  let ?ps = "prefill_pieces 0 (length xs) chunk cutp"
  have "map (slice_of xs) ?ps = map (\<lambda>p. map ((!) xs) (case p of (a, b) \<Rightarrow> [a..<b])) ?ps"
    by (rule map_cong) (auto simp: prefill_pieces_def slice_of_upt dest: pieces_from_width)
  then have "concat (map (slice_of xs) ?ps) = map ((!) xs) (concat (map (\<lambda>(a, b). [a..<b]) ?ps))"
    unfolding map_concat map_map comp_def by (rule arg_cong)
  also have "\<dots> = xs" by (simp add: prefill_pieces_def pieces_from_upt map_nth)
  finally show ?thesis .
qed

lemma run_chunks_log:
  "run_chunks E cancel fwd ids i ps kz = (r, kz', log) \<Longrightarrow>
     prefix log (map (slice_of ids) ps) \<and> (\<forall>x. r = Inr x \<longrightarrow> log = map (slice_of ids) ps)"
proof (induction ps arbitrary: i kz r kz' log)
  case (Cons p ps)
  then show ?case
    by (fastforce simp: Let_def split: if_splits prod.splits sum.splits list.splits)
qed simp

section \<open>Properties\<close>

text \<open>C27: The plan of a prefill. The pieces cover the positions from the start to the end once
  each and in order, none is empty or wider than the chunk, and a cut strictly inside the
  range is where a piece begins.
\<close>

theorem prefill_plan_exact:
  assumes "start \<le> en"
  shows "concat (map (\<lambda>(a, b). [a..<b]) (prefill_pieces start en chunk cutp)) = [start..<en] \<and>
    (\<forall>(a, b) \<in> set (prefill_pieces start en chunk cutp). a < b \<and> b - a \<le> max 1 chunk) \<and>
    (\<forall>at. cutp = Some at \<and> start < at \<and> at < en \<longrightarrow> (\<exists>b. (at, b) \<in> set (prefill_pieces start en chunk cutp)))"
  using pieces_from_upt [OF assms] pieces_from_width pieces_from_cut
  by (fastforce simp: prefill_pieces_def)

theorem prefill_plan_exact_witness:
  "concat (map (\<lambda>(a, b). [a..<b]) (prefill_pieces 0 5 2 (Some 3))) = [0..<5]"
  using prefill_plan_exact [of 0 5 2 "Some 3"] by simp

text \<open>The prefill sweep. On every outcome, a stop or a failure included, each cache has
  left the prefill. What the model was given is a sequence of leading chunks of the prompt,
  and on success it is the whole prompt, in order.
\<close>

theorem prefill_sweeps_all:
  assumes out: "\<And>k. \<not> in_prefill (fst (pf_exit E k))"
    and run: "chunked_prefill E cancel fwd ids chunk cutp kz = (r, kz', log)"
  shows "(\<forall>k \<in> set (fst kz'). \<not> in_prefill k) \<and> prefix (concat log) ids \<and>
    (\<forall>l. r = Inr l \<longrightarrow> concat log = ids)"
proof -
  obtain r0 kz0 where rc: "run_chunks E cancel fwd ids 0 (prefill_pieces 0 (length ids) chunk cutp)
      (map (pf_enter E) (fst kz), snd kz) = (r0, kz0, log)"
    and ks': "fst kz' = map (fst \<circ> pf_exit E) (fst kz0)" and r: "\<And>l. r = Inr l \<Longrightarrow> \<exists>x. r0 = Inr x"
    using run by (auto simp: chunked_prefill_def exit_sweep_def split: prod.splits sum.splits)
  have sweep: "\<forall>k \<in> set (fst kz'). \<not> in_prefill k" using out by (auto simp: ks')
  note log = run_chunks_log [OF rc]
  from log obtain rest where "map (slice_of ids) (prefill_pieces 0 (length ids) chunk cutp) = log @ rest"
    by (auto simp: prefix_def)
  then have "concat log @ concat rest = ids" using slices_of_pieces [of ids chunk cutp] by simp
  then have "prefix (concat log) ids" by (metis prefixI)
  moreover have "concat log = ids" if "r = Inr l" for l
    using log r [OF that] slices_of_pieces [of ids chunk cutp] by auto
  ultimately show ?thesis using sweep by blast
qed

definition flag_ops :: "(bool, nat) prefill_ops" where
  "flag_ops = \<lparr>pf_enter = (\<lambda>_. True), pf_eval = (\<lambda>_. None), pf_exit = (\<lambda>_. (False, None))\<rparr>"

theorem prefill_sweeps_all_witness:
  "concat (snd (snd (chunked_prefill flag_ops (\<lambda>_. False) (\<lambda>c kz. (Inr c, kz)) [7, 8, 9::nat] 2 None ([False], ())))) = [7, 8, 9]"
proof -
  have "chunked_prefill flag_ops (\<lambda>_. False) (\<lambda>c kz. (Inr c, kz)) [7, 8, 9::nat] 2 None ([False], ()) =
      (Inr [9], ([False], ()), [[7, 8], [9]])" by code_simp
  moreover from prefill_sweeps_all [where in_prefill = id, OF _ this] flag_ops_def
  have "concat [[7, 8], [9::nat]] = [7, 8, 9]" by auto
  ultimately show ?thesis by simp
qed

end
