(* ===== verification/GatedDelta.thy ===== *)
theory GatedDelta
  imports Prelude
begin

text \<open>
  The recurrent layers and their rollback: \<^verbatim>\<open>LinearAttnCache\<close> and its round tape
  (\<^verbatim>\<open>rmlx-kv-quant/src/linear_attn.rs\<close>), what a gated-delta forward does to them
  (\<^verbatim>\<open>rmlx-models/src/qwen3_5_moe/gated_delta_net.rs\<close>), and the refold of a partly accepted round
  (\<^verbatim>\<open>rmlx-models/src/speculative/round_common.rs\<close>).

  The arrays keep only their sequence axis: a convolution input is the list of its rows, the
  recurrence inputs are one per position. What a row is, what the convolution and the gates
  make of a window of rows, and one step of the recurrence are the parameters \<open>gdn\<close>; the
  kernel \<^verbatim>\<open>gated_delta_step_gpu\<close> is the fold of that step.
\<close>

section \<open>The cache and the tape\<close>

record ('x, 'i) gdn_segment =
  sg_inputs :: "'i list"
  sg_conv_input :: "'x list"
  sg_len :: nat

record ('x, 'i, 'd) gdn_tape =
  tp_state_in :: "'d option"
  tp_segments :: "('x, 'i) gdn_segment list"

record ('x, 'i, 'd) lin_attn =
  la_conv_state :: "'x list option"
  la_delta_state :: "'d option"
  la_tape :: "('x, 'i, 'd) gdn_tape option"

definition la_new :: "('x, 'i, 'd) lin_attn" where
  "la_new = \<lparr>la_conv_state = None, la_delta_state = None, la_tape = None\<rparr>"

definition la_reset :: "('x, 'i, 'd) lin_attn \<Rightarrow> ('x, 'i, 'd) lin_attn" where
  "la_reset c = c\<lparr>la_conv_state := None, la_delta_state := None, la_tape := None\<rparr>"

definition tape_new :: "('x, 'i, 'd) gdn_tape" where "tape_new = \<lparr>tp_state_in = None, tp_segments = []\<rparr>"

definition arm_tape :: "('x, 'i, 'd) lin_attn \<Rightarrow> ('x, 'i, 'd) lin_attn" where
  "arm_tape c = c\<lparr>la_tape := Some tape_new\<rparr>"

definition take_tape :: "('x, 'i, 'd) lin_attn \<Rightarrow> ('x, 'i, 'd) lin_attn \<times> ('x, 'i, 'd) gdn_tape option" where
  "take_tape c = (c\<lparr>la_tape := None\<rparr>, la_tape c)"

definition la_deep_clone :: "('x, 'i, 'd) lin_attn \<Rightarrow> ('x, 'i, 'd) lin_attn" where
  "la_deep_clone c = c\<lparr>la_tape := None\<rparr>"

definition tape_push :: "'d \<Rightarrow> ('x, 'i) gdn_segment \<Rightarrow> ('x, 'i, 'd) gdn_tape \<Rightarrow> ('x, 'i, 'd) gdn_tape" where
  "tape_push state_in seg tp =
     tp\<lparr>tp_state_in := (case tp_state_in tp of None \<Rightarrow> Some state_in | Some s \<Rightarrow> Some s),
        tp_segments := tp_segments tp @ [seg]\<rparr>"

definition tape_positions :: "('x, 'i, 'd) gdn_tape \<Rightarrow> nat" where
  "tape_positions tp = sum_list (map sg_len (tp_segments tp))"

section \<open>The forward\<close>

record ('x, 'g, 'i, 'd, 'y) gdn =
  gd_kernel :: nat
  gd_zero_row :: 'x
  gd_zero_state :: 'd
  gd_input :: "'x list \<Rightarrow> 'g \<Rightarrow> 'i"
  gd_step :: "'d \<Rightarrow> 'i \<Rightarrow> 'y \<times> 'd"

fun delta_kernel :: "('d \<Rightarrow> 'i \<Rightarrow> 'y \<times> 'd) \<Rightarrow> 'd \<Rightarrow> 'i list \<Rightarrow> 'y list \<times> 'd" where
  "delta_kernel f s [] = ([], s)"
| "delta_kernel f s (i # is) =
     (case f s i of (y, s) \<Rightarrow> (case delta_kernel f s is of (ys, s) \<Rightarrow> (y # ys, s)))"

definition gdn_prefix :: "('x, 'g, 'i, 'd, 'y) gdn \<Rightarrow> ('x, 'i, 'd) lin_attn \<Rightarrow> 'x list" where
  "gdn_prefix G c = (case la_conv_state c of Some p \<Rightarrow> p | None \<Rightarrow> replicate (gd_kernel G - 1) (gd_zero_row G))"

definition gdn_state_in :: "('x, 'g, 'i, 'd, 'y) gdn \<Rightarrow> ('x, 'i, 'd) lin_attn \<Rightarrow> 'd" where
  "gdn_state_in G c = (case la_delta_state c of Some s \<Rightarrow> s | None \<Rightarrow> gd_zero_state G)"

definition gdn_inputs :: "('x, 'g, 'i, 'd, 'y) gdn \<Rightarrow> 'x list \<Rightarrow> ('x \<times> 'g) list \<Rightarrow> 'i list" where
  "gdn_inputs G p xs =
     map (\<lambda>t. gd_input G (take (gd_kernel G) (drop t (p @ map fst xs))) (snd (xs ! t))) [0..<length xs]"

definition gdn_forward ::
  "('x, 'g, 'i, 'd, 'y) gdn \<Rightarrow> ('x \<times> 'g) list \<Rightarrow> ('x, 'i, 'd) lin_attn \<Rightarrow> 'y list \<times> ('x, 'i, 'd) lin_attn" where
  "gdn_forward G xs c =
     (let pad = gd_kernel G - 1;
          qkv_padded = gdn_prefix G c @ map fst xs;
          ins = gdn_inputs G (gdn_prefix G c) xs;
          state_in = gdn_state_in G c
      in case delta_kernel (gd_step G) state_in ins of
           (ys, state_out) \<Rightarrow>
             (ys, c\<lparr>la_tape := map_option (tape_push state_in
                      \<lparr>sg_inputs = ins, sg_conv_input = qkv_padded, sg_len = length xs\<rparr>) (la_tape c),
                    la_delta_state := Some state_out,
                    la_conv_state := Some (take pad (drop (pad + length xs - pad) qkv_padded))\<rparr>))"

section \<open>The refold\<close>

datatype refold_error = NoRoundTape nat | TapeLength nat nat | NoPreRoundState nat | EmptyTape

definition concat_tape_conv_input :: "('x, 'i, 'd) gdn_tape \<Rightarrow> 'x list option" where
  "concat_tape_conv_input tp =
     (case tp_segments tp of
        [] \<Rightarrow> None
      | first # rest \<Rightarrow>
          (let pad = length (sg_conv_input first) - sg_len first
           in Some (sg_conv_input first @ concat (map (\<lambda>s. drop pad (sg_conv_input s)) rest))))"

fun tape_prefix :: "('x, 'i) gdn_segment list \<Rightarrow> nat \<Rightarrow> 'i list" where
  "tape_prefix [] kept = []"
| "tape_prefix (s # ss) kept =
     (if kept = 0 then []
      else let want = min kept (sg_len s) in take want (sg_inputs s) @ tape_prefix ss (kept - want))"

text \<open>One layer. \<open>Inr (c, False)\<close> is a layer that holds no recurrence, which is skipped.\<close>

definition refold_layer ::
  "('x, 'g, 'i, 'd, 'y) gdn \<Rightarrow> nat \<Rightarrow> nat \<Rightarrow> nat \<Rightarrow> ('x, 'i, 'd) lin_attn \<Rightarrow>
   refold_error + (('x, 'i, 'd) lin_attn \<times> bool)" where
  "refold_layer G round_len kept idx c =
     (case take_tape c of
        (c, None) \<Rightarrow> Inl (NoRoundTape idx)
      | (c, Some tp) \<Rightarrow>
          let taped = tape_positions tp in
          if taped = 0 \<and> la_conv_state c = None \<and> la_delta_state c = None then Inr (c, False)
          else if taped \<noteq> round_len then Inl (TapeLength idx taped)
          else (case tp_state_in tp of
              None \<Rightarrow> Inl (NoPreRoundState idx)
            | Some state_in \<Rightarrow>
                (case concat_tape_conv_input tp of
                   None \<Rightarrow> Inl EmptyTape
                 | Some conv \<Rightarrow>
                     let pad = length conv - taped in
                     Inr (c\<lparr>la_conv_state := Some (take pad (drop kept conv)),
                            la_delta_state := Some (if kept = 0 then state_in
                              else snd (delta_kernel (gd_step G) state_in (tape_prefix (tp_segments tp) kept)))\<rparr>, True))))"

fun refold_from ::
  "(nat \<Rightarrow> ('x, 'g, 'i, 'd, 'y) gdn) \<Rightarrow> nat \<Rightarrow> nat \<Rightarrow> nat \<Rightarrow> ('x, 'i, 'd) lin_attn list \<Rightarrow>
   refold_error + (('x, 'i, 'd) lin_attn list \<times> bool)" where
  "refold_from G round_len kept idx [] = Inr ([], False)"
| "refold_from G round_len kept idx (c # cs) =
     (case refold_layer (G idx) round_len kept idx c of
        Inl e \<Rightarrow> Inl e
      | Inr (c, b) \<Rightarrow>
          (case refold_from G round_len kept (Suc idx) cs of
             Inl e \<Rightarrow> Inl e | Inr (cs, b') \<Rightarrow> Inr (c # cs, b \<or> b')))"

definition refold_lin_tapes ::
  "(nat \<Rightarrow> ('x, 'g, 'i, 'd, 'y) gdn) \<Rightarrow> ('x, 'i, 'd) lin_attn list \<Rightarrow> nat \<Rightarrow> nat \<Rightarrow>
   refold_error + (('x, 'i, 'd) lin_attn list \<times> bool)" where
  "refold_lin_tapes G lin round_len kept = refold_from G round_len kept 0 lin"

section \<open>Forwards in sequence\<close>

definition gdn_ok :: "('x, 'g, 'i, 'd, 'y) gdn \<Rightarrow> ('x, 'i, 'd) lin_attn \<Rightarrow> bool" where
  "gdn_ok G c \<longleftrightarrow> 0 < gd_kernel G \<and> length (gdn_prefix G c) = gd_kernel G - 1"

lemma delta_kernel_append:
  "delta_kernel f s (xs @ ys) =
     (case delta_kernel f s xs of (as, s1) \<Rightarrow> (case delta_kernel f s1 ys of (bs, s2) \<Rightarrow> (as @ bs, s2)))"
  by (induction xs arbitrary: s) (auto split: prod.split)

lemma gdn_inputs_length [simp]: "length (gdn_inputs G p xs) = length xs"
  by (simp add: gdn_inputs_def)

lemma gdn_inputs_nth:
  "t < length xs \<Longrightarrow> gdn_inputs G p xs ! t =
     gd_input G (take (gd_kernel G) (drop t (p @ map fst xs))) (snd (xs ! t))"
  unfolding gdn_inputs_def by (subst nth_map) simp_all

lemma drop_le_append: "n \<le> length A \<Longrightarrow> drop n (A @ B) = drop n A @ B"
  by simp

lemma drop_rows:
  assumes "length X = n"
  shows "drop (n + m) (P @ X @ Y) = drop m (drop n (P @ X) @ Y)"
proof -
  have "drop n (P @ X @ Y) = drop n (P @ X) @ Y" using assms by simp
  then show ?thesis by (metis drop_drop add.commute)
qed

lemma gdn_inputs_append:
  assumes k: "0 < gd_kernel G" "length p = gd_kernel G - 1"
  shows "gdn_inputs G p (xs @ ys) = gdn_inputs G p xs @ gdn_inputs G (drop (length xs) (p @ map fst xs)) ys"
proof (rule nth_equalityI)
  fix t assume "t < length (gdn_inputs G p (xs @ ys))"
  then have t: "t < length xs + length ys" by simp
  let ?n = "length xs"
  show "gdn_inputs G p (xs @ ys) ! t =
      (gdn_inputs G p xs @ gdn_inputs G (drop ?n (p @ map fst xs)) ys) ! t"
  proof (cases "t < ?n")
    case True
    define A where "A = p @ map fst xs"
    have tA: "t \<le> length A" and kA: "gd_kernel G \<le> length (drop t A)" using True k by (simp_all add: A_def)
    have "p @ map fst (xs @ ys) = A @ map fst ys" by (simp add: A_def)
    then have "take (gd_kernel G) (drop t (p @ map fst (xs @ ys))) = take (gd_kernel G) (drop t A)"
      using kA by (simp only: drop_le_append [OF tA] take_append) simp
    then have "take (gd_kernel G) (drop t (p @ map fst (xs @ ys))) = take (gd_kernel G) (drop t (p @ map fst xs))"
      by (simp only: A_def)
    then have "gdn_inputs G p (xs @ ys) ! t = gdn_inputs G p xs ! t"
      using True t gdn_inputs_nth [of t "xs @ ys" G p] gdn_inputs_nth [of t xs G p] by (simp only: nth_append length_append if_True)
    with True show ?thesis by (simp add: nth_append)
  next
    case False
    then obtain j where j: "t = ?n + j" by (metis le_add_diff_inverse not_less)
    have dr: "drop t (p @ map fst (xs @ ys)) = drop j (drop ?n (p @ map fst xs) @ map fst ys)"
      unfolding j map_append by (rule drop_rows) simp
    have "gdn_inputs G p (xs @ ys) ! t = gdn_inputs G (drop ?n (p @ map fst xs)) ys ! j"
    proof -
      have tl: "t < length (xs @ ys)" and jl: "j < length ys" using t j by simp_all
      have nt: "(xs @ ys) ! t = ys ! j" by (simp add: j)
      show ?thesis unfolding gdn_inputs_nth [OF tl] gdn_inputs_nth [OF jl] dr nt by (rule refl)
    qed
    with j show ?thesis by (simp add: nth_append)
  qed
qed simp

lemma gdn_forward_state:
  assumes "gdn_ok G c" "gdn_forward G xs c = (ys, c')"
  shows "la_conv_state c' = Some (drop (length xs) (gdn_prefix G c @ map fst xs))"
    and "delta_kernel (gd_step G) (gdn_state_in G c) (gdn_inputs G (gdn_prefix G c) xs) =
      (ys, gdn_state_in G c')"
    and "la_delta_state c' \<noteq> None" "gdn_ok G c'"
    and "la_tape c' = map_option (tape_push (gdn_state_in G c)
      \<lparr>sg_inputs = gdn_inputs G (gdn_prefix G c) xs, sg_conv_input = gdn_prefix G c @ map fst xs,
       sg_len = length xs\<rparr>) (la_tape c)"
  using assms by (auto simp: gdn_forward_def gdn_ok_def gdn_prefix_def gdn_state_in_def Let_def split: prod.splits)

text \<open>Two caches that the next forward cannot tell apart.\<close>

definition la_same :: "('x, 'g, 'i, 'd, 'y) gdn \<Rightarrow> ('x, 'i, 'd) lin_attn \<Rightarrow> ('x, 'i, 'd) lin_attn \<Rightarrow> bool" where
  "la_same G c d \<longleftrightarrow> gdn_prefix G c = gdn_prefix G d \<and> gdn_state_in G c = gdn_state_in G d"

lemma gdn_forward_append:
  assumes ok: "gdn_ok G c" and f1: "gdn_forward G xs c = (as, c1)" and f2: "gdn_forward G ys c1 = (bs, c2)"
  shows "\<exists>c'. gdn_forward G (xs @ ys) c = (as @ bs, c') \<and> la_same G c' c2"
proof -
  obtain zs c' where f: "gdn_forward G (xs @ ys) c = (zs, c')" by fastforce
  note s1 = gdn_forward_state [OF ok f1]
  note s2 = gdn_forward_state [OF s1(4) f2]
  note s = gdn_forward_state [OF ok f]
  have p1: "gdn_prefix G c1 = drop (length xs) (gdn_prefix G c @ map fst xs)"
    using s1(1) by (simp add: gdn_prefix_def)
  have k: "0 < gd_kernel G" "length (gdn_prefix G c) = gd_kernel G - 1" using ok by (simp_all add: gdn_ok_def)
  have ins: "gdn_inputs G (gdn_prefix G c) (xs @ ys) = gdn_inputs G (gdn_prefix G c) xs @ gdn_inputs G (gdn_prefix G c1) ys"
    unfolding p1 by (rule gdn_inputs_append [OF k])
  have "(zs, gdn_state_in G c') = (as @ bs, gdn_state_in G c2)"
    using s(2) s1(2) s2(2) by (simp add: ins delta_kernel_append)
  moreover have "gdn_prefix G c' = gdn_prefix G c2"
  proof -
    have "gdn_prefix G c' = drop (length xs + length ys) (gdn_prefix G c @ map fst xs @ map fst ys)"
      using s(1) by (simp add: gdn_prefix_def [of G c'])
    also have "\<dots> = drop (length ys) (gdn_prefix G c1 @ map fst ys)"
      unfolding p1 by (rule drop_rows) simp
    also have "\<dots> = gdn_prefix G c2" unfolding gdn_prefix_def [of G c2] s2(1) by simp
    finally show ?thesis .
  qed
  ultimately show ?thesis using f by (simp add: la_same_def)
qed

fun gdn_chunks ::
  "('x, 'g, 'i, 'd, 'y) gdn \<Rightarrow> ('x \<times> 'g) list list \<Rightarrow> ('x, 'i, 'd) lin_attn \<Rightarrow> 'y list \<times> ('x, 'i, 'd) lin_attn" where
  "gdn_chunks G [] c = ([], c)"
| "gdn_chunks G (xs # xss) c =
     (case gdn_forward G xs c of (ys, c) \<Rightarrow> (case gdn_chunks G xss c of (zs, c) \<Rightarrow> (ys @ zs, c)))"

section \<open>The tape of a round\<close>

text \<open>
  \<open>taped G p s xs c\<close>: the cache's tape was armed at prefix \<open>p\<close> and state \<open>s\<close>, and the forwards since
  then fed \<open>xs\<close>, in whatever pieces.
\<close>

definition taped :: "('x, 'g, 'i, 'd, 'y) gdn \<Rightarrow> 'x list \<Rightarrow> 'd \<Rightarrow> ('x \<times> 'g) list \<Rightarrow> ('x, 'i, 'd) lin_attn \<Rightarrow> bool" where
  "taped G p s xs c \<longleftrightarrow> gdn_ok G c \<and> length p = gd_kernel G - 1 \<and>
     la_conv_state c = Some (drop (length xs) (p @ map fst xs)) \<and>
     la_delta_state c = Some (snd (delta_kernel (gd_step G) s (gdn_inputs G p xs))) \<and>
     (\<exists>tp. la_tape c = Some tp \<and> tp_state_in tp = Some s \<and> tp_segments tp \<noteq> [] \<and>
        concat_tape_conv_input tp = Some (p @ map fst xs) \<and>
        concat (map sg_inputs (tp_segments tp)) = gdn_inputs G p xs \<and>
        (\<forall>sg\<in>set (tp_segments tp). length (sg_inputs sg) = sg_len sg \<and>
           length (sg_conv_input sg) = gd_kernel G - 1 + sg_len sg))"

lemma taped_first:
  assumes ok: "gdn_ok G c" and tape: "la_tape c = Some tape_new" and f: "gdn_forward G xs c = (ys, c')"
  shows "taped G (gdn_prefix G c) (gdn_state_in G c) xs c'"
proof -
  note s = gdn_forward_state [OF ok f]
  have d: "la_delta_state c' = Some (gdn_state_in G c')" using s(3) by (auto simp: gdn_state_in_def)
  show ?thesis
    using s ok by (simp add: taped_def d tape tape_push_def tape_new_def concat_tape_conv_input_def gdn_ok_def)
qed

lemma taped_next:
  assumes t: "taped G p s xs c" and f: "gdn_forward G ys c = (os, c')"
  shows "taped G p s (xs @ ys) c'"
proof -
  let ?k = "gd_kernel G - 1"
  have ok: "gdn_ok G c" and k: "0 < gd_kernel G" "length p = ?k" using t by (auto simp: taped_def gdn_ok_def)
  note s = gdn_forward_state [OF ok f]
  have pre: "gdn_prefix G c = drop (length xs) (p @ map fst xs)" using t by (simp add: taped_def gdn_prefix_def)
  have lpre: "length (gdn_prefix G c) = ?k" using ok by (simp add: gdn_ok_def)
  have st: "gdn_state_in G c = snd (delta_kernel (gd_step G) s (gdn_inputs G p xs))"
    using t by (simp add: taped_def gdn_state_in_def)
  have ins: "gdn_inputs G p (xs @ ys) = gdn_inputs G p xs @ gdn_inputs G (gdn_prefix G c) ys"
    unfolding pre by (rule gdn_inputs_append [OF k])
  obtain tp where tp: "la_tape c = Some tp" "tp_state_in tp = Some s" "tp_segments tp \<noteq> []"
    "concat_tape_conv_input tp = Some (p @ map fst xs)"
    "concat (map sg_inputs (tp_segments tp)) = gdn_inputs G p xs"
    "\<forall>sg\<in>set (tp_segments tp). length (sg_inputs sg) = sg_len sg \<and> length (sg_conv_input sg) = ?k + sg_len sg"
    using t by (auto simp: taped_def)
  define sg where "sg = \<lparr>sg_inputs = gdn_inputs G (gdn_prefix G c) ys,
    sg_conv_input = gdn_prefix G c @ map fst ys, sg_len = length ys\<rparr>"
  define tp' where "tp' = tp\<lparr>tp_segments := tp_segments tp @ [sg]\<rparr>"
  have tape': "la_tape c' = Some tp'" using s(5) tp(1,2) by (simp add: tape_push_def sg_def tp'_def)
  obtain fs rest where segs: "tp_segments tp = fs # rest" using tp(3) by (cases "tp_segments tp") auto
  have pad: "length (sg_conv_input fs) - sg_len fs = ?k" using tp(6) segs by simp
  have "concat_tape_conv_input tp' = Some ((p @ map fst xs) @ map fst ys)"
    using tp(4) pad lpre by (simp add: concat_tape_conv_input_def tp'_def segs sg_def)
  moreover have "la_conv_state c' = Some (drop (length xs + length ys) (p @ map fst xs @ map fst ys))"
    unfolding s(1) pre by (subst drop_rows) simp_all
  moreover have "la_delta_state c' = Some (snd (delta_kernel (gd_step G) s (gdn_inputs G p (xs @ ys))))"
  proof -
    have "la_delta_state c' = Some (gdn_state_in G c')" using s(3) by (auto simp: gdn_state_in_def)
    also have "gdn_state_in G c' = snd (delta_kernel (gd_step G) (gdn_state_in G c) (gdn_inputs G (gdn_prefix G c) ys))"
      using s(2) by simp
    finally show ?thesis by (simp add: ins delta_kernel_append st split: prod.split)
  qed
  ultimately show ?thesis
    using k tp s(4) tape' lpre by (simp add: taped_def ins tp'_def sg_def)
qed

lemma taped_chunks: "taped G p s xs c \<Longrightarrow> gdn_chunks G xss c = (os, c') \<Longrightarrow> taped G p s (xs @ concat xss) c'"
proof (induction xss arbitrary: xs c os)
  case (Cons ys xss)
  from Cons.prems obtain os1 c1 os2 where "gdn_forward G ys c = (os1, c1)" "gdn_chunks G xss c1 = (os2, c')"
    by (auto split: prod.splits)
  with Cons.IH [OF taped_next [OF Cons.prems(1)]] show ?case by fastforce
qed simp

lemma tape_prefix_take:
  "(\<forall>s\<in>set ss. length (sg_inputs s) = sg_len s) \<Longrightarrow> tape_prefix ss kept = take kept (concat (map sg_inputs ss))"
  by (induction ss arbitrary: kept) (auto simp: Let_def min_def)

lemma gdn_inputs_take:
  assumes "0 < gd_kernel G" "length p = gd_kernel G - 1" "j \<le> length xs"
  shows "take j (gdn_inputs G p xs) = gdn_inputs G p (take j xs)"
  using gdn_inputs_append [OF assms(1,2), of "take j xs" "drop j xs"] assms(3) by simp

lemma refold_taped:
  assumes t: "taped G p s xs c" and j: "j \<le> length xs"
  shows "\<exists>c'. refold_layer G (length xs) j idx c = Inr (c', True) \<and> la_tape c' = None \<and>
    la_conv_state c' = Some (drop j (p @ map fst (take j xs))) \<and>
    la_delta_state c' = Some (snd (delta_kernel (gd_step G) s (gdn_inputs G p (take j xs))))"
proof -
  let ?k = "gd_kernel G - 1"
  have k: "0 < gd_kernel G" "length p = ?k" and cs: "la_conv_state c \<noteq> None"
    using t by (auto simp: taped_def gdn_ok_def)
  obtain tp where tp: "la_tape c = Some tp" "tp_state_in tp = Some s"
    "concat_tape_conv_input tp = Some (p @ map fst xs)"
    "concat (map sg_inputs (tp_segments tp)) = gdn_inputs G p xs"
    "\<forall>sg\<in>set (tp_segments tp). length (sg_inputs sg) = sg_len sg"
    using t by (auto simp: taped_def)
  have "tape_positions tp = length (concat (map sg_inputs (tp_segments tp)))"
    using tp(5) by (simp add: tape_positions_def length_concat comp_def cong: map_cong)
  then have len: "tape_positions tp = length xs" by (simp add: tp(4))
  have pre: "tape_prefix (tp_segments tp) j = gdn_inputs G p (take j xs)"
    using tape_prefix_take [OF tp(5)] gdn_inputs_take [OF k j] by (simp add: tp(4))
  have "take ?k (drop j (p @ map fst xs)) = drop j (p @ map fst (take j xs))"
  proof -
    have "drop j (p @ map fst xs) = drop j (p @ map fst (take j xs)) @ map fst (drop j xs)"
    proof -
      have "p @ map fst xs = (p @ map fst (take j xs)) @ map fst (drop j xs)"
        by (simp flip: map_append)
      then show ?thesis using j by simp
    qed
    moreover have "length (drop j (p @ map fst (take j xs))) = ?k" using k j by simp
    ultimately show ?thesis by (metis append_eq_conv_conj)
  qed
  with k j cs show ?thesis
    by (simp add: refold_layer_def take_tape_def tp Let_def len pre gdn_inputs_def)
qed

lemma arm_tape_same [simp]:
  "gdn_prefix G (arm_tape c) = gdn_prefix G c" "gdn_state_in G (arm_tape c) = gdn_state_in G c"
  "gdn_ok G (arm_tape c) = gdn_ok G c" "la_tape (arm_tape c) = Some tape_new"
  by (simp_all add: arm_tape_def gdn_prefix_def gdn_state_in_def gdn_ok_def)

lemma taped_round:
  assumes "gdn_ok G c" "xss \<noteq> []" "gdn_chunks G xss (arm_tape c) = (os, c1)"
  shows "taped G (gdn_prefix G c) (gdn_state_in G c) (concat xss) c1"
proof -
  obtain xs rest where xss: "xss = xs # rest" using assms(2) by (cases xss) auto
  with assms(3) obtain os1 d os2 where f: "gdn_forward G xs (arm_tape c) = (os1, d)" and r: "gdn_chunks G rest d = (os2, c1)"
    by (auto split: prod.splits)
  have "taped G (gdn_prefix G c) (gdn_state_in G c) xs d"
    using taped_first [OF _ _ f] assms(1) by simp
  from taped_chunks [OF this r] show ?thesis by (simp add: xss)
qed

lemma la_same_forward:
  "la_same G c d \<Longrightarrow> gdn_forward G xs c = (ys, c') \<Longrightarrow> \<exists>d'. gdn_forward G xs d = (ys, d') \<and>
     la_conv_state d' = la_conv_state c' \<and> la_delta_state d' = la_delta_state c'"
  by (auto simp: gdn_forward_def la_same_def Let_def split: prod.splits)

lemma la_sameI: "la_conv_state c = la_conv_state d \<Longrightarrow> la_delta_state c = la_delta_state d \<Longrightarrow> la_same G c d"
  by (simp add: la_same_def gdn_prefix_def gdn_state_in_def)

lemma gdn_chunks_forward:
  "gdn_ok G c \<Longrightarrow> gdn_chunks G xss c = (os, c1) \<Longrightarrow>
     \<exists>c2. gdn_forward G (concat xss) c = (os, c2) \<and> la_same G c2 c1"
proof (induction xss arbitrary: c os)
  case Nil
  obtain ys c2 where f: "gdn_forward G [] c = (ys, c2)" by fastforce
  note s = gdn_forward_state [OF Nil(1) f]
  from s(1) have "gdn_prefix G c2 = gdn_prefix G c" by (simp add: gdn_prefix_def [of G c2])
  with s(2) f Nil(2) show ?case by (simp add: la_same_def gdn_inputs_def)
next
  case (Cons xs xss)
  from Cons.prems obtain as d bs where f: "gdn_forward G xs c = (as, d)" and r: "gdn_chunks G xss d = (bs, c1)"
    and os: "os = as @ bs" by (auto split: prod.splits)
  from Cons.IH [OF gdn_forward_state(4) [OF Cons.prems(1) f] r] obtain c2 where
    g: "gdn_forward G (concat xss) d = (bs, c2)" and s: "la_same G c2 c1" by blast
  from gdn_forward_append [OF Cons.prems(1) f g] s os show ?case by (auto simp: la_same_def)
qed

section \<open>Properties\<close>

text \<open>C28: Chunked and whole prefill agree. Feeding a recurrent layer a sequence in any pieces
  gives the outputs of one forward over the whole, and leaves a state the next forward cannot
  tell from it.
\<close>

theorem gdn_chunking_exact:
  assumes "gdn_ok G c" "gdn_chunks G xss c = (os, c1)"
  shows "\<exists>c2. gdn_forward G (concat xss) c = (os, c2) \<and> la_same G c2 c1"
  by (rule gdn_chunks_forward [OF assms])

text \<open>C29: The refold replays the accepted prefix. After a round that fed a recurrent layer in
  any number of forwards with its tape armed, refolding the tape to its first \<open>j\<close> positions
  leaves exactly the convolution tail and the recurrent state that one forward over those
  positions leaves, and the tape is gone.
\<close>

theorem refold_replays_prefix:
  assumes "gdn_ok G c" "xss \<noteq> []" "gdn_chunks G xss (arm_tape c) = (os, c1)"
    and "j \<le> length (concat xss)" "gdn_forward G (take j (concat xss)) c = (ys, d)"
  shows "\<exists>c2. refold_layer G (length (concat xss)) j idx c1 = Inr (c2, True) \<and>
    la_conv_state c2 = la_conv_state d \<and> la_delta_state c2 = la_delta_state d \<and> la_tape c2 = None"
proof -
  from refold_taped [OF taped_round [OF assms(1-3)] assms(4)] obtain c2 where
    r: "refold_layer G (length (concat xss)) j idx c1 = Inr (c2, True)" "la_tape c2 = None"
    "la_conv_state c2 = Some (drop j (gdn_prefix G c @ map fst (take j (concat xss))))"
    "la_delta_state c2 = Some (snd (delta_kernel (gd_step G) (gdn_state_in G c)
      (gdn_inputs G (gdn_prefix G c) (take j (concat xss)))))" by blast
  note s = gdn_forward_state [OF assms(1,5)]
  have "length (take j (concat xss)) = j" using assms(4) by simp
  then have "la_conv_state d = la_conv_state c2" by (simp only: s(1) r(3))
  moreover have "la_delta_state d = la_delta_state c2"
    using s(2,3) unfolding r(4) by (auto simp: gdn_state_in_def)
  ultimately show ?thesis using r by auto
qed

section \<open>Samples\<close>

text \<open>A kernel of three rows, a sum of the window, and a running total as the recurrence.\<close>

definition sum_gdn :: "(nat, nat, nat, nat, nat) gdn" where
  "sum_gdn = \<lparr>gd_kernel = 3, gd_zero_row = 0, gd_zero_state = 0, gd_input = (\<lambda>w g. sum_list w * g),
     gd_step = (\<lambda>s i. (s + i, 2 * s + i))\<rparr>"

definition la_empty :: "(nat, nat, nat) lin_attn" where "la_empty = la_new"

lemma sum_gdn_ok: "gdn_ok sum_gdn la_empty"
  by (simp add: gdn_ok_def sum_gdn_def gdn_prefix_def la_empty_def la_new_def)

theorem gdn_chunking_exact_witness:
  "\<exists>c2. gdn_forward sum_gdn [(1, 1), (2, 1), (3, 2)] la_empty =
     (fst (gdn_chunks sum_gdn [[(1, 1)], [(2, 1), (3, 2)]] la_empty), c2)"
  using gdn_chunking_exact [OF sum_gdn_ok, of "[[(1, 1)], [(2, 1), (3, 2)]]"
    "fst (gdn_chunks sum_gdn [[(1, 1)], [(2, 1), (3, 2)]] la_empty)"
    "snd (gdn_chunks sum_gdn [[(1, 1)], [(2, 1), (3, 2)]] la_empty)"] by auto

theorem refold_replays_prefix_witness:
  "\<exists>c2. refold_layer sum_gdn 3 2 0 (snd (gdn_chunks sum_gdn [[(1, 1)], [(2, 1), (3, 2)]] (arm_tape la_empty))) = Inr (c2, True) \<and>
     la_conv_state c2 = Some [1, 2]"
proof -
  have "la_conv_state (snd (gdn_forward sum_gdn [(1, 1), (2, 1)] la_empty)) = Some [1, 2]"
    by (simp add: gdn_forward_def sum_gdn_def gdn_prefix_def la_empty_def la_new_def Let_def split: prod.split)
  note conv = this
  have len: "length (concat [[(1, 1)], [(2, 1), (3::nat, 2::nat)]]) = 3" by simp
  have tk: "take 2 (concat [[(1, 1)], [(2, 1), (3::nat, 2::nat)]]) = [(1, 1), (2, 1)]" by simp
  have "(2::nat) \<le> 3" by simp
  from refold_replays_prefix [OF sum_gdn_ok _ surjective_pairing _ surjective_pairing,
    of "[[(1, 1)], [(2, 1), (3, 2)]]" 2 0, unfolded len tk conv, OF _ this]
  show ?thesis by blast
qed

end
