(* ===== verification/ContextBounds.thy ===== *)
theory ContextBounds
  imports Complex_Main Prelude
begin

text \<open>
  The context ceiling of a run (\<^verbatim>\<open>rmlx-models/src/context.rs\<close>): what a checkpoint can address, the
  bound \<^verbatim>\<open>--max-ctx\<close> narrows it to, and the tokens a request may generate under it. An \<^verbatim>\<open>f32\<close>
  field is a rational: the product of two of them is exact in \<^verbatim>\<open>f64\<close>, and a NaN or an infinite
  factor is outside the model. The words of a refusal are left out.
\<close>

section \<open>Limits\<close>

definition I32_MAX :: int where "I32_MAX = 2147483647"
definition KV_MAX_SEQ_DEFAULT :: int where "KV_MAX_SEQ_DEFAULT = 4096"

datatype scaling_source = Config | Operator

record context_scaling =
  cs_factor :: rat
  cs_original_max :: rat
  cs_source :: scaling_source

definition extended_max :: "context_scaling \<Rightarrow> int" where
  "extended_max s =
     (if cs_factor s \<le> 1 \<or> cs_original_max s \<le> 0 then 0
      else let extended = cs_factor s * cs_original_max s in
        if of_int I32_MAX \<le> extended then I32_MAX else \<lfloor>extended\<rfloor>)"

record context_limits =
  cl_trained_max :: int
  cl_scaling :: "context_scaling option"
  cl_scaling_supported :: bool

definition trained_only :: "int \<Rightarrow> context_limits" where
  "trained_only trained_max = \<lparr>cl_trained_max = trained_max, cl_scaling = None, cl_scaling_supported = False\<rparr>"

definition positional_max :: "context_limits \<Rightarrow> int" where
  "positional_max l = max (cl_trained_max l) (case cl_scaling l of None \<Rightarrow> 0 | Some s \<Rightarrow> extended_max s)"

definition tokens_of :: "int \<Rightarrow> nat option" where
  "tokens_of n = (if 0 < n then Some (nat n) else None)"

definition positional_tokens :: "context_limits \<Rightarrow> nat option" where
  "positional_tokens l = tokens_of (positional_max l)"

section \<open>The ceiling\<close>

record resolved_context =
  rc_positional_max :: int
  rc_ceiling :: int
  rc_initial_max_seq :: int

datatype context_error =
    ContextCeilingExceeded int int int
  | KvCeilingExceeded int int

definition ceiling_tokens :: "resolved_context \<Rightarrow> nat" where
  "ceiling_tokens r = (if 0 \<le> rc_ceiling r then nat (rc_ceiling r) else 0)"

definition resolved_positional_tokens :: "resolved_context \<Rightarrow> nat option" where
  "resolved_positional_tokens r = tokens_of (rc_positional_max r)"

definition resolve_ceiling :: "context_limits \<Rightarrow> int option \<Rightarrow> context_error + resolved_context" where
  "resolve_ceiling l max_ctx_override =
     (let pmax = positional_max l;
          fallback = (if 0 < pmax then min pmax KV_MAX_SEQ_DEFAULT else KV_MAX_SEQ_DEFAULT);
          resolved = (\<lambda>c. \<lparr>rc_positional_max = pmax, rc_ceiling = c, rc_initial_max_seq = min KV_MAX_SEQ_DEFAULT c\<rparr>)
      in (case max_ctx_override of
            Some n \<Rightarrow>
              if 0 < n then
                if 0 < pmax \<and> pmax < n then Inl (ContextCeilingExceeded n pmax (cl_trained_max l))
                else Inr (resolved n)
              else Inr (resolved fallback)
          | None \<Rightarrow> Inr (resolved fallback)))"

definition decode_budget :: "resolved_context \<Rightarrow> nat \<Rightarrow> nat \<Rightarrow> context_error + nat" where
  "decode_budget r prompt_len n_tokens =
     (let room = ceiling_tokens r - prompt_len in
      if room = 0 \<and> 0 < n_tokens
      then Inl (KvCeilingExceeded (if int prompt_len + 1 \<le> I32_MAX then int prompt_len + 1 else I32_MAX) (rc_ceiling r))
      else Inr (min n_tokens room))"

text \<open>\<open>set_ceiling\<close> is \<^verbatim>\<open>KvCache::with_max_seq_ceiling\<close>.\<close>

definition rebind_to_ceiling :: "(int \<Rightarrow> 'k \<Rightarrow> 'k) \<Rightarrow> 'k list \<Rightarrow> int \<Rightarrow> nat \<Rightarrow> context_error + 'k list" where
  "rebind_to_ceiling set_ceiling kv_caches ceil prompt_len =
     (if 0 \<le> ceil \<and> nat ceil < prompt_len
      then Inl (KvCeilingExceeded (if int prompt_len \<le> I32_MAX then int prompt_len else I32_MAX) ceil)
      else Inr (map (set_ceiling ceil) kv_caches))"

section \<open>Lemmas\<close>

lemma resolve_ceiling_bounds:
  assumes "resolve_ceiling l ov = Inr r"
  shows "0 < rc_ceiling r \<and> rc_initial_max_seq r \<le> rc_ceiling r \<and> rc_positional_max r = positional_max l \<and>
    (0 < positional_max l \<longrightarrow> rc_ceiling r \<le> positional_max l) \<and> (\<forall>n. ov = Some n \<and> 0 < n \<longrightarrow> rc_ceiling r = n)"
  using assms by (auto simp: resolve_ceiling_def Let_def KV_MAX_SEQ_DEFAULT_def split: option.splits if_splits)

lemma decode_budget_bounds:
  assumes "decode_budget r prompt_len n_tokens = Inr n"
  shows "n \<le> n_tokens \<and> (0 < n \<longrightarrow> int (prompt_len + n) \<le> rc_ceiling r) \<and> (0 < n_tokens \<longrightarrow> 0 < n)"
  using assms by (auto simp: decode_budget_def ceiling_tokens_def Let_def split: if_splits)

text \<open>C30: A request never runs past the positions its checkpoint can address. When the ceiling
  resolves and the prompt gets a budget, the prompt and every token of the budget fit under
  the ceiling, the ceiling is the operator's when one is given, and it is at most the
  checkpoint's positional capacity when that is known. A request for at least one token gets
  at least one or is refused.
\<close>

theorem budget_under_capacity:
  assumes "resolve_ceiling l ov = Inr r" "decode_budget r prompt_len n_tokens = Inr n"
  shows "n \<le> n_tokens \<and> (0 < n_tokens \<longrightarrow> 0 < n) \<and> (0 < n \<longrightarrow> int (prompt_len + n) \<le> rc_ceiling r) \<and>
    (0 < positional_max l \<longrightarrow> rc_ceiling r \<le> positional_max l) \<and> (\<forall>m. ov = Some m \<and> 0 < m \<longrightarrow> rc_ceiling r = m)"
  using resolve_ceiling_bounds [OF assms(1)] decode_budget_bounds [OF assms(2)] by blast

theorem budget_under_capacity_witness:
  "int (4000 + 96) \<le> (4096::int)"
  using budget_under_capacity [of "trained_only 8192" None "\<lparr>rc_positional_max = 8192, rc_ceiling = 4096, rc_initial_max_seq = 4096\<rparr>"
      4000 200 96]
  by (simp add: resolve_ceiling_def positional_max_def trained_only_def KV_MAX_SEQ_DEFAULT_def decode_budget_def
      ceiling_tokens_def Let_def)

end
