(* ===== verification/SpecCaches.thy ===== *)
theory SpecCaches
  imports PromptEntry GatedDelta ContextBounds
begin

text \<open>
  The caches a speculative round moves: the stack of attention layers, with the position they
  share (\<^verbatim>\<open>stack_offset\<close>), the guard on a round's advance and the all-or-nothing truncation, and
  the recurrent layers with their tapes (\<^verbatim>\<open>rmlx-models/src/speculative/round_common.rs\<close> and
  \<^verbatim>\<open>mod.rs\<close>). A layer's K/V row is represented by the token of its position: every row is a
  function of the tokens up to it. A layer without a ring keeps its rows in a buffer that a
  truncation does not shorten; the next write goes to the offset.
\<close>

section \<open>Attention layers\<close>

record attn_layer =
  al_kv :: "(u32, u32) kv_layer"
  al_rows :: "u32 list"
  al_writes :: bool

abbreviation al_offset :: "attn_layer \<Rightarrow> int" where "al_offset l \<equiv> kl_offset (al_kv l)"

text \<open>
  What a forward does to a layer. A recurrent layer's cache and the cache of a layer that
  shares another's K/V are never written.
\<close>

definition layer_write :: "u32 list \<Rightarrow> attn_layer \<Rightarrow> attn_layer" where
  "layer_write new l =
     (if \<not> al_writes l then l
      else (case kl_rotating (al_kv l) of
          None \<Rightarrow> l\<lparr>al_rows := take (nat (al_offset l)) (al_rows l) @ new,
                     al_kv := (al_kv l)\<lparr>kl_offset := al_offset l + int (length new)\<rparr>\<rparr>
        | Some r \<Rightarrow>
            (case update_and_fetch GpuStream r new new of
               None \<Rightarrow> l
             | Some (r, _) \<Rightarrow> l\<lparr>al_kv := (al_kv l)\<lparr>kl_rotating := Some r, kl_offset := rg_offset r\<rparr>\<rparr>)))"

datatype spec_error =
    LayersDisagree nat int nat int
  | RoundAdvance nat int int nat
  | CannotRollBack nat
  | TruncateFailed entry_error
  | PrefixTooLong nat nat
  | RefoldFailed refold_error
  | AcceptLengths nat nat
  | EmptyChain
  | RestrictedPrefix nat nat
  | UndeclaredProjection
  | CarryNotHanded
  | EmptySeed
  | NoLastToken
  | DraftQuantRefused
  | ModelFailed
  | RoundCancelled
  | NotScored
  | RowNotScored nat nat
  | ArgmaxShort nat nat
  | DistributionLengths nat nat nat
  | PrefillHead nat nat
  | ContextRefused context_error
  | NotInVocabulary

section \<open>The position of a stack\<close>

fun stack_offset_from :: "nat \<Rightarrow> (nat \<times> int) option \<Rightarrow> attn_layer list \<Rightarrow> spec_error + int" where
  "stack_offset_from i shared [] = Inr (case shared of None \<Rightarrow> 0 | Some (_, pos) \<Rightarrow> pos)"
| "stack_offset_from i shared (l # ls) =
     (let off = al_offset l in
      if off = 0 then stack_offset_from (Suc i) shared ls
      else (case shared of
          None \<Rightarrow> stack_offset_from (Suc i) (Some (i, off)) ls
        | Some (first, pos) \<Rightarrow>
            if off \<noteq> pos then Inl (LayersDisagree first pos i off) else stack_offset_from (Suc i) shared ls))"

definition stack_offset :: "attn_layer list \<Rightarrow> spec_error + int" where
  "stack_offset kv = stack_offset_from 0 None kv"

definition guard_round_advance :: "nat \<Rightarrow> int \<Rightarrow> int \<Rightarrow> nat \<Rightarrow> spec_error + unit" where
  "guard_round_advance round_no pre post fed =
     (if post \<noteq> pre + int fed then Inl (RoundAdvance round_no pre post fed) else Inr ())"

section \<open>Truncation\<close>

definition layer_truncate :: "int \<Rightarrow> attn_layer \<Rightarrow> entry_error + attn_layer" where
  "layer_truncate n l = (case kl_truncate_to n (al_kv l) of Inl e \<Rightarrow> Inl e | Inr k \<Rightarrow> Inr (l\<lparr>al_kv := k\<rparr>))"

definition truncate_stack :: "int \<Rightarrow> attn_layer list \<Rightarrow> spec_error + attn_layer list" where
  "truncate_stack n kv =
     (case position (\<lambda>l. n \<le> al_offset l \<and> \<not> kl_can_truncate_to (al_kv l) n) kv of
        Some idx \<Rightarrow> Inl (CannotRollBack idx)
      | None \<Rightarrow>
          (case collect_results (\<lambda>l. if n \<le> al_offset l then layer_truncate n l else Inr l) kv of
             Inl e \<Rightarrow> Inl (TruncateFailed e) | Inr kv \<Rightarrow> Inr kv))"

section \<open>Rolling a round back\<close>

type_synonym ('x, 'i, 'd) lin_stack = "('x, 'i, 'd) lin_attn list option"

definition arm_lin_tapes :: "('x, 'i, 'd) lin_stack \<Rightarrow> ('x, 'i, 'd) lin_stack" where
  "arm_lin_tapes = map_option (map arm_tape)"

definition disarm_lin_tapes :: "('x, 'i, 'd) lin_stack \<Rightarrow> ('x, 'i, 'd) lin_stack" where
  "disarm_lin_tapes = map_option (map (fst \<circ> take_tape))"

definition rollback_round_caches ::
  "(nat \<Rightarrow> ('x, 'g, 'i, 'd, 'y) gdn) \<Rightarrow> attn_layer list \<Rightarrow> ('x, 'i, 'd) lin_stack \<Rightarrow> u32 list \<Rightarrow> int \<Rightarrow> int \<Rightarrow>
   spec_error + (attn_layer list \<times> ('x, 'i, 'd) lin_stack \<times> bool)" where
  "rollback_round_caches G kv lin round_tokens pre_round_offset target_offset =
     (let kept = nat (target_offset - pre_round_offset) in
      if length round_tokens < kept then Inl (PrefixTooLong kept (length round_tokens))
      else (case truncate_stack target_offset kv of
          Inl e \<Rightarrow> Inl e
        | Inr kv \<Rightarrow>
            (case lin of
               None \<Rightarrow> Inr (kv, None, False)
             | Some cs \<Rightarrow>
                 (case refold_lin_tapes G cs (length round_tokens) kept of
                    Inl e \<Rightarrow> Inl (RefoldFailed e)
                  | Inr (cs, b) \<Rightarrow> Inr (kv, Some cs, b)))))"

definition rollback_round ::
  "(nat \<Rightarrow> ('x, 'g, 'i, 'd, 'y) gdn) \<Rightarrow> attn_layer list \<Rightarrow> ('x, 'i, 'd) lin_stack \<Rightarrow> u32 list \<Rightarrow> int \<Rightarrow> int \<Rightarrow>
   spec_error + (attn_layer list \<times> ('x, 'i, 'd) lin_stack \<times> bool)" where
  "rollback_round G kv lin round_tokens pre_round_offset target_offset =
     (if target_offset < pre_round_offset + int (length round_tokens)
      then rollback_round_caches G kv lin round_tokens pre_round_offset target_offset
      else Inr (kv, disarm_lin_tapes lin, False))"

definition rollback_target_from_head :: "int \<Rightarrow> nat \<Rightarrow> int" where
  "rollback_target_from_head pre_round_offset accept = pre_round_offset + int accept + 1"

definition draft_rows_to_drop :: "nat \<Rightarrow> nat \<Rightarrow> int" where
  "draft_rows_to_drop proposals accept = max (int proposals - int accept - 1) 0"

section \<open>Stacks that hold a history\<close>

text \<open>
  The shape of a stack: a layer that is never written, a full-attention layer, or a ring of a
  given width. \<open>layer_at\<close> says that a layer holds the history \<open>h\<close>.
\<close>

datatype layer_shape = Idle | Full | Window nat

fun layer_at :: "u32 list \<Rightarrow> layer_shape \<Rightarrow> attn_layer \<Rightarrow> bool" where
  "layer_at h Idle l \<longleftrightarrow> \<not> al_writes l \<and> al_offset l = 0"
| "layer_at h Full l \<longleftrightarrow> al_writes l \<and> kl_rotating (al_kv l) = None \<and> al_offset l = int (length h) \<and>
     take (length h) (al_rows l) = h"
| "layer_at h (Window m) l \<longleftrightarrow> al_writes l \<and> al_offset l = int (length h) \<and>
     (\<exists>r. kl_rotating (al_kv l) = Some r \<and> ring_rep m r h h)"

definition stack_at :: "layer_shape list \<Rightarrow> u32 list \<Rightarrow> attn_layer list \<Rightarrow> bool" where
  "stack_at S h kv \<longleftrightarrow> list_all2 (layer_at h) S kv"

definition advances :: "layer_shape list \<Rightarrow> bool" where "advances S \<longleftrightarrow> (\<exists>s\<in>set S. s \<noteq> Idle)"

lemma layer_at_offset: "layer_at h s l \<Longrightarrow> al_offset l = (if s = Idle then 0 else int (length h))"
  by (cases s) auto

lemma stack_offset_from_at:
  assumes "list_all2 (layer_at h) S kv" "shared = None \<or> (\<exists>i. shared = Some (i, int (length h)))"
  shows "stack_offset_from i shared kv =
    Inr (if shared \<noteq> None \<or> advances S then int (length h) else 0)"
  using assms
proof (induction S kv arbitrary: i shared rule: list_all2_induct)
  case Nil
  then show ?case by (auto simp: advances_def)
next
  case (Cons s S l kv)
  from layer_at_offset [OF Cons(1)] Cons(3) [of shared "Suc i"] Cons(3) [of "Some (i, int (length h))" "Suc i"] Cons(4)
  show ?case by (auto simp: advances_def Let_def)
qed

lemma stack_offset_at: "stack_at S h kv \<Longrightarrow> advances S \<Longrightarrow> stack_offset kv = Inr (int (length h))"
  unfolding stack_at_def stack_offset_def by (simp add: stack_offset_from_at)

lemma layer_write_at:
  assumes "layer_at h s l" "new \<noteq> []"
  shows "layer_at (h @ new) s (layer_write new l) \<and>
    (\<forall>n < length new. 2 \<le> length new \<longrightarrow> s \<noteq> Idle \<longrightarrow>
       kl_can_truncate_to (al_kv (layer_write new l)) (int (length (h @ new)) - int n))"
proof (cases s)
  case Idle
  with assms show ?thesis by (simp add: layer_write_def)
next
  case Full
  with assms show ?thesis by (simp add: layer_write_def kl_can_truncate_to_def)
next
  case (Window m)
  with assms obtain r where r: "kl_rotating (al_kv l) = Some r" "ring_rep m r h h" "al_writes l" by auto
  from update_and_fetch_rep [OF r(2) assms(2) refl, of GpuStream] obtain r' fk fv i where
    u: "update_and_fetch GpuStream r new new = Some (r', fk, fv)" and rep: "ring_rep m r' (h @ new) (h @ new)"
    and sv: "served m h new fk i" and b: "length new \<noteq> 1 \<Longrightarrow> rg_idx r' = int (length fk) \<and> rg_keys r' = Some fk \<and> rg_stream r' \<noteq> None"
    by blast
  note D = ring_repD [OF rep]
  have ct: "can_trim r' (int n)" if "n < length new" "2 \<le> length new" for n
  proof -
    from that(2) have n1: "length new \<noteq> 1" by simp
    have "length fk = min (length h) (m - 1) + length new" using sv n1
      by (auto simp: served_def length_held)
    then show ?thesis using D b [OF n1] that by (auto simp: can_trim_def)
  qed
  have "kl_can_truncate_to (al_kv (layer_write new l)) (int (length (h @ new)) - int n)"
    if "n < length new" "2 \<le> length new" for n
    using ct [OF that] D r u by (simp add: layer_write_def kl_can_truncate_to_def)
  moreover have "layer_at (h @ new) s (layer_write new l)"
    using r u rep D Window by (simp add: layer_write_def)
  ultimately show ?thesis by blast
qed

lemma layer_truncate_at:
  assumes at: "layer_at (h @ new) s l" and n: "n \<le> length new" and s: "s \<noteq> Idle"
    and ct: "kl_can_truncate_to (al_kv l) (int (length h + n))"
  shows "\<exists>l'. layer_truncate (int (length h + n)) l = Inr l' \<and> layer_at (h @ take n new) s l'"
proof (cases s)
  case Full
  with at n have "take (length h + n) (al_rows l) = h @ take n new"
  proof -
    have "take (length h + n) (al_rows l) = take (length h + n) (take (length (h @ new)) (al_rows l))" using n by simp
    also have "\<dots> = h @ take n new" using at Full by simp
    finally show ?thesis .
  qed
  with at Full n show ?thesis by (auto simp: layer_truncate_def kl_truncate_to_def)
next
  case (Window m)
  with at obtain r where r: "kl_rotating (al_kv l) = Some r" "ring_rep m r (h @ new) (h @ new)"
    and off: "al_offset l = int (length (h @ new))" "al_writes l" by auto
  define d where "d = length new - n"
  have dd: "al_offset l - int (length h + n) = int d" using n off by (simp add: d_def)
  have "\<exists>r'. roll_back (int d) r = Inr (True, r') \<and> ring_rep m r' (h @ take n new) (h @ take n new)"
  proof (cases "d = 0")
    case True
    with n have "take n new = new" by (simp add: d_def)
    with True r(2) show ?thesis by (simp add: roll_back_def can_trim_def)
  next
    case False
    from ct dd r(1) have "can_trim r (int d)" by (simp add: kl_can_truncate_to_def)
    from roll_back_rep [OF r(2) _ this] False n show ?thesis by (auto simp: d_def)
  qed
  then obtain r' where rb: "roll_back (int d) r = Inr (True, r')" and rep: "ring_rep m r' (h @ take n new) (h @ take n new)"
    by blast
  from ring_repD [OF rep] have "rg_offset r' = int (length (h @ take n new))" by simp
  with rb rep r off Window dd show ?thesis by (simp add: layer_truncate_def kl_truncate_to_def)
qed (use s in simp)

definition can_give_back :: "u32 list \<Rightarrow> u32 list \<Rightarrow> layer_shape list \<Rightarrow> attn_layer list \<Rightarrow> bool" where
  "can_give_back h new S kv \<longleftrightarrow>
     list_all2 (\<lambda>s l. s \<noteq> Idle \<longrightarrow> (\<forall>n < length new. 0 < n \<longrightarrow> kl_can_truncate_to (al_kv l) (int (length h + n)))) S kv"

lemma stack_write_at:
  assumes "stack_at S h kv" "2 \<le> length new"
  shows "stack_at S (h @ new) (map (layer_write new) kv) \<and> can_give_back h new S (map (layer_write new) kv)"
proof -
  have ne: "new \<noteq> []" using assms(2) by auto
  have gb: "kl_can_truncate_to (al_kv (layer_write new l)) (int (length h + n))"
    if "layer_at h s l" "s \<noteq> Idle" "n < length new" "0 < n" for s l n
  proof -
    from that(3,4) have "length new - n < length new" "int (length (h @ new)) - int (length new - n) = int (length h + n)" by auto
    with layer_write_at [OF that(1) ne] assms(2) that(2) show ?thesis by metis
  qed
  from assms(1) show ?thesis
    unfolding stack_at_def can_give_back_def list_all2_map2
    using layer_write_at [OF _ ne] gb by (auto elim!: list_all2_mono)
qed

lemma stack_write_at_any: "stack_at S h kv \<Longrightarrow> new \<noteq> [] \<Longrightarrow> stack_at S (h @ new) (map (layer_write new) kv)"
  unfolding stack_at_def list_all2_map2 using layer_write_at by (auto elim!: list_all2_mono)

lemma truncate_stack_at:
  assumes at: "stack_at S (h @ new) kv" and gb: "can_give_back h new S kv" and n: "0 < n" "n < length new"
  shows "\<exists>kv'. truncate_stack (int (length h + n)) kv = Inr kv' \<and> stack_at S (h @ take n new) kv'"
proof -
  let ?t = "int (length h + n)"
  have each: "(\<not> (?t \<le> al_offset l \<and> \<not> kl_can_truncate_to (al_kv l) ?t)) \<and>
      (\<exists>l'. (if ?t \<le> al_offset l then layer_truncate ?t l else Inr l) = Inr l' \<and> layer_at (h @ take n new) s l')"
    if "layer_at (h @ new) s l" "s \<noteq> Idle \<longrightarrow> (\<forall>n < length new. 0 < n \<longrightarrow> kl_can_truncate_to (al_kv l) (int (length h + n)))" for s l
  proof (cases "s = Idle")
    case True
    with that n show ?thesis by simp
  next
    case False
    with that n have ct: "kl_can_truncate_to (al_kv l) ?t" by blast
    have "?t \<le> al_offset l" using layer_at_offset [OF that(1)] False n by simp
    with layer_truncate_at [OF that(1) _ False ct] n ct show ?thesis by simp
  qed
  have both: "list_all2 (\<lambda>s l. layer_at (h @ new) s l \<and>
      (s \<noteq> Idle \<longrightarrow> (\<forall>n < length new. 0 < n \<longrightarrow> kl_can_truncate_to (al_kv l) (int (length h + n))))) S kv"
    using at gb by (auto simp: stack_at_def can_give_back_def list_all2_conv_all_nth)
  have "position (\<lambda>l. ?t \<le> al_offset l \<and> \<not> kl_can_truncate_to (al_kv l) ?t) kv = None \<and>
    (\<exists>kv'. collect_results (\<lambda>l. if ?t \<le> al_offset l then layer_truncate ?t l else Inr l) kv = Inr kv' \<and>
       list_all2 (layer_at (h @ take n new)) S kv')"
    using both
  proof (induction S kv rule: list_all2_induct)
    case (Cons s S l kv)
    from Cons(1) each [of s l] obtain l' where
      "(if ?t \<le> al_offset l then layer_truncate ?t l else Inr l) = Inr l'" "layer_at (h @ take n new) s l'"
      "\<not> (?t \<le> al_offset l \<and> \<not> kl_can_truncate_to (al_kv l) ?t)" by blast
    with Cons(3) show ?case by (auto split: if_splits)
  qed simp
  then show ?thesis unfolding truncate_stack_def stack_at_def by auto
qed

section \<open>Recurrent stacks that hold a history\<close>

text \<open>
  The inputs a recurrent layer sees are a function of the tokens up to each position. Slots of
  attention layers hold no recurrence.
\<close>

definition rows_of :: "(u32 list \<Rightarrow> 'a) \<Rightarrow> u32 list \<Rightarrow> u32 list \<Rightarrow> 'a list" where
  "rows_of f h new = map (\<lambda>i. f (h @ take (Suc i) new)) [0..<length new]"

lemma rows_of_length [simp]: "length (rows_of f h new) = length new" by (simp add: rows_of_def)

lemma rows_of_nth: "i < length new \<Longrightarrow> rows_of f h new ! i = f (h @ take (Suc i) new)"
  by (simp add: rows_of_def)

lemma rows_of_append: "rows_of f h (xs @ ys) = rows_of f h xs @ rows_of f (h @ xs) ys"
proof (rule nth_equalityI)
  fix i assume "i < length (rows_of f h (xs @ ys))"
  then have i: "i < length xs + length ys" by simp
  show "rows_of f h (xs @ ys) ! i = (rows_of f h xs @ rows_of f (h @ xs) ys) ! i"
    using i by (simp add: rows_of_nth nth_append Suc_diff_le not_less)
qed simp

lemma rows_of_take: "n \<le> length new \<Longrightarrow> take n (rows_of f h new) = rows_of f h (take n new)"
  using rows_of_append [of f h "take n new" "drop n new"] by simp

definition lin_at ::
  "('x, 'g, 'i, 'd, 'y) gdn \<Rightarrow> (u32 list \<Rightarrow> 'x \<times> 'g) \<Rightarrow> bool \<Rightarrow> u32 list \<Rightarrow> ('x, 'i, 'd) lin_attn \<Rightarrow> bool" where
  "lin_at G inp rec h c \<longleftrightarrow>
     (if rec then gdn_ok G c \<and> (\<exists>d. la_same G c d \<and> d = snd (gdn_forward G (rows_of inp [] h) la_new))
      else la_conv_state c = None \<and> la_delta_state c = None)"

text \<open>What a forward of \<open>new\<close> at \<open>h\<close> does to a recurrent slot.\<close>

definition lin_write ::
  "('x, 'g, 'i, 'd, 'y) gdn \<Rightarrow> (u32 list \<Rightarrow> 'x \<times> 'g) \<Rightarrow> bool \<Rightarrow> u32 list \<Rightarrow> u32 list \<Rightarrow> ('x, 'i, 'd) lin_attn \<Rightarrow>
   ('x, 'i, 'd) lin_attn" where
  "lin_write G inp rec h new c = (if rec then snd (gdn_forward G (rows_of inp h new) c) else c)"

lemma lin_forward_at:
  assumes at: "lin_at G inp True h c" and f: "gdn_forward G (rows_of inp h new) c = (ys, c')"
  shows "lin_at G inp True (h @ new) c'"
proof -
  from at have ok: "gdn_ok G c" and s: "la_same G c (snd (gdn_forward G (rows_of inp [] h) la_new))"
    by (simp_all add: lin_at_def)
  have ok0: "gdn_ok G la_new" using ok by (simp add: gdn_ok_def gdn_prefix_def la_new_def)
  obtain os d where d: "gdn_forward G (rows_of inp [] h) la_new = (os, d)" by fastforce
  with s have "la_same G c d" by simp
  from la_same_forward [OF this f] obtain d' where d': "gdn_forward G (rows_of inp h new) d = (ys, d')"
    "la_conv_state d' = la_conv_state c'" "la_delta_state d' = la_delta_state c'" by blast
  from gdn_forward_append [OF ok0 d d'(1)] obtain e where
    e: "gdn_forward G (rows_of inp [] (h @ new)) la_new = (os @ ys, e)" "la_same G e d'"
    by (auto simp: rows_of_append)
  have "la_same G c' d'" by (rule la_sameI) (simp_all add: d')
  with e gdn_forward_state(4) [OF ok f] show ?thesis by (simp add: lin_at_def la_same_def)
qed

lemma lin_at_same: "lin_at G inp rec h c \<Longrightarrow> la_conv_state c' = la_conv_state c \<Longrightarrow>
  la_delta_state c' = la_delta_state c \<Longrightarrow> lin_at G inp rec h c'"
  by (auto simp: lin_at_def la_same_def gdn_ok_def gdn_prefix_def gdn_state_in_def)

text \<open>
  A slot in the middle of a round: armed at \<open>h\<close>, it has been fed \<open>new\<close> in one or rest forwards.
\<close>

definition lin_mid ::
  "('x, 'g, 'i, 'd, 'y) gdn \<Rightarrow> (u32 list \<Rightarrow> 'x \<times> 'g) \<Rightarrow> bool \<Rightarrow> u32 list \<Rightarrow> u32 list \<Rightarrow> ('x, 'i, 'd) lin_attn \<Rightarrow> bool" where
  "lin_mid G inp rec h new c \<longleftrightarrow>
     (if rec then (\<exists>c0. lin_at G inp True h c0 \<and> taped G (gdn_prefix G c0) (gdn_state_in G c0) (rows_of inp h new) c) \<and>
        lin_at G inp True (h @ new) c
      else la_conv_state c = None \<and> la_delta_state c = None \<and> la_tape c = Some tape_new)"

lemma lin_mid_first:
  assumes "lin_at G inp rec h c"
  shows "lin_mid G inp rec h new (lin_write G inp rec h new (arm_tape c))"
proof (cases rec)
  case True
  obtain ys c' where f: "gdn_forward G (rows_of inp h new) (arm_tape c) = (ys, c')" by fastforce
  have ok: "gdn_ok G (arm_tape c)" and arm: "lin_at G inp True h (arm_tape c)"
    using assms True by (simp_all add: lin_at_def la_same_def)
  from taped_first [OF ok _ f] lin_forward_at [OF arm f] assms True f show ?thesis
    by (auto simp: lin_mid_def lin_write_def)
next
  case False
  with assms show ?thesis by (simp add: lin_mid_def lin_write_def lin_at_def arm_tape_def)
qed

lemma lin_mid_next:
  assumes "lin_mid G inp rec h new c"
  shows "lin_mid G inp rec h (new @ rest) (lin_write G inp rec (h @ new) rest c)"
proof (cases rec)
  case True
  obtain ys c' where f: "gdn_forward G (rows_of inp (h @ new) rest) c = (ys, c')" by fastforce
  from assms True obtain c0 where c0: "lin_at G inp True h c0"
    "taped G (gdn_prefix G c0) (gdn_state_in G c0) (rows_of inp h new) c" and at: "lin_at G inp True (h @ new) c"
    by (auto simp: lin_mid_def)
  from taped_next [OF c0(2) f] lin_forward_at [OF at f] c0(1) True f show ?thesis
    by (auto simp: lin_mid_def lin_write_def rows_of_append)
qed (use assms in \<open>simp add: lin_mid_def lin_write_def\<close>)

lemma refold_mid:
  assumes "lin_mid G inp rec h new c" "n \<le> length new"
  shows "\<exists>c' b. refold_layer G (length new) n idx c = Inr (c', b) \<and> lin_at G inp rec (h @ take n new) c'"
proof (cases rec)
  case True
  with assms obtain c0 where c0: "lin_at G inp True h c0"
    and t: "taped G (gdn_prefix G c0) (gdn_state_in G c0) (rows_of inp h new) c" by (auto simp: lin_mid_def)
  from refold_taped [OF t, of n] assms(2) obtain c' where r: "refold_layer G (length new) n idx c = Inr (c', True)"
    "la_conv_state c' = Some (drop n (gdn_prefix G c0 @ map fst (take n (rows_of inp h new))))"
    "la_delta_state c' = Some (snd (delta_kernel (gd_step G) (gdn_state_in G c0)
      (gdn_inputs G (gdn_prefix G c0) (take n (rows_of inp h new)))))" by auto
  obtain ys d where f: "gdn_forward G (rows_of inp h (take n new)) c0 = (ys, d)" by fastforce
  have tk: "take n (rows_of inp h new) = rows_of inp h (take n new)" by (rule rows_of_take [OF assms(2)])
  have ok: "gdn_ok G c0" using c0 by (simp add: lin_at_def)
  note s = gdn_forward_state [OF ok f]
  have "la_conv_state c' = la_conv_state d" using s(1) assms(2) by (simp add: r(2) tk)
  moreover have "la_delta_state c' = la_delta_state d" using s(2,3) by (auto simp: r(3) tk gdn_state_in_def)
  ultimately show ?thesis using lin_at_same [OF lin_forward_at [OF c0(1) f]] r(1) True by auto
next
  case False
  with assms have "refold_layer G (length new) n idx c = Inr (c\<lparr>la_tape := None\<rparr>, False)"
    by (simp add: lin_mid_def refold_layer_def take_tape_def tape_positions_def tape_new_def Let_def)
  moreover from False assms have "lin_at G inp rec (h @ take n new) (c\<lparr>la_tape := None\<rparr>)"
    by (simp add: lin_mid_def lin_at_def)
  ultimately show ?thesis by blast
qed

text \<open>A whole stack: \<open>R i\<close> says whether slot \<open>i\<close> is recurrent.\<close>

definition lins_at ::
  "(nat \<Rightarrow> ('x, 'g, 'i, 'd, 'y) gdn) \<Rightarrow> (nat \<Rightarrow> u32 list \<Rightarrow> 'x \<times> 'g) \<Rightarrow> (nat \<Rightarrow> bool) \<Rightarrow> u32 list \<Rightarrow>
   ('x, 'i, 'd) lin_stack \<Rightarrow> bool" where
  "lins_at G inp R h lin \<longleftrightarrow>
     (\<forall>cs. lin = Some cs \<longrightarrow> (\<forall>i < length cs. lin_at (G i) (inp i) (R i) h (cs ! i)))"

definition lins_mid ::
  "(nat \<Rightarrow> ('x, 'g, 'i, 'd, 'y) gdn) \<Rightarrow> (nat \<Rightarrow> u32 list \<Rightarrow> 'x \<times> 'g) \<Rightarrow> (nat \<Rightarrow> bool) \<Rightarrow> u32 list \<Rightarrow> u32 list \<Rightarrow>
   ('x, 'i, 'd) lin_stack \<Rightarrow> bool" where
  "lins_mid G inp R h new lin \<longleftrightarrow>
     (\<forall>cs. lin = Some cs \<longrightarrow> (\<forall>i < length cs. lin_mid (G i) (inp i) (R i) h new (cs ! i)))"

definition lins_write ::
  "(nat \<Rightarrow> ('x, 'g, 'i, 'd, 'y) gdn) \<Rightarrow> (nat \<Rightarrow> u32 list \<Rightarrow> 'x \<times> 'g) \<Rightarrow> (nat \<Rightarrow> bool) \<Rightarrow> u32 list \<Rightarrow> u32 list \<Rightarrow>
   ('x, 'i, 'd) lin_stack \<Rightarrow> ('x, 'i, 'd) lin_stack" where
  "lins_write G inp R h new = map_option (\<lambda>cs. map (\<lambda>i. lin_write (G i) (inp i) (R i) h new (cs ! i)) [0..<length cs])"

lemma lins_mid_first: "lins_at G inp R h lin \<Longrightarrow> lins_mid G inp R h new (lins_write G inp R h new (arm_lin_tapes lin))"
  by (auto simp: lins_at_def lins_mid_def lins_write_def arm_lin_tapes_def intro!: lin_mid_first)

lemma lins_mid_next: "lins_mid G inp R h new lin \<Longrightarrow> lins_mid G inp R h (new @ rest) (lins_write G inp R (h @ new) rest lin)"
  by (auto simp: lins_mid_def lins_write_def intro!: lin_mid_next)

lemma lins_write_at: "lins_at G inp R h lin \<Longrightarrow> lins_at G inp R (h @ new) (lins_write G inp R h new lin)"
proof -
  have one: "lin_at G inp rec (h @ new) (lin_write G inp rec h new c)" if "lin_at G inp rec h c"
    for G :: "('x, 'g, 'i, 'd, 'y) gdn" and inp rec c
  proof (cases rec)
    case True
    with that have "lin_at G inp True h c" by simp
    from lin_forward_at [OF this surjective_pairing] show ?thesis by (simp add: lin_write_def True)
  qed (use that in \<open>simp add: lin_write_def lin_at_def\<close>)
  assume "lins_at G inp R h lin"
  then show ?thesis by (auto simp: lins_at_def lins_write_def intro!: one)
qed

lemma refold_from_mid:
  assumes "\<forall>i < length cs. lin_mid (G (idx + i)) (inp (idx + i)) (R (idx + i)) h new (cs ! i)" "n \<le> length new"
  shows "\<exists>cs' b. refold_from G (length new) n idx cs = Inr (cs', b) \<and> length cs' = length cs \<and>
    (\<forall>i < length cs'. lin_at (G (idx + i)) (inp (idx + i)) (R (idx + i)) (h @ take n new) (cs' ! i))"
  using assms(1)
proof (induction cs arbitrary: idx)
  case (Cons c cs)
  from Cons.prems [rule_format, of 0] have "lin_mid (G idx) (inp idx) (R idx) h new c" by simp
  from refold_mid [OF this assms(2), of idx] obtain c' b where
    c': "refold_layer (G idx) (length new) n idx c = Inr (c', b)" "lin_at (G idx) (inp idx) (R idx) (h @ take n new) c'" by blast
  have "\<forall>i < length cs. lin_mid (G (Suc idx + i)) (inp (Suc idx + i)) (R (Suc idx + i)) h new (cs ! i)"
    using Cons.prems by auto
  from Cons.IH [OF this] obtain cs' b' where
    "refold_from G (length new) n (Suc idx) cs = Inr (cs', b')" "length cs' = length cs"
    "\<forall>i < length cs'. lin_at (G (Suc idx + i)) (inp (Suc idx + i)) (R (Suc idx + i)) (h @ take n new) (cs' ! i)" by blast
  with c' show ?case by (auto simp: less_Suc_eq_0_disj)
qed (auto intro: exI [of _ False])

text \<open>The rollback of a round, full and partial.\<close>

lemma rollback_round_at:
  assumes at: "stack_at S (h @ fed) kv" and gb: "can_give_back h fed S kv" and lin: "lins_mid G inp R h fed lin"
    and n: "0 < n" "n \<le> length fed"
  shows "\<exists>kv' lin' b. rollback_round G kv lin fed (int (length h)) (int (length h + n)) = Inr (kv', lin', b) \<and>
    stack_at S (h @ take n fed) kv' \<and> lins_at G inp R (h @ take n fed) lin'"
proof (cases "n < length fed")
  case True
  from truncate_stack_at [OF at gb n(1) True] obtain kv' where
    kv': "truncate_stack (int (length h + n)) kv = Inr kv'" "stack_at S (h @ take n fed) kv'" by blast
  have kept: "nat (int (length h + n) - int (length h)) = n" by simp
  show ?thesis
  proof (cases lin)
    case None
    with True kv' have "rollback_round G kv lin fed (int (length h)) (int (length h + n)) = Inr (kv', None, False)"
      unfolding rollback_round_def rollback_round_caches_def kept Let_def by simp
    with kv' show ?thesis by (auto simp: lins_at_def)
  next
    case (Some cs)
    with lin have "\<forall>i < length cs. lin_mid (G (0 + i)) (inp (0 + i)) (R (0 + i)) h fed (cs ! i)"
      by (simp add: lins_mid_def)
    from refold_from_mid [OF this n(2)] obtain cs' b where
      "refold_lin_tapes G cs (length fed) n = Inr (cs', b)"
      "\<forall>i < length cs'. lin_at (G i) (inp i) (R i) (h @ take n fed) (cs' ! i)"
      by (auto simp: refold_lin_tapes_def)
    moreover from this(1) Some True kv' have
      "rollback_round G kv lin fed (int (length h)) (int (length h + n)) = Inr (kv', Some cs', b)"
      unfolding rollback_round_def rollback_round_caches_def kept Let_def by simp
    ultimately show ?thesis using kv' by (auto simp: lins_at_def)
  qed
next
  case False
  with n have "n = length fed" by simp
  moreover have "lins_at G inp R (h @ fed) (disarm_lin_tapes lin)"
  proof -
    have one: "lin_at G inp rec (h @ fed) (fst (take_tape c))" if "lin_mid G inp rec h fed c"
      for G :: "('x, 'g, 'i, 'd, 'y) gdn" and inp rec c
      using that by (cases rec) (auto simp: lin_mid_def lin_at_def take_tape_def la_same_def gdn_ok_def gdn_prefix_def gdn_state_in_def)
    from lin show ?thesis by (auto simp: lins_at_def lins_mid_def disarm_lin_tapes_def intro!: one)
  qed
  ultimately show ?thesis using at by (auto simp: rollback_round_def intro: exI [of _ False])
qed

section \<open>Properties\<close>

text \<open>C10: A round's rollback keeps exactly the accepted prefix. From a stack that holds the history
  \<open>h\<close>, a verify forward of at least two positions with the tapes armed, followed by the
  rollback for \<open>accept\<close> accepted proposals, succeeds and leaves every attention layer, rings
  past their wrap included, and every recurrent layer at \<open>h\<close> followed by the carry token and
  the accepted proposals.
\<close>

theorem spec_rollback_exact:
  assumes "stack_at S h kv" "lins_at G inp R h lin" "2 \<le> length fed" "accept < length fed"
  shows "\<exists>kv' lin' b. rollback_round G (map (layer_write fed) kv) (lins_write G inp R h fed (arm_lin_tapes lin)) fed
      (int (length h)) (rollback_target_from_head (int (length h)) accept) = Inr (kv', lin', b) \<and>
    stack_at S (h @ take (Suc accept) fed) kv' \<and> lins_at G inp R (h @ take (Suc accept) fed) lin'"
proof -
  have t: "rollback_target_from_head (int (length h)) accept = int (length h + Suc accept)"
    by (simp add: rollback_target_from_head_def)
  from stack_write_at [OF assms(1,3)] rollback_round_at [OF _ _ lins_mid_first [OF assms(2)], where S = S and fed = fed and n = "Suc accept"
      and kv = "map (layer_write fed) kv"] assms(4)
  show ?thesis unfolding t by auto
qed

section \<open>Samples\<close>

definition full_layer :: "u32 list \<Rightarrow> attn_layer" where
  "full_layer h = \<lparr>al_kv = \<lparr>kl_offset = int (length h), kl_rotating = None, kl_storage_none = False, kl_fp16_k = True,
     kl_fp16_v = True, kl_holds_pages = False, kl_bytes_at = (\<lambda>n. nat n)\<rparr>, al_rows = h, al_writes = True\<rparr>"

definition idle_layer :: attn_layer where "idle_layer = (full_layer [])\<lparr>al_writes := False\<rparr>"

definition ring_layer :: attn_layer where
  "ring_layer = \<lparr>al_kv = (al_kv (full_layer []))\<lparr>kl_rotating := Some (ring_new 3)\<rparr>, al_rows = [], al_writes = True\<rparr>"

lemma sample_stack_at:
  "stack_at [Full, Idle, Window 3] [1, 2, 3, 4] (map (layer_write [1, 2, 3, 4]) [full_layer [], idle_layer, ring_layer])"
proof -
  have "stack_at [Full, Idle, Window 3] [] [full_layer [], idle_layer, ring_layer]"
    using ring_new_rep [of 3] by (auto simp: stack_at_def full_layer_def idle_layer_def ring_layer_def)
  from stack_write_at_any [OF this, of "[1, 2, 3, 4]"] show ?thesis by simp
qed

theorem spec_rollback_exact_witness:
  "\<exists>kv' lin' b. rollback_round (\<lambda>_. sum_gdn)
      (map (layer_write [5, 6, 7]) (map (layer_write [1, 2, 3, 4]) [full_layer [], idle_layer, ring_layer]))
      (lins_write (\<lambda>_. sum_gdn) (\<lambda>_ _. (0, 0)) (\<lambda>_. True) [1, 2, 3, 4] [5, 6, 7] (arm_lin_tapes None)) [5, 6, 7]
      4 (rollback_target_from_head 4 1) = Inr (kv', lin', b) \<and>
    stack_at [Full, Idle, Window 3] [1, 2, 3, 4, 5, 6] kv'"
  using spec_rollback_exact [OF sample_stack_at, of "\<lambda>_. sum_gdn" "\<lambda>_ _. (0, 0)" "\<lambda>_. True" None "[5, 6, 7]" 1]
  by (fastforce simp: lins_at_def)

end
