(* ===== verification/SpecRound.thy ===== *)
theory SpecRound
  imports SpecCaches DecodeLoop PrefillPlan KvCacheType
begin

text \<open>
  The speculative round loop (\<^verbatim>\<open>rmlx-models/src/speculative/round_loop.rs\<close>), generic in its
  drafter, with the emission (\<^verbatim>\<open>round_common.rs\<close>), the draw over the verifier's logits
  (\<^verbatim>\<open>mod.rs\<close>) and the record it closes a request with (\<^verbatim>\<open>round_stats.rs\<close>). A model is a
  parameter: its forward, its prefill bracket and the storage of a fresh cache. So are the
  floating-point parts of the sampler. Clocks, phase charges and log lines are left out; the
  round line is kept as a value.
\<close>

section \<open>The draw over the verifier's logits\<close>

definition u32_of_le :: "u8 list \<Rightarrow> u32" where
  "u32_of_le bs = (ucast (bs ! 0) :: u32) OR push_bit 8 (ucast (bs ! 1)) OR push_bit 16 (ucast (bs ! 2)) OR
     push_bit 24 (ucast (bs ! 3))"

definition u32_to_le :: "u32 \<Rightarrow> u8 list" where
  "u32_to_le w = [ucast w, ucast (drop_bit 8 w), ucast (drop_bit 16 w), ucast (drop_bit 24 w)]"

definition chunk4 :: "u8 list \<Rightarrow> nat \<Rightarrow> u8 list" where "chunk4 bs i = take 4 (drop (4 * i) bs)"

definition argmax_tokens :: "u8 list \<Rightarrow> nat \<Rightarrow> spec_error + u32 list" where
  "argmax_tokens bytes k =
     (if length bytes < k * 4 then Inl (ArgmaxShort (length bytes) k)
      else Inr (map (\<lambda>i. u32_of_le (chunk4 bytes i)) [0..<k]))"

datatype accept_decision = Accept | Reject u32

text \<open>\<open>'lg\<close> is a row of logits, \<open>'pr\<close> a distribution over the vocabulary.\<close>

record ('lg, 'pr, 'lp, 'r) sampler_ops =
  so_argmax :: "'lg \<Rightarrow> u32"
  so_distribution :: "'lg \<Rightarrow> spec_error + 'pr"
  so_sample_index :: "'pr \<Rightarrow> 'r \<Rightarrow> nat \<times> 'r"
  so_accept :: "'pr \<Rightarrow> 'pr \<Rightarrow> u32 \<Rightarrow> 'r \<Rightarrow> spec_error + (accept_decision \<times> 'r)"
  so_top_logprobs :: "'lg \<Rightarrow> u32 \<Rightarrow> nat \<Rightarrow> spec_error + 'lp"

record ('lg, 'r) verifier_draw =
  vw_sampling :: bool
  vw_top_k :: nat
  vw_rng :: 'r
  vw_scored :: "'lg list option"

definition draw_new :: "bool \<Rightarrow> nat \<Rightarrow> 'r \<Rightarrow> ('lg, 'r) verifier_draw" where
  "draw_new smp k r = \<lparr>vw_sampling = smp, vw_top_k = k, vw_rng = r, vw_scored = None\<rparr>"

definition needs_full_rows :: "('lg, 'r) verifier_draw \<Rightarrow> bool" where
  "needs_full_rows w \<longleftrightarrow> vw_sampling w \<or> 0 < vw_top_k w"

definition keep_scored :: "'lg list \<Rightarrow> ('lg, 'r) verifier_draw \<Rightarrow> ('lg, 'r) verifier_draw" where
  "keep_scored rows w = (if 0 < vw_top_k w then w\<lparr>vw_scored := Some rows\<rparr> else w)"

definition take_scored :: "('lg, 'r) verifier_draw \<Rightarrow> spec_error + (('lg, 'r) verifier_draw \<times> 'lg list option)" where
  "take_scored w =
     (if vw_top_k w = 0 then Inr (w, None)
      else (case vw_scored w of None \<Rightarrow> Inl NotScored | Some b \<Rightarrow> Inr (w\<lparr>vw_scored := None\<rparr>, Some b)))"

definition draw_row ::
  "('lg, 'pr, 'lp, 'r) sampler_ops \<Rightarrow> 'lg \<Rightarrow> 'r \<Rightarrow> spec_error + (u32 \<times> 'r)" where
  "draw_row Z row r =
     (case so_distribution Z row of
        Inl e \<Rightarrow> Inl e | Inr p \<Rightarrow> (case so_sample_index Z p r of (i, r) \<Rightarrow> Inr (of_nat i, r)))"

fun draw_rows ::
  "('lg, 'pr, 'lp, 'r) sampler_ops \<Rightarrow> 'lg list \<Rightarrow> 'r \<Rightarrow> spec_error + (u32 list \<times> 'r)" where
  "draw_rows Z [] r = Inr ([], r)"
| "draw_rows Z (row # rows) r =
     (case draw_row Z row r of
        Inl e \<Rightarrow> Inl e
      | Inr (t, r) \<Rightarrow> (case draw_rows Z rows r of Inl e \<Rightarrow> Inl e | Inr (ts, r) \<Rightarrow> Inr (t # ts, r)))"

definition argmax_bytes :: "('lg, 'pr, 'lp, 'r) sampler_ops \<Rightarrow> 'lg list \<Rightarrow> u8 list" where
  "argmax_bytes Z rows = concat (map (u32_to_le \<circ> so_argmax Z) rows)"

definition seed_token ::
  "('lg, 'pr, 'lp, 'r) sampler_ops \<Rightarrow> 'lg \<Rightarrow> ('lg, 'r) verifier_draw \<Rightarrow> spec_error + (u32 \<times> ('lg, 'r) verifier_draw)" where
  "seed_token Z row w =
     (let w = keep_scored [row] w in
      if \<not> vw_sampling w then
        (case argmax_tokens (argmax_bytes Z [row]) 1 of
           Inl e \<Rightarrow> Inl e | Inr [] \<Rightarrow> Inl ModelFailed | Inr (t # _) \<Rightarrow> Inr (t, w))
      else (case draw_row Z row (vw_rng w) of Inl e \<Rightarrow> Inl e | Inr (t, r) \<Rightarrow> Inr (t, w\<lparr>vw_rng := r\<rparr>)))"

definition block_tokens ::
  "('lg, 'pr, 'lp, 'r) sampler_ops \<Rightarrow> 'lg list \<Rightarrow> nat \<Rightarrow> ('lg, 'r) verifier_draw \<Rightarrow>
   spec_error + (u32 list \<times> ('lg, 'r) verifier_draw)" where
  "block_tokens Z rows v_k w =
     (let w = keep_scored rows w in
      if \<not> vw_sampling w then
        (case argmax_tokens (argmax_bytes Z rows) v_k of Inl e \<Rightarrow> Inl e | Inr ts \<Rightarrow> Inr (ts, w))
      else (case draw_rows Z (take v_k rows) (vw_rng w) of
          Inl e \<Rightarrow> Inl e | Inr (ts, r) \<Rightarrow> Inr (ts, w\<lparr>vw_rng := r\<rparr>)))"

definition block_distributions ::
  "('lg, 'pr, 'lp, 'r) sampler_ops \<Rightarrow> 'lg list \<Rightarrow> nat \<Rightarrow> ('lg, 'r) verifier_draw \<Rightarrow>
   spec_error + ('pr list \<times> ('lg, 'r) verifier_draw)" where
  "block_distributions Z rows v_k w =
     (let w = keep_scored rows w in
      case collect_results (so_distribution Z) (take v_k rows) of Inl e \<Rightarrow> Inl e | Inr ps \<Rightarrow> Inr (ps, w))"

definition draw_proposal ::
  "('lg, 'pr, 'lp, 'r) sampler_ops \<Rightarrow> 'lg \<Rightarrow> ('lg, 'r) verifier_draw \<Rightarrow>
   spec_error + (u32 \<times> 'pr \<times> ('lg, 'r) verifier_draw)" where
  "draw_proposal Z row w =
     (case so_distribution Z row of
        Inl e \<Rightarrow> Inl e
      | Inr q \<Rightarrow> (case so_sample_index Z q (vw_rng w) of (i, r) \<Rightarrow> Inr (of_nat i, q, w\<lparr>vw_rng := r\<rparr>)))"

text \<open>\<open>block_row\<close> of a short block is a slice past its end, which the array library refuses.\<close>

definition scored_logprobs ::
  "('lg, 'pr, 'lp, 'r) sampler_ops \<Rightarrow> nat \<Rightarrow> 'lg list \<Rightarrow> nat \<Rightarrow> u32 \<Rightarrow> spec_error + 'lp" where
  "scored_logprobs Z top_k rows row t =
     (if length rows \<le> row then Inl (RowNotScored row (length rows)) else so_top_logprobs Z (rows ! row) t top_k)"

section \<open>Rules of a round\<close>

definition MAX_BLOCK_SIZE :: nat where "MAX_BLOCK_SIZE = 1024"
definition DEFAULT_BLOCK_SIZE :: nat where "DEFAULT_BLOCK_SIZE = 5"

definition drafts_per_round :: "nat \<Rightarrow> nat" where "drafts_per_round block = block - 1"

definition two_model_drafts_per_round :: "nat \<Rightarrow> nat" where
  "two_model_drafts_per_round k = min k (MAX_BLOCK_SIZE - 1)"

definition round_block :: "nat \<Rightarrow> nat \<Rightarrow> nat" where
  "round_block block_total remaining = max (min block_total (remaining + 1)) 2"

fun accept_walk :: "u32 list \<Rightarrow> u32 list \<Rightarrow> nat \<Rightarrow> nat \<times> u32 list" where
  "accept_walk [] ds budget = (0, [])"
| "accept_walk (v # vs) ds budget =
     (let shown = (if 0 < budget then [v] else []) in
      case ds of
        [] \<Rightarrow> (0, shown)
      | d # ds \<Rightarrow>
          if d = v then (case accept_walk vs ds (budget - 1) of (a, rest) \<Rightarrow> (Suc a, shown @ rest))
          else (0, shown))"

definition accept_prefix :: "u32 list \<Rightarrow> u32 list \<Rightarrow> nat \<Rightarrow> spec_error + (nat \<times> u32 list)" where
  "accept_prefix verifier_tokens draft_tokens budget =
     (if length verifier_tokens \<noteq> length draft_tokens + 1
      then Inl (AcceptLengths (length verifier_tokens) (length draft_tokens))
      else Inr (accept_walk verifier_tokens draft_tokens budget))"

definition guard_restricted_prefix :: "bool \<Rightarrow> nat \<Rightarrow> nat \<Rightarrow> spec_error + unit" where
  "guard_restricted_prefix declared restricted accept =
     (if \<not> declared \<and> 0 < restricted \<or> accept < restricted then Inl (RestrictedPrefix restricted accept) else Inr ())"

section \<open>Emission\<close>

datatype decided_by = RestrictedVocab | FullVocab

text \<open>
  What the request's sink has received: the state of its callback, the steps, the tokens counted
  at the emit site of the rounds, the marks of the decode window and the attribution buffer.
\<close>

record ('s, 'lp) sink =
  sk_cb :: 's
  sk_steps :: "'lp probe_step list"
  sk_in_rounds :: nat
  sk_marks :: nat
  sk_decided :: "decided_by list option"

record ('s, 'lp, 'r) round_cfg =
  cf_block_size :: nat
  cf_n_tokens :: nat
  cf_eos_ids :: "u32 list"
  cf_step_fn :: "'s \<Rightarrow> 'lp probe_step \<Rightarrow> 's \<times> step_verdict"
  cf_id_to_token :: "u32 \<Rightarrow> string option"
  cf_sampling :: bool
  cf_top_k :: nat
  cf_rng :: 'r
  cf_kv_quant :: "kv_quant option"
  cf_max_ctx :: "int option"
  cf_chunk_override :: nat
  cf_env :: "string \<Rightarrow> nat option"

definition emit_step ::
  "('s, 'lp, 'r) round_cfg \<Rightarrow> u32 \<Rightarrow> 'lp option \<Rightarrow> ('s, 'lp) sink \<Rightarrow> ('s, 'lp) sink \<times> emitted" where
  "emit_step C t lp sk =
     (let piece = (case cf_id_to_token C t of Some p \<Rightarrow> p | None \<Rightarrow> unk_piece t);
          step = \<lparr>ps_token_id = t, ps_piece = piece, ps_nan_count = 0, ps_logprobs = lp\<rparr>
      in case emit_token (cf_step_fn C) (sk_cb sk) (sk_steps sk) (cf_eos_ids C) step of
           (cb, steps, em) \<Rightarrow> (sk\<lparr>sk_cb := cb, sk_steps := steps, sk_marks := sk_marks sk + 1\<rparr>, em))"

definition row_logprobs ::
  "('lg, 'pr, 'lp, 'r) sampler_ops \<Rightarrow> nat \<Rightarrow> 'lg list option \<Rightarrow> nat \<Rightarrow> u32 \<Rightarrow> spec_error + 'lp option" where
  "row_logprobs Z top_k scored i t =
     (case scored of
        None \<Rightarrow> Inr None
      | Some rows \<Rightarrow> (case scored_logprobs Z top_k rows i t of Inl e \<Rightarrow> Inl e | Inr lp \<Rightarrow> Inr (Some lp)))"

definition attribute :: "decided_by \<Rightarrow> ('s, 'lp) sink \<Rightarrow> ('s, 'lp) sink" where
  "attribute d sk = sk\<lparr>sk_decided := map_option (\<lambda>buf. buf @ [d]) (sk_decided sk)\<rparr>"

text \<open>The loop over the tokens of a round from its token \<open>i\<close> on: the committed count and whether one ended the request.\<close>

fun emit_from ::
  "('lg, 'pr, 'lp, 'r) sampler_ops \<Rightarrow> ('s, 'lp, 'r) round_cfg \<Rightarrow> 'lg list option \<Rightarrow> nat \<Rightarrow> nat \<Rightarrow> nat \<Rightarrow> u32 list \<Rightarrow>
   ('s, 'lp) sink \<Rightarrow> spec_error + (('s, 'lp) sink \<times> nat \<times> bool)" where
  "emit_from Z C scored n_tokens restricted i [] sk = Inr (sk, i, False)"
| "emit_from Z C scored n_tokens restricted i (t # ts) sk =
     (if n_tokens \<le> length (sk_steps sk) then Inr (sk, i, False)
      else (case row_logprobs Z (cf_top_k C) scored i t of
          Inl e \<Rightarrow> Inl e
        | Inr lp \<Rightarrow>
            (case emit_step C t lp sk of
               (sk, shown) \<Rightarrow>
                 let sk = attribute (if i < restricted then RestrictedVocab else FullVocab) sk;
                     sk = sk\<lparr>sk_in_rounds := sk_in_rounds sk + 1\<rparr>
                 in if em_ends shown then Inr (sk, Suc i, True)
                    else emit_from Z C scored n_tokens restricted (Suc i) ts sk)))"

definition emit_round_tokens ::
  "('lg, 'pr, 'lp, 'r) sampler_ops \<Rightarrow> ('s, 'lp, 'r) round_cfg \<Rightarrow> 'lg list option \<Rightarrow> nat \<Rightarrow> nat \<Rightarrow> u32 list \<Rightarrow>
   ('s, 'lp) sink \<Rightarrow> spec_error + (('s, 'lp) sink \<times> nat \<times> bool)" where
  "emit_round_tokens Z C scored n_tokens restricted ts sk = emit_from Z C scored n_tokens restricted 0 ts sk"

definition emit_seed_token ::
  "('lg, 'pr, 'lp, 'r) sampler_ops \<Rightarrow> ('s, 'lp, 'r) round_cfg \<Rightarrow> 'lg list option \<Rightarrow> u32 \<Rightarrow> ('s, 'lp) sink \<Rightarrow>
   spec_error + (('s, 'lp) sink \<times> bool)" where
  "emit_seed_token Z C scored t sk =
     (case row_logprobs Z (cf_top_k C) scored 0 t of
        Inl e \<Rightarrow> Inl e
      | Inr lp \<Rightarrow> (case emit_step C t lp sk of (sk, shown) \<Rightarrow> Inr (sk, em_ends shown)))"

section \<open>The record of a request\<close>

record round_stats =
  st_block_size :: nat
  st_rounds :: nat
  st_emitted :: nat
  st_emitted_in_rounds :: nat
  st_seed_emitted :: nat
  st_conditioned_rows :: "nat option"
  st_total_draft :: nat
  st_total_accept :: nat

definition seed_violation :: "round_stats \<Rightarrow> bool" where
  "seed_violation s \<longleftrightarrow>
     st_seed_emitted s + st_emitted_in_rounds s \<noteq> st_emitted s \<or>
     st_total_accept s + st_rounds s < st_emitted_in_rounds s"

definition conditioning_violation :: "round_stats \<Rightarrow> bool" where
  "conditioning_violation s \<longleftrightarrow>
     (case st_conditioned_rows s of
        None \<Rightarrow> False
      | Some rows \<Rightarrow> rows < st_emitted_in_rounds s - st_block_size s \<or> st_emitted_in_rounds s + st_block_size s < rows)"

section \<open>A model and its caches\<close>

text \<open>
  What the loop uses of an architecture. \<open>ar_storage\<close> is a fresh cache of a codec and a ceiling;
  \<open>ar_writes\<close> is false for a layer whose cache no forward writes. \<open>ar_forward_seq\<close> gives the
  logits of the last \<open>k\<close> positions, \<open>ar_forward_arr\<close> those of the last one.
\<close>

record ('x, 'g, 'i, 'd, 'y, 'lg) arch =
  ar_class :: string
  ar_limits :: context_limits
  ar_layers :: nat
  ar_window :: "nat \<Rightarrow> int option"
  ar_writes :: "nat \<Rightarrow> bool"
  ar_storage :: "kv_quant \<Rightarrow> int \<Rightarrow> (u32, u32) kv_layer"
  ar_needs_lin :: bool
  ar_gdn :: "nat \<Rightarrow> ('x, 'g, 'i, 'd, 'y) gdn"
  ar_prefill :: "(attn_layer, spec_error) prefill_ops"
  ar_forward_seq :: "u32 list \<Rightarrow> nat \<Rightarrow> attn_layer list \<Rightarrow> ('x, 'i, 'd) lin_stack \<Rightarrow>
    spec_error + (attn_layer list \<times> ('x, 'i, 'd) lin_stack \<times> 'lg list)"
  ar_forward_arr :: "u32 list \<Rightarrow> attn_layer list \<Rightarrow> ('x, 'i, 'd) lin_stack \<Rightarrow>
    spec_error + (attn_layer list \<times> ('x, 'i, 'd) lin_stack \<times> 'lg)"

definition cache_layer :: "('x, 'g, 'i, 'd, 'y, 'lg) arch \<Rightarrow> kv_quant \<Rightarrow> int \<Rightarrow> nat \<Rightarrow> attn_layer" where
  "cache_layer A q max_seq i =
     \<lparr>al_kv = (ar_storage A q max_seq)\<lparr>kl_offset := 0, kl_rotating :=
         (case ar_window A i of Some w \<Rightarrow> if 0 < w then Some (ring_new w) else None | None \<Rightarrow> None)\<rparr>,
      al_rows = [], al_writes = ar_writes A i\<rparr>"

definition cache_stack :: "('x, 'g, 'i, 'd, 'y, 'lg) arch \<Rightarrow> kv_quant \<Rightarrow> int \<Rightarrow> attn_layer list" where
  "cache_stack A q max_seq = map (cache_layer A q max_seq) [0..<ar_layers A]"

definition lin_cache_stack :: "('x, 'g, 'i, 'd, 'y, 'lg) arch \<Rightarrow> ('x, 'i, 'd) lin_attn list" where
  "lin_cache_stack A = replicate (ar_layers A) la_new"

definition lin_stack_of :: "('x, 'g, 'i, 'd, 'y, 'lg) arch \<Rightarrow> ('x, 'i, 'd) lin_stack" where
  "lin_stack_of A = (if ar_needs_lin A then Some (lin_cache_stack A) else None)"

definition verifier_cache_stack ::
  "('x, 'g, 'i, 'd, 'y, 'lg) arch \<Rightarrow> kv_quant option \<Rightarrow> int option \<Rightarrow>
   spec_error + (kv_quant \<times> resolved_context \<times> attn_layer list)" where
  "verifier_cache_stack A kv_quant_override max_ctx_override =
     (let q = (case kv_quant_override of Some q \<Rightarrow> q | None \<Rightarrow> DEFAULT_KV_QUANT) in
      case resolve_ceiling (ar_limits A) max_ctx_override of
        Inl e \<Rightarrow> Inl (ContextRefused e)
      | Inr r \<Rightarrow> Inr (q, r, cache_stack A q (rc_ceiling r)))"

text \<open>The head of a prompt through a model in chunks, inside the prefill bracket.\<close>

definition prefill_failure :: "spec_error prefill_error \<Rightarrow> spec_error" where
  "prefill_failure e =
     (case e of prefill_error.Cancelled \<Rightarrow> RoundCancelled | prefill_error.Failed e \<Rightarrow> e | NoLogits \<Rightarrow> ModelFailed)"

definition forward_chunk ::
  "('x, 'g, 'i, 'd, 'y, 'lg) arch \<Rightarrow> u32 list \<Rightarrow> attn_layer list \<times> ('x, 'i, 'd) lin_stack \<Rightarrow>
   (spec_error + unit) \<times> attn_layer list \<times> ('x, 'i, 'd) lin_stack" where
  "forward_chunk A chunk s =
     (case ar_forward_seq A chunk 1 (fst s) (snd s) of Inl e \<Rightarrow> (Inl e, s) | Inr (kv, lin, _) \<Rightarrow> (Inr (), kv, lin))"

definition prefill_chunked ::
  "('x, 'g, 'i, 'd, 'y, 'lg) arch \<Rightarrow> nat \<Rightarrow> (string \<Rightarrow> nat option) \<Rightarrow> (nat \<Rightarrow> bool) \<Rightarrow> u32 list \<Rightarrow> nat \<Rightarrow>
   attn_layer list \<Rightarrow> ('x, 'i, 'd) lin_stack \<Rightarrow> spec_error + (attn_layer list \<times> ('x, 'i, 'd) lin_stack)" where
  "prefill_chunked A runtime env cancel tokens prompt_len kv lin =
     (if prompt_len < length tokens \<or> length tokens + 1 < prompt_len then Inl (PrefillHead prompt_len (length tokens))
      else
        let cutp = (case lin of None \<Rightarrow> None | Some _ \<Rightarrow> anchor_target prompt_len 0);
            chunk = fst (resolve_with runtime (module_key_for_class (ar_class A)) env)
        in (case prefill_chunked_with (ar_prefill A) cancel (forward_chunk A) tokens
                   (prefill_pieces 0 (length tokens) chunk cutp) (kv, lin) of
              (Inl e, _, _) \<Rightarrow> Inl (prefill_failure e)
            | (Inr _, s, _) \<Rightarrow> Inr s))"

section \<open>Drafters\<close>

datatype report_skipped_by = TheSeedExit | TheInRoundExit
datatype verifier_offset_basis = BeforeTheForward | AfterTheForward

record cache_span =
  sp_before :: int
  sp_target :: int

record conditioning =
  cn_rows :: "int option"
  cn_projected :: "int option"

record round_outcome =
  ro_round :: nat
  ro_committed :: nat
  ro_verifier_target :: int
  ro_carry :: u32

record ('x, 'i, 'd, 'lg, 'r) round_ctx =
  cx_kv :: "attn_layer list"
  cx_lin :: "('x, 'i, 'd) lin_stack"
  cx_max_seq :: int
  cx_kv_quant :: kv_quant
  cx_draw :: "('lg, 'r) verifier_draw"

datatype seed = Emitted u32 | Carried u32

record prefilled =
  pd_seed :: seed
  pd_restricted_read_back :: bool
  pd_projects_conditioning :: bool

record verdict =
  vd_accept :: nat
  vd_commit :: "u32 list"
  vd_restricted :: nat

text \<open>
  The trait of a drafter. Its rollback and its conditioning read the context and cannot move it;
  \<open>rd_carry\<close> says whether the drafter handed its list over.
\<close>

record ('dr, 'x, 'i, 'd, 'lg, 'r) round_drafter =
  rd_kv_report_skipped_by :: report_skipped_by
  rd_offset_basis :: verifier_offset_basis
  rd_prefill :: "'dr \<Rightarrow> ('x, 'i, 'd, 'lg, 'r) round_ctx \<Rightarrow> u32 list \<Rightarrow> (nat \<Rightarrow> bool) \<Rightarrow>
    spec_error + ('dr \<times> ('x, 'i, 'd, 'lg, 'r) round_ctx \<times> prefilled)"
  rd_block :: "'dr \<Rightarrow> nat \<Rightarrow> nat \<Rightarrow> nat"
  rd_propose :: "'dr \<Rightarrow> ('x, 'i, 'd, 'lg, 'r) round_ctx \<Rightarrow> u32 \<Rightarrow> nat \<Rightarrow>
    spec_error + ('dr \<times> ('x, 'i, 'd, 'lg, 'r) round_ctx \<times> u32 list)"
  rd_verify :: "'dr \<Rightarrow> ('x, 'i, 'd, 'lg, 'r) round_ctx \<Rightarrow> u32 list \<Rightarrow> nat \<Rightarrow>
    spec_error + ('dr \<times> ('x, 'i, 'd, 'lg, 'r) round_ctx \<times> verdict)"
  rd_rollback :: "'dr \<Rightarrow> ('x, 'i, 'd, 'lg, 'r) round_ctx \<Rightarrow> verdict \<Rightarrow> round_outcome \<Rightarrow>
    spec_error + ('dr \<times> cache_span option)"
  rd_condition :: "'dr \<Rightarrow> ('x, 'i, 'd, 'lg, 'r) round_ctx \<Rightarrow> verdict \<Rightarrow> round_outcome \<Rightarrow>
    spec_error + ('dr \<times> conditioning option)"
  rd_carry :: "'dr \<Rightarrow> spec_error + bool"

section \<open>The round loop\<close>

text \<open>\<open>try_bind\<close> is the \<^verbatim>\<open>?\<close> of a fallible call.\<close>

fun try_bind :: "'e + 'a \<Rightarrow> ('a \<Rightarrow> 'e + 'b) \<Rightarrow> 'e + 'b" where
  "try_bind (Inl e) f = Inl e"
| "try_bind (Inr x) f = f x"

lemma try_bind_Inr: "try_bind r f = Inr y \<longleftrightarrow> (\<exists>x. r = Inr x \<and> f x = Inr y)"
  by (cases r) auto

record round_report =
  rp_round :: nat
  rp_accept :: nat
  rp_num_draft :: nat
  rp_committed :: nat
  rp_emitted_total :: nat
  rp_condition_rows :: "int option"
  rp_projected_rows :: "int option"
  rp_v_offset_before :: int
  rp_v_target :: int
  rp_d_offset_before :: "int option"
  rp_d_target :: "int option"
  rp_refolded :: bool

record ('dr, 'x, 'i, 'd, 'lg, 'r, 's, 'lp) round_state =
  rl_drafter :: 'dr
  rl_ctx :: "('x, 'i, 'd, 'lg, 'r) round_ctx"
  rl_sink :: "('s, 'lp) sink"
  rl_carry :: u32
  rl_rounds :: nat
  rl_draft :: nat
  rl_accept :: nat
  rl_widest :: nat
  rl_conditioned :: "nat option"
  rl_log :: "round_report list"

definition add_projected :: "nat option \<Rightarrow> int option \<Rightarrow> nat option" where
  "add_projected sofar projected =
     (case (sofar, projected) of (Some n, Some p) \<Rightarrow> Some (n + nat (max p 0)) | (t, _) \<Rightarrow> t)"

text \<open>
  One round. The first half drafts, verifies and emits; \<open>True\<close> is the break of a token that
  ended the request, which leaves the caches where the verify forward put them.
\<close>

definition round_emit ::
  "('lg, 'pr, 'lp, 'r) sampler_ops \<Rightarrow> ('dr, 'x, 'i, 'd, 'lg, 'r) round_drafter \<Rightarrow> ('s, 'lp, 'r) round_cfg \<Rightarrow>
   nat \<Rightarrow> bool \<Rightarrow> ('dr, 'x, 'i, 'd, 'lg, 'r, 's, 'lp) round_state \<Rightarrow>
   spec_error + (('dr, 'x, 'i, 'd, 'lg, 'r, 's, 'lp) round_state \<times> u32 list \<times> int \<times> int \<times> verdict \<times> nat \<times> bool)" where
  "round_emit Z D C n_tokens restricted_rb st =
     (let remaining = n_tokens - length (sk_steps (rl_sink st));
          bs = rd_block D (rl_drafter st) (cf_block_size C) remaining;
          rounds = rl_rounds st + 1
      in try_bind (rd_propose D (rl_drafter st) (rl_ctx st) (rl_carry st) bs) (\<lambda>(d, cx, draft_tokens).
         if draft_tokens = [] then Inl EmptyChain
         else let fed = rl_carry st # draft_tokens in
           try_bind (stack_offset (cx_kv cx)) (\<lambda>pre.
           try_bind (rd_verify D d (cx\<lparr>cx_lin := arm_lin_tapes (cx_lin cx)\<rparr>) fed remaining) (\<lambda>(d, cx, v).
           try_bind (stack_offset (cx_kv cx)) (\<lambda>post.
           try_bind (guard_round_advance rounds pre post (length fed)) (\<lambda>_.
           try_bind (guard_restricted_prefix restricted_rb (vd_restricted v) (vd_accept v)) (\<lambda>_.
           try_bind (take_scored (cx_draw cx)) (\<lambda>(w, scored).
           try_bind (emit_round_tokens Z C scored n_tokens (vd_restricted v) (vd_commit v) (rl_sink st)) (\<lambda>(sk, committed, ended).
             Inr (st\<lparr>rl_drafter := d, rl_ctx := cx\<lparr>cx_draw := w\<rparr>, rl_sink := sk, rl_rounds := rounds,
                    rl_draft := rl_draft st + length draft_tokens, rl_accept := rl_accept st + vd_accept v,
                    rl_widest := max (rl_widest st) bs\<rparr>, fed, pre, post, v, committed, ended))))))))))"

definition round_settle ::
  "('x, 'g, 'i, 'd, 'y, 'lg) arch \<Rightarrow> ('dr, 'x, 'i, 'd, 'lg, 'r) round_drafter \<Rightarrow> u32 list \<Rightarrow> int \<Rightarrow> int \<Rightarrow> verdict \<Rightarrow>
   nat \<Rightarrow> ('dr, 'x, 'i, 'd, 'lg, 'r, 's, 'lp) round_state \<Rightarrow>
   spec_error + ('dr, 'x, 'i, 'd, 'lg, 'r, 's, 'lp) round_state" where
  "round_settle A D fed pre post v committed st =
     (let v_target = rollback_target_from_head pre (vd_accept v);
          cx = rl_ctx st
      in try_bind (rollback_round (ar_gdn A) (cx_kv cx) (cx_lin cx) fed pre v_target) (\<lambda>(kv, lin, refolded).
         let cx = cx\<lparr>cx_kv := kv, cx_lin := lin\<rparr>;
             carry = (if vd_commit v = [] then rl_carry st else last (vd_commit v));
             outcome = \<lparr>ro_round = rl_rounds st, ro_committed = committed, ro_verifier_target = v_target, ro_carry = carry\<rparr>
         in try_bind (rd_rollback D (rl_drafter st) cx v outcome) (\<lambda>(d, span).
            try_bind (rd_condition D d cx v outcome) (\<lambda>(d, cond).
            let projected = (case cond of None \<Rightarrow> None | Some c \<Rightarrow> cn_projected c) in
            if projected \<noteq> None \<and> rl_conditioned st = None then Inl UndeclaredProjection
            else try_bind (rd_carry D d) (\<lambda>lined.
              if \<not> lined then Inl CarryNotHanded
              else Inr (st\<lparr>rl_drafter := d, rl_ctx := cx, rl_carry := carry,
                     rl_conditioned := add_projected (rl_conditioned st) projected,
                     rl_log := rl_log st @ [\<lparr>rp_round = rl_rounds st, rp_accept = vd_accept v, rp_num_draft = length fed - 1,
                       rp_committed = committed, rp_emitted_total = length (sk_steps (rl_sink st)),
                       rp_condition_rows = (case cond of None \<Rightarrow> None | Some c \<Rightarrow> cn_rows c), rp_projected_rows = projected,
                       rp_v_offset_before = (case rd_offset_basis D of BeforeTheForward \<Rightarrow> pre | AfterTheForward \<Rightarrow> post),
                       rp_v_target = v_target, rp_d_offset_before = map_option sp_before span,
                       rp_d_target = map_option sp_target span, rp_refolded = refolded\<rparr>]\<rparr>))))))"

definition round_step ::
  "('lg, 'pr, 'lp, 'r) sampler_ops \<Rightarrow> ('x, 'g, 'i, 'd, 'y, 'lg) arch \<Rightarrow> ('dr, 'x, 'i, 'd, 'lg, 'r) round_drafter \<Rightarrow>
   ('s, 'lp, 'r) round_cfg \<Rightarrow> nat \<Rightarrow> bool \<Rightarrow> ('dr, 'x, 'i, 'd, 'lg, 'r, 's, 'lp) round_state \<Rightarrow>
   spec_error + (('dr, 'x, 'i, 'd, 'lg, 'r, 's, 'lp) round_state \<times> bool)" where
  "round_step Z A D C n_tokens restricted_rb st =
     try_bind (round_emit Z D C n_tokens restricted_rb st) (\<lambda>(st, fed, pre, post, v, committed, ended).
       if ended then Inr (st, True)
       else try_bind (round_settle A D fed pre post v committed st) (\<lambda>st. Inr (st, False)))"

text \<open>A drafter whose rounds commit nothing would keep the loop going for ever: not returning is \<^term>\<open>None\<close>.\<close>

partial_function (option) round_loop ::
  "('lg, 'pr, 'lp, 'r) sampler_ops \<Rightarrow> ('x, 'g, 'i, 'd, 'y, 'lg) arch \<Rightarrow> ('dr, 'x, 'i, 'd, 'lg, 'r) round_drafter \<Rightarrow>
   ('s, 'lp, 'r) round_cfg \<Rightarrow> nat \<Rightarrow> bool \<Rightarrow> (nat \<Rightarrow> bool) \<Rightarrow> ('dr, 'x, 'i, 'd, 'lg, 'r, 's, 'lp) round_state \<Rightarrow>
   (spec_error + (('dr, 'x, 'i, 'd, 'lg, 'r, 's, 'lp) round_state \<times> bool)) option" where
  "round_loop Z A D C n_tokens restricted_rb cancel st =
     (if n_tokens \<le> length (sk_steps (rl_sink st)) then Some (Inr (st, False))
      else if cancel (rl_rounds st) then Some (Inl RoundCancelled)
      else (case round_step Z A D C n_tokens restricted_rb st of
          Inl e \<Rightarrow> Some (Inl e)
        | Inr (st, ended) \<Rightarrow>
            if ended then Some (Inr (st, True)) else round_loop Z A D C n_tokens restricted_rb cancel st))"

declare round_loop.simps [code]

record ('dr, 'x, 'i, 'd, 'lg, 'r, 's, 'lp) run_outcome =
  ru_state :: "('dr, 'x, 'i, 'd, 'lg, 'r, 's, 'lp) round_state"
  ru_widest :: nat
  ru_kv_reported :: bool
  ru_stats :: round_stats

definition stats_of :: "('s, 'lp, 'r) round_cfg \<Rightarrow> nat \<Rightarrow> ('dr, 'x, 'i, 'd, 'lg, 'r, 's, 'lp) round_state \<Rightarrow> round_stats" where
  "stats_of C seed_emitted st =
     \<lparr>st_block_size = cf_block_size C, st_rounds = rl_rounds st, st_emitted = length (sk_steps (rl_sink st)),
      st_emitted_in_rounds = sk_in_rounds (rl_sink st), st_seed_emitted = seed_emitted,
      st_conditioned_rows = rl_conditioned st, st_total_draft = rl_draft st, st_total_accept = rl_accept st\<rparr>"

text \<open>The part before the loop: \<open>True\<close> when the seed ended the request.\<close>

definition run_start ::
  "('lg, 'pr, 'lp, 'r) sampler_ops \<Rightarrow> ('x, 'g, 'i, 'd, 'y, 'lg) arch \<Rightarrow> ('dr, 'x, 'i, 'd, 'lg, 'r) round_drafter \<Rightarrow>
   ('s, 'lp, 'r) round_cfg \<Rightarrow> (nat \<Rightarrow> bool) \<Rightarrow> 'dr \<Rightarrow> u32 list \<Rightarrow> decided_by list option \<Rightarrow> 's \<Rightarrow>
   spec_error + (('dr, 'x, 'i, 'd, 'lg, 'r, 's, 'lp) round_state \<times> nat \<times> bool \<times> bool)" where
  "run_start Z A D C cancel d prompt decided cb =
     try_bind (verifier_cache_stack A (cf_kv_quant C) (cf_max_ctx C)) (\<lambda>(q, r, kv).
     try_bind (case decode_budget r (length prompt) (cf_n_tokens C) of Inl e \<Rightarrow> Inl (ContextRefused e) | Inr n \<Rightarrow> Inr n) (\<lambda>n_tokens.
     try_bind (rd_prefill D d \<lparr>cx_kv = kv, cx_lin = lin_stack_of A, cx_max_seq = rc_ceiling r, cx_kv_quant = q,
                 cx_draw = draw_new (cf_sampling C) (cf_top_k C) (cf_rng C)\<rparr> prompt cancel) (\<lambda>(d, cx, pd).
       let conditioned = (if pd_projects_conditioning pd then Some 0 else None);
           carry = (case pd_seed pd of Emitted t \<Rightarrow> t | Carried t \<Rightarrow> t);
           st = \<lparr>rl_drafter = d, rl_ctx = cx, rl_sink = \<lparr>sk_cb = cb, sk_steps = [], sk_in_rounds = 0, sk_marks = 0, sk_decided = decided\<rparr>,
                 rl_carry = carry, rl_rounds = 0, rl_draft = 0, rl_accept = 0, rl_widest = 0, rl_conditioned = conditioned,
                 rl_log = []\<rparr>
       in (case pd_seed pd of
             Carried _ \<Rightarrow> Inr (st, n_tokens, pd_restricted_read_back pd, False)
           | Emitted t \<Rightarrow>
               try_bind (take_scored (cx_draw cx)) (\<lambda>(w, scored).
               try_bind (emit_seed_token Z C scored t (attribute FullVocab (rl_sink st))) (\<lambda>(sk, ends).
                 Inr (st\<lparr>rl_ctx := cx\<lparr>cx_draw := w\<rparr>, rl_sink := sk\<rparr>, n_tokens, pd_restricted_read_back pd, ends)))))))"

definition run_rounds ::
  "('lg, 'pr, 'lp, 'r) sampler_ops \<Rightarrow> ('x, 'g, 'i, 'd, 'y, 'lg) arch \<Rightarrow> ('dr, 'x, 'i, 'd, 'lg, 'r) round_drafter \<Rightarrow>
   ('s, 'lp, 'r) round_cfg \<Rightarrow> (nat \<Rightarrow> bool) \<Rightarrow> (nat \<Rightarrow> bool) \<Rightarrow> 'dr \<Rightarrow> u32 list \<Rightarrow> decided_by list option \<Rightarrow> 's \<Rightarrow>
   (spec_error + ('dr, 'x, 'i, 'd, 'lg, 'r, 's, 'lp) run_outcome) option" where
  "run_rounds Z A D C cancel_prefill cancel_round d prompt decided cb =
     (case run_start Z A D C cancel_prefill d prompt decided cb of
        Inl e \<Rightarrow> Some (Inl e)
      | Inr (st, n_tokens, restricted_rb, ended) \<Rightarrow>
          let seed_emitted = length (sk_steps (rl_sink st)) in
          if ended then
            Some (Inr \<lparr>ru_state = st, ru_widest = cf_block_size C,
                       ru_kv_reported = (rd_kv_report_skipped_by D \<noteq> TheSeedExit), ru_stats = stats_of C seed_emitted st\<rparr>)
          else (case round_loop Z A D C n_tokens restricted_rb cancel_round st of
              None \<Rightarrow> None
            | Some (Inl e) \<Rightarrow> Some (Inl e)
            | Some (Inr (st, stopped_in_round)) \<Rightarrow>
                Some (Inr \<lparr>ru_state = st, ru_widest = rl_widest st,
                  ru_kv_reported = (\<not> (stopped_in_round \<and> rd_kv_report_skipped_by D = TheInRoundExit)),
                  ru_stats = stats_of C seed_emitted st\<rparr>)))"

end
