(* ===== verification/SpecRoundProps.thy ===== *)
theory SpecRoundProps
  imports SpecRound
begin

text \<open>
  What holds of the round loop whatever its drafter is: the counters of the request record add
  up, every emitted token is attributed, and the request stays in its budget.
\<close>

definition counted :: "('s, 'lp) sink \<Rightarrow> nat \<Rightarrow> bool" where
  "counted sk seed_emitted \<longleftrightarrow>
     length (sk_steps sk) = seed_emitted + sk_in_rounds sk \<and> sk_marks sk = length (sk_steps sk) \<and>
     (\<forall>buf. sk_decided sk = Some buf \<longrightarrow> length buf = length (sk_steps sk))"

lemma emit_step_sink:
  "emit_step C t lp sk = (sk', em) \<Longrightarrow> length (sk_steps sk') = Suc (length (sk_steps sk)) \<and>
     sk_marks sk' = Suc (sk_marks sk) \<and> sk_in_rounds sk' = sk_in_rounds sk \<and> sk_decided sk' = sk_decided sk"
  by (auto simp: emit_step_def emit_token_def Let_def split: prod.splits)

text \<open>One iteration of the emission.\<close>

lemma emit_from_step:
  assumes "length (sk_steps sk) < n" "row_logprobs Z (cf_top_k C) scored i t = Inr lp" "emit_step C t lp sk = (sk1, em)"
    and "sk2 = (attribute (if i < r then RestrictedVocab else FullVocab) sk1)\<lparr>sk_in_rounds := sk_in_rounds sk1 + 1\<rparr>"
  shows "emit_from Z C scored n r i (t # ts) sk =
    (if em_ends em then Inr (sk2, Suc i, True) else emit_from Z C scored n r (Suc i) ts sk2)"
  using assms by (auto simp: attribute_def Let_def)

lemma emit_from_counted:
  "emit_from Z C scored n r i ts sk = Inr (sk', k, b) \<Longrightarrow> counted sk m \<Longrightarrow> length (sk_steps sk) \<le> max n 1 \<Longrightarrow>
     counted sk' m \<and> k \<le> i + length ts \<and> i \<le> k \<and> sk_in_rounds sk' = sk_in_rounds sk + (k - i) \<and>
     length (sk_steps sk') \<le> max n 1"
proof (induction ts arbitrary: i sk)
  case (Cons t ts)
  show ?case
  proof (cases "length (sk_steps sk) < n")
    case True
    with Cons.prems(1) obtain lp where lp: "row_logprobs Z (cf_top_k C) scored i t = Inr lp" by (auto split: sum.splits)
    obtain sk1 em where e: "emit_step C t lp sk = (sk1, em)" by fastforce
    define sk2 where "sk2 = (attribute (if i < r then RestrictedVocab else FullVocab) sk1)\<lparr>sk_in_rounds := sk_in_rounds sk1 + 1\<rparr>"
    have c2: "counted sk2 m" "sk_in_rounds sk2 = Suc (sk_in_rounds sk)" "length (sk_steps sk2) \<le> max n 1"
      using Cons.prems(2,3) emit_step_sink [OF e] True by (auto simp: counted_def sk2_def attribute_def)
    from Cons.prems(1) emit_from_step [OF True lp e sk2_def, of ts] Cons.IH [of "Suc i" sk2] c2
    show ?thesis by (auto split: if_splits)
  qed (use Cons.prems in simp)
qed simp

lemma emit_round_counted:
  assumes "emit_round_tokens Z C scored n r ts sk = Inr (sk', k, b)" "counted sk m" "length (sk_steps sk) \<le> max n 1"
  shows "counted sk' m \<and> k \<le> length ts \<and> sk_in_rounds sk' = sk_in_rounds sk + k \<and> length (sk_steps sk') \<le> max n 1"
  using emit_from_counted [OF assms(1) [unfolded emit_round_tokens_def] assms(2,3)] by auto

text \<open>A drafter that commits at most the accepted prefix and one more token.\<close>

definition commits_prefix :: "('dr, 'x, 'i, 'd, 'lg, 'r) round_drafter \<Rightarrow> bool" where
  "commits_prefix D \<longleftrightarrow>
     (\<forall>d cx fed remaining d' cx' v. rd_verify D d cx fed remaining = Inr (d', cx', v) \<longrightarrow>
        length (vd_commit v) \<le> vd_accept v + 1)"

definition loop_ok :: "nat \<Rightarrow> nat \<Rightarrow> ('dr, 'x, 'i, 'd, 'lg, 'r, 's, 'lp) round_state \<Rightarrow> bool" where
  "loop_ok n m st \<longleftrightarrow> counted (rl_sink st) m \<and> length (sk_steps (rl_sink st)) \<le> max n 1 \<and>
     sk_in_rounds (rl_sink st) \<le> rl_accept st + rl_rounds st"

lemma round_emit_ok:
  assumes "round_emit Z D C n rr st = Inr (st', fed, pre, post, v, committed, ended)" "loop_ok n m st" "commits_prefix D"
  shows "loop_ok n m st'"
proof -
  from assms(1) obtain d cx ds w scored sk d1 cx1 where
    v: "rd_verify D d (cx\<lparr>cx_lin := arm_lin_tapes (cx_lin cx)\<rparr>) (rl_carry st # ds) (n - length (sk_steps (rl_sink st))) = Inr (d1, cx1, v)"
    and e: "emit_round_tokens Z C scored n (vd_restricted v) (vd_commit v) (rl_sink st) = Inr (sk, committed, ended)"
    and st': "st' = st\<lparr>rl_drafter := d1, rl_ctx := cx1\<lparr>cx_draw := w\<rparr>, rl_sink := sk, rl_rounds := rl_rounds st + 1,
      rl_draft := rl_draft st + length ds, rl_accept := rl_accept st + vd_accept v,
      rl_widest := max (rl_widest st) (rd_block D (rl_drafter st) (cf_block_size C) (n - length (sk_steps (rl_sink st))))\<rparr>"
    unfolding round_emit_def Let_def by (auto simp: try_bind_Inr split: prod.splits if_splits)
  from v assms(3) have "length (vd_commit v) \<le> vd_accept v + 1" unfolding commits_prefix_def by blast
  moreover from assms(2) have "counted (rl_sink st) m" "length (sk_steps (rl_sink st)) \<le> max n 1"
      "sk_in_rounds (rl_sink st) \<le> rl_accept st + rl_rounds st" by (simp_all add: loop_ok_def)
  moreover note emit_round_counted [OF e this(1,2)]
  ultimately show ?thesis by (simp add: loop_ok_def st')
qed

lemma round_settle_ok:
  "round_settle A D fed pre post v committed st = Inr st' \<Longrightarrow> loop_ok n m st \<Longrightarrow> loop_ok n m st'"
  unfolding round_settle_def Let_def by (auto simp: try_bind_Inr loop_ok_def split: if_splits)

lemma round_step_ok:
  assumes "round_step Z A D C n rr st = Inr (st', ended)" "loop_ok n m st" "commits_prefix D"
  shows "loop_ok n m st'"
proof -
  from assms(1) obtain st1 fed pre post v committed e where
    r: "round_emit Z D C n rr st = Inr (st1, fed, pre, post, v, committed, e)"
    and "e \<and> st' = st1 \<or> (\<not> e \<and> round_settle A D fed pre post v committed st1 = Inr st')"
    unfolding round_step_def by (auto simp: try_bind_Inr split: if_splits)
  with round_emit_ok [OF r assms(2,3)] round_settle_ok show ?thesis by metis
qed

text \<open>Whatever a round preserves, the loop preserves.\<close>

lemma round_loop_inv:
  assumes "round_loop Z A D C n rr cancel st = Some y"
    and "\<And>st st' e. J st \<Longrightarrow> round_step Z A D C n rr st = Inr (st', e) \<Longrightarrow> J st'"
    and "J st" "y = Inr (st', b)"
  shows "J st'"
proof -
  define Z0 A0 D0 C0 n0 rr0 where k: "Z0 = Z" "A0 = A" "D0 = D" "C0 = C" "n0 = n" "rr0 = rr"
  have "Z = Z0 \<longrightarrow> A = A0 \<longrightarrow> D = D0 \<longrightarrow> C = C0 \<longrightarrow> n = n0 \<longrightarrow> rr = rr0 \<longrightarrow> J st \<longrightarrow> (\<forall>st' b. y = Inr (st', b) \<longrightarrow> J st')"
  proof (rule round_loop.raw_induct [OF _ assms(1), where
      P = "\<lambda>Z A D C n rr cancel st y. Z = Z0 \<longrightarrow> A = A0 \<longrightarrow> D = D0 \<longrightarrow> C = C0 \<longrightarrow> n = n0 \<longrightarrow> rr = rr0 \<longrightarrow> J st \<longrightarrow>
        (\<forall>st' b. y = Inr (st', b) \<longrightarrow> J st')"], intro impI allI, goal_cases)
    case (1 lp Z A D C n rr cancel st y st' b)
    note IH = 1(1) and eq = 1(2) and J = 1(9)
    show ?case
    proof (cases "n \<le> length (sk_steps (rl_sink st)) \<or> cancel (rl_rounds st)")
      case True
      with eq J 1(10) show ?thesis by (auto split: if_splits)
    next
      case False
      with eq 1(10) obtain st1 e where r: "round_step Z A D C n rr st = Inr (st1, e)" by (auto split: sum.splits)
      with assms(2) J 1(3-8) have J1: "J st1" unfolding k by blast
      show ?thesis
      proof (cases e)
        case True
        with False eq r 1(10) J1 show ?thesis by auto
      next
        case nend: False
        with False eq r 1(10) have "lp Z A D C n rr cancel st1 = Some y" by auto
        from IH [OF this] J1 1(3-8,10) show ?thesis by blast
      qed
    qed
  qed
  with assms(3,4) k show ?thesis by blast
qed

lemma round_loop_ok:
  assumes "round_loop Z A D C n rr cancel st = Some (Inr (st', b))" "commits_prefix D" "loop_ok n m st"
  shows "loop_ok n m st'"
  by (rule round_loop_inv [where J = "loop_ok n m", OF assms(1) _ assms(3) refl]) (rule round_step_ok [OF _ _ assms(2)])

lemma run_start_ok:
  assumes "run_start Z A D C cancel d prompt decided cb = Inr (st, n, rr, ended)" "decided = None \<or> decided = Some []"
  shows "loop_ok n (length (sk_steps (rl_sink st))) st \<and> n \<le> cf_n_tokens C"
  using assms unfolding run_start_def Let_def
  by (auto simp: try_bind_Inr loop_ok_def counted_def emit_seed_token_def attribute_def
      dest!: emit_step_sink decode_budget_bounds split: prod.splits seed.splits sum.splits)

text \<open>C31: The record of a request adds up, whatever the drafter. For a drafter that commits at
  most its accepted prefix and one token, every returned run closes with a record that passes
  the accounting check of \<^verbatim>\<open>round_stats.rs\<close>: the tokens before and inside the rounds are the
  emitted ones, and the rounds emitted no more than they accepted plus one each. The decode
  window has a mark for every token, the attribution buffer an entry, and the request emitted
  at most its budget, or the one seed token.
\<close>

theorem request_record_accounts:
  assumes "commits_prefix D" "decided = None \<or> decided = Some []"
    and "run_rounds Z A D C cancel_prefill cancel_round d prompt decided cb = Some (Inr out)"
  shows "\<not> seed_violation (ru_stats out) \<and>
    (let sk = rl_sink (ru_state out) in
       sk_marks sk = length (sk_steps sk) \<and> length (sk_steps sk) \<le> max (cf_n_tokens C) 1 \<and>
       (\<forall>buf. sk_decided sk = Some buf \<longrightarrow> length buf = length (sk_steps sk)))"
proof -
  from assms(3) obtain st n rr ended where s: "run_start Z A D C cancel_prefill d prompt decided cb = Inr (st, n, rr, ended)"
    by (auto simp: run_rounds_def split: sum.splits)
  define m where "m = length (sk_steps (rl_sink st))"
  note ok = run_start_ok [OF s assms(2), folded m_def]
  have "loop_ok n m (ru_state out) \<and> ru_stats out = stats_of C m (ru_state out)"
    using assms(3) s ok by (auto simp: run_rounds_def Let_def m_def [symmetric] split: if_splits option.splits sum.splits prod.splits
      dest: round_loop_ok [OF _ assms(1)])
  then show ?thesis using ok by (auto simp: loop_ok_def counted_def seed_violation_def stats_of_def Let_def)
qed

end
