(* ===== verification/TwoModel.thy ===== *)
theory TwoModel
  imports SpecRoundProps
begin

text \<open>
  The two-model drafter (\<^verbatim>\<open>rmlx-models/src/speculative/two_model.rs\<close>): a second model drafts through
  its own caches, and the round is judged by comparing tokens or distributions. The entry that
  routes a request to it is \<^verbatim>\<open>spec_generate_greedy\<close> of \<^verbatim>\<open>mod.rs\<close>.
\<close>

section \<open>Drafting\<close>

fun draft_loop ::
  "('lg, 'pr, 'lp, 'r) sampler_ops \<Rightarrow> ('x, 'g, 'i, 'd, 'y, 'lg) arch \<Rightarrow> nat \<Rightarrow> u32 list \<Rightarrow> attn_layer list \<Rightarrow>
   ('x, 'i, 'd) lin_stack \<Rightarrow> spec_error + (u32 list \<times> attn_layer list \<times> ('x, 'i, 'd) lin_stack)" where
  "draft_loop Z A 0 y kv lin = Inr ([], kv, lin)"
| "draft_loop Z A (Suc n) y kv lin =
     try_bind (ar_forward_arr A y kv lin) (\<lambda>(kv, lin, logits).
       let t = so_argmax Z logits in
       try_bind (draft_loop Z A n [t] kv lin) (\<lambda>(ts, kv, lin). Inr (t # ts, kv, lin)))"

definition draft_decode_n ::
  "('lg, 'pr, 'lp, 'r) sampler_ops \<Rightarrow> ('x, 'g, 'i, 'd, 'y, 'lg) arch \<Rightarrow> u32 list \<Rightarrow> nat \<Rightarrow> attn_layer list \<Rightarrow>
   ('x, 'i, 'd) lin_stack \<Rightarrow> spec_error + (u32 list \<times> attn_layer list \<times> ('x, 'i, 'd) lin_stack)" where
  "draft_decode_n Z A seed n kv lin =
     (if n = 0 then Inr ([], kv, lin)
      else if seed = [] then Inl EmptySeed
      else draft_loop Z A n seed kv lin)"

fun draft_loop_stochastic ::
  "('lg, 'pr, 'lp, 'r) sampler_ops \<Rightarrow> ('x, 'g, 'i, 'd, 'y, 'lg) arch \<Rightarrow> nat \<Rightarrow> u32 list \<Rightarrow> attn_layer list \<Rightarrow>
   ('x, 'i, 'd) lin_stack \<Rightarrow> ('lg, 'r) verifier_draw \<Rightarrow>
   spec_error + ((u32 list \<times> 'pr list) \<times> attn_layer list \<times> ('x, 'i, 'd) lin_stack \<times> ('lg, 'r) verifier_draw)" where
  "draft_loop_stochastic Z A 0 y kv lin w = Inr (([], []), kv, lin, w)"
| "draft_loop_stochastic Z A (Suc n) y kv lin w =
     try_bind (ar_forward_arr A y kv lin) (\<lambda>(kv, lin, logits).
     try_bind (draw_proposal Z logits w) (\<lambda>(t, q, w).
     try_bind (draft_loop_stochastic Z A n [t] kv lin w) (\<lambda>((ts, qs), kv, lin, w). Inr ((t # ts, q # qs), kv, lin, w))))"

definition draft_decode_n_stochastic ::
  "('lg, 'pr, 'lp, 'r) sampler_ops \<Rightarrow> ('x, 'g, 'i, 'd, 'y, 'lg) arch \<Rightarrow> u32 list \<Rightarrow> nat \<Rightarrow> attn_layer list \<Rightarrow>
   ('x, 'i, 'd) lin_stack \<Rightarrow> ('lg, 'r) verifier_draw \<Rightarrow>
   spec_error + ((u32 list \<times> 'pr list) \<times> attn_layer list \<times> ('x, 'i, 'd) lin_stack \<times> ('lg, 'r) verifier_draw)" where
  "draft_decode_n_stochastic Z A seed n kv lin w =
     (if n = 0 then Inr (([], []), kv, lin, w)
      else if seed = [] then Inl EmptySeed
      else draft_loop_stochastic Z A n seed kv lin w)"

definition fill_fed :: "u32 list \<Rightarrow> u32 list \<Rightarrow> u32 list" where "fill_fed hd_tokens tl_tokens = hd_tokens @ tl_tokens"

section \<open>The stochastic walk\<close>

text \<open>The accepted count, and the correction of the first rejection.\<close>

fun stochastic_walk ::
  "('lg, 'pr, 'lp, 'r) sampler_ops \<Rightarrow> 'pr list \<Rightarrow> 'pr list \<Rightarrow> u32 list \<Rightarrow> 'r \<Rightarrow>
   spec_error + (nat \<times> u32 option \<times> 'r)" where
  "stochastic_walk Z (p # ps) (q # qs) (x # xs) r =
     try_bind (so_accept Z p q x r) (\<lambda>(verd, r).
       case verd of
         Reject corr \<Rightarrow> Inr (0, Some corr, r)
       | Accept \<Rightarrow> try_bind (stochastic_walk Z ps qs xs r) (\<lambda>(a, corr, r). Inr (Suc a, corr, r)))"
| "stochastic_walk Z _ _ _ r = Inr (0, None, r)"

definition stochastic_prefix ::
  "('lg, 'pr, 'lp, 'r) sampler_ops \<Rightarrow> 'pr list \<Rightarrow> 'pr list \<Rightarrow> u32 list \<Rightarrow> 'r \<Rightarrow> spec_error + (nat \<times> u32 list \<times> 'r)" where
  "stochastic_prefix Z p q proposals r =
     (if length p \<noteq> length proposals + 1 \<or> length q \<noteq> length proposals
      then Inl (DistributionLengths (length p) (length q) (length proposals))
      else try_bind (stochastic_walk Z p q proposals r) (\<lambda>(accept, correction, r).
        case correction of
          Some corr \<Rightarrow> Inr (accept, take accept proposals @ [corr], r)
        | None \<Rightarrow> (case so_sample_index Z (last p) r of (i, r) \<Rightarrow> Inr (accept, take accept proposals @ [of_nat i], r))))"

section \<open>The drafter\<close>

datatype 'pr acceptance = Prefix | Stochastic "'pr list"

record ('x, 'i, 'd, 'pr) two_model =
  tm_kv :: "attn_layer list"
  tm_lin :: "('x, 'i, 'd) lin_stack"
  tm_seed :: "u32 list"
  tm_fed :: "u32 list"
  tm_proposals :: nat
  tm_last_proposal :: "u32 option"
  tm_accept :: "'pr acceptance"

definition tm_new :: "'pr acceptance \<Rightarrow> ('x, 'i, 'd, 'pr) two_model" where
  "tm_new a = \<lparr>tm_kv = [], tm_lin = None, tm_seed = [], tm_fed = [], tm_proposals = 0, tm_last_proposal = None, tm_accept = a\<rparr>"

definition validate_draft_kv_quant :: "string \<Rightarrow> kv_quant \<Rightarrow> spec_error + unit" where
  "validate_draft_kv_quant cls q = (case validate_resolved cls q of Inl _ \<Rightarrow> Inl DraftQuantRefused | Inr _ \<Rightarrow> Inr ())"

definition tm_prefill ::
  "('x, 'g, 'i, 'd, 'y, 'lg) arch \<Rightarrow> ('x, 'g, 'i, 'd, 'y, 'lg) arch \<Rightarrow> nat \<Rightarrow> (string \<Rightarrow> nat option) \<Rightarrow>
   ('x, 'i, 'd, 'pr) two_model \<Rightarrow> ('x, 'i, 'd, 'lg, 'r) round_ctx \<Rightarrow> u32 list \<Rightarrow> (nat \<Rightarrow> bool) \<Rightarrow>
   spec_error + (('x, 'i, 'd, 'pr) two_model \<times> ('x, 'i, 'd, 'lg, 'r) round_ctx \<times> prefilled)" where
  "tm_prefill verifier draft runtime env d cx prompt cancel =
     (if prompt = [] then Inl NoLastToken
      else try_bind (validate_draft_kv_quant (ar_class draft) (cx_kv_quant cx)) (\<lambda>_.
        let kv = cache_stack draft (cx_kv_quant cx) (cx_max_seq cx);
            lin = lin_stack_of draft
        in try_bind (prefill_chunked verifier runtime env cancel (butlast prompt) (length prompt) (cx_kv cx) (cx_lin cx)) (\<lambda>(vkv, vlin).
           try_bind (prefill_chunked draft runtime env cancel (butlast prompt) (length prompt) kv lin) (\<lambda>(dkv, dlin).
             Inr (d\<lparr>tm_kv := dkv, tm_lin := dlin, tm_seed := [last prompt]\<rparr>, cx\<lparr>cx_kv := vkv, cx_lin := vlin\<rparr>,
                  \<lparr>pd_seed = Carried (last prompt), pd_restricted_read_back = False, pd_projects_conditioning = False\<rparr>)))))"

definition tm_propose ::
  "('lg, 'pr, 'lp, 'r) sampler_ops \<Rightarrow> ('x, 'g, 'i, 'd, 'y, 'lg) arch \<Rightarrow> ('x, 'i, 'd, 'pr) two_model \<Rightarrow>
   ('x, 'i, 'd, 'lg, 'r) round_ctx \<Rightarrow> u32 \<Rightarrow> nat \<Rightarrow>
   spec_error + (('x, 'i, 'd, 'pr) two_model \<times> ('x, 'i, 'd, 'lg, 'r) round_ctx \<times> u32 list)" where
  "tm_propose Z draft d cx carry block =
     (let lin = arm_lin_tapes (tm_lin d);
          n = drafts_per_round block;
          done = (\<lambda>d cx proposed kv lin. (d\<lparr>tm_kv := kv, tm_lin := lin, tm_fed := fill_fed (tm_seed d) (butlast proposed),
                    tm_proposals := length proposed,
                    tm_last_proposal := (if proposed = [] then None else Some (last proposed))\<rparr>, cx, proposed))
      in (case tm_accept d of
            Prefix \<Rightarrow> try_bind (draft_decode_n Z draft (tm_seed d) n (tm_kv d) lin) (\<lambda>(proposed, kv, lin).
              Inr (done d cx proposed kv lin))
          | Stochastic _ \<Rightarrow>
              try_bind (draft_decode_n_stochastic Z draft (tm_seed d) n (tm_kv d) lin (cx_draw cx)) (\<lambda>((proposed, q), kv, lin, w).
                Inr (done (d\<lparr>tm_accept := Stochastic q\<rparr>) (cx\<lparr>cx_draw := w\<rparr>) proposed kv lin))))"

definition tm_verify ::
  "('lg, 'pr, 'lp, 'r) sampler_ops \<Rightarrow> ('x, 'g, 'i, 'd, 'y, 'lg) arch \<Rightarrow> ('x, 'i, 'd, 'pr) two_model \<Rightarrow>
   ('x, 'i, 'd, 'lg, 'r) round_ctx \<Rightarrow> u32 list \<Rightarrow> nat \<Rightarrow>
   spec_error + (('x, 'i, 'd, 'pr) two_model \<times> ('x, 'i, 'd, 'lg, 'r) round_ctx \<times> verdict)" where
  "tm_verify Z verifier d cx fed remaining =
     try_bind (ar_forward_seq verifier fed (length fed) (cx_kv cx) (cx_lin cx)) (\<lambda>(kv, lin, logits).
       let cx = cx\<lparr>cx_kv := kv, cx_lin := lin\<rparr>;
           proposed = tl fed
       in (case tm_accept d of
             Prefix \<Rightarrow>
               try_bind (block_tokens Z logits (length fed) (cx_draw cx)) (\<lambda>(v_tokens, w).
               try_bind (accept_prefix v_tokens proposed remaining) (\<lambda>(accept, commit).
                 Inr (d, cx\<lparr>cx_draw := w\<rparr>, \<lparr>vd_accept = accept, vd_commit = commit, vd_restricted = 0\<rparr>)))
           | Stochastic q \<Rightarrow>
               try_bind (block_distributions Z logits (length fed) (cx_draw cx)) (\<lambda>(p, w).
               try_bind (stochastic_prefix Z p q proposed (vw_rng w)) (\<lambda>(accept, commit, r).
                 Inr (d\<lparr>tm_accept := Stochastic []\<rparr>, cx\<lparr>cx_draw := w\<lparr>vw_rng := r\<rparr>\<rparr>,
                      \<lparr>vd_accept = accept, vd_commit = commit, vd_restricted = 0\<rparr>)))))"

definition tm_rollback ::
  "('x, 'g, 'i, 'd, 'y, 'lg) arch \<Rightarrow> ('x, 'i, 'd, 'pr) two_model \<Rightarrow> verdict \<Rightarrow> round_outcome \<Rightarrow>
   spec_error + (('x, 'i, 'd, 'pr) two_model \<times> cache_span option)" where
  "tm_rollback draft d v outcome =
     try_bind (stack_offset (tm_kv d)) (\<lambda>before.
     try_bind (rollback_round (ar_gdn draft) (tm_kv d) (tm_lin d) (tm_fed d) (before - int (length (tm_fed d)))
         (before - draft_rows_to_drop (tm_proposals d) (vd_accept v))) (\<lambda>(kv, lin, _).
       let seed = (if vd_accept v = tm_proposals d then (case tm_last_proposal d of None \<Rightarrow> [] | Some t \<Rightarrow> [t]) else [])
                  @ [ro_carry outcome]
       in try_bind (stack_offset kv) (\<lambda>target.
            Inr (d\<lparr>tm_kv := kv, tm_lin := lin, tm_seed := seed\<rparr>, Some \<lparr>sp_before = before, sp_target = target\<rparr>))))"

definition two_model_round ::
  "('lg, 'pr, 'lp, 'r) sampler_ops \<Rightarrow> ('x, 'g, 'i, 'd, 'y, 'lg) arch \<Rightarrow> ('x, 'g, 'i, 'd, 'y, 'lg) arch \<Rightarrow> nat \<Rightarrow>
   (string \<Rightarrow> nat option) \<Rightarrow> (('x, 'i, 'd, 'pr) two_model, 'x, 'i, 'd, 'lg, 'r) round_drafter" where
  "two_model_round Z verifier draft runtime env =
     \<lparr>rd_kv_report_skipped_by = TheInRoundExit, rd_offset_basis = AfterTheForward,
      rd_prefill = tm_prefill verifier draft runtime env,
      rd_block = (\<lambda>_. round_block), rd_propose = tm_propose Z draft, rd_verify = tm_verify Z verifier,
      rd_rollback = (\<lambda>d _. tm_rollback draft d), rd_condition = (\<lambda>d _ _ _. Inr (d, None)), rd_carry = (\<lambda>_. Inr True)\<rparr>"

section \<open>The entry\<close>

datatype entry_refusal = ZeroDrafts | EmptyPrompt | ConstraintRefused | PromptTooShort | RunFailed spec_error

text \<open>
  The entry's answer: the outcome of the run (\<open>None\<close> for a request of no tokens) and the widest
  block. \<open>draft\<close> is \<^term>\<open>None\<close> for a dispatcher that holds a verifier alone.
\<close>

definition spec_generate_greedy ::
  "('lg, 'pr, 'lp, 'r) sampler_ops \<Rightarrow> ('x, 'g, 'i, 'd, 'y, 'lg) arch \<Rightarrow> ('x, 'g, 'i, 'd, 'y, 'lg) arch option \<Rightarrow>
   ('s, 'lp, 'r) round_cfg \<Rightarrow> (nat \<Rightarrow> bool) \<Rightarrow> (nat \<Rightarrow> bool) \<Rightarrow> u32 list \<Rightarrow> nat \<Rightarrow> bool \<Rightarrow> 's \<Rightarrow>
   (entry_refusal + (('x, 'i, 'd, 'pr) two_model, 'x, 'i, 'd, 'lg, 'r, 's, 'lp) run_outcome option \<times> nat) option" where
  "spec_generate_greedy Z verifier draft C cancel_prefill cancel_round prompt k constrained cb =
     (if k = 0 then Some (Inl ZeroDrafts)
      else let k = two_model_drafts_per_round k in
        if cf_n_tokens C = 0 then Some (Inr (None, k + 1))
        else if prompt = [] then Some (Inl EmptyPrompt)
        else if constrained then Some (Inl ConstraintRefused)
        else if length prompt < 2 then Some (Inl PromptTooShort)
        else (case draft of
            None \<Rightarrow> Some (Inl (RunFailed ModelFailed))
          | Some dr \<Rightarrow>
              let C = C\<lparr>cf_block_size := k + 1\<rparr>;
                  d = tm_new (if cf_sampling C then Stochastic [] else Prefix)
              in (case run_rounds Z verifier (two_model_round Z verifier dr (cf_chunk_override C) (cf_env C)) C
                        cancel_prefill cancel_round d prompt None cb of
                    None \<Rightarrow> None
                  | Some (Inl e) \<Rightarrow> Some (Inl (RunFailed e))
                  | Some (Inr out) \<Rightarrow> Some (Inr (Some out, drafts_per_round (ru_widest out) + 1)))))"

end
