(* ===== verification/SpecExactBase.thy ===== *)
theory SpecExactBase
  imports TwoModel
begin

text \<open>
  Greedy speculative decoding shows the verifier's own tokens: whatever the draft model proposes,
  every token of a two-model run is the best of a row of logits the verifier gave at exactly the
  tokens shown before it. A forward of several positions need not give the rows of one-token
  steps, so a position has a set of rows; the history that both cache stacks represent carries
  the proof.
\<close>

section \<open>Models that serve a history\<close>

definition shape_of :: "('x, 'g, 'i, 'd, 'y, 'lg) arch \<Rightarrow> nat \<Rightarrow> layer_shape" where
  "shape_of A i =
     (if \<not> ar_writes A i then Idle
      else case ar_window A i of Some w \<Rightarrow> if 0 < w then Window (nat w) else Full | None \<Rightarrow> Full)"

definition shapes :: "('x, 'g, 'i, 'd, 'y, 'lg) arch \<Rightarrow> layer_shape list" where
  "shapes A = map (shape_of A) [0..<ar_layers A]"

text \<open>
  What the loop relies on in a model whose forwards do not fail. A forward writes its tokens to every attention layer and
  runs every recurrent layer over one row per token; it gives as many rows of logits as it is
  asked for, the last ones of its tokens. \<open>Q i h\<close> are the rows a forward may give recurrent layer
  \<open>i\<close>, and \<open>P h\<close> the logits it may give, at the position after which the history is \<open>h\<close>: several,
  since a block is computed by other kernels than a single token. The prefill bracket changes
  no position a layer holds.
\<close>

definition bracket_ok :: "(attn_layer, spec_error) prefill_ops \<Rightarrow> bool" where
  "bracket_ok E \<longleftrightarrow> (\<forall>h s l. layer_at h s l \<longrightarrow>
     layer_at h s (pf_enter E l) \<and> pf_eval E l = None \<and> layer_at h s (fst (pf_exit E l)) \<and> snd (pf_exit E l) = None)"

definition rows_from :: "(nat \<Rightarrow> u32 list \<Rightarrow> 'a set) \<Rightarrow> u32 list \<Rightarrow> (nat \<Rightarrow> u32 list \<Rightarrow> 'a) \<Rightarrow> bool" where
  "rows_from Q h inp \<longleftrightarrow> (\<forall>i n. n < length h \<longrightarrow> inp i (take (Suc n) h) \<in> Q i (take (Suc n) h))"

definition agrees :: "nat \<Rightarrow> (nat \<Rightarrow> u32 list \<Rightarrow> 'a) \<Rightarrow> (nat \<Rightarrow> u32 list \<Rightarrow> 'a) \<Rightarrow> bool" where
  "agrees n inp inp' \<longleftrightarrow> (\<forall>i p. length p \<le> n \<longrightarrow> inp' i p = inp i p)"

definition lin_holds ::
  "(nat \<Rightarrow> u32 list \<Rightarrow> ('x \<times> 'g) set) \<Rightarrow> (nat \<Rightarrow> bool) \<Rightarrow> ('x, 'g, 'i, 'd, 'y, 'lg) arch \<Rightarrow> u32 list \<Rightarrow>
   ('x, 'i, 'd) lin_stack \<Rightarrow> bool" where
  "lin_holds Q R A h lin \<longleftrightarrow> (\<exists>inp. rows_from Q h inp \<and> lins_at (ar_gdn A) inp R h lin)"

definition holds ::
  "(nat \<Rightarrow> u32 list \<Rightarrow> ('x \<times> 'g) set) \<Rightarrow> (nat \<Rightarrow> bool) \<Rightarrow> ('x, 'g, 'i, 'd, 'y, 'lg) arch \<Rightarrow> u32 list \<Rightarrow>
   attn_layer list \<Rightarrow> ('x, 'i, 'd) lin_stack \<Rightarrow> bool" where
  "holds Q R A h kv lin \<longleftrightarrow> stack_at (shapes A) h kv \<and> lin_holds Q R A h lin"

definition mid_round ::
  "(nat \<Rightarrow> u32 list \<Rightarrow> ('x \<times> 'g) set) \<Rightarrow> (nat \<Rightarrow> bool) \<Rightarrow> ('x, 'g, 'i, 'd, 'y, 'lg) arch \<Rightarrow> u32 list \<Rightarrow> u32 list \<Rightarrow>
   ('x, 'i, 'd) lin_stack \<Rightarrow> bool" where
  "mid_round Q R A h new lin \<longleftrightarrow> (\<exists>inp. rows_from Q (h @ new) inp \<and> lins_mid (ar_gdn A) inp R h new lin)"

text \<open>A forward of \<open>new\<close> on recurrent layers that have seen \<open>h\<close>.\<close>

definition lin_step ::
  "(nat \<Rightarrow> u32 list \<Rightarrow> ('x \<times> 'g) set) \<Rightarrow> (nat \<Rightarrow> bool) \<Rightarrow> ('x, 'g, 'i, 'd, 'y, 'lg) arch \<Rightarrow> u32 list \<Rightarrow> u32 list \<Rightarrow>
   ('x, 'i, 'd) lin_stack \<Rightarrow> ('x, 'i, 'd) lin_stack \<Rightarrow> bool" where
  "lin_step Q R A h new lin lin' \<longleftrightarrow>
     (\<forall>inp. rows_from Q h inp \<longrightarrow> lins_at (ar_gdn A) inp R h lin \<longrightarrow>
        (\<exists>inp'. agrees (length h) inp inp' \<and> rows_from Q (h @ new) inp' \<and>
           lin' = lins_write (ar_gdn A) inp' R h new lin))"

definition serves ::
  "(nat \<Rightarrow> u32 list \<Rightarrow> ('x \<times> 'g) set) \<Rightarrow> (nat \<Rightarrow> bool) \<Rightarrow> (u32 list \<Rightarrow> 'lg set) \<Rightarrow>
   ('x, 'g, 'i, 'd, 'y, 'lg) arch \<Rightarrow> bool" where
  "serves Q R P A \<longleftrightarrow>
     advances (shapes A) \<and> bracket_ok (ar_prefill A) \<and> (\<forall>i. 0 < gd_kernel (ar_gdn A i)) \<and>
     (\<forall>h new kv lin. new \<noteq> [] \<longrightarrow> holds Q R A h kv lin \<longrightarrow>
        (\<exists>lin' lg. ar_forward_arr A new kv lin = Inr (map (layer_write new) kv, lin', lg) \<and>
           lin_step Q R A h new lin lin' \<and> lg \<in> P (h @ new)) \<and>
        (\<forall>k. 0 < k \<longrightarrow> k \<le> length new \<longrightarrow>
           (\<exists>lin' rows. ar_forward_seq A new k kv lin = Inr (map (layer_write new) kv, lin', rows) \<and>
              lin_step Q R A h new lin lin' \<and> length rows = k \<and>
              (\<forall>i < k. rows ! i \<in> P (h @ take (Suc (length new - k + i)) new)))))"

lemma serves_arr:
  assumes "serves Q R P A" "new \<noteq> []" "holds Q R A h kv lin"
  obtains lin' lg where "ar_forward_arr A new kv lin = Inr (map (layer_write new) kv, lin', lg)"
    "lin_step Q R A h new lin lin'"
  using assms unfolding serves_def by blast

lemma serves_seq:
  assumes "serves Q R P A" "new \<noteq> []" "holds Q R A h kv lin" "0 < k" "k \<le> length new"
  obtains lin' rows where "ar_forward_seq A new k kv lin = Inr (map (layer_write new) kv, lin', rows)"
    "lin_step Q R A h new lin lin'" "length rows = k"
    "\<And>i. i < k \<Longrightarrow> rows ! i \<in> P (h @ take (Suc (length new - k + i)) new)"
  using assms unfolding serves_def by blast

section \<open>Recurrent layers along a history\<close>

lemma agrees_rows: "agrees n inp inp' \<Longrightarrow> length h + length new \<le> n \<Longrightarrow> rows_of (inp' i) h new = rows_of (inp i) h new"
  by (auto simp: rows_of_def agrees_def)

lemma lin_at_agrees: "agrees n inp inp' \<Longrightarrow> length h \<le> n \<Longrightarrow> lin_at G (inp' i) rec h c = lin_at G (inp i) rec h c"
  using agrees_rows [of n inp inp' "[]" h i] by (simp add: lin_at_def)

lemma lins_at_agrees: "agrees (length h) inp inp' \<Longrightarrow> lins_at G inp R h lin \<Longrightarrow> lins_at G inp' R h lin"
  by (auto simp: lins_at_def lin_at_agrees split: option.splits)

lemma lins_mid_agrees:
  assumes "agrees (length (h @ new)) inp inp'" "lins_mid G inp R h new lin"
  shows "lins_mid G inp' R h new lin"
proof -
  have "lin_mid G (inp' i) rec h new c = lin_mid G (inp i) rec h new c" for G :: "('a, 'b, 'c, 'd, 'e) gdn" and i rec c
    using lin_at_agrees [OF assms(1), of h G i True] lin_at_agrees [OF assms(1), of "h @ new" G i True]
      agrees_rows [OF assms(1), of h new i] by (simp add: lin_mid_def)
  with assms(2) show ?thesis by (auto simp: lins_mid_def split: option.splits)
qed

lemma rows_from_take: "rows_from Q (h @ new) inp \<Longrightarrow> rows_from Q (h @ take n new) inp"
  unfolding rows_from_def
proof (intro allI impI)
  fix i m
  assume q: "\<forall>i n. n < length (h @ new) \<longrightarrow> inp i (take (Suc n) (h @ new)) \<in> Q i (take (Suc n) (h @ new))"
    and m: "m < length (h @ take n new)"
  have "Suc m - length h \<le> n" using m by (simp split: if_splits)
  then have "take (Suc m) (h @ take n new) = take (Suc m) (h @ new)" by (simp add: min_absorb1)
  with q m show "inp i (take (Suc m) (h @ take n new)) \<in> Q i (take (Suc m) (h @ take n new))" by auto
qed

lemma lin_step_at: "lin_step Q R A h new lin lin' \<Longrightarrow> lin_holds Q R A h lin \<Longrightarrow> lin_holds Q R A (h @ new) lin'"
  unfolding lin_step_def lin_holds_def by (metis lins_at_agrees lins_write_at)

lemma lins_at_arm: "lins_at G inp R h (arm_lin_tapes lin) \<longleftrightarrow> lins_at G inp R h lin"
proof -
  have one: "lin_at G inp rec h (arm_tape c) = lin_at G inp rec h c"
    for G :: "('a, 'b, 'c, 'd, 'e) gdn" and inp rec c
    by (simp add: lin_at_def arm_tape_def gdn_ok_def gdn_prefix_def gdn_state_in_def la_same_def)
  show ?thesis by (cases lin) (simp_all add: lins_at_def arm_lin_tapes_def one)
qed

lemma holds_arm: "holds Q R A h kv (arm_lin_tapes lin) \<longleftrightarrow> holds Q R A h kv lin"
  by (simp add: holds_def lin_holds_def lins_at_arm)

lemma lin_step_first:
  assumes "lin_step Q R A h new (arm_lin_tapes lin) lin'" "lin_holds Q R A h lin"
  shows "mid_round Q R A h new lin'"
  using assms unfolding lin_step_def lin_holds_def mid_round_def lins_at_arm by (metis lins_at_agrees lins_mid_first)

lemma lins_mid_at: "lins_mid G inp R h new lin \<Longrightarrow> lins_at G inp R (h @ new) lin"
  by (auto simp: lins_mid_def lins_at_def lin_mid_def lin_at_def split: if_splits)

lemma mid_round_at: "mid_round Q R A h new lin \<Longrightarrow> lin_holds Q R A (h @ new) lin"
  unfolding mid_round_def lin_holds_def using lins_mid_at by blast

lemma lin_step_next:
  assumes "lin_step Q R A (h @ new) rest lin lin'" "mid_round Q R A h new lin"
  shows "mid_round Q R A h (new @ rest) lin'"
proof -
  from assms(2) obtain inp where inp: "rows_from Q (h @ new) inp" "lins_mid (ar_gdn A) inp R h new lin"
    by (auto simp: mid_round_def)
  with assms(1) lins_mid_at [OF inp(2)] obtain inp' where "agrees (length (h @ new)) inp inp'"
    "rows_from Q ((h @ new) @ rest) inp'" "lin' = lins_write (ar_gdn A) inp' R (h @ new) rest lin"
    unfolding lin_step_def by blast
  with lins_mid_next [OF lins_mid_agrees [OF _ inp(2)]] show ?thesis unfolding mid_round_def by auto
qed

lemma holds_write:
  "holds Q R A h kv lin \<Longrightarrow> lin_step Q R A h new lin lin' \<Longrightarrow> new \<noteq> [] \<Longrightarrow>
     holds Q R A (h @ new) (map (layer_write new) kv) lin'"
  by (simp add: holds_def stack_write_at_any lin_step_at)

lemma cache_layer_at: "layer_at [] (shape_of A i) (cache_layer A q m i)"
proof (cases "\<exists>w. ar_window A i = Some w \<and> 0 < w")
  case True
  then obtain w where w: "ar_window A i = Some w" "0 < w" by blast
  from w(2) have "ring_rep (nat w) (ring_new w :: (u32, u32) ring) [] []" using ring_new_rep [of "nat w"] by simp
  with w show ?thesis by (simp add: shape_of_def cache_layer_def)
next
  case False
  then show ?thesis by (cases "ar_window A i") (simp_all add: shape_of_def cache_layer_def)
qed

lemma lin_new_at: "0 < gd_kernel G \<Longrightarrow> lin_at G inp rec [] la_new"
  by (cases rec) (simp_all add: lin_at_def gdn_ok_def gdn_prefix_def gdn_state_in_def la_new_def la_same_def
      gdn_forward_def rows_of_def gdn_inputs_def Let_def)

lemma cache_stack_holds:
  assumes "serves Q R P A"
  shows "holds Q R A [] (cache_stack A q m) (lin_stack_of A)"
proof -
  have "stack_at (shapes A) [] (cache_stack A q m)"
    by (simp add: stack_at_def shapes_def cache_stack_def list_all2_conv_all_nth cache_layer_at)
  moreover from assms have "\<forall>i. 0 < gd_kernel (ar_gdn A i)" by (simp add: serves_def)
  ultimately show ?thesis
    by (auto simp: holds_def lin_holds_def rows_from_def lins_at_def lin_stack_of_def lin_cache_stack_def intro!: lin_new_at)
qed

section \<open>The prefill\<close>

lemma map_filter_none: "(\<And>x. x \<in> set xs \<Longrightarrow> f x = None) \<Longrightarrow> List.map_filter f xs = []"
  by (induction xs) (auto simp: List.map_filter_def)

lemma bracket_eval: "bracket_ok E \<Longrightarrow> stack_at S h kv \<Longrightarrow> List.map_filter (pf_eval E) kv = []"
  by (rule map_filter_none) (auto simp: bracket_ok_def stack_at_def list_all2_conv_all_nth in_set_conv_nth)

lemma run_chunks_holds:
  assumes S: "serves Q R P A"
  shows "holds Q R A h kv lin \<Longrightarrow> (\<forall>p \<in> set ps. slice_of ids p \<noteq> []) \<Longrightarrow>
    \<exists>x kv' lin' log. run_chunks (ar_prefill A) (\<lambda>_. False) (forward_chunk A) ids i ps (kv, lin) = (Inr x, (kv', lin'), log) \<and>
      holds Q R A (h @ concat (map (slice_of ids) ps)) kv' lin'"
proof (induction ps arbitrary: h kv lin i)
  case (Cons p ps)
  define new where "new = slice_of ids p"
  have new: "new \<noteq> []" using Cons.prems(2) by (simp add: new_def)
  let ?kv = "map (layer_write new) kv"
  obtain lin1 rows where seq: "ar_forward_seq A new 1 kv lin = Inr (?kv, lin1, rows)" and st: "lin_step Q R A h new lin lin1"
    by (rule serves_seq [OF S new Cons.prems(1), of 1]) (use new in \<open>auto simp: Suc_le_eq\<close>)
  have f: "forward_chunk A new (kv, lin) = (Inr (), ?kv, lin1)" using seq by (simp add: forward_chunk_def)
  note w = holds_write [OF Cons.prems(1) st new]
  have ev: "List.map_filter (pf_eval (ar_prefill A)) ?kv = []"
    by (rule bracket_eval [of _ "shapes A" "h @ new"]) (use S w in \<open>simp_all add: serves_def holds_def\<close>)
  from Cons.IH [OF w, of "Suc i"] Cons.prems(2) obtain x kv' lin' log where
    r: "run_chunks (ar_prefill A) (\<lambda>_. False) (forward_chunk A) ids (Suc i) ps (?kv, lin1) = (Inr x, (kv', lin'), log)"
      "holds Q R A (h @ new @ concat (map (slice_of ids) ps)) kv' lin'" by auto
  show ?case
    using w r f ev by (auto simp: new_def [symmetric] Let_def)
qed simp

lemma stack_at_map:
  assumes "stack_at S h kv" "\<And>s l. layer_at h s l \<Longrightarrow> layer_at h s (f l)"
  shows "stack_at S h (map f kv)"
  using assms by (auto simp: stack_at_def list_all2_conv_all_nth)

lemma exit_sweep_holds:
  assumes "bracket_ok E" "stack_at S h kv"
  shows "\<exists>kv'. exit_sweep E kv = (kv', None) \<and> stack_at S h kv'"
proof -
  have "List.map_filter (snd \<circ> pf_exit E) kv = []"
    using assms by (intro map_filter_none) (auto simp: bracket_ok_def stack_at_def list_all2_conv_all_nth in_set_conv_nth)
  moreover have "stack_at S h (map (fst \<circ> pf_exit E) kv)"
    by (rule stack_at_map [OF assms(2)]) (use assms(1) in \<open>auto simp: bracket_ok_def\<close>)
  ultimately show ?thesis by (simp add: exit_sweep_def)
qed

lemma prefill_chunked_holds:
  assumes S: "serves Q R P A" and at: "holds Q R A [] kv lin"
  shows "\<exists>kv' lin'. prefill_chunked A runtime env (\<lambda>_. False) tokens (Suc (length tokens)) kv lin = Inr (kv', lin') \<and>
    holds Q R A tokens kv' lin'"
proof (cases "tokens = []")
  case True
  with at show ?thesis by (simp add: prefill_chunked_def prefill_chunked_with_def)
next
  case False
  define cutp where "cutp = (case lin of None \<Rightarrow> None | Some _ \<Rightarrow> anchor_target (Suc (length tokens)) 0)"
  define chunk where "chunk = fst (resolve_with runtime (module_key_for_class (ar_class A)) env)"
  let ?ps = "prefill_pieces 0 (length tokens) chunk cutp"
  let ?E = "ar_prefill A"
  from S have E: "bracket_ok ?E" by (simp add: serves_def)
  have "slice_of tokens p \<noteq> []" if "p \<in> set ?ps" for p
  proof -
    obtain a b where p: "p = (a, b)" by fastforce
    with that have "a < b" "b \<le> length tokens" by (auto simp: prefill_pieces_def dest!: pieces_from_width)
    then show ?thesis by (simp add: p slice_of_upt)
  qed
  moreover have "holds Q R A [] (map (pf_enter ?E) kv) lin"
    using at E by (auto simp: holds_def bracket_ok_def intro: stack_at_map)
  ultimately obtain x kv1 lin1 log where
    r: "run_chunks ?E (\<lambda>_. False) (forward_chunk A) tokens 0 ?ps (map (pf_enter ?E) kv, lin) = (Inr x, (kv1, lin1), log)"
    and h: "holds Q R A tokens kv1 lin1"
    using run_chunks_holds [OF S, of "[]" "map (pf_enter ?E) kv" lin ?ps tokens 0] slices_of_pieces [of tokens chunk cutp]
    by auto
  from h have h1: "stack_at (shapes A) tokens kv1" "lin_holds Q R A tokens lin1" by (simp_all add: holds_def)
  from exit_sweep_holds [OF E h1(1)] h1(2) obtain kv2 where
    "exit_sweep ?E kv1 = (kv2, None)" "holds Q R A tokens kv2 lin1" by (auto simp: holds_def)
  with r False show ?thesis
    by (auto simp: prefill_chunked_def prefill_chunked_with_def cutp_def [symmetric] chunk_def [symmetric] Let_def)
qed

section \<open>Drafting\<close>

text \<open>A stack whose last forward wrote a single token.\<close>

definition single_last :: "('x, 'g, 'i, 'd, 'y, 'lg) arch \<Rightarrow> u32 list \<Rightarrow> attn_layer list \<Rightarrow> bool" where
  "single_last A h kv \<longleftrightarrow> (\<exists>h0 t kv0. h = h0 @ [t] \<and> stack_at (shapes A) h0 kv0 \<and> kv = map (layer_write [t]) kv0)"

lemma draft_loop_holds:
  assumes S: "serves Q R P A"
  shows "stack_at (shapes A) (h @ new) kv \<Longrightarrow> mid_round Q R A h new lin \<Longrightarrow>
    \<exists>ts kv' lin'. draft_loop Z A n [t] kv lin = Inr (ts, kv', lin') \<and> length ts = n \<and>
      stack_at (shapes A) (h @ new @ butlast (t # ts)) kv' \<and> mid_round Q R A h (new @ butlast (t # ts)) lin' \<and>
      (0 < n \<longrightarrow> single_last A (h @ new @ butlast (t # ts)) kv')"
proof (induction n arbitrary: new kv lin t)
  case (Suc n)
  have at: "holds Q R A (h @ new) kv lin" using Suc.prems mid_round_at by (simp add: holds_def)
  from serves_arr [OF S _ at, of "[t]"] obtain lin1 lg where
    f: "ar_forward_arr A [t] kv lin = Inr (map (layer_write [t]) kv, lin1, lg)" and st: "lin_step Q R A (h @ new) [t] lin lin1"
    by auto
  define t1 where "t1 = so_argmax Z lg"
  have stk: "stack_at (shapes A) (h @ new @ [t]) (map (layer_write [t]) kv)"
    using holds_write [OF at st] by (simp add: holds_def)
  have sg: "single_last A (h @ new @ [t]) (map (layer_write [t]) kv)"
    unfolding single_last_def using Suc.prems(1) by (intro exI [of _ "h @ new"] exI [of _ t] exI [of _ kv]) simp
  from Suc.IH [of "new @ [t]" "map (layer_write [t]) kv" lin1 t1] stk lin_step_next [OF st Suc.prems(2)] obtain ts kv' lin' where
    r: "draft_loop Z A n [t1] (map (layer_write [t]) kv) lin1 = Inr (ts, kv', lin')"
    "length ts = n" "stack_at (shapes A) (h @ (new @ [t]) @ butlast (t1 # ts)) kv'"
    "mid_round Q R A h ((new @ [t]) @ butlast (t1 # ts)) lin'"
    "0 < n \<longrightarrow> single_last A (h @ (new @ [t]) @ butlast (t1 # ts)) kv'" by auto
  have "single_last A (h @ new @ butlast (t # t1 # ts)) kv'"
  proof (cases "n = 0")
    case True
    with r have "kv' = map (layer_write [t]) kv" "ts = []" by simp_all
    with sg show ?thesis by simp
  qed (use r(5) in simp)
  with r(1-4) show ?case by (simp add: f t1_def [symmetric] Let_def)
qed simp

lemma draft_decode_holds:
  assumes S: "serves Q R P A" and at: "holds Q R A h kv lin" and y: "y \<noteq> []" and n: "0 < n"
  shows "\<exists>ts kv' lin'. draft_decode_n Z A y n kv (arm_lin_tapes lin) = Inr (ts, kv', lin') \<and> length ts = n \<and>
    stack_at (shapes A) (h @ y @ butlast ts) kv' \<and> mid_round Q R A h (y @ butlast ts) lin' \<and>
    (1 < n \<longrightarrow> single_last A (h @ y @ butlast ts) kv')"
proof -
  obtain m where n: "n = Suc m" using n by (cases n) auto
  have arm: "holds Q R A h kv (arm_lin_tapes lin)" using at by (simp add: holds_arm)
  from serves_arr [OF S y arm] obtain lin1 lg where
    f: "ar_forward_arr A y kv (arm_lin_tapes lin) = Inr (map (layer_write y) kv, lin1, lg)"
    and st: "lin_step Q R A h y (arm_lin_tapes lin) lin1" by auto
  define t1 where "t1 = so_argmax Z lg"
  let ?kv = "map (layer_write y) kv"
  have "stack_at (shapes A) (h @ y) ?kv" using holds_write [OF arm st y] by (simp add: holds_def)
  moreover have "mid_round Q R A h y lin1" using lin_step_first [OF st] at by (simp add: holds_def)
  ultimately obtain ts kv' lin' where "draft_loop Z A m [t1] ?kv lin1 = Inr (ts, kv', lin')" "length ts = m"
    "stack_at (shapes A) (h @ y @ butlast (t1 # ts)) kv'" "mid_round Q R A h (y @ butlast (t1 # ts)) lin'"
    "0 < m \<longrightarrow> single_last A (h @ y @ butlast (t1 # ts)) kv'"
    using draft_loop_holds [OF S, of h y ?kv lin1 Z m t1] by blast
  then show ?thesis using y by (simp add: draft_decode_n_def n f t1_def [symmetric] Let_def)
qed

section \<open>The acceptance walk\<close>

fun greedy :: "(u32 list \<Rightarrow> u32) \<Rightarrow> nat \<Rightarrow> u32 list \<Rightarrow> u32 list" where
  "greedy nxt 0 h = []"
| "greedy nxt (Suc n) h = nxt h # greedy nxt n (h @ [nxt h])"

lemma greedy_length [simp]: "length (greedy nxt n h) = n" by (induction n arbitrary: h) auto

lemma greedy_add: "greedy nxt (m + n) h = greedy nxt m h @ greedy nxt n (h @ greedy nxt m h)"
  by (induction m arbitrary: h) auto

lemma take_greedy: "take m (greedy nxt n h) = greedy nxt (min m n) h"
proof (induction n arbitrary: m h)
  case (Suc n)
  show ?case by (cases m) (simp_all add: Suc.IH)
qed simp

text \<open>\<open>vs\<close> is the verifier's token after each position of the round, the carry being the last of \<open>h\<close>.\<close>

lemma accept_walk_greedy:
  assumes "length vs = Suc (length ds)" "\<And>i. i \<le> length ds \<Longrightarrow> vs ! i = nxt (h @ take i ds)"
  shows "\<exists>a \<le> length ds. accept_walk vs ds budget = (a, greedy nxt (min budget (Suc a)) h) \<and> take a ds = greedy nxt a h"
  using assms
proof (induction ds arbitrary: vs h budget)
  case Nil
  then obtain v where vs: "vs = [v]" "v = nxt h" by (cases vs) auto
  then show ?case by (cases budget) auto
next
  case (Cons d ds)
  then obtain v vs' where vs: "vs = v # vs'" "length vs' = Suc (length ds)" by (cases vs) auto
  have v: "v = nxt h" using Cons.prems(2) [of 0] vs by simp
  show ?case
  proof (cases "d = v")
    case True
    have "vs' ! i = nxt ((h @ [d]) @ take i ds)" if "i \<le> length ds" for i
      using Cons.prems(2) [of "Suc i"] vs that by simp
    from Cons.IH [OF vs(2) this, of "budget - 1"] obtain a where a: "a \<le> length ds"
      "accept_walk vs' ds (budget - 1) = (a, greedy nxt (min (budget - 1) (Suc a)) (h @ [d]))"
      "take a ds = greedy nxt a (h @ [d])" by blast
    show ?thesis
      by (rule exI [of _ "Suc a"]) (use a True v vs in \<open>cases budget; auto\<close>)
  next
    case False
    show ?thesis by (rule exI [of _ 0]) (use False v vs in \<open>cases budget; auto\<close>)
  qed
qed

section \<open>Bytes of an argmax\<close>

lemma u32_le_roundtrip: "u32_of_le (u32_to_le w) = w"
proof (rule bit_word_eqI)
  fix n assume "n < LENGTH(32)"
  then consider "n < 8" | "8 \<le> n" "n < 16" | "16 \<le> n" "n < 24" | "24 \<le> n" "n < 32" by fastforce
  then show "bit (u32_of_le (u32_to_le w)) n \<longleftrightarrow> bit w n"
    by cases (auto simp: u32_of_le_def u32_to_le_def bit_simps)
qed

lemma chunk4_Cons: "chunk4 (u32_to_le w @ bs) i = (case i of 0 \<Rightarrow> u32_to_le w | Suc j \<Rightarrow> chunk4 bs j)"
proof -
  have "length (u32_to_le w) = 4" by (simp add: u32_to_le_def)
  then show ?thesis by (cases i) (simp_all add: chunk4_def)
qed

lemma chunk4_concat: "i < length ws \<Longrightarrow> chunk4 (concat (map u32_to_le ws)) i = u32_to_le (ws ! i)"
  by (induction ws arbitrary: i) (simp_all add: chunk4_Cons nth_Cons split: nat.split)

lemma argmax_tokens_roundtrip: "argmax_tokens (concat (map u32_to_le ws)) (length ws) = Inr ws"
proof -
  have "length (concat (map u32_to_le ws)) = length ws * 4" by (induction ws) (simp_all add: u32_to_le_def)
  then show ?thesis by (auto simp: argmax_tokens_def chunk4_concat u32_le_roundtrip intro: nth_equalityI)
qed

lemma block_tokens_argmax:
  assumes "\<not> vw_sampling w" "length rows = n"
  shows "block_tokens Z rows n w = Inr (map (so_argmax Z) rows, keep_scored rows w)"
proof -
  have "argmax_bytes Z rows = concat (map u32_to_le (map (so_argmax Z) rows))" by (simp add: argmax_bytes_def)
  moreover have "vw_sampling (keep_scored rows w) = vw_sampling w" by (simp add: keep_scored_def)
  ultimately show ?thesis
    using argmax_tokens_roundtrip [of "map (so_argmax Z) rows"] assms by (simp add: block_tokens_def Let_def)
qed

section \<open>The emission\<close>

text \<open>
  The reference: one token at a time off the verifier's logits at the history, to the same
  callback, until one ends the request or the budget is spent.
\<close>

definition pick :: "('lg, 'pr, 'lp, 'r) sampler_ops \<Rightarrow> (u32 list \<Rightarrow> 'lg) \<Rightarrow> u32 list \<Rightarrow> u32" where
  "pick Z logits h = so_argmax Z (logits h)"

definition pick_logprobs ::
  "('lg, 'pr, 'lp, 'r) sampler_ops \<Rightarrow> nat \<Rightarrow> (u32 list \<Rightarrow> 'lg) \<Rightarrow> u32 list \<Rightarrow> spec_error + 'lp option" where
  "pick_logprobs Z k logits h =
     (if k = 0 then Inr None else try_bind (so_top_logprobs Z (logits h) (pick Z logits h) k) (\<lambda>lp. Inr (Some lp)))"

fun greedy_emit ::
  "('lg, 'pr, 'lp, 'r) sampler_ops \<Rightarrow> ('s, 'lp, 'r) round_cfg \<Rightarrow> (u32 list \<Rightarrow> 'lg) \<Rightarrow> nat \<Rightarrow> u32 list \<Rightarrow> ('s, 'lp) sink \<Rightarrow>
   spec_error + (('s, 'lp) sink \<times> bool)" where
  "greedy_emit Z C logits 0 h sk = Inr (sk, False)"
| "greedy_emit Z C logits (Suc n) h sk =
     try_bind (pick_logprobs Z (cf_top_k C) logits h) (\<lambda>lp.
       case emit_step C (pick Z logits h) lp sk of
         (sk, shown) \<Rightarrow>
           let sk = (attribute FullVocab sk)\<lparr>sk_in_rounds := sk_in_rounds sk + 1\<rparr>
           in if em_ends shown then Inr (sk, True) else greedy_emit Z C logits n (h @ [pick Z logits h]) sk)"

text \<open>
  The specification of a request over sets of rows. \<open>show_row\<close> shows the best token of one row;
  \<open>greedy_run\<close> shows one token after another, each the best of a row the model may give at the
  history shown so far, until one ends the request, the budget is spent or a row is refused.
\<close>

definition show_row ::
  "('lg, 'pr, 'lp, 'r) sampler_ops \<Rightarrow> ('s, 'lp, 'r) round_cfg \<Rightarrow> 'lg \<Rightarrow> ('s, 'lp) sink \<Rightarrow>
   spec_error + (('s, 'lp) sink \<times> bool)" where
  "show_row Z C lg sk =
     try_bind (pick_logprobs Z (cf_top_k C) (\<lambda>_. lg) []) (\<lambda>lp.
       case emit_step C (so_argmax Z lg) lp sk of
         (sk, shown) \<Rightarrow> Inr ((attribute FullVocab sk)\<lparr>sk_in_rounds := sk_in_rounds sk + 1\<rparr>, em_ends shown))"

inductive greedy_run ::
  "('lg, 'pr, 'lp, 'r) sampler_ops \<Rightarrow> ('s, 'lp, 'r) round_cfg \<Rightarrow> (u32 list \<Rightarrow> 'lg set) \<Rightarrow> nat \<Rightarrow> u32 list \<Rightarrow>
   ('s, 'lp) sink \<Rightarrow> u32 list \<Rightarrow> spec_error + (('s, 'lp) sink \<times> bool) \<Rightarrow> bool"
  for Z C P where
  spent: "greedy_run Z C P 0 h sk h (Inr (sk, False))"
| refused: "lg \<in> P h \<Longrightarrow> show_row Z C lg sk = Inl e \<Longrightarrow> greedy_run Z C P (Suc n) h sk h (Inl e)"
| ended: "lg \<in> P h \<Longrightarrow> show_row Z C lg sk = Inr (sk', True) \<Longrightarrow>
    greedy_run Z C P (Suc n) h sk (h @ [so_argmax Z lg]) (Inr (sk', True))"
| shown: "lg \<in> P h \<Longrightarrow> show_row Z C lg sk = Inr (sk', False) \<Longrightarrow>
    greedy_run Z C P n (h @ [so_argmax Z lg]) sk' h' res \<Longrightarrow> greedy_run Z C P (Suc n) h sk h' res"

inductive_cases greedy_run_0E: "greedy_run Z C P 0 h sk h' res"
inductive_cases greedy_run_SucE: "greedy_run Z C P (Suc n) h sk h' res"

lemma greedy_emit_Suc:
  "greedy_emit Z C logits (Suc n) h sk =
     try_bind (show_row Z C (logits h) sk) (\<lambda>(sk, b).
       if b then Inr (sk, True) else greedy_emit Z C logits n (h @ [pick Z logits h]) sk)"
proof -
  have lp: "pick_logprobs Z k (\<lambda>_. logits h) [] = pick_logprobs Z k logits h" for k
    by (simp add: pick_logprobs_def pick_def)
  show ?thesis
  proof (cases "pick_logprobs Z (cf_top_k C) logits h")
    case (Inr x)
    obtain sk1 em where "emit_step C (pick Z logits h) x sk = (sk1, em)" by fastforce
    with Inr show ?thesis by (simp add: show_row_def lp pick_def [symmetric] Let_def)
  qed (simp add: show_row_def lp)
qed

text \<open>A run of the reference is a run of the specification, and runs compose.\<close>

lemma greedy_emit_run:
  "(\<forall>j < n. logits (h @ greedy (pick Z logits) j h) \<in> P (h @ greedy (pick Z logits) j h)) \<Longrightarrow>
    (case greedy_emit Z C logits n h sk of
       Inl e \<Rightarrow> \<exists>h'. greedy_run Z C P n h sk h' (Inl e)
     | Inr (sk', b) \<Rightarrow> \<exists>h'. greedy_run Z C P n h sk h' (Inr (sk', b)) \<and>
         (\<not> b \<longrightarrow> h' = h @ greedy (pick Z logits) n h))"
proof (induction n arbitrary: h sk)
  case 0
  show ?case using greedy_run.spent by auto
next
  case (Suc n)
  let ?t = "pick Z logits h" and ?h = "h @ [pick Z logits h]"
  have P: "logits h \<in> P h" using Suc.prems [rule_format, of 0] by simp
  have "logits (?h @ greedy (pick Z logits) j ?h) \<in> P (?h @ greedy (pick Z logits) j ?h)" if "j < n" for j
    using Suc.prems [rule_format, of "Suc j"] that by simp
  note ih = Suc.IH [of ?h, OF allI, OF impI, OF this]
  show ?case
  proof (cases "show_row Z C (logits h) sk")
    case (Inl e)
    have "greedy_run Z C P (Suc n) h sk h (Inl e)" by (rule greedy_run.refused) (rule P, rule Inl)
    then show ?thesis using Inl by (auto simp only: greedy_emit_Suc try_bind.simps sum.case)
  next
    case (Inr skb)
    obtain sk1 b where skb: "skb = (sk1, b)" by fastforce
    show ?thesis
    proof (cases b)
      case True
      have "greedy_run Z C P (Suc n) h sk (h @ [so_argmax Z (logits h)]) (Inr (sk1, True))"
        by (rule greedy_run.ended) (rule P, use Inr skb True in simp)
      then show ?thesis using Inr skb True by (auto simp only: greedy_emit_Suc try_bind.simps sum.case prod.case if_True)
    next
      case False
      have on: "greedy_run Z C P n ?h sk1 h' res \<Longrightarrow> greedy_run Z C P (Suc n) h sk h' res" for h' res
        by (rule greedy_run.shown) (rule P, use Inr skb False in \<open>simp_all add: pick_def\<close>)
      have g: "greedy_emit Z C logits (Suc n) h sk = greedy_emit Z C logits n ?h sk1"
        using Inr skb False by (simp only: greedy_emit_Suc try_bind.simps prod.case if_False)
      have e: "?h @ greedy (pick Z logits) n ?h = h @ greedy (pick Z logits) (Suc n) h" by simp
      show ?thesis unfolding g e [symmetric] using ih [of sk1] on
        by (auto split: sum.splits simp del: greedy.simps append_assoc)
    qed
  qed
qed

lemma greedy_run_append:
  "greedy_run Z C P m h sk h1 (Inr (sk1, False)) \<Longrightarrow> greedy_run Z C P n h1 sk1 h' res \<Longrightarrow>
    greedy_run Z C P (m + n) h sk h' res"
  by (induction m h sk h1 "Inr (sk1, False) :: spec_error + _" rule: greedy_run.induct)
    (auto intro: greedy_run.shown)

lemma greedy_run_stopped:
  "greedy_run Z C P m h sk h' res \<Longrightarrow> (case res of Inl e \<Rightarrow> True | Inr (sk', b) \<Rightarrow> b) \<Longrightarrow> greedy_run Z C P (m + n) h sk h' res"
  by (induction rule: greedy_run.induct) (auto intro: greedy_run.intros)

lemma show_row_steps:
  "show_row Z C lg sk = Inr (sk', b) \<Longrightarrow>
     map ps_token_id (sk_steps sk') = map ps_token_id (sk_steps sk) @ [so_argmax Z lg]"
  by (auto simp: show_row_def try_bind_Inr emit_step_def emit_token_def attribute_def Let_def split: prod.splits if_splits)

lemma greedy_run_extends: "greedy_run Z C P n h sk h' res \<Longrightarrow> \<exists>ts. h' = h @ ts"
  by (induction rule: greedy_run.induct) auto

lemma greedy_run_shows:
  "greedy_run Z C P n h sk h' res \<Longrightarrow> res = Inr (sk', b) \<Longrightarrow>
     \<exists>ts. h' = h @ ts \<and> map ps_token_id (sk_steps sk') = map ps_token_id (sk_steps sk) @ ts"
proof (induction arbitrary: sk' b rule: greedy_run.induct)
  case (shown lg h sk sk1 n h' res)
  from shown.IH [OF shown.prems] show_row_steps [OF shown.hyps(2)] show ?case by auto
qed (auto dest: show_row_steps)

text \<open>
  Without logprobs, a run and the decoding of one row per history show the same, or part at a
  history where the run's row and the given row have different best tokens.
\<close>

lemma greedy_run_parts:
  "greedy_run Z C P n h sk h' res \<Longrightarrow> cf_top_k C = 0 \<Longrightarrow>
     (\<exists>sk' b. res = Inr (sk', b)) \<and>
     (res = greedy_emit Z C plain n h sk \<or>
      (\<exists>j lg rest. let g = h @ greedy (pick Z plain) j h in
         j < n \<and> h' = g @ so_argmax Z lg # rest \<and> lg \<in> P g \<and> so_argmax Z lg \<noteq> so_argmax Z (plain g)))"
proof (induction rule: greedy_run.induct)
  case (refused lg h sk e n)
  then show ?case by (simp add: show_row_def pick_logprobs_def split: prod.splits)
next
  case (ended lg h sk sk' n)
  show ?case
  proof (cases "so_argmax Z lg = so_argmax Z (plain h)")
    case True
    then have "show_row Z C (plain h) sk = Inr (sk', True)"
      using ended by (simp add: show_row_def pick_logprobs_def)
    then have "greedy_emit Z C plain (Suc n) h sk = Inr (sk', True)" by (simp only: greedy_emit_Suc try_bind.simps prod.case if_True)
    then show ?thesis by auto
  next
    case False
    with ended.hyps show ?thesis by (auto intro!: exI [of _ 0])
  qed
next
  case (shown lg h sk sk' n h' res)
  show ?case
  proof (cases "so_argmax Z lg = so_argmax Z (plain h)")
    case True
    then have row: "show_row Z C (plain h) sk = Inr (sk', False)"
      using shown by (simp add: show_row_def pick_logprobs_def)
    have t: "so_argmax Z lg = pick Z plain h" using True by (simp add: pick_def)
    from row have g: "greedy_emit Z C plain (Suc n) h sk = greedy_emit Z C plain n (h @ [pick Z plain h]) sk'"
      by (simp del: greedy_emit.simps add: greedy_emit_Suc)
    have e: "h @ greedy (pick Z plain) (Suc j) h = (h @ [pick Z plain h]) @ greedy (pick Z plain) j (h @ [pick Z plain h])" for j
      by simp
    from shown.IH [OF shown.prems, unfolded t] show ?thesis
      unfolding g Let_def by (metis e Suc_less_eq)
  next
    case False
    obtain ts where "h' = (h @ [so_argmax Z lg]) @ ts" using greedy_run_extends [OF shown.hyps(3)] by blast
    with False shown.hyps shown.IH [OF shown.prems] show ?thesis by (auto intro!: exI [of _ 0])
  qed
qed (auto)

text \<open>The rows an emission reads its logprobs from, for a block of \<open>n\<close> tokens at \<open>h\<close>.\<close>

definition scores ::
  "nat \<Rightarrow> (u32 list \<Rightarrow> 'lg) \<Rightarrow> (u32 list \<Rightarrow> u32) \<Rightarrow> u32 list \<Rightarrow> nat \<Rightarrow> nat \<Rightarrow> 'lg list option \<Rightarrow> bool" where
  "scores top_k logits nxt h i n scored \<longleftrightarrow>
     (if top_k = 0 then scored = None
      else \<exists>rows. scored = Some rows \<and> i + n \<le> length rows \<and> (\<forall>j < n. rows ! (i + j) = logits (h @ greedy nxt j h)))"

lemma scores_Suc:
  assumes "scores k logits nxt h i (Suc n) scored"
  shows "scores k logits nxt (h @ [nxt h]) (Suc i) n scored"
proof (cases "k = 0")
  case False
  with assms obtain rows where r: "scored = Some rows" "Suc i + n \<le> length rows"
    "\<And>j. j < Suc n \<Longrightarrow> rows ! (i + j) = logits (h @ greedy nxt j h)" by (auto simp: scores_def)
  have "rows ! (Suc i + j) = logits ((h @ [nxt h]) @ greedy nxt j (h @ [nxt h]))" if "j < n" for j
    using r(3) [of "Suc j"] that by simp
  with r False show ?thesis by (auto simp: scores_def)
qed (use assms in \<open>simp add: scores_def\<close>)

lemma row_logprobs_scores:
  assumes "scores (cf_top_k C) logits nxt h i (Suc n) scored"
  shows "row_logprobs Z (cf_top_k C) scored i (pick Z logits h) = pick_logprobs Z (cf_top_k C) logits h"
proof (cases "cf_top_k C = 0")
  case False
  with assms obtain rows where "scored = Some rows" "i < length rows" "rows ! i = logits h"
    by (fastforce simp: scores_def)
  with False show ?thesis
    by (cases "so_top_logprobs Z (logits h) (pick Z logits h) (cf_top_k C)")
      (simp_all add: row_logprobs_def scored_logprobs_def pick_logprobs_def)
qed (use assms in \<open>simp add: scores_def row_logprobs_def pick_logprobs_def\<close>)

lemma emit_from_greedy:
  "length (sk_steps sk) + m \<le> n \<Longrightarrow> scores (cf_top_k C) logits (pick Z logits) h i m scored \<Longrightarrow>
    (case greedy_emit Z C logits m h sk of
       Inl e \<Rightarrow> emit_from Z C scored n 0 i (greedy (pick Z logits) m h) sk = Inl e
     | Inr (sk', b) \<Rightarrow> \<exists>k. emit_from Z C scored n 0 i (greedy (pick Z logits) m h) sk = Inr (sk', k, b) \<and>
         (\<not> b \<longrightarrow> length (sk_steps sk') = length (sk_steps sk) + m))"
proof (induction m arbitrary: h i sk)
  case (Suc m)
  have lt: "length (sk_steps sk) < n" using Suc.prems(1) by simp
  note rl = row_logprobs_scores [OF Suc.prems(2), of Z]
  show ?case
  proof (cases "pick_logprobs Z (cf_top_k C) logits h")
    case (Inl e)
    with lt rl show ?thesis by (simp add: not_le)
  next
    case (Inr lp)
    obtain sk1 em where e: "emit_step C (pick Z logits h) lp sk = (sk1, em)" by fastforce
    define sk2 where "sk2 = (attribute FullVocab sk1)\<lparr>sk_in_rounds := sk_in_rounds sk1 + 1\<rparr>"
    have at: "sk2 = (attribute (if i < 0 then RestrictedVocab else FullVocab) sk1)\<lparr>sk_in_rounds := sk_in_rounds sk1 + 1\<rparr>"
      by (simp add: sk2_def)
    note st = emit_from_step [OF lt rl [unfolded Inr] e at]
    have len: "length (sk_steps sk2) = Suc (length (sk_steps sk))"
      using emit_step_sink [OF e] by (simp add: sk2_def attribute_def)
    have g: "greedy_emit Z C logits (Suc m) h sk =
        (if em_ends em then Inr (sk2, True) else greedy_emit Z C logits m (h @ [pick Z logits h]) sk2)"
      using Inr e by (simp add: sk2_def Let_def)
    show ?thesis
    proof (cases "em_ends em")
      case True
      then show ?thesis using st g by simp
    next
      case False
      have "length (sk_steps sk2) + m \<le> n" using Suc.prems(1) len by simp
      note ih = Suc.IH [OF this scores_Suc [OF Suc.prems(2)]]
      have g': "greedy_emit Z C logits (Suc m) h sk = greedy_emit Z C logits m (h @ [pick Z logits h]) sk2"
        using g False by simp
      have f: "emit_from Z C scored n 0 i (greedy (pick Z logits) (Suc m) h) sk =
          emit_from Z C scored n 0 (Suc i) (greedy (pick Z logits) m (h @ [pick Z logits h])) sk2"
        using st False by simp
      show ?thesis unfolding g' f using ih len by (auto split: sum.splits)
    qed
  qed
qed simp

lemma greedy_emit_add:
  "greedy_emit Z C logits (m + n) h sk =
    try_bind (greedy_emit Z C logits m h sk) (\<lambda>(sk, b).
      if b then Inr (sk, True) else greedy_emit Z C logits n (h @ greedy (pick Z logits) m h) sk)"
proof (induction m arbitrary: h sk)
  case (Suc m)
  show ?case
  proof (cases "pick_logprobs Z (cf_top_k C) logits h")
    case (Inr lp)
    obtain sk1 em where e: "emit_step C (pick Z logits h) lp sk = (sk1, em)" by fastforce
    have h: "h @ greedy (pick Z logits) (Suc m) h =
        (h @ [pick Z logits h]) @ greedy (pick Z logits) m (h @ [pick Z logits h])" by simp
    from Inr e Suc.IH show ?thesis unfolding h by (simp add: Let_def del: append_assoc)
  qed simp
qed simp

end
