(* ===== verification/SpecExactMain.thy ===== *)
theory SpecExactMain
  imports SpecExactBase
begin

text \<open>
  The rounds of the greedy two-model run: the verifier's block, the commit of its verdict and the
  rollback of both stacks keep the history the stacks represent, and the tokens a round shows
  extend a \<open>greedy_run\<close>.
\<close>

section \<open>A round\<close>

lemma give_back_full:
  assumes "\<forall>m. Window m \<notin> set S" "stack_at S (h @ new) kv"
  shows "can_give_back h new S kv"
  unfolding can_give_back_def list_all2_conv_all_nth
proof (intro conjI allI impI)
  show "length S = length kv" using assms(2) by (simp add: stack_at_def list_all2_lengthD)
next
  fix i n assume i: "i < length S" "S ! i \<noteq> Idle" "n < length new"
  then have "layer_at (h @ new) (S ! i) (kv ! i)" using assms(2) by (simp add: stack_at_def list_all2_nthD)
  moreover have "S ! i = Full" using assms(1) i by (cases "S ! i") (auto dest: nth_mem)
  ultimately show "kl_can_truncate_to (al_kv (kv ! i)) (int (length h + n))"
    using i by (simp add: kl_can_truncate_to_def)
qed

lemma tm_propose_holds:
  assumes S: "serves Q R P A" and at: "holds Q R A h (tm_kv d) (tm_lin d)"
    and d: "tm_seed d \<noteq> []" "tm_accept d = Prefix" and n: "0 < drafts_per_round bs"
  shows "\<exists>ts kv lin. length ts = drafts_per_round bs \<and>
    tm_propose Z A d cx carry bs = Inr (d\<lparr>tm_kv := kv, tm_lin := lin, tm_fed := tm_seed d @ butlast ts,
      tm_proposals := length ts, tm_last_proposal := Some (last ts)\<rparr>, cx, ts) \<and>
    stack_at (shapes A) (h @ tm_seed d @ butlast ts) kv \<and> mid_round Q R A h (tm_seed d @ butlast ts) lin \<and>
    (1 < length ts \<longrightarrow> single_last A (h @ tm_seed d @ butlast ts) kv)"
proof -
  from draft_decode_holds [OF S at d(1) n, of Z] obtain ts kv lin where
    "draft_decode_n Z A (tm_seed d) (drafts_per_round bs) (tm_kv d) (arm_lin_tapes (tm_lin d)) = Inr (ts, kv, lin)"
    "length ts = drafts_per_round bs" "stack_at (shapes A) (h @ tm_seed d @ butlast ts) kv"
    "mid_round Q R A h (tm_seed d @ butlast ts) lin"
    "1 < drafts_per_round bs \<longrightarrow> single_last A (h @ tm_seed d @ butlast ts) kv" by blast
  moreover from this n have "ts \<noteq> []" by auto
  ultimately show ?thesis using d
    by (intro exI [of _ ts] exI [of _ kv] exI [of _ lin]) (simp add: tm_propose_def fill_fed_def Let_def)
qed

text \<open>The verifier's block, with the rows it gave: \<open>vl\<close> is the row of each position of the round.\<close>

lemma tm_verify_holds:
  assumes S: "serves Q R P A" and at: "holds Q R A hv (cx_kv cx) (cx_lin cx)"
    and d: "tm_accept d = Prefix" and w: "\<not> vw_sampling (cx_draw cx)" and fed: "fed = carry # ds" and h: "h = hv @ [carry]"
  shows "\<exists>a rows vl lin'. a \<le> length ds \<and>
    tm_verify Z A d (cx\<lparr>cx_lin := arm_lin_tapes (cx_lin cx)\<rparr>) fed remaining =
      Inr (d, cx\<lparr>cx_kv := map (layer_write fed) (cx_kv cx), cx_lin := lin', cx_draw := keep_scored rows (cx_draw cx)\<rparr>,
           \<lparr>vd_accept = a, vd_commit = greedy (pick Z vl) (min remaining (Suc a)) h, vd_restricted = 0\<rparr>) \<and>
    mid_round Q R A hv fed lin' \<and> take a ds = greedy (pick Z vl) a h \<and> length rows = Suc (length ds) \<and>
    (\<forall>j \<le> a. rows ! j = vl (h @ greedy (pick Z vl) j h) \<and> rows ! j \<in> P (h @ greedy (pick Z vl) j h))"
proof -
  have arm: "holds Q R A hv (cx_kv cx) (arm_lin_tapes (cx_lin cx))" using at by (simp add: holds_arm)
  have ne: "fed \<noteq> []" by (simp add: fed)
  obtain lin' rows where
    fwd: "ar_forward_seq A fed (length fed) (cx_kv cx) (arm_lin_tapes (cx_lin cx)) = Inr (map (layer_write fed) (cx_kv cx), lin', rows)"
    and st: "lin_step Q R A hv fed (arm_lin_tapes (cx_lin cx)) lin'" and len: "length rows = length fed"
    and P: "\<And>i. i < length fed \<Longrightarrow> rows ! i \<in> P (hv @ take (Suc (length fed - length fed + i)) fed)"
    by (rule serves_seq [OF S ne arm, of "length fed"]) (use ne in auto)
  have len: "length rows = Suc (length ds)" using len by (simp add: fed)
  have P: "rows ! i \<in> P (h @ take i ds)" if "i \<le> length ds" for i
    using P [of i] that len by (simp add: fed h)
  define vl where "vl = (\<lambda>p :: u32 list. rows ! (length p - length h))"
  have row: "rows ! i = vl (h @ take i ds)" if "i \<le> length ds" for i
    using that by (simp add: vl_def min_def)
  define vs where "vs = map (so_argmax Z) rows"
  have "length vs = Suc (length ds)" "\<And>i. i \<le> length ds \<Longrightarrow> vs ! i = pick Z vl (h @ take i ds)"
    using len row by (simp_all add: vs_def pick_def)
  from accept_walk_greedy [OF this, where budget = remaining] obtain a where
    a: "a \<le> length ds" "accept_walk vs ds remaining = (a, greedy (pick Z vl) (min remaining (Suc a)) h)"
      "take a ds = greedy (pick Z vl) a h" by blast
  have v: "accept_prefix vs ds remaining = Inr (a, greedy (pick Z vl) (min remaining (Suc a)) h)"
    using a(2) len by (simp add: accept_prefix_def vs_def)
  have tk: "take j ds = greedy (pick Z vl) j h" if "j \<le> a" for j
  proof -
    have "take j ds = take j (take a ds)" using that by (simp add: min_def)
    then show ?thesis using that by (simp add: a(3) take_greedy min_def)
  qed
  have blk: "block_tokens Z rows (length fed) (cx_draw cx) = Inr (vs, keep_scored rows (cx_draw cx))"
    using block_tokens_argmax [OF w, of rows "length fed" Z] len by (simp add: vs_def fed)
  have "tm_verify Z A d (cx\<lparr>cx_lin := arm_lin_tapes (cx_lin cx)\<rparr>) fed remaining =
      Inr (d, cx\<lparr>cx_kv := map (layer_write fed) (cx_kv cx), cx_lin := lin', cx_draw := keep_scored rows (cx_draw cx)\<rparr>,
           \<lparr>vd_accept = a, vd_commit = greedy (pick Z vl) (min remaining (Suc a)) h, vd_restricted = 0\<rparr>)"
    using fwd blk v d by (simp add: tm_verify_def fed Let_def)
  moreover have "\<forall>j \<le> a. rows ! j = vl (h @ greedy (pick Z vl) j h) \<and> rows ! j \<in> P (h @ greedy (pick Z vl) j h)"
    using row P tk a(1) by (metis le_trans)
  moreover have "mid_round Q R A hv fed lin'" using lin_step_first [OF st] at by (simp add: holds_def)
  ultimately show ?thesis using a len by blast
qed

text \<open>\<open>rollback_round_at\<close> for a stack whose recurrent rows come from a set.\<close>

lemma rollback_mid_round:
  assumes at: "stack_at (shapes A) (h @ fed) kv" and gb: "can_give_back h fed (shapes A) kv" and lin: "mid_round Q R A h fed lin"
    and n: "0 < n" "n \<le> length fed"
  shows "\<exists>kv' lin' b. rollback_round (ar_gdn A) kv lin fed (int (length h)) (int (length h + n)) = Inr (kv', lin', b) \<and>
    holds Q R A (h @ take n fed) kv' lin'"
proof -
  from lin obtain inp where inp: "rows_from Q (h @ fed) inp" "lins_mid (ar_gdn A) inp R h fed lin" by (auto simp: mid_round_def)
  from rollback_round_at [OF at gb inp(2) n] rows_from_take [OF inp(1), of n] show ?thesis
    unfolding holds_def lin_holds_def by blast
qed

lemma tm_rollback_holds:
  assumes S: "serves Q R P A" and nw: "\<forall>m. Window m \<notin> set (shapes A)"
    and st: "stack_at (shapes A) (h @ tm_fed d) (tm_kv d)" and lin: "mid_round Q R A h (tm_fed d) (tm_lin d)"
    and fed: "tm_fed d = seed @ butlast ts" "seed \<noteq> []" "ts \<noteq> []" "tm_proposals d = length ts" "tm_last_proposal d = Some (last ts)"
    and a: "vd_accept v = a" "a \<le> length ts"
  shows "\<exists>d' span hd. tm_rollback A d v oc = Inr (d', span) \<and> holds Q R A hd (tm_kv d') (tm_lin d') \<and>
    tm_seed d' \<noteq> [] \<and> tm_accept d' = tm_accept d \<and> hd @ tm_seed d' = h @ seed @ take a ts @ [ro_carry oc]"
proof -
  define n where "n = length (tm_fed d) - (length ts - a - 1)"
  have adv: "advances (shapes A)" using S by (simp add: serves_def)
  have lens: "length (tm_fed d) = length seed + length ts - 1" "0 < length seed" "0 < length ts"
    using fed by (cases ts; simp)+
  then have n: "0 < n" "n \<le> length (tm_fed d)" unfolding n_def by linarith+
  have off: "stack_offset (tm_kv d) = Inr (int (length (h @ tm_fed d)))" by (rule stack_offset_at [OF st adv])
  have pre: "int (length (h @ tm_fed d)) - int (length (tm_fed d)) = int (length h)" by simp
  have target: "int (length (h @ tm_fed d)) - draft_rows_to_drop (tm_proposals d) (vd_accept v) = int (length h + n)"
    using lens a by (auto simp: draft_rows_to_drop_def n_def fed(4))
  from rollback_mid_round [OF st give_back_full [OF nw st] lin n] obtain kv lin' b where
    rb: "rollback_round (ar_gdn A) (tm_kv d) (tm_lin d) (tm_fed d) (int (length h)) (int (length h + n)) = Inr (kv, lin', b)"
    and at: "holds Q R A (h @ take n (tm_fed d)) kv lin'" by blast
  define seed' where "seed' = (if vd_accept v = tm_proposals d then (case tm_last_proposal d of None \<Rightarrow> [] | Some t \<Rightarrow> [t]) else []) @ [ro_carry oc]"
  define d' where "d' = d\<lparr>tm_kv := kv, tm_lin := lin', tm_seed := seed'\<rparr>"
  have "tm_rollback A d v oc = Inr (d', Some \<lparr>sp_before = int (length (h @ tm_fed d)), sp_target = int (length (h @ take n (tm_fed d)))\<rparr>)"
    unfolding tm_rollback_def off try_bind.simps pre target rb seed'_def [symmetric] d'_def
    using stack_offset_at [OF conjunct1 [OF at [unfolded holds_def]] adv] by simp
  moreover have "take n (tm_fed d) @ seed' = seed @ take a ts @ [ro_carry oc]"
  proof (cases "a = length ts")
    case True
    then have "n = length (tm_fed d)" by (simp add: n_def)
    with True fed a show ?thesis by (simp add: seed'_def)
  next
    case False
    with a lens have "n = length seed + a" "a < length ts" by (auto simp: n_def)
    with False fed a show ?thesis by (simp add: seed'_def take_butlast)
  qed
  ultimately show ?thesis using at
    by (intro exI [of _ d'] exI [of _ "h @ take n (tm_fed d)"]) (auto simp: d'_def seed'_def)
qed

text \<open>
  The state of the loop between two rounds: the verifier has processed the history but its last
  token, which the next round carries, and the draft model all but its seed.
\<close>

definition synced ::
  "(('x, 'g, 'i, 'd, 'y, 'lg) arch \<times> (nat \<Rightarrow> u32 list \<Rightarrow> ('x \<times> 'g) set) \<times> (nat \<Rightarrow> bool)) \<Rightarrow>
   (('x, 'g, 'i, 'd, 'y, 'lg) arch \<times> (nat \<Rightarrow> u32 list \<Rightarrow> ('x \<times> 'g) set) \<times> (nat \<Rightarrow> bool)) \<Rightarrow> nat \<Rightarrow> u32 list \<Rightarrow>
   (('x, 'i, 'd, 'pr) two_model, 'x, 'i, 'd, 'lg, 'r, 's, 'lp) round_state \<Rightarrow> bool" where
  "synced V D k h st \<longleftrightarrow>
     (case V of (A, Q, R) \<Rightarrow> \<exists>hv. h = hv @ [rl_carry st] \<and> holds Q R A hv (cx_kv (rl_ctx st)) (cx_lin (rl_ctx st))) \<and>
     (case D of (A, Q, R) \<Rightarrow> \<exists>hd. h = hd @ tm_seed (rl_drafter st) \<and>
        holds Q R A hd (tm_kv (rl_drafter st)) (tm_lin (rl_drafter st))) \<and>
     tm_seed (rl_drafter st) \<noteq> [] \<and> tm_accept (rl_drafter st) = Prefix \<and>
     \<not> vw_sampling (cx_draw (rl_ctx st)) \<and> vw_top_k (cx_draw (rl_ctx st)) = k \<and> rl_conditioned st = None"

lemma round_block_drafts: "0 < drafts_per_round (round_block b r)"
  by (simp add: drafts_per_round_def round_block_def)

lemma take_scored_keep:
  "take_scored (keep_scored rows w) =
     Inr (if vw_top_k w = 0 then (w, None) else (w\<lparr>vw_scored := None\<rparr>, Some rows))"
  by (simp add: take_scored_def keep_scored_def)

text \<open>What a round does from a synchronised state, up to its emission and after it.\<close>

lemma round_emit_greedy:
  assumes VS: "serves VQ VR VP V" and DS: "serves DQ DR DP A"
    and sync: "synced (V, VQ, VR) (A, DQ, DR) (cf_top_k C) h st"
  shows "\<exists>a vl ts hv hd kv lin cx scored.
    h = hv @ [rl_carry st] \<and> h = hd @ tm_seed (rl_drafter st) \<and> ts \<noteq> [] \<and> a \<le> length ts \<and>
    take a ts = greedy (pick Z vl) a h \<and> (\<forall>j \<le> a. vl (h @ greedy (pick Z vl) j h) \<in> VP (h @ greedy (pick Z vl) j h)) \<and>
    scores (cf_top_k C) vl (pick Z vl) h 0 (min (n - length (sk_steps (rl_sink st))) (Suc a)) scored \<and>
    round_emit Z (two_model_round Z V A rt env) C n False st =
      try_bind (emit_round_tokens Z C scored n 0 (greedy (pick Z vl) (min (n - length (sk_steps (rl_sink st))) (Suc a)) h) (rl_sink st))
        (\<lambda>(sk, committed, ended). Inr (st\<lparr>rl_drafter := (rl_drafter st)\<lparr>tm_kv := kv, tm_lin := lin,
             tm_fed := tm_seed (rl_drafter st) @ butlast ts, tm_proposals := length ts, tm_last_proposal := Some (last ts)\<rparr>,
           rl_ctx := cx, rl_sink := sk, rl_rounds := rl_rounds st + 1, rl_draft := rl_draft st + length ts,
           rl_accept := rl_accept st + a,
           rl_widest := max (rl_widest st) (round_block (cf_block_size C) (n - length (sk_steps (rl_sink st))))\<rparr>,
         rl_carry st # ts, int (length hv), int (length hv + Suc (length ts)),
         \<lparr>vd_accept = a, vd_commit = greedy (pick Z vl) (min (n - length (sk_steps (rl_sink st))) (Suc a)) h, vd_restricted = 0\<rparr>,
         committed, ended)) \<and>
    \<not> vw_sampling (cx_draw cx) \<and> vw_top_k (cx_draw cx) = cf_top_k C \<and>
    stack_at (shapes V) (hv @ rl_carry st # ts) (cx_kv cx) \<and> can_give_back hv (rl_carry st # ts) (shapes V) (cx_kv cx) \<and>
    mid_round VQ VR V hv (rl_carry st # ts) (cx_lin cx) \<and>
    stack_at (shapes A) (hd @ tm_seed (rl_drafter st) @ butlast ts) kv \<and>
    mid_round DQ DR A hd (tm_seed (rl_drafter st) @ butlast ts) lin"
proof -
  let ?cx = "rl_ctx st" and ?d = "rl_drafter st" and ?r = "n - length (sk_steps (rl_sink st))"
  from sync obtain hv hd where hv: "h = hv @ [rl_carry st]" "holds VQ VR V hv (cx_kv ?cx) (cx_lin ?cx)"
    and hd: "h = hd @ tm_seed ?d" "holds DQ DR A hd (tm_kv ?d) (tm_lin ?d)"
    and d: "tm_seed ?d \<noteq> []" "tm_accept ?d = Prefix" and w: "\<not> vw_sampling (cx_draw ?cx)" "vw_top_k (cx_draw ?cx) = cf_top_k C"
    unfolding synced_def prod.case by blast
  from tm_propose_holds [where Z = Z and cx = ?cx and carry = "rl_carry st", OF DS hd(2) d round_block_drafts [of "cf_block_size C" ?r]] obtain ts kv lin where
    ts: "length ts = drafts_per_round (round_block (cf_block_size C) ?r)"
    and pr: "tm_propose Z A ?d ?cx (rl_carry st) (round_block (cf_block_size C) ?r) =
      Inr (?d\<lparr>tm_kv := kv, tm_lin := lin, tm_fed := tm_seed ?d @ butlast ts, tm_proposals := length ts,
        tm_last_proposal := Some (last ts)\<rparr>, ?cx, ts)"
    and dk: "stack_at (shapes A) (hd @ tm_seed ?d @ butlast ts) kv" "mid_round DQ DR A hd (tm_seed ?d @ butlast ts) lin"
    by blast
  let ?d1 = "?d\<lparr>tm_kv := kv, tm_lin := lin, tm_fed := tm_seed ?d @ butlast ts, tm_proposals := length ts,
        tm_last_proposal := Some (last ts)\<rparr>"
  have ne: "ts \<noteq> []" using ts round_block_drafts [of "cf_block_size C" ?r] by auto
  let ?fed = "rl_carry st # ts"
  have d1: "tm_accept ?d1 = Prefix" using d by simp
  from tm_verify_holds [where fed = ?fed and carry = "rl_carry st" and ds = ts and remaining = ?r and Z = Z, OF VS hv(2) d1 w(1) refl hv(1)] obtain a rows vl vlin where
    a: "a \<le> length ts" "take a ts = greedy (pick Z vl) a h"
    and vf: "tm_verify Z V ?d1 (?cx\<lparr>cx_lin := arm_lin_tapes (cx_lin ?cx)\<rparr>) ?fed ?r =
      Inr (?d1, ?cx\<lparr>cx_kv := map (layer_write ?fed) (cx_kv ?cx), cx_lin := vlin, cx_draw := keep_scored rows (cx_draw ?cx)\<rparr>,
           \<lparr>vd_accept = a, vd_commit = greedy (pick Z vl) (min ?r (Suc a)) h, vd_restricted = 0\<rparr>)"
    and vmid: "mid_round VQ VR V hv ?fed vlin" and rows: "length rows = Suc (length ts)"
      "\<And>j. j \<le> a \<Longrightarrow> rows ! j = vl (h @ greedy (pick Z vl) j h)" "\<And>j. j \<le> a \<Longrightarrow> rows ! j \<in> VP (h @ greedy (pick Z vl) j h)"
    by blast
  let ?kv = "map (layer_write ?fed) (cx_kv ?cx)"
  have adv: "advances (shapes V)" using VS by (simp add: serves_def)
  have vst: "stack_at (shapes V) hv (cx_kv ?cx)" using hv(2) by (simp add: holds_def)
  have two: "2 \<le> length ?fed" using ne by (cases ts) auto
  note wr = stack_write_at [OF vst two]
  have pre: "stack_offset (cx_kv ?cx) = Inr (int (length hv))" by (rule stack_offset_at [OF vst adv])
  define e where "e = int (length hv + Suc (length ts))"
  have post: "stack_offset ?kv = Inr e"
    using stack_offset_at [OF conjunct1 [OF wr] adv] by (simp add: e_def)
  have ga: "guard_round_advance k (int (length hv)) e (Suc (length ts)) = Inr ()" for k
    by (simp add: guard_round_advance_def e_def)
  have gr: "guard_restricted_prefix False 0 a = Inr ()" by (simp add: guard_restricted_prefix_def)
  define scored where "scored = (if vw_top_k (cx_draw ?cx) = 0 then None else Some rows)"
  define wd where "wd = (if vw_top_k (cx_draw ?cx) = 0 then cx_draw ?cx else (cx_draw ?cx)\<lparr>vw_scored := None\<rparr>)"
  have tk: "take_scored (keep_scored rows (cx_draw ?cx)) = Inr (wd, scored)"
    by (simp add: take_scored_keep wd_def scored_def)
  define cx where "cx = ?cx\<lparr>cx_kv := ?kv, cx_lin := vlin, cx_draw := wd\<rparr>"
  have "round_emit Z (two_model_round Z V A rt env) C n False st =
      try_bind (emit_round_tokens Z C scored n 0 (greedy (pick Z vl) (min ?r (Suc a)) h) (rl_sink st))
        (\<lambda>(sk, committed, ended). Inr (st\<lparr>rl_drafter := ?d1,
           rl_ctx := cx, rl_sink := sk, rl_rounds := rl_rounds st + 1, rl_draft := rl_draft st + length ts,
           rl_accept := rl_accept st + a, rl_widest := max (rl_widest st) (round_block (cf_block_size C) ?r)\<rparr>,
         ?fed, int (length hv), e,
         \<lparr>vd_accept = a, vd_commit = greedy (pick Z vl) (min ?r (Suc a)) h, vd_restricted = 0\<rparr>, committed, ended))"
    using ne by (simp add: round_emit_def two_model_round_def pr vf pre post ga gr tk cx_def Let_def)
  moreover have "scores (cf_top_k C) vl (pick Z vl) h 0 (min ?r (Suc a)) scored"
    using rows(1,2) a(1) w(2) by (auto simp: scores_def scored_def)
  moreover have "\<forall>j \<le> a. vl (h @ greedy (pick Z vl) j h) \<in> VP (h @ greedy (pick Z vl) j h)" using rows(2,3) by metis
  moreover have "\<not> vw_sampling wd" "vw_top_k wd = cf_top_k C" using w by (simp_all add: wd_def)
  ultimately show ?thesis using hv(1) hd(1) ne a wr dk vmid
    by (intro exI [of _ a] exI [of _ vl] exI [of _ ts] exI [of _ hv] exI [of _ hd] exI [of _ kv] exI [of _ lin] exI [of _ cx] exI [of _ scored])
      (simp add: cx_def e_def)
qed

lemma greedy_snoc: "greedy p (Suc n) h = greedy p n h @ [p (h @ greedy p n h)]"
  using greedy_add [of p n "Suc 0" h] by simp

lemma round_settle_greedy:
  assumes VS: "serves VQ VR VP V" and DS: "serves DQ DR DP A" and nw: "\<forall>m. Window m \<notin> set (shapes A)"
    and vk: "stack_at (shapes V) (hv @ carry # ts) (cx_kv (rl_ctx st))" "can_give_back hv (carry # ts) (shapes V) (cx_kv (rl_ctx st))"
      "mid_round VQ VR V hv (carry # ts) (cx_lin (rl_ctx st))"
    and dk: "stack_at (shapes A) (dh @ tm_fed (rl_drafter st)) (tm_kv (rl_drafter st))"
      "mid_round DQ DR A dh (tm_fed (rl_drafter st)) (tm_lin (rl_drafter st))"
    and d: "tm_fed (rl_drafter st) = seed @ butlast ts" "seed \<noteq> []" "ts \<noteq> []" "tm_proposals (rl_drafter st) = length ts"
      "tm_last_proposal (rl_drafter st) = Some (last ts)" "tm_accept (rl_drafter st) = Prefix"
    and h: "h = hv @ [carry]" "h = dh @ seed" and a: "a \<le> length ts" "take a ts = greedy p a h"
    and w: "\<not> vw_sampling (cx_draw (rl_ctx st))" "vw_top_k (cx_draw (rl_ctx st)) = k" "rl_conditioned st = None"
    and v: "vd_accept v = a" "vd_commit v = greedy p m h"
  shows "\<exists>st'. round_settle V (two_model_round Z V A rt env) (carry # ts) (int (length hv)) post v committed st = Inr st' \<and>
    rl_sink st' = rl_sink st \<and> (m = Suc a \<longrightarrow> synced (V, VQ, VR) (A, DQ, DR) k (h @ greedy p m h) st')"
proof -
  have n: "0 < Suc a" "Suc a \<le> length (carry # ts)" using a by simp_all
  define e where "e = int (length hv + Suc a)"
  from rollback_mid_round [OF vk n, folded e_def] obtain kv lin b where
    rb: "rollback_round (ar_gdn V) (cx_kv (rl_ctx st)) (cx_lin (rl_ctx st)) (carry # ts) (int (length hv)) e = Inr (kv, lin, b)"
    and at: "holds VQ VR V (hv @ take (Suc a) (carry # ts)) kv lin" by blast
  have hist: "hv @ take (Suc a) (carry # ts) = h @ greedy p a h" using h(1) a(2) by simp
  have tgt: "rollback_target_from_head (int (length hv)) (vd_accept v) = e"
    by (simp add: rollback_target_from_head_def v(1) e_def)
  define cx where "cx = (rl_ctx st)\<lparr>cx_kv := kv, cx_lin := lin\<rparr>"
  define carry' where "carry' = (if vd_commit v = [] then rl_carry st else last (vd_commit v))"
  define oc where "oc = \<lparr>ro_round = rl_rounds st, ro_committed = committed, ro_verifier_target = e, ro_carry = carry'\<rparr>"
  from tm_rollback_holds [OF DS nw dk d(1-5) v(1) a(1), of oc] obtain d' span hd' where
    tr: "tm_rollback A (rl_drafter st) v oc = Inr (d', span)" "holds DQ DR A hd' (tm_kv d') (tm_lin d')" "tm_seed d' \<noteq> []"
      "tm_accept d' = Prefix" "hd' @ tm_seed d' = dh @ seed @ take a ts @ [carry']"
    using d(6) by (auto simp: oc_def)
  have eq: "\<exists>st'. round_settle V (two_model_round Z V A rt env) (carry # ts) (int (length hv)) post v committed st = Inr st' \<and>
      rl_sink st' = rl_sink st \<and> rl_drafter st' = d' \<and> rl_ctx st' = cx \<and> rl_carry st' = carry' \<and> rl_conditioned st' = None"
    unfolding round_settle_def tgt Let_def
    using rb tr(1) w(3)
    by (simp add: cx_def [symmetric] carry'_def [symmetric] oc_def [symmetric] two_model_round_def add_projected_def)
  have "synced (V, VQ, VR) (A, DQ, DR) k (h @ greedy p m h) st'"
    if "m = Suc a" "rl_drafter st' = d'" "rl_ctx st' = cx" "rl_carry st' = carry'" "rl_conditioned st' = None" for st'
  proof -
    have c: "carry' = p (h @ greedy p a h)" unfolding carry'_def v(2) that(1) greedy_snoc by simp
    have h': "h @ greedy p m h = (h @ greedy p a h) @ [carry']" unfolding that(1) greedy_snoc c by simp
    have "hd' @ tm_seed d' = (dh @ seed) @ greedy p a h @ [carry']" unfolding tr(5) a(2) by simp
    then have seq: "h @ greedy p m h = hd' @ tm_seed d'" unfolding h(2) [symmetric] h' by simp
    have vh: "holds VQ VR V (h @ greedy p a h) (cx_kv cx) (cx_lin cx)"
      using at unfolding hist by (simp add: cx_def)
    have w': "\<not> vw_sampling (cx_draw cx)" "vw_top_k (cx_draw cx) = k" using w by (simp_all add: cx_def)
    show ?thesis
      unfolding synced_def prod.case that(2-5) using h' vh seq tr(2-4) w' by blast
  qed
  with eq show ?thesis by blast
qed

text \<open>A round shows what the reference shows for the tokens it commits.\<close>

lemma round_step_greedy:
  assumes VS: "serves VQ VR VP V" and DS: "serves DQ DR DP A" and nw: "\<forall>m. Window m \<notin> set (shapes A)"
    and sync: "synced (V, VQ, VR) (A, DQ, DR) (cf_top_k C) h st" and lt: "length (sk_steps (rl_sink st)) < n"
    and D_def: "D = two_model_round Z V A rt env" and r_def: "r = n - length (sk_steps (rl_sink st))"
  shows "\<exists>a vl. (\<forall>j \<le> a. vl (h @ greedy (pick Z vl) j h) \<in> VP (h @ greedy (pick Z vl) j h)) \<and>
    (case greedy_emit Z C vl (min r (Suc a)) h (rl_sink st) of
       Inl e \<Rightarrow> round_step Z V D C n False st = Inl e
     | Inr (sk, b) \<Rightarrow> \<exists>st'. round_step Z V D C n False st = Inr (st', b) \<and> rl_sink st' = sk \<and>
         (\<not> b \<longrightarrow> length (sk_steps sk) = length (sk_steps (rl_sink st)) + min r (Suc a) \<and>
           (Suc a \<le> r \<longrightarrow> synced (V, VQ, VR) (A, DQ, DR) (cf_top_k C) (h @ greedy (pick Z vl) (Suc a) h) st')))"
proof -
  let ?d = "rl_drafter st"
  from round_emit_greedy [where n = n and Z = Z and rt = rt and env = env, OF VS DS sync] obtain a vl ts hv hd kv lin cx scored where
    h: "h = hv @ [rl_carry st]" "h = hd @ tm_seed ?d" and ts: "ts \<noteq> []" and a: "a \<le> length ts" "take a ts = greedy (pick Z vl) a h"
    and vl: "\<forall>j \<le> a. vl (h @ greedy (pick Z vl) j h) \<in> VP (h @ greedy (pick Z vl) j h)"
    and sc: "scores (cf_top_k C) vl (pick Z vl) h 0 (min r (Suc a)) scored"
    and em: "round_emit Z D C n False st =
      try_bind (emit_round_tokens Z C scored n 0 (greedy (pick Z vl) (min r (Suc a)) h) (rl_sink st))
        (\<lambda>(sk, committed, ended). Inr (st\<lparr>rl_drafter := ?d\<lparr>tm_kv := kv, tm_lin := lin,
             tm_fed := tm_seed ?d @ butlast ts, tm_proposals := length ts, tm_last_proposal := Some (last ts)\<rparr>,
           rl_ctx := cx, rl_sink := sk, rl_rounds := rl_rounds st + 1, rl_draft := rl_draft st + length ts,
           rl_accept := rl_accept st + a, rl_widest := max (rl_widest st) (round_block (cf_block_size C) r)\<rparr>,
         rl_carry st # ts, int (length hv), int (length hv + Suc (length ts)),
         \<lparr>vd_accept = a, vd_commit = greedy (pick Z vl) (min r (Suc a)) h, vd_restricted = 0\<rparr>, committed, ended))"
    and w: "\<not> vw_sampling (cx_draw cx)" "vw_top_k (cx_draw cx) = cf_top_k C"
    and vk: "stack_at (shapes V) (hv @ rl_carry st # ts) (cx_kv cx)" "can_give_back hv (rl_carry st # ts) (shapes V) (cx_kv cx)"
      "mid_round VQ VR V hv (rl_carry st # ts) (cx_lin cx)"
    and dk: "stack_at (shapes A) (hd @ tm_seed ?d @ butlast ts) kv" "mid_round DQ DR A hd (tm_seed ?d @ butlast ts) lin"
    unfolding D_def [symmetric] r_def [symmetric] by blast
  from sync have d: "tm_seed ?d \<noteq> []" "tm_accept ?d = Prefix" "rl_conditioned st = None" by (simp_all add: synced_def)
  have "length (sk_steps (rl_sink st)) + min r (Suc a) \<le> n" using lt by (simp add: r_def)
  note ef = emit_from_greedy [OF this sc, folded emit_round_tokens_def]
  show ?thesis
  proof (rule exI [of _ a], rule exI [of _ vl], rule conjI [OF vl], cases "greedy_emit Z C vl (min r (Suc a)) h (rl_sink st)")
    case (Inl e)
    with ef em show "case greedy_emit Z C vl (min r (Suc a)) h (rl_sink st) of
       Inl e \<Rightarrow> round_step Z V D C n False st = Inl e
     | Inr (sk, b) \<Rightarrow> \<exists>st'. round_step Z V D C n False st = Inr (st', b) \<and> rl_sink st' = sk \<and>
         (\<not> b \<longrightarrow> length (sk_steps sk) = length (sk_steps (rl_sink st)) + min r (Suc a) \<and>
           (Suc a \<le> r \<longrightarrow> synced (V, VQ, VR) (A, DQ, DR) (cf_top_k C) (h @ greedy (pick Z vl) (Suc a) h) st'))"
      by (simp add: round_step_def)
  next
    case (Inr skb)
    obtain sk b where skb: "skb = (sk, b)" by fastforce
    with Inr ef obtain c where c: "emit_round_tokens Z C scored n 0 (greedy (pick Z vl) (min r (Suc a)) h) (rl_sink st) = Inr (sk, c, b)"
      and len: "\<not> b \<Longrightarrow> length (sk_steps sk) = length (sk_steps (rl_sink st)) + min r (Suc a)" by auto
    define st1 where "st1 = st\<lparr>rl_drafter := ?d\<lparr>tm_kv := kv, tm_lin := lin,
             tm_fed := tm_seed ?d @ butlast ts, tm_proposals := length ts, tm_last_proposal := Some (last ts)\<rparr>,
           rl_ctx := cx, rl_sink := sk, rl_rounds := rl_rounds st + 1, rl_draft := rl_draft st + length ts,
           rl_accept := rl_accept st + a, rl_widest := max (rl_widest st) (round_block (cf_block_size C) r)\<rparr>"
    define v where "v = \<lparr>vd_accept = a, vd_commit = greedy (pick Z vl) (min r (Suc a)) h, vd_restricted = 0\<rparr>"
    have em1: "round_emit Z D C n False st = Inr (st1, rl_carry st # ts, int (length hv), int (length hv + Suc (length ts)), v, c, b)"
      using em c by (simp add: st1_def v_def)
    have "\<exists>st'. round_settle V D (rl_carry st # ts) (int (length hv)) (int (length hv + Suc (length ts))) v c st1 = Inr st' \<and>
        rl_sink st' = rl_sink st1 \<and>
        (min r (Suc a) = Suc a \<longrightarrow> synced (V, VQ, VR) (A, DQ, DR) (cf_top_k C) (h @ greedy (pick Z vl) (min r (Suc a)) h) st')"
      unfolding D_def
      by (rule round_settle_greedy [OF VS DS nw, where dh = hd and seed = "tm_seed ?d" and a = a])
        (use vk dk d ts h a w in \<open>simp_all add: st1_def v_def\<close>)
    then obtain st' where st': "round_settle V D (rl_carry st # ts) (int (length hv)) (int (length hv + Suc (length ts))) v c st1 = Inr st'"
      "rl_sink st' = sk"
      and sy: "min r (Suc a) = Suc a \<longrightarrow> synced (V, VQ, VR) (A, DQ, DR) (cf_top_k C) (h @ greedy (pick Z vl) (min r (Suc a)) h) st'"
      unfolding st1_def by auto
    have sy: "synced (V, VQ, VR) (A, DQ, DR) (cf_top_k C) (h @ greedy (pick Z vl) (Suc a) h) st'" if "Suc a \<le> r"
      using sy that by (simp del: greedy.simps add: min_def split: if_splits)
    have "round_step Z V D C n False st = (if b then Inr (st1, True) else Inr (st', False))"
      using em1 st'(1) by (simp add: round_step_def)
    moreover have "rl_sink st1 = sk" by (simp add: st1_def)
    ultimately show "case greedy_emit Z C vl (min r (Suc a)) h (rl_sink st) of
       Inl e \<Rightarrow> round_step Z V D C n False st = Inl e
     | Inr (sk, b) \<Rightarrow> \<exists>st'. round_step Z V D C n False st = Inr (st', b) \<and> rl_sink st' = sk \<and>
         (\<not> b \<longrightarrow> length (sk_steps sk) = length (sk_steps (rl_sink st)) + min r (Suc a) \<and>
           (Suc a \<le> r \<longrightarrow> synced (V, VQ, VR) (A, DQ, DR) (cf_top_k C) (h @ greedy (pick Z vl) (Suc a) h) st'))"
      using Inr skb st' sy len by (cases b) (simp_all del: greedy.simps)
  qed
qed

text \<open>The same over the set of rows.\<close>

lemma round_step_run:
  assumes VS: "serves VQ VR VP V" and DS: "serves DQ DR DP A" and nw: "\<forall>m. Window m \<notin> set (shapes A)"
    and sync: "synced (V, VQ, VR) (A, DQ, DR) (cf_top_k C) h st" and lt: "length (sk_steps (rl_sink st)) < n"
    and D: "D = two_model_round Z V A rt env" and r: "r = n - length (sk_steps (rl_sink st))"
  shows "\<exists>m h' res. 0 < m \<and> m \<le> r \<and> greedy_run Z C VP m h (rl_sink st) h' res \<and>
    (case res of
       Inl e \<Rightarrow> round_step Z V D C n False st = Inl e
     | Inr (sk, b) \<Rightarrow> \<exists>st'. round_step Z V D C n False st = Inr (st', b) \<and> rl_sink st' = sk \<and>
         (\<not> b \<longrightarrow> length (sk_steps sk) = length (sk_steps (rl_sink st)) + m \<and>
           (m < r \<longrightarrow> synced (V, VQ, VR) (A, DQ, DR) (cf_top_k C) h' st')))"
proof -
  from round_step_greedy [where Z = Z, OF VS DS nw sync lt D r] obtain a vl where
    vl: "\<forall>j \<le> a. vl (h @ greedy (pick Z vl) j h) \<in> VP (h @ greedy (pick Z vl) j h)"
    and st: "case greedy_emit Z C vl (min r (Suc a)) h (rl_sink st) of
       Inl e \<Rightarrow> round_step Z V D C n False st = Inl e
     | Inr (sk, b) \<Rightarrow> \<exists>st'. round_step Z V D C n False st = Inr (st', b) \<and> rl_sink st' = sk \<and>
         (\<not> b \<longrightarrow> length (sk_steps sk) = length (sk_steps (rl_sink st)) + min r (Suc a) \<and>
           (Suc a \<le> r \<longrightarrow> synced (V, VQ, VR) (A, DQ, DR) (cf_top_k C) (h @ greedy (pick Z vl) (Suc a) h) st'))"
    by blast
  define m where "m = min r (Suc a)"
  have m: "0 < m" "m \<le> r" "m < r \<Longrightarrow> m = Suc a" "m < r \<Longrightarrow> Suc a \<le> r" using lt r by (auto simp: m_def)
  have "\<forall>j < m. vl (h @ greedy (pick Z vl) j h) \<in> VP (h @ greedy (pick Z vl) j h)" using vl by (simp add: m_def)
  note run = greedy_emit_run [where P = VP and Z = Z and logits = vl and n = m, OF this, of C "rl_sink st"]
  note st = st [folded m_def]
  show ?thesis
  proof (cases "greedy_emit Z C vl m h (rl_sink st)")
    case (Inl e)
    with run obtain h' where "greedy_run Z C VP m h (rl_sink st) h' (Inl e)" by auto
    with m(1,2) st Inl show ?thesis by (intro exI [of _ m] exI [of _ h'] exI [of _ "Inl e"]) simp
  next
    case (Inr skb)
    obtain sk b where skb: "skb = (sk, b)" by fastforce
    from run [unfolded Inr skb] obtain h' where h': "greedy_run Z C VP m h (rl_sink st) h' (Inr (sk, b))"
      "\<not> b \<Longrightarrow> h' = h @ greedy (pick Z vl) m h" by (auto simp del: greedy.simps)
    from st [unfolded Inr skb] obtain st' where st': "round_step Z V D C n False st = Inr (st', b)" "rl_sink st' = sk"
      "\<not> b \<Longrightarrow> length (sk_steps sk) = length (sk_steps (rl_sink st)) + m"
      "\<not> b \<Longrightarrow> Suc a \<le> r \<Longrightarrow> synced (V, VQ, VR) (A, DQ, DR) (cf_top_k C) (h @ greedy (pick Z vl) (Suc a) h) st'"
      by (auto simp del: greedy.simps)
    have sy: "synced (V, VQ, VR) (A, DQ, DR) (cf_top_k C) h' st'" if "\<not> b" "m < r"
      using st'(4) [OF that(1) m(4) [OF that(2)]] unfolding m(3) [OF that(2), symmetric] h'(2) [OF that(1)] .
    show ?thesis
      by (intro exI [of _ m] exI [of _ h'] exI [of _ "Inr (sk, b)"]) (use m(1,2) h'(1) st' sy in simp)
  qed
qed

section \<open>A run\<close>

lemma round_loop_run:
  assumes VS: "serves VQ VR VP V" and DS: "serves DQ DR DP A" and nw: "\<forall>m. Window m \<notin> set (shapes A)"
    and D: "D = two_model_round Z V A rt env"
  shows "synced (V, VQ, VR) (A, DQ, DR) (cf_top_k C) h st \<Longrightarrow> length (sk_steps (rl_sink st)) + r = n \<Longrightarrow>
    \<exists>y h' res. round_loop Z V D C n False (\<lambda>_. False) st = Some y \<and> greedy_run Z C VP r h (rl_sink st) h' res \<and>
      (case res of Inl e \<Rightarrow> y = Inl e | Inr (sk, b) \<Rightarrow> \<exists>st'. y = Inr (st', b) \<and> rl_sink st' = sk)"
proof (induction r arbitrary: h st rule: less_induct)
  case (less r)
  have lp: "round_loop Z V D C n False (\<lambda>_. False) st =
      (if n \<le> length (sk_steps (rl_sink st)) then Some (Inr (st, False))
       else case round_step Z V D C n False st of Inl e \<Rightarrow> Some (Inl e)
         | Inr (st', b) \<Rightarrow> if b then Some (Inr (st', True)) else round_loop Z V D C n False (\<lambda>_. False) st')" for st
    by (subst round_loop.simps) simp
  show ?case
  proof (cases "r = 0")
    case True
    with less.prems have "round_loop Z V D C n False (\<lambda>_. False) st = Some (Inr (st, False))" by (simp add: lp [of st])
    with True greedy_run.spent [of Z C VP h "rl_sink st"] show ?thesis by fastforce
  next
    case False
    have lt: "length (sk_steps (rl_sink st)) < n" and r: "r = n - length (sk_steps (rl_sink st))"
      using less.prems(2) False by simp_all
    from round_step_run [where Z = Z, OF VS DS nw less.prems(1) lt D r] obtain m h1 res1 where
      m: "0 < m" "m \<le> r" and g1: "greedy_run Z C VP m h (rl_sink st) h1 res1"
      and a: "case res1 of
       Inl e \<Rightarrow> round_step Z V D C n False st = Inl e
     | Inr (sk, b) \<Rightarrow> \<exists>st'. round_step Z V D C n False st = Inr (st', b) \<and> rl_sink st' = sk \<and>
         (\<not> b \<longrightarrow> length (sk_steps sk) = length (sk_steps (rl_sink st)) + m \<and>
           (m < r \<longrightarrow> synced (V, VQ, VR) (A, DQ, DR) (cf_top_k C) h1 st'))" by blast
    have mr: "m + (r - m) = r" using m by simp
    show ?thesis
    proof (cases res1)
      case (Inl e)
      with greedy_run_stopped [OF g1, of "r - m"] have g: "greedy_run Z C VP r h (rl_sink st) h1 (Inl e)" by (simp add: mr)
      have "round_loop Z V D C n False (\<lambda>_. False) st = Some (Inl e)" using a Inl lt by (simp add: lp [of st])
      with g show ?thesis by (intro exI [of _ "Inl e"] exI [of _ h1]) simp
    next
      case (Inr skb)
      obtain sk b where skb: "skb = (sk, b)" by fastforce
      with a Inr obtain st' where st': "round_step Z V D C n False st = Inr (st', b)" "rl_sink st' = sk"
        and nb: "\<not> b \<Longrightarrow> length (sk_steps sk) = length (sk_steps (rl_sink st)) + m"
        and sy: "\<not> b \<Longrightarrow> m < r \<Longrightarrow> synced (V, VQ, VR) (A, DQ, DR) (cf_top_k C) h1 st'" by auto
      show ?thesis
      proof (cases b)
        case True
        with greedy_run_stopped [OF g1, of "r - m"] Inr skb have g: "greedy_run Z C VP r h (rl_sink st) h1 (Inr (sk, True))"
          by (simp add: mr)
        have "round_loop Z V D C n False (\<lambda>_. False) st = Some (Inr (st', True))" using True st' lt by (simp add: lp [of st])
        with g st'(2) show ?thesis by (intro exI [of _ "Inr (st', True)"] exI [of _ h1] exI [of _ "Inr (sk, True)"]) simp
      next
        case False
        have lp': "round_loop Z V D C n False (\<lambda>_. False) st = round_loop Z V D C n False (\<lambda>_. False) st'"
          using lt st' False by (simp add: lp [of st])
        have g1': "greedy_run Z C VP m h (rl_sink st) h1 (Inr (rl_sink st', False))" using g1 Inr skb False st'(2) by simp
        have len: "length (sk_steps (rl_sink st')) + (r - m) = n" using nb [OF False] st'(2) less.prems(2) m by simp
        show ?thesis
        proof (cases "r = m")
          case True
          have "round_loop Z V D C n False (\<lambda>_. False) st' = Some (Inr (st', False))"
            using len True by (simp add: lp [of st'])
          with lp' g1' True show ?thesis
            by (intro exI [of _ "Inr (st', False)"] exI [of _ h1] exI [of _ "Inr (rl_sink st', False)"]) simp
        next
          case ne: False
          with m have "m < r" "r - m < r" by simp_all
          from less.IH [OF this(2) sy [OF False this(1)] len] obtain y h' res where
            "round_loop Z V D C n False (\<lambda>_. False) st' = Some y" "greedy_run Z C VP (r - m) h1 (rl_sink st') h' res"
            "case res of Inl e \<Rightarrow> y = Inl e | Inr (sk, b) \<Rightarrow> \<exists>st'. y = Inr (st', b) \<and> rl_sink st' = sk" by (elim exE conjE) (rule that)
          moreover from this(2) have "greedy_run Z C VP r h (rl_sink st) h' res"
            using greedy_run_append [OF g1', of "r - m" h' res] by (simp only: mr)
          ultimately show ?thesis using lp' by (intro exI [of _ y] exI [of _ h'] exI [of _ res]) simp
        qed
      qed
    qed
  qed
qed

lemma run_start_two_model:
  assumes VS: "serves VQ VR VP V" and DS: "serves DQ DR DP A" and D: "D = two_model_round Z V A rt env"
    and q: "validate_resolved (ar_class A) (case cf_kv_quant C of Some q \<Rightarrow> q | None \<Rightarrow> DEFAULT_KV_QUANT) = Inr ()"
    and r: "resolve_ceiling (ar_limits V) (cf_max_ctx C) = Inr r" "decode_budget r (length prompt) (cf_n_tokens C) = Inr n"
    and p: "prompt \<noteq> []" "\<not> cf_sampling C"
  shows "\<exists>st. run_start Z V D C (\<lambda>_. False) (tm_new Prefix) prompt decided cb = Inr (st, n, False, False) \<and>
    synced (V, VQ, VR) (A, DQ, DR) (cf_top_k C) prompt st \<and>
    rl_sink st = \<lparr>sk_cb = cb, sk_steps = [], sk_in_rounds = 0, sk_marks = 0, sk_decided = decided\<rparr>"
proof -
  define q where "q = (case cf_kv_quant C of Some q \<Rightarrow> q | None \<Rightarrow> DEFAULT_KV_QUANT)"
  have len: "length prompt = Suc (length (butlast prompt))" using p(1) by (cases prompt rule: rev_cases) auto
  obtain vkv vlin where v: "prefill_chunked V rt env (\<lambda>_. False) (butlast prompt) (length prompt) (cache_stack V q (rc_ceiling r)) (lin_stack_of V) = Inr (vkv, vlin)"
    "holds VQ VR V (butlast prompt) vkv vlin"
    unfolding len using prefill_chunked_holds [OF VS cache_stack_holds [OF VS], of rt env "butlast prompt"] by fastforce
  obtain dkv dlin where d: "prefill_chunked A rt env (\<lambda>_. False) (butlast prompt) (length prompt) (cache_stack A q (rc_ceiling r)) (lin_stack_of A) = Inr (dkv, dlin)"
    "holds DQ DR A (butlast prompt) dkv dlin"
    unfolding len using prefill_chunked_holds [OF DS cache_stack_holds [OF DS], of rt env "butlast prompt"] by fastforce
  have vq: "validate_draft_kv_quant (ar_class A) q = Inr ()" using q by (simp add: validate_draft_kv_quant_def q_def)
  let ?st = "\<lparr>rl_drafter = (tm_new Prefix)\<lparr>tm_kv := dkv, tm_lin := dlin, tm_seed := [last prompt]\<rparr>,
            rl_ctx = \<lparr>cx_kv = vkv, cx_lin = vlin, cx_max_seq = rc_ceiling r, cx_kv_quant = q,
              cx_draw = draw_new (cf_sampling C) (cf_top_k C) (cf_rng C)\<rparr>,
            rl_sink = \<lparr>sk_cb = cb, sk_steps = [], sk_in_rounds = 0, sk_marks = 0, sk_decided = decided\<rparr>,
            rl_carry = last prompt, rl_rounds = 0, rl_draft = 0, rl_accept = 0, rl_widest = 0, rl_conditioned = None, rl_log = []\<rparr>"
  have "run_start Z V D C (\<lambda>_. False) (tm_new Prefix) prompt decided cb = Inr (?st, n, False, False)"
    using p r vq v(1) d(1)
    by (simp add: run_start_def verifier_cache_stack_def q_def [symmetric] D two_model_round_def tm_prefill_def Let_def)
  moreover have "synced (V, VQ, VR) (A, DQ, DR) (cf_top_k C) prompt ?st"
    unfolding synced_def prod.case
    by (intro conjI exI [of _ "butlast prompt"]) (use v(2) d(2) p in \<open>simp_all add: tm_new_def draw_new_def\<close>)
  ultimately show ?thesis by (intro exI [of _ ?st]) simp
qed

text \<open>The tokens of a request, as the sink starts.\<close>

definition fresh_sink :: "'s \<Rightarrow> ('s, 'lp) sink" where
  "fresh_sink cb = \<lparr>sk_cb = cb, sk_steps = [], sk_in_rounds = 0, sk_marks = 0, sk_decided = None\<rparr>"

definition fits :: "('x, 'g, 'i, 'd, 'y, 'lg) arch \<Rightarrow> ('s, 'lp, 'r) round_cfg \<Rightarrow> u32 list \<Rightarrow> nat \<Rightarrow> bool" where
  "fits V C prompt n \<longleftrightarrow>
     (\<exists>r. resolve_ceiling (ar_limits V) (cf_max_ctx C) = Inr r \<and> decode_budget r (length prompt) (cf_n_tokens C) = Inr n)"

lemma run_rounds_run:
  assumes VS: "serves VQ VR VP V" and DS: "serves DQ DR DP A" and nw: "\<forall>m. Window m \<notin> set (shapes A)"
    and D: "D = two_model_round Z V A rt env"
    and q: "validate_resolved (ar_class A) (case cf_kv_quant C of Some q \<Rightarrow> q | None \<Rightarrow> DEFAULT_KV_QUANT) = Inr ()"
    and f: "fits V C prompt n" and p: "prompt \<noteq> []" "\<not> cf_sampling C"
  shows "\<exists>y h' res. run_rounds Z V D C (\<lambda>_. False) (\<lambda>_. False) (tm_new Prefix) prompt None cb = Some y \<and>
    greedy_run Z C VP n prompt (fresh_sink cb) h' res \<and>
    (case res of Inl e \<Rightarrow> y = Inl e | Inr (sk, b) \<Rightarrow> \<exists>out. y = Inr out \<and> rl_sink (ru_state out) = sk)"
proof -
  from f obtain r where r: "resolve_ceiling (ar_limits V) (cf_max_ctx C) = Inr r"
    "decode_budget r (length prompt) (cf_n_tokens C) = Inr n" by (auto simp: fits_def)
  from run_start_two_model [OF VS DS D q r p, of None cb] obtain st where
    s: "run_start Z V D C (\<lambda>_. False) (tm_new Prefix) prompt None cb = Inr (st, n, False, False)"
    and sy: "synced (V, VQ, VR) (A, DQ, DR) (cf_top_k C) prompt st" and sk: "rl_sink st = fresh_sink cb"
    unfolding fresh_sink_def by blast
  have "length (sk_steps (rl_sink st)) + n = n" by (simp add: sk fresh_sink_def)
  from round_loop_run [OF VS DS nw D sy this] obtain y h' res where
    y: "round_loop Z V D C n False (\<lambda>_. False) st = Some y" "greedy_run Z C VP n prompt (fresh_sink cb) h' res"
      "case res of Inl e \<Rightarrow> y = Inl e | Inr (sk, b) \<Rightarrow> \<exists>st'. y = Inr (st', b) \<and> rl_sink st' = sk" unfolding sk by blast
  show ?thesis
  proof (cases res)
    case (Inl e)
    with y s show ?thesis by (intro exI [of _ "Inl e"] exI [of _ h'] exI [of _ res]) (simp add: run_rounds_def Let_def)
  next
    case (Inr skb)
    with y(3) obtain st' b where "y = Inr (st', b)" "rl_sink st' = fst skb" "skb = (fst skb, b)" by (cases skb) auto
    with y(1,2) s Inr show ?thesis
      by (intro exI [of _ "Inr _"] exI [of _ h'] exI [of _ res]) (auto simp: run_rounds_def Let_def)
  qed
qed

end
