(* ===== verification/SpecProps.thy ===== *)
theory SpecProps
  imports SpecExactMain
begin

text \<open>
  The properties of speculative decoding: the tokens of the greedy two-model run, where it parts
  from decoding one token at a time, the accounting of its record, and the rollback a draft model
  with a sliding window refuses.
\<close>

section \<open>The run through the entry\<close>

lemma greedy_run_cong:
  "greedy_run Z C P n h sk h' res \<Longrightarrow> show_row Z C' = show_row Z C \<Longrightarrow> greedy_run Z C' P n h sk h' res"
  by (induction rule: greedy_run.induct) (auto intro: greedy_run.intros)

lemma show_row_block [simp]: "show_row Z (C\<lparr>cf_block_size := b\<rparr>) = show_row Z C"
  by (intro ext) (simp add: show_row_def emit_step_def)

lemma spec_generate_run:
  assumes VS: "serves VQ VR VP V" and DS: "serves DQ DR DP A" and nw: "\<forall>m. Window m \<notin> set (shapes A)"
    and q: "validate_resolved (ar_class A) (case cf_kv_quant C of Some q \<Rightarrow> q | None \<Rightarrow> DEFAULT_KV_QUANT) = Inr ()"
    and f: "fits V C prompt n" and p: "2 \<le> length prompt" "\<not> cf_sampling C" "0 < k" "0 < cf_n_tokens C"
  shows "\<exists>y h' res. spec_generate_greedy Z V (Some A) C (\<lambda>_. False) (\<lambda>_. False) prompt k False cb = Some y \<and>
    greedy_run Z C VP n prompt (fresh_sink cb) h' res \<and>
    (case res of
       Inl e \<Rightarrow> y = Inl (RunFailed e)
     | Inr (sk, b) \<Rightarrow> \<exists>out w. y = Inr (Some out, w) \<and> rl_sink (ru_state out) = sk)"
proof -
  define C' where "C' = C\<lparr>cf_block_size := two_model_drafts_per_round k + 1\<rparr>"
  have ne: "prompt \<noteq> []" "\<not> cf_sampling C'" using p by (auto simp: C'_def)
  have q': "validate_resolved (ar_class A) (case cf_kv_quant C' of Some q \<Rightarrow> q | None \<Rightarrow> DEFAULT_KV_QUANT) = Inr ()"
    and f': "fits V C' prompt n" using q f by (simp_all add: C'_def fits_def)
  from run_rounds_run [where Z = Z and cb = cb, OF VS DS nw refl q' f' ne, of "cf_chunk_override C" "cf_env C"] obtain y h' res where
    y: "run_rounds Z V (two_model_round Z V A (cf_chunk_override C) (cf_env C)) C' (\<lambda>_. False) (\<lambda>_. False) (tm_new Prefix) prompt None cb = Some y"
      "case res of Inl e \<Rightarrow> y = Inl e | Inr (sk, b) \<Rightarrow> \<exists>out. y = Inr out \<and> rl_sink (ru_state out) = sk"
    and r': "greedy_run Z C' VP n prompt (fresh_sink cb) h' res" by (elim exE conjE) (rule that)
  have r: "greedy_run Z C VP n prompt (fresh_sink cb) h' res" by (rule greedy_run_cong [OF r']) (simp add: C'_def)
  have g: "spec_generate_greedy Z V (Some A) C (\<lambda>_. False) (\<lambda>_. False) prompt k False cb =
      Some (case y of Inl e \<Rightarrow> Inl (RunFailed e) | Inr out \<Rightarrow> Inr (Some out, drafts_per_round (ru_widest out) + 1))"
    using y(1) p ne by (simp add: spec_generate_greedy_def C'_def Let_def split: sum.split)
  show ?thesis unfolding g using r y(2)
    by (intro exI [of _ "case y of Inl e \<Rightarrow> Inl (RunFailed e) | Inr out \<Rightarrow> Inr (Some out, drafts_per_round (ru_widest out) + 1)"]
        exI [of _ h'] exI [of _ res]) (cases y; auto split: sum.splits)
qed

text \<open>C2: Greedy speculative decoding returns, and shows the verifier's own tokens. Take a verifier
  and a draft model that serve their histories, where the draft model keeps no sliding window,
  and let \<open>VP h\<close> be the rows of logits the verifier may give at the position after which the
  history is \<open>h\<close>, whichever block the position was computed in. A two-model request shows its
  callback one token after another, each the best of a row of the verifier at exactly the
  prompt and the tokens shown before it, with the logprobs of that row, until an end, the
  budget or a refusal, whatever the draft model proposes. Nothing is assumed of how a block's
  rows relate to those of one-token steps: \<open>plain h\<close> is any row per history, such as decoding
  one token at a time computes. Without logprobs the request either leaves exactly what that
  decoding leaves, or the two share the text up to a history at which a row of the verifier and
  the plain row have different best tokens.
\<close>

theorem speculative_greedy_exact:
  assumes "serves VQ VR VP V" "serves DQ DR DP A" "\<forall>m. Window m \<notin> set (shapes A)"
    and "validate_resolved (ar_class A) (case cf_kv_quant C of Some q \<Rightarrow> q | None \<Rightarrow> DEFAULT_KV_QUANT) = Inr ()"
    and "fits V C prompt n" "2 \<le> length prompt" "\<not> cf_sampling C" "0 < k" "0 < cf_n_tokens C"
  shows "\<exists>y h' res. spec_generate_greedy Z V (Some A) C (\<lambda>_. False) (\<lambda>_. False) prompt k False cb = Some y \<and>
    greedy_run Z C VP n prompt (fresh_sink cb) h' res \<and>
    (case res of
       Inl e \<Rightarrow> y = Inl (RunFailed e)
     | Inr (sk, b) \<Rightarrow> h' = prompt @ map ps_token_id (sk_steps sk) \<and>
         (\<exists>out w. y = Inr (Some out, w) \<and> rl_sink (ru_state out) = sk)) \<and>
    (cf_top_k C = 0 \<longrightarrow>
       res = greedy_emit Z C plain n prompt (fresh_sink cb) \<or>
       (\<exists>j row rest. let g = prompt @ greedy (pick Z plain) j prompt in
          j < n \<and> h' = g @ so_argmax Z row # rest \<and> row \<in> VP g \<and> so_argmax Z row \<noteq> so_argmax Z (plain g)))"
proof -
  from spec_generate_run [OF assms, of Z cb] obtain y h' res where
    y: "spec_generate_greedy Z V (Some A) C (\<lambda>_. False) (\<lambda>_. False) prompt k False cb = Some y"
    and r: "greedy_run Z C VP n prompt (fresh_sink cb) h' res"
    and m: "case res of Inl e \<Rightarrow> y = Inl (RunFailed e)
       | Inr (sk, b) \<Rightarrow> \<exists>out w. y = Inr (Some out, w) \<and> rl_sink (ru_state out) = sk"
    by (elim exE conjE) (rule that)
  have "h' = prompt @ map ps_token_id (sk_steps sk)" if "res = Inr (sk, b)" for sk b
    using greedy_run_shows [OF r that] by (auto simp: fresh_sink_def)
  with y r m greedy_run_parts [OF r, of plain] show ?thesis
    by (intro exI [of _ y] exI [of _ h'] exI [of _ res]) (simp split: sum.splits prod.splits)
qed

section \<open>Samples\<close>

text \<open>A model whose row at a position names a token and the width of the forward that gave it.\<close>

definition echo_arch :: "int option \<Rightarrow> (u32 \<Rightarrow> u32) \<Rightarrow> (nat, nat, nat, nat, nat, u32 \<times> nat) arch" where
  "echo_arch w f = \<lparr>ar_class = ''LagunaForCausalLM'', ar_limits = trained_only 4096, ar_layers = 1, ar_window = (\<lambda>_. w),
     ar_writes = (\<lambda>_. True), ar_storage = (\<lambda>_ _. al_kv (full_layer [])), ar_needs_lin = False, ar_gdn = (\<lambda>_. sum_gdn),
     ar_prefill = \<lparr>pf_enter = (\<lambda>l. l), pf_eval = (\<lambda>_. None), pf_exit = (\<lambda>l. (l, None))\<rparr>,
     ar_forward_seq = (\<lambda>new k kv lin. Inr (map (layer_write new) kv,
       lins_write (\<lambda>_. sum_gdn) (\<lambda>_ _. (0, 0)) (\<lambda>_. True) [] new lin,
       map (\<lambda>t. (f t, length new)) (drop (length new - k) new))),
     ar_forward_arr = (\<lambda>new kv lin. Inr (map (layer_write new) kv,
       lins_write (\<lambda>_. sum_gdn) (\<lambda>_ _. (0, 0)) (\<lambda>_. True) [] new lin, (f (last new), length new)))\<rparr>"

definition echo_ops :: "(u32 \<times> nat, unit, unit, unit) sampler_ops" where
  "echo_ops = \<lparr>so_argmax = fst, so_distribution = (\<lambda>_. Inr ()), so_sample_index = (\<lambda>_ r. (0, r)),
     so_accept = (\<lambda>_ _ _ r. Inr (Accept, r)), so_top_logprobs = (\<lambda>_ _ _. Inr ())\<rparr>"

definition echo_cfg :: "(nat, unit, unit) round_cfg" where
  "echo_cfg = \<lparr>cf_block_size = 0, cf_n_tokens = 5, cf_eos_ids = [99], cf_step_fn = (\<lambda>n _. (Suc n, Continue)),
     cf_id_to_token = (\<lambda>_. None), cf_sampling = False, cf_top_k = 0, cf_rng = (), cf_kv_quant = None, cf_max_ctx = None,
     cf_chunk_override = 2, cf_env = (\<lambda>_. None)\<rparr>"

definition echo_run where
  "echo_run w f prompt = spec_generate_greedy echo_ops (echo_arch None (\<lambda>t. t + 1)) (Some (echo_arch w f)) echo_cfg (\<lambda>_. False) (\<lambda>_. False)
     prompt 3 False 0"

definition echo_ids :: "(entry_refusal + (('x, 'i, 'd, 'pr) two_model, 'x, 'i, 'd, 'lg, 'r, 's, 'lp) run_outcome option \<times> nat) option \<Rightarrow>
  (entry_refusal + u32 list) option" where
  "echo_ids y = map_option (map_sum (\<lambda>e. e) (\<lambda>(out, w). case out of None \<Rightarrow> [] | Some o1 \<Rightarrow> map ps_token_id (sk_steps (rl_sink (ru_state o1))))) y"

definition echo_rows :: "(u32 \<Rightarrow> u32) \<Rightarrow> u32 list \<Rightarrow> (u32 \<times> nat) set" where
  "echo_rows f h = {row. fst row = f (last h)}"

lemma echo_lin_step: "lin_step (\<lambda>_ _. {(0, 0)}) (\<lambda>_. True) (echo_arch w f) h new lin
    (lins_write (\<lambda>_. sum_gdn) (\<lambda>_ _. (0, 0)) (\<lambda>_. True) [] new lin)"
proof -
  have "\<exists>inp'. agrees (length h) inp inp' \<and> rows_from (\<lambda>_ _. {(0, 0)}) (h @ new) inp' \<and>
      lins_write (\<lambda>_. sum_gdn) (\<lambda>_ _. (0, 0)) (\<lambda>_. True) [] new lin =
      lins_write (\<lambda>_. sum_gdn) inp' (\<lambda>_. True) h new lin"
    if "rows_from (\<lambda>_ _. {(0, 0)}) h inp" for inp :: "nat \<Rightarrow> u32 list \<Rightarrow> nat \<times> nat"
  proof (intro exI [of _ "\<lambda>i p. if length p \<le> length h then inp i p else (0, 0)"] conjI)
    show "rows_from (\<lambda>_ _. {(0, 0)}) (h @ new) (\<lambda>i p. if length p \<le> length h then inp i p else (0, 0))"
      using that by (auto simp: rows_from_def)
    have "rows_of (\<lambda>p. if length p \<le> length h then inp i p else (0, 0)) h new = rows_of (\<lambda>_. (0, 0)) [] new" for i
      by (auto simp: rows_of_def)
    then show "lins_write (\<lambda>_. sum_gdn) (\<lambda>_ _. (0, 0)) (\<lambda>_. True) [] new lin =
        lins_write (\<lambda>_. sum_gdn) (\<lambda>i p. if length p \<le> length h then inp i p else (0, 0)) (\<lambda>_. True) h new lin"
      by (simp add: lins_write_def lin_write_def)
  qed (simp add: agrees_def)
  then show ?thesis by (simp add: lin_step_def echo_arch_def)
qed

lemma echo_serves: "serves (\<lambda>_ _. {(0, 0)}) (\<lambda>_. True) (echo_rows f) (echo_arch w f)"
proof -
  let ?A = "echo_arch w f" and ?lin = "\<lambda>new lin. lins_write (\<lambda>_. sum_gdn) (\<lambda>_ _. (0, 0)) (\<lambda>_. True) [] new lin"
  have rows: "map (\<lambda>t. (f t, length new)) (drop (length new - k) new) ! i \<in>
      echo_rows f (h @ take (Suc (length new - k + i)) new)"
    if i: "i < k" "k \<le> length new" for h new :: "u32 list" and k i
  proof -
    have u: "length new - k + i < length new" using i by simp
    then have "last (take (Suc (length new - k + i)) new) = new ! (length new - k + i)" by (simp add: take_Suc_conv_app_nth)
    moreover have "take (Suc (length new - k + i)) new \<noteq> []" using u by auto
    ultimately show ?thesis using i by (simp add: echo_rows_def)
  qed
  have "advances (shapes ?A)"
    by (auto simp: advances_def shapes_def shape_of_def echo_arch_def split: option.split)
  moreover have "bracket_ok (ar_prefill ?A)" by (simp add: bracket_ok_def echo_arch_def)
  moreover have "0 < gd_kernel (ar_gdn ?A i)" for i by (simp add: echo_arch_def sum_gdn_def)
  moreover have "\<exists>lin' lg. ar_forward_arr ?A new kv lin = Inr (map (layer_write new) kv, lin', lg) \<and>
      lin_step (\<lambda>_ _. {(0, 0)}) (\<lambda>_. True) ?A h new lin lin' \<and> lg \<in> echo_rows f (h @ new)" if "new \<noteq> []" for h new kv lin
    by (intro exI [of _ "?lin new lin"] exI [of _ "(f (last new), length new)"] conjI echo_lin_step)
      (use that in \<open>simp_all add: echo_rows_def\<close>, simp add: echo_arch_def)
  moreover have "\<exists>lin' rows. ar_forward_seq ?A new k kv lin = Inr (map (layer_write new) kv, lin', rows) \<and>
      lin_step (\<lambda>_ _. {(0, 0)}) (\<lambda>_. True) ?A h new lin lin' \<and> length rows = k \<and>
      (\<forall>i < k. rows ! i \<in> echo_rows f (h @ take (Suc (length new - k + i)) new))" if "0 < k" "k \<le> length new" for h new k kv lin
    by (intro exI [of _ "?lin new lin"] exI [of _ "map (\<lambda>t. (f t, length new)) (drop (length new - k) new)"] conjI echo_lin_step)
      (use rows that in \<open>simp_all del: nth_map\<close>, simp add: echo_arch_def)
  ultimately show ?thesis unfolding serves_def by blast
qed

lemma echo_fits: "fits (echo_arch None (\<lambda>t. t + 1)) echo_cfg [1, 2, 3, 4] 5"
  by (simp add: fits_def echo_arch_def echo_cfg_def resolve_ceiling_def positional_max_def trained_only_def
      KV_MAX_SEQ_DEFAULT_def decode_budget_def ceiling_tokens_def Let_def)

lemma echo_quant: "validate_resolved (ar_class (echo_arch None f))
    (case cf_kv_quant echo_cfg of Some q \<Rightarrow> q | None \<Rightarrow> DEFAULT_KV_QUANT) = Inr ()"
  unfolding echo_arch_def echo_cfg_def by code_simp

lemma echo_no_window: "\<forall>m. Window m \<notin> set (shapes (echo_arch None f))"
  by (simp add: shapes_def shape_of_def echo_arch_def)

definition echo_plain :: "u32 list \<Rightarrow> u32 \<times> nat" where "echo_plain h = (last h + 1, 1)"

lemma echo_emit:
  "\<exists>sk. greedy_emit echo_ops echo_cfg echo_plain 5 [1, 2, 3, 4] (fresh_sink 0) = Inr (sk, False) \<and>
     map ps_token_id (sk_steps sk) = [5, 6, 7, 8, 9]"
proof -
  have "map_sum (\<lambda>e. e) (\<lambda>(sk, b). (map ps_token_id (sk_steps sk), b))
      (greedy_emit echo_ops echo_cfg echo_plain 5 [1, 2, 3, 4] (fresh_sink 0)) = Inr ([5, 6, 7, 8, 9], False)" by code_simp
  then show ?thesis by (cases "greedy_emit echo_ops echo_cfg echo_plain 5 [1, 2, 3, 4] (fresh_sink 0)") auto
qed

lemma echo_determined:
  assumes "greedy_run echo_ops echo_cfg (echo_rows (\<lambda>t. t + 1)) n h sk h' res"
  shows "res = greedy_emit echo_ops echo_cfg echo_plain n h sk"
  using greedy_run_parts [OF assms, of echo_plain] by (auto simp: echo_cfg_def echo_rows_def echo_plain_def echo_ops_def Let_def)

theorem speculative_greedy_exact_witness:
  "echo_ids (echo_run None (\<lambda>t. t + 2) [1, 2, 3, 4]) = Some (Inr [5, 6, 7, 8, 9])"
proof -
  obtain sk where g: "greedy_emit echo_ops echo_cfg echo_plain 5 [1, 2, 3, 4] (fresh_sink 0) = Inr (sk, False)"
    "map ps_token_id (sk_steps sk) = [5, 6, 7, 8, 9]" using echo_emit by (elim exE conjE) (rule that)
  have c: "2 \<le> length [1, 2, 3, 4 :: u32]" "\<not> cf_sampling echo_cfg" "0 < (3 :: nat)" "0 < cf_n_tokens echo_cfg"
    by (simp_all add: echo_cfg_def)
  note ex = speculative_greedy_exact [OF echo_serves echo_serves echo_no_window [of "\<lambda>t. t + 2"] echo_quant echo_fits c,
      of echo_ops 0 echo_plain, folded echo_run_def]
  obtain y h' res where y: "echo_run None (\<lambda>t. t + 2) [1, 2, 3, 4] = Some y"
    and r: "greedy_run echo_ops echo_cfg (echo_rows (\<lambda>t. t + 1)) 5 [1, 2, 3, 4] (fresh_sink 0) h' res"
    and m: "case res of Inl e \<Rightarrow> y = Inl (RunFailed e)
     | Inr (sk, b) \<Rightarrow> h' = [1, 2, 3, 4] @ map ps_token_id (sk_steps sk) \<and>
         (\<exists>out w. y = Inr (Some out, w) \<and> rl_sink (ru_state out) = sk)"
    using ex by (elim exE conjE) (rule that)
  from echo_determined [OF r] g(1) have "res = Inr (sk, False)" by simp
  with m obtain out w where "y = Inr (Some out, w)" "rl_sink (ru_state out) = sk" by auto
  with y g(2) show ?thesis by (simp add: echo_ids_def)
qed

section \<open>The record of a two-model request\<close>

lemma accept_walk_commits: "length (snd (accept_walk vs ds n)) \<le> Suc (fst (accept_walk vs ds n))"
proof (induction vs arbitrary: ds n)
  case (Cons v vs)
  have "length (snd (accept_walk vs ds (n - 1))) \<le> Suc (fst (accept_walk vs ds (n - 1)))" for ds by (rule Cons.IH)
  then show ?case by (auto simp: Let_def split: list.split prod.split) (metis fst_conv snd_conv le_SucI Suc_le_mono)+
qed simp

lemma stochastic_prefix_commits: "stochastic_prefix Z p q ds r = Inr (a, c, r') \<Longrightarrow> length c \<le> Suc a"
  unfolding stochastic_prefix_def by (auto simp: try_bind_Inr split: if_splits option.splits) (auto split: prod.splits)

text \<open>The two-model drafter commits its accepted prefix and one token, in both of its modes.\<close>

lemma two_model_commits: "commits_prefix (two_model_round Z V A runtime env)"
  unfolding commits_prefix_def
proof (intro allI impI)
  fix d cx fed remaining d' cx' v
  assume v: "rd_verify (two_model_round Z V A runtime env) d cx fed remaining = Inr (d', cx', v)"
  show "length (vd_commit v) \<le> vd_accept v + 1"
  proof (cases "tm_accept d")
    case Prefix
    with v obtain vs where "accept_prefix vs (tl fed) remaining = Inr (vd_accept v, vd_commit v)"
      by (auto simp: two_model_round_def tm_verify_def try_bind_Inr Let_def split: prod.splits)
    then show ?thesis using accept_walk_commits [of vs "tl fed" remaining] by (simp add: accept_prefix_def split: if_splits)
  next
    case (Stochastic q)
    with v obtain p r r' where "stochastic_prefix Z p q (tl fed) r = Inr (vd_accept v, vd_commit v, r')"
      by (auto simp: two_model_round_def tm_verify_def try_bind_Inr Let_def split: prod.splits)
    from stochastic_prefix_commits [OF this] show ?thesis by simp
  qed
qed

definition echo_rounds where
  "echo_rounds f prompt = run_rounds echo_ops (echo_arch None (\<lambda>t. t + 1))
     (two_model_round echo_ops (echo_arch None (\<lambda>t. t + 1)) (echo_arch None f) 2 (\<lambda>_. None)) (echo_cfg\<lparr>cf_block_size := 4\<rparr>)
     (\<lambda>_. False) (\<lambda>_. False) (tm_new Prefix) prompt (Some []) 0"

theorem request_record_accounts_witness:
  "(let out = projr (the (echo_rounds (\<lambda>t. t + 2) [1, 2, 3, 4])); sk = rl_sink (ru_state out) in
     map ps_token_id (sk_steps sk) = [5, 6, 7, 8, 9] \<and> \<not> seed_violation (ru_stats out) \<and>
     sk_marks sk = length (sk_steps sk) \<and> length (sk_steps sk) \<le> max (cf_n_tokens (echo_cfg\<lparr>cf_block_size := 4\<rparr>)) 1 \<and>
     (\<forall>buf. sk_decided sk = Some buf \<longrightarrow> length buf = length (sk_steps sk)))"
proof -
  define y where "y = echo_rounds (\<lambda>t. t + 2) [1, 2, 3, 4]"
  have ids: "map_option (map_sum (\<lambda>e. e) (\<lambda>out. map ps_token_id (sk_steps (rl_sink (ru_state out))))) y = Some (Inr [5, 6, 7, 8, 9])"
    unfolding y_def by code_simp
  then obtain out where out: "y = Some (Inr out)" "map ps_token_id (sk_steps (rl_sink (ru_state out))) = [5, 6, 7, 8, 9]"
    by (cases y) (auto simp: map_sum_def split: sum.splits)
  note r = request_record_accounts [OF two_model_commits _ out(1) [unfolded y_def echo_rounds_def]]
  show ?thesis unfolding y_def [symmetric] using out r by (simp add: Let_def)
qed

section \<open>A draft model with a sliding window\<close>

lemma update_in_place_fetched:
  "update_in_place r x y = Some (r', fk, fv) \<Longrightarrow> rg_max_size r' \<le> rg_offset r' \<Longrightarrow> rg_keys r' = Some fk"
  by (auto simp: update_in_place_def Let_def split: option.splits if_splits)

text \<open>A ring past its window gives nothing back after a write of one position.\<close>

lemma single_write_keeps:
  assumes rep: "ring_rep m r h h" and m: "m \<le> length h" and u: "update_and_fetch d r [t] [t] = Some (r', out)" and n: "0 < n"
  shows "\<not> can_trim r' n"
proof -
  obtain fk fv where up: "update_in_place (r\<lparr>rg_stream := Some d\<rparr>) [t] [t] = Some (r', fk, fv)"
    using u by (cases out) (auto simp: update_and_fetch_def)
  from update_in_place_rep [OF ring_stream_rep [OF rep, of d], of t t] up m obtain i where
    rr: "ring_rep m r' (h @ [t]) (h @ [t])" and f: "drop i fk @ take i fk = drop (length (h @ [t]) - m) (h @ [t])" by auto
  note D = ring_repD [OF rr]
  have "length (drop i fk @ take i fk) = m" unfolding f using m by simp
  then have "length fk = m" by simp
  moreover have "rg_keys r' = Some fk" by (rule update_in_place_fetched [OF up]) (use D m in simp)
  ultimately show ?thesis using D m n by (auto simp: can_trim_def split: option.splits)
qed

lemma single_last_stuck:
  assumes "single_last A h kv" "Window m \<in> set (shapes A)" "m < length h" "c < int (length h)" "0 \<le> c"
  shows "\<exists>i. truncate_stack c kv = Inl (CannotRollBack i)"
proof -
  from assms(1) obtain h0 t kv0 where h: "h = h0 @ [t]" "stack_at (shapes A) h0 kv0" "kv = map (layer_write [t]) kv0"
    by (auto simp: single_last_def)
  from assms(2) obtain j where j: "j < length (shapes A)" "shapes A ! j = Window m" by (auto simp: in_set_conv_nth)
  with h(2) have at: "layer_at h0 (Window m) (kv0 ! j)" and jl: "j < length kv0"
    by (auto simp: stack_at_def list_all2_conv_all_nth)
  then obtain r where r: "kl_rotating (al_kv (kv0 ! j)) = Some r" "ring_rep m r h0 h0" and w: "al_writes (kv0 ! j)" by auto
  from update_and_fetch_rep [OF r(2), of "[t]" "[t]" GpuStream] obtain r' out where
    u: "update_and_fetch GpuStream r [t] [t] = Some (r', out)" and rr: "ring_rep m r' (h0 @ [t]) (h0 @ [t])" by auto
  have off: "rg_offset r' = int (length h)" using ring_repD [OF rr] h(1) by simp
  have l: "al_offset (layer_write [t] (kv0 ! j)) = int (length h)" "kl_rotating (al_kv (layer_write [t] (kv0 ! j))) = Some r'"
    using r(1) w u off by (cases out; simp add: layer_write_def)+
  have "m \<le> length h0" using assms(3) h(1) by simp
  from single_write_keeps [OF r(2) this u, of "int (length h) - c"] assms(4) have "\<not> can_trim r' (int (length h) - c)" by simp
  with l have bad: "\<not> kl_can_truncate_to (al_kv (kv ! j)) c" and le: "c \<le> al_offset (kv ! j)"
    using assms(4) jl h(3) by (simp_all add: kl_can_truncate_to_def)
  let ?P = "\<lambda>l. c \<le> al_offset l \<and> \<not> kl_can_truncate_to (al_kv l) c"
  have "kv ! j \<in> set kv" using jl h(3) by simp
  with bad le have "position ?P kv \<noteq> None" by (auto simp: position_None_iff)
  then show ?thesis by (auto simp: truncate_stack_def)
qed

lemma tm_rollback_stuck:
  assumes S: "serves Q R P A" and at: "holds Q R A h (tm_kv d) (tm_lin d)" and d: "tm_seed d \<noteq> []" "tm_accept d = Prefix"
    and pr: "tm_propose Z A d cx carry bs = Inr (d', cx', ts)" and w: "Window m \<in> set (shapes A)"
    and long: "m < length (h @ tm_fed d')" and rej: "vd_accept v + 1 < length ts"
  shows "\<exists>i. tm_rollback A d' v oc = Inl (CannotRollBack i)"
proof (cases "0 < drafts_per_round bs")
  case True
  from tm_propose_holds [where Z = Z and cx = cx and carry = carry, OF S at d True] pr obtain kv lin where
    d': "d' = d\<lparr>tm_kv := kv, tm_lin := lin, tm_fed := tm_seed d @ butlast ts, tm_proposals := length ts, tm_last_proposal := Some (last ts)\<rparr>"
    and st: "stack_at (shapes A) (h @ tm_seed d @ butlast ts) kv" and sg: "single_last A (h @ tm_seed d @ butlast ts) kv"
    using rej by auto
  let ?h = "h @ tm_seed d @ butlast ts"
  have adv: "advances (shapes A)" using S by (simp add: serves_def)
  have off: "stack_offset (tm_kv d') = Inr (int (length ?h))" using stack_offset_at [OF st adv] by (simp add: d')
  define c where "c = int (length ?h) - draft_rows_to_drop (length ts) (vd_accept v)"
  have drop: "draft_rows_to_drop (length ts) (vd_accept v) = int (length ts - vd_accept v - 1)" "0 < length ts - vd_accept v - 1"
    using rej by (auto simp: draft_rows_to_drop_def)
  have "length (butlast ts) = length ts - 1" by simp
  then have c: "c < int (length ?h)" "0 \<le> c" using drop rej by (auto simp: c_def)
  from single_last_stuck [OF sg w _ c] long obtain i where t: "truncate_stack c kv = Inl (CannotRollBack i)"
    by (auto simp: d')
  have kept: "nat (c - (int (length ?h) - int (length (tm_seed d @ butlast ts)))) \<le> length (tm_seed d @ butlast ts)"
    using c(1) by simp
  have "rollback_round (ar_gdn A) kv lin (tm_seed d @ butlast ts) (int (length ?h) - int (length (tm_seed d @ butlast ts))) c =
      Inl (CannotRollBack i)"
    using kept c(1) t by (simp add: rollback_round_def rollback_round_caches_def Let_def del: length_append)
  then show ?thesis using off by (simp add: tm_rollback_def d' c_def)
next
  case False
  with pr d have "ts = []" by (auto simp: tm_propose_def draft_decode_n_def Let_def split: if_splits)
  with rej show ?thesis by simp
qed


definition echo_drafter :: "(nat, nat, nat, unit) two_model" where
  "echo_drafter = (tm_new Prefix)\<lparr>tm_kv := cache_stack (echo_arch (Some 2) (\<lambda>t. t)) DEFAULT_KV_QUANT 64,
     tm_lin := None, tm_seed := [7, 8]\<rparr>"

definition echo_ctx :: "(nat, nat, nat, u32 \<times> nat, unit) round_ctx" where
  "echo_ctx = \<lparr>cx_kv = [], cx_lin = None, cx_max_seq = 64, cx_kv_quant = DEFAULT_KV_QUANT, cx_draw = draw_new False 0 ()\<rparr>"

definition echo_outcome :: round_outcome where
  "echo_outcome = \<lparr>ro_round = 0, ro_committed = 1, ro_verifier_target = 3, ro_carry = 9\<rparr>"


end
