(* ===== verification/ToolParser.thy ===== *)
theory ToolParser
  imports Utf8 JsonGrammar
begin

text \<open>
  The stream parser of tool calls, \<^verbatim>\<open>rmlx-server/src/tool_parser.rs\<close>: the three wire formats,
  the state machine a reply's pieces are pushed into, and the recovery at the end of a reply.
  A \<^verbatim>\<open>str\<close> is its bytes. The parser of JSON texts, the reader of numbers and the generator of
  call ids come from packages and are parameters. A slice at an index inside a character
  panics: such a run is \<^term>\<open>None\<close>, and \<open>Panics\<close> in the readers.
\<close>

section \<open>Values and calls\<close>

text \<open>A \<^verbatim>\<open>serde_json::Map\<close> keeps the order of insertion; \<open>'n\<close> is a number.\<close>

datatype 'n jvalue =
    JNull
  | JBool bool
  | JNumber 'n
  | JString "u8 list"
  | JArray "'n jvalue list"
  | JObject "(u8 list \<times> 'n jvalue) list"

type_synonym 'n jmap = "(u8 list \<times> 'n jvalue) list"

fun map_insert :: "'k \<Rightarrow> 'v \<Rightarrow> ('k \<times> 'v) list \<Rightarrow> ('k \<times> 'v) list" where
  "map_insert k v [] = [(k, v)]"
| "map_insert k v ((k', v') # m) = (if k' = k then (k, v) # m else (k', v') # map_insert k v m)"

record 'n packages =
  pk_from_str :: "u8 list \<Rightarrow> 'n jvalue option"
  pk_number :: "u8 list \<Rightarrow> 'n option"
  pk_uuid_hex :: "nat \<Rightarrow> u8 list"

record 'n parsed_tool_call =
  pc_id :: "u8 list"
  pc_name :: "u8 list"
  pc_arguments :: "'n jmap"

datatype tool_call_format = Qwen3XmlFunction | Qwen3JsonToolCall | GemmaToolCall

definition arch_to_tool_call_format :: "u8 list \<Rightarrow> tool_call_format option" where
  "arch_to_tool_call_format arch =
     (if arch \<in> {ascii ''Qwen3ForCausalLM'', ascii ''Qwen3MoeForCausalLM'', ascii ''Qwen3_5MoeForConditionalGeneration''}
      then Some Qwen3XmlFunction else None)"

definition TOOL_CALL_OPEN :: "u8 list" where "TOOL_CALL_OPEN = ascii ''<tool_call>''"
definition TOOL_CALL_CLOSE :: "u8 list" where "TOOL_CALL_CLOSE = ascii ''</tool_call>''"
definition FUNCTION_PREFIX :: "u8 list" where "FUNCTION_PREFIX = ascii ''<function=''"
definition FUNCTION_CLOSE :: "u8 list" where "FUNCTION_CLOSE = ascii ''</function>''"
definition PARAM_PREFIX :: "u8 list" where "PARAM_PREFIX = ascii ''<parameter=''"
definition PARAM_CLOSE :: "u8 list" where "PARAM_CLOSE = ascii ''</parameter>''"
definition GEMMA_TOOL_CALL_OPEN :: "u8 list" where "GEMMA_TOOL_CALL_OPEN = ascii ''<|tool_call>''"
definition GEMMA_TOOL_CALL_CLOSE :: "u8 list" where "GEMMA_TOOL_CALL_CLOSE = ascii ''<tool_call|>''"
definition GEMMA_STR_SENTINEL :: "u8 list" where "GEMMA_STR_SENTINEL = [0x3C, 0x7C, 0x22, 0x7C, 0x3E]"

definition contains :: "u8 list \<Rightarrow> u8 list \<Rightarrow> bool" where "contains s p \<longleftrightarrow> find_bytes p s \<noteq> None"

definition detect_tool_call_format :: "u8 list option \<Rightarrow> u8 list \<Rightarrow> tool_call_format option" where
  "detect_tool_call_format template arch =
     (case template of
        None \<Rightarrow> arch_to_tool_call_format arch
      | Some src \<Rightarrow>
          if contains src GEMMA_TOOL_CALL_OPEN then Some GemmaToolCall
          else if contains src FUNCTION_PREFIX then Some Qwen3XmlFunction
          else if contains src TOOL_CALL_OPEN \<and>
              (contains src ([0x7B, 0x22] @ ascii ''name'' @ [0x22]) \<or>
               contains src ([0x5C, 0x22] @ ascii ''name'' @ [0x5C, 0x22])) then Some Qwen3JsonToolCall
          else arch_to_tool_call_format arch)"

section \<open>Texts\<close>

text \<open>The characters of \<^verbatim>\<open>char::is_whitespace\<close>, encoded.\<close>

definition ws_chars :: "u8 list list" where
  "ws_chars = [[0x09], [0x0A], [0x0B], [0x0C], [0x0D], [0x20], [0xC2, 0x85], [0xC2, 0xA0], [0xE1, 0x9A, 0x80],
     [0xE2, 0x80, 0x80], [0xE2, 0x80, 0x81], [0xE2, 0x80, 0x82], [0xE2, 0x80, 0x83], [0xE2, 0x80, 0x84], [0xE2, 0x80, 0x85],
     [0xE2, 0x80, 0x86], [0xE2, 0x80, 0x87], [0xE2, 0x80, 0x88], [0xE2, 0x80, 0x89], [0xE2, 0x80, 0x8A],
     [0xE2, 0x80, 0xA8], [0xE2, 0x80, 0xA9], [0xE2, 0x80, 0xAF], [0xE2, 0x81, 0x9F], [0xE3, 0x80, 0x80]]"

function strip_chars :: "u8 list list \<Rightarrow> u8 list \<Rightarrow> u8 list" where
  "strip_chars cs s =
     (case List.find (\<lambda>c. c \<noteq> [] \<and> starts_with s c) cs of
        None \<Rightarrow> s | Some c \<Rightarrow> strip_chars cs (drop (length c) s))"
  by pat_completeness auto
termination
proof (relation "measure (length \<circ> snd)", simp)
  fix cs :: "u8 list list" and s c
  assume "List.find (\<lambda>c. c \<noteq> [] \<and> starts_with s c) cs = Some c"
  then have "c \<noteq> []" "starts_with s c" by (auto simp: find_Some_iff)
  with starts_with_length [of s c] show "((cs, drop (length c) s), cs, s) \<in> measure (length \<circ> snd)"
    by (cases c) auto
qed

declare strip_chars.simps [simp del]

definition skip_ws :: "u8 list \<Rightarrow> u8 list" where "skip_ws s = strip_chars ws_chars s"
definition trim_end :: "u8 list \<Rightarrow> u8 list" where "trim_end s = rev (strip_chars (map rev ws_chars) (rev s))"
definition trim :: "u8 list \<Rightarrow> u8 list" where "trim s = trim_end (skip_ws s)"

definition strip_one_outer_newline :: "u8 list \<Rightarrow> u8 list" where
  "strip_one_outer_newline s =
     (let s = (if starts_with s [0x0A] then tl s else s)
      in if s \<noteq> [] \<and> last s = 0x0A then butlast s else s)"

definition new_call_id :: "'n packages \<Rightarrow> nat \<Rightarrow> u8 list" where
  "new_call_id P n = ascii ''call_'' @ pk_uuid_hex P n"

text \<open>The state of the scan: the pending closers, whether in a string, whether after a backslash.\<close>

fun balance_scan :: "u8 list \<Rightarrow> u8 list \<Rightarrow> bool \<Rightarrow> bool \<Rightarrow> u8 list \<times> bool \<times> bool" where
  "balance_scan [] stack instr esc = (stack, instr, esc)"
| "balance_scan (c # cs) stack instr esc =
     (if esc then balance_scan cs stack instr False
      else if instr then
        (if c = 0x5C then balance_scan cs stack instr True
         else if c = 0x22 then balance_scan cs stack False False
         else balance_scan cs stack instr False)
      else if c = 0x22 then balance_scan cs stack True False
      else if c = 0x7B then balance_scan cs (0x7D # stack) instr False
      else if c = 0x5B then balance_scan cs (0x5D # stack) instr False
      else if c = 0x7D \<or> c = 0x5D then balance_scan cs (tl stack) instr False
      else balance_scan cs stack instr False)"

definition balance_truncated_json :: "u8 list \<Rightarrow> u8 list option" where
  "balance_truncated_json s =
     (case balance_scan s [] False False of
        (stack, instr, esc) \<Rightarrow>
          if \<not> esc \<and> \<not> instr \<and> stack = [] then None
          else Some (s @ (if esc then [0x5C] else []) @ (if instr then [0x22] else []) @ stack))"

section \<open>Reading a call\<close>

datatype 'a reading = Panics | OutOfFuel | Refuses | Gives 'a

fun and_then :: "'a reading \<Rightarrow> ('a \<Rightarrow> 'b reading) \<Rightarrow> 'b reading" where
  "and_then Panics f = Panics"
| "and_then OutOfFuel f = OutOfFuel"
| "and_then Refuses f = Refuses"
| "and_then (Gives x) f = f x"

definition of_option :: "'a option \<Rightarrow> 'a reading" where
  "of_option x = (case x of None \<Rightarrow> Refuses | Some y \<Rightarrow> Gives y)"

definition parse_hermes_json :: "'n packages \<Rightarrow> u8 list \<Rightarrow> (u8 list \<times> 'n jmap) option" where
  "parse_hermes_json P body =
     (case pk_from_str P (trim body) of
        Some (JObject obj) \<Rightarrow>
          (case map_of obj (ascii ''name'') of
             Some (JString nm) \<Rightarrow>
               Some (nm, (case map_of obj (ascii ''arguments'') of
                   Some (JObject m) \<Rightarrow> m
                 | Some (JString s) \<Rightarrow> (case pk_from_str P s of Some (JObject m) \<Rightarrow> m | _ \<Rightarrow> [])
                 | _ \<Rightarrow> []))
           | _ \<Rightarrow> None)
      | _ \<Rightarrow> None)"

text \<open>The byte index walks through characters outside a sentinel string one byte at a time.\<close>

function matching_brace :: "u8 list \<Rightarrow> nat \<Rightarrow> nat \<Rightarrow> u8 list reading" where
  "matching_brace s i depth =
     (if length s \<le> i then Refuses
      else if \<not> is_char_boundary s i then Panics
      else if starts_with (drop i s) GEMMA_STR_SENTINEL then
        (case find_bytes GEMMA_STR_SENTINEL (drop (i + length GEMMA_STR_SENTINEL) s) of
           None \<Rightarrow> Refuses
         | Some c \<Rightarrow> matching_brace s (i + length GEMMA_STR_SENTINEL + c + length GEMMA_STR_SENTINEL) depth)
      else if s ! i = 0x7B then matching_brace s (i + 1) (depth + 1)
      else if s ! i = 0x7D then
        (if depth - 1 = 0 then Gives (drop 1 (take i s)) else matching_brace s (i + 1) (depth - 1))
      else matching_brace s (i + 1) depth)"
  by pat_completeness auto
termination by (relation "measure (\<lambda>(s, i, depth). length s - i)") (auto simp: GEMMA_STR_SENTINEL_def)

declare matching_brace.simps [simp del]

definition strip_matching_braces :: "u8 list \<Rightarrow> u8 list reading" where
  "strip_matching_braces s = (case s of b # _ \<Rightarrow> if b = 0x7B then matching_brace s 0 0 else Refuses | [] \<Rightarrow> Refuses)"

definition parse_sentinel_string :: "u8 list \<Rightarrow> (u8 list \<times> u8 list) reading" where
  "parse_sentinel_string r =
     (let after_open = length GEMMA_STR_SENTINEL in
      case find_bytes GEMMA_STR_SENTINEL (drop after_open r) of
        None \<Rightarrow> Refuses
      | Some c \<Rightarrow> Gives (take c (drop after_open r), drop (after_open + c + length GEMMA_STR_SENTINEL) r))"

definition parse_key :: "u8 list \<Rightarrow> (u8 list \<times> u8 list) reading" where
  "parse_key r =
     (if starts_with r GEMMA_STR_SENTINEL then parse_sentinel_string r
      else (case find_bytes [0x3A] r of
          None \<Rightarrow> Refuses
        | Some rel \<Rightarrow> let key = trim (take rel r) in if key = [] then Refuses else Gives (key, drop rel r)))"

definition scalar_to_json :: "'n packages \<Rightarrow> u8 list \<Rightarrow> 'n jvalue" where
  "scalar_to_json P raw =
     (if raw = ascii ''true'' then JBool True else if raw = ascii ''false'' then JBool False
      else if raw = ascii ''null'' then JNull
      else (case pk_number P raw of Some n \<Rightarrow> JNumber n | None \<Rightarrow> JString raw))"

definition scalar_end :: "u8 list \<Rightarrow> nat" where
  "scalar_end r = length (takeWhile (\<lambda>b. b \<noteq> 0x2C \<and> b \<noteq> 0x7D \<and> b \<noteq> 0x5D) r)"

text \<open>
  The methods of \<^verbatim>\<open>GemmaArgParser\<close> call each other: \<open>rec\<close> is such a call, with the fuel one
  lower. Each returns what is left of the text.
\<close>

datatype 'n gemma_task = Pairs "'n jmap" "u8 list" | Object "u8 list" | Value "u8 list" | Items "'n jvalue list" "u8 list"

type_synonym 'n gemma_read = "'n gemma_task \<Rightarrow> ('n jvalue \<times> u8 list) reading"

definition parse_pairs :: "'n gemma_read \<Rightarrow> 'n jmap \<Rightarrow> u8 list \<Rightarrow> ('n jvalue \<times> u8 list) reading" where
  "parse_pairs rec acc r =
     and_then (parse_key (skip_ws r)) (\<lambda>(key, r).
       let r = skip_ws r in
       if \<not> starts_with r [0x3A] then Refuses
       else and_then (rec (Value (skip_ws (drop 1 r)))) (\<lambda>(v, r).
         let acc = map_insert key v acc; r = skip_ws r in
         if starts_with r [0x2C] then rec (Pairs acc (drop 1 r)) else Gives (JObject acc, r)))"

definition parse_object :: "'n gemma_read \<Rightarrow> u8 list \<Rightarrow> ('n jvalue \<times> u8 list) reading" where
  "parse_object rec r = (let r = skip_ws r in if r = [] then Gives (JObject [], r) else rec (Pairs [] r))"

definition parse_value :: "'n packages \<Rightarrow> 'n gemma_read \<Rightarrow> u8 list \<Rightarrow> ('n jvalue \<times> u8 list) reading" where
  "parse_value P rec r =
     (let r = skip_ws r in
      if starts_with r GEMMA_STR_SENTINEL then
        and_then (parse_sentinel_string r) (\<lambda>(t, r). Gives (JString t, r))
      else if starts_with r [0x7B] then
        and_then (strip_matching_braces r) (\<lambda>span.
          and_then (rec (Object span)) (\<lambda>(v, _). Gives (v, drop (length span + 2) r)))
      else if starts_with r [0x5B] then rec (Items [] (drop 1 r))
      else (let e = scalar_end r in Gives (scalar_to_json P (trim (take e r)), drop e r)))"

definition parse_items :: "'n gemma_read \<Rightarrow> 'n jvalue list \<Rightarrow> u8 list \<Rightarrow> ('n jvalue \<times> u8 list) reading" where
  "parse_items rec acc r =
     (let r = skip_ws r in
      if starts_with r [0x5D] then Gives (JArray acc, drop 1 r)
      else and_then (rec (Value r)) (\<lambda>(v, r).
        let acc = acc @ [v]; r = skip_ws r in
        if starts_with r [0x2C] then rec (Items acc (drop 1 r))
        else if starts_with r [0x5D] then Gives (JArray acc, drop 1 r)
        else Refuses))"

primrec gemma_args :: "'n packages \<Rightarrow> nat \<Rightarrow> 'n gemma_read" where
  "gemma_args P 0 t = OutOfFuel"
| "gemma_args P (Suc n) t =
     (case t of
        Pairs acc r \<Rightarrow> parse_pairs (gemma_args P n) acc r
      | Object r \<Rightarrow> parse_object (gemma_args P n) r
      | Value r \<Rightarrow> parse_value P (gemma_args P n) r
      | Items acc r \<Rightarrow> parse_items (gemma_args P n) acc r)"

definition gemma_fuel :: "u8 list \<Rightarrow> nat" where "gemma_fuel s = 2 * length s + 3"

definition parse_gemma_call :: "'n packages \<Rightarrow> u8 list \<Rightarrow> (u8 list \<times> 'n jmap) reading" where
  "parse_gemma_call P body =
     (let body = trim body in
      if \<not> starts_with body (ascii ''call:'') then Refuses
      else let rest = drop 5 body in
        (case find_bytes [0x7B] rest of
           None \<Rightarrow> Refuses
         | Some brace \<Rightarrow>
             let nm = trim (take brace rest) in
             if nm = [] then Refuses
             else and_then (strip_matching_braces (drop brace rest)) (\<lambda>inner.
               and_then (gemma_args P (gemma_fuel inner) (Object inner)) (\<lambda>(v, _).
                 case v of JObject m \<Rightarrow> Gives (nm, m) | _ \<Rightarrow> Refuses))))"

end
