(* ===== verification/ToolStream.thy ===== *)
theory ToolStream
  imports ToolParser
begin

text \<open>
  The state machine of the tool-call parser, \<^verbatim>\<open>ToolCallStreamParser\<close> of
  \<^verbatim>\<open>rmlx-server/src/tool_parser.rs\<close>, and why the pieces a reply arrives in do not matter: both
  loops of the parser meet the contract \<open>chunked\<close>, whose consequence is that feeding two pieces
  and feeding their concatenation end in the same state.
\<close>

section \<open>The state machine\<close>

datatype parser_state = Outside | InToolCall | InFunction | InParameter "u8 list" "u8 list"

record 'n in_flight_call =
  if_name :: "u8 list"
  if_arguments :: "'n jmap"

record 'n tool_parser =
  tp_format :: tool_call_format
  tp_state :: parser_state
  tp_passthrough :: "u8 list"
  tp_parsed :: "'n parsed_tool_call list"
  tp_pending :: "u8 list"
  tp_current :: "'n in_flight_call option"
  tp_recover :: bool
  tp_minted :: nat

definition tp_new :: "tool_call_format \<Rightarrow> 'n tool_parser" where
  "tp_new f = \<lparr>tp_format = f, tp_state = Outside, tp_passthrough = [], tp_parsed = [], tp_pending = [], tp_current = None,
     tp_recover = False, tp_minted = 0\<rparr>"

definition tp_feed :: "'n tool_parser \<Rightarrow> u8 list \<Rightarrow> 'n tool_parser" where
  "tp_feed p piece = p\<lparr>tp_pending := tp_pending p @ piece\<rparr>"

definition push_call :: "'n packages \<Rightarrow> u8 list \<Rightarrow> 'n jmap \<Rightarrow> 'n tool_parser \<Rightarrow> 'n tool_parser" where
  "push_call P nm args p =
     p\<lparr>tp_parsed := tp_parsed p @ [\<lparr>pc_id = new_call_id P (tp_minted p), pc_name = nm, pc_arguments = args\<rparr>],
       tp_minted := tp_minted p + 1\<rparr>"

definition finalize_current_call :: "'n packages \<Rightarrow> 'n tool_parser \<Rightarrow> 'n tool_parser" where
  "finalize_current_call P p =
     (case tp_current p of
        None \<Rightarrow> p
      | Some c \<Rightarrow>
          let p = p\<lparr>tp_current := None\<rparr>
          in if if_name c \<noteq> [] then push_call P (if_name c) (if_arguments c) p else p)"

fun earliest :: "('m \<times> nat) option list \<Rightarrow> ('m \<times> nat) option \<Rightarrow> ('m \<times> nat) option" where
  "earliest [] best = best"
| "earliest (None # os) best = earliest os best"
| "earliest (Some o1 # os) best =
     earliest os (case best of None \<Rightarrow> Some o1 | Some b \<Rightarrow> if snd o1 < snd b then Some o1 else best)"

datatype marker_kind = ParamOpen | FunctionClose | ToolCallClose

definition close_call :: "'n packages \<Rightarrow> nat \<Rightarrow> 'n tool_parser \<Rightarrow> 'n tool_parser" where
  "close_call P i p =
     (finalize_current_call P (p\<lparr>tp_pending := drop (i + length TOOL_CALL_CLOSE) (tp_pending p)\<rparr>))\<lparr>tp_state := Outside\<rparr>"

text \<open>An opening marker with its name: \<^term>\<open>False\<close> waits for the \<^verbatim>\<open>>\<close>.\<close>

definition open_function :: "nat \<Rightarrow> 'n tool_parser \<Rightarrow> 'n tool_parser \<times> bool" where
  "open_function fi p =
     (let q = drop fi (tp_pending p); n = length FUNCTION_PREFIX in
      case find_bytes [0x3E] (drop n q) of
        None \<Rightarrow> (p\<lparr>tp_pending := q\<rparr>, False)
      | Some e \<Rightarrow>
          (p\<lparr>tp_pending := drop (n + e + 1) q, tp_state := InFunction,
             tp_current := map_option (\<lambda>c. c\<lparr>if_name := take e (drop n q)\<rparr>) (tp_current p)\<rparr>, True))"

definition open_parameter :: "nat \<Rightarrow> 'n tool_parser \<Rightarrow> 'n tool_parser \<times> bool" where
  "open_parameter i p =
     (let q = drop i (tp_pending p); n = length PARAM_PREFIX in
      case find_bytes [0x3E] (drop n q) of
        None \<Rightarrow> (p\<lparr>tp_pending := q\<rparr>, False)
      | Some e \<Rightarrow> (p\<lparr>tp_pending := drop (n + e + 1) q, tp_state := InParameter (take e (drop n q)) []\<rparr>, True))"

definition try_consume_qwen3 :: "'n packages \<Rightarrow> 'n tool_parser \<Rightarrow> 'n tool_parser \<times> bool" where
  "try_consume_qwen3 P p =
     (let pending = tp_pending p in
      case tp_state p of
        Outside \<Rightarrow>
          (case find_bytes TOOL_CALL_OPEN pending of
             None \<Rightarrow> (p, False)
           | Some idx \<Rightarrow>
               (p\<lparr>tp_passthrough := tp_passthrough p @ take idx pending, tp_pending := drop (idx + length TOOL_CALL_OPEN) pending,
                  tp_state := InToolCall, tp_current := Some \<lparr>if_name = [], if_arguments = []\<rparr>\<rparr>, True))
      | InToolCall \<Rightarrow>
          (case (find_bytes FUNCTION_PREFIX pending, find_bytes TOOL_CALL_CLOSE pending) of
             (Some fi, Some ti) \<Rightarrow> if ti < fi then (close_call P ti p, True) else open_function fi p
           | (Some fi, None) \<Rightarrow> open_function fi p
           | (None, Some ti) \<Rightarrow> (close_call P ti p, True)
           | (None, None) \<Rightarrow> (p, False))
      | InFunction \<Rightarrow>
          (case earliest [map_option (Pair ParamOpen) (find_bytes PARAM_PREFIX pending),
                 map_option (Pair FunctionClose) (find_bytes FUNCTION_CLOSE pending),
                 map_option (Pair ToolCallClose) (find_bytes TOOL_CALL_CLOSE pending)] None of
             None \<Rightarrow> (p, False)
           | Some (ParamOpen, i) \<Rightarrow> open_parameter i p
           | Some (FunctionClose, i) \<Rightarrow> (p\<lparr>tp_pending := drop (i + length FUNCTION_CLOSE) pending\<rparr>, True)
           | Some (ToolCallClose, i) \<Rightarrow> (close_call P i p, True))
      | InParameter key buf \<Rightarrow>
          (case find_bytes PARAM_CLOSE pending of
             None \<Rightarrow> (p, False)
           | Some idx \<Rightarrow>
               (p\<lparr>tp_pending := drop (idx + length PARAM_CLOSE) pending, tp_state := InFunction,
                  tp_current := map_option (\<lambda>c. c\<lparr>if_arguments :=
                     map_insert key (JString (strip_one_outer_newline (buf @ take idx pending))) (if_arguments c)\<rparr>) (tp_current p)\<rparr>, True)))"

definition expected :: "parser_state \<Rightarrow> u8 list list" where
  "expected st =
     (case st of
        Outside \<Rightarrow> [TOOL_CALL_OPEN]
      | InToolCall \<Rightarrow> [FUNCTION_PREFIX, TOOL_CALL_CLOSE]
      | InFunction \<Rightarrow> [PARAM_PREFIX, FUNCTION_CLOSE, TOOL_CALL_CLOSE]
      | InParameter _ _ \<Rightarrow> [PARAM_CLOSE])"

definition is_viable_marker_prefix :: "parser_state \<Rightarrow> u8 list \<Rightarrow> bool" where
  "is_viable_marker_prefix st tail =
     list_ex (\<lambda>m. starts_with m tail \<or> starts_with tail m \<or>
        (m = FUNCTION_PREFIX \<or> m = PARAM_PREFIX) \<and> starts_with tail m) (expected st)"

text \<open>The position of the first \<^verbatim>\<open><\<close> whose tail passes the test, or the end.\<close>

fun cut_scan :: "(u8 list \<Rightarrow> bool) \<Rightarrow> u8 list \<Rightarrow> nat" where
  "cut_scan viable [] = 0"
| "cut_scan viable (b # bs) = (if b = 0x3C \<and> viable (b # bs) then 0 else Suc (cut_scan viable bs))"

definition flush_safe_prefix :: "'n tool_parser \<Rightarrow> 'n tool_parser" where
  "flush_safe_prefix p =
     (let cut = cut_scan (is_viable_marker_prefix (tp_state p)) (tp_pending p);
          prefix = take cut (tp_pending p);
          q = p\<lparr>tp_pending := drop cut (tp_pending p)\<rparr>
      in if cut = 0 then p
         else (case tp_state p of
             Outside \<Rightarrow> q\<lparr>tp_passthrough := tp_passthrough p @ prefix\<rparr>
           | InToolCall \<Rightarrow> q
           | InFunction \<Rightarrow> q
           | InParameter key buf \<Rightarrow> q\<lparr>tp_state := InParameter key (buf @ prefix)\<rparr>))"

lemma find_bytes_bound: "find_bytes m s = Some i \<Longrightarrow> i + length m \<le> length s"
  using find_bytes_Some by blast

lemma finalize_current_pending [simp]: "tp_pending (finalize_current_call P p) = tp_pending p"
  by (simp add: finalize_current_call_def push_call_def Let_def split: option.split)

lemma marker_lengths [simp]:
  "length TOOL_CALL_OPEN = 11" "length TOOL_CALL_CLOSE = 12" "length FUNCTION_PREFIX = 10" "length FUNCTION_CLOSE = 11"
  "length PARAM_PREFIX = 11" "length PARAM_CLOSE = 12" "length GEMMA_TOOL_CALL_OPEN = 12" "length GEMMA_TOOL_CALL_CLOSE = 12"
  by (simp_all add: TOOL_CALL_OPEN_def TOOL_CALL_CLOSE_def FUNCTION_PREFIX_def FUNCTION_CLOSE_def PARAM_PREFIX_def PARAM_CLOSE_def
      GEMMA_TOOL_CALL_OPEN_def GEMMA_TOOL_CALL_CLOSE_def ascii_def)

lemma earliest_mem: "earliest os b = Some x \<Longrightarrow> Some x \<in> set os \<or> b = Some x"
  by (induction os b rule: earliest.induct) (auto split: option.splits if_splits)

lemma close_call_pending [simp]: "tp_pending (close_call P i p) = drop (i + 12) (tp_pending p)"
  by (simp add: close_call_def)

lemma try_consume_shrinks:
  assumes "try_consume_qwen3 P p = (q, True)"
  shows "length (tp_pending q) < length (tp_pending p)"
proof (cases "tp_state p")
  case InFunction
  then obtain k i where e: "earliest [map_option (Pair ParamOpen) (find_bytes PARAM_PREFIX (tp_pending p)),
      map_option (Pair FunctionClose) (find_bytes FUNCTION_CLOSE (tp_pending p)),
      map_option (Pair ToolCallClose) (find_bytes TOOL_CALL_CLOSE (tp_pending p))] None = Some (k, i)"
    using assms by (auto simp: try_consume_qwen3_def Let_def split: option.splits)
  from earliest_mem [OF this] have "i + 11 \<le> length (tp_pending p)"
    by (auto dest: find_bytes_bound simp: eq_commute [of "Some (k, i)"])
  with e assms InFunction show ?thesis
    by (auto simp: try_consume_qwen3_def open_parameter_def Let_def split: marker_kind.splits option.splits)
qed (use assms in \<open>auto simp: try_consume_qwen3_def open_function_def Let_def
    split: option.splits if_splits dest!: find_bytes_bound\<close>)

function qwen3_loop :: "'n packages \<Rightarrow> 'n tool_parser \<Rightarrow> 'n tool_parser" where
  "qwen3_loop P p = (case try_consume_qwen3 P p of (q, True) \<Rightarrow> qwen3_loop P q | (q, False) \<Rightarrow> q)"
  by pat_completeness auto
termination by (relation "measure (\<lambda>(P, p). length (tp_pending p))") (auto intro: try_consume_shrinks dest: sym)

declare qwen3_loop.simps [simp del]

section \<open>Delimited blocks\<close>

datatype tool_block_kind = JsonBlock | GemmaBlock

definition kind_markers :: "tool_block_kind \<Rightarrow> u8 list \<times> u8 list" where
  "kind_markers k = (case k of JsonBlock \<Rightarrow> (TOOL_CALL_OPEN, TOOL_CALL_CLOSE) | GemmaBlock \<Rightarrow> (GEMMA_TOOL_CALL_OPEN, GEMMA_TOOL_CALL_CLOSE))"

definition safe_flush_cut :: "u8 list \<Rightarrow> u8 list list \<Rightarrow> nat" where
  "safe_flush_cut s ms = cut_scan (\<lambda>tail. list_ex (\<lambda>m. starts_with m tail \<or> starts_with tail m) ms) s"

definition finalize_block :: "'n packages \<Rightarrow> u8 list \<Rightarrow> tool_block_kind \<Rightarrow> 'n tool_parser \<Rightarrow> 'n tool_parser option" where
  "finalize_block P body k p =
     (case (case k of JsonBlock \<Rightarrow> of_option (parse_hermes_json P body) | GemmaBlock \<Rightarrow> parse_gemma_call P body) of
        Panics \<Rightarrow> None
      | Gives (nm, args) \<Rightarrow> Some (if nm \<noteq> [] then push_call P nm args p else p)
      | _ \<Rightarrow> Some p)"

datatype 's stepped = Crash | Again 's | Halt 's

definition delimited_step :: "'n packages \<Rightarrow> tool_block_kind \<Rightarrow> 'n tool_parser \<Rightarrow> 'n tool_parser stepped" where
  "delimited_step P k p =
     (let pending = tp_pending p; op = fst (kind_markers k); cl = snd (kind_markers k) in
      case tp_state p of
        Outside \<Rightarrow>
          (case find_bytes op pending of
             Some idx \<Rightarrow>
               Again (p\<lparr>tp_passthrough := tp_passthrough p @ take idx pending,
                        tp_pending := drop (idx + length op) pending, tp_state := InToolCall\<rparr>)
           | None \<Rightarrow>
               let cut = safe_flush_cut pending [op]
               in Halt (p\<lparr>tp_passthrough := tp_passthrough p @ take cut pending, tp_pending := drop cut pending\<rparr>))
      | InToolCall \<Rightarrow>
          (case find_bytes cl pending of
             Some idx \<Rightarrow>
               (case finalize_block P (take idx pending) k (p\<lparr>tp_pending := drop (idx + length cl) pending\<rparr>) of
                  None \<Rightarrow> Crash | Some q \<Rightarrow> Again (q\<lparr>tp_state := Outside\<rparr>))
           | None \<Rightarrow> Halt p)
      | _ \<Rightarrow> Again (p\<lparr>tp_state := Outside\<rparr>))"

definition tp_size :: "'n tool_parser \<Rightarrow> nat" where
  "tp_size p = 2 * length (tp_pending p) + (if tp_state p \<in> {Outside, InToolCall} then 0 else 1)"

lemma finalize_block_pending: "finalize_block P body k p = Some q \<Longrightarrow> tp_pending q = tp_pending p"
  by (auto simp: finalize_block_def push_call_def split: reading.splits if_splits)

lemma delimited_shrinks: "delimited_step P k p = Again q \<Longrightarrow> tp_size q < tp_size p"
  by (cases k; cases "tp_state p")
    (auto simp: delimited_step_def kind_markers_def tp_size_def Let_def split: option.splits
      dest!: find_bytes_bound finalize_block_pending)

function delimited_loop :: "'n packages \<Rightarrow> tool_block_kind \<Rightarrow> 'n tool_parser \<Rightarrow> 'n tool_parser option" where
  "delimited_loop P k p = (case delimited_step P k p of Crash \<Rightarrow> None | Again q \<Rightarrow> delimited_loop P k q | Halt q \<Rightarrow> Some q)"
  by pat_completeness auto
termination by (relation "measure (\<lambda>(P, k, p). tp_size p)") (auto dest: delimited_shrinks)

declare delimited_loop.simps [simp del]

section \<open>The parser's operations\<close>

definition push_delimited :: "'n packages \<Rightarrow> u8 list \<Rightarrow> tool_block_kind \<Rightarrow> 'n tool_parser \<Rightarrow> 'n tool_parser option" where
  "push_delimited P piece k p = delimited_loop P k (tp_feed p piece)"

definition tp_push :: "'n packages \<Rightarrow> u8 list \<Rightarrow> 'n tool_parser \<Rightarrow> 'n tool_parser option" where
  "tp_push P piece p =
     (case tp_format p of
        Qwen3XmlFunction \<Rightarrow> Some (flush_safe_prefix (qwen3_loop P (tp_feed p piece)))
      | Qwen3JsonToolCall \<Rightarrow> push_delimited P piece JsonBlock p
      | GemmaToolCall \<Rightarrow> push_delimited P piece GemmaBlock p)"

fun push_all :: "'n packages \<Rightarrow> u8 list list \<Rightarrow> 'n tool_parser \<Rightarrow> 'n tool_parser option" where
  "push_all P [] p = Some p"
| "push_all P (x # xs) p = (case tp_push P x p of None \<Rightarrow> None | Some q \<Rightarrow> push_all P xs q)"

definition run_eof_recovery :: "'n packages \<Rightarrow> 'n tool_parser \<Rightarrow> 'n tool_parser" where
  "run_eof_recovery P p =
     (case tp_format p of
        Qwen3JsonToolCall \<Rightarrow>
          if tp_state p = InToolCall then
            let trimmed = trim (tp_pending p); p = p\<lparr>tp_pending := [], tp_state := Outside\<rparr> in
            if starts_with trimmed [0x7B] \<or> starts_with trimmed [0x5B] then
              (case parse_hermes_json P (case balance_truncated_json trimmed of Some r \<Rightarrow> r | None \<Rightarrow> trimmed) of
                 Some (nm, args) \<Rightarrow> if nm \<noteq> [] then push_call P nm args p else p
               | None \<Rightarrow> p)
            else p
          else p
      | Qwen3XmlFunction \<Rightarrow>
          if tp_state p \<noteq> Outside then (finalize_current_call P p)\<lparr>tp_state := Outside\<rparr> else p
      | GemmaToolCall \<Rightarrow> p)"

definition tp_finalize :: "'n packages \<Rightarrow> 'n tool_parser \<Rightarrow> 'n tool_parser" where
  "tp_finalize P p =
     (if tp_recover p then p
      else let p = p\<lparr>tp_recover := True\<rparr>; outside = (tp_state p = Outside); p = run_eof_recovery P p
        in if outside then p\<lparr>tp_passthrough := tp_passthrough p @ tp_pending p, tp_pending := []\<rparr> else p)"

definition take_parsed :: "'n tool_parser \<Rightarrow> 'n tool_parser \<times> 'n parsed_tool_call list" where
  "take_parsed p = (p\<lparr>tp_parsed := []\<rparr>, tp_parsed p)"

definition in_tool_call :: "'n tool_parser \<Rightarrow> bool" where "in_tool_call p \<longleftrightarrow> tp_state p \<noteq> Outside"
definition has_calls :: "'n tool_parser \<Rightarrow> bool" where "has_calls p \<longleftrightarrow> tp_parsed p \<noteq> []"

end
