(* ===== verification/ToolChunks.thy ===== *)
theory ToolChunks
  imports ToolStream
begin

text \<open>
  The pieces of a reply do not matter to the tool-call parser. \<open>chunked\<close> is what its two loops
  have in common; the laws say that a step taken keeps being taken when more text arrives, and
  that a loop that stopped, with what it flushed, resumes as if it had waited for the text.
\<close>

section \<open>Loops that resume\<close>

fun resumes :: "('s \<Rightarrow> 's) \<Rightarrow> 's stepped \<Rightarrow> 's stepped \<Rightarrow> bool" where
  "resumes settle Crash Crash = True"
| "resumes settle (Again s) (Again t) = (s = t)"
| "resumes settle (Halt s) (Halt t) = (settle s = settle t)"
| "resumes settle _ _ = False"

locale chunked =
  fixes step :: "'s \<Rightarrow> 's stepped" and run :: "'s \<Rightarrow> 's option" and settle :: "'s \<Rightarrow> 's"
    and feed :: "'s \<Rightarrow> u8 list \<Rightarrow> 's" and size_of :: "'s \<Rightarrow> nat"
  assumes run_step: "run s = (case step s of Crash \<Rightarrow> None | Again t \<Rightarrow> run t | Halt t \<Rightarrow> Some (settle t))"
    and shrinks: "step s = Again t \<Longrightarrow> size_of t < size_of s"
    and feed_feed: "feed (feed s a) b = feed s (a @ b)"
    and again_feed: "step s = Again t \<Longrightarrow> step (feed s b) = Again (feed t b)"
    and crash_feed: "step s = Crash \<Longrightarrow> step (feed s b) = Crash"
    and halt_feed: "step s = Halt t \<Longrightarrow> resumes settle (step (feed s b)) (step (feed (settle t) b))"
begin

lemma run_resumes: "resumes settle (step s) (step t) \<Longrightarrow> run s = run t"
  unfolding run_step [of s] run_step [of t] by (cases "step s"; cases "step t") simp_all

lemma run_feed: "run (feed s b) = Option.bind (run s) (\<lambda>t. run (feed t b))"
proof (induction "size_of s" arbitrary: s rule: less_induct)
  case less
  show ?case
  proof (cases "step s")
    case Crash
    then show ?thesis by (simp add: run_step [of s] run_step [of "feed s b"] crash_feed)
  next
    case (Again t)
    then show ?thesis using less [OF shrinks [OF Again]] by (simp add: run_step [of s] run_step [of "feed s b"] again_feed)
  next
    case (Halt t)
    then show ?thesis using run_resumes [OF halt_feed [OF Halt]] by (simp add: run_step [of s])
  qed
qed

text \<open>Two pieces, or their concatenation.\<close>

lemma run_pieces: "run (feed s (a @ b)) = Option.bind (run (feed s a)) (\<lambda>t. run (feed t b))"
  unfolding feed_feed [symmetric] by (rule run_feed)

end

section \<open>Markers\<close>

text \<open>A marker starts with \<^verbatim>\<open><\<close> and has no other.\<close>

definition marker :: "u8 list \<Rightarrow> bool" where "marker m \<longleftrightarrow> (\<exists>t. m = 0x3C # t \<and> 0x3C \<notin> set t)"

definition viable :: "u8 list list \<Rightarrow> u8 list \<Rightarrow> bool" where
  "viable ms tail \<longleftrightarrow> (\<exists>m\<in>set ms. starts_with m tail \<or> starts_with tail m)"

text \<open>No marker starts in the first \<open>c\<close> bytes of \<open>p\<close>, whatever follows.\<close>

definition safe :: "u8 list list \<Rightarrow> nat \<Rightarrow> u8 list \<Rightarrow> bool" where
  "safe ms c p \<longleftrightarrow> c \<le> length p \<and> (\<forall>j<c. \<not> viable ms (drop j p))"

lemma starts_with_append: "starts_with (p @ b) m \<Longrightarrow> starts_with p m \<or> starts_with m p"
  by (auto simp: starts_with_iff append_eq_append_conv2)

lemma starts_with_feed: "starts_with p m \<Longrightarrow> starts_with (p @ b) m"
  by (auto simp: starts_with_iff)

lemma starts_with_prefix: "starts_with m (p @ b) \<Longrightarrow> starts_with m p"
  by (auto simp: starts_with_iff)

lemma viable_feed: "viable ms (p @ b) \<Longrightarrow> viable ms p"
  unfolding viable_def using starts_with_append starts_with_prefix by blast

lemma safe_feed: "safe ms c p \<Longrightarrow> safe ms c (p @ b)"
  unfolding safe_def using viable_feed by (metis drop_append length_append less_le_trans nat_less_le trans_le_add1 diff_is_0_eq drop0)

lemma safe_0 [simp]: "safe ms 0 p" by (simp add: safe_def)

lemma safe_add: "safe ms c p \<Longrightarrow> safe ms d (drop c p) \<Longrightarrow> safe ms (c + d) p"
  unfolding safe_def by (auto simp: add.commute) (metis add.commute le_add_diff_inverse less_diff_conv2 not_le)

lemma safe_no_start: "safe ms c p \<Longrightarrow> m \<in> set ms \<Longrightarrow> j < c \<Longrightarrow> \<not> starts_with (drop j p) m"
  by (auto simp: safe_def viable_def)

lemma drop_sub: "c \<le> j \<Longrightarrow> drop (j - c) (drop c p) = drop j p" by simp

lemma safe_find:
  assumes "safe ms c p" "m \<in> set ms"
  shows "find_bytes m p = map_option ((+) c) (find_bytes m (drop c p))"
proof (cases "find_bytes m (drop c p)")
  case None
  have "\<not> starts_with (drop j p) m" if "j \<le> length p" for j
  proof (cases "j < c")
    case False
    then have "j - c \<le> length (drop c p)" using that by simp
    with None have "\<not> starts_with (drop (j - c) (drop c p)) m" unfolding find_bytes_None by blast
    with False show ?thesis using drop_sub [of c j p] by simp
  qed (use safe_no_start [OF assms] in blast)
  then have "find_bytes m p = None" by (simp add: find_bytes_None)
  with None show ?thesis by simp
next
  case (Some i)
  note F = find_bytes_Some [OF Some]
  have "find_bytes m p = Some (c + i)"
  proof (rule find_bytes_eqI)
    show "starts_with (drop (c + i) p) m" using F by (simp add: add.commute)
    show "c + i \<le> length p" using F assms(1) by (auto simp: safe_def)
    fix j assume "j < c + i"
    show "\<not> starts_with (drop j p) m"
    proof (cases "j < c")
      case False
      with \<open>j < c + i\<close> have "j - c < i" by arith
      with F have "\<not> starts_with (drop (j - c) (drop c p)) m" by blast
      with False show ?thesis using drop_sub [of c j p] by simp
    qed (use safe_no_start [OF assms] in blast)
  qed
  with Some show ?thesis by simp
qed

lemma find_feed: "find_bytes m p = Some i \<Longrightarrow> find_bytes m (p @ b) = Some i"
proof -
  assume "find_bytes m p = Some i"
  note F = find_bytes_Some [OF this]
  show ?thesis
  proof (rule find_bytes_eqI)
    show "starts_with (drop i (p @ b)) m" using F starts_with_feed [of "drop i p" m b] by simp
    show "i \<le> length (p @ b)" using F by simp
    fix j assume j: "j < i"
    show "\<not> starts_with (drop j (p @ b)) m"
    proof
      assume s: "starts_with (drop j (p @ b)) m"
      have "drop j (p @ b) = drop j p @ b" using F j by simp
      moreover have "length m + j \<le> length p" using F j by linarith
      then have "length m \<le> length (drop j p)" by simp
      ultimately have "starts_with (drop j p) m" using s by (simp add: starts_with_def)
      with F j show False by blast
    qed
  qed
qed

section \<open>The first marker of several\<close>

fun first_marker :: "u8 list list \<Rightarrow> u8 list \<Rightarrow> (u8 list \<times> nat) option" where
  "first_marker ms [] = None"
| "first_marker ms (b # bs) =
     (case List.find (starts_with (b # bs)) ms of
        Some m \<Rightarrow> Some (m, 0) | None \<Rightarrow> map_option (map_prod id Suc) (first_marker ms bs))"

definition separate :: "u8 list list \<Rightarrow> bool" where
  "separate ms \<longleftrightarrow> (\<forall>m\<in>set ms. marker m) \<and> (\<forall>m\<in>set ms. \<forall>n\<in>set ms. starts_with m n \<longrightarrow> m = n)"

lemma first_marker_Some:
  "first_marker ms p = Some (m, i) \<Longrightarrow> m \<in> set ms \<and> starts_with (drop i p) m \<and> i < length p \<and>
     (\<forall>j<i. \<forall>n\<in>set ms. \<not> starts_with (drop j p) n)"
proof (induction p arbitrary: i)
  case (Cons b bs)
  show ?case
  proof (cases "List.find (starts_with (b # bs)) ms")
    case (Some n)
    with Cons.prems show ?thesis by (auto simp: find_Some_iff)
  next
    case None
    with Cons.prems obtain k where k: "first_marker ms bs = Some (m, k)" "i = Suc k" by (auto simp: map_prod_def split: prod.splits)
    from None have "\<forall>n\<in>set ms. \<not> starts_with (b # bs) n" by (auto simp: find_None_iff)
    with Cons.IH [OF k(1)] k(2) show ?thesis by (auto simp: less_Suc_eq_0_disj)
  qed
qed simp

lemma first_marker_None: "first_marker ms p = None \<Longrightarrow> [] \<notin> set ms \<Longrightarrow> n \<in> set ms \<Longrightarrow> \<not> starts_with (drop j p) n"
proof (induction p arbitrary: j)
  case Nil
  then show ?case by (auto simp: starts_with_def)
next
  case (Cons b bs)
  then show ?case by (cases j) (auto simp: find_None_iff split: option.splits)
qed

lemma starts_with_both: "starts_with s m \<Longrightarrow> starts_with s n \<Longrightarrow> starts_with m n \<or> starts_with n m"
  by (auto simp: starts_with_iff append_eq_append_conv2)

lemma separate_unique: "separate ms \<Longrightarrow> m \<in> set ms \<Longrightarrow> n \<in> set ms \<Longrightarrow> starts_with s m \<Longrightarrow> starts_with s n \<Longrightarrow> m = n"
  unfolding separate_def using starts_with_both by metis

lemma separate_nonempty: "separate ms \<Longrightarrow> [] \<notin> set ms"
  by (auto simp: separate_def marker_def)

lemma first_markerI:
  assumes "separate ms" "m \<in> set ms" "starts_with (drop i p) m" "\<And>j n. j < i \<Longrightarrow> n \<in> set ms \<Longrightarrow> \<not> starts_with (drop j p) n"
  shows "first_marker ms p = Some (m, i)"
proof (cases "first_marker ms p")
  case None
  with first_marker_None [OF None separate_nonempty [OF assms(1)] assms(2)] assms(3) show ?thesis by blast
next
  case (Some x)
  obtain n k where x: "x = (n, k)" by force
  note F = first_marker_Some [OF Some [unfolded x]]
  have "k = i" using F assms(2-4) by (metis nat_neq_iff)
  moreover have "n = m" using F separate_unique [OF assms(1) _ assms(2) _ assms(3)] \<open>k = i\<close> by blast
  ultimately show ?thesis using Some x by simp
qed

text \<open>A marker cannot start inside another one.\<close>

lemma marker_inside:
  assumes "marker m" "marker n" "starts_with s m" "starts_with (drop d s) n" "0 < d" "d < length m"
  shows False
proof -
  obtain t u where t: "m = 0x3C # t" "0x3C \<notin> set t" and u: "n = 0x3C # u" using assms(1,2) by (auto simp: marker_def)
  obtain r where r: "s = m @ r" using assms(3) by (auto simp: starts_with_iff)
  have l: "d \<le> length s" using r assms(6) by simp
  have "drop d s ! 0 = 0x3C" using assms(4) u by (auto simp: starts_with_iff)
  with nth_drop [OF l, of 0] have "s ! d = 0x3C" by simp
  with r assms(6) have "m ! d = 0x3C" by (simp add: nth_append)
  with t assms(5,6) show False by (cases d) (auto simp: in_set_conv_nth)
qed

lemma first_marker_feed:
  assumes "separate ms" "first_marker ms p = Some (m, i)"
  shows "first_marker ms (p @ b) = Some (m, i)"
proof (rule first_markerI [OF assms(1)])
  note F = first_marker_Some [OF assms(2)]
  show "m \<in> set ms" using F by blast
  show "starts_with (drop i (p @ b)) m" using F starts_with_feed [of "drop i p" m b] by simp
  fix j n assume j: "j < i" "n \<in> set ms"
  show "\<not> starts_with (drop j (p @ b)) n"
  proof
    assume s: "starts_with (drop j (p @ b)) n"
    have d: "drop j (p @ b) = drop j p @ b" using F j by simp
    from F j have "\<not> starts_with (drop j p) n" by blast
    with starts_with_append [OF s [unfolded d]] have "starts_with n (drop j p)" by blast
    then have l: "length (drop j p) \<le> length n" by (rule starts_with_length)
    have sm: "starts_with (drop (i - j) (drop j (p @ b))) m" using F j starts_with_feed [of "drop i p" m b] by simp
    have lt: "i - j < length n" using l F j(1) by simp arith
    have mk: "marker n" "marker m" using assms(1) F j by (auto simp: separate_def)
    from marker_inside [OF mk s sm _ lt] j(1) show False by simp
  qed
qed

lemma first_marker_safe:
  assumes "separate ms" "first_marker ms p = Some (m, i)"
  shows "safe ms i p"
  unfolding safe_def
proof (intro conjI allI impI notI)
  note F = first_marker_Some [OF assms(2)]
  show "i \<le> length p" using F by simp
  fix j assume j: "j < i" and "viable ms (drop j p)"
  then obtain n where n: "n \<in> set ms" "starts_with n (drop j p) \<or> starts_with (drop j p) n" by (auto simp: viable_def)
  with F j have "starts_with n (drop j p)" by blast
  then have "starts_with n (drop j p @ [])" by simp
  then obtain r where r: "n = drop j p @ r" by (auto simp: starts_with_iff)
  have "starts_with (drop (i - j) n) m" unfolding r using F j starts_with_feed [of "drop i p" m r] by simp
  moreover have "starts_with n n" by (simp add: starts_with_def)
  moreover have "length n = length p - j + length r" using r by simp
  then have "i - j < length n" using F j by arith
  ultimately show False using marker_inside [of n m n "i - j"] assms(1) n F j by (auto simp: separate_def)
qed

lemma first_marker_shift:
  assumes "separate ms" "safe ms c p"
  shows "first_marker ms p = map_option (map_prod id ((+) c)) (first_marker ms (drop c p))"
proof (cases "first_marker ms (drop c p)")
  case None
  have "first_marker ms p = None"
  proof (rule ccontr)
    assume "first_marker ms p \<noteq> None"
    then obtain m i where "first_marker ms p = Some (m, i)" by auto
    note F = first_marker_Some [OF this]
    have "\<not> i < c" using F safe_no_start [OF assms(2)] by blast
    then have "starts_with (drop (i - c) (drop c p)) m" using F by simp
    with first_marker_None [OF None separate_nonempty [OF assms(1)]] F show False by blast
  qed
  with None show ?thesis by simp
next
  case (Some x)
  obtain m i where x: "x = (m, i)" by force
  note F = first_marker_Some [OF Some [unfolded x]]
  have "first_marker ms p = Some (m, c + i)"
  proof (rule first_markerI [OF assms(1)])
    show "m \<in> set ms" using F by blast
    show "starts_with (drop (c + i) p) m" using F by (simp add: add.commute)
    fix j n assume j: "j < c + i" "n \<in> set ms"
    show "\<not> starts_with (drop j p) n"
    proof (cases "j < c")
      case False
      with j(1) have "j - c < i" by arith
      with F j(2) have "\<not> starts_with (drop (j - c) (drop c p)) n" by blast
      with False show ?thesis using drop_sub [of c j p] by simp
    qed (use safe_no_start [OF assms(2) j(2)] in blast)
  qed
  with Some x show ?thesis by simp
qed

lemma find_first:
  assumes "separate ms" "m \<in> set ms" "first_marker ms p = Some (m', i)"
  shows "m = m' \<Longrightarrow> find_bytes m p = Some i" "m \<noteq> m' \<Longrightarrow> find_bytes m p = Some j \<Longrightarrow> i < j"
proof -
  note F = first_marker_Some [OF assms(3)]
  show "m = m' \<Longrightarrow> find_bytes m p = Some i" using F by (intro find_bytes_eqI) auto
  assume n: "m \<noteq> m'" "find_bytes m p = Some j"
  note G = find_bytes_Some [OF n(2)]
  have "\<not> j < i" using F G assms(2) by blast
  moreover have "j \<noteq> i" using F G n(1) separate_unique [OF assms(1,2)] by blast
  ultimately show "i < j" by simp
qed

lemma find_first_None: "separate ms \<Longrightarrow> m \<in> set ms \<Longrightarrow> first_marker ms p = None \<Longrightarrow> find_bytes m p = None"
  unfolding find_bytes_None using first_marker_None separate_nonempty by blast

section \<open>The flush\<close>

lemma cut_scan_le: "cut_scan v p \<le> length p" by (induction p) auto

lemma cut_scan_spec:
  assumes "\<And>tail. v tail \<longleftrightarrow> viable ms tail" "\<forall>m\<in>set ms. marker m"
  shows "safe ms (cut_scan v p) p \<and> (cut_scan v p < length p \<longrightarrow> viable ms (drop (cut_scan v p) p))"
proof (induction p)
  case (Cons b bs)
  show ?case
  proof (cases "b = 0x3C \<and> v (b # bs)")
    case True
    then have z: "cut_scan v (b # bs) = 0" by (subst cut_scan.simps) (rule if_P)
    from True have "viable ms (b # bs)" unfolding assms(1) by (rule conjunct2)
    then show ?thesis unfolding z by simp
  next
    case False
    have nv: "\<not> viable ms (b # bs)"
    proof
      assume vb: "viable ms (b # bs)"
      then obtain m where m: "m \<in> set ms" "starts_with m (b # bs) \<or> starts_with (b # bs) m" by (auto simp: viable_def)
      with assms(2) have "b = 0x3C" by (auto simp: marker_def starts_with_iff)
      with False vb assms(1) show False by blast
    qed
    from False have cs: "cut_scan v (b # bs) = Suc (cut_scan v bs)" by (simp only: cut_scan.simps if_False)
    show ?thesis unfolding cs using Cons.IH nv by (auto simp: safe_def less_Suc_eq_0_disj)
  qed
qed simp

lemma cut_scan_eqI:
  assumes "\<And>tail. v tail \<longleftrightarrow> viable ms tail" "\<forall>m\<in>set ms. marker m" "safe ms c p" "c < length p \<longrightarrow> viable ms (drop c p)"
  shows "cut_scan v p = c"
proof -
  note S = cut_scan_spec [OF assms(1,2), of p]
  have "\<not> cut_scan v p < c" using S assms(3,4) by (auto simp: safe_def)
  moreover have "\<not> c < cut_scan v p" using S assms(3,4) cut_scan_le [of v p] by (auto simp: safe_def)
  ultimately show ?thesis by simp
qed

lemma cut_scan_safe:
  assumes "\<And>tail. v tail \<longleftrightarrow> viable ms tail" "\<forall>m\<in>set ms. marker m" "safe ms c p"
  shows "cut_scan v p = c + cut_scan v (drop c p)"
proof (rule cut_scan_eqI [OF assms(1,2)])
  note S = cut_scan_spec [OF assms(1,2), of "drop c p"]
  show "safe ms (c + cut_scan v (drop c p)) p" using safe_add [OF assms(3)] S by blast
  show "c + cut_scan v (drop c p) < length p \<longrightarrow> viable ms (drop (c + cut_scan v (drop c p)) p)"
    using S by (auto simp: add.commute less_diff_conv)
qed

end
