(* ===== verification/ToolProps.thy ===== *)
theory ToolProps
  imports ToolChunks
begin

text \<open>
  Both loops of the tool-call parser are \<open>chunked\<close>, and the properties of the parser: the pieces
  of a reply do not matter, the calls of a well-formed reply are read back, text without calls
  passes through, and the readers return.
\<close>

section \<open>The step by its first marker\<close>

definition act :: "'n packages \<Rightarrow> u8 list \<Rightarrow> nat \<Rightarrow> 'n tool_parser \<Rightarrow> 'n tool_parser \<times> bool" where
  "act P m i p =
     (case tp_state p of
        Outside \<Rightarrow>
          (p\<lparr>tp_passthrough := tp_passthrough p @ take i (tp_pending p), tp_pending := drop (i + 11) (tp_pending p),
             tp_state := InToolCall, tp_current := Some \<lparr>if_name = [], if_arguments = []\<rparr>\<rparr>, True)
      | InToolCall \<Rightarrow> if m = FUNCTION_PREFIX then open_function i p else (close_call P i p, True)
      | InFunction \<Rightarrow>
          if m = PARAM_PREFIX then open_parameter i p
          else if m = FUNCTION_CLOSE then (p\<lparr>tp_pending := drop (i + 11) (tp_pending p)\<rparr>, True)
          else (close_call P i p, True)
      | InParameter key buf \<Rightarrow>
          (p\<lparr>tp_pending := drop (i + 12) (tp_pending p), tp_state := InFunction,
             tp_current := map_option (\<lambda>c. c\<lparr>if_arguments := map_insert key
               (JString (strip_one_outer_newline (buf @ take i (tp_pending p)))) (if_arguments c)\<rparr>) (tp_current p)\<rparr>, True))"

definition marker_step :: "'n packages \<Rightarrow> 'n tool_parser \<Rightarrow> 'n tool_parser \<times> bool" where
  "marker_step P p =
     (case first_marker (expected (tp_state p)) (tp_pending p) of None \<Rightarrow> (p, False) | Some (m, i) \<Rightarrow> act P m i p)"

lemmas marker_defs = TOOL_CALL_OPEN_def TOOL_CALL_CLOSE_def FUNCTION_PREFIX_def FUNCTION_CLOSE_def PARAM_PREFIX_def PARAM_CLOSE_def
  GEMMA_TOOL_CALL_OPEN_def GEMMA_TOOL_CALL_CLOSE_def

lemma markers [simp]: "marker TOOL_CALL_OPEN" "marker TOOL_CALL_CLOSE" "marker FUNCTION_PREFIX" "marker FUNCTION_CLOSE"
  "marker PARAM_PREFIX" "marker PARAM_CLOSE" "marker GEMMA_TOOL_CALL_OPEN"
  by (simp_all add: marker_defs marker_def ascii_def)

lemma separate_expected: "separate (expected st)"
  by (cases st) (simp_all add: expected_def separate_def, simp_all add: marker_defs ascii_def starts_with_def)

lemma marker_neqs [simp]: "FUNCTION_PREFIX \<noteq> TOOL_CALL_CLOSE" "TOOL_CALL_CLOSE \<noteq> FUNCTION_PREFIX" "PARAM_PREFIX \<noteq> FUNCTION_CLOSE"
  "FUNCTION_CLOSE \<noteq> PARAM_PREFIX" "PARAM_PREFIX \<noteq> TOOL_CALL_CLOSE" "TOOL_CALL_CLOSE \<noteq> PARAM_PREFIX"
  "FUNCTION_CLOSE \<noteq> TOOL_CALL_CLOSE" "TOOL_CALL_CLOSE \<noteq> FUNCTION_CLOSE"
  by (simp_all add: marker_defs ascii_def)

lemma is_viable_iff: "is_viable_marker_prefix st tail \<longleftrightarrow> viable (expected st) tail"
  by (auto simp: is_viable_marker_prefix_def viable_def list_ex_iff)

lemma expected_markers: "\<forall>m\<in>set (expected st). marker m"
  using separate_expected by (auto simp: separate_def)

lemma try_consume_marker: "try_consume_qwen3 P p = marker_step P p"
proof (cases "first_marker (expected (tp_state p)) (tp_pending p)")
  case None
  note N = find_first_None [OF separate_expected _ None]
  show ?thesis using N None
    by (cases "tp_state p") (simp_all add: try_consume_qwen3_def marker_step_def expected_def Let_def)
next
  case (Some x)
  obtain m i where x: "x = (m, i)" by force
  note F = first_marker_Some [OF Some [unfolded x]]
  note same = find_first(1) [OF separate_expected _ Some [unfolded x] refl]
  note later = find_first(2) [OF separate_expected _ Some [unfolded x]]
  show ?thesis
  proof (cases "tp_state p")
    case Outside
    then show ?thesis using same F Some x by (simp add: try_consume_qwen3_def marker_step_def expected_def act_def Let_def)
  next
    case InToolCall
    then have m: "m = FUNCTION_PREFIX \<or> m = TOOL_CALL_CLOSE" using F by (simp add: expected_def)
    note l = later [unfolded InToolCall expected_def list.set parser_state.case]
    from m same InToolCall have f: "find_bytes m (tp_pending p) = Some i" by (auto simp: expected_def)
    have "try_consume_qwen3 P p = act P m i p"
    proof (cases "m = FUNCTION_PREFIX")
      case True
      have "\<not> ti < i" if "find_bytes TOOL_CALL_CLOSE (tp_pending p) = Some ti" for ti
        using l [of TOOL_CALL_CLOSE ti] that True by simp
      with True f InToolCall show ?thesis by (auto simp: try_consume_qwen3_def act_def Let_def split: option.splits)
    next
      case False
      with m have t: "m = TOOL_CALL_CLOSE" by blast
      have "i < fi" if "find_bytes FUNCTION_PREFIX (tp_pending p) = Some fi" for fi
        using l [of FUNCTION_PREFIX fi] that t by simp
      with t f InToolCall show ?thesis by (auto simp: try_consume_qwen3_def act_def Let_def split: option.splits)
    qed
    with Some x InToolCall show ?thesis by (simp add: marker_step_def)
  next
    case InFunction
    then have m: "m = PARAM_PREFIX \<or> m = FUNCTION_CLOSE \<or> m = TOOL_CALL_CLOSE" using F by (simp add: expected_def)
    note l = later [unfolded InFunction expected_def list.set parser_state.case]
    from m same InFunction have f: "find_bytes m (tp_pending p) = Some i" by (auto simp: expected_def)
    have "try_consume_qwen3 P p = act P m i p"
      using m
    proof (elim disjE)
      assume t: "m = PARAM_PREFIX"
      have "\<not> j < i" if "find_bytes FUNCTION_CLOSE (tp_pending p) = Some j \<or> find_bytes TOOL_CALL_CLOSE (tp_pending p) = Some j" for j
        using l [of FUNCTION_CLOSE j] l [of TOOL_CALL_CLOSE j] that t by auto
      with t f InFunction show ?thesis
        by (cases "find_bytes FUNCTION_CLOSE (tp_pending p)"; cases "find_bytes TOOL_CALL_CLOSE (tp_pending p)")
          (auto simp: try_consume_qwen3_def act_def Let_def)
    next
      assume t: "m = FUNCTION_CLOSE"
      have "i < j" if "find_bytes PARAM_PREFIX (tp_pending p) = Some j \<or> find_bytes TOOL_CALL_CLOSE (tp_pending p) = Some j" for j
        using l [of PARAM_PREFIX j] l [of TOOL_CALL_CLOSE j] that t by auto
      with t f InFunction show ?thesis
        by (cases "find_bytes PARAM_PREFIX (tp_pending p)"; cases "find_bytes TOOL_CALL_CLOSE (tp_pending p)")
          (fastforce simp: try_consume_qwen3_def act_def Let_def)+
    next
      assume t: "m = TOOL_CALL_CLOSE"
      have "i < j" if "find_bytes PARAM_PREFIX (tp_pending p) = Some j \<or> find_bytes FUNCTION_CLOSE (tp_pending p) = Some j" for j
        using l [of PARAM_PREFIX j] l [of FUNCTION_CLOSE j] that t by auto
      with t f InFunction show ?thesis
        by (cases "find_bytes PARAM_PREFIX (tp_pending p)"; cases "find_bytes FUNCTION_CLOSE (tp_pending p)")
          (fastforce simp: try_consume_qwen3_def act_def Let_def)+
    qed
    with Some x InFunction show ?thesis by (simp add: marker_step_def)
  next
    case (InParameter key buf)
    then show ?thesis using same F Some x by (simp add: try_consume_qwen3_def marker_step_def expected_def act_def Let_def)
  qed
qed

section \<open>Absorbing a prefix\<close>

definition absorb :: "nat \<Rightarrow> 'n tool_parser \<Rightarrow> 'n tool_parser" where
  "absorb c p =
     (let prefix = take c (tp_pending p); q = p\<lparr>tp_pending := drop c (tp_pending p)\<rparr> in
      case tp_state p of
        Outside \<Rightarrow> q\<lparr>tp_passthrough := tp_passthrough p @ prefix\<rparr>
      | InToolCall \<Rightarrow> q
      | InFunction \<Rightarrow> q
      | InParameter key buf \<Rightarrow> q\<lparr>tp_state := InParameter key (buf @ prefix)\<rparr>)"

lemma absorb_0 [simp]: "absorb 0 p = p" by (cases p; cases "tp_state p") (simp_all add: absorb_def)

lemma absorb_absorb: "absorb d (absorb c p) = absorb (c + d) p"
  by (cases "tp_state p") (simp_all add: absorb_def take_add add.commute)

lemma absorb_fields [simp]: "tp_pending (absorb c p) = drop c (tp_pending p)" "expected (tp_state (absorb c p)) = expected (tp_state p)"
  "is_viable_marker_prefix (tp_state (absorb c p)) = is_viable_marker_prefix (tp_state p)"
proof -
  show e: "expected (tp_state (absorb c p)) = expected (tp_state p)"
    by (cases "tp_state p") (simp_all add: absorb_def expected_def)
  show "is_viable_marker_prefix (tp_state (absorb c p)) = is_viable_marker_prefix (tp_state p)"
    by (simp add: is_viable_iff e fun_eq_iff)
qed (cases "tp_state p", simp_all add: absorb_def)

lemma absorb_feed: "c \<le> length (tp_pending p) \<Longrightarrow> tp_feed (absorb c p) b = absorb c (tp_feed p b)"
  by (cases "tp_state p") (simp_all add: absorb_def tp_feed_def)

lemma feed_fields [simp]: "tp_pending (tp_feed p b) = tp_pending p @ b" "tp_state (tp_feed p b) = tp_state p"
  "tp_format (tp_feed p b) = tp_format p" "tp_current (tp_feed p b) = tp_current p" "tp_passthrough (tp_feed p b) = tp_passthrough p"
  by (simp_all add: tp_feed_def)

definition flush_cut :: "'n tool_parser \<Rightarrow> nat" where
  "flush_cut p = cut_scan (is_viable_marker_prefix (tp_state p)) (tp_pending p)"

lemma flush_absorb: "flush_safe_prefix p = absorb (flush_cut p) p"
  by (cases "flush_cut p = 0"; cases "tp_state p") (simp_all add: flush_safe_prefix_def flush_cut_def absorb_def Let_def)

lemma flush_cut_safe: "safe (expected (tp_state p)) (flush_cut p) (tp_pending p)"
  unfolding flush_cut_def using cut_scan_spec [OF is_viable_iff expected_markers] by blast

lemma flush_cut_shift: "safe (expected (tp_state p)) c (tp_pending p) \<Longrightarrow> flush_cut p = c + flush_cut (absorb c p)"
  unfolding flush_cut_def using cut_scan_safe [OF is_viable_iff expected_markers] by simp

lemma flush_after_absorb: "safe (expected (tp_state p)) c (tp_pending p) \<Longrightarrow> flush_safe_prefix (absorb c p) = flush_safe_prefix p"
  unfolding flush_absorb using flush_cut_shift [of p c] by (simp add: absorb_absorb)

lemma drop_add: "drop (i + (c + k)) p = drop (i + k) (drop c p)" "drop (c + (i + k)) p = drop (i + k) (drop c p)"
  by (simp_all add: ac_simps)

lemma act_absorb: "act P m (c + i) p = act P m i (absorb c p)"
  by (cases "tp_state p")
    (auto simp: act_def absorb_def open_function_def open_parameter_def close_call_def finalize_current_call_def push_call_def
      take_add Let_def ac_simps split: option.splits)

lemma step_absorb:
  assumes "safe (expected (tp_state p)) c (tp_pending p)"
  shows "marker_step P p = marker_step P (absorb c p) \<or>
    marker_step P p = (p, False) \<and> marker_step P (absorb c p) = (absorb c p, False)"
  using first_marker_shift [OF separate_expected assms]
  by (cases "first_marker (expected (tp_state p)) (drop c (tp_pending p))")
    (auto simp: marker_step_def act_absorb)

lemma act_False:
  assumes "act P m i p = (q, False)"
  shows "q = absorb i p"
  using assms by (cases "tp_state p")
    (auto simp: act_def absorb_def open_function_def open_parameter_def Let_def split: if_splits option.splits)

lemma step_False:
  assumes "marker_step P p = (q, False)"
  shows "\<exists>c. safe (expected (tp_state p)) c (tp_pending p) \<and> q = absorb c p"
proof (cases "first_marker (expected (tp_state p)) (tp_pending p)")
  case None
  with assms show ?thesis by (intro exI [of _ 0]) (simp add: marker_step_def)
next
  case (Some x)
  obtain m i where x: "x = (m, i)" by force
  have "act P m i p = (q, False)" using assms Some x by (simp add: marker_step_def)
  with act_False first_marker_safe [OF separate_expected Some [unfolded x]] show ?thesis by blast
qed

lemma open_function_feed:
  assumes "open_function i p = (q, True)" "i + 10 \<le> length (tp_pending p)"
  shows "open_function i (tp_feed p b) = (tp_feed q b, True)"
proof -
  from assms(1) obtain e where e: "find_bytes [0x3E] (drop 10 (drop i (tp_pending p))) = Some e"
    by (auto simp: open_function_def Let_def split: option.splits)
  have d: "drop 10 (drop i (tp_pending p @ b)) = drop 10 (drop i (tp_pending p)) @ b" using assms(2) by simp
  note find_feed [OF e, of b, folded d]
  with e find_bytes_bound [OF e] assms show ?thesis
    by (auto simp: open_function_def Let_def tp_feed_def)
qed

lemma open_parameter_feed:
  assumes "open_parameter i p = (q, True)" "i + 11 \<le> length (tp_pending p)"
  shows "open_parameter i (tp_feed p b) = (tp_feed q b, True)"
proof -
  from assms(1) obtain e where e: "find_bytes [0x3E] (drop 11 (drop i (tp_pending p))) = Some e"
    by (auto simp: open_parameter_def Let_def split: option.splits)
  have d: "drop 11 (drop i (tp_pending p @ b)) = drop 11 (drop i (tp_pending p)) @ b" using assms(2) by simp
  note find_feed [OF e, of b, folded d]
  with e find_bytes_bound [OF e] assms show ?thesis
    by (auto simp: open_parameter_def Let_def tp_feed_def)
qed

lemma close_call_feed: "i + 12 \<le> length (tp_pending p) \<Longrightarrow> close_call P i (tp_feed p b) = tp_feed (close_call P i p) b"
  by (auto simp: close_call_def finalize_current_call_def push_call_def tp_feed_def Let_def split: option.split)

lemma act_feed:
  assumes "act P m i p = (q, True)" "i + length m \<le> length (tp_pending p)" "m \<in> set (expected (tp_state p))"
  shows "act P m i (tp_feed p b) = (tp_feed q b, True)"
proof (cases "tp_state p")
  case InToolCall
  with assms show ?thesis
    by (auto simp: act_def expected_def close_call_feed open_function_feed split: if_splits)
next
  case InFunction
  show ?thesis
  proof (cases "m = FUNCTION_CLOSE")
    case True
    with assms InFunction show ?thesis by (auto simp: act_def expected_def tp_feed_def)
  next
    case False
    with assms InFunction show ?thesis
      by (auto simp: act_def expected_def close_call_feed open_parameter_feed split: if_splits)
  qed
qed (use assms in \<open>auto simp: act_def expected_def tp_feed_def\<close>)

lemma step_feed:
  assumes "marker_step P p = (q, True)"
  shows "marker_step P (tp_feed p b) = (tp_feed q b, True)"
proof -
  from assms obtain m i where f: "first_marker (expected (tp_state p)) (tp_pending p) = Some (m, i)" and a: "act P m i p = (q, True)"
    by (auto simp: marker_step_def split: option.splits)
  note F = first_marker_Some [OF f]
  have "i + length m \<le> length (tp_pending p)" using F starts_with_length [of "drop i (tp_pending p)" m] by simp linarith
  from act_feed [OF a this] F first_marker_feed [OF separate_expected f] show ?thesis by (simp add: marker_step_def)
qed

section \<open>The interpretations\<close>

definition qwen3_step :: "'n packages \<Rightarrow> 'n tool_parser \<Rightarrow> 'n tool_parser stepped" where
  "qwen3_step P p = (case try_consume_qwen3 P p of (q, again) \<Rightarrow> if again then Again q else Halt q)"

definition qwen3_run :: "'n packages \<Rightarrow> 'n tool_parser \<Rightarrow> 'n tool_parser option" where
  "qwen3_run P p = Some (flush_safe_prefix (qwen3_loop P p))"

interpretation qwen3: chunked "qwen3_step P" "qwen3_run P" flush_safe_prefix tp_feed "\<lambda>p. length (tp_pending p)" for P
proof
  fix s t and a b :: "u8 list"
  show "qwen3_run P s = (case qwen3_step P s of Crash \<Rightarrow> None | Again t \<Rightarrow> qwen3_run P t | Halt t \<Rightarrow> Some (flush_safe_prefix t))"
    by (simp add: qwen3_run_def qwen3_step_def qwen3_loop.simps [of P s] split: prod.split bool.split)
  show "qwen3_step P s = Again t \<Longrightarrow> length (tp_pending t) < length (tp_pending s)"
    by (auto simp: qwen3_step_def intro: try_consume_shrinks split: prod.splits if_splits)
  show "tp_feed (tp_feed s a) b = tp_feed s (a @ b)" by (simp add: tp_feed_def)
  show "qwen3_step P s = Again t \<Longrightarrow> qwen3_step P (tp_feed s b) = Again (tp_feed t b)"
    using step_feed [of P s t b] by (auto simp: qwen3_step_def try_consume_marker split: prod.splits if_splits)
  show "qwen3_step P s = Crash \<Longrightarrow> qwen3_step P (tp_feed s b) = Crash"
    by (simp add: qwen3_step_def split: prod.splits if_splits)
  assume "qwen3_step P s = Halt t"
  then have h: "marker_step P s = (t, False)" by (auto simp: qwen3_step_def try_consume_marker split: prod.splits if_splits)
  from step_False [OF h] obtain c where c: "safe (expected (tp_state s)) c (tp_pending s)" "t = absorb c s" by blast
  have d: "safe (expected (tp_state s)) (c + flush_cut t) (tp_pending s)" using flush_cut_safe [of t] c safe_add by fastforce
  then have l: "c + flush_cut t \<le> length (tp_pending s)" by (simp add: safe_def)
  have f: "tp_feed (flush_safe_prefix t) b = absorb (c + flush_cut t) (tp_feed s b)"
    unfolding flush_absorb [of t] unfolding c(2) absorb_absorb using absorb_feed l c(2) by blast
  have sf: "safe (expected (tp_state (tp_feed s b))) (c + flush_cut t) (tp_pending (tp_feed s b))"
    using safe_feed [OF d] by simp
  from step_absorb [OF sf, of P]
  show "resumes flush_safe_prefix (qwen3_step P (tp_feed s b)) (qwen3_step P (tp_feed (flush_safe_prefix t) b))"
  proof
    assume "marker_step P (tp_feed s b) = marker_step P (absorb (c + flush_cut t) (tp_feed s b))"
    then show ?thesis unfolding f by (simp add: qwen3_step_def try_consume_marker split: prod.split)
  next
    assume "marker_step P (tp_feed s b) = (tp_feed s b, False) \<and>
      marker_step P (absorb (c + flush_cut t) (tp_feed s b)) = (absorb (c + flush_cut t) (tp_feed s b), False)"
    then show ?thesis unfolding f using flush_after_absorb [OF sf] by (simp add: qwen3_step_def try_consume_marker)
  qed
qed

lemma finalize_block_feed:
  "finalize_block P body k (tp_feed p b) = map_option (\<lambda>q. tp_feed q b) (finalize_block P body k p)"
  by (auto simp: finalize_block_def push_call_def tp_feed_def split: reading.split prod.split)

lemma kind_opener [simp]: "marker (fst (kind_markers k))"
  by (cases k) (simp_all add: kind_markers_def)

lemma safe_flush_viable: "list_ex (\<lambda>m. starts_with m tail \<or> starts_with tail m) ms \<longleftrightarrow> viable ms tail"
  by (auto simp: viable_def list_ex_iff)

lemma delimited_feed:
  "delimited_step P k s = Again t \<Longrightarrow> delimited_step P k (tp_feed s b) = Again (tp_feed t b)"
  "delimited_step P k s = Crash \<Longrightarrow> delimited_step P k (tp_feed s b) = Crash"
proof -
  have fb: "finalize_block P (take i (tp_pending s)) k (s\<lparr>tp_pending := drop n (tp_pending s) @ b\<rparr>) =
      map_option (\<lambda>q. tp_feed q b) (finalize_block P (take i (tp_pending s)) k (s\<lparr>tp_pending := drop n (tp_pending s)\<rparr>))" for i n
    unfolding finalize_block_feed [symmetric] by (simp add: tp_feed_def)
  show "delimited_step P k (tp_feed s b) = Again (tp_feed t b)" if a: "delimited_step P k s = Again t"
  proof (cases "tp_state s")
    case Outside
    with a obtain i where i: "find_bytes (fst (kind_markers k)) (tp_pending s) = Some i"
      by (auto simp: delimited_step_def Let_def split: option.splits)
    from find_feed [OF i, of b] find_bytes_bound [OF i] i a Outside show ?thesis
      by (auto simp: delimited_step_def Let_def tp_feed_def)
  next
    case InToolCall
    with a obtain i where i: "find_bytes (snd (kind_markers k)) (tp_pending s) = Some i"
      by (auto simp: delimited_step_def Let_def split: option.splits)
    from find_feed [OF i, of b] find_bytes_bound [OF i] i a InToolCall show ?thesis
      using fb [of i "i + length (snd (kind_markers k))"]
      by (auto simp: delimited_step_def Let_def tp_feed_def split: option.splits)
  qed (use a in \<open>auto simp: delimited_step_def Let_def tp_feed_def\<close>)
  show "delimited_step P k (tp_feed s b) = Crash" if a: "delimited_step P k s = Crash"
  proof -
    from a have st: "tp_state s = InToolCall" by (auto simp: delimited_step_def Let_def split: parser_state.splits option.splits)
    with a obtain i where i: "find_bytes (snd (kind_markers k)) (tp_pending s) = Some i"
      by (auto simp: delimited_step_def Let_def split: option.splits)
    from find_feed [OF i, of b] find_bytes_bound [OF i] i a st show ?thesis
      using fb [of i "i + length (snd (kind_markers k))"]
      by (auto simp: delimited_step_def Let_def tp_feed_def split: option.splits)
  qed
qed

lemma take_drop_feed:
  assumes "c \<le> length xs"
  shows "take (c + n) (xs @ ys) = take c xs @ take n (drop c xs @ ys)" "drop (c + n) (xs @ ys) = drop n (drop c xs @ ys)"
    "drop (c + n + k) (xs @ ys) = drop (n + k) (drop c xs @ ys)"
  using assms by (simp_all add: take_add ac_simps)

interpretation delimited: chunked "delimited_step P k" "delimited_loop P k" "\<lambda>p. p" tp_feed tp_size for P k
proof
  fix s t and a b :: "u8 list"
  show "delimited_loop P k s = (case delimited_step P k s of Crash \<Rightarrow> None | Again t \<Rightarrow> delimited_loop P k t | Halt t \<Rightarrow> Some t)"
    by (rule delimited_loop.simps)
  show "delimited_step P k s = Again t \<Longrightarrow> tp_size t < tp_size s" by (rule delimited_shrinks)
  show "tp_feed (tp_feed s a) b = tp_feed s (a @ b)" by (simp add: tp_feed_def)
  show "delimited_step P k s = Again t \<Longrightarrow> delimited_step P k (tp_feed s b) = Again (tp_feed t b)" by (rule delimited_feed(1))
  show "delimited_step P k s = Crash \<Longrightarrow> delimited_step P k (tp_feed s b) = Crash" by (rule delimited_feed(2))
  assume h: "delimited_step P k s = Halt t"
  let ?op = "fst (kind_markers k)"
  show "resumes (\<lambda>p. p) (delimited_step P k (tp_feed s b)) (delimited_step P k (tp_feed t b))"
  proof (cases "tp_state s")
    case Outside
    define c where "c = safe_flush_cut (tp_pending s) [?op]"
    from h Outside have t: "t = s\<lparr>tp_passthrough := tp_passthrough s @ take c (tp_pending s), tp_pending := drop c (tp_pending s)\<rparr>"
      by (auto simp: delimited_step_def Let_def c_def split: option.splits)
    have m: "\<forall>m\<in>set [?op]. marker m" by simp
    note S = cut_scan_spec [where v = "\<lambda>tail. list_ex (\<lambda>m. starts_with m tail \<or> starts_with tail m) [?op]", OF safe_flush_viable m]
    have "safe [?op] c (tp_pending s)" unfolding c_def safe_flush_cut_def using S by blast
    then have c: "safe [?op] c (tp_pending s @ b)" "c \<le> length (tp_pending s)" using safe_feed by (auto simp: safe_def)
    have d: "drop c (tp_pending s @ b) = drop c (tp_pending s) @ b" using c(2) by simp
    have "?op \<in> set [?op]" by simp
    note f = safe_find [OF c(1) this, unfolded d]
    have cut: "safe_flush_cut (tp_pending s @ b) [?op] = c + safe_flush_cut (drop c (tp_pending s) @ b) [?op]"
      unfolding safe_flush_cut_def
      using cut_scan_safe [where v = "\<lambda>tail. list_ex (\<lambda>m. starts_with m tail \<or> starts_with tail m) [?op]", OF safe_flush_viable m c(1)]
      unfolding d .
    show ?thesis
    proof (cases "find_bytes ?op (drop c (tp_pending s) @ b)")
      case None
      with f have "find_bytes ?op (tp_pending s @ b) = None" by simp
      with None Outside t cut c(2) show ?thesis
        by (simp add: delimited_step_def Let_def tp_feed_def take_drop_feed [OF c(2)] del: take_append drop_append)
    next
      case (Some i)
      with f have "find_bytes ?op (tp_pending s @ b) = Some (c + i)" by simp
      with Some Outside t c(2) show ?thesis
        by (simp add: delimited_step_def Let_def tp_feed_def take_drop_feed [OF c(2)] del: take_append drop_append)
    qed
  next
    case InToolCall
    with h have "t = s" by (auto simp: delimited_step_def Let_def split: option.splits)
    then show ?thesis by (cases "delimited_step P k (tp_feed s b)") simp_all
  qed (use h in \<open>simp_all add: delimited_step_def\<close>)
qed

end
