(* ===== verification/ToolReply.thy ===== *)
theory ToolReply
  imports ToolProps
begin

text \<open>
  What the tool-call parser makes of a reply: its properties.
\<close>

section \<open>Pieces\<close>

lemma finalize_current_format [simp]: "tp_format (finalize_current_call P p) = tp_format p"
  by (simp add: finalize_current_call_def push_call_def Let_def split: option.split)

lemma close_call_format [simp]: "tp_format (close_call P i p) = tp_format p" by (simp add: close_call_def)

lemma act_format: "tp_format (fst (act P m i p)) = tp_format p"
  by (cases "tp_state p") (auto simp: act_def open_function_def open_parameter_def Let_def split: option.split)

lemma marker_step_format: "marker_step P p = (q, r) \<Longrightarrow> tp_format q = tp_format p"
  using act_format [of P _ _ p] by (auto simp: marker_step_def split: option.splits) (metis fst_conv)

lemma qwen3_loop_format: "tp_format (qwen3_loop P p) = tp_format p"
proof (induction P p rule: qwen3_loop.induct)
  case (1 P p)
  obtain q r where s: "try_consume_qwen3 P p = (q, r)" by force
  note f = marker_step_format [OF s [unfolded try_consume_marker]]
  show ?case
  proof (cases r)
    case True
    then show ?thesis using 1 [OF s [symmetric]] s f by (simp add: qwen3_loop.simps [of P p])
  next
    case False
    then show ?thesis using s f by (simp add: qwen3_loop.simps [of P p])
  qed
qed

lemma flush_format [simp]: "tp_format (flush_safe_prefix p) = tp_format p"
  by (simp add: flush_safe_prefix_def Let_def split: parser_state.split)

lemma finalize_block_format: "finalize_block P body k p = Some q \<Longrightarrow> tp_format q = tp_format p"
  by (auto simp: finalize_block_def push_call_def split: reading.splits if_splits)

lemma delimited_step_format:
  "delimited_step P k p = Again q \<Longrightarrow> tp_format q = tp_format p" "delimited_step P k p = Halt q \<Longrightarrow> tp_format q = tp_format p"
  by (auto simp: delimited_step_def Let_def split: parser_state.splits option.splits dest!: finalize_block_format)

lemma delimited_loop_format: "delimited_loop P k p = Some q \<Longrightarrow> tp_format q = tp_format p"
proof (induction P k p arbitrary: q rule: delimited_loop.induct)
  case (1 P k p)
  show ?case
  proof (cases "delimited_step P k p")
    case (Again t)
    with 1(2) have "delimited_loop P k t = Some q" unfolding delimited_loop.simps [of P k p] by simp
    from 1(1) [OF Again this] delimited_step_format(1) [OF Again] show ?thesis by simp
  next
    case (Halt t)
    with 1(2) have "t = q" unfolding delimited_loop.simps [of P k p] by simp
    with delimited_step_format(2) [OF Halt] show ?thesis by simp
  next
    case Crash
    with 1(2) show ?thesis unfolding delimited_loop.simps [of P k p] by simp
  qed
qed

lemma tp_push_format: "tp_push P x p = Some q \<Longrightarrow> tp_format q = tp_format p"
  by (auto simp: tp_push_def push_delimited_def qwen3_loop_format split: tool_call_format.splits dest: delimited_loop_format)

lemma tp_push_append: "tp_push P (a @ b) p = Option.bind (tp_push P a p) (tp_push P b)"
proof (cases "tp_format p")
  case Qwen3XmlFunction
  then show ?thesis using qwen3.run_pieces [of P p a b]
    by (simp add: tp_push_def qwen3_run_def qwen3_loop_format)
next
  case Qwen3JsonToolCall
  then show ?thesis using delimited.run_pieces [of P JsonBlock p a b]
    by (cases "delimited_loop P JsonBlock (tp_feed p a)")
      (auto simp: tp_push_def push_delimited_def dest: delimited_loop_format)
next
  case GemmaToolCall
  then show ?thesis using delimited.run_pieces [of P GemmaBlock p a b]
    by (cases "delimited_loop P GemmaBlock (tp_feed p a)")
      (auto simp: tp_push_def push_delimited_def dest: delimited_loop_format)
qed

lemma qwen3_loop_halt: "try_consume_qwen3 P p = (q, False) \<Longrightarrow> qwen3_loop P p = q"
  unfolding qwen3_loop.simps [of P p] by simp

lemma qwen3_loop_once: "try_consume_qwen3 P p = (q, True) \<Longrightarrow> try_consume_qwen3 P q = (r, False) \<Longrightarrow> qwen3_loop P p = r"
  unfolding qwen3_loop.simps [of P p] by (simp add: qwen3_loop_halt)

lemma delimited_loop_halt: "delimited_step P k p = Halt q \<Longrightarrow> delimited_loop P k p = Some q"
  unfolding delimited_loop.simps [of P k p] by simp

text \<open>What a new parser makes of text without its opening marker.\<close>

definition opener :: "tool_call_format \<Rightarrow> u8 list" where
  "opener f = (case f of GemmaToolCall \<Rightarrow> GEMMA_TOOL_CALL_OPEN | _ \<Rightarrow> TOOL_CALL_OPEN)"

lemma push_plain:
  assumes "find_bytes (opener f) t = None"
  shows "\<exists>c. tp_push P t (tp_new f) = Some ((tp_new f)\<lparr>tp_passthrough := take c t, tp_pending := drop c t\<rparr>)"
proof (cases f)
  case Qwen3XmlFunction
  have "try_consume_qwen3 P (tp_feed (tp_new f) t) = (tp_feed (tp_new f) t, False)"
    using assms Qwen3XmlFunction by (simp add: try_consume_qwen3_def tp_new_def opener_def)
  note qwen3_loop_halt [OF this]
  with Qwen3XmlFunction show ?thesis
    by (intro exI [of _ "flush_cut (tp_feed (tp_new f) t)"])
      (simp add: tp_push_def flush_absorb absorb_def tp_new_def tp_feed_def)
next
  case Qwen3JsonToolCall
  have "delimited_step P JsonBlock (tp_feed (tp_new f) t) =
      Halt ((tp_new f)\<lparr>tp_passthrough := take (safe_flush_cut t [TOOL_CALL_OPEN]) t, tp_pending := drop (safe_flush_cut t [TOOL_CALL_OPEN]) t\<rparr>)"
    using assms Qwen3JsonToolCall by (simp add: delimited_step_def kind_markers_def opener_def tp_new_def tp_feed_def Let_def)
  from delimited_loop_halt [OF this] Qwen3JsonToolCall show ?thesis
    by (auto simp: tp_push_def push_delimited_def tp_new_def)
next
  case GemmaToolCall
  have "delimited_step P GemmaBlock (tp_feed (tp_new f) t) =
      Halt ((tp_new f)\<lparr>tp_passthrough := take (safe_flush_cut t [GEMMA_TOOL_CALL_OPEN]) t, tp_pending := drop (safe_flush_cut t [GEMMA_TOOL_CALL_OPEN]) t\<rparr>)"
    using assms GemmaToolCall by (simp add: delimited_step_def kind_markers_def opener_def tp_new_def tp_feed_def Let_def)
  from delimited_loop_halt [OF this] GemmaToolCall show ?thesis
    by (auto simp: tp_push_def push_delimited_def tp_new_def)
qed

lemma opener_nil: "find_bytes (opener f) [] = None"
  by (cases f) (simp_all add: opener_def marker_defs ascii_def)

lemma tp_push_nil: "tp_push P [] (tp_new f) = Some (tp_new f)"
  using push_plain [OF opener_nil, of P f] by (auto simp: tp_new_def)

lemma push_all_concat: "tp_push P (concat (x # xs)) p = push_all P (x # xs) p"
proof (induction xs arbitrary: x p)
  case Nil
  show ?case by (simp split: option.split)
next
  case (Cons y ys)
  have "tp_push P (concat (x # y # ys)) p = Option.bind (tp_push P x p) (tp_push P (concat (y # ys)))"
    unfolding tp_push_append [symmetric] by simp
  also have "\<dots> = Option.bind (tp_push P x p) (push_all P (y # ys))" unfolding Cons.IH ..
  also have "\<dots> = push_all P (x # y # ys) p" by (simp split: option.split Option.bind_split)
  finally show ?case .
qed

text \<open>C6: The pieces of a reply do not matter. In all three wire formats a new parser that is fed
  a reply in any pieces ends in the state it reaches when it is fed the reply at once: the same
  text passed through, the same calls with the same ids, the same text held back, and a panic
  in the one run exactly when in the other.
\<close>

theorem tool_pieces_agree: "push_all P pieces (tp_new f) = tp_push P (concat pieces) (tp_new f)"
  by (cases pieces) (simp_all only: push_all_concat, simp add: tp_push_nil)

section \<open>Text without calls\<close>

text \<open>Text without calls passes through. A reply in which the opening marker of the format does
  not occur comes out of the finalized parser byte for byte, with no call.
\<close>

theorem plain_reply_passes:
  assumes "find_bytes (opener f) (concat pieces) = None"
  shows "\<exists>p. push_all P pieces (tp_new f) = Some p \<and>
    tp_passthrough (tp_finalize P p) = concat pieces \<and> tp_parsed (tp_finalize P p) = [] \<and> tp_pending (tp_finalize P p) = []"
proof -
  from push_plain [OF assms, of P] obtain c where
    c: "tp_push P (concat pieces) (tp_new f) = Some ((tp_new f)\<lparr>tp_passthrough := take c (concat pieces), tp_pending := drop c (concat pieces)\<rparr>)"
    by blast
  have "push_all P pieces (tp_new f) = tp_push P (concat pieces) (tp_new f)"
    by (cases pieces) (simp_all only: push_all_concat, simp add: tp_push_nil)
  with c show ?thesis
    by (cases f) (simp_all add: tp_finalize_def run_eof_recovery_def tp_new_def Let_def)
qed

section \<open>Well-formed calls\<close>

lemma first_marker_at:
  assumes "separate ms" "m \<in> set ms" "\<forall>n\<in>set ms. find_bytes n t = None"
  shows "first_marker ms (t @ m @ u) = Some (m, length t)"
proof (rule first_markerI [OF assms(1,2)])
  show "starts_with (drop (length t) (t @ m @ u)) m" by (simp add: starts_with_iff)
  fix j n assume j: "j < length t" "n \<in> set ms"
  show "\<not> starts_with (drop j (t @ m @ u)) n"
  proof
    assume s: "starts_with (drop j (t @ m @ u)) n"
    from assms(3) j have "\<not> starts_with (drop j t) n" by (auto simp: find_bytes_None)
    then have l: "length (drop j t) < length n"
    proof (rule contrapos_np)
      assume "\<not> length (drop j t) < length n"
      with s j show "starts_with (drop j t) n" by (simp add: starts_with_def)
    qed
    have sm: "starts_with (drop (length t - j) (drop j (t @ m @ u))) m" using j by (simp add: starts_with_iff)
    have "marker n" "marker m" using assms(1,2) j by (auto simp: separate_def)
    from marker_inside [OF this s sm] l j show False by simp
  qed
qed

lemma push_one:
  assumes "tp_format p = Qwen3XmlFunction" "tp_pending p = []" "first_marker (expected (tp_state p)) s = Some (m, i)"
    and "act P m i (tp_feed p s) = (q, True)" "tp_pending q = []"
  shows "tp_push P s p = Some q"
proof -
  have "try_consume_qwen3 P (tp_feed p s) = (q, True)" using assms by (simp add: try_consume_marker marker_step_def)
  moreover have "try_consume_qwen3 P q = (q, False)" using assms(5) by (simp add: try_consume_marker marker_step_def)
  ultimately have "qwen3_loop P (tp_feed p s) = q" by (rule qwen3_loop_once)
  with assms(1,5) show ?thesis by (simp add: tp_push_def flush_safe_prefix_def)
qed

definition render_parameter :: "u8 list \<times> u8 list \<Rightarrow> u8 list" where
  "render_parameter kv = PARAM_PREFIX @ fst kv @ [0x3E, 0x0A] @ snd kv @ [0x0A] @ PARAM_CLOSE @ [0x0A]"

definition render_call :: "u8 list \<times> (u8 list \<times> u8 list) list \<Rightarrow> u8 list" where
  "render_call c = TOOL_CALL_OPEN @ [0x0A] @ FUNCTION_PREFIX @ fst c @ [0x3E, 0x0A] @ concat (map render_parameter (snd c)) @
     FUNCTION_CLOSE @ [0x0A] @ TOOL_CALL_CLOSE"

definition good_call :: "u8 list \<times> (u8 list \<times> u8 list) list \<Rightarrow> bool" where
  "good_call c \<longleftrightarrow> fst c \<noteq> [] \<and> 0x3E \<notin> set (fst c) \<and> distinct (map fst (snd c)) \<and>
     (\<forall>(k, v)\<in>set (snd c). 0x3E \<notin> set k \<and> find_bytes PARAM_CLOSE v = None)"

definition call_value :: "(u8 list \<times> u8 list) list \<Rightarrow> 'n jmap" where
  "call_value = map (\<lambda>(k, v). (k, JString v))"

definition render_reply :: "(u8 list \<times> u8 list \<times> (u8 list \<times> u8 list) list) list \<Rightarrow> u8 list" where
  "render_reply segs = concat (map (\<lambda>(t, c). t @ render_call c) segs)"

definition mid :: "'n tool_parser \<Rightarrow> bool" where
  "mid p \<longleftrightarrow> tp_format p = Qwen3XmlFunction \<and> tp_pending p = []"

lemma find_gt: "0x3E \<notin> set k \<Longrightarrow> find_bytes [0x3E] (k @ 0x3E # u) = Some (length k)"
  by (induction k) (auto simp: starts_with_def)

lemma nl_no_marker: "marker m \<Longrightarrow> find_bytes m [0x0A] = None"
  by (auto simp: marker_def starts_with_def)

lemma nil_no_marker: "marker m \<Longrightarrow> find_bytes m [] = None"
  by (auto simp: marker_def)

lemma push_open:
  assumes "mid p" "tp_state p = Outside" "find_bytes TOOL_CALL_OPEN t = None"
  shows "tp_push P (t @ TOOL_CALL_OPEN) p =
    Some (p\<lparr>tp_passthrough := tp_passthrough p @ t, tp_state := InToolCall, tp_current := Some \<lparr>if_name = [], if_arguments = []\<rparr>\<rparr>)"
proof (rule push_one)
  show "first_marker (expected (tp_state p)) (t @ TOOL_CALL_OPEN) = Some (TOOL_CALL_OPEN, length t)"
    using first_marker_at [OF separate_expected [of Outside], of TOOL_CALL_OPEN t "[]"] assms by (simp add: expected_def)
qed (use assms in \<open>auto simp: mid_def act_def tp_feed_def\<close>)

lemma push_function:
  assumes "mid p" "tp_state p = InToolCall" "0x3E \<notin> set nm" "tp_current p = Some c"
  shows "tp_push P ([0x0A] @ FUNCTION_PREFIX @ nm @ [0x3E]) p = Some (p\<lparr>tp_state := InFunction, tp_current := Some (c\<lparr>if_name := nm\<rparr>)\<rparr>)"
proof (rule push_one)
  show "first_marker (expected (tp_state p)) ([0x0A] @ FUNCTION_PREFIX @ nm @ [0x3E]) = Some (FUNCTION_PREFIX, 1)"
    using first_marker_at [OF separate_expected [of InToolCall], of FUNCTION_PREFIX "[0x0A]" "nm @ [0x3E]"] assms nl_no_marker
    by (simp add: expected_def)
qed (use assms find_gt [OF assms(3), of "[]"] in \<open>auto simp: mid_def act_def open_function_def tp_feed_def Let_def\<close>)

lemma push_parameter:
  assumes "mid p" "tp_state p = InFunction" "0x3E \<notin> set k" "t = [] \<or> t = [0x0A]"
  shows "tp_push P (t @ PARAM_PREFIX @ k @ [0x3E]) p = Some (p\<lparr>tp_state := InParameter k []\<rparr>)"
proof (rule push_one)
  show "first_marker (expected (tp_state p)) (t @ PARAM_PREFIX @ k @ [0x3E]) = Some (PARAM_PREFIX, length t)"
    using first_marker_at [OF separate_expected [of InFunction], of PARAM_PREFIX t "k @ [0x3E]"] assms nl_no_marker nil_no_marker
    by (auto simp: expected_def)
qed (use assms find_gt [OF assms(3), of "[]"] in \<open>auto simp: mid_def act_def open_parameter_def tp_feed_def Let_def\<close>)

lemma strip_wrapped: "strip_one_outer_newline (0x0A # v @ [0x0A]) = v"
  by (simp add: strip_one_outer_newline_def starts_with_def)

lemma find_wrapped:
  assumes "find_bytes PARAM_CLOSE v = None"
  shows "find_bytes PARAM_CLOSE (0x0A # v @ [0x0A]) = None"
proof -
  obtain t where m: "PARAM_CLOSE = 0x3C # t" "last PARAM_CLOSE = 0x3E" by (simp add: PARAM_CLOSE_def ascii_def)
  have "\<not> starts_with (drop j (v @ [0x0A])) PARAM_CLOSE" if "j \<le> length v" for j
  proof
    assume s: "starts_with (drop j (v @ [0x0A])) PARAM_CLOSE"
    then have "starts_with (drop j v @ [0x0A]) PARAM_CLOSE" using that by simp
    then obtain r where r: "drop j v @ [0x0A] = PARAM_CLOSE @ r" by (auto simp: starts_with_iff)
    have "r \<noteq> []"
    proof
      assume "r = []"
      with r have "last (drop j v @ [0x0A]) = last PARAM_CLOSE" by simp
      with m(2) show False by simp
    qed
    with arg_cong [OF r, of butlast] have "drop j v = PARAM_CLOSE @ butlast r" by (simp add: butlast_append)
    then have "starts_with (drop j v) PARAM_CLOSE" by (auto simp: starts_with_iff)
    with assms that show False by (auto simp: find_bytes_None)
  qed
  moreover have "\<not> starts_with [] PARAM_CLOSE" by (simp add: starts_with_def PARAM_CLOSE_def ascii_def)
  ultimately have "\<not> starts_with (drop j (v @ [0x0A])) PARAM_CLOSE" if "j \<le> length (v @ [0x0A])" for j
    using that by (cases "j \<le> length v") (simp_all add: not_le Suc_le_eq)
  then have "find_bytes PARAM_CLOSE (v @ [0x0A]) = None" unfolding find_bytes_None by blast
  moreover have "\<not> starts_with (0x0A # v @ [0x0A]) PARAM_CLOSE" by (auto simp: starts_with_iff PARAM_CLOSE_def ascii_def)
  ultimately show ?thesis by simp
qed

lemma push_value:
  assumes "mid p" "tp_state p = InParameter k []" "find_bytes PARAM_CLOSE v = None" "tp_current p = Some c"
  shows "tp_push P ([0x0A] @ v @ [0x0A] @ PARAM_CLOSE) p =
    Some (p\<lparr>tp_state := InFunction, tp_current := Some (c\<lparr>if_arguments := map_insert k (JString v) (if_arguments c)\<rparr>)\<rparr>)"
proof (rule push_one)
  show "first_marker (expected (tp_state p)) ([0x0A] @ v @ [0x0A] @ PARAM_CLOSE) = Some (PARAM_CLOSE, length (0x0A # v @ [0x0A]))"
    using first_marker_at [OF separate_expected [of "InParameter k []"], of PARAM_CLOSE "0x0A # v @ [0x0A]" "[]"] assms(2)
      find_wrapped [OF assms(3)] by (simp add: expected_def)
qed (use assms strip_wrapped [of v] in \<open>auto simp: mid_def act_def tp_feed_def\<close>)


lemma tp_push_seq: "tp_push P a p = Some q \<Longrightarrow> tp_push P (a @ b) p = tp_push P b q"
  by (simp add: tp_push_append)

lemma push_function_end:
  assumes "mid p" "tp_state p = InFunction" "t = [] \<or> t = [0x0A]"
  shows "tp_push P (t @ FUNCTION_CLOSE) p = Some p"
proof (rule push_one)
  show "first_marker (expected (tp_state p)) (t @ FUNCTION_CLOSE) = Some (FUNCTION_CLOSE, length t)"
    using first_marker_at [OF separate_expected [of InFunction], of FUNCTION_CLOSE t "[]"] assms nl_no_marker nil_no_marker
    by (auto simp: expected_def)
qed (use assms in \<open>auto simp: mid_def act_def tp_feed_def\<close>)

lemma push_call_end:
  assumes "mid p" "tp_state p = InFunction" "tp_current p = Some c" "if_name c \<noteq> []"
  shows "tp_push P ([0x0A] @ TOOL_CALL_CLOSE) p =
    Some ((push_call P (if_name c) (if_arguments c) p)\<lparr>tp_state := Outside, tp_current := None\<rparr>)"
proof (rule push_one)
  show "first_marker (expected (tp_state p)) ([0x0A] @ TOOL_CALL_CLOSE) = Some (TOOL_CALL_CLOSE, 1)"
    using first_marker_at [OF separate_expected [of InFunction], of TOOL_CALL_CLOSE "[0x0A]" "[]"] assms nl_no_marker
    by (simp add: expected_def)
qed (use assms in \<open>auto simp: mid_def act_def tp_feed_def close_call_def finalize_current_call_def push_call_def Let_def\<close>)

lemma map_insert_new: "k \<notin> fst ` set m \<Longrightarrow> map_insert k v m = m @ [(k, v)]"
  by (induction k v m rule: map_insert.induct) auto

lemma push_parameters:
  assumes "mid p" "tp_state p = InFunction" "tp_current p = Some c" "t = [] \<or> t = [0x0A]"
    and "distinct (map fst kvs)" "\<forall>(k, v)\<in>set kvs. 0x3E \<notin> set k \<and> find_bytes PARAM_CLOSE v = None"
    and "fst ` set (if_arguments c) \<inter> fst ` set kvs = {}"
  shows "tp_push P (t @ concat (map render_parameter kvs) @ FUNCTION_CLOSE) p =
    Some (p\<lparr>tp_current := Some (c\<lparr>if_arguments := if_arguments c @ call_value kvs\<rparr>)\<rparr>)"
  using assms
proof (induction kvs arbitrary: p c t)
  case Nil
  then show ?case using push_function_end [OF Nil(1,2,4), of P] by (simp add: call_value_def)
next
  case (Cons kv kvs)
  obtain k v where kv: "kv = (k, v)" by force
  define p1 where "p1 = p\<lparr>tp_state := InParameter k []\<rparr>"
  define c2 where "c2 = c\<lparr>if_arguments := if_arguments c @ [(k, JString v)]\<rparr>"
  define p2 where "p2 = p\<lparr>tp_current := Some c2\<rparr>"
  from Cons.prems kv have k: "0x3E \<notin> set k" and v: "find_bytes PARAM_CLOSE v = None" by auto
  have a: "tp_push P (t @ PARAM_PREFIX @ k @ [0x3E]) p = Some p1"
    unfolding p1_def by (rule push_parameter [OF Cons.prems(1,2) k Cons.prems(4)])
  have "k \<notin> fst ` set (if_arguments c)" using Cons.prems(7) kv by auto
  then have b: "tp_push P ([0x0A] @ v @ [0x0A] @ PARAM_CLOSE) p1 = Some p2"
    using push_value [of p1 k v c P] v Cons.prems(1-3) by (simp add: p1_def p2_def c2_def mid_def map_insert_new)
  have "tp_push P ([0x0A] @ concat (map render_parameter kvs) @ FUNCTION_CLOSE) p2 =
      Some (p2\<lparr>tp_current := Some (c2\<lparr>if_arguments := if_arguments c2 @ call_value kvs\<rparr>)\<rparr>)"
  proof (rule Cons.IH)
    show "fst ` set (if_arguments c2) \<inter> fst ` set kvs = {}" using Cons.prems(5,7) kv by (auto simp: c2_def)
  qed (use Cons.prems in \<open>simp_all add: p2_def mid_def\<close>)
  moreover have "t @ concat (map render_parameter (kv # kvs)) @ FUNCTION_CLOSE =
      (t @ PARAM_PREFIX @ k @ [0x3E]) @ ([0x0A] @ v @ [0x0A] @ PARAM_CLOSE) @ ([0x0A] @ concat (map render_parameter kvs) @ FUNCTION_CLOSE)"
    by (simp add: kv render_parameter_def)
  ultimately show ?case
    by (simp only: tp_push_seq [OF a] tp_push_seq [OF b]) (simp add: p2_def c2_def kv call_value_def)
qed

lemma push_rendered_call:
  assumes "mid p" "tp_state p = Outside" "find_bytes TOOL_CALL_OPEN t = None" "good_call c"
  shows "tp_push P (t @ render_call c) p =
    Some ((push_call P (fst c) (call_value (snd c)) p)\<lparr>tp_passthrough := tp_passthrough p @ t, tp_current := None\<rparr>)"
proof -
  define p1 where "p1 = p\<lparr>tp_passthrough := tp_passthrough p @ t, tp_state := InToolCall, tp_current := Some \<lparr>if_name = [], if_arguments = []\<rparr>\<rparr>"
  define p2 where "p2 = p1\<lparr>tp_state := InFunction, tp_current := Some \<lparr>if_name = fst c, if_arguments = []\<rparr>\<rparr>"
  define p3 where "p3 = p2\<lparr>tp_current := Some \<lparr>if_name = fst c, if_arguments = call_value (snd c)\<rparr>\<rparr>"
  have a: "tp_push P (t @ TOOL_CALL_OPEN) p = Some p1" unfolding p1_def by (rule push_open [OF assms(1-3)])
  have b: "tp_push P ([0x0A] @ FUNCTION_PREFIX @ fst c @ [0x3E]) p1 = Some p2"
    using push_function [of p1 "fst c" "\<lparr>if_name = [], if_arguments = []\<rparr>" P] assms(1,4)
    by (simp add: p1_def p2_def mid_def good_call_def)
  have d: "tp_push P ([0x0A] @ concat (map render_parameter (snd c)) @ FUNCTION_CLOSE) p2 = Some p3"
    using push_parameters [of p2 "\<lparr>if_name = fst c, if_arguments = []\<rparr>" "[0x0A]" "snd c" P] assms(1,4)
    by (simp add: p1_def p2_def p3_def mid_def good_call_def)
  have e: "tp_push P ([0x0A] @ TOOL_CALL_CLOSE) p3 =
      Some ((push_call P (fst c) (call_value (snd c)) p)\<lparr>tp_passthrough := tp_passthrough p @ t, tp_current := None\<rparr>)"
    using push_call_end [of p3 "\<lparr>if_name = fst c, if_arguments = call_value (snd c)\<rparr>" P] assms(1,2,4)
    by (simp add: p1_def p2_def p3_def mid_def good_call_def push_call_def)
  have "t @ render_call c = (t @ TOOL_CALL_OPEN) @ ([0x0A] @ FUNCTION_PREFIX @ fst c @ [0x3E]) @
      ([0x0A] @ concat (map render_parameter (snd c)) @ FUNCTION_CLOSE) @ ([0x0A] @ TOOL_CALL_CLOSE)"
    by (simp add: render_call_def)
  then show ?thesis by (simp only: tp_push_seq [OF a] tp_push_seq [OF b] tp_push_seq [OF d] e)
qed

definition call_pair :: "'n parsed_tool_call \<Rightarrow> u8 list \<times> 'n jmap" where "call_pair c = (pc_name c, pc_arguments c)"

lemma push_rendered_reply:
  assumes "mid p" "tp_state p = Outside" "\<forall>(t, c)\<in>set segs. find_bytes TOOL_CALL_OPEN t = None \<and> good_call c"
  shows "\<exists>q. tp_push P (render_reply segs) p = Some q \<and> mid q \<and> tp_state q = Outside \<and>
    tp_passthrough q = tp_passthrough p @ concat (map fst segs) \<and>
    map call_pair (tp_parsed q) = map call_pair (tp_parsed p) @ map (\<lambda>(t, c). (fst c, call_value (snd c))) segs"
  using assms
proof (induction segs arbitrary: p)
  case Nil
  have "try_consume_qwen3 P (tp_feed p []) = (p, False)"
    using Nil by (simp add: try_consume_marker marker_step_def mid_def tp_feed_def)
  from qwen3_loop_halt [OF this] show ?case
    using Nil by (simp add: tp_push_def flush_safe_prefix_def render_reply_def mid_def)
next
  case (Cons seg segs)
  obtain t c where seg: "seg = (t, c)" by (cases seg)
  define q1 where "q1 = (push_call P (fst c) (call_value (snd c)) p)\<lparr>tp_passthrough := tp_passthrough p @ t, tp_current := None\<rparr>"
  have a: "tp_push P (t @ render_call c) p = Some q1"
    unfolding q1_def using Cons.prems seg by (intro push_rendered_call) auto
  have m: "mid q1" "tp_state q1 = Outside" using Cons.prems by (simp_all add: q1_def mid_def push_call_def)
  from Cons.IH [OF m] Cons.prems(3) obtain q where
    q: "tp_push P (render_reply segs) q1 = Some q" "mid q" "tp_state q = Outside"
    "tp_passthrough q = tp_passthrough q1 @ concat (map fst segs)"
    "map call_pair (tp_parsed q) = map call_pair (tp_parsed q1) @ map (\<lambda>(t, c). (fst c, call_value (snd c))) segs" by auto
  have "render_reply (seg # segs) = (t @ render_call c) @ render_reply segs" by (simp add: render_reply_def seg)
  moreover note q(1)
  ultimately have "tp_push P (render_reply (seg # segs)) p = Some q" by (simp only: tp_push_seq [OF a])
  moreover have "map call_pair (tp_parsed q1) = map call_pair (tp_parsed p) @ [(fst c, call_value (snd c))]"
    "tp_passthrough q1 = tp_passthrough p @ t"
    by (simp_all add: q1_def push_call_def call_pair_def)
  ultimately show ?case using q by (simp add: seg)
qed

text \<open>C35: Tool calls are read back. A reply in the XML format that interleaves text with calls, as
  the chat template writes them, yields from a new parser, in whatever pieces it arrives, those
  calls in order, each with its name and its arguments in order, and passes the text between
  them through. It is left outside a call with nothing held back.
\<close>

theorem tool_calls_roundtrip:
  assumes "concat pieces = render_reply segs"
    and "\<forall>(t, c)\<in>set segs. find_bytes TOOL_CALL_OPEN t = None \<and> good_call c"
  shows "\<exists>p. push_all P pieces (tp_new Qwen3XmlFunction) = Some p \<and>
    map call_pair (tp_parsed p) = map (\<lambda>(t, c). (fst c, call_value (snd c))) segs \<and>
    tp_passthrough p = concat (map fst segs) \<and> tp_state p = Outside \<and> tp_pending p = []"
proof -
  have "push_all P pieces (tp_new Qwen3XmlFunction) = tp_push P (render_reply segs) (tp_new Qwen3XmlFunction)"
    unfolding assms(1) [symmetric] by (cases pieces) (simp_all only: push_all_concat, simp add: tp_push_nil)
  with push_rendered_reply [of "tp_new Qwen3XmlFunction" segs P] assms(2) show ?thesis
    by (auto simp: mid_def tp_new_def)
qed


section \<open>The reader of Gemma arguments\<close>

lemma strip_chars_suffix: "\<exists>w. s = w @ strip_chars cs s"
proof (induction cs s rule: strip_chars.induct)
  case (1 cs s)
  show ?case
  proof (cases "List.find (\<lambda>c. c \<noteq> [] \<and> starts_with s c) cs")
    case None
    then show ?thesis by (simp add: strip_chars.simps [of cs s])
  next
    case (Some c)
    from 1 [OF Some] obtain w where "drop (length c) s = w @ strip_chars cs (drop (length c) s)" by blast
    then have "s = (take (length c) s @ w) @ strip_chars cs (drop (length c) s)" by (metis append.assoc append_take_drop_id)
    then show ?thesis unfolding strip_chars.simps [of cs s] Some option.case by (rule exI)
  qed
qed

lemma skip_ws_le: "length (skip_ws s) \<le> length s" "set (skip_ws s) \<subseteq> set s"
proof -
  obtain w where "s = w @ skip_ws s" unfolding skip_ws_def using strip_chars_suffix by blast
  then show "length (skip_ws s) \<le> length s" "set (skip_ws s) \<subseteq> set s"
    by (metis length_append le_add2, metis set_append Un_upper2)
qed

lemma matching_brace_span:
  "matching_brace s i d = Gives t \<Longrightarrow> length t + 2 \<le> length s \<or> i = 0 \<and> length t + 1 \<le> length s \<and> s ! 0 = 0x7D"
proof (induction s i d rule: matching_brace.induct)
  case (1 s i d)
  show ?case
  proof (cases "i < length s \<and> is_char_boundary s i")
    case T: True
    show ?thesis
    proof (cases "starts_with (drop i s) GEMMA_STR_SENTINEL")
      case True
      with 1(5) T obtain c where c: "find_bytes GEMMA_STR_SENTINEL (drop (i + length GEMMA_STR_SENTINEL) s) = Some c"
        and m: "matching_brace s (i + length GEMMA_STR_SENTINEL + c + length GEMMA_STR_SENTINEL) d = Gives t"
        unfolding matching_brace.simps [of s i d] by (auto split: option.splits)
      from 1(1) [OF _ _ True c m] T show ?thesis by (auto simp: GEMMA_STR_SENTINEL_def)
    next
      case False
      with 1(2-5) T show ?thesis
        unfolding matching_brace.simps [of s i d] by (cases i) (auto simp: Suc_le_eq split: if_splits)
    qed
  next
    case False
    with 1(5) show ?thesis unfolding matching_brace.simps [of s i d] by (auto split: if_splits)
  qed
qed

lemma strip_matching_span: "strip_matching_braces s = Gives t \<Longrightarrow> length t + 2 \<le> length s"
  using matching_brace_span [of s 0 0 t] by (auto simp: strip_matching_braces_def split: list.splits if_splits)

fun task_text :: "'n gemma_task \<Rightarrow> u8 list" where
  "task_text (Pairs _ r) = r"
| "task_text (Object r) = r"
| "task_text (Value r) = r"
| "task_text (Items _ r) = r"

fun task_need :: "'n gemma_task \<Rightarrow> nat" where
  "task_need (Pairs _ r) = 2 * length r + 1"
| "task_need (Object r) = 2 * length r + 2"
| "task_need (Value r) = 2 * length r + 1"
| "task_need (Items _ r) = 2 * length r + 2"

lemma and_then_Gives: "and_then x f = Gives y \<longleftrightarrow> (\<exists>z. x = Gives z \<and> f z = Gives y)" by (cases x) auto
lemma and_then_OutOfFuel: "and_then x f = OutOfFuel \<longleftrightarrow> x = OutOfFuel \<or> (\<exists>z. x = Gives z \<and> f z = OutOfFuel)" by (cases x) auto
lemma and_then_Panics: "and_then x f = Panics \<longleftrightarrow> x = Panics \<or> (\<exists>z. x = Gives z \<and> f z = Panics)" by (cases x) auto

lemma parse_sentinel_left: "parse_sentinel_string r = Gives (k, r') \<Longrightarrow> length r' \<le> length r"
  by (auto simp: parse_sentinel_string_def Let_def split: option.splits)

lemma parse_key_left: "parse_key r = Gives (k, r') \<Longrightarrow> length r' \<le> length r"
  using parse_sentinel_left by (auto simp: parse_key_def Let_def split: if_splits option.splits)

lemma skip_drop_le: "length (skip_ws (drop n s)) \<le> length s - n"
  using skip_ws_le(1) [of "drop n s"] by simp

lemma starts_byte: "starts_with r [b] \<Longrightarrow> 0 < length r"
  by (cases r) (auto simp: starts_with_def)

lemma gemma_left: "gemma_args P n t = Gives (v, r) \<Longrightarrow> length r \<le> length (task_text t)"
proof (induction n arbitrary: t v r)
  case (Suc n)
  note ws = skip_ws_le(1)
  show ?case
  proof (cases t)
    case (Pairs acc s)
    with Suc.prems obtain k r1 v1 r2 where k: "parse_key (skip_ws s) = Gives (k, r1)"
      and v1: "gemma_args P n (Value (skip_ws (drop 1 (skip_ws r1)))) = Gives (v1, r2)"
      and e: "(if starts_with (skip_ws r2) [0x2C] then gemma_args P n (Pairs (map_insert k v1 acc) (drop 1 (skip_ws r2)))
        else Gives (JObject (map_insert k v1 acc), skip_ws r2)) = Gives (v, r)"
      by (auto simp: parse_pairs_def and_then_Gives Let_def split: if_splits)
    have "length r2 \<le> length s"
      using Suc.IH [OF v1] parse_key_left [OF k] ws [of s] ws [of r1] skip_drop_le [of 1 "skip_ws r1"] by simp
    moreover have "length r \<le> length (skip_ws r2)"
      using e Suc.IH [of "Pairs (map_insert k v1 acc) (drop 1 (skip_ws r2))" v r] by (auto split: if_splits)
    ultimately show ?thesis using Pairs ws [of r2] by simp
  next
    case (Object s)
    with Suc.prems Suc.IH [of "Pairs [] (skip_ws s)" v r] ws [of s] show ?thesis
      by (auto simp: parse_object_def Let_def split: if_splits)
  next
    case (Value s)
    with Suc.prems Suc.IH [of "Items [] (drop 1 (skip_ws s))" v r] ws [of s] parse_sentinel_left [of "skip_ws s" _ r] show ?thesis
      by (auto simp: parse_value_def and_then_Gives Let_def split: if_splits)
  next
    case (Items acc s)
    show ?thesis
    proof (cases "starts_with (skip_ws s) [0x5D]")
      case True
      with Suc.prems Items ws [of s] show ?thesis by (auto simp: parse_items_def Let_def)
    next
      case False
      with Suc.prems Items obtain v1 r2 where v1: "gemma_args P n (Value (skip_ws s)) = Gives (v1, r2)"
        and e: "(if starts_with (skip_ws r2) [0x2C] then gemma_args P n (Items (acc @ [v1]) (drop 1 (skip_ws r2)))
          else if starts_with (skip_ws r2) [0x5D] then Gives (JArray (acc @ [v1]), drop 1 (skip_ws r2)) else Refuses) = Gives (v, r)"
        by (auto simp: parse_items_def and_then_Gives Let_def)
      have "length r \<le> length (skip_ws r2)"
        using e Suc.IH [of "Items (acc @ [v1]) (drop 1 (skip_ws r2))" v r] by (auto split: if_splits)
      with Suc.IH [OF v1] Items ws [of s] ws [of r2] show ?thesis by simp
    qed
  qed
qed simp

lemma gemma_fuelled: "task_need t \<le> n \<Longrightarrow> gemma_args P n t \<noteq> OutOfFuel"
proof (induction n arbitrary: t)
  case 0
  then show ?case by (cases t) auto
next
  case (Suc n)
  note ws = skip_ws_le(1)
  have keys: "parse_key r \<noteq> OutOfFuel" "parse_sentinel_string r \<noteq> OutOfFuel" for r
    by (auto simp: parse_key_def parse_sentinel_string_def Let_def split: option.split)
  have braces: "matching_brace s i d \<noteq> OutOfFuel" for s i d
    by (induction s i d rule: matching_brace.induct) (subst matching_brace.simps, auto split: option.split)
  show ?case
  proof (cases t)
    case (Pairs acc s)
    show ?thesis
    proof
      assume "gemma_args P (Suc n) t = OutOfFuel"
      with Pairs keys obtain k r1 where k: "parse_key (skip_ws s) = Gives (k, r1)" and c: "starts_with (skip_ws r1) [0x3A]"
        and d: "gemma_args P n (Value (skip_ws (drop 1 (skip_ws r1)))) = OutOfFuel \<or>
          (\<exists>v r2. gemma_args P n (Value (skip_ws (drop 1 (skip_ws r1)))) = Gives (v, r2) \<and> starts_with (skip_ws r2) [0x2C] \<and>
            gemma_args P n (Pairs (map_insert k v acc) (drop 1 (skip_ws r2))) = OutOfFuel)"
        by (auto simp: parse_pairs_def and_then_OutOfFuel Let_def split: if_splits)
      have l: "length (skip_ws (drop 1 (skip_ws r1))) + 1 \<le> length s"
        using parse_key_left [OF k] ws [of s] ws [of r1] skip_drop_le [of 1 "skip_ws r1"] starts_byte [OF c] by linarith
      then have "gemma_args P n (Value (skip_ws (drop 1 (skip_ws r1)))) \<noteq> OutOfFuel"
        using Suc.prems Pairs by (intro Suc.IH) simp
      with d obtain v r2 where v: "gemma_args P n (Value (skip_ws (drop 1 (skip_ws r1)))) = Gives (v, r2)"
        and o1: "gemma_args P n (Pairs (map_insert k v acc) (drop 1 (skip_ws r2))) = OutOfFuel" by blast
      have "length (drop 1 (skip_ws r2)) + 1 \<le> length s" using gemma_left [OF v] l ws [of r2] by simp
      then have "gemma_args P n (Pairs (map_insert k v acc) (drop 1 (skip_ws r2))) \<noteq> OutOfFuel"
        using Suc.prems Pairs by (intro Suc.IH) simp
      with o1 show False by contradiction
    qed
  next
    case (Object s)
    have "gemma_args P n (Pairs [] (skip_ws s)) \<noteq> OutOfFuel" using Suc.prems Object ws [of s] by (intro Suc.IH) simp
    with Object show ?thesis by (simp add: parse_object_def Let_def)
  next
    case (Value s)
    show ?thesis
    proof
      assume "gemma_args P (Suc n) t = OutOfFuel"
      with Value keys braces consider (obj) span where "strip_matching_braces (skip_ws s) = Gives span" "gemma_args P n (Object span) = OutOfFuel"
        | (arr) "starts_with (skip_ws s) [0x5B]" "gemma_args P n (Items [] (drop 1 (skip_ws s))) = OutOfFuel"
        by (auto simp: parse_value_def and_then_OutOfFuel strip_matching_braces_def Let_def split: if_splits list.splits)
      then show False
      proof cases
        case obj
        have "gemma_args P n (Object span) \<noteq> OutOfFuel"
          using Suc.prems Value strip_matching_span [OF obj(1)] ws [of s] by (intro Suc.IH) simp
        with obj(2) show False by contradiction
      next
        case arr
        have "length (skip_ws s) - 1 + 1 \<le> length s" using starts_byte [OF arr(1)] ws [of s] by linarith
        then have "gemma_args P n (Items [] (drop 1 (skip_ws s))) \<noteq> OutOfFuel"
          using Suc.prems Value by (intro Suc.IH) simp
        with arr(2) show False by contradiction
      qed
    qed
  next
    case (Items acc s)
    show ?thesis
    proof
      assume "gemma_args P (Suc n) t = OutOfFuel"
      with Items have "gemma_args P n (Value (skip_ws s)) = OutOfFuel \<or>
          (\<exists>v r2. gemma_args P n (Value (skip_ws s)) = Gives (v, r2) \<and> starts_with (skip_ws r2) [0x2C] \<and>
            gemma_args P n (Items (acc @ [v]) (drop 1 (skip_ws r2))) = OutOfFuel)"
        by (auto simp: parse_items_def and_then_OutOfFuel Let_def split: if_splits)
      moreover have "gemma_args P n (Value (skip_ws s)) \<noteq> OutOfFuel" using Suc.prems Items ws [of s] by (intro Suc.IH) simp
      ultimately obtain v r2 where v: "gemma_args P n (Value (skip_ws s)) = Gives (v, r2)" and c: "starts_with (skip_ws r2) [0x2C]"
        and o1: "gemma_args P n (Items (acc @ [v]) (drop 1 (skip_ws r2))) = OutOfFuel" by blast
      have "length (drop 1 (skip_ws r2)) + 1 \<le> length s"
        using gemma_left [OF v] ws [of r2] ws [of s] starts_byte [OF c] by simp
      then have "gemma_args P n (Items (acc @ [v]) (drop 1 (skip_ws r2))) \<noteq> OutOfFuel"
        using Suc.prems Items by (intro Suc.IH) simp
      with o1 show False by contradiction
    qed
  qed
qed

text \<open>C36: The reader of Gemma calls returns: the fuel it is given covers every nesting of its text.\<close>

theorem gemma_reader_returns: "parse_gemma_call P body \<noteq> OutOfFuel"
proof -
  have braces: "matching_brace s i d \<noteq> OutOfFuel" for s i d
    by (induction s i d rule: matching_brace.induct) (subst matching_brace.simps, auto split: option.split)
  have "gemma_args P (gemma_fuel inner) (Object inner) \<noteq> OutOfFuel" for inner
    by (rule gemma_fuelled) (simp add: gemma_fuel_def)
  with braces show ?thesis
    by (auto simp: parse_gemma_call_def and_then_OutOfFuel strip_matching_braces_def Let_def split: option.split list.split prod.splits jvalue.splits)
qed


section \<open>A character of two bytes outside a quoted string\<close>

lemma not_sentinel: "i < length s \<Longrightarrow> s ! i \<noteq> 0x3C \<Longrightarrow> \<not> starts_with (drop i s) GEMMA_STR_SENTINEL"
  by (auto simp: GEMMA_STR_SENTINEL_def starts_with_def Cons_nth_drop_Suc [symmetric])

lemma matching_brace_cut:
  assumes "n < length s" "0 < n" "is_cont (s ! n)"
    and "\<And>j. j < n \<Longrightarrow> \<not> is_cont (s ! j) \<and> s ! j \<noteq> 0x3C \<and> s ! j \<noteq> 0x7D"
  shows "i \<le> n \<Longrightarrow> matching_brace s i depth = Panics"
proof (induction "n - i" arbitrary: i depth)
  case 0
  then have "i = n" by simp
  with assms(1-3) show ?case unfolding matching_brace.simps [of s i] by (simp add: is_char_boundary_def)
next
  case (Suc k)
  then have i: "i < n" "k = n - (i + 1)" "i + 1 \<le> n" by simp_all
  note b = assms(4) [OF i(1)]
  have "is_char_boundary s i" using b i(1) assms(1) by (simp add: is_char_boundary_def)
  moreover have "\<not> starts_with (drop i s) GEMMA_STR_SENTINEL" using b i(1) assms(1) by (intro not_sentinel) simp_all
  ultimately show ?case unfolding matching_brace.simps [of s i] using b i(1) assms(1) Suc.hyps(1) [OF i(2,3)] by simp
qed

lemma skip_ws_call: "skip_ws (0x63 # s) = 0x63 # s"
  unfolding skip_ws_def strip_chars.simps [of ws_chars "0x63 # s"] by (simp add: ws_chars_def starts_with_def)

lemma trim_end_brace: "trim_end (s @ [0x7D]) = s @ [0x7D]"
  unfolding trim_end_def strip_chars.simps [of "map rev ws_chars" "rev (s @ [0x7D])"] by (simp add: ws_chars_def starts_with_def)

lemma find_brace: "b \<notin> set k \<Longrightarrow> find_bytes [b] (k @ b # u) = Some (length k)"
  by (rule find_bytes_eqI) (auto simp: starts_with_def nth_append Cons_nth_drop_Suc [symmetric])

lemma gemma_call_cut:
  assumes "body = ascii ''call:'' @ nm @ 0x7B # pre @ c # d # rest @ [0x7D]" "trim nm \<noteq> []" "0x7B \<notin> set nm"
    and "\<forall>b \<in> set pre. b < 0x80 \<and> b \<noteq> 0x3C \<and> b \<noteq> 0x7D" "0xC0 \<le> c" "is_cont d"
  shows "parse_gemma_call P body = Panics"
proof -
  let ?s = "0x7B # pre @ c # d # rest @ [0x7D]"
  have c: "\<not> is_cont c" "c \<noteq> 0x3C" "c \<noteq> 0x7D" using assms(5) by (auto simp: is_cont_def word_le_nat_alt)
  have pre: "\<not> is_cont b" if "b \<in> set pre" for b using assms(4) that by (auto simp: is_cont_def word_less_nat_alt word_le_nat_alt)
  have "matching_brace ?s 0 0 = Panics"
  proof (rule matching_brace_cut [where n = "length pre + 2"])
    show "is_cont (?s ! (length pre + 2))" using assms(6) by (simp add: nth_append)
    fix j assume "j < length pre + 2"
    then consider "j = 0" | k where "j = Suc k" "k < length pre" | "j = Suc (length pre)" by (cases j) (auto simp: less_Suc_eq)
    then show "\<not> is_cont (?s ! j) \<and> ?s ! j \<noteq> 0x3C \<and> ?s ! j \<noteq> 0x7D"
      by cases (use c pre assms(4) in \<open>auto simp: nth_append is_cont_def\<close>)
  qed simp_all
  moreover have "trim body = body"
  proof -
    have "skip_ws body = body" using skip_ws_call by (simp add: assms(1) ascii_def)
    moreover have "trim_end body = body"
      using trim_end_brace [of "ascii ''call:'' @ nm @ 0x7B # pre @ c # d # rest"] by (simp add: assms(1))
    ultimately show ?thesis by (simp add: trim_def)
  qed
  moreover have "starts_with body (ascii ''call:'')" by (simp add: assms(1) starts_with_def)
  moreover have "drop 5 body = nm @ ?s" by (simp add: assms(1) ascii_def)
  moreover have "find_bytes [0x7B] (nm @ ?s) = Some (length nm)" by (rule find_brace [OF assms(3)])
  ultimately show ?thesis using assms(2) by (simp add: parse_gemma_call_def strip_matching_braces_def Let_def)
qed

lemma gemma_call_crashes:
  fixes P :: "'n packages"
  assumes "t = before @ GEMMA_TOOL_CALL_OPEN @ body @ GEMMA_TOOL_CALL_CLOSE @ after"
    and "find_bytes GEMMA_TOOL_CALL_OPEN (before @ GEMMA_TOOL_CALL_OPEN) = Some (length before)"
    and "find_bytes GEMMA_TOOL_CALL_CLOSE (body @ GEMMA_TOOL_CALL_CLOSE) = Some (length body)"
    and "parse_gemma_call P body = Panics"
  shows "tp_push P t (tp_new GemmaToolCall :: 'n tool_parser) = None"
proof -
  let ?p = "tp_feed (tp_new GemmaToolCall :: 'n tool_parser) t"
  let ?q = "?p\<lparr>tp_passthrough := before, tp_pending := body @ GEMMA_TOOL_CALL_CLOSE @ after, tp_state := InToolCall\<rparr>"
  have "find_bytes GEMMA_TOOL_CALL_OPEN t = Some (length before)"
    using find_feed [OF assms(2), of "body @ GEMMA_TOOL_CALL_CLOSE @ after"] by (simp add: assms(1))
  then have s1: "delimited_step P GemmaBlock ?p = Again ?q"
    by (simp add: delimited_step_def kind_markers_def tp_feed_def tp_new_def assms(1) Let_def)
  have "find_bytes GEMMA_TOOL_CALL_CLOSE (body @ GEMMA_TOOL_CALL_CLOSE @ after) = Some (length body)"
    using find_feed [OF assms(3), of after] by simp
  then have s2: "delimited_step P GemmaBlock ?q = Crash"
    using assms(4) by (simp add: delimited_step_def kind_markers_def finalize_block_def Let_def)
  have "delimited_loop P GemmaBlock ?q = None" unfolding delimited_loop.simps [of P GemmaBlock ?q] s2 by simp
  then have "delimited_loop P GemmaBlock ?p = None" unfolding delimited_loop.simps [of P GemmaBlock ?p] s1 by simp
  moreover have "tp_format (tp_new GemmaToolCall :: 'n tool_parser) = GemmaToolCall" by (simp add: tp_new_def)
  ultimately show ?thesis by (simp add: tp_push_def push_delimited_def)
qed

lemma pieces_crash:
  assumes "tp_push P (concat pieces) (tp_new f) = None" 
  shows "push_all P pieces (tp_new f) = None"
  using assms by (cases pieces) (simp_all only: push_all_concat, simp add: tp_push_nil)

section \<open>Samples\<close>

definition no_packages :: "unit packages" where
  "no_packages = \<lparr>pk_from_str = (\<lambda>_. None), pk_number = (\<lambda>_. None), pk_uuid_hex = (\<lambda>_. [0x30])\<rparr>"

definition city_key :: "u8 list" where "city_key = ascii ''citt'' @ [0xC3, 0xA0]"

definition gemma_reply :: "u8 list \<Rightarrow> u8 list" where
  "gemma_reply args = GEMMA_TOOL_CALL_OPEN @ ascii ''call:f{'' @ args @ ascii ''}'' @ GEMMA_TOOL_CALL_CLOSE"



theorem plain_reply_passes_witness:
  "\<exists>p. push_all no_packages [ascii ''a <too'', ascii ''l> b <''] (tp_new Qwen3XmlFunction) = Some p \<and>
     tp_passthrough (tp_finalize no_packages p) = ascii ''a <tool> b <'' \<and> tp_parsed (tp_finalize no_packages p) = []"
proof -
  have "find_bytes (opener Qwen3XmlFunction) (concat [ascii ''a <too'', ascii ''l> b <'']) = None" by code_simp
  from plain_reply_passes [OF this, of no_packages] show ?thesis by (auto simp: ascii_def)
qed

definition sample_call :: "u8 list \<times> (u8 list \<times> u8 list) list" where
  "sample_call = (ascii ''go'', [(ascii ''to'', ascii ''x<y''), (ascii ''at'', [])])"

theorem tool_calls_roundtrip_witness:
  "\<exists>p. push_all no_packages [take 40 (ascii ''hi '' @ render_call sample_call), drop 40 (ascii ''hi '' @ render_call sample_call)]
      (tp_new Qwen3XmlFunction) = Some p \<and>
     map call_pair (tp_parsed p) = [(ascii ''go'', [(ascii ''to'', JString (ascii ''x<y'')), (ascii ''at'', JString [])])] \<and>
     tp_passthrough p = ascii ''hi ''"
proof -
  have c: "concat [take 40 (ascii ''hi '' @ render_call sample_call), drop 40 (ascii ''hi '' @ render_call sample_call)] =
      render_reply [(ascii ''hi '', sample_call)]" by (simp add: render_reply_def del: take_append drop_append)
  have g: "\<forall>(t, c)\<in>set [(ascii ''hi '', sample_call)]. find_bytes TOOL_CALL_OPEN t = None \<and> good_call c" by code_simp
  from tool_calls_roundtrip [OF c g, of no_packages] show ?thesis by (auto simp: sample_call_def call_value_def)
qed

end
