(* ===== verification/Detokenizer.thy ===== *)
theory Detokenizer
  imports ReasoningBudget ToolParser
begin

text \<open>
  The streaming detokenizer of \<^verbatim>\<open>rmlx-server/src/detokenizer.rs\<close> and the items of a generation
  (\<^verbatim>\<open>engine/types.rs\<close>, \<^verbatim>\<open>engine/helpers.rs\<close>): each token is decoded with all tokens before it,
  and the text past what was sent goes out, unless it ends inside a character. The tokenizer is
  the parameter \<open>decode\<close>, \<^verbatim>\<open>tokenizers::Tokenizer::decode\<close> with special tokens skipped. Text is
  its bytes; per-token log-probabilities are left out.
\<close>

section \<open>The decoder family\<close>

datatype tokenizer_kind = SpmStrip | SpmNoStrip | ByteLevel | OtherKind

definition j_get :: "string \<Rightarrow> 'n jvalue \<Rightarrow> 'n jvalue option" where
  "j_get k v = (case v of JObject m \<Rightarrow> map_of m (ascii k) | _ \<Rightarrow> None)"

definition j_str :: "'n jvalue \<Rightarrow> u8 list option" where "j_str v = (case v of JString s \<Rightarrow> Some s | _ \<Rightarrow> None)"

definition METASPACE :: "u8 list" where "METASPACE = [0xE2, 0x96, 0x81]"

definition from_tokenizer_json :: "'n jvalue \<Rightarrow> tokenizer_kind" where
  "from_tokenizer_json root =
     (case j_get ''decoder'' root of
        None \<Rightarrow> OtherKind
      | Some dec \<Rightarrow>
          let typ = (\<lambda>v. Option.bind (j_get ''type'' v) j_str) in
          if typ dec = Some (ascii ''ByteLevel'') then ByteLevel
          else if typ dec = Some (ascii ''Sequence'') then
            (case j_get ''decoders'' dec of
               Some (JArray subs) \<Rightarrow>
                 let types = map (\<lambda>s. case typ s of Some t \<Rightarrow> t | None \<Rightarrow> []) subs;
                     first_is_metaspace_replace =
                       (case subs of
                          s # _ \<Rightarrow> typ s = Some (ascii ''Replace'') \<and>
                            Option.bind (Option.bind (j_get ''pattern'' s) (j_get ''String'')) j_str = Some METASPACE \<and>
                            Option.bind (j_get ''content'' s) j_str = Some (ascii '' '')
                        | [] \<Rightarrow> False)
                 in if first_is_metaspace_replace \<and> types = map ascii [''Replace'', ''ByteFallback'', ''Fuse'', ''Strip''] then SpmStrip
                    else if first_is_metaspace_replace \<and> types = map ascii [''Replace'', ''ByteFallback'', ''Fuse''] then SpmNoStrip
                    else OtherKind
             | _ \<Rightarrow> OtherKind)
          else OtherKind)"

definition trim_first_space :: "tokenizer_kind \<Rightarrow> bool" where "trim_first_space k \<longleftrightarrow> k = SpmStrip"

section \<open>The detokenizer\<close>

record detokenizer =
  dt_kind :: tokenizer_kind
  dt_ids :: "u32 list"
  dt_decoded :: "u8 list"
  dt_first_segment_pending :: bool
  dt_eos_ids :: "u32 list"

definition dt_new :: "tokenizer_kind \<Rightarrow> u32 list \<Rightarrow> detokenizer" where
  "dt_new kind eos =
     \<lparr>dt_kind = kind, dt_ids = [], dt_decoded = [], dt_first_segment_pending = True, dt_eos_ids = eos\<rparr>"

text \<open>\<^verbatim>\<open>U+FFFD\<close>, the replacement character.\<close>

definition REPLACEMENT :: "u8 list" where "REPLACEMENT = [0xEF, 0xBF, 0xBD]"

definition ends_with :: "u8 list \<Rightarrow> u8 list \<Rightarrow> bool" where "ends_with s p \<longleftrightarrow> starts_with (rev s) (rev p)"

definition tail_after_decoded :: "u8 list \<Rightarrow> detokenizer \<Rightarrow> u8 list" where
  "tail_after_decoded full d =
     (if length (dt_decoded d) \<le> length full \<and> starts_with full (dt_decoded d) then drop (length (dt_decoded d)) full else [])"

definition maybe_trim_first :: "u8 list \<Rightarrow> detokenizer \<Rightarrow> detokenizer \<times> u8 list" where
  "maybe_trim_first seg d =
     (if seg = [] \<or> \<not> dt_first_segment_pending d then (d, seg)
      else (d\<lparr>dt_first_segment_pending := False\<rparr>,
            if trim_first_space (dt_kind d) \<and> starts_with seg (ascii '' '') then drop 1 seg else seg))"

definition diff_emit :: "u8 list \<Rightarrow> detokenizer \<Rightarrow> detokenizer \<times> u8 list" where
  "diff_emit full d =
     (if ends_with full REPLACEMENT then (d, [])
      else maybe_trim_first (tail_after_decoded full d) (d\<lparr>dt_decoded := full\<rparr>))"

text \<open>A decode error keeps the id and returns \<^term>\<open>Inl e\<close>.\<close>

definition dt_step :: "(u32 list \<Rightarrow> 'e + u8 list) \<Rightarrow> u32 \<Rightarrow> detokenizer \<Rightarrow> detokenizer \<times> ('e + u8 list)" where
  "dt_step decode t d =
     (if t \<in> set (dt_eos_ids d) then (d, Inr [])
      else
        let d = d\<lparr>dt_ids := dt_ids d @ [t]\<rparr> in
        (case decode (dt_ids d) of
           Inl e \<Rightarrow> (d, Inl e)
         | Inr full \<Rightarrow> (case diff_emit full d of (d, seg) \<Rightarrow> (d, Inr seg))))"

definition dt_finalize :: "(u32 list \<Rightarrow> 'e + u8 list) \<Rightarrow> detokenizer \<Rightarrow> detokenizer \<times> ('e + u8 list)" where
  "dt_finalize decode d =
     (case decode (dt_ids d) of
        Inl e \<Rightarrow> (d, Inl e)
      | Inr full \<Rightarrow> (case maybe_trim_first (tail_after_decoded full d) (d\<lparr>dt_decoded := full\<rparr>) of (d, seg) \<Rightarrow> (d, Inr seg)))"

section \<open>The items of a generation\<close>

record generation_token =
  gt_token_id :: u32
  gt_piece :: "u8 list"
  gt_done :: bool
  gt_finish_reason :: "u8 list option"
  gt_is_thinking :: bool

definition counts_toward_usage :: "generation_token \<Rightarrow> bool" where "counts_toward_usage t \<longleftrightarrow> \<not> gt_done t"

definition terminal :: "u32 \<Rightarrow> u8 list \<Rightarrow> u8 list \<Rightarrow> generation_token" where
  "terminal t reason tail =
     \<lparr>gt_token_id = t, gt_piece = tail, gt_done = True, gt_finish_reason = Some reason, gt_is_thinking = False\<rparr>"

definition terminal_item :: "(u32 list \<Rightarrow> 'e + u8 list) \<Rightarrow> detokenizer \<Rightarrow> u32 \<Rightarrow> u8 list \<Rightarrow> generation_token" where
  "terminal_item decode d last_id reason =
     terminal last_id reason (case snd (dt_finalize decode d) of Inr tail \<Rightarrow> tail | Inl _ \<Rightarrow> [])"

text \<open>
  The items the step callback of \<^verbatim>\<open>arch_generator.rs\<close> sends, and the terminal item of a decode
  that showed these tokens.
\<close>

definition server_detok :: "(u32 list \<Rightarrow> 'e + u8 list) \<Rightarrow> detokenizer \<Rightarrow> u32 \<Rightarrow> detokenizer \<times> u8 list option" where
  "server_detok decode d t = (case dt_step decode t d of (d, r) \<Rightarrow> (d, case r of Inr seg \<Rightarrow> Some seg | Inl _ \<Rightarrow> None))"

definition sent_item :: "u32 \<times> u8 list \<times> bool \<Rightarrow> generation_token" where
  "sent_item x =
     (case x of (t, visible, th) \<Rightarrow>
        \<lparr>gt_token_id = t, gt_piece = visible, gt_done = False, gt_finish_reason = None, gt_is_thinking = th\<rparr>)"

definition finish_of :: "u32 list \<Rightarrow> bool \<Rightarrow> u32 \<Rightarrow> u8 list" where
  "finish_of eos end_requested last_id = (if last_id \<in> set eos \<or> end_requested then ascii ''stop'' else ascii ''length'')"

definition sent_items :: "(u32 list \<Rightarrow> 'e + u8 list) \<Rightarrow> u32 list \<Rightarrow> bool \<Rightarrow> detokenizer server_cb \<Rightarrow> generation_token list" where
  "sent_items decode eos end_requested cb =
     (let last_id = (case sv_sent cb of [] \<Rightarrow> 0 | _ \<Rightarrow> fst (last (sv_sent cb))) in
      map sent_item (sv_sent cb) @ [terminal_item decode (sv_detok cb) last_id (finish_of eos end_requested last_id)])"

section \<open>What is sent is what was decoded\<close>

text \<open>
  What the detokenizer relies on: a text that does not end in the replacement character stays a
  prefix of every later decode.
\<close>

definition grows_cleanly :: "(u32 list \<Rightarrow> 'e + u8 list) \<Rightarrow> u32 list \<Rightarrow> bool" where
  "grows_cleanly decode ids \<longleftrightarrow>
     (\<forall>i\<le>length ids. \<forall>k\<le>length ids. \<forall>a b. i \<le> k \<longrightarrow> decode (take i ids) = Inr a \<longrightarrow>
        \<not> ends_with a REPLACEMENT \<longrightarrow> decode (take k ids) = Inr b \<longrightarrow> starts_with b a)"

text \<open>The detokenizer over the tokens of a generation, an error giving no text.\<close>

fun dt_run :: "(u32 list \<Rightarrow> 'e + u8 list) \<Rightarrow> u32 list \<Rightarrow> detokenizer \<Rightarrow> detokenizer \<times> u8 list list" where
  "dt_run decode [] d = (d, [])"
| "dt_run decode (t # ts) d =
     (case server_detok decode d t of
        (d, seg) \<Rightarrow> (case dt_run decode ts d of (d, segs) \<Rightarrow> (d, (case seg of Some s \<Rightarrow> s | None \<Rightarrow> []) # segs)))"

definition text_ids :: "u32 list \<Rightarrow> u32 list \<Rightarrow> u32 list" where "text_ids eos ts = filter (\<lambda>t. t \<notin> set eos) ts"

definition trimmed :: "tokenizer_kind \<Rightarrow> u8 list \<Rightarrow> u8 list" where
  "trimmed k full = (if trim_first_space k \<and> starts_with full (ascii '' '') then drop 1 full else full)"

text \<open>\<open>dt_at d n s\<close>: \<open>s\<close> is what was sent, and the decoded text is empty or a clean decode of the first \<open>n\<close> ids.\<close>

definition dt_at :: "(u32 list \<Rightarrow> 'e + u8 list) \<Rightarrow> detokenizer \<Rightarrow> u8 list \<Rightarrow> bool" where
  "dt_at decode d s \<longleftrightarrow>
     (dt_decoded d = [] \<or> \<not> ends_with (dt_decoded d) REPLACEMENT \<and> (\<exists>i\<le>length (dt_ids d). decode (take i (dt_ids d)) = Inr (dt_decoded d))) \<and>
     (dt_first_segment_pending d \<longleftrightarrow> dt_decoded d = []) \<and> s = trimmed (dt_kind d) (dt_decoded d)"

lemma starts_with_nil [simp]: "starts_with s []" by (simp add: starts_with_def)

lemma dt_decoded_prefix:
  assumes "dt_at decode d s" "grows_cleanly decode ids" "k \<le> length ids" "dt_ids d = take k ids" "decode (take k ids) = Inr full"
  shows "starts_with full (dt_decoded d)"
proof (cases "dt_decoded d = []")
  case False
  with assms(1) obtain i where i: "i \<le> length (dt_ids d)" "decode (take i (dt_ids d)) = Inr (dt_decoded d)"
    and c: "\<not> ends_with (dt_decoded d) REPLACEMENT" by (auto simp: dt_at_def)
  from i assms(3,4) have "i \<le> k" "decode (take i ids) = Inr (dt_decoded d)" by (auto simp: min_def split: if_splits)
  with assms(2,3,5) c show ?thesis unfolding grows_cleanly_def by (meson le_trans)
qed simp

lemma trim_split:
  assumes "starts_with full (dt_decoded d)" "dt_first_segment_pending d \<longleftrightarrow> dt_decoded d = []"
    "maybe_trim_first (tail_after_decoded full d) (d\<lparr>dt_decoded := full\<rparr>) = (d', seg)"
  shows "trimmed (dt_kind d) (dt_decoded d) @ seg = trimmed (dt_kind d) full \<and> d' = d\<lparr>dt_decoded := full, dt_first_segment_pending := (full = [])\<rparr>"
proof -
  from assms(1) obtain t where t: "full = dt_decoded d @ t" by (auto simp: starts_with_iff)
  then have "tail_after_decoded full d = t" using assms(1) by (simp add: tail_after_decoded_def)
  with assms(2,3) t show ?thesis
    by (cases "dt_decoded d"; cases "t = []") (auto simp: maybe_trim_first_def trimmed_def starts_with_def ascii_def split: if_splits)
qed

lemma dt_step_at:
  assumes at_d: "dt_at decode d s" and g: "grows_cleanly decode ids" and k: "k < length ids"
    and i: "dt_ids d = take k ids" and t: "t = ids ! k" "t \<notin> set (dt_eos_ids d)"
    and st: "server_detok decode d t = (d', seg)"
  shows "dt_at decode d' (s @ (case seg of Some x \<Rightarrow> x | None \<Rightarrow> [])) \<and> dt_ids d' = take (Suc k) ids \<and>
    dt_kind d' = dt_kind d \<and> dt_eos_ids d' = dt_eos_ids d"
proof -
  let ?d = "d\<lparr>dt_ids := dt_ids d @ [t]\<rparr>"
  have ids: "dt_ids ?d = take (Suc k) ids" using i t k by (simp add: take_Suc_conv_app_nth)
  have "\<exists>i\<le>length (dt_ids ?d). decode (take i (dt_ids ?d)) = r"
    if "i \<le> length (dt_ids d)" "decode (take i (dt_ids d)) = r" for i r
    using that by (intro exI [of _ i]) simp
  with at_d have at': "dt_at decode ?d s" by (auto simp: dt_at_def)
  show ?thesis
  proof (cases "decode (dt_ids ?d)")
    case (Inl e)
    with st t at' ids show ?thesis by (auto simp: server_detok_def dt_step_def Let_def)
  next
    case (Inr full)
    have p: "starts_with full (dt_decoded ?d)"
      using dt_decoded_prefix [OF at' g _ ids] Inr ids k by simp
    show ?thesis
    proof (cases "ends_with full REPLACEMENT")
      case True
      with st t at' ids Inr show ?thesis by (auto simp: server_detok_def dt_step_def Let_def diff_emit_def)
    next
      case False
      obtain d2 sg where m: "maybe_trim_first (tail_after_decoded full ?d) (?d\<lparr>dt_decoded := full\<rparr>) = (d2, sg)" by force
      from st t Inr False m have e: "d' = d2" "seg = Some sg"
        by (auto simp: server_detok_def dt_step_def Let_def diff_emit_def)
      from at' have f: "dt_first_segment_pending ?d \<longleftrightarrow> dt_decoded ?d = []" "s = trimmed (dt_kind ?d) (dt_decoded ?d)"
        by (simp_all add: dt_at_def)
      have "\<exists>i\<le>length (take (Suc k) ids). decode (take i (take (Suc k) ids)) = Inr full"
        using Inr ids k by (intro exI [of _ "Suc k"]) simp
      with trim_split [OF p f(1) m] f(2) False ids show ?thesis unfolding e dt_at_def by auto
    qed
  qed
qed


lemma dt_step_eos: "t \<in> set (dt_eos_ids d) \<Longrightarrow> server_detok decode d t = (d, Some [])"
  by (simp add: server_detok_def dt_step_def)

lemma dt_run_at:
  assumes "dt_at decode d s" "grows_cleanly decode ids" "dt_ids d @ text_ids (dt_eos_ids d) ts = ids" "dt_run decode ts d = (d', segs)"
  shows "dt_at decode d' (s @ concat segs) \<and> dt_ids d' = ids \<and> dt_kind d' = dt_kind d"
  using assms
proof (induction ts arbitrary: d s segs)
  case Nil
  then show ?case by (simp add: text_ids_def)
next
  case (Cons t ts)
  obtain d1 seg where st: "server_detok decode d t = (d1, seg)" by force
  obtain segs' where r: "dt_run decode ts d1 = (d', segs')" "segs = (case seg of Some s \<Rightarrow> s | None \<Rightarrow> []) # segs'"
    using Cons.prems(4) st by (auto split: prod.splits)
  show ?case
  proof (cases "t \<in> set (dt_eos_ids d)")
    case True
    with st have "d1 = d" "seg = Some []" by (simp_all add: dt_step_eos)
    with Cons.IH [OF Cons.prems(1,2) _ r(1) [unfolded \<open>d1 = d\<close>]] Cons.prems(3) True r(2) show ?thesis by (simp add: text_ids_def)
  next
    case False
    define k where "k = length (dt_ids d)"
    from Cons.prems(3) False have ids: "ids = dt_ids d @ t # text_ids (dt_eos_ids d) ts" by (simp add: text_ids_def)
    then have k: "k < length ids" "dt_ids d = take k ids" "t = ids ! k" by (simp_all add: k_def)
    note n = dt_step_at [OF Cons.prems(1,2) k False st]
    have "take (Suc k) ids = dt_ids d @ [t]" by (simp add: ids k_def)
    with n have "dt_ids d1 @ text_ids (dt_eos_ids d1) ts = ids" by (simp add: ids)
    from Cons.IH [OF conjunct1 [OF n] Cons.prems(2) this r(1)] n r(2) show ?thesis by simp
  qed
qed

lemma dt_new_at: "dt_at decode (dt_new kind eos) []"
  by (simp add: dt_at_def dt_new_def trimmed_def starts_with_def ascii_def)

lemma pieces_decode:
  assumes "grows_cleanly decode (text_ids eos ts)" "decode (text_ids eos ts) = Inr full"
    "dt_run decode ts (dt_new kind eos) = (d, segs)"
  shows "concat segs @ gt_piece (terminal_item decode d last_id reason) = trimmed kind full \<and>
    (dt_decoded d = [] \<or> \<not> ends_with (dt_decoded d) REPLACEMENT)"
proof -
  from dt_run_at [OF dt_new_at assms(1) _ assms(3)]
  have a: "dt_at decode d (concat segs)" and i: "dt_ids d = text_ids eos ts" and k: "dt_kind d = kind"
    by (simp_all add: dt_new_def)
  have p: "starts_with full (dt_decoded d)"
    using dt_decoded_prefix [OF a assms(1) le_refl, of full] i assms(2) by simp
  obtain d2 sg where m: "maybe_trim_first (tail_after_decoded full d) (d\<lparr>dt_decoded := full\<rparr>) = (d2, sg)" by force
  from a have f: "dt_first_segment_pending d \<longleftrightarrow> dt_decoded d = []" "concat segs = trimmed (dt_kind d) (dt_decoded d)"
    "dt_decoded d = [] \<or> \<not> ends_with (dt_decoded d) REPLACEMENT"
    by (auto simp: dt_at_def)
  from trim_split [OF p f(1) m] f m i k assms(2) show ?thesis
    by (simp add: terminal_item_def terminal_def dt_finalize_def)
qed

text \<open>C40: The streamed pieces are the decoded text. Whatever token boundaries cut the characters of a
  reply, and however often the tokenizer fails in between, the pieces sent and the tail of the
  terminal item, joined, are the decode of all its tokens but the end tokens, once, without the
  leading space that a decoder of the strict family strips; a piece that is sent early never
  ends in the replacement character of a cut character.
\<close>

theorem pieces_are_decode:
  assumes "grows_cleanly decode (text_ids eos ts)" "decode (text_ids eos ts) = Inr full"
    "dt_run decode ts (dt_new kind eos) = (d, segs)"
  shows "concat segs @ gt_piece (terminal_item decode d last_id reason) = trimmed kind full \<and>
    (dt_decoded d = [] \<or> \<not> ends_with (dt_decoded d) REPLACEMENT)"
  by (rule pieces_decode [OF assms])

text \<open>A tokenizer with two tokens for the bytes of a character, and one for a letter.\<close>

definition cut_decode :: "u32 list \<Rightarrow> unit + u8 list" where
  "cut_decode ids =
     (if ids = [] then Inr [] else if ids = [1] then Inr REPLACEMENT else if ids = [1, 2] then Inr [0xC3, 0xA9]
      else if ids = [1, 2, 3] then Inr [0xC3, 0xA9, 0x61] else Inl ())"

lemma cut_grows: "grows_cleanly cut_decode (text_ids [9] [1, 2, 3, 9])"
proof -
  have t: "text_ids [9] [1, 2, 3, 9] = [1, 2, 3]" by code_simp
  have n: "(\<forall>i\<le>Suc (Suc (Suc 0)). Q i) \<longleftrightarrow> Q 0 \<and> Q (Suc 0) \<and> Q (Suc (Suc 0)) \<and> Q (Suc (Suc (Suc 0)))" for Q
    by (auto simp: le_Suc_eq)
  show ?thesis
    unfolding t grows_cleanly_def by (simp add: n cut_decode_def starts_with_def ends_with_def REPLACEMENT_def)
qed

theorem pieces_are_decode_witness:
  "\<exists>d. dt_run cut_decode [1, 2, 3, 9] (dt_new ByteLevel [9]) = (d, [[], [0xC3, 0xA9], [0x61], []]) \<and>
     concat [[], [0xC3, 0xA9], [0x61], []] @ gt_piece (terminal_item cut_decode d 9 (ascii ''stop'')) = [0xC3, 0xA9, 0x61]"
proof -
  obtain d segs where r: "dt_run cut_decode [1, 2, 3, 9] (dt_new ByteLevel [9]) = (d, segs)" by force
  have "snd (dt_run cut_decode [1, 2, 3, 9] (dt_new ByteLevel [9])) = [[], [0xC3, 0xA9], [0x61], []]" by code_simp
  with r have s: "segs = [[], [0xC3, 0xA9], [0x61], []]" by simp
  have t: "text_ids [9] [1, 2, 3, 9] = [1, 2, 3]" by code_simp
  have "cut_decode (text_ids [9] [1, 2, 3, 9]) = Inr [0xC3, 0xA9, 0x61]" unfolding t by code_simp
  from pieces_are_decode [OF cut_grows this r, of 9 "ascii ''stop''"] r show ?thesis
    by (auto simp: s trimmed_def trim_first_space_def)
qed

end
