(* ===== verification/AnthropicStream.thy ===== *)
theory AnthropicStream
  imports ToolReply Detokenizer
begin

text \<open>
  The streamed reply of the Anthropic route, \<^verbatim>\<open>rmlx-server/src/anthropic/streaming.rs\<close>: the
  content blocks, the state a poll of the stream works on, and the epilogue; with the two stop
  reason maps of \<^verbatim>\<open>route.rs\<close>. The generation is the list of the items it yields. An event is
  its name and the fields the payload carries; metrics, log lines and the constant fields of
  the payloads are left out. Block indices are unbounded.
\<close>

section \<open>Events and blocks\<close>

datatype block_kind = TextBlock | ThinkingBlock

datatype ('n, 'e) event =
    MessageStart
  | Ping
  | BlockStart nat block_kind
  | ToolStart nat "u8 list" "u8 list"
  | BlockDelta nat block_kind "u8 list"
  | InputDelta nat "u8 list"
  | BlockStop nat
  | MessageDelta "u8 list" "u8 list option" nat
  | MessageStop
  | ErrorEvent 'e

text \<open>The open block and the index are threaded through the enqueueing helpers, with the queue.\<close>

definition enqueue_text_or_thinking_delta ::
  "block_kind \<Rightarrow> u8 list \<Rightarrow> ('n, 'e) event list \<times> block_kind option \<times> nat \<Rightarrow> ('n, 'e) event list \<times> block_kind option \<times> nat" where
  "enqueue_text_or_thinking_delta want txt s =
     (case s of (queue, cur, i) \<Rightarrow>
        (case (case cur of
             None \<Rightarrow> (queue @ [BlockStart i want], i)
           | Some k \<Rightarrow> if k \<noteq> want then (queue @ [BlockStop i, BlockStart (i + 1) want], i + 1) else (queue, i)) of
           (queue, i) \<Rightarrow> (queue @ [BlockDelta i want txt], Some want, i)))"

definition enqueue_tool_use_block ::
  "('n jmap \<Rightarrow> u8 list option) \<Rightarrow> 'n parsed_tool_call \<Rightarrow> ('n, 'e) event list \<times> block_kind option \<times> nat \<Rightarrow>
   ('n, 'e) event list \<times> block_kind option \<times> nat" where
  "enqueue_tool_use_block to_str c s =
     (case s of (queue, cur, i) \<Rightarrow>
        (case (if cur \<noteq> None then (queue @ [BlockStop i], i + 1) else (queue, i)) of
           (queue, i) \<Rightarrow>
             (queue @ [ToolStart i (pc_id c) (pc_name c),
                InputDelta i (case to_str (pc_arguments c) of Some t \<Rightarrow> t | None \<Rightarrow> [0x7B, 0x7D]), BlockStop i], None, i + 1)))"

definition map_stop_reason :: "u8 list option \<Rightarrow> u8 list" where
  "map_stop_reason r =
     (case r of
        None \<Rightarrow> ascii ''end_turn''
      | Some f \<Rightarrow>
          if f = ascii ''length'' then ascii ''max_tokens''
          else if f = ascii ''tool_calls'' then ascii ''tool_use''
          else if f = ascii ''stop'' then ascii ''end_turn'' else ascii ''error'')"

definition select_anthropic_stop_reason :: "bool \<Rightarrow> u8 list \<Rightarrow> u8 list" where
  "select_anthropic_stop_reason any_tool_use end_reason = (if any_tool_use then ascii ''tool_use'' else end_reason)"

section \<open>The stream\<close>

record ('n, 'e) streaming =
  as_parser :: "'n tool_parser option"
  as_output_tokens :: nat
  as_finish_reason :: "u8 list option"
  as_block :: "block_kind option"
  as_index :: nat
  as_any_tool_use :: bool
  as_pending :: "('n, 'e) event list"
  as_matcher :: stop_matcher
  as_stop_hit :: bool
  as_matched_stop :: "u8 list option"
  as_end_requested :: bool

definition put_blocks :: "('n, 'e) event list \<times> block_kind option \<times> nat \<Rightarrow> ('n, 'e) streaming \<Rightarrow> ('n, 'e) event list \<times> ('n, 'e) streaming" where
  "put_blocks b s = (case b of (queue, cur, i) \<Rightarrow> (queue, s\<lparr>as_block := cur, as_index := i\<rparr>))"

definition show_text :: "block_kind \<Rightarrow> u8 list \<Rightarrow> ('n, 'e) event list \<times> ('n, 'e) streaming \<Rightarrow> ('n, 'e) event list \<times> ('n, 'e) streaming" where
  "show_text k t qs = (case qs of (q, s) \<Rightarrow> put_blocks (enqueue_text_or_thinking_delta k t (q, as_block s, as_index s)) s)"

text \<open>Text through the matcher: the part to show, and the mark of a match.\<close>

definition show_matched :: "u8 list \<Rightarrow> ('n, 'e) event list \<times> ('n, 'e) streaming \<Rightarrow> ('n, 'e) event list \<times> ('n, 'e) streaming" where
  "show_matched t qs =
     (case qs of (q, s) \<Rightarrow>
        (case sm_push t (as_matcher s) of
           (m, pushed) \<Rightarrow>
             (case (if sp_emit pushed \<noteq> [] then show_text TextBlock (sp_emit pushed) (q, s\<lparr>as_matcher := m\<rparr>) else (q, s\<lparr>as_matcher := m\<rparr>)) of
                (q, s) \<Rightarrow>
                  (q, if sp_stopped pushed
                      then s\<lparr>as_stop_hit := True, as_end_requested := True, as_matched_stop := sp_matched pushed\<rparr> else s))))"

definition show_call :: "('n jmap \<Rightarrow> u8 list option) \<Rightarrow> 'n parsed_tool_call \<Rightarrow> ('n, 'e) event list \<times> ('n, 'e) streaming \<Rightarrow> ('n, 'e) event list \<times> ('n, 'e) streaming" where
  "show_call to_str c qs =
     (case qs of (q, s) \<Rightarrow>
        (case put_blocks (enqueue_tool_use_block to_str c (q, as_block s, as_index s)) s of (q, s) \<Rightarrow> (q, s\<lparr>as_any_tool_use := True\<rparr>)))"

text \<open>The text and the calls a piece frees; \<^term>\<open>None\<close> is a panic of the parser.\<close>

definition feed_parser ::
  "'n packages \<Rightarrow> generation_token \<Rightarrow> ('n, 'e) streaming \<Rightarrow> (u8 list option \<times> 'n parsed_tool_call list \<times> ('n, 'e) streaming) option" where
  "feed_parser P tok s =
     (case as_parser s of
        None \<Rightarrow> Some (Some (gt_piece tok), [], s)
      | Some p \<Rightarrow>
          (case tp_push P (gt_piece tok) p of
             None \<Rightarrow> None
           | Some p \<Rightarrow>
               Some (if tp_passthrough p = [] then None else Some (tp_passthrough p), tp_parsed p,
                     s\<lparr>as_parser := Some (fst (take_parsed (p\<lparr>tp_passthrough := []\<rparr>)))\<rparr>)))"

definition show_drained :: "generation_token \<Rightarrow> u8 list option \<Rightarrow> ('n, 'e) streaming \<Rightarrow> ('n, 'e) event list \<times> ('n, 'e) streaming" where
  "show_drained tok txt s =
     (let kind = (if gt_is_thinking tok then ThinkingBlock else TextBlock) in
      case txt of
        None \<Rightarrow> ([], s)
      | Some t \<Rightarrow> if kind = TextBlock \<and> sm_is_active (as_matcher s) then show_matched t ([], s) else show_text kind t ([], s))"

definition handle_piece ::
  "'n packages \<Rightarrow> ('n jmap \<Rightarrow> u8 list option) \<Rightarrow> generation_token \<Rightarrow> ('n, 'e) streaming \<Rightarrow>
   (('n, 'e) event list \<times> ('n, 'e) streaming) option" where
  "handle_piece P to_str tok s =
     (case feed_parser P tok s of
        None \<Rightarrow> None
      | Some (txt, calls, s) \<Rightarrow>
          (case show_drained tok txt s of
             (q, s) \<Rightarrow> Some (fold (show_call to_str) (if as_stop_hit s then [] else calls) (q, s))))"

datatype ('n, 'e) pulled =
    Yield "('n, 'e) event" "('n, 'e) streaming" "('e + generation_token) list"
  | Ended "('n, 'e) streaming"
  | Broken 'e
  | Panicked

definition note_token :: "generation_token \<Rightarrow> ('n, 'e) streaming \<Rightarrow> ('n, 'e) streaming" where
  "note_token tok s =
     s\<lparr>as_output_tokens := (if counts_toward_usage tok then as_output_tokens s + 1 else as_output_tokens s),
       as_finish_reason := (if gt_done tok then gt_finish_reason tok else as_finish_reason s)\<rparr>"

fun pull_loop ::
  "'n packages \<Rightarrow> ('n jmap \<Rightarrow> u8 list option) \<Rightarrow> ('e + generation_token) list \<Rightarrow> ('n, 'e) streaming \<Rightarrow> ('n, 'e) pulled" where
  "pull_loop P to_str [] s = Ended s"
| "pull_loop P to_str (Inl e # items) s = Broken e"
| "pull_loop P to_str (Inr tok # items) s =
     (let s = note_token tok s in
      if as_stop_hit s \<or> gt_piece tok = [] then
        (if gt_done tok then Ended s else pull_loop P to_str items s)
      else (case handle_piece P to_str tok s of
          None \<Rightarrow> Panicked
        | Some (ev # q, s) \<Rightarrow> Yield ev (s\<lparr>as_pending := q\<rparr>) items
        | Some ([], s) \<Rightarrow> if gt_done tok then Ended s else pull_loop P to_str items s))"

definition close_message :: "('n, 'e) event list \<times> ('n, 'e) streaming \<Rightarrow> ('n, 'e) event list" where
  "close_message qs =
     (case qs of (q, s) \<Rightarrow>
        let no_block_ever_opened = (as_block s = None \<and> as_index s = 0);
            need_trailing_stop = (as_block s \<noteq> None \<or> no_block_ever_opened);
            reason = (if as_stop_hit s \<and> \<not> as_any_tool_use s then (ascii ''stop_sequence'', as_matched_stop s)
              else (select_anthropic_stop_reason (as_any_tool_use s) (map_stop_reason (as_finish_reason s)), None))
        in q @ (if no_block_ever_opened then [BlockStart 0 TextBlock] else []) @ (if need_trailing_stop then [BlockStop (as_index s)] else [])
             @ [MessageDelta (fst reason) (snd reason) (as_output_tokens s), MessageStop])"

definition drain_parser :: "'n packages \<Rightarrow> ('n jmap \<Rightarrow> u8 list option) \<Rightarrow> ('n, 'e) streaming \<Rightarrow> ('n, 'e) event list \<times> ('n, 'e) streaming" where
  "drain_parser P to_str s =
     (case as_parser s of
        None \<Rightarrow> ([], s)
      | Some p \<Rightarrow>
          let p = (if as_stop_hit s then p else tp_finalize P p);
              t = tp_passthrough p;
              (q, s1) = (if t \<noteq> [] \<and> \<not> as_stop_hit s then
                  (if as_block s = Some ThinkingBlock then show_text ThinkingBlock t ([], s)
                   else if sm_is_active (as_matcher s) then show_matched t ([], s) else show_text TextBlock t ([], s))
                else ([], s))
          in fold (show_call to_str) (if as_stop_hit s1 then [] else tp_parsed p) (q, s1))"

definition epilogue :: "'n packages \<Rightarrow> ('n jmap \<Rightarrow> u8 list option) \<Rightarrow> ('n, 'e) streaming \<Rightarrow> ('n, 'e) event list" where
  "epilogue P to_str s =
     (case drain_parser P to_str s of
        (q, s) \<Rightarrow>
          close_message
            (if \<not> as_stop_hit s \<and> sm_is_active (as_matcher s) then
               (case sm_finalize (as_matcher s) of
                  (m, tail) \<Rightarrow> if tail \<noteq> [] then show_text TextBlock tail (q, s\<lparr>as_matcher := m\<rparr>) else (q, s\<lparr>as_matcher := m\<rparr>))
             else (q, s)))"

datatype ('n, 'e) anthropic_state =
    Streaming "('n, 'e) streaming" "('e + generation_token) list"
  | Epilogue "('n, 'e) event list"
  | Finished

datatype ('n, 'e) polled = Ready "('n, 'e) event" "('n, 'e) anthropic_state" | Exhausted | PollPanics

definition poll_events :: "('n, 'e) event list \<Rightarrow> ('n, 'e) polled" where
  "poll_events es = (case es of [] \<Rightarrow> Exhausted | [ev] \<Rightarrow> Ready ev Finished | ev # es \<Rightarrow> Ready ev (Epilogue es))"

definition poll_next :: "'n packages \<Rightarrow> ('n jmap \<Rightarrow> u8 list option) \<Rightarrow> ('n, 'e) anthropic_state \<Rightarrow> ('n, 'e) polled" where
  "poll_next P to_str st =
     (case st of
        Finished \<Rightarrow> Exhausted
      | Epilogue es \<Rightarrow> poll_events es
      | Streaming s items \<Rightarrow>
          (case as_pending s of
             ev # q \<Rightarrow> Ready ev (Streaming (s\<lparr>as_pending := q\<rparr>) items)
           | [] \<Rightarrow>
               (case pull_loop P to_str items s of
                  Yield ev s items \<Rightarrow> Ready ev (Streaming s items)
                | Broken e \<Rightarrow> Ready (ErrorEvent e) Finished
                | Panicked \<Rightarrow> PollPanics
                | Ended s \<Rightarrow> poll_events (epilogue P to_str s))))"

text \<open>The whole stream, and whether it panicked.\<close>

fun poll_size :: "('n, 'e) anthropic_state \<Rightarrow> nat \<times> nat \<times> nat" where
  "poll_size (Streaming s items) = (2, length items, length (as_pending s))"
| "poll_size (Epilogue es) = (1, 0, length es)"
| "poll_size Finished = (0, 0, 0)"

lemma pull_loop_shorter: "pull_loop P to_str items s = Yield ev t items' \<Longrightarrow> length items' < length items"
proof (induction items arbitrary: s)
  case (Cons item items)
  from Cons.prems show ?case
    by (cases item) (auto simp: Let_def split: if_splits option.splits list.splits dest!: Cons.IH)
qed simp

lemma poll_events_smaller: "poll_events es = Ready ev t \<Longrightarrow> (poll_size t, (2, k, l)) \<in> less_than <*lex*> less_than <*lex*> less_than \<and>
    (poll_size t, poll_size (Epilogue es)) \<in> less_than <*lex*> less_than <*lex*> less_than"
  by (auto simp: poll_events_def split: list.splits)

lemma poll_smaller: "poll_next P to_str st = Ready ev t \<Longrightarrow> (poll_size t, poll_size st) \<in> less_than <*lex*> less_than <*lex*> less_than"
  using poll_events_smaller [of _ ev t]
  by (auto simp: poll_next_def split: anthropic_state.splits list.splits pulled.splits dest: pull_loop_shorter)

function drive :: "'n packages \<Rightarrow> ('n jmap \<Rightarrow> u8 list option) \<Rightarrow> ('n, 'e) anthropic_state \<Rightarrow> ('n, 'e) event list \<times> bool" where
  "drive P to_str st =
     (case poll_next P to_str st of
        Exhausted \<Rightarrow> ([], False)
      | PollPanics \<Rightarrow> ([], True)
      | Ready ev t \<Rightarrow> (case drive P to_str t of (es, x) \<Rightarrow> (ev # es, x)))"
  by pat_completeness auto
termination
  by (relation "inv_image (less_than <*lex*> less_than <*lex*> less_than) (\<lambda>(P, j, st). poll_size st)") (auto intro: poll_smaller dest: sym)

declare drive.simps [simp del]

definition streaming_new :: "tool_call_format option \<Rightarrow> stop_matcher \<Rightarrow> ('n, 'e) streaming" where
  "streaming_new fmt m =
     \<lparr>as_parser = map_option tp_new fmt, as_output_tokens = 0, as_finish_reason = None, as_block = None, as_index = 0,
      as_any_tool_use = False, as_pending = [], as_matcher = m, as_stop_hit = False, as_matched_stop = None,
      as_end_requested = False\<rparr>"

text \<open>\<open>Inl e\<close> is the error response of a generation whose first item is an error.\<close>

definition generate_streaming ::
  "'n packages \<Rightarrow> ('n jmap \<Rightarrow> u8 list option) \<Rightarrow> tool_call_format option \<Rightarrow> stop_matcher \<Rightarrow> ('e + generation_token) list \<Rightarrow>
   'e + (('n, 'e) event list \<times> bool)" where
  "generate_streaming P to_str fmt m items =
     (case items of
        Inl e # _ \<Rightarrow> Inl e
      | _ \<Rightarrow> (case drive P to_str (Streaming (streaming_new fmt m) items) of (es, x) \<Rightarrow> Inr (MessageStart # Ping # es, x)))"

end
