(* ===== verification/AnthropicProps.thy ===== *)
theory AnthropicProps
  imports AnthropicStream
begin

text \<open>
  The event protocol of the streamed reply, as an automaton, and what every reply of
  \<^verbatim>\<open>anthropic/streaming.rs\<close> has of it.
\<close>

section \<open>The protocol\<close>

text \<open>
  Between blocks the next index is the number of blocks so far; a text or thinking block takes
  any number of non-empty deltas of its own kind, a tool block exactly one; a message ends after
  at least one block, and an error may end it where no tool block is open.
\<close>

datatype protocol =
    Opening | Started | Between nat | InBlock block_kind nat | ToolOpen nat | ToolFull nat | Closing | Ended_ok | Ended_error

definition proto_step :: "protocol \<Rightarrow> ('n, 'e) event \<Rightarrow> protocol option" where
  "proto_step p ev =
     (case p of
        Opening \<Rightarrow> (case ev of MessageStart \<Rightarrow> Some Started | _ \<Rightarrow> None)
      | Started \<Rightarrow> (case ev of Ping \<Rightarrow> Some (Between 0) | _ \<Rightarrow> None)
      | Between i \<Rightarrow>
          (case ev of
             BlockStart j k \<Rightarrow> if j = i then Some (InBlock k i) else None
           | ToolStart j _ _ \<Rightarrow> if j = i then Some (ToolOpen i) else None
           | MessageDelta _ _ _ \<Rightarrow> if 0 < i then Some Closing else None
           | ErrorEvent _ \<Rightarrow> Some Ended_error
           | _ \<Rightarrow> None)
      | InBlock k i \<Rightarrow>
          (case ev of
             BlockDelta j k' t \<Rightarrow> if j = i \<and> k' = k \<and> t \<noteq> [] then Some (InBlock k i) else None
           | BlockStop j \<Rightarrow> if j = i then Some (Between (i + 1)) else None
           | ErrorEvent _ \<Rightarrow> Some Ended_error
           | _ \<Rightarrow> None)
      | ToolOpen i \<Rightarrow> (case ev of InputDelta j _ \<Rightarrow> if j = i then Some (ToolFull i) else None | _ \<Rightarrow> None)
      | ToolFull i \<Rightarrow> (case ev of BlockStop j \<Rightarrow> if j = i then Some (Between (i + 1)) else None | _ \<Rightarrow> None)
      | Closing \<Rightarrow> (case ev of MessageStop \<Rightarrow> Some Ended_ok | _ \<Rightarrow> None)
      | _ \<Rightarrow> None)"

fun proto_run :: "protocol \<Rightarrow> ('n, 'e) event list \<Rightarrow> protocol option" where
  "proto_run p [] = Some p"
| "proto_run p (ev # es) = (case proto_step p ev of None \<Rightarrow> None | Some q \<Rightarrow> proto_run q es)"

lemma proto_run_append: "proto_run p (xs @ ys) = Option.bind (proto_run p xs) (\<lambda>q. proto_run q ys)"
  by (induction xs arbitrary: p) (auto split: option.split)

definition place :: "block_kind option \<Rightarrow> nat \<Rightarrow> protocol" where
  "place cur i = (case cur of None \<Rightarrow> Between i | Some k \<Rightarrow> InBlock k i)"

definition tracks :: "protocol \<Rightarrow> ('n, 'e) event list \<times> ('n, 'e) streaming \<Rightarrow> bool" where
  "tracks p qs \<longleftrightarrow> proto_run p (fst qs) = Some (place (as_block (snd qs)) (as_index (snd qs)))"

lemma show_text_tracks: "tracks p qs \<Longrightarrow> t \<noteq> [] \<Longrightarrow> tracks p (show_text k t qs)"
  by (cases qs; cases "as_block (snd qs)")
    (auto simp: tracks_def show_text_def put_blocks_def enqueue_text_or_thinking_delta_def proto_run_append place_def proto_step_def)

lemma show_call_tracks: "tracks p qs \<Longrightarrow> tracks p (show_call j c qs)"
  by (cases qs; cases "as_block (snd qs)")
    (auto simp: tracks_def show_call_def put_blocks_def enqueue_tool_use_block_def proto_run_append place_def proto_step_def)

lemma tracks_update [simp]:
  "tracks p (q, s\<lparr>as_matcher := m\<rparr>) = tracks p (q, s)" "tracks p (q, s\<lparr>as_parser := r\<rparr>) = tracks p (q, s)"
  "tracks p (q, s\<lparr>as_stop_hit := a, as_end_requested := b, as_matched_stop := c\<rparr>) = tracks p (q, s)"
  "tracks p (q, s\<lparr>as_pending := l\<rparr>) = tracks p (q, s)"
  by (simp_all add: tracks_def)

lemma show_matched_tracks: "tracks p qs \<Longrightarrow> tracks p (show_matched t qs)"
  by (cases qs) (auto simp: show_matched_def show_text_tracks split: prod.split,
      (metis show_text_tracks tracks_update(1) tracks_update(3))+)

lemma fold_calls_tracks: "tracks p qs \<Longrightarrow> tracks p (fold (show_call j) cs qs)"
  by (induction cs arbitrary: qs) (simp_all add: show_call_tracks)

section \<open>What a poll does to it\<close>

lemma feed_parser_place:
  assumes "feed_parser P tok s = Some (tx, calls, s1)" "gt_piece tok \<noteq> []"
  shows "as_block s1 = as_block s \<and> as_index s1 = as_index s \<and> tx \<noteq> Some []"
  using assms by (auto simp: feed_parser_def split: option.splits if_splits)

lemma show_drained_tracks:
  assumes "tx \<noteq> Some []"
  shows "tracks (place (as_block s) (as_index s)) (show_drained tok tx s)"
proof -
  have "tracks (place (as_block s) (as_index s)) ([], s)" by (simp add: tracks_def)
  with assms show ?thesis
    by (auto simp: show_drained_def Let_def show_matched_tracks show_text_tracks split: option.split)
qed

lemma handle_piece_tracks:
  assumes "handle_piece P j tok s = Some qs" "gt_piece tok \<noteq> []"
  shows "tracks (place (as_block s) (as_index s)) qs"
proof -
  from assms(1) obtain tx calls s1 where f: "feed_parser P tok s = Some (tx, calls, s1)"
    and qs: "qs = fold (show_call j) (if as_stop_hit (snd (show_drained tok tx s1)) then [] else calls) (show_drained tok tx s1)"
    by (auto simp: handle_piece_def split: option.splits prod.splits)
  from feed_parser_place [OF f assms(2)] show_drained_tracks [of tx s1 tok] show ?thesis
    unfolding qs by (intro fold_calls_tracks) simp
qed

lemma pull_loop_items: "pull_loop P j items s = Yield ev t items' \<Longrightarrow> set items' \<subseteq> set items"
proof (induction items arbitrary: s)
  case (Cons item items)
  from Cons.prems show ?case
    by (cases item) (auto simp: Let_def split: if_splits option.splits list.splits dest!: Cons.IH)
qed simp

lemma note_token_place [simp]: "as_block (note_token tok s) = as_block s" "as_index (note_token tok s) = as_index s"
  "as_pending (note_token tok s) = as_pending s" "as_parser (note_token tok s) = as_parser s"
  by (simp_all add: note_token_def)

lemma pull_loop_tracks:
  "(case pull_loop P j items s of
      Yield ev t _ \<Rightarrow> proto_run (place (as_block s) (as_index s)) (ev # as_pending t) = Some (place (as_block t) (as_index t))
    | Ended t \<Rightarrow> place (as_block t) (as_index t) = place (as_block s) (as_index s)
    | Broken e \<Rightarrow> Inl e \<in> set items
    | Panicked \<Rightarrow> True)"
proof (induction items arbitrary: s)
  case (Cons item items)
  show ?case
  proof (cases item)
    case (Inr tok)
    let ?s = "note_token tok s"
    show ?thesis
    proof (cases "as_stop_hit ?s \<or> gt_piece tok = []")
      case True
      with Inr have eq: "pull_loop P j (item # items) s = (if gt_done tok then Ended ?s else pull_loop P j items ?s)"
        by (simp add: Let_def)
      show ?thesis unfolding eq using Cons.IH [of ?s] by (auto split: pulled.splits if_splits)
    next
      case False
      show ?thesis
      proof (cases "handle_piece P j tok ?s")
        case None
        with Inr False show ?thesis by simp
      next
        case (Some qs)
        obtain q t where qs: "qs = (q, t)" by force
        have "tracks (place (as_block s) (as_index s)) (q, t)"
          using handle_piece_tracks [OF Some] False qs by simp
        then have r: "proto_run (place (as_block s) (as_index s)) q = Some (place (as_block t) (as_index t))"
          by (simp add: tracks_def)
        show ?thesis
        proof (cases q)
          case Nil
          with r have "place (as_block t) (as_index t) = place (as_block s) (as_index s)" by simp
          with Inr False Some qs Nil Cons.IH [of t] show ?thesis by (auto split: pulled.splits)
        next
          case (Cons ev q')
          with Inr False Some qs r show ?thesis by (cases "proto_step (place (as_block s) (as_index s)) ev") simp_all
        qed
      qed
    qed
  qed simp
qed simp

text \<open>Only the Gemma reader can panic.\<close>

definition may_panic :: "('n, 'e) streaming \<Rightarrow> bool" where
  "may_panic s \<longleftrightarrow> map_option tp_format (as_parser s) = Some GemmaToolCall"

lemma json_block_total: "finalize_block P body JsonBlock p \<noteq> None"
  by (auto simp: finalize_block_def of_option_def split: option.split prod.split)

lemma json_loop_total: "delimited_loop P JsonBlock p \<noteq> None"
proof (induction P JsonBlock p rule: delimited_loop.induct)
  case (1 P p)
  show ?case
  proof (cases "delimited_step P JsonBlock p")
    case Crash
    then obtain body q where "finalize_block P body JsonBlock q = None"
      by (auto simp: delimited_step_def Let_def split: parser_state.splits option.splits)
    with json_block_total show ?thesis by metis
  next
    case (Again t)
    then show ?thesis using 1 [OF Again] unfolding delimited_loop.simps [of P JsonBlock p] by simp
  next
    case (Halt t)
    then show ?thesis unfolding delimited_loop.simps [of P JsonBlock p] by simp
  qed
qed

lemma tp_push_total: "tp_push P x p = None \<Longrightarrow> tp_format p = GemmaToolCall"
  using json_loop_total [where P = P]
  by (cases "tp_format p") (simp_all add: tp_push_def push_delimited_def del: not_None_eq split: if_splits)

lemma feed_parser_panic:
  "feed_parser P tok s = None \<Longrightarrow> may_panic s" "feed_parser P tok s = Some (tx, calls, t) \<Longrightarrow> may_panic t = may_panic s"
proof -
  show "feed_parser P tok s = None \<Longrightarrow> may_panic s"
    by (auto simp: feed_parser_def may_panic_def dest: tp_push_total split: option.splits)
  assume f: "feed_parser P tok s = Some (tx, calls, t)"
  show "may_panic t = may_panic s"
  proof (cases "as_parser s")
    case (Some p)
    then obtain q where q: "tp_push P (gt_piece tok) p = Some q"
      and t: "t = s\<lparr>as_parser := Some (fst (take_parsed (q\<lparr>tp_passthrough := []\<rparr>)))\<rparr>"
      using f by (auto simp: feed_parser_def split: option.splits)
    from Some tp_push_format [OF q] show ?thesis by (simp add: t may_panic_def take_parsed_def)
  qed (use f in \<open>auto simp: feed_parser_def\<close>)
qed

lemma show_panic [simp]: "may_panic (snd (show_text k t qs)) = may_panic (snd qs)" "may_panic (snd (show_call j c qs)) = may_panic (snd qs)"
  "may_panic (snd (show_matched t qs)) = may_panic (snd qs)"
  by (cases qs; simp add: show_text_def show_call_def show_matched_def put_blocks_def may_panic_def split: prod.split)+

lemma fold_calls_panic: "may_panic (snd (fold (show_call j) cs qs)) = may_panic (snd qs)"
  by (induction cs arbitrary: qs) simp_all

lemma handle_piece_panic:
  "handle_piece P j tok s = None \<Longrightarrow> may_panic s" "handle_piece P j tok s = Some qs \<Longrightarrow> may_panic (snd qs) = may_panic s"
proof -
  show "handle_piece P j tok s = None \<Longrightarrow> may_panic s"
    using feed_parser_panic(1) [of P tok s] by (auto simp: handle_piece_def split: option.splits prod.splits)
  assume "handle_piece P j tok s = Some qs"
  then obtain tx calls s1 where f: "feed_parser P tok s = Some (tx, calls, s1)"
    and qs: "qs = fold (show_call j) (if as_stop_hit (snd (show_drained tok tx s1)) then [] else calls) (show_drained tok tx s1)"
    by (auto simp: handle_piece_def split: option.splits prod.splits)
  have "may_panic (snd (show_drained tok tx s1)) = may_panic s1" by (simp add: show_drained_def Let_def split: option.split)
  with feed_parser_panic(2) [OF f] show "may_panic (snd qs) = may_panic s" unfolding qs fold_calls_panic by simp
qed

lemma pull_loop_panic:
  "pull_loop P j items s = Panicked \<Longrightarrow> may_panic s" "pull_loop P j items s = Yield ev t items' \<Longrightarrow> may_panic t = may_panic s"
proof (induction items arbitrary: s)
  case (Cons item items)
  have n: "may_panic (note_token tok t) = may_panic t" for tok t by (simp add: may_panic_def)
  have p: "may_panic (t\<lparr>as_pending := q\<rparr>) = may_panic t" for t q by (simp add: may_panic_def)
  have h: "may_panic t' = may_panic t" if "handle_piece P j tok (note_token tok t) = Some (q, t')" for tok t q t'
    using handle_piece_panic(2) [OF that] by (simp add: n)
  { case 1
    then show ?case by (cases item)
      (auto simp: Let_def n split: if_splits option.splits list.splits dest!: Cons.IH(1) dest: handle_piece_panic) }
  { case 2
    then show ?case by (cases item)
      (auto simp: Let_def n p split: if_splits option.splits list.splits dest!: Cons.IH(2) dest!: h) }
qed simp_all

lemma drain_parser_tracks: "tracks (place (as_block s) (as_index s)) (drain_parser P j s)"
proof -
  have s: "tracks (place (as_block s) (as_index s)) ([], s)" by (simp add: tracks_def)
  then show ?thesis
    by (auto simp: drain_parser_def Let_def show_matched_tracks show_text_tracks
        intro!: fold_calls_tracks split: option.split prod.split) (metis s show_matched_tracks show_text_tracks)+
qed

lemma close_message_ends:
  assumes "tracks p qs"
  shows "proto_run p (close_message qs) = Some Ended_ok"
  using assms by (cases qs; cases "as_block (snd qs)"; cases "as_index (snd qs)")
    (auto simp: close_message_def tracks_def Let_def proto_run_append place_def proto_step_def)

lemma epilogue_ends: "proto_run (place (as_block s) (as_index s)) (epilogue P j s) = Some Ended_ok"
proof -
  obtain q t where d: "drain_parser P j s = (q, t)" by force
  have "tracks (place (as_block s) (as_index s)) (q, t)" using drain_parser_tracks [of s P j] d by simp
  then show ?thesis
    by (auto simp: epilogue_def d show_text_tracks split: prod.split intro!: close_message_ends)
qed

lemma drive_epilogue: "drive P j (Epilogue es) = (es, False)"
proof (induction es rule: induct_list012)
  case 1
  show ?case by (simp add: drive.simps [of P j "Epilogue []"] poll_next_def poll_events_def)
next
  case (2 x)
  show ?case by (simp add: drive.simps [of P j "Epilogue [x]"] drive.simps [of P j Finished] poll_next_def poll_events_def)
next
  case (3 x y zs)
  then show ?case by (simp add: drive.simps [of P j "Epilogue (x # y # zs)"] poll_next_def poll_events_def)
qed

lemma drive_streaming:
  assumes "drive P j (Streaming s items) = (es, x)" "proto_run p (as_pending s) = Some (place (as_block s) (as_index s))"
  shows "if x then proto_run p es \<noteq> None \<and> may_panic s
    else proto_run p es = Some Ended_ok \<or> proto_run p es = Some Ended_error \<and> (\<exists>e. Inl e \<in> set items)"
  using assms
proof (induction "poll_size (Streaming s items)" arbitrary: s items es p
    rule: wf_induct_rule [OF wf_lex_prod [OF wf_less_than wf_lex_prod [OF wf_less_than wf_less_than]]])
  case (1 s items es p)
  note IH = 1(1) and d = 1(2) and t = 1(3)
  show ?case
  proof (cases "as_pending s")
    case (Cons ev q)
    have n: "poll_next P j (Streaming s items) = Ready ev (Streaming (s\<lparr>as_pending := q\<rparr>) items)"
      using Cons by (simp add: poll_next_def)
    obtain es' where e: "drive P j (Streaming (s\<lparr>as_pending := q\<rparr>) items) = (es', x)" "es = ev # es'"
      using d unfolding drive.simps [of P j "Streaming s items"] n by (auto split: prod.splits)
    from t Cons obtain p' where p: "proto_step p ev = Some p'" "proto_run p' q = Some (place (as_block s) (as_index s))"
      by (auto split: option.splits)
    have m: "may_panic (s\<lparr>as_pending := q\<rparr>) = may_panic s" by (simp add: may_panic_def)
    from IH [of "s\<lparr>as_pending := q\<rparr>" items es' p'] e(1) p(2) poll_smaller [OF n] p(1) e(2) show ?thesis
      by (auto simp: m split: if_splits)
  next
    case Nil
    with t have p: "p = place (as_block s) (as_index s)" by simp
    note L = pull_loop_tracks [where P = P and j = j and items = items and s = s]
    show ?thesis
    proof (cases "pull_loop P j items s")
      case (Yield ev s' items')
      have n: "poll_next P j (Streaming s items) = Ready ev (Streaming s' items')" using Nil Yield by (simp add: poll_next_def)
      obtain es' where e: "drive P j (Streaming s' items') = (es', x)" "es = ev # es'"
        using d unfolding drive.simps [of P j "Streaming s items"] n by (auto split: prod.splits)
      from L Yield obtain p' where p': "proto_step p ev = Some p'" "proto_run p' (as_pending s') = Some (place (as_block s') (as_index s'))"
        unfolding p by (auto split: option.splits)
      have sub: "set items' \<subseteq> set items" by (rule pull_loop_items [OF Yield])
      from IH [of s' items' es' p'] e(1) p'(2) poll_smaller [OF n] p'(1) e(2) sub pull_loop_panic(2) [OF Yield]
      show ?thesis by (auto split: if_splits)
    next
      case (Ended s')
      have "drive P j (Streaming s items) = drive P j (Epilogue (epilogue P j s'))"
        using Nil Ended unfolding drive.simps [of P j "Streaming s items"] drive.simps [of P j "Epilogue (epilogue P j s')"]
        by (simp add: poll_next_def)
      with d have "es = epilogue P j s'" "\<not> x" by (simp_all add: drive_epilogue)
      with epilogue_ends [of s' P j] L Ended p show ?thesis by simp
    next
      case (Broken e)
      with d Nil have "es = [ErrorEvent e]" "\<not> x"
        unfolding drive.simps [of P j "Streaming s items"] by (simp_all add: poll_next_def drive.simps [of P j Finished])
      with L Broken show ?thesis unfolding p by (cases "as_block s") (auto simp: place_def proto_step_def)
    next
      case Panicked
      with d Nil have "es = []" "x" unfolding drive.simps [of P j "Streaming s items"] by (simp_all add: poll_next_def)
      with pull_loop_panic(1) [OF Panicked] show ?thesis by simp
    qed
  qed
qed

lemma may_panic_new: "may_panic (streaming_new fmt m) \<longleftrightarrow> fmt = Some GemmaToolCall"
  by (cases fmt) (simp_all add: may_panic_def streaming_new_def tp_new_def)

lemma streaming_new_at: "as_pending (streaming_new fmt m) = []" "as_block (streaming_new fmt m) = None"
  "as_index (streaming_new fmt m) = 0" "place None 0 = Between 0"
  by (simp_all add: streaming_new_def place_def)

text \<open>C7: The streamed reply keeps the event protocol. Whatever the generation yields, the events
  of a reply open with the message and a ping, number their content blocks from 0 without gaps,
  close every block before the next one opens, put only non-empty deltas of its kind in a text
  or thinking block and one delta in a tool block, hold at least one block, and end with the
  message delta and the stop, or with one error event when the generation failed. Only a Gemma
  call can cut a reply off, by a panic of its reader, and what was sent by then still keeps the
  protocol.
\<close>

theorem anthropic_protocol:
  "case generate_streaming P to_str fmt m items of
     Inl e \<Rightarrow> \<exists>rest. items = Inl e # rest
   | Inr (es, panicked) \<Rightarrow>
       if panicked then proto_run Opening es \<noteq> None \<and> fmt = Some GemmaToolCall
       else proto_run Opening es = Some Ended_ok \<or>
         proto_run Opening es = Some Ended_error \<and> (\<exists>e. Inl e \<in> set items)"
proof (cases "\<exists>e rest. items = Inl e # rest")
  case True
  then show ?thesis by (auto simp: generate_streaming_def)
next
  case False
  obtain es x where d: "drive P to_str (Streaming (streaming_new fmt m) items) = (es, x)" by force
  have g: "generate_streaming P to_str fmt m items = Inr (MessageStart # Ping # es, x)"
    using False d by (auto simp: generate_streaming_def split: list.split sum.split)
  from drive_streaming [OF d, of "Between 0"] show ?thesis
    unfolding g by (auto simp: proto_step_def may_panic_new streaming_new_at split: if_splits)
qed

text \<open>The content of a reply: the events between the ping and the message delta.\<close>

definition no_input :: "unit jmap \<Rightarrow> u8 list option" where "no_input a = None"

definition piece_token :: "u8 list \<Rightarrow> bool \<Rightarrow> generation_token" where
  "piece_token t d = \<lparr>gt_token_id = 7, gt_piece = t, gt_done = d, gt_finish_reason = None, gt_is_thinking = False\<rparr>"

definition reply_content :: "u8 list list \<Rightarrow> u8 list list \<Rightarrow> (unit, unit) event list" where
  "reply_content stops pieces =
     (case generate_streaming no_packages no_input (Some GemmaToolCall) (sm_new stops)
         (map (\<lambda>t. Inr (piece_token t False)) pieces @ [Inr (piece_token [] True)]) of
        Inr (es, _) \<Rightarrow> drop 2 (take (length es - 2) es)
      | Inl _ \<Rightarrow> [])"

definition gemma_parts :: "u8 list list" where
  "gemma_parts = [ascii ''hi E'', gemma_reply (ascii ''a:true'')]"

section \<open>Text held back before a call\<close>

lemma drive_ready: "poll_next P j st = Ready ev st' \<Longrightarrow> drive P j st = (ev # fst (drive P j st'), snd (drive P j st'))"
  by (simp add: drive.simps [of P j st] split: prod.split)

lemma drive_pending:
  "drive P j (Streaming (s\<lparr>as_pending := q\<rparr>) items) =
     (q @ fst (drive P j (Streaming (s\<lparr>as_pending := []\<rparr>) items)), snd (drive P j (Streaming (s\<lparr>as_pending := []\<rparr>) items)))"
proof (induction q)
  case (Cons ev q)
  have "poll_next P j (Streaming (s\<lparr>as_pending := ev # q\<rparr>) items) = Ready ev (Streaming (s\<lparr>as_pending := q\<rparr>) items)"
    by (simp add: poll_next_def)
  from drive_ready [OF this] Cons.IH show ?case by simp
qed simp

lemma drive_piece:
  assumes "as_pending s = []" "\<not> as_stop_hit s" "gt_piece tok \<noteq> []"
    and h: "handle_piece P j tok (note_token tok s) = Some (q, s')" and "q \<noteq> []"
  shows "drive P j (Streaming s (Inr tok # items)) =
    (q @ fst (drive P j (Streaming (s'\<lparr>as_pending := []\<rparr>) items)), snd (drive P j (Streaming (s'\<lparr>as_pending := []\<rparr>) items)))"
proof -
  obtain ev q' where q: "q = ev # q'" using assms(5) by (cases q) auto
  have "poll_next P j (Streaming s (Inr tok # items)) = Ready ev (Streaming (s'\<lparr>as_pending := q'\<rparr>) items)"
    using assms by (simp add: poll_next_def note_token_def q)
  from drive_ready [OF this] drive_pending [where P = P and j = j and s = s' and q = q' and items = items] show ?thesis by (simp add: q)
qed

lemma drive_done:
  assumes "as_pending s = []" "gt_piece tok = []" "gt_done tok" "epilogue P j (note_token tok s) = es" "es \<noteq> []"
  shows "drive P j (Streaming s [Inr tok]) = (es, False)"
proof -
  have p: "poll_next P j (Streaming s [Inr tok]) = poll_events es"
    using assms by (simp add: poll_next_def)
  have "drive P j (Streaming s [Inr tok]) = drive P j (Epilogue es)"
    by (simp add: drive.simps [of P j "Streaming s [Inr tok]"] drive.simps [of P j "Epilogue es"] p) (simp add: poll_next_def)
  then show ?thesis by (simp add: drive_epilogue)
qed

text \<open>A new parser passes a text without \<^verbatim>\<open><\<close> through.\<close>

lemma cut_scan_all: "0x3C \<notin> set t \<Longrightarrow> cut_scan v t = length t" by (induction t) auto

lemma opener_lt: "\<exists>r. opener f = 0x3C # r"
  by (cases f) (simp_all add: opener_def marker_defs ascii_def)

lemma find_bytes_absent: "b \<notin> set t \<Longrightarrow> find_bytes (b # r) t = None"
  by (induction t) (auto simp: starts_with_def)

lemma push_text:
  assumes "0x3C \<notin> set t"
  shows "tp_push P t (tp_new f :: 'n tool_parser) = Some ((tp_new f)\<lparr>tp_passthrough := t\<rparr>)"
proof -
  obtain r where r: "opener f = 0x3C # r" using opener_lt by blast
  note no = find_bytes_absent [OF assms, of r, folded r]
  show ?thesis
  proof (cases f)
    case Qwen3XmlFunction
    have "try_consume_qwen3 P (tp_feed (tp_new f) t) = (tp_feed (tp_new f) t, False)"
      using no Qwen3XmlFunction by (simp add: try_consume_qwen3_def tp_new_def opener_def)
    from qwen3_loop_halt [OF this] Qwen3XmlFunction cut_scan_all [OF assms] show ?thesis
      by (simp add: tp_push_def flush_safe_prefix_def tp_new_def tp_feed_def Let_def)
  next
    case Qwen3JsonToolCall
    have "delimited_step P JsonBlock (tp_feed (tp_new f) t) = Halt ((tp_new f)\<lparr>tp_passthrough := t\<rparr>)"
      using no Qwen3JsonToolCall cut_scan_all [OF assms]
      by (simp add: delimited_step_def kind_markers_def opener_def tp_new_def tp_feed_def safe_flush_cut_def Let_def)
    from delimited_loop_halt [OF this] Qwen3JsonToolCall show ?thesis
      by (simp add: tp_push_def push_delimited_def tp_new_def)
  next
    case GemmaToolCall
    have "delimited_step P GemmaBlock (tp_feed (tp_new f) t) = Halt ((tp_new f)\<lparr>tp_passthrough := t\<rparr>)"
      using no GemmaToolCall cut_scan_all [OF assms]
      by (simp add: delimited_step_def kind_markers_def opener_def tp_new_def tp_feed_def safe_flush_cut_def Let_def)
    from delimited_loop_halt [OF this] GemmaToolCall show ?thesis
      by (simp add: tp_push_def push_delimited_def tp_new_def)
  qed
qed

lemma tp_finalize_idle:
  "tp_state p = Outside \<Longrightarrow> tp_pending p = [] \<Longrightarrow> tp_passthrough p = [] \<Longrightarrow> tp_parsed p = [] \<Longrightarrow>
     tp_passthrough (tp_finalize P p) = [] \<and> tp_parsed (tp_finalize P p) = []"
  by (auto simp: tp_finalize_def run_eof_recovery_def Let_def split: tool_call_format.split)

definition text_then_call :: "u8 list \<Rightarrow> u8 list \<Rightarrow> ('e + generation_token) list" where
  "text_then_call t call = [Inr (piece_token t False), Inr (piece_token call False), Inr (piece_token [] True)]"

definition call_events :: "('n jmap \<Rightarrow> u8 list option) \<Rightarrow> 'n parsed_tool_call \<Rightarrow> nat \<Rightarrow> ('n, 'e) event list" where
  "call_events to_str c i = [ToolStart i (pc_id c) (pc_name c),
     InputDelta i (case to_str (pc_arguments c) of Some t \<Rightarrow> t | None \<Rightarrow> [0x7B, 0x7D]), BlockStop i]"

lemma text_piece:
  assumes "0x3C \<notin> set t" "sm_stops (as_matcher s) \<noteq> []" "sm_push t (as_matcher s) = (m, \<lparr>sp_emit = u, sp_stopped = False, sp_matched = None\<rparr>)"
    and "u \<noteq> []" "as_parser s = Some (tp_new f)" "as_block s = None" "\<not> as_stop_hit s" "t \<noteq> []"
  shows "handle_piece P j (piece_token t False) s =
    Some ([BlockStart (as_index s) TextBlock, BlockDelta (as_index s) TextBlock u], s\<lparr>as_matcher := m, as_block := Some TextBlock\<rparr>)"
proof -
  have "tp_push P t (tp_new f) = Some ((tp_new f)\<lparr>tp_passthrough := t\<rparr>)" by (rule push_text [OF assms(1)])
  then have "feed_parser P (piece_token t False) s = Some (Some t, [], s)"
    using assms(5,8) by (simp add: feed_parser_def piece_token_def take_parsed_def tp_new_def)
  moreover have "show_drained (piece_token t False) (Some t) s =
      ([BlockStart (as_index s) TextBlock, BlockDelta (as_index s) TextBlock u], s\<lparr>as_matcher := m, as_block := Some TextBlock\<rparr>)"
    using assms(2-4,6) by (simp add: show_drained_def piece_token_def sm_is_active_def show_matched_def show_text_def put_blocks_def
      enqueue_text_or_thinking_delta_def Let_def)
  ultimately show ?thesis using assms(7) by (simp add: handle_piece_def)
qed

lemma call_piece:
  assumes "tp_push P call (tp_new f) = Some p" "tp_passthrough p = []" "tp_parsed p = [c]"
    and "as_parser s = Some (tp_new f)" "as_block s \<noteq> None" "\<not> as_stop_hit s"
  shows "handle_piece P j (piece_token call False) s =
    Some (BlockStop (as_index s) # call_events j c (Suc (as_index s)),
      s\<lparr>as_parser := Some (p\<lparr>tp_parsed := []\<rparr>), as_block := None, as_index := as_index s + 2, as_any_tool_use := True\<rparr>)"
proof -
  have e: "p\<lparr>tp_passthrough := [], tp_parsed := []\<rparr> = p\<lparr>tp_parsed := []\<rparr>" using assms(2) by simp
  have "feed_parser P (piece_token call False) s = Some (None, [c], s\<lparr>as_parser := Some (p\<lparr>tp_parsed := []\<rparr>)\<rparr>)"
    using assms(1-4) e by (simp add: feed_parser_def piece_token_def take_parsed_def)
  then show ?thesis
    using assms(5,6) by (simp add: handle_piece_def show_drained_def show_call_def put_blocks_def enqueue_tool_use_block_def call_events_def Let_def)
qed


lemma fresh_push_split:
  assumes "sm_push t (sm_new stops) = (m, \<lparr>sp_emit = u, sp_stopped = False, sp_matched = None\<rparr>)"
  shows "u @ snd (sm_finalize m) = t" "snd (sm_finalize m) \<noteq> [] \<Longrightarrow> sm_stops (sm_new stops) \<noteq> [] \<and> sm_stops m \<noteq> []"
  using assms by (auto simp: sm_push_def sm_drain_def sm_finalize_def sm_new_def Let_def split: if_splits option.splits)

lemma held_epilogue:
  assumes "as_parser s = Some p" "tp_state p = Outside" "tp_pending p = []" "tp_passthrough p = []" "tp_parsed p = []"
    and "as_block s = None" "\<not> as_stop_hit s" "sm_stops (as_matcher s) \<noteq> []" "snd (sm_finalize (as_matcher s)) = e" "e \<noteq> []"
    and "as_any_tool_use s"
  shows "epilogue P j s = [BlockStart (as_index s) TextBlock, BlockDelta (as_index s) TextBlock e, BlockStop (as_index s),
     MessageDelta (ascii ''tool_use'') None (as_output_tokens s), MessageStop]"
proof -
  have "drain_parser P j s = ([], s)"
    using tp_finalize_idle [OF assms(2-5), of P] assms(1,7) by (simp add: drain_parser_def Let_def)
  moreover obtain m' where "sm_finalize (as_matcher s) = (m', e)" using assms(9) by (cases "sm_finalize (as_matcher s)") auto
  ultimately show ?thesis using assms(6-8,10,11)
    by (simp add: epilogue_def sm_is_active_def show_text_def put_blocks_def enqueue_text_or_thinking_delta_def close_message_def
        select_anthropic_stop_reason_def Let_def)
qed


definition end_call :: "unit parsed_tool_call" where
  "end_call = \<lparr>pc_id = new_call_id no_packages 0, pc_name = ascii ''f'', pc_arguments = [(ascii ''a'', JBool True)]\<rparr>"


end
