(* ===== verification/AnthropicText.thy ===== *)
theory AnthropicText
  imports AnthropicProps
begin

text \<open>
  The text of the streamed Anthropic reply against the text the non-streaming route keeps: the
  stream and the content gate of \<^verbatim>\<open>stop_matcher.rs\<close> run side by side.
\<close>

section \<open>The text of the events\<close>

fun event_text :: "('n, 'e) event \<Rightarrow> u8 list" where
  "event_text (BlockDelta i k t) = (if k = TextBlock then t else [])"
| "event_text _ = []"

definition events_text :: "('n, 'e) event list \<Rightarrow> u8 list" where "events_text es = concat (map event_text es)"

lemma events_text_simps [simp]: "events_text [] = []" "events_text (e # es) = event_text e @ events_text es"
  "events_text (xs @ ys) = events_text xs @ events_text ys"
  by (simp_all add: events_text_def)

text \<open>The pieces the gate of the non-streaming route is given.\<close>

definition text_pieces :: "generation_token list \<Rightarrow> u8 list list" where
  "text_pieces toks = map gt_piece (filter (\<lambda>t. gt_piece t \<noteq> [] \<and> \<not> gt_is_thinking t) toks)"

section \<open>Stream and gate\<close>

definition gated :: "('n, 'e) streaming \<Rightarrow> content_gate \<Rightarrow> bool" where
  "gated s g \<longleftrightarrow> as_parser s = None \<and> as_matcher s = cg_matcher g \<and> (as_stop_hit s \<longleftrightarrow> cg_matched g \<noteq> None) \<and>
     (sm_is_active (as_matcher s) \<or> sm_pending (as_matcher s) = [] \<and> \<not> sm_done (as_matcher s) \<and> \<not> as_stop_hit s)"

lemma cg_push_from: "cg_push p (g, x) = (fst (cg_push p (g, [])), x @ snd (cg_push p (g, [])))"
  by (simp add: cg_push_def Let_def split: prod.split)

lemma cg_flush_from: "snd (cg_flush (g, x)) = x @ snd (cg_flush (g, []))"
  by (simp add: cg_flush_def split: prod.split)

lemma fold_push_from: "snd (cg_flush (fold cg_push ps (g, x))) = x @ snd (gate_run ps g)"
proof (induction ps arbitrary: g x)
  case Nil
  show ?case by (simp add: gate_run_def cg_flush_from [of g x])
next
  case (Cons p ps)
  obtain g' y where y: "cg_push p (g, []) = (g', y)" by force
  with cg_push_from [of p g x] have "cg_push p (g, x) = (g', x @ y)" by simp
  with Cons.IH [of g' "x @ y"] Cons.IH [of g' y] y show ?case by (simp add: gate_run_def)
qed

lemma gate_run_Cons: "snd (gate_run (p # ps) g) = snd (cg_push p (g, [])) @ snd (gate_run ps (fst (cg_push p (g, []))))"
proof -
  obtain g' y where y: "cg_push p (g, []) = (g', y)" by force
  with fold_push_from [of ps g' y] show ?thesis by (simp add: gate_run_def)
qed

lemma gate_run_matched: "cg_matched g \<noteq> None \<Longrightarrow> snd (gate_run ps g) = []"
  using gate_matched [of g ps "[]"] by (auto simp: gate_run_def cg_flush_def)

lemma show_text_of: "show_text k t (q, s) = (q', s') \<Longrightarrow>
    events_text q' = events_text q @ (if k = TextBlock then t else []) \<and> s' = s\<lparr>as_block := as_block s', as_index := as_index s'\<rparr>"
  by (cases s; cases "as_block s") (auto simp: show_text_def put_blocks_def enqueue_text_or_thinking_delta_def split: if_splits)

lemma sm_drain_stopped: "sp_stopped (snd (sm_drain m)) \<longleftrightarrow> sp_matched (snd (sm_drain m)) \<noteq> None"
  by (simp add: sm_drain_def Let_def split: option.split)

lemma sm_push_stopped: "sm_push t m = (m', p) \<Longrightarrow> sp_stopped p \<longleftrightarrow> sp_matched p \<noteq> None"
  using sm_drain_stopped [of "m\<lparr>sm_pending := sm_pending m @ t\<rparr>"]
  by (auto simp: sm_push_def stop_push_default_def split: if_splits)

lemma sm_push_active: "sm_push t m = (m', p) \<Longrightarrow> sm_is_active m' = sm_is_active m"
  by (auto simp: sm_push_def sm_is_active_def sm_drain_def Let_def split: if_splits option.splits)

lemma show_matched_gated:
  assumes g: "gated s g" and n: "cg_matched g = None" and a: "sm_is_active (as_matcher s)"
    and r: "show_matched t ([], s) = (q, s')"
  shows "gated s' (fst (cg_push t (g, []))) \<and> events_text q = snd (cg_push t (g, []))"
proof -
  obtain m p where m: "sm_push t (cg_matcher g) = (m, p)" by force
  obtain q1 s1 where q1: "(if sp_emit p \<noteq> [] then show_text TextBlock (sp_emit p) ([], s\<lparr>as_matcher := m\<rparr>) else ([], s\<lparr>as_matcher := m\<rparr>)) = (q1, s1)"
    by force
  then have t1: "events_text q1 = sp_emit p" and s1: "s1 = s\<lparr>as_matcher := m, as_block := as_block s1, as_index := as_index s1\<rparr>"
    using show_text_of [of TextBlock "sp_emit p" "[]" "s\<lparr>as_matcher := m\<rparr>" q1 s1]
    by (auto split: if_splits)
  from r g m q1 have qs: "q = q1" "s' = (if sp_stopped p
      then s1\<lparr>as_stop_hit := True, as_end_requested := True, as_matched_stop := sp_matched p\<rparr> else s1)"
    by (auto simp: show_matched_def gated_def)
  have f: "as_parser s1 = as_parser s" "as_matcher s1 = m" "as_stop_hit s1 = as_stop_hit s" by (subst s1, simp)+
  from sm_push_stopped [OF m] sm_push_active [OF m] g n a m show ?thesis
    by (auto simp: qs t1 f gated_def cg_push_def request_end_def)
qed

lemma handle_piece_gated:
  assumes g: "gated s g" and n: "\<not> as_stop_hit s" and p: "gt_piece tok \<noteq> []"
  shows "\<exists>q t g'. handle_piece P j tok s = Some (q, t) \<and> gated t g' \<and>
    (g', events_text q) = (if gt_is_thinking tok then (g, []) else cg_push (gt_piece tok) (g, []))"
proof -
  obtain q t where d: "show_drained tok (Some (gt_piece tok)) s = (q, t)" by force
  have h: "handle_piece P j tok s = Some (q, t)"
    using g d by (simp add: handle_piece_def feed_parser_def gated_def)
  have c: "cg_matched g = None" using g n by (simp add: gated_def)
  show ?thesis
  proof (cases "\<not> gt_is_thinking tok \<and> sm_is_active (as_matcher s)")
    case True
    then have "show_matched (gt_piece tok) ([], s) = (q, t)" using d by (simp add: show_drained_def)
    from show_matched_gated [OF g c _ this] True h show ?thesis by (auto intro!: exI [of _ "fst (cg_push (gt_piece tok) (g, []))"])
  next
    case False
    then have "show_text (if gt_is_thinking tok then ThinkingBlock else TextBlock) (gt_piece tok) ([], s) = (q, t)"
      using d by (auto simp: show_drained_def split: if_splits)
    from show_text_of [OF this] have e: "events_text q = (if gt_is_thinking tok then [] else gt_piece tok)"
      and t: "t = s\<lparr>as_block := as_block t, as_index := as_index t\<rparr>" by (auto split: if_splits)
    have t: "gated t g" using g by (subst t) (auto simp: gated_def)
    have "cg_push (gt_piece tok) (g, []) = (g, gt_piece tok)" if "\<not> gt_is_thinking tok"
    proof -
      from g n False that have "\<not> sm_is_active (cg_matcher g)" by (simp add: gated_def)
      then show ?thesis using c g
        by (cases g) (auto simp: cg_push_def sm_push_def sm_is_active_def gated_def Let_def stop_push_default_def)
    qed
    with e t h show ?thesis by auto
  qed
qed


lemma note_token_gated [simp]: "gated (note_token tok s) g = gated s g" "as_stop_hit (note_token tok s) = as_stop_hit s"
  "gated (s\<lparr>as_pending := q\<rparr>) g = gated s g"
  by (simp_all add: gated_def note_token_def)

text \<open>One step of the gate on a token, and the text it still has to give.\<close>

definition gate_token :: "generation_token \<Rightarrow> content_gate \<Rightarrow> content_gate \<times> u8 list" where
  "gate_token tok g = (if gt_piece tok = [] \<or> gt_is_thinking tok then (g, []) else cg_push (gt_piece tok) (g, []))"

lemma gate_token_run: "snd (gate_run (text_pieces (tok # toks)) g) =
    snd (gate_token tok g) @ snd (gate_run (text_pieces toks) (fst (gate_token tok g)))"
  by (simp add: text_pieces_def gate_token_def gate_run_Cons)

lemma gate_token_matched: "cg_matched g \<noteq> None \<Longrightarrow> gate_token tok g = (g, [])"
  by (auto simp: gate_token_def cg_push_def)

definition done_last :: "generation_token list \<Rightarrow> bool" where
  "done_last toks \<longleftrightarrow> (\<forall>t\<in>set (butlast toks). \<not> gt_done t)"

lemma done_last_Cons: "done_last (tok # toks) \<Longrightarrow> done_last toks \<and> (gt_done tok \<longrightarrow> toks = [])"
  by (auto simp: done_last_def split: if_splits)

lemma pull_loop_gated:
  assumes "gated s g" "done_last toks"
  shows "case pull_loop P j (map Inr toks) s of
      Yield ev t items \<Rightarrow> \<exists>toks' g'. items = map Inr toks' \<and> done_last toks' \<and> gated t g' \<and>
        snd (gate_run (text_pieces toks) g) = events_text (ev # as_pending t) @ snd (gate_run (text_pieces toks') g')
    | Ended t \<Rightarrow> \<exists>g'. gated t g' \<and> snd (gate_run (text_pieces toks) g) = snd (gate_run [] g')
    | _ \<Rightarrow> False"
  using assms
proof (induction toks arbitrary: s g)
  case Nil
  then show ?case by (auto simp: text_pieces_def)
next
  case (Cons tok toks)
  let ?s = "note_token tok s"
  note d = done_last_Cons [OF Cons.prems(2)]
  show ?case
  proof (cases "as_stop_hit ?s \<or> gt_piece tok = []")
    case True
    then have "gate_token tok g = (g, [])"
      using gate_token_matched [of g tok] Cons.prems(1) by (auto simp: gate_token_def gated_def)
    with gate_token_run [of tok toks g] have t: "snd (gate_run (text_pieces (tok # toks)) g) = snd (gate_run (text_pieces toks) g)"
      by simp
    show ?thesis
    proof (cases "gt_done tok")
      case True': True
      with True d t Cons.prems(1) show ?thesis by (auto simp: Let_def text_pieces_def)
    next
      case False
      with True have e: "pull_loop P j (map Inr (tok # toks)) s = pull_loop P j (map Inr toks) ?s" by (simp add: Let_def)
      from Cons.IH [of ?s g] Cons.prems(1) d show ?thesis unfolding e t by simp
    qed
  next
    case False
    from handle_piece_gated [of ?s g tok P j] False Cons.prems(1) obtain q t g'
      where h: "handle_piece P j tok ?s = Some (q, t)" "gated t g'" "(g', events_text q) = gate_token tok g"
      by (auto simp: gate_token_def)
    then have tx: "snd (gate_run (text_pieces (tok # toks)) g) = events_text q @ snd (gate_run (text_pieces toks) g')"
      using gate_token_run [of tok toks g] by (metis fst_conv snd_conv)
    show ?thesis
    proof (cases q)
      case (Cons ev q')
      with False h tx d show ?thesis by (auto simp: Let_def intro!: exI [of _ toks] exI [of _ g'])
    next
      case Nil
      show ?thesis
      proof (cases "gt_done tok")
        case True
        with False h Nil tx d show ?thesis by (auto simp: Let_def text_pieces_def)
      next
        case D: False
        with False h Nil have e: "pull_loop P j (map Inr (tok # toks)) s = pull_loop P j (map Inr toks) t" by (simp add: Let_def)
        from Cons.IH [OF h(2)] d tx Nil show ?thesis unfolding e by (auto split: pulled.splits)
      qed
    qed
  qed
qed

lemma close_message_text: "events_text (close_message (q, s)) = events_text q"
  by (simp add: close_message_def Let_def)

lemma epilogue_gated:
  assumes g: "gated s g"
  shows "events_text (epilogue P j s) = snd (gate_run [] g)"
proof -
  have d: "drain_parser P j s = ([], s)" using g by (simp add: drain_parser_def gated_def)
  show ?thesis
  proof (cases "\<not> as_stop_hit s \<and> sm_is_active (as_matcher s)")
    case True
    obtain m tl where m: "sm_finalize (as_matcher s) = (m, tl)" by force
    have r: "snd (gate_run [] g) = tl" using g True m by (auto simp: gate_run_def cg_flush_def gated_def)
    obtain q t where q: "show_text TextBlock tl ([], s\<lparr>as_matcher := m\<rparr>) = (q, t)" by force
    from show_text_of [OF q] show ?thesis
      unfolding r by (auto simp: epilogue_def d True m q close_message_text)
  next
    case False
    then have "snd (gate_run [] g) = []"
      using g by (auto simp: gate_run_def cg_flush_def gated_def sm_finalize_def split: prod.splits)
    with False show ?thesis by (auto simp: epilogue_def d close_message_text)
  qed
qed

lemma drive_gated:
  assumes "gated s g" "done_last toks" "drive P j (Streaming s (map Inr toks)) = (es, x)"
  shows "\<not> x \<and> events_text es = events_text (as_pending s) @ snd (gate_run (text_pieces toks) g)"
  using assms
proof (induction "poll_size (Streaming s (map Inr toks) :: ('a, 'b) anthropic_state)" arbitrary: s toks es g
    rule: wf_induct_rule [OF wf_lex_prod [OF wf_less_than wf_lex_prod [OF wf_less_than wf_less_than]]])
  case (1 s toks es g)
  note IH = 1(1) and g = 1(2) and dl = 1(3) and d = 1(4)
  show ?case
  proof (cases "as_pending s")
    case (Cons ev q)
    have n: "poll_next P j (Streaming s (map Inr toks)) = Ready ev (Streaming (s\<lparr>as_pending := q\<rparr>) (map Inr toks))"
      using Cons by (simp add: poll_next_def)
    obtain es' where e: "drive P j (Streaming (s\<lparr>as_pending := q\<rparr>) (map Inr toks)) = (es', x)" "es = ev # es'"
      using d unfolding drive.simps [of P j "Streaming s (map Inr toks)"] n by (auto split: prod.splits)
    from IH [of "s\<lparr>as_pending := q\<rparr>" toks g es'] e g dl poll_smaller [OF n] Cons show ?thesis by simp
  next
    case Nil
    note L = pull_loop_gated [OF g dl, where P = P and j = j]
    show ?thesis
    proof (cases "pull_loop P j (map Inr toks) s")
      case (Yield ev t items)
      with L obtain toks' g' where y: "items = map Inr toks'" "done_last toks'" "gated t g'"
        "snd (gate_run (text_pieces toks) g) = events_text (ev # as_pending t) @ snd (gate_run (text_pieces toks') g')"
        by auto
      have n: "poll_next P j (Streaming s (map Inr toks)) = Ready ev (Streaming t (map Inr toks'))"
        using Nil Yield y(1) by (simp add: poll_next_def)
      obtain es' where e: "drive P j (Streaming t (map Inr toks')) = (es', x)" "es = ev # es'"
        using d unfolding drive.simps [of P j "Streaming s (map Inr toks)"] n by (auto split: prod.splits)
      from IH [of t toks' g' es'] e y poll_smaller [OF n] Nil show ?thesis by simp
    next
      case (Ended t)
      have "drive P j (Streaming s (map Inr toks)) = drive P j (Epilogue (epilogue P j t))"
        using Nil Ended unfolding drive.simps [of P j "Streaming s (map Inr toks)"] drive.simps [of P j "Epilogue (epilogue P j t)"]
        by (simp add: poll_next_def)
      with d have "es = epilogue P j t" "\<not> x" by (simp_all add: drive_epilogue)
      with L Ended Nil show ?thesis by (auto simp: epilogue_gated)
    qed (use L in simp_all)
  qed
qed

lemma streaming_new_gated: "gated (streaming_new None (sm_new stops)) (cg_new (sm_new stops) False)"
  by (simp add: gated_def streaming_new_def cg_new_def sm_new_def Let_def)

lemma streamed_text:
  assumes "done_last toks"
  shows "\<exists>es. generate_streaming P to_str None (sm_new stops) (map Inr toks :: ('e + generation_token) list) = Inr (es, False) \<and>
    events_text es = snd (gate_run (text_pieces toks) (cg_new (sm_new stops) False))"
proof -
  obtain es x where d: "drive P to_str (Streaming (streaming_new None (sm_new stops)) (map Inr toks :: ('e + generation_token) list)) = (es, x)" by force
  from drive_gated [OF streaming_new_gated assms d] have "\<not> x" "events_text es = snd (gate_run (text_pieces toks) (cg_new (sm_new stops) False))"
    by (simp_all add: streaming_new_at)
  moreover have "generate_streaming P to_str None (sm_new stops) (map Inr toks :: ('e + generation_token) list) = Inr (MessageStart # Ping # es, x)"
    using d by (auto simp: generate_streaming_def split: list.split sum.split)
  ultimately show ?thesis by (auto intro!: exI [of _ "MessageStart # Ping # es"])
qed

text \<open>C34: The streamed text is the text of the reply that is not streamed. For a request without tools
  whose generation ends with its terminal token, the text deltas of the streamed reply, joined,
  are exactly what the content gate of the non-streaming route keeps of the visible pieces, cut
  at the same stop string, and the stream never breaks off; reasoning never enters that text.
\<close>

theorem streamed_text_is_gated:
  assumes "done_last toks"
  shows "\<exists>es. generate_streaming P to_str None (sm_new stops) (map Inr toks :: ('e + generation_token) list) = Inr (es, False) \<and>
    events_text es = snd (gate_run (text_pieces toks) (cg_new (sm_new stops) False))"
  by (rule streamed_text [OF assms])

theorem streamed_text_is_gated_witness:
  "\<exists>es. generate_streaming no_packages no_input None (sm_new [ascii ''END''])
     (map Inr [piece_token (ascii ''ab EN'') False, piece_token (ascii ''D cd'') False, piece_token [] True] :: (unit + generation_token) list)
       = Inr (es, False) \<and> events_text es = ascii ''ab ''"
proof -
  let ?t = "[piece_token (ascii ''ab EN'') False, piece_token (ascii ''D cd'') False, piece_token [] True]"
  have d: "done_last ?t" by code_simp
  have g: "snd (gate_run (text_pieces ?t) (cg_new (sm_new [ascii ''END'']) False)) = ascii ''ab ''" by code_simp
  from streamed_text_is_gated [OF d, of no_packages no_input "[ascii ''END'']"] g show ?thesis by simp
qed

end
