(* ===== verification/Replay.thy ===== *)
theory Replay
  imports Complex_Main Detokenizer
begin

text \<open>
  The replay of a failed generation, \<^verbatim>\<open>rmlx-server/src/retry.rs\<close>, with the error enum of
  \<^verbatim>\<open>rmlx-core/src/error.rs\<close> it classifies. The engine is the parameter \<open>gen\<close>: the items the
  generation yields on each attempt. Other tasks act through two schedules: \<open>ended k i\<close> is what
  the end flag reads after the first \<open>i\<close> items of attempt \<open>k\<close>, and \<open>alive n\<close> tells whether the
  receiver is still there for the send number \<open>n\<close>. Log lines, the fields a rebuilt request
  copies, and the numbers in the text of a divergence are left out.
\<close>

section \<open>Errors\<close>

datatype oom_phase = LoadWeights | LoadKvCache | Generation

datatype rmlx_error =
    IoError "u8 list" | ConfigError "u8 list" | LoaderError "u8 list" | QuantError "u8 list" | ModelError "u8 list"
  | SmokeProbe "u8 list" | Mlx "u8 list"
  | Oom oom_phase "u64 option" "u64 option" "u8 list"
  | Other "u8 list" | InvalidInput "u8 list" | ArchUnsupported "u8 list" | KvStorageMismatch "u8 list" "u8 list"
  | SsdTierAlreadyInstalled | Unimplemented "u8 list"
  | KvHardCapExceeded int int | KvCeilingExceededError int int | ContextCeilingExceededError int int int "u8 list"
  | SpeculativePairing "u8 list" | GpuForbidden "u8 list" | CancelledError

definition is_migratable :: "rmlx_error \<Rightarrow> bool" where
  "is_migratable e = (case e of Mlx _ \<Rightarrow> True | Other _ \<Rightarrow> True | _ \<Rightarrow> False)"

datatype retry_class = Migratable | Fatal

definition classify :: "rmlx_error \<Rightarrow> retry_class" where
  "classify e = (if is_migratable e then Migratable else Fatal)"

definition is_replayable :: "rat \<Rightarrow> bool \<Rightarrow> bool \<Rightarrow> bool" where
  "is_replayable temperature has_constraint n_choices_ok =
     (if 0 < temperature then False else if \<not> n_choices_ok then False else if has_constraint then False else True)"

definition DEFAULT_MAX_RETRIES :: nat where "DEFAULT_MAX_RETRIES = 2"

section \<open>One attempt\<close>

type_synonym item = "rmlx_error + generation_token"

text \<open>What the task keeps between items: the ids it delivered, and what the receiver got.\<close>

record replay =
  rp_delivered :: "u32 list"
  rp_out :: "item list"

definition stop_terminal :: "u32 list \<Rightarrow> generation_token" where
  "stop_terminal delivered = terminal (case delivered of [] \<Rightarrow> 0 | _ \<Rightarrow> last delivered) (ascii ''stop'') []"

text \<open>A send whose failure is ignored.\<close>

definition send :: "(nat \<Rightarrow> bool) \<Rightarrow> item \<Rightarrow> replay \<Rightarrow> replay" where
  "send alive x r = (if alive (length (rp_out r)) then r\<lparr>rp_out := rp_out r @ [x]\<rparr> else r)"

datatype attempt_end = Returned replay | Drained nat replay | Broke rmlx_error replay

definition divergence :: "nat \<Rightarrow> u32 \<Rightarrow> u32 \<Rightarrow> rmlx_error" where
  "divergence at_pos expected got = Other (ascii ''replay prefix divergence'')"

definition underrun :: rmlx_error where
  "underrun = Other (ascii ''replay underrun: retry EOS before prefix reproduced'')"

definition cause_or :: "rmlx_error \<Rightarrow> rmlx_error option \<Rightarrow> rmlx_error" where
  "cause_or e prior = (case prior of Some c \<Rightarrow> c | None \<Rightarrow> e)"

fun attempt ::
  "(nat \<Rightarrow> bool) \<Rightarrow> (nat \<Rightarrow> bool) \<Rightarrow> rmlx_error option \<Rightarrow> nat \<Rightarrow> item list \<Rightarrow> nat \<Rightarrow> nat \<Rightarrow> replay \<Rightarrow> attempt_end" where
  "attempt ended alive prior skip_count [] i skipped r = Drained skipped r"
| "attempt ended alive prior skip_count (Inl e # items) i skipped r = Broke e r"
| "attempt ended alive prior skip_count (Inr tok # items) i skipped r =
     (if skipped < skip_count then
        (if ended (Suc i) then Returned (send alive (Inr (stop_terminal (rp_delivered r))) r)
         else if gt_token_id tok \<noteq> rp_delivered r ! skipped then
           Returned (send alive (Inl (cause_or (divergence skipped (rp_delivered r ! skipped) (gt_token_id tok)) prior)) r)
         else attempt ended alive prior skip_count items (Suc i) (Suc skipped) r)
      else
        let r1 = r\<lparr>rp_delivered := rp_delivered r @ [gt_token_id tok]\<rparr> in
        if alive (length (rp_out r)) then attempt ended alive prior skip_count items (Suc i) skipped (send alive (Inr tok) r1)
        else Returned r1)"

text \<open>
  Attempt \<open>k\<close>, with \<open>n\<close> attempts left after it. The flag is read again after the last item.
\<close>

fun attempts ::
  "(nat \<Rightarrow> item list) \<Rightarrow> (nat \<Rightarrow> nat \<Rightarrow> bool) \<Rightarrow> (nat \<Rightarrow> bool) \<Rightarrow> nat \<Rightarrow> nat \<Rightarrow> rmlx_error option \<Rightarrow> replay \<Rightarrow> replay" where
  "attempts gen ended alive k n prior r =
     (let skip_count = length (rp_delivered r); last_read = ended k (Suc (length (gen k))) in
      case attempt (ended k) alive prior skip_count (gen k) 0 0 r of
        Returned r \<Rightarrow> r
      | Drained skipped r \<Rightarrow>
          if skipped < skip_count then
            (if last_read then send alive (Inr (stop_terminal (rp_delivered r))) r
             else send alive (Inl (cause_or underrun prior)) r)
          else r
      | Broke e r \<Rightarrow>
          (case classify e of
             Fatal \<Rightarrow> send alive (Inl e) r
           | Migratable \<Rightarrow>
               if last_read then send alive (Inr (stop_terminal (rp_delivered r))) r
               else (case n of
                   0 \<Rightarrow> send alive (Inl e) r
                 | Suc n \<Rightarrow> attempts gen ended alive (Suc k) n (Some e) r)))"

declare attempts.simps [simp del]

definition replay_stream :: "(nat \<Rightarrow> item list) \<Rightarrow> (nat \<Rightarrow> nat \<Rightarrow> bool) \<Rightarrow> (nat \<Rightarrow> bool) \<Rightarrow> nat \<Rightarrow> item list" where
  "replay_stream gen ended alive max_retries =
     rp_out (attempts gen ended alive 0 max_retries None \<lparr>rp_delivered = [], rp_out = []\<rparr>)"


section \<open>A deterministic engine\<close>

text \<open>
  What the replay relies on at temperature zero: every attempt yields the items of the one
  reply \<open>T\<close>, all of them or up to a failure.
\<close>

definition reproduces :: "(nat \<Rightarrow> item list) \<Rightarrow> generation_token list \<Rightarrow> bool" where
  "reproduces gen T \<longleftrightarrow> (\<forall>k. gen k = map Inr T \<or> (\<exists>m e. m \<le> length T \<and> gen k = map Inr (take m T) @ [Inl e]))"

definition fault :: "item list \<Rightarrow> rmlx_error option" where
  "fault items = (if items \<noteq> [] \<and> isl (last items) then Some (projl (last items)) else None)"

fun last_attempt :: "(nat \<Rightarrow> item list) \<Rightarrow> nat \<Rightarrow> nat \<Rightarrow> nat" where
  "last_attempt gen k 0 = k"
| "last_attempt gen k (Suc n) =
     (case fault (gen k) of Some e \<Rightarrow> if classify e = Migratable then last_attempt gen (Suc k) n else k | None \<Rightarrow> k)"

definition replay_at :: "generation_token list \<Rightarrow> nat \<Rightarrow> replay" where
  "replay_at T m = \<lparr>rp_delivered = map gt_token_id (take m T), rp_out = map Inr (take m T)\<rparr>"

lemma fault_complete [simp]: "fault (map Inr T) = None"
  by (cases T rule: rev_cases) (simp_all add: fault_def)

lemma fault_broken [simp]: "fault (xs @ [Inl e]) = Some e" by (simp add: fault_def)

lemma replay_at_deliver:
  assumes "m < length T"
  shows "send (\<lambda>_. True) (Inr (T ! m)) ((replay_at T m)\<lparr>rp_delivered := rp_delivered (replay_at T m) @ [gt_token_id (T ! m)]\<rparr>) = replay_at T (Suc m)"
  using assms by (simp add: send_def replay_at_def take_Suc_conv_app_nth)

lemma attempt_items:
  assumes "s + length xs \<le> length T" "xs = take (length xs) (drop s T)" "M \<le> length T"
  shows "attempt (\<lambda>_. False) (\<lambda>_. True) prior M (map Inr xs @ rest) i (min s M) (replay_at T (max M s)) =
    attempt (\<lambda>_. False) (\<lambda>_. True) prior M rest (i + length xs) (min (s + length xs) M) (replay_at T (max M (s + length xs)))"
  using assms
proof (induction xs arbitrary: s i)
  case (Cons x xs)
  from Cons.prems(1) have s: "s < length T" by simp
  from Cons.prems(2) have xs: "x = T ! s" "xs = take (length xs) (drop (Suc s) T)"
    using Cons_nth_drop_Suc [OF s] by (metis length_Cons list.inject take_Suc_Cons)+
  note IH = Cons.IH [of "Suc s" "Suc i", OF _ xs(2) Cons.prems(3)]
  show ?case
  proof (cases "s < M")
    case True
    then have "gt_token_id x = rp_delivered (replay_at T (max M s)) ! s"
      using s Cons.prems(3) by (simp add: replay_at_def xs(1) max_def)
    moreover from True have m: "max M s = M" "min s M = s" "max M (Suc s) = M" "min (Suc s) M = Suc s" by simp_all
    ultimately have "attempt (\<lambda>_. False) (\<lambda>_. True) prior M (map Inr (x # xs) @ rest) i (min s M) (replay_at T (max M s)) =
        attempt (\<lambda>_. False) (\<lambda>_. True) prior M (map Inr xs @ rest) (Suc i) (min (Suc s) M) (replay_at T (max M (Suc s)))"
      unfolding m using True by simp
    with IH Cons.prems(1) show ?thesis by simp
  next
    case False
    then have m: "max M s = s" "min s M = M" "max M (Suc s) = Suc s" "min (Suc s) M = M" by simp_all
    have "attempt (\<lambda>_. False) (\<lambda>_. True) prior M (map Inr (x # xs) @ rest) i (min s M) (replay_at T (max M s)) =
        attempt (\<lambda>_. False) (\<lambda>_. True) prior M (map Inr xs @ rest) (Suc i) (min (Suc s) M) (replay_at T (max M (Suc s)))"
      unfolding m using replay_at_deliver [OF s] by (simp add: xs(1) Let_def)
    with IH Cons.prems(1) show ?thesis by simp
  qed
qed simp

lemma length_delivered: "m \<le> length T \<Longrightarrow> length (rp_delivered (replay_at T m)) = m"
  by (simp add: replay_at_def)

lemma attempt_complete:
  "M \<le> length T \<Longrightarrow> attempt (\<lambda>_. False) (\<lambda>_. True) prior M (map Inr T) 0 0 (replay_at T M) = Drained M (replay_at T (length T))"
  using attempt_items [of 0 T T M prior "[]" 0] by simp

lemma attempt_broken:
  "\<lbrakk>M \<le> length T; m \<le> length T\<rbrakk> \<Longrightarrow>
     attempt (\<lambda>_. False) (\<lambda>_. True) prior M (map Inr (take m T) @ [Inl e]) 0 0 (replay_at T M) = Broke e (replay_at T (max M m))"
  using attempt_items [of 0 "take m T" T M prior "[Inl e]" 0] by (simp add: min_absorb2)

lemma replay_at_out: "rp_out (replay_at T (length T)) = map Inr T" by (simp add: replay_at_def)

lemma send_error: "rp_out (send (\<lambda>_. True) (Inl e) (replay_at T m)) = map Inr (take m T) @ [Inl e]"
  by (simp add: send_def replay_at_def)

lemma last_attempt_ge: "k \<le> last_attempt gen k n"
proof (induction n arbitrary: k)
  case (Suc n)
  from Suc.IH [of "Suc k"] show ?case by (simp split: option.split)
qed simp

lemma last_attempt_le: "last_attempt gen k n \<le> k + n"
proof (induction n arbitrary: k)
  case (Suc n)
  from Suc.IH [of "Suc k"] show ?case by (simp split: option.split)
qed simp

lemma attempts_exact:
  assumes "reproduces gen T" "M \<le> length T"
  shows "case fault (gen (last_attempt gen k n)) of
      None \<Rightarrow> rp_out (attempts gen (\<lambda>_ _. False) (\<lambda>_. True) k n prior (replay_at T M)) = map Inr T
    | Some e \<Rightarrow> \<exists>m\<le>length T. M \<le> m \<and> (\<forall>j\<in>{k..last_attempt gen k n}. length (gen j) \<le> Suc m) \<and>
        (m = M \<or> (\<exists>j\<in>{k..last_attempt gen k n}. length (gen j) = Suc m)) \<and>
        rp_out (attempts gen (\<lambda>_ _. False) (\<lambda>_. True) k n prior (replay_at T M)) = map Inr (take m T) @ [Inl e]"
  using assms(2)
proof (induction n arbitrary: k M prior)
  case (0 k M prior)
  note eq = attempts.simps [of gen "\<lambda>_ _. False" "\<lambda>_. True" k 0 prior "replay_at T M"]
  from assms(1) consider "gen k = map Inr T" | m e where "m \<le> length T" "gen k = map Inr (take m T) @ [Inl e]"
    unfolding reproduces_def by blast
  then show ?case
  proof cases
    case 1
    with 0 show ?thesis unfolding eq by (simp add: Let_def length_delivered attempt_complete replay_at_out)
  next
    case 2
    with 0 show ?thesis unfolding eq
      by (auto simp: Let_def length_delivered attempt_broken send_error split: retry_class.split
          intro!: exI [of _ "max M m"])
  qed
next
  case (Suc n k M prior)
  note eq = attempts.simps [of gen "\<lambda>_ _. False" "\<lambda>_. True" k "Suc n" prior "replay_at T M"]
  from assms(1) consider "gen k = map Inr T" | m e where "m \<le> length T" "gen k = map Inr (take m T) @ [Inl e]"
    unfolding reproduces_def by blast
  then show ?case
  proof cases
    case 1
    with Suc.prems show ?thesis unfolding eq by (simp add: Let_def length_delivered attempt_complete replay_at_out)
  next
    case (2 m e)
    show ?thesis
    proof (cases "classify e")
      case Fatal
      with 2 Suc.prems show ?thesis unfolding eq
        by (auto simp: Let_def length_delivered attempt_broken send_error intro!: exI [of _ "max M m"])
    next
      case Migratable
      have out: "attempts gen (\<lambda>_ _. False) (\<lambda>_. True) k (Suc n) prior (replay_at T M) =
          attempts gen (\<lambda>_ _. False) (\<lambda>_. True) (Suc k) n (Some e) (replay_at T (max M m))"
        unfolding eq using 2 Suc.prems Migratable by (simp add: Let_def length_delivered attempt_broken)
      have la: "last_attempt gen k (Suc n) = last_attempt gen (Suc k) n" using 2 Migratable by simp
      have ge: "Suc k \<le> last_attempt gen (Suc k) n" by (rule last_attempt_ge)
      have M: "max M m \<le> length T" using 2 Suc.prems by simp
      note IH = Suc.IH [OF M, of "Suc k" "Some e"]
      show ?thesis
      proof (cases "fault (gen (last_attempt gen (Suc k) n))")
        case None
        with IH show ?thesis unfolding la out by simp
      next
        case (Some f)
        with IH obtain m' where m': "m' \<le> length T" "max M m \<le> m'"
          "\<forall>j\<in>{Suc k..last_attempt gen (Suc k) n}. length (gen j) \<le> Suc m'"
          "m' = max M m \<or> (\<exists>j\<in>{Suc k..last_attempt gen (Suc k) n}. length (gen j) = Suc m')"
          "rp_out (attempts gen (\<lambda>_ _. False) (\<lambda>_. True) (Suc k) n (Some e) (replay_at T (max M m))) = map Inr (take m' T) @ [Inl f]"
          by auto
        have lk: "length (gen k) = Suc m" using 2 by (simp add: min_def)
        have i: "{k..last_attempt gen (Suc k) n} = insert k {Suc k..last_attempt gen (Suc k) n}" using ge by auto
        have "m' = M \<or> (\<exists>j\<in>{k..last_attempt gen (Suc k) n}. length (gen j) = Suc m')"
          using m'(4) lk unfolding i by (auto simp: max_def split: if_splits)
        with m' lk show ?thesis unfolding la out Some by (auto simp: i intro!: exI [of _ m'])
      qed
    qed
  qed
qed


text \<open>C39: A replayed generation is the generation. For an engine that yields the items of one reply on
  every attempt, all of them or up to a failure, and a receiver that stays, the replay makes at
  most its allowed number of attempts, and the attempt it ends with decides: when it completes,
  the receiver has got exactly the reply, every item once and in order, whatever failed before;
  when it fails, a prefix of the reply as long as the longest attempt and then that attempt's error.
\<close>

theorem replay_exact:
  assumes "reproduces gen T"
  shows "last_attempt gen 0 retries \<le> retries \<and>
    (case fault (gen (last_attempt gen 0 retries)) of
       None \<Rightarrow> replay_stream gen (\<lambda>_ _. False) (\<lambda>_. True) retries = map Inr T
     | Some e \<Rightarrow> \<exists>m\<le>length T. (\<forall>j\<le>last_attempt gen 0 retries. length (gen j) \<le> Suc m) \<and>
         (m = 0 \<or> (\<exists>j\<le>last_attempt gen 0 retries. length (gen j) = Suc m)) \<and>
         replay_stream gen (\<lambda>_ _. False) (\<lambda>_. True) retries = map Inr (take m T) @ [Inl e])"
proof -
  have r: "replay_at T 0 = \<lparr>rp_delivered = [], rp_out = []\<rparr>" by (simp add: replay_at_def)
  from attempts_exact [OF assms, of 0 0 retries None] last_attempt_le [of gen 0 retries] show ?thesis
    unfolding replay_stream_def r by (auto split: option.splits)
qed

definition sample_token :: "u32 \<Rightarrow> bool \<Rightarrow> generation_token" where
  "sample_token t d = \<lparr>gt_token_id = t, gt_piece = ascii ''x'', gt_done = d, gt_finish_reason = None, gt_is_thinking = False\<rparr>"

definition sample_reply :: "generation_token list" where
  "sample_reply = [sample_token 5 False, sample_token 6 False, sample_token 6 True]"

definition faulty_gen :: "nat \<Rightarrow> item list" where
  "faulty_gen k = (if k = 0 then map Inr (take 2 sample_reply) @ [Inl (Mlx [])]
     else if k = 1 then map Inr (take 1 sample_reply) @ [Inl (Mlx [])] else map Inr sample_reply)"

theorem replay_exact_witness:
  "replay_stream faulty_gen (\<lambda>_ _. False) (\<lambda>_. True) DEFAULT_MAX_RETRIES = map Inr sample_reply"
proof -
  have "reproduces faulty_gen sample_reply"
    unfolding reproduces_def
  proof
    fix k
    have "2 \<le> length sample_reply" "1 \<le> length sample_reply" by (simp_all add: sample_reply_def)
    then show "faulty_gen k = map Inr sample_reply \<or>
        (\<exists>m e. m \<le> length sample_reply \<and> faulty_gen k = map Inr (take m sample_reply) @ [Inl e])"
      unfolding faulty_gen_def by (metis (full_types))
  qed
  from replay_exact [OF this, of DEFAULT_MAX_RETRIES] show ?thesis
    by (simp add: DEFAULT_MAX_RETRIES_def numeral_2_eq_2 faulty_gen_def classify_def is_migratable_def)
qed

section \<open>Any engine\<close>

definition handed :: "generation_token list \<Rightarrow> replay \<Rightarrow> bool" where
  "handed toks r \<longleftrightarrow> rp_out r = map Inr toks \<and> rp_delivered r = map gt_token_id toks"

definition closed :: "item list \<Rightarrow> bool" where
  "closed out \<longleftrightarrow> (\<exists>toks closing. out = map Inr toks @ closing \<and>
     (closing = [] \<or> (\<exists>e. closing = [Inl e]) \<or> closing = [Inr (stop_terminal (map gt_token_id toks))]))"

lemma closed_send:
  assumes "handed toks r"
  shows "closed (rp_out (send alive (Inl e) r))" "closed (rp_out (send alive (Inr (stop_terminal (rp_delivered r))) r))" "closed (rp_out r)"
  using assms by (auto simp: handed_def closed_def send_def intro!: exI [of _ toks])

lemma handed_send:
  "handed toks r \<Longrightarrow> alive (length (rp_out r)) \<Longrightarrow>
     handed (toks @ [tok]) (send alive (Inr tok) (r\<lparr>rp_delivered := rp_delivered r @ [gt_token_id tok]\<rparr>))"
  by (simp add: handed_def send_def)

lemma attempt_closed:
  assumes "handed toks r"
  shows "case attempt ended alive prior skip items i skipped r of
      Returned r \<Rightarrow> closed (rp_out r) | Drained _ r \<Rightarrow> \<exists>toks. handed toks r | Broke _ r \<Rightarrow> \<exists>toks. handed toks r"
  using assms
proof (induction ended alive prior skip items i skipped r arbitrary: toks rule: attempt.induct)
  case (3 ended alive prior skip tok items i skipped r)
  show ?case
  proof (cases "skipped < skip")
    case True
    with 3(1) [OF True _ _ 3(3)] closed_send [OF 3(3)] show ?thesis by auto
  next
    case False
    show ?thesis
    proof (cases "alive (length (rp_out r))")
      case True
      from 3(2) [OF False refl True handed_send [where alive = alive, OF 3(3) True]] False True show ?thesis by (simp add: Let_def)
    next
      case gone: False
      have "closed (rp_out (r\<lparr>rp_delivered := rp_delivered r @ [gt_token_id tok]\<rparr>))" using closed_send(3) [OF 3(3)] by simp
      with False gone show ?thesis by (simp add: Let_def)
    qed
  qed
qed auto

lemma attempts_closed:
  assumes "handed toks r"
  shows "closed (rp_out (attempts gen ended alive k n prior r))"
  using assms
proof (induction n arbitrary: k prior r toks)
  case (0 k prior r)
  note A = attempt_closed [OF 0, of "ended k" alive prior "length (rp_delivered r)" "gen k" 0 0]
  show ?case unfolding attempts.simps [of gen ended alive k 0 prior r]
    using A closed_send by (fastforce simp: Let_def split: attempt_end.splits retry_class.split)
next
  case (Suc n k prior r)
  note A = attempt_closed [OF Suc.prems, of "ended k" alive prior "length (rp_delivered r)" "gen k" 0 0]
  show ?case unfolding attempts.simps [of gen ended alive k "Suc n" prior r]
    using A closed_send Suc.IH by (fastforce simp: Let_def split: attempt_end.splits retry_class.split)
qed

text \<open>What a replay hands on, with no assumption on the engine, on the end flag or on the
  receiver: tokens, then at most one closing item, which is an error or the empty terminal that
  names the last token delivered. In particular an error is never followed by a token, and no
  error is sent on after a closing terminal.
\<close>

theorem replay_closes_once:
  "\<exists>toks closing. replay_stream gen ended alive retries = map Inr toks @ closing \<and>
     (closing = [] \<or> (\<exists>e. closing = [Inl e]) \<or> closing = [Inr (stop_terminal (map gt_token_id toks))])"
proof -
  have "handed [] \<lparr>rp_delivered = [], rp_out = []\<rparr>" by (simp add: handed_def)
  from attempts_closed [OF this, of gen ended alive 0 retries None] show ?thesis
    by (simp add: closed_def replay_stream_def)
qed

end
