(* ===== verification/ReplyText.thy ===== *)
theory ReplyText
  imports AnthropicText Replay
begin

text \<open>
  The whole path of a reply's text: the step callback and the terminal item of the engine, the
  replay of a failed generation, and the Anthropic stream.
\<close>

definition callback_run :: "'d server_env \<Rightarrow> 'lp probe_step list \<Rightarrow> 'd server_cb \<Rightarrow> 'd server_cb" where
  "callback_run V steps cb = fold (\<lambda>s cb. fst (server_step V cb s)) steps cb"

text \<open>A request of a model without a reasoning channel, and without tools.\<close>

definition plain_env :: "(u32 list \<Rightarrow> 'e + u8 list) \<Rightarrow> (nat \<Rightarrow> bool) \<Rightarrow> detokenizer server_env" where
  "plain_env decode ended =
     \<lparr>se_detok = server_detok decode, se_emit_tool_markers = False, se_id_to_token = (\<lambda>_. None),
      se_end_requested = ended, se_thinking_end_token_id = None\<rparr>"

definition plain_cb :: "tokenizer_kind \<Rightarrow> u32 list \<Rightarrow> detokenizer server_cb" where
  "plain_cb kind eos = \<lparr>sv_detok = dt_new kind eos, sv_splitter = None, sv_thinking = None, sv_sent = []\<rparr>"

lemma server_step_plain:
  assumes "sv_splitter cb = None" "sv_thinking cb = None" "server_detok decode (sv_detok cb) (ps_token_id s) = (d, seg)"
  shows "fst (server_step (plain_env decode ended) cb s) =
    cb\<lparr>sv_detok := d, sv_sent := sv_sent cb @ [(ps_token_id s, case seg of Some x \<Rightarrow> x | None \<Rightarrow> [], False)]\<rparr>"
  using assms by (cases cb) (simp add: server_step_def plain_env_def step_text_def split_text_def Let_def split: option.splits)

lemma callback_run_plain:
  assumes "sv_splitter cb = None" "sv_thinking cb = None" "dt_run decode (map ps_token_id steps) (sv_detok cb) = (d, segs)"
  shows "callback_run (plain_env decode ended) steps cb =
    cb\<lparr>sv_detok := d, sv_sent := sv_sent cb @ map (\<lambda>(t, seg). (t, seg, False)) (zip (map ps_token_id steps) segs)\<rparr>"
  using assms
proof (induction steps arbitrary: cb segs)
  case Nil
  then show ?case by (cases cb) (simp add: callback_run_def)
next
  case (Cons s steps)
  obtain d1 seg where s1: "server_detok decode (sv_detok cb) (ps_token_id s) = (d1, seg)" by force
  obtain segs' where r: "dt_run decode (map ps_token_id steps) d1 = (d, segs')" "segs = (case seg of Some x \<Rightarrow> x | None \<Rightarrow> []) # segs'"
    using Cons.prems(3) s1 by (auto split: prod.splits)
  note st = server_step_plain [OF Cons.prems(1,2) s1, of ended]
  show ?case
    using Cons.IH [of "fst (server_step (plain_env decode ended) cb s)" segs'] Cons.prems(1,2) r st
    by (cases cb) (simp add: callback_run_def)
qed

lemma dt_run_length: "dt_run decode ts d = (d', segs) \<Longrightarrow> length segs = length ts"
  by (induction ts arbitrary: d segs) (auto split: prod.splits)

lemma concat_nonempty: "concat (filter (\<lambda>x. x \<noteq> []) xs) = concat xs"
  by (induction xs) auto

lemma text_pieces_plain:
  assumes "length segs = length ts"
  shows "text_pieces (map sent_item (map (\<lambda>(t, seg). (t, seg, False)) (zip ts segs)) @ [terminal i reason tail]) =
    filter (\<lambda>x. x \<noteq> []) (segs @ [tail])"
  using assms
  by (induction segs ts rule: list_induct2) (simp_all add: text_pieces_def sent_item_def terminal_def)

lemma gate_run_nil: "snd (gate_run ps (cg_new (sm_new []) False)) = concat ps"
proof -
  obtain g tx m e matched where r: "gate_run ps (cg_new (sm_new []) False) = (g, tx)" "sm_run ps (sm_new []) = (m, e, matched)"
    by (metis prod_cases3 surj_pair)
  have h: "first_hit [] t ps = None" for t by (induction ps arbitrary: t) (simp_all add: find_stop_match_def)
  have "sm_inv [] [] [] (sm_new [])" using sm_new_inv [of "[]"] by simp
  from sm_run_spec [OF this, of ps] h r gate_run_spec [OF r(2,1)] show ?thesis
    by (auto simp: sm_finalize_def sm_inv_def)
qed

lemma done_last_plain: "done_last (map sent_item xs @ [tok])"
  by (auto simp: done_last_def butlast_append sent_item_def split: prod.splits)

text \<open>C1: The client reads what the model wrote. For a request without tools, stop strings or a
  reasoning channel, on an engine that shows the same tokens on every attempt, a reply that
  completes within the allowed attempts streams, in its text deltas joined, exactly the decode
  of the tokens the model produced but the end tokens: nothing lost or doubled where a character
  was cut by a token boundary, an attempt failed in between, or the reply was cut into events.
\<close>

theorem reply_is_decoded:
  assumes "grows_cleanly decode (text_ids eos (map ps_token_id steps))" "decode (text_ids eos (map ps_token_id steps)) = Inr full"
    and "reproduces gen (sent_items decode eos end_requested (callback_run (plain_env decode ended) steps (plain_cb kind eos)))"
    and "fault (gen (last_attempt gen 0 retries)) = None"
  shows "\<exists>es. generate_streaming P to_str None (sm_new []) (replay_stream gen (\<lambda>_ _. False) (\<lambda>_. True) retries) = Inr (es, False) \<and>
    events_text es = trimmed kind full"
proof -
  let ?ts = "map ps_token_id steps" and ?cb = "callback_run (plain_env decode ended) steps (plain_cb kind eos)"
  obtain d segs where r: "dt_run decode ?ts (dt_new kind eos) = (d, segs)" by force
  have cb: "sv_detok ?cb = d" "sv_sent ?cb = map (\<lambda>(t, seg). (t, seg, False)) (zip ?ts segs)"
    using callback_run_plain [of "plain_cb kind eos" decode steps d segs ended] r by (simp_all add: plain_cb_def)
  obtain i reason where T: "sent_items decode eos end_requested ?cb =
      map sent_item (sv_sent ?cb) @ [terminal_item decode d i reason]"
    unfolding sent_items_def cb(1) by (metis)
  have out: "replay_stream gen (\<lambda>_ _. False) (\<lambda>_. True) retries = map Inr (sent_items decode eos end_requested ?cb)"
    using attempts_exact [OF assms(3), of 0 0 retries None] assms(4) by (simp add: replay_stream_def replay_at_def)
  have tx: "concat (text_pieces (sent_items decode eos end_requested ?cb)) = trimmed kind full"
    using pieces_decode [OF assms(1,2) r, of i reason] text_pieces_plain [OF dt_run_length [OF r], of i reason]
    by (simp add: T cb terminal_item_def concat_nonempty terminal_def del: filter_append)
  have dl: "done_last (sent_items decode eos end_requested ?cb)" unfolding T by (rule done_last_plain)
  from streamed_text [OF dl, of P to_str "[]"] show ?thesis unfolding out gate_run_nil tx .
qed


definition cut_steps :: "unit probe_step list" where
  "cut_steps = map (\<lambda>t. \<lparr>ps_token_id = t, ps_piece = [], ps_nan_count = 0, ps_logprobs = None\<rparr>) [1, 2, 3, 9]"

definition cut_items :: "generation_token list" where
  "cut_items = sent_items cut_decode [9] False (callback_run (plain_env cut_decode (\<lambda>_. False)) cut_steps (plain_cb ByteLevel [9]))"

definition cut_gen :: "nat \<Rightarrow> item list" where
  "cut_gen k = (if k = 0 then map Inr (take 1 cut_items) @ [Inl (Mlx [])] else map Inr cut_items)"

theorem reply_is_decoded_witness:
  "\<exists>es. generate_streaming no_packages no_input None (sm_new []) (replay_stream cut_gen (\<lambda>_ _. False) (\<lambda>_. True) DEFAULT_MAX_RETRIES) = Inr (es, False) \<and>
    events_text es = [0xC3, 0xA9, 0x61]"
proof -
  have ids: "map ps_token_id cut_steps = [1, 2, 3, 9]" by (simp add: cut_steps_def)
  have d: "cut_decode (text_ids [9] (map ps_token_id cut_steps)) = Inr [0xC3, 0xA9, 0x61]" by code_simp
  have g: "grows_cleanly cut_decode (text_ids [9] (map ps_token_id cut_steps))" unfolding ids by (rule cut_grows)
  have l: "1 \<le> length cut_items" by (simp add: cut_items_def sent_items_def Let_def)
  have r: "reproduces cut_gen cut_items" unfolding reproduces_def cut_gen_def using l by (metis (full_types))
  have f: "fault (cut_gen (last_attempt cut_gen 0 DEFAULT_MAX_RETRIES)) = None"
    by (simp add: DEFAULT_MAX_RETRIES_def numeral_2_eq_2 cut_gen_def classify_def is_migratable_def)
  from reply_is_decoded [OF g d r [unfolded cut_items_def] f, of no_packages no_input] show ?thesis
    by (simp add: trimmed_def trim_first_space_def)
qed

end
