(* ===== verification/Spec2Isabelle.thy ===== *)
theory Spec2Isabelle
  imports BlockProps RadixTree BlockManager KvCacheType PromptCacheSamples JsonConstraint StopMatcher ReasoningBudget PrefillPlan SpecProps ReplyText
begin

text \<open>
  A verification development for rMLX, an inference server for language models on Apple hardware
  (Rust, \<^verbatim>\<open>crates/\<close>). File names below are relative to \<^verbatim>\<open>crates/\<close>.

  \<^bold>\<open>The parts of the program and how they interact.\<close> A request reaches a route of
  \<^verbatim>\<open>rmlx-server\<close> and is bounded by the context ceiling of the run. The prompt is looked up in the
  prompt cache of its architecture, which keeps snapshots of the KV layers of earlier prompts
  under an index of prefixes and answers with the longest that may be reused. The rest of the prompt
  is prefilled in pieces. The block manager is a second store of prefixes, by hashed blocks, which
  nothing else in the program calls yet. A decode loop, or a speculative round loop with a draft model, then produces token ids; a JSON
  constraint may mask the logits, and a budget may close the reasoning of the model. The step
  callback of the server turns ids into pieces of text, splits off the reasoning, and a replay hides
  a failed attempt; the stream of the route cuts stop strings and tool calls out of the text and
  frames the rest as events. The model's forwards, run on the GPU, are outside.

  \<^bold>\<open>Which theory models which part.\<close> Records are the structs, datatypes the enums, and one
  definition carries the name of one function, with a prefix for its type where names clash.

  \<^item> Shared. \<open>Prelude\<close>: machine integers, fact collections, lemmas on lists and maps.
    \<open>Utf8\<close>: a \<^verbatim>\<open>str\<close> as its bytes and the character boundaries.
  \<^item> Blocks (\<^verbatim>\<open>rmlx-models/src/block_manager/\<close>). \<open>BlockHash\<close>: the chained digests of
    \<^verbatim>\<open>hash.rs\<close> and of \<^verbatim>\<open>rmlx-kv-ssd/src/hashing.rs\<close>, with their seeds. \<open>TinyLfu\<close>: the frequency
    sketch (\<^verbatim>\<open>tinylfu.rs\<close>). \<open>MultiLru\<close>: the four-tier eviction index (\<^verbatim>\<open>multi_lru.rs\<close>).
    \<open>BlockEvents\<close>: \<^verbatim>\<open>events.rs\<close>. \<open>BlockStore\<close>: slots, free list, registry and the handles
    (\<^verbatim>\<open>store/\<close>, \<^verbatim>\<open>overflow.rs\<close>). \<open>BlockSystem\<close>: the store with the handles its clients hold, and the
    step relation of calls and destructors. \<open>BlockOps\<close>: each effect keeps the invariant.
    \<open>BlockManager\<close>: the facade of \<^verbatim>\<open>manager.rs\<close>. \<open>BlockProps\<close>: what holds in every reachable state.
  \<^item> Prefix index (\<^verbatim>\<open>rmlx-models/src/prefix_index/\<close>). \<open>PrefixIndex\<close>: the trait as a locale and
    \<^verbatim>\<open>linear.rs\<close>. \<open>RadixTree\<close>: the arena of \<^verbatim>\<open>radix.rs\<close> and the choice between the two in \<^verbatim>\<open>mod.rs\<close>.
  \<^item> Codecs of the KV cache. \<open>KvQuant\<close> and \<open>KvSpelling\<close>: the enum, its table of facts, its byte
    model and its spellings (\<^verbatim>\<open>rmlx-kv-quant/src/quant.rs\<close>, \<^verbatim>\<open>quant_descriptor.rs\<close>,
    \<^verbatim>\<open>code_plane.rs\<close>). \<open>KvLayers\<close>: the codec of each layer (\<^verbatim>\<open>rmlx-models/src/kv_cache/mod.rs\<close>,
    \<^verbatim>\<open>rmlx-core/src/kv_boundary.rs\<close>). \<open>KvCacheType\<close>: the resolver of \<^verbatim>\<open>kv_cache/cache_type.rs\<close>.
  \<^item> Layers that move. \<open>RotatingRing\<close>: the sliding-window buffer of
    \<^verbatim>\<open>rmlx-kv-quant/src/rotating.rs\<close>. \<open>GatedDelta\<close>: the recurrent cache and its tape
    (\<^verbatim>\<open>rmlx-kv-quant/src/linear_attn.rs\<close>, \<^verbatim>\<open>rmlx-models/src/qwen3_5_moe/gated_delta_net.rs\<close>).
  \<^item> Prompt cache (\<^verbatim>\<open>rmlx-models/src/prompt_cache.rs\<close>). \<open>PromptEntry\<close>: the entry trait with the
    entries of Gemma4, Qwen3.5 and Qwen2. \<open>PromptCache\<close>: slots, caps, lookup, consume, push,
    statistics. \<open>PromptCacheProps\<close>, \<open>PromptCacheSamples\<close>: its properties and their instances.
  \<^item> Constrained decoding. \<open>JsonGrammar\<close>: the byte automaton of
    \<^verbatim>\<open>rmlx-server/src/constraint_json/mod.rs\<close>. \<open>JsonLanguage\<close>: its language as a grammar.
    \<open>JsonConstraint\<close>: token table, mask, engagement and the cut of the reply
    (\<^verbatim>\<open>rmlx-models/src/constraint.rs\<close>, \<^verbatim>\<open>rmlx-server/src/openai/json_reply.rs\<close>).
  \<^item> Generation (\<^verbatim>\<open>rmlx-models/src/\<close>). \<open>PrefillPlan\<close>: \<^verbatim>\<open>prefill_chunk.rs\<close> and its two loops.
    \<open>DecodeLoop\<close>: the pipelined loop of \<^verbatim>\<open>decode_loop.rs\<close>. \<open>ContextBounds\<close>: \<^verbatim>\<open>context.rs\<close>.
  \<^item> Speculative decoding (\<^verbatim>\<open>rmlx-models/src/speculative/\<close>). \<open>SpecCaches\<close>: the cache stacks and
    the rollback. \<open>SpecRound\<close>: the round loop over any drafter (\<^verbatim>\<open>round_loop.rs\<close>,
    \<^verbatim>\<open>round_common.rs\<close>, \<^verbatim>\<open>round_stats.rs\<close>). \<open>TwoModel\<close>: the drafter of a second model and the
    entry of a request (\<^verbatim>\<open>two_model.rs\<close>). \<open>SpecRoundProps\<close>, \<open>SpecExactBase\<close>, \<open>SpecExactMain\<close>,
    \<open>SpecProps\<close>: the accounts of a request and the tokens of a greedy one.
  \<^item> Text (\<^verbatim>\<open>rmlx-server/src/\<close>). \<open>Detokenizer\<close>: \<^verbatim>\<open>detokenizer.rs\<close> and the items of a generation.
    \<open>ThinkSplitter\<close>: \<^verbatim>\<open>engine/think.rs\<close>. \<open>ReasoningBudget\<close>: the callback of
    \<^verbatim>\<open>engine/arch_generator.rs\<close> with \<^verbatim>\<open>engine/helpers.rs\<close> and the tail of \<^verbatim>\<open>qwen3.rs\<close>.
    \<open>StopMatcher\<close>: \<^verbatim>\<open>stop_matcher.rs\<close>. \<open>ToolParser\<close>, \<open>ToolStream\<close>, \<open>ToolChunks\<close>, \<open>ToolProps\<close>,
    \<open>ToolReply\<close>: \<^verbatim>\<open>tool_parser.rs\<close> in its three formats. \<open>Replay\<close>: \<^verbatim>\<open>retry.rs\<close> with the errors of
    \<^verbatim>\<open>rmlx-core/src/error.rs\<close>. \<open>AnthropicStream\<close>, \<open>AnthropicProps\<close>, \<open>AnthropicText\<close>:
    \<^verbatim>\<open>anthropic/streaming.rs\<close> and \<^verbatim>\<open>route.rs\<close>. \<open>ReplyText\<close>: callback, replay and stream together.

  \<^bold>\<open>The interfaces.\<close> Each locale is interpreted on the model of the code that provides it:
  \<open>inactive_index\<close> (\<open>mlru\<close>), \<open>prefix_index\<close> (\<open>linear\<close>, \<open>radix\<close>, and \<open>ix\<close> for the choice of either),
  \<open>cache_entry\<close> (\<open>gemma4\<close>, \<open>qwen35\<close>, \<open>qwen2\<close>), \<open>probe_grammar\<close> (\<open>json_probe\<close>) and \<open>chunked\<close>
  (\<open>qwen3\<close>, \<open>delimited\<close>), a loop whose result does not depend on how its input is cut.
\<close>

text \<open>
  \<^bold>\<open>What the groups of lemmas show.\<close>

  \<^item> Blocks: in every interleaving of calls and destructors the store invariant holds, no
    \<^verbatim>\<open>expect\<close> fails, a live handle keeps its payload and hash, an allocation succeeds exactly when
    slots suffice, and the scan counts the leading registered blocks. One defect: a hash registered
    again while its slot is inactive loses the slot for good.
  \<^item> Prefix index: both strategies answer as one map from keys to slots, and the arena stays a
    tree. A slot id stands for one key until it is removed, as \<^verbatim>\<open>prefix_index/mod.rs\<close> asks.
  \<^item> Codecs: which payloads a spelling brings back, and what the resolver lets through.
  \<^item> Layers: the ring holds the last window for any writes, trims and restores; the recurrent
    layer is independent of the pieces of its rows; a rollback leaves the kept history.
  \<^item> Prompt cache: caps, ids and index agree in every reachable state; an answer of Exact or Reuse
    is a prefix of the prompt; which slot a push evicts; the gate of a truncation suffices for it.
  \<^item> JSON: the automaton accepts the grammar's language and every accepted prefix can be
    completed; a reply sampled under an engaged constraint is a run.
  \<^item> Generation: the pieces of a prefill, the pipelined loop against the sequential one, and the
    budget under the ceiling.
  \<^item> Speculative decoding: the accounts of a request for any drafter. The greedy two-model run is
    related to the rows of logits the verifier itself gave, which need not be those of decoding one
    token at a time: every shown token is the best of a row given at the tokens before it, and a
    run without logprobs agrees with any plain decoding up to a position where the best tokens of two rows
    differ. With a windowed draft model a rejection of two tokens behind the window fails the request.
  \<^item> Text: the pieces of the detokenizer join to the decode; the matcher cuts at the first piece
    that completes a stop; the splitter marks a piece as reasoning exactly when a
    think block is open at its end, for pieces that split no tag; tool calls are found whatever the pieces are, and rendered calls come back; the
    reader of Gemma arguments returns; the events obey the protocol; the replay shows each item
    once; and, end to end, the client of a plain request reads the decode of the tokens.

  \<^bold>\<open>Bounds and fuel.\<close> Digests, sketch counters, token ids and tick counters that may wrap are
  words. Positions, lengths and counts that the code keeps as \<^verbatim>\<open>usize\<close> are natural numbers, for
  they are below the size of a prompt; an \<^verbatim>\<open>i32\<close> position is an integer. Subtractions that saturate
  or fail in the code say so in the model. The chunk size an operator sets is not clamped by the code
  either, and \<open>pieces_from\<close> adds it to a position without wrapping, which differs from a
  \<^verbatim>\<open>usize\<close> sum only for a chunk next to its largest value. \<open>ts_scan\<close> and \<open>round_loop\<close> are
  partial functions into an option; that they return is proved for the splitter with non-empty
  tags and part of the statement on the greedy run. The reader of Gemma arguments recurses on fuel:
  \<open>gemma_fuel\<close> is twice the length of the text plus three, and enough because every call that descends consumes a
  byte. The loops of the prefill plan, of the Anthropic stream and of the tool parser are
  functions with a measure (the tokens left, what the stream has yet to emit, the bytes pending); the
  decode loop recurses on the tokens of its budget.

  \<^bold>\<open>Hypotheses on what is not modelled.\<close> A forward, a tokenizer, a sampler's floats, the SSD tier and
  the engine behind the replay are arguments of the definitions. What a theorem assumes of them
  is named: \<open>serves\<close> (a forward that does not fail writes its tokens to every layer and returns
  as many rows as asked for; the rows themselves are free within sets that each position has),
  \<open>commits_prefix\<close> (the verdict of a drafter commits a prefix of its block plus one token), the
  growth of a decode with its ids, and digests that tell keys apart where a hash stands for tokens.
  Each property with such a hypothesis is followed by an instance that meets it.

  \<^bold>\<open>What is not modelled, and why.\<close> Kernels, tensors and the forwards of the architectures are
  arithmetic on the device. Sampling floats are parameters. The SSD tier, loader, metrics
  database, command line and audio are input and output around the core. The other drafters reuse
  the round loop, which is proved for any drafter, but their forwards and verdicts are not
  translated. The OpenAI stream, the JSON-schema constraint, admission, keep-alive, the session
  cache and the chat templates are left out.
\<close>

end
